(* ===== verification/Prelude.thy ===== *)
theory Prelude
  imports Main "HOL-Library.Word" "HOL-Library.AList"
begin

text \<open>
  Shared vocabulary of the development: the machine integers the sources use, Rust's
  \<^verbatim>\<open>Result\<close> with its \<open>?\<close> operator, the little-endian integer encodings of the standard
  library, and byte-range reads and writes on arrays, each with the laws the component
  theories rewrite with.
\<close>

section \<open>Machine integers and results\<close>

type_synonym u8 = "8 word"
type_synonym u16 = "16 word"
type_synonym u32 = "32 word"
type_synonym u64 = "64 word"

text \<open>
  A Rust \<^verbatim>\<open>Result<T, E>\<close> is the sum \<open>'e + 'a\<close> with \<open>Inl\<close> for \<^verbatim>\<open>Err\<close> and \<open>Inr\<close> for
  \<^verbatim>\<open>Ok\<close>; \<open>and_then\<close> is what the \<^verbatim>\<open>?\<close> operator does, and \<open>try_map\<close> is
  \<^verbatim>\<open>iter().map(f).collect::<Result<Vec<_>, _>>()\<close>, which stops at the first error.
\<close>

named_theorems result_simps \<open>evaluation of Result combinators\<close>
named_theorems bytes_simps \<open>byte ranges and little-endian integers\<close>

definition and_then :: "'e + 'a \<Rightarrow> ('a \<Rightarrow> 'e + 'b) \<Rightarrow> 'e + 'b" where
  "and_then r f = (case r of Inl e \<Rightarrow> Inl e | Inr x \<Rightarrow> f x)"

lemma and_then_simps [simp, result_simps]:
  "and_then (Inl e) f = Inl e"
  "and_then (Inr x) f = f x"
  by (simp_all add: and_then_def)

lemma and_then_Inr_iff:
  "and_then r f = Inr y \<longleftrightarrow> (\<exists>x. r = Inr x \<and> f x = Inr y)"
  by (cases r) auto

lemma and_then_Inl_iff:
  "and_then r f = Inl e \<longleftrightarrow> r = Inl e \<or> (\<exists>x. r = Inr x \<and> f x = Inl e)"
  by (cases r) auto

lemma and_then_cong [fundef_cong]:
  "r = r' \<Longrightarrow> (\<And>x. r' = Inr x \<Longrightarrow> f x = g x) \<Longrightarrow> and_then r f = and_then r' g"
  by (cases r') auto

definition require :: "bool \<Rightarrow> 'e \<Rightarrow> 'e + unit" where
  "require b e = (if b then Inr () else Inl e)"

lemma require_simps [simp, result_simps]:
  "require True e = Inr ()" "require False e = Inl e"
  by (simp_all add: require_def)

lemma require_Inr_iff [simp]: "require b e = Inr u \<longleftrightarrow> b"
  by (cases b) (auto)

definition map_err :: "('e \<Rightarrow> 'f) \<Rightarrow> 'e + 'a \<Rightarrow> 'f + 'a" where
  "map_err f r = (case r of Inl e \<Rightarrow> Inl (f e) | Inr x \<Rightarrow> Inr x)"

lemma map_err_simps [simp, result_simps]:
  "map_err f (Inl e) = Inl (f e)" "map_err f (Inr x) = Inr x"
  by (simp_all add: map_err_def)

lemma map_err_Inr_iff [simp]: "map_err f r = Inr x \<longleftrightarrow> r = Inr x"
  by (cases r) auto

definition ok_or :: "'e \<Rightarrow> 'a option \<Rightarrow> 'e + 'a" where
  "ok_or e r = (case r of None \<Rightarrow> Inl e | Some x \<Rightarrow> Inr x)"

lemma ok_or_simps [simp, result_simps]:
  "ok_or e None = Inl e" "ok_or e (Some x) = Inr x"
  by (simp_all add: ok_or_def)

lemma ok_or_Inr_iff [simp]: "ok_or e r = Inr x \<longleftrightarrow> r = Some x"
  by (cases r) auto

fun try_map :: "('a \<Rightarrow> 'e + 'b) \<Rightarrow> 'a list \<Rightarrow> 'e + 'b list" where
  "try_map f [] = Inr []"
| "try_map f (x # xs) = and_then (f x) (\<lambda>y. and_then (try_map f xs) (\<lambda>ys. Inr (y # ys)))"

lemma try_map_cong [fundef_cong]:
  "xs = ys \<Longrightarrow> (\<And>x. x \<in> set ys \<Longrightarrow> f x = g x) \<Longrightarrow> try_map f xs = try_map g ys"
  by (induction xs arbitrary: ys) auto

text \<open>\<^verbatim>\<open>for x in xs { f(x)?; }\<close>\<close>

fun try_all :: "('a \<Rightarrow> 'e + unit) \<Rightarrow> 'a list \<Rightarrow> 'e + unit" where
  "try_all f [] = Inr ()"
| "try_all f (x # xs) = and_then (f x) (\<lambda>_. try_all f xs)"

lemma try_all_cong [fundef_cong]:
  "xs = ys \<Longrightarrow> (\<And>x. x \<in> set ys \<Longrightarrow> f x = g x) \<Longrightarrow> try_all f xs = try_all g ys"
  by (induction xs arbitrary: ys) auto

lemma try_all_iff: "try_all f xs = Inr () \<longleftrightarrow> (\<forall>x \<in> set xs. f x = Inr ())"
  by (induction xs) (auto simp: and_then_Inr_iff)

lemma try_all_Inl: "try_all f xs = Inl e \<Longrightarrow> \<exists>x \<in> set xs. f x = Inl e"
  by (induction xs) (auto simp: and_then_Inl_iff)

text \<open>\<^verbatim>\<open>option.map(f).transpose()?\<close>\<close>

definition try_option :: "('a \<Rightarrow> 'e + 'b) \<Rightarrow> 'a option \<Rightarrow> 'e + 'b option" where
  "try_option f x = (case x of None \<Rightarrow> Inr None | Some v \<Rightarrow> and_then (f v) (\<lambda>y. Inr (Some y)))"

lemma try_option_simps [simp, result_simps]:
  "try_option f None = Inr None" "try_option f (Some v) = and_then (f v) (\<lambda>y. Inr (Some y))"
  by (simp_all add: try_option_def)

lemma try_option_cong [fundef_cong]:
  "x = y \<Longrightarrow> (\<And>v. y = Some v \<Longrightarrow> f v = g v) \<Longrightarrow> try_option f x = try_option g y"
  by (cases y) auto

text \<open>The errors a computation may stop with; the rules follow the combinators.\<close>

named_theorems fails_rules \<open>where the errors of a Result computation come from\<close>

definition fails_in :: "('e \<Rightarrow> bool) \<Rightarrow> 'e + 'a \<Rightarrow> bool" where
  "fails_in E r \<longleftrightarrow> (\<forall>e. r = Inl e \<longrightarrow> E e)"

lemma fails_inI [intro?]: "(\<And>e. r = Inl e \<Longrightarrow> E e) \<Longrightarrow> fails_in E r"
  by (simp add: fails_in_def)

lemma fails_inD: "fails_in E r \<Longrightarrow> r = Inl e \<Longrightarrow> E e"
  by (simp add: fails_in_def)

lemma fails_in_Inr [simp, fails_rules]: "fails_in E (Inr x)"
  by (simp add: fails_in_def)

lemma fails_in_Inl [simp]: "fails_in E (Inl e) \<longleftrightarrow> E e"
  by (simp add: fails_in_def)

lemma fails_in_and_then [fails_rules]:
  "fails_in E r \<Longrightarrow> (\<And>x. r = Inr x \<Longrightarrow> fails_in E (f x)) \<Longrightarrow> fails_in E (and_then r f)"
  by (cases r) auto

lemma fails_in_ok_or [fails_rules]: "(r = None \<Longrightarrow> E e) \<Longrightarrow> fails_in E (ok_or e r)"
  by (cases r) auto

lemma fails_in_if [fails_rules]: "(b \<Longrightarrow> fails_in E r) \<Longrightarrow> (\<not> b \<Longrightarrow> fails_in E r') \<Longrightarrow> fails_in E (if b then r else r')"
  by simp

lemma fails_in_map_err [fails_rules]: "fails_in (\<lambda>e. E (f e)) r \<Longrightarrow> fails_in E (map_err f r)"
  by (cases r) auto

lemma fails_in_try_option [fails_rules]: "(\<And>v. x = Some v \<Longrightarrow> fails_in E (f v)) \<Longrightarrow> fails_in E (try_option f x)"
  by (cases x) (auto intro: fails_in_and_then)

lemma fails_in_try_map [fails_rules]: "(\<And>x. x \<in> set xs \<Longrightarrow> fails_in E (f x)) \<Longrightarrow> fails_in E (try_map f xs)"
  by (induction xs) (auto intro!: fails_in_and_then)

lemma fails_in_mono: "fails_in E r \<Longrightarrow> (\<And>e. E e \<Longrightarrow> E' e) \<Longrightarrow> fails_in E' r"
  by (simp add: fails_in_def)

lemma try_map_length: "try_map f xs = Inr ys \<Longrightarrow> length ys = length xs"
  by (induction xs arbitrary: ys) (auto simp: and_then_Inr_iff)

lemma try_map_nth:
  "try_map f xs = Inr ys \<Longrightarrow> i < length xs \<Longrightarrow> f (xs ! i) = Inr (ys ! i)"
  by (induction xs arbitrary: ys i) (auto simp: and_then_Inr_iff nth_Cons split: nat.splits)

lemma try_map_all2: "try_map f xs = Inr ys \<longleftrightarrow> list_all2 (\<lambda>x y. f x = Inr y) xs ys"
  by (induction xs arbitrary: ys) (auto simp: and_then_Inr_iff list_all2_Cons1)

lemma try_map_set: "try_map f xs = Inr ys \<Longrightarrow> y \<in> set ys \<Longrightarrow> \<exists>x \<in> set xs. f x = Inr y"
  by (induction xs arbitrary: ys) (auto simp: and_then_Inr_iff)

lemma try_map_Inl:
  "try_map f xs = Inl e \<Longrightarrow> \<exists>i < length xs. f (xs ! i) = Inl e \<and> (\<forall>j < i. \<exists>y. f (xs ! j) = Inr y)"
proof (induction xs)
  case (Cons x xs)
  show ?case
  proof (cases "f x")
    case (Inl a)
    with Cons.prems show ?thesis by (intro exI [of _ 0]) auto
  next
    case (Inr y)
    with Cons obtain i where "i < length xs" "f (xs ! i) = Inl e"
      "\<forall>j < i. \<exists>y. f (xs ! j) = Inr y"
      by (auto simp: and_then_Inl_iff)
    with Inr show ?thesis
      by (intro exI [of _ "Suc i"]) (auto simp: nth_Cons split: nat.splits)
  qed
qed simp

text \<open>
  A fallible operation on a state of type \<open>'s\<close> returns its result and the state it leaves
  behind, on the error path as well; \<open>io_then\<close> sequences two of them as \<^verbatim>\<open>?\<close> does.
\<close>

type_synonym ('s, 'e, 'a) io = "'s \<Rightarrow> ('e + 'a) \<times> 's"

definition io_ok :: "'a \<Rightarrow> ('s, 'e, 'a) io" where
  "io_ok x s = (Inr x, s)"

definition io_err :: "'e \<Rightarrow> ('s, 'e, 'a) io" where
  "io_err e s = (Inl e, s)"

definition io_lift :: "'e + 'a \<Rightarrow> ('s, 'e, 'a) io" where
  "io_lift r s = (r, s)"

definition io_then :: "('s, 'e, 'a) io \<Rightarrow> ('a \<Rightarrow> ('s, 'e, 'b) io) \<Rightarrow> ('s, 'e, 'b) io" where
  "io_then m f s = (case m s of (Inl e, s') \<Rightarrow> (Inl e, s') | (Inr x, s') \<Rightarrow> f x s')"

lemma io_simps [simp, result_simps]:
  "io_ok x s = (Inr x, s)"
  "io_err e s = (Inl e, s)"
  "io_lift r s = (r, s)"
  by (simp_all add: io_ok_def io_err_def io_lift_def)

lemma io_then_simps [simp, result_simps]:
  "m s = (Inl e, s') \<Longrightarrow> io_then m f s = (Inl e, s')"
  "m s = (Inr x, s') \<Longrightarrow> io_then m f s = f x s'"
  by (simp_all add: io_then_def)

lemma io_thenE:
  assumes "io_then m f s = (r, t)"
  obtains (err) e where "m s = (Inl e, t)" "r = Inl e"
  | (ok) x s' where "m s = (Inr x, s')" "f x s' = (r, t)"
  using assms by (auto simp: io_then_def split: prod.splits sum.splits)

lemma io_then_cong [fundef_cong]:
  "m s = m' s' \<Longrightarrow> (\<And>x t. m' s' = (Inr x, t) \<Longrightarrow> f x t = f' x t) \<Longrightarrow> io_then m f s = io_then m' f' s'"
  by (auto simp: io_then_def split: prod.splits sum.splits)

section \<open>Little-endian integers\<close>

text \<open>
  \<^verbatim>\<open>uN::to_le_bytes\<close> and \<^verbatim>\<open>uN::from_le_bytes\<close> of the Rust standard library, once for
  every width: the base-256 digits of a number, least significant first.
\<close>

fun le_digits :: "nat \<Rightarrow> nat \<Rightarrow> u8 list" where
  "le_digits 0 n = []"
| "le_digits (Suc k) n = word_of_nat n # le_digits k (n div 256)"

fun le_value :: "u8 list \<Rightarrow> nat" where
  "le_value [] = 0"
| "le_value (b # bs) = unat b + 256 * le_value bs"

lemma length_le_digits [simp]: "length (le_digits k n) = k"
  by (induction k arbitrary: n) auto

lemma unat_of_nat_byte: "unat (word_of_nat n :: u8) = n mod 256"
  by (simp add: unat_of_nat)

lemma le_value_digits [bytes_simps]: "le_value (le_digits k n) = n mod 256 ^ k"
  by (induction k arbitrary: n) (simp_all add: unat_of_nat_byte mod_mult2_eq)

lemma le_value_less: "le_value bs < 256 ^ length bs"
proof (induction bs)
  case (Cons b bs)
  have "unat b < 256" using unsigned_less [of b, where 'a = nat] by simp
  with Cons show ?case by simp
qed simp

lemma le_digits_value [bytes_simps]: "le_digits (length bs) (le_value bs) = bs"
proof (induction bs)
  case (Cons b bs)
  have b: "unat b < 256" using unsigned_less [of b, where 'a = nat] by simp
  have "(256 :: u8) = 0" by (rule word_uint_eqI) simp
  then have "256 * word_of_nat (le_value bs) = (0 :: u8)" by (metis mult_zero_left)
  then have "word_of_nat (unat b + 256 * le_value bs) = b" by simp
  with b Cons show ?case by simp
qed simp

lemma list_of_length_2: "length xs = 2 \<Longrightarrow> [xs ! 0, xs ! Suc 0] = xs"
  by (rule nth_equalityI) (auto simp: less_Suc_eq numeral_eq_Suc)

lemma list_of_length_4: "length xs = 4 \<Longrightarrow> [xs ! 0, xs ! Suc 0, xs ! 2, xs ! 3] = xs"
  by (rule nth_equalityI) (auto simp: less_Suc_eq numeral_eq_Suc)

lemma list_of_length_6:
  "length xs = 6 \<Longrightarrow> [xs ! 0, xs ! Suc 0, xs ! 2, xs ! 3, xs ! 4, xs ! 5] = xs"
  by (rule nth_equalityI) (auto simp: less_Suc_eq numeral_eq_Suc)

definition u16_to_le_bytes :: "u16 \<Rightarrow> u8 list" where
  "u16_to_le_bytes w = le_digits 2 (unat w)"

definition u16_from_le_bytes :: "u8 list \<Rightarrow> u16" where
  "u16_from_le_bytes bs = word_of_nat (le_value bs)"

definition u32_to_le_bytes :: "u32 \<Rightarrow> u8 list" where
  "u32_to_le_bytes w = le_digits 4 (unat w)"

definition u32_from_le_bytes :: "u8 list \<Rightarrow> u32" where
  "u32_from_le_bytes bs = word_of_nat (le_value bs)"

lemma length_to_le_bytes [simp]:
  "length (u16_to_le_bytes w) = 2" "length (u32_to_le_bytes v) = 4"
  by (simp_all add: u16_to_le_bytes_def u32_to_le_bytes_def)

lemma unat_u16_less: "unat (w :: u16) < 65536"
  using unsigned_less [of w, where 'a = nat] by simp

lemma unat_u32_less: "unat (w :: u32) < 4294967296"
  using unsigned_less [of w, where 'a = nat] by simp

lemma u16_le_roundtrip [simp, bytes_simps]: "u16_from_le_bytes (u16_to_le_bytes w) = w"
  using unat_u16_less [of w] by (simp add: u16_to_le_bytes_def u16_from_le_bytes_def le_value_digits)

lemma u32_le_roundtrip [simp, bytes_simps]: "u32_from_le_bytes (u32_to_le_bytes w) = w"
  using unat_u32_less [of w] by (simp add: u32_to_le_bytes_def u32_from_le_bytes_def le_value_digits)

lemma u16_le_bytes_inverse:
  "length bs = 2 \<Longrightarrow> u16_to_le_bytes (u16_from_le_bytes bs) = bs"
  using le_value_less [of bs] le_digits_value [of bs]
  by (simp add: u16_to_le_bytes_def u16_from_le_bytes_def unat_of_nat)

lemma u32_le_bytes_inverse:
  "length bs = 4 \<Longrightarrow> u32_to_le_bytes (u32_from_le_bytes bs) = bs"
  using le_value_less [of bs] le_digits_value [of bs]
  by (simp add: u32_to_le_bytes_def u32_from_le_bytes_def unat_of_nat)

section \<open>Byte ranges\<close>

text \<open>
  \<open>slice xs at len\<close> is \<^verbatim>\<open>&xs[at..at + len]\<close> and \<open>copy_at xs at ys\<close> is
  \<^verbatim>\<open>xs[at..at + ys.len()].copy_from_slice(ys)\<close>. Both panic in Rust when the range leaves
  the array; the laws below carry that bound as a hypothesis.
\<close>

definition slice :: "'a list \<Rightarrow> nat \<Rightarrow> nat \<Rightarrow> 'a list" where
  "slice xs at len = take len (drop at xs)"

definition copy_at :: "'a list \<Rightarrow> nat \<Rightarrow> 'a list \<Rightarrow> 'a list" where
  "copy_at xs at ys = take at xs @ ys @ drop (at + length ys) xs"

lemma length_slice [bytes_simps]: "at + len \<le> length xs \<Longrightarrow> length (slice xs at len) = len"
  by (simp add: slice_def)

lemma nth_slice [bytes_simps]: "at + len \<le> length xs \<Longrightarrow> i < len \<Longrightarrow> slice xs at len ! i = xs ! (at + i)"
  by (simp add: slice_def)

lemma length_copy_at [bytes_simps]: "at + length ys \<le> length xs \<Longrightarrow> length (copy_at xs at ys) = length xs"
  by (simp add: copy_at_def)

lemma nth_copy_at:
  "at + length ys \<le> length xs \<Longrightarrow> i < length xs \<Longrightarrow>
   copy_at xs at ys ! i = (if at \<le> i \<and> i < at + length ys then ys ! (i - at) else xs ! i)"
  by (auto simp: copy_at_def nth_append)

lemma slice_copy_at_same [bytes_simps]:
  "at + length ys \<le> length xs \<Longrightarrow> len = length ys \<Longrightarrow> slice (copy_at xs at ys) at len = ys"
  by (simp add: slice_def copy_at_def)

lemma slice_copy_at_other:
  assumes "at + length ys \<le> length xs" and "b + len \<le> length xs"
    and "b + len \<le> at \<or> at + length ys \<le> b"
  shows "slice (copy_at xs at ys) b len = slice xs b len"
  by (rule nth_equalityI)
    (use assms in \<open>auto simp: length_slice length_copy_at nth_slice nth_copy_at\<close>)

lemma slice_slice: "i + k \<le> len \<Longrightarrow> slice (slice xs at len) i k = slice xs (at + i) k"
  by (simp add: slice_def drop_take min_def ac_simps)

section \<open>Hash maps as association lists\<close>

text \<open>
  \<^verbatim>\<open>HashMap::insert\<close> and \<^verbatim>\<open>HashMap::remove\<close> are \<open>AList.update\<close> and \<open>AList.delete\<close>; with
  distinct keys \<open>length\<close> is \<^verbatim>\<open>HashMap::len\<close>.
\<close>

lemma alist_length_update:
  "length (AList.update k v al) = (if map_of al k = None then Suc (length al) else length al)"
  by (induction al) auto

lemma alist_length_delete:
  "distinct (map fst al) \<Longrightarrow>
   length (AList.delete k al) = (if map_of al k = None then length al else length al - 1)"
proof (induction al)
  case (Cons a al)
  show ?case
  proof (cases "fst a = k")
    case True
    with Cons have "map_of al k = None" by (auto simp: map_of_eq_None_iff)
    with True Cons show ?thesis by (cases a) (simp add: AList.delete_eq)
  next
    case False
    have "map_of al k \<noteq> None \<Longrightarrow> al \<noteq> []" by auto
    with False Cons show ?thesis by (cases a) (auto simp: AList.delete_eq)
  qed
qed (simp add: AList.delete_eq)

lemmas alist_map_of = AList.update_conv' AList.delete_conv'

section \<open>Decimal numerals in messages and generated names\<close>

text \<open>The decimal digits that \<^verbatim>\<open>format!("{n}")\<close> prints for an unsigned integer.\<close>

definition digit_char :: "nat \<Rightarrow> char" where
  "digit_char d = char_of (48 + d)"

fun show_nat :: "nat \<Rightarrow> string" where
  "show_nat n = (if n < 10 then [digit_char n] else show_nat (n div 10) @ [digit_char (n mod 10)])"

declare show_nat.simps [simp del]

fun read_digits :: "nat \<Rightarrow> string \<Rightarrow> nat" where
  "read_digits acc [] = acc"
| "read_digits acc (c # cs) = read_digits (10 * acc + (of_char c - 48)) cs"

lemma read_digits_append: "read_digits acc (xs @ ys) = read_digits (read_digits acc xs) ys"
  by (induction xs arbitrary: acc) auto

lemma of_char_digit_char: "d < 10 \<Longrightarrow> of_char (digit_char d) = 48 + d"
  by (simp add: digit_char_def of_char_of)

lemma read_show_nat: "read_digits 0 (show_nat n) = n"
proof (induction n rule: show_nat.induct)
  case (1 n)
  show ?case
  proof (cases "n < 10")
    case True
    then show ?thesis by (subst show_nat.simps) (simp add: of_char_digit_char)
  next
    case False
    with 1 show ?thesis
      by (subst show_nat.simps) (simp add: read_digits_append of_char_digit_char)
  qed
qed

lemma show_nat_inj [simp]: "show_nat m = show_nat n \<longleftrightarrow> m = n"
  by (metis read_show_nat)

end
