(* ===== verification/Ctid.thy ===== *)
theory Ctid
  imports Prelude
begin

text \<open>
  The shared tuple address of \<^verbatim>\<open>crates/common/src/lib.rs\<close>: a page number and a one-based
  slot number, with its six-byte interchange encoding. \<^verbatim>\<open>NonZeroU16\<close> is a \<open>u16\<close> together
  with the well-formedness predicate \<open>ctid_wf\<close>, which every constructor establishes.
\<close>

record ctid =
  page_id :: u32
  slot_id :: u16

definition ctid_wf :: "ctid \<Rightarrow> bool" where
  "ctid_wf c \<longleftrightarrow> slot_id c \<noteq> 0"

definition BYTE_LEN :: nat where
  "BYTE_LEN = 6"

definition nonzero_u16 :: "u16 \<Rightarrow> u16 option" where
  "nonzero_u16 n = (if n = 0 then None else Some n)"

definition ctid_new :: "u32 \<Rightarrow> u16 \<Rightarrow> ctid option" where
  "ctid_new p s = (case nonzero_u16 s of
     Some s' \<Rightarrow> Some \<lparr>page_id = p, slot_id = s'\<rparr>
   | None \<Rightarrow> None)"

definition ctid_to_le_bytes :: "ctid \<Rightarrow> u8 list" where
  "ctid_to_le_bytes c =
     (let page = u32_to_le_bytes (page_id c); slot = u16_to_le_bytes (slot_id c)
      in [page ! 0, page ! 1, page ! 2, page ! 3, slot ! 0, slot ! 1])"

definition ctid_from_le_bytes :: "u8 list \<Rightarrow> ctid option" where
  "ctid_from_le_bytes bytes =
     ctid_new (u32_from_le_bytes [bytes ! 0, bytes ! 1, bytes ! 2, bytes ! 3])
              (u16_from_le_bytes [bytes ! 4, bytes ! 5])"

lemma ctid_to_le_bytes_append:
  "ctid_to_le_bytes c = u32_to_le_bytes (page_id c) @ u16_to_le_bytes (slot_id c)"
  using list_of_length_4 [of "u32_to_le_bytes (page_id c)"]
    list_of_length_2 [of "u16_to_le_bytes (slot_id c)"]
  by (simp add: ctid_to_le_bytes_def Let_def)

lemma length_ctid_to_le_bytes [simp]: "length (ctid_to_le_bytes c) = BYTE_LEN"
  by (simp add: ctid_to_le_bytes_def Let_def BYTE_LEN_def)

lemma ctid_decode_encode: "ctid_wf c \<Longrightarrow> ctid_from_le_bytes (ctid_to_le_bytes c) = Some c"
  by (simp add: ctid_from_le_bytes_def ctid_to_le_bytes_def Let_def ctid_new_def
      nonzero_u16_def ctid_wf_def list_of_length_4 list_of_length_2)

lemma ctid_from_le_bytes_wf: "ctid_from_le_bytes bs = Some c \<Longrightarrow> ctid_wf c"
  by (auto simp: ctid_from_le_bytes_def ctid_new_def nonzero_u16_def ctid_wf_def split: if_splits)

lemma ctid_encode_decode:
  assumes "length bs = BYTE_LEN" and "ctid_from_le_bytes bs = Some c"
  shows "ctid_to_le_bytes c = bs"
proof -
  have "c = \<lparr>page_id = u32_from_le_bytes [bs ! 0, bs ! 1, bs ! 2, bs ! 3],
             slot_id = u16_from_le_bytes [bs ! 4, bs ! 5]\<rparr>"
    using assms(2) by (auto simp: ctid_from_le_bytes_def ctid_new_def nonzero_u16_def split: if_splits)
  with assms(1) list_of_length_6 [of bs] show ?thesis
    by (simp add: ctid_to_le_bytes_append u32_le_bytes_inverse u16_le_bytes_inverse BYTE_LEN_def)
qed

section \<open>The derived order\<close>

text \<open>
  \<^verbatim>\<open>#[derive(PartialOrd, Ord)]\<close> compares the fields in declaration order: page first, then
  slot.
\<close>

instantiation ctid_ext :: (linorder) linorder
begin

definition less_eq_ctid_ext :: "'a ctid_scheme \<Rightarrow> 'a ctid_scheme \<Rightarrow> bool" where
  "less_eq_ctid_ext a b \<longleftrightarrow> page_id a < page_id b \<or> page_id a = page_id b \<and>
     (slot_id a < slot_id b \<or> slot_id a = slot_id b \<and> ctid.more a \<le> ctid.more b)"

definition less_ctid_ext :: "'a ctid_scheme \<Rightarrow> 'a ctid_scheme \<Rightarrow> bool" where
  "less_ctid_ext a b \<longleftrightarrow> page_id a < page_id b \<or> page_id a = page_id b \<and>
     (slot_id a < slot_id b \<or> slot_id a = slot_id b \<and> ctid.more a < ctid.more b)"

instance
  by standard (auto simp: less_eq_ctid_ext_def less_ctid_ext_def intro!: ctid.equality)

end

lemma ctid_less_iff:
  "(a :: ctid) < b \<longleftrightarrow> page_id a < page_id b \<or> page_id a = page_id b \<and> slot_id a < slot_id b"
  by (simp add: less_ctid_ext_def)

section \<open>Property\<close>

text \<open>
  C30: The six-byte interchange encoding of an address is a bijection between addresses and
  the six-byte strings that decode at all: decoding inverts encoding, encoding inverts
  decoding, and exactly the strings whose slot bytes are zero are refused.
\<close>

theorem ctid_codec_bijective:
  shows "(ctid_wf c \<longrightarrow> length (ctid_to_le_bytes c) = BYTE_LEN \<and> ctid_from_le_bytes (ctid_to_le_bytes c) = Some c) \<and>
    (length bs = BYTE_LEN \<longrightarrow>
       (case ctid_from_le_bytes bs of
          Some c' \<Rightarrow> ctid_wf c' \<and> ctid_to_le_bytes c' = bs
        | None \<Rightarrow> u16_from_le_bytes [bs ! 4, bs ! 5] = 0))"
  using ctid_decode_encode [of c] ctid_encode_decode [of bs] ctid_from_le_bytes_wf [of bs]
  by (auto split: option.split) (auto simp: ctid_from_le_bytes_def ctid_new_def nonzero_u16_def split: if_splits)

theorem ctid_codec_bijective_witness:
  "ctid_from_le_bytes (ctid_to_le_bytes \<lparr>page_id = 67305985, slot_id = 1541\<rparr>) =
     Some \<lparr>page_id = 67305985, slot_id = 1541\<rparr> \<and>
   (case ctid_from_le_bytes [1, 2, 3, 4, 5, 6] of
      Some c' \<Rightarrow> ctid_wf c' \<and> ctid_to_le_bytes c' = [1, 2, 3, 4, 5, 6]
    | None \<Rightarrow> u16_from_le_bytes [[1, 2, 3, 4, 5, 6] ! 4, [1, 2, 3, 4, 5, 6] ! 5] = 0)"
  using ctid_codec_bijective [of "\<lparr>page_id = 67305985, slot_id = 1541\<rparr>" "[1, 2, 3, 4, 5, 6]"]
  unfolding ctid_wf_def BYTE_LEN_def by simp

end
