(* ===== verification/LoadingProtocol.thy ===== *)
theory LoadingProtocol
  imports Prelude
begin

text \<open>
  The asynchronous page-loading protocol that \<^verbatim>\<open>crates/storage/src/models/buffer_pool.rs\<close>
  gives to the Stateright model checker. The source explores it exhaustively for a few small
  bounds; here \<^verbatim>\<open>actions\<close> and \<^verbatim>\<open>next_state\<close> are translated as they stand and the checked
  \<^verbatim>\<open>always\<close> properties are proved for every number of frames, pages and backends, by an
  inductive invariant over the reachable states. The \<^verbatim>\<open>sometimes\<close> properties are reached by
  explicit action sequences of the smallest models, which every larger model can repeat, and
  are unreachable where the source does not register them.
\<close>

section \<open>State\<close>

record buffer_model =
  bm_frame_count :: nat
  bm_page_count :: nat
  bm_backend_count :: nat

definition buffer_model_new :: "nat \<Rightarrow> nat \<Rightarrow> nat \<Rightarrow> buffer_model option" where
  "buffer_model_new fc pc bc =
     (if fc > 0 \<and> pc > 0 \<and> bc > 0
      then Some \<lparr>bm_frame_count = fc, bm_page_count = pc, bm_backend_count = bc\<rparr> else None)"

datatype frame =
    Free
  | FrameReserved (target_page_id: nat) (owner_backend_id: nat)
  | Flushing (old_page_id: nat) (flush_target_id: nat) (flush_owner_id: nat)
  | Loading (load_page_id: nat) (io_started: bool)
  | Ready (ready_page_id: nat) (pin_count_of: nat) (ready_dirty: bool)

datatype backend =
    Idle
  | Request nat bool
  | Miss nat bool
  | BackendReserved nat nat bool
  | Waiting nat nat bool
  | Pinned nat nat
  | Reading nat nat
  | Writing nat nat

fun backend_pin :: "backend \<Rightarrow> (nat \<times> nat) option" where
  "backend_pin (Pinned f p) = Some (f, p)"
| "backend_pin (Reading f p) = Some (f, p)"
| "backend_pin (Writing f p) = Some (f, p)"
| "backend_pin _ = None"

datatype event =
    NoEvent
  | RaceReleased nat
  | LoadFailed nat nat
  | RetrySucceeded
  | FlushFailed nat nat

record lp_state =
  lp_frames :: "frame list"
  lp_backends :: "backend list"
  lp_table :: "nat option list"
  lp_event :: event

datatype action =
    ARequest nat nat
  | ALookup nat
  | AReserve nat nat
  | APublish nat
  | ASubmit nat
  | ALoadDone nat bool
  | AFlushDone nat bool
  | ACancel nat
  | ARead nat
  | AWrite nat
  | AEndAccess nat
  | AUnpin nat

section \<open>Transitions\<close>

abbreviation set_lp_frame :: "nat \<Rightarrow> frame \<Rightarrow> lp_state \<Rightarrow> lp_state" where
  "set_lp_frame f v s \<equiv> s\<lparr>lp_frames := (lp_frames s)[f := v]\<rparr>"

abbreviation set_backend :: "nat \<Rightarrow> backend \<Rightarrow> lp_state \<Rightarrow> lp_state" where
  "set_backend b v s \<equiv> s\<lparr>lp_backends := (lp_backends s)[b := v]\<rparr>"

abbreviation set_table :: "nat \<Rightarrow> nat option \<Rightarrow> lp_state \<Rightarrow> lp_state" where
  "set_table p v s \<equiv> s\<lparr>lp_table := (lp_table s)[p := v]\<rparr>"

definition join :: "nat \<Rightarrow> nat \<Rightarrow> nat \<Rightarrow> bool \<Rightarrow> lp_state \<Rightarrow> lp_state" where
  "join b f p retry s =
     (case lp_frames s ! f of
        Ready q pins dirty \<Rightarrow> set_backend b (Pinned f p) (set_lp_frame f (Ready q (pins + 1) dirty) s)
      | Loading q io \<Rightarrow> set_backend b (Waiting f p retry) s
      | _ \<Rightarrow> set_backend b (Request p retry) s)"

fun published :: "frame \<Rightarrow> nat option" where
  "published (Ready p _ _) = Some p"
| "published (Loading p _) = Some p"
| "published (Flushing old _ _) = Some old"
| "published _ = None"

definition init_state :: "buffer_model \<Rightarrow> lp_state" where
  "init_state m = \<lparr>lp_frames = replicate (bm_frame_count m) Free,
     lp_backends = replicate (bm_backend_count m) Idle,
     lp_table = replicate (bm_page_count m) None, lp_event = NoEvent\<rparr>"

text \<open>\<^verbatim>\<open>state.page_table[page_id].map(|frame_id| state.frames[frame_id])\<close>\<close>

definition mapped_frame :: "lp_state \<Rightarrow> nat \<Rightarrow> frame option" where
  "mapped_frame s p = map_option ((!) (lp_frames s)) (lp_table s ! p)"

definition evictable :: "frame \<Rightarrow> bool" where
  "evictable fr = (case fr of Free \<Rightarrow> True | Ready _ pins _ \<Rightarrow> pins = 0 | _ \<Rightarrow> False)"

definition is_writing :: "nat \<Rightarrow> backend \<Rightarrow> bool" where
  "is_writing f bk = (case bk of Writing g _ \<Rightarrow> g = f | _ \<Rightarrow> False)"

definition is_accessing :: "nat \<Rightarrow> backend \<Rightarrow> bool" where
  "is_accessing f bk = (case bk of Reading g _ \<Rightarrow> g = f | Writing g _ \<Rightarrow> g = f | _ \<Rightarrow> False)"

definition is_waiting :: "nat \<Rightarrow> backend \<Rightarrow> bool" where
  "is_waiting f bk = (case bk of Waiting g _ _ \<Rightarrow> g = f | _ \<Rightarrow> False)"

definition backend_actions :: "buffer_model \<Rightarrow> lp_state \<Rightarrow> nat \<Rightarrow> action list" where
  "backend_actions m s b =
     (case lp_backends s ! b of
        Idle \<Rightarrow> map (ARequest b) [0..<bm_page_count m]
      | Request p _ \<Rightarrow> (case mapped_frame s p of Some (Flushing _ _ _) \<Rightarrow> [] | _ \<Rightarrow> [ALookup b])
      | Miss p _ \<Rightarrow>
          (case mapped_frame s p of Some (Ready _ _ _) \<Rightarrow> [ALookup b] | Some (Loading _ _) \<Rightarrow> [ALookup b] | _ \<Rightarrow> []) @
          map (AReserve b) (filter (\<lambda>f. evictable (lp_frames s ! f)) [0..<length (lp_frames s)])
      | BackendReserved f _ _ \<Rightarrow> (case lp_frames s ! f of FrameReserved _ _ \<Rightarrow> [APublish b] | _ \<Rightarrow> [])
      | Waiting _ _ _ \<Rightarrow> [ACancel b]
      | Pinned f _ \<Rightarrow>
          [AUnpin b] @
          (if \<not> list_ex (is_writing f) (lp_backends s) then [ARead b] else []) @
          (if \<not> list_ex (is_accessing f) (lp_backends s) then [AWrite b] else [])
      | Reading _ _ \<Rightarrow> [AEndAccess b]
      | Writing _ _ \<Rightarrow> [AEndAccess b])"

definition frame_actions :: "lp_state \<Rightarrow> nat \<Rightarrow> action list" where
  "frame_actions s f =
     (case lp_frames s ! f of
        Loading _ io \<Rightarrow> (if io then [ALoadDone f True, ALoadDone f False] else [ASubmit f])
      | Flushing _ _ _ \<Rightarrow> [AFlushDone f True, AFlushDone f False]
      | _ \<Rightarrow> [])"

definition actions :: "buffer_model \<Rightarrow> lp_state \<Rightarrow> action list" where
  "actions m s = concat (map (backend_actions m s) [0..<length (lp_backends s)]) @
     concat (map (frame_actions s) [0..<length (lp_frames s)])"

text \<open>The waiters of a finished load, and the event their retries produce.\<close>

definition wake :: "bool \<Rightarrow> nat \<Rightarrow> backend \<Rightarrow> backend" where
  "wake success f bk = (case bk of
      Waiting g p retry \<Rightarrow> (if g = f then (if success then Pinned f p else Request p True) else bk)
    | _ \<Rightarrow> bk)"

definition retried :: "nat \<Rightarrow> backend \<Rightarrow> bool" where
  "retried f bk = (case bk of Waiting g _ retry \<Rightarrow> g = f \<and> retry | _ \<Rightarrow> False)"

definition next_load_done :: "nat \<Rightarrow> bool \<Rightarrow> lp_state \<Rightarrow> lp_state option" where
  "next_load_done f success s =
     (case lp_frames s ! f of
        Loading p io \<Rightarrow>
          (if \<not> io then None
           else let bks = map (wake success f) (lp_backends s)
                in if success
                   then Some (s\<lparr>lp_backends := bks,
                     lp_frames := (lp_frames s)[f := Ready p (length (filter (is_waiting f) (lp_backends s))) False],
                     lp_event := (if list_ex (retried f) (lp_backends s) then RetrySucceeded else lp_event s)\<rparr>)
                   else Some (s\<lparr>lp_backends := bks, lp_frames := (lp_frames s)[f := Free],
                     lp_table := (lp_table s)[p := None], lp_event := LoadFailed f p\<rparr>))
      | _ \<Rightarrow> None)"

definition next_flush_done :: "nat \<Rightarrow> bool \<Rightarrow> lp_state \<Rightarrow> lp_state option" where
  "next_flush_done f success s =
     (case lp_frames s ! f of
        Flushing old target owner \<Rightarrow>
          (if success then Some (set_lp_frame f (FrameReserved target owner) (set_table old None s))
           else let s1 = set_lp_frame f (Ready old 0 True) s
                in case lp_backends s1 ! owner of
                     BackendReserved _ _ retry \<Rightarrow>
                       Some ((set_backend owner (Request target retry) s1)\<lparr>lp_event := FlushFailed f old\<rparr>)
                   | _ \<Rightarrow> None)
      | _ \<Rightarrow> None)"

definition next_lookup :: "nat \<Rightarrow> lp_state \<Rightarrow> lp_state option" where
  "next_lookup b s =
     (case (case lp_backends s ! b of Request p r \<Rightarrow> Some (p, r) | Miss p r \<Rightarrow> Some (p, r) | _ \<Rightarrow> None) of
        None \<Rightarrow> None
      | Some (p, retry) \<Rightarrow>
          Some (case lp_table s ! p of
                  Some f \<Rightarrow> join b f p retry s
                | None \<Rightarrow> set_backend b (Miss p retry) s))"

definition next_reserve :: "nat \<Rightarrow> nat \<Rightarrow> lp_state \<Rightarrow> lp_state option" where
  "next_reserve b f s =
     (case lp_backends s ! b of
        Miss p retry \<Rightarrow>
          map_option (set_backend b (BackendReserved f p retry))
            (case lp_frames s ! f of
               Ready old pins dirty \<Rightarrow>
                 (if pins \<noteq> 0 then None
                  else if dirty then Some (set_lp_frame f (Flushing old p b) s)
                  else Some (set_lp_frame f (FrameReserved p b) (set_table old None s)))
             | Free \<Rightarrow> Some (set_lp_frame f (FrameReserved p b) s)
             | _ \<Rightarrow> None)
      | _ \<Rightarrow> None)"

definition next_publish :: "nat \<Rightarrow> lp_state \<Rightarrow> lp_state option" where
  "next_publish b s =
     (case lp_backends s ! b of
        BackendReserved f p retry \<Rightarrow>
          Some (case lp_table s ! p of
             Some winner \<Rightarrow> (join b winner p retry (set_lp_frame f Free s))\<lparr>lp_event := RaceReleased f\<rparr>
           | None \<Rightarrow> set_backend b (Waiting f p retry)
               (set_lp_frame f (Loading p False) (set_table p (Some f) s)))
      | _ \<Rightarrow> None)"

definition next_state :: "lp_state \<Rightarrow> action \<Rightarrow> lp_state option" where
  "next_state previous a =
     (let s = previous\<lparr>lp_event := NoEvent\<rparr> in
      case a of
        ARequest b p \<Rightarrow> Some (set_backend b (Request p False) s)
      | ALookup b \<Rightarrow> next_lookup b s
      | AReserve b f \<Rightarrow> next_reserve b f s
      | APublish b \<Rightarrow> next_publish b s
      | ASubmit f \<Rightarrow> (case lp_frames s ! f of
          Loading p False \<Rightarrow> Some (set_lp_frame f (Loading p True) s) | _ \<Rightarrow> None)
      | ALoadDone f success \<Rightarrow> next_load_done f success s
      | AFlushDone f success \<Rightarrow> next_flush_done f success s
      | ACancel b \<Rightarrow> Some (set_backend b Idle s)
      | ARead b \<Rightarrow> (case lp_backends s ! b of
          Pinned f p \<Rightarrow> Some (set_backend b (Reading f p) s) | _ \<Rightarrow> None)
      | AWrite b \<Rightarrow> (case lp_backends s ! b of
          Pinned f p \<Rightarrow> Some (let s1 = set_backend b (Writing f p) s in
            case lp_frames s1 ! f of
              Ready q pins dirty \<Rightarrow> set_lp_frame f (Ready q pins True) s1 | _ \<Rightarrow> s1)
        | _ \<Rightarrow> None)
      | AEndAccess b \<Rightarrow> (case backend_pin (lp_backends s ! b) of
          Some (f, p) \<Rightarrow> Some (set_backend b (Pinned f p) s) | None \<Rightarrow> None)
      | AUnpin b \<Rightarrow> (case lp_backends s ! b of
          Pinned f p \<Rightarrow> Some (set_backend b Idle
            (case lp_frames s ! f of
               Ready q pins dirty \<Rightarrow> set_lp_frame f (Ready q (pins - 1) dirty) s | _ \<Rightarrow> s))
        | _ \<Rightarrow> None))"

inductive lp_reachable :: "buffer_model \<Rightarrow> lp_state \<Rightarrow> bool" for m where
  start: "lp_reachable m (init_state m)"
| step: "lp_reachable m s \<Longrightarrow> a \<in> set (actions m s) \<Longrightarrow> next_state s a = Some s' \<Longrightarrow> lp_reachable m s'"

section \<open>The checked properties\<close>

definition on_frame :: "nat \<Rightarrow> backend \<Rightarrow> bool" where
  "on_frame f bk = (case backend_pin bk of Some (g, _) \<Rightarrow> g = f | None \<Rightarrow> False)"

definition actual_pins :: "lp_state \<Rightarrow> nat \<Rightarrow> nat" where
  "actual_pins s f = length (filter (on_frame f) (lp_backends s))"

definition access_requires_pin :: "lp_state \<Rightarrow> bool" where
  "access_requires_pin s = list_all (\<lambda>bk. case backend_pin bk of
       None \<Rightarrow> True
     | Some (f, p) \<Rightarrow> (case lp_frames s ! f of Ready q pins _ \<Rightarrow> q = p \<and> pins > 0 | _ \<Rightarrow> False))
     (lp_backends s)"

definition unique_published :: "lp_state \<Rightarrow> bool" where
  "unique_published s = list_all (\<lambda>f. case published (lp_frames s ! f) of
       None \<Rightarrow> True
     | Some p \<Rightarrow> \<not> list_ex (\<lambda>g. published g = Some p) (take f (lp_frames s))) [0..<length (lp_frames s)]"

definition mapping_bijection :: "lp_state \<Rightarrow> bool" where
  "mapping_bijection s =
     (list_all (\<lambda>f. case published (lp_frames s ! f) of
         None \<Rightarrow> True | Some p \<Rightarrow> lp_table s ! p = Some f) [0..<length (lp_frames s)] \<and>
      list_all (\<lambda>p. case lp_table s ! p of
         None \<Rightarrow> True | Some f \<Rightarrow> published (lp_frames s ! f) = Some p) [0..<length (lp_table s)])"

definition pin_accounting :: "lp_state \<Rightarrow> bool" where
  "pin_accounting s = list_all (\<lambda>f. case lp_frames s ! f of
       Ready _ pins _ \<Rightarrow> pins = actual_pins s f | _ \<Rightarrow> actual_pins s f = 0) [0..<length (lp_frames s)]"

definition reservation_ownership :: "lp_state \<Rightarrow> bool" where
  "reservation_ownership s =
     (list_all (\<lambda>b. case lp_backends s ! b of
         BackendReserved f p _ \<Rightarrow> (case lp_frames s ! f of
             FrameReserved t ob \<Rightarrow> ob = b \<and> t = p | Flushing _ t ob \<Rightarrow> ob = b \<and> t = p | _ \<Rightarrow> False)
       | Waiting f p _ \<Rightarrow> (case lp_frames s ! f of Loading q _ \<Rightarrow> q = p | _ \<Rightarrow> False)
       | _ \<Rightarrow> True) [0..<length (lp_backends s)] \<and>
      list_all (\<lambda>f. case (case lp_frames s ! f of
           FrameReserved t ob \<Rightarrow> Some (t, ob) | Flushing _ t ob \<Rightarrow> Some (t, ob) | _ \<Rightarrow> None) of
         None \<Rightarrow> True
       | Some (t, ob) \<Rightarrow> (case lp_backends s ! ob of
             BackendReserved g p _ \<Rightarrow> g = f \<and> p = t | _ \<Rightarrow> False)) [0..<length (lp_frames s)])"

definition writer_exclusivity :: "lp_state \<Rightarrow> bool" where
  "writer_exclusivity s = list_all (\<lambda>b. case lp_backends s ! b of
       Writing f _ \<Rightarrow> \<not> list_ex (\<lambda>c. b \<noteq> c \<and> is_accessing f (lp_backends s ! c)) [0..<length (lp_backends s)]
     | _ \<Rightarrow> True) [0..<length (lp_backends s)]"

definition failed_load_reusable :: "lp_state \<Rightarrow> bool" where
  "failed_load_reusable s = (case lp_event s of
       LoadFailed f p \<Rightarrow> lp_frames s ! f = Free \<and> lp_table s ! p = None \<and>
         \<not> list_ex (is_waiting f) (lp_backends s)
     | _ \<Rightarrow> True)"

definition failed_writeback_retains :: "lp_state \<Rightarrow> bool" where
  "failed_writeback_retains s = (case lp_event s of
       FlushFailed f p \<Rightarrow> lp_frames s ! f = Ready p 0 True \<and> lp_table s ! p = Some f
     | _ \<Rightarrow> True)"

definition loser_releases :: "lp_state \<Rightarrow> bool" where
  "loser_releases s = (case lp_event s of
       RaceReleased f \<Rightarrow> lp_frames s ! f = Free \<and> Some f \<notin> set (lp_table s)
     | _ \<Rightarrow> True)"

section \<open>The inductive invariant\<close>

fun backend_inv :: "buffer_model \<Rightarrow> frame list \<Rightarrow> nat \<Rightarrow> backend \<Rightarrow> bool" where
  "backend_inv m frs b Idle = True"
| "backend_inv m frs b (Request p _) = (p < bm_page_count m)"
| "backend_inv m frs b (Miss p _) = (p < bm_page_count m)"
| "backend_inv m frs b (BackendReserved f p _) = (p < bm_page_count m \<and> f < bm_frame_count m \<and>
     (frs ! f = FrameReserved p b \<or> (\<exists>old. frs ! f = Flushing old p b)))"
| "backend_inv m frs b (Waiting f p _) = (p < bm_page_count m \<and> f < bm_frame_count m \<and>
     (\<exists>io. frs ! f = Loading p io))"
| "backend_inv m frs b (Pinned f p) = (f < bm_frame_count m \<and> (\<exists>n d. frs ! f = Ready p n d))"
| "backend_inv m frs b (Reading f p) = (f < bm_frame_count m \<and> (\<exists>n d. frs ! f = Ready p n d))"
| "backend_inv m frs b (Writing f p) = (f < bm_frame_count m \<and> (\<exists>n d. frs ! f = Ready p n d))"

fun frame_inv :: "buffer_model \<Rightarrow> backend list \<Rightarrow> nat \<Rightarrow> frame \<Rightarrow> bool" where
  "frame_inv m bks f (FrameReserved t ob) = (ob < bm_backend_count m \<and> (\<exists>r. bks ! ob = BackendReserved f t r))"
| "frame_inv m bks f (Flushing old t ob) = (ob < bm_backend_count m \<and> (\<exists>r. bks ! ob = BackendReserved f t r))"
| "frame_inv m bks f _ = True"

fun frame_pins :: "frame \<Rightarrow> nat" where
  "frame_pins (Ready _ n _) = n"
| "frame_pins _ = 0"

definition pin_total :: "backend list \<Rightarrow> nat \<Rightarrow> nat" where
  "pin_total bks f = length (filter (on_frame f) bks)"

definition exclusive :: "backend list \<Rightarrow> bool" where
  "exclusive bks \<longleftrightarrow> (\<forall>b < length bks. \<forall>c < length bks. \<forall>f p.
     b \<noteq> c \<longrightarrow> bks ! b = Writing f p \<longrightarrow> \<not> is_accessing f (bks ! c))"

definition table_inv :: "buffer_model \<Rightarrow> frame list \<Rightarrow> nat option list \<Rightarrow> bool" where
  "table_inv m frs tab \<longleftrightarrow>
     (\<forall>f < bm_frame_count m. \<forall>p. published (frs ! f) = Some p \<longrightarrow> p < bm_page_count m \<and> tab ! p = Some f) \<and>
     (\<forall>p < bm_page_count m. \<forall>f. tab ! p = Some f \<longrightarrow> f < bm_frame_count m \<and> published (frs ! f) = Some p)"

definition lp_inv :: "buffer_model \<Rightarrow> lp_state \<Rightarrow> bool" where
  "lp_inv m s \<longleftrightarrow>
     length (lp_frames s) = bm_frame_count m \<and> length (lp_backends s) = bm_backend_count m \<and>
     length (lp_table s) = bm_page_count m \<and>
     (\<forall>b < bm_backend_count m. backend_inv m (lp_frames s) b (lp_backends s ! b)) \<and>
     (\<forall>f < bm_frame_count m. frame_inv m (lp_backends s) f (lp_frames s ! f)) \<and>
     (\<forall>f < bm_frame_count m. pin_total (lp_backends s) f = frame_pins (lp_frames s ! f)) \<and>
     table_inv m (lp_frames s) (lp_table s) \<and> exclusive (lp_backends s)"

lemma lp_inv_event [simp]: "lp_inv m (s\<lparr>lp_event := e\<rparr>) = lp_inv m s"
  by (simp add: lp_inv_def)

lemma on_frame_simps [simp]:
  "on_frame f Idle = False" "on_frame f (Request p r) = False" "on_frame f (Miss p r) = False"
  "on_frame f (BackendReserved g p r) = False" "on_frame f (Waiting g p r) = False"
  "on_frame f (Pinned g p) = (g = f)" "on_frame f (Reading g p) = (g = f)" "on_frame f (Writing g p) = (g = f)"
  by (simp_all add: on_frame_def)

lemma is_accessing_simps [simp]:
  "is_accessing f Idle = False" "is_accessing f (Request p r) = False" "is_accessing f (Miss p r) = False"
  "is_accessing f (BackendReserved g p r) = False" "is_accessing f (Waiting g p r) = False"
  "is_accessing f (Pinned g p) = False" "is_accessing f (Reading g p) = (g = f)" "is_accessing f (Writing g p) = (g = f)"
  by (simp_all add: is_accessing_def)

lemma is_writing_simps [simp]:
  "is_writing f Idle = False" "is_writing f (Request p r) = False" "is_writing f (Miss p r) = False"
  "is_writing f (BackendReserved g p r) = False" "is_writing f (Waiting g p r) = False"
  "is_writing f (Pinned g p) = False" "is_writing f (Reading g p) = False" "is_writing f (Writing g p) = (g = f)"
  by (simp_all add: is_writing_def)

lemma pin_total_update:
  assumes "b < length bks"
  shows "pin_total (bks[b := v]) f + of_bool (on_frame f (bks ! b)) = pin_total bks f + of_bool (on_frame f v)"
proof -
  have "pin_total bks f = pin_total (take b bks @ bks ! b # drop (Suc b) bks) f"
    using assms by (simp add: id_take_nth_drop [symmetric])
  then show ?thesis using assms by (simp add: pin_total_def upd_conv_take_nth_drop)
qed

lemma pin_total_same:
  "b < length bks \<Longrightarrow> (\<And>f. on_frame f (bks ! b) = on_frame f v) \<Longrightarrow> pin_total (bks[b := v]) = pin_total bks"
  using pin_total_update [of b bks v] by (auto simp: fun_eq_iff)

lemma exclusive_update:
  "exclusive bks \<Longrightarrow> b < length bks \<Longrightarrow>
   (\<And>f c. c < length bks \<Longrightarrow> c \<noteq> b \<Longrightarrow> is_accessing f v \<Longrightarrow> \<forall>p. bks ! c \<noteq> Writing f p) \<Longrightarrow>
   (\<And>f p c. v = Writing f p \<Longrightarrow> c < length bks \<Longrightarrow> c \<noteq> b \<Longrightarrow> \<not> is_accessing f (bks ! c)) \<Longrightarrow>
   exclusive (bks[b := v])"
  by (auto simp: exclusive_def nth_list_update)

lemma backend_inv_frame_update:
  assumes "backend_inv m frs b bk" "f < length frs"
    and "\<And>n p r. bk = BackendReserved f p r \<Longrightarrow> \<exists>old. v = FrameReserved p b \<or> v = Flushing old p b"
    and "\<And>p r. bk = Waiting f p r \<Longrightarrow> \<exists>io. v = Loading p io"
    and "\<And>p. backend_pin bk = Some (f, p) \<Longrightarrow> \<exists>n d. v = Ready p n d"
  shows "backend_inv m (frs[f := v]) b bk"
  using assms by (cases bk) (auto simp: nth_list_update)

lemma frame_inv_backend_update:
  assumes "frame_inv m bks f fr" "\<And>g p r. bks ! b \<noteq> BackendReserved g p r"
  shows "frame_inv m (bks[b := v]) f fr"
proof -
  have "bks ! c = BackendReserved g p r \<Longrightarrow> bks[b := v] ! c = BackendReserved g p r" for c g p r
    using assms(2) by (cases "b = c") auto
  with assms(1) show ?thesis by (cases fr) auto
qed

text \<open>Replacing one backend, in the shape every action needs.\<close>

lemma inv_set_backend:
  assumes "lp_inv m s" "b < bm_backend_count m" "\<And>g p r. lp_backends s ! b \<noteq> BackendReserved g p r"
    and "backend_inv m (lp_frames s) b v" "\<And>f. on_frame f (lp_backends s ! b) = on_frame f v"
    and "exclusive ((lp_backends s)[b := v])"
  shows "lp_inv m (set_backend b v s)"
proof -
  have len: "b < length (lp_backends s)" using assms(1,2) by (simp add: lp_inv_def)
  have "\<forall>f < bm_frame_count m. frame_inv m ((lp_backends s)[b := v]) f (lp_frames s ! f)"
    using assms(1,3) by (simp add: lp_inv_def frame_inv_backend_update)
  then show ?thesis
    using assms len by (simp add: lp_inv_def nth_list_update pin_total_same)
qed

text \<open>A backend that owns nothing may move to any other state that owns nothing.\<close>

lemma inv_detached:
  assumes "lp_inv m s" "b < bm_backend_count m"
    and "backend_pin (lp_backends s ! b) = None" "\<And>g p r. lp_backends s ! b \<noteq> BackendReserved g p r"
    and "v = Idle \<or> (\<exists>p r. p < bm_page_count m \<and> (v = Request p r \<or> v = Miss p r)) \<or>
         (\<exists>f p r io. v = Waiting f p r \<and> p < bm_page_count m \<and> f < bm_frame_count m \<and> lp_frames s ! f = Loading p io)"
  shows "lp_inv m (set_backend b v s)"
proof (rule inv_set_backend [OF assms(1,2,4)])
  show "backend_inv m (lp_frames s) b v" using assms(5) by auto
  show "on_frame f (lp_backends s ! b) = on_frame f v" for f
    using assms(3,5) by (auto simp: on_frame_def)
  show "exclusive ((lp_backends s)[b := v])"
    using assms(1,2,5) by (intro exclusive_update) (auto simp: lp_inv_def)
qed

text \<open>A pinned backend may change its kind of access.\<close>

lemma inv_access:
  assumes "lp_inv m s" "b < bm_backend_count m"
    and "backend_pin (lp_backends s ! b) = Some (f, p)" "backend_pin v = Some (f, p)"
    and "\<And>c. c < bm_backend_count m \<Longrightarrow> c \<noteq> b \<Longrightarrow> is_accessing f v \<Longrightarrow> \<not> is_writing f (lp_backends s ! c)"
    and "\<And>c. c < bm_backend_count m \<Longrightarrow> c \<noteq> b \<Longrightarrow> is_writing f v \<Longrightarrow> \<not> is_accessing f (lp_backends s ! c)"
  shows "lp_inv m (set_backend b v s)"
proof (rule inv_set_backend [OF assms(1,2)])
  have v: "v = Pinned f p \<or> v = Reading f p \<or> v = Writing f p"
    using assms(4) by (auto elim: backend_pin.elims)
  show "lp_backends s ! b \<noteq> BackendReserved g q r" for g q r using assms(3) by auto
  have bi: "backend_inv m (lp_frames s) b (lp_backends s ! b)" using assms(1,2) by (simp add: lp_inv_def)
  with v assms(3) show "backend_inv m (lp_frames s) b v" by (cases "lp_backends s ! b") auto
  show "on_frame g (lp_backends s ! b) = on_frame g v" for g using assms(3,4) by (simp add: on_frame_def)
  show "exclusive ((lp_backends s)[b := v])"
    using assms(1,2) v by (intro exclusive_update) (auto simp: lp_inv_def dest: assms(5,6))
qed

text \<open>The page table under the three ways a frame's published page changes.\<close>

lemma table_invD:
  assumes "table_inv m frs tab"
  shows "f < bm_frame_count m \<Longrightarrow> published (frs ! f) = Some p \<Longrightarrow> p < bm_page_count m \<and> tab ! p = Some f"
    and "p < bm_page_count m \<Longrightarrow> tab ! p = Some f \<Longrightarrow> f < bm_frame_count m \<and> published (frs ! f) = Some p"
  using assms unfolding table_inv_def by blast+

lemma table_invI:
  assumes "\<And>f p. f < bm_frame_count m \<Longrightarrow> published (frs ! f) = Some p \<Longrightarrow> p < bm_page_count m \<and> tab ! p = Some f"
    and "\<And>p f. p < bm_page_count m \<Longrightarrow> tab ! p = Some f \<Longrightarrow> f < bm_frame_count m \<and> published (frs ! f) = Some p"
  shows "table_inv m frs tab"
  using assms unfolding table_inv_def by blast

lemma table_inv_same:
  assumes t: "table_inv m frs tab" and v: "published v = published (frs ! f)" and f: "f < length frs"
  shows "table_inv m (frs[f := v]) tab"
proof -
  have "published (frs[f := v] ! g) = published (frs ! g)" for g
    using v f by (cases "f = g") auto
  then show ?thesis using t unfolding table_inv_def by (simp only: simp_thms)
qed

lemma table_inv_remove:
  assumes t: "table_inv m frs tab" and len: "f < length frs" "length frs = bm_frame_count m" "length tab = bm_page_count m"
    and old: "published (frs ! f) = Some p" and v: "published v = None"
  shows "table_inv m (frs[f := v]) (tab[p := None])"
proof (rule table_invI)
  have p: "p < length tab" "tab ! p = Some f" using table_invD(1) [OF t _ old] len by auto
  fix g q
  show "q < bm_page_count m \<and> tab[p := None] ! q = Some g"
    if g: "g < bm_frame_count m" "published (frs[f := v] ! g) = Some q"
  proof -
    have "g \<noteq> f" using g len v by auto
    with g(2) have "published (frs ! g) = Some q" by simp
    from table_invD(1) [OF t g(1) this] \<open>g \<noteq> f\<close> p show ?thesis by (cases "q = p") auto
  qed
  show "g < bm_frame_count m \<and> published (frs[f := v] ! g) = Some q"
    if q: "q < bm_page_count m" "tab[p := None] ! q = Some g"
  proof -
    have "q \<noteq> p" using q p by auto
    with q(2) have "tab ! q = Some g" by simp
    from table_invD(2) [OF t q(1) this] \<open>q \<noteq> p\<close> old show ?thesis by (cases "g = f") auto
  qed
qed

lemma table_inv_add:
  assumes t: "table_inv m frs tab" and len: "f < length frs" "length frs = bm_frame_count m" "length tab = bm_page_count m"
    and old: "published (frs ! f) = None" and v: "published v = Some p" and p: "p < length tab" "tab ! p = None"
  shows "table_inv m (frs[f := v]) (tab[p := Some f])"
proof (rule table_invI)
  fix g q
  show "q < bm_page_count m \<and> tab[p := Some f] ! q = Some g"
    if g: "g < bm_frame_count m" "published (frs[f := v] ! g) = Some q"
  proof (cases "g = f")
    case True
    with g len v p show ?thesis by auto
  next
    case False
    with g(2) have "published (frs ! g) = Some q" by simp
    from table_invD(1) [OF t g(1) this] p show ?thesis by (cases "q = p") auto
  qed
  show "g < bm_frame_count m \<and> published (frs[f := v] ! g) = Some q"
    if q: "q < bm_page_count m" "tab[p := Some f] ! q = Some g"
  proof (cases "q = p")
    case True
    with q p len v show ?thesis by auto
  next
    case False
    with q(2) have "tab ! q = Some g" by simp
    from table_invD(2) [OF t q(1) this] old show ?thesis by (cases "g = f") auto
  qed
qed

text \<open>Replacing one frame, one backend and the table at once.\<close>

lemma inv_step:
  assumes inv: "lp_inv m s" and f: "f < bm_frame_count m" and b: "b < bm_backend_count m"
    and tab: "table_inv m ((lp_frames s)[f := fr]) tab" "length tab = bm_page_count m"
    and bi: "backend_inv m ((lp_frames s)[f := fr]) b bk"
    and others: "\<And>c. c < bm_backend_count m \<Longrightarrow> c \<noteq> b \<Longrightarrow> backend_inv m ((lp_frames s)[f := fr]) c (lp_backends s ! c)"
    and fi: "frame_inv m ((lp_backends s)[b := bk]) f fr"
    and frs: "\<And>g. g < bm_frame_count m \<Longrightarrow> g \<noteq> f \<Longrightarrow> frame_inv m ((lp_backends s)[b := bk]) g (lp_frames s ! g)"
    and pins: "\<And>g. g < bm_frame_count m \<Longrightarrow>
      of_bool (on_frame g bk) + frame_pins (lp_frames s ! g) =
      of_bool (on_frame g (lp_backends s ! b)) + frame_pins ((lp_frames s)[f := fr] ! g)"
    and excl: "exclusive ((lp_backends s)[b := bk])"
    and s': "lp_frames s' = (lp_frames s)[f := fr]" "lp_backends s' = (lp_backends s)[b := bk]" "lp_table s' = tab"
  shows "lp_inv m s'"
proof -
  have len: "length (lp_frames s) = bm_frame_count m" "length (lp_backends s) = bm_backend_count m"
    and old: "\<And>g. g < bm_frame_count m \<Longrightarrow> pin_total (lp_backends s) g = frame_pins (lp_frames s ! g)"
    using inv by (auto simp: lp_inv_def)
  have "pin_total ((lp_backends s)[b := bk]) g = frame_pins ((lp_frames s)[f := fr] ! g)"
    if "g < bm_frame_count m" for g
    using pins [OF that] old [OF that] pin_total_update [of b "lp_backends s" bk g] b len by simp
  moreover have "backend_inv m ((lp_frames s)[f := fr]) c ((lp_backends s)[b := bk] ! c)"
    if "c < bm_backend_count m" for c
    using that others [of c] bi b len by (cases "c = b") auto
  moreover have "frame_inv m ((lp_backends s)[b := bk]) g ((lp_frames s)[f := fr] ! g)"
    if "g < bm_frame_count m" for g
    using that frs [of g] fi f len by (cases "g = f") auto
  ultimately show ?thesis using tab excl len by (simp add: lp_inv_def s')
qed

lemma exclusive_passive:
  "exclusive bks \<Longrightarrow> b < length bks \<Longrightarrow> (\<And>f. \<not> is_accessing f v) \<Longrightarrow> exclusive (bks[b := v])"
  by (intro exclusive_update) auto

lemma inv_parts:
  assumes "lp_inv m s"
  shows "length (lp_frames s) = bm_frame_count m" "length (lp_backends s) = bm_backend_count m"
    "length (lp_table s) = bm_page_count m"
    "\<And>b. b < bm_backend_count m \<Longrightarrow> backend_inv m (lp_frames s) b (lp_backends s ! b)"
    "\<And>f. f < bm_frame_count m \<Longrightarrow> frame_inv m (lp_backends s) f (lp_frames s ! f)"
    "\<And>f. f < bm_frame_count m \<Longrightarrow> pin_total (lp_backends s) f = frame_pins (lp_frames s ! f)"
    "table_inv m (lp_frames s) (lp_table s)" "exclusive (lp_backends s)"
  using assms by (auto simp: lp_inv_def)

lemma frame_refs:
  assumes "lp_inv m s" "c < bm_backend_count m" "f < bm_frame_count m"
  shows "backend_pin (lp_backends s ! c) = Some (f, p) \<Longrightarrow> \<exists>n d. lp_frames s ! f = Ready p n d \<and> n > 0"
    and "lp_backends s ! c = BackendReserved f p r \<Longrightarrow>
      lp_frames s ! f = FrameReserved p c \<or> (\<exists>old. lp_frames s ! f = Flushing old p c)"
    and "lp_backends s ! c = Waiting f p r \<Longrightarrow> \<exists>io. lp_frames s ! f = Loading p io"
proof -
  note i = inv_parts [OF assms(1)]
  note bi = i(4) [OF assms(2)]
  show "\<exists>n d. lp_frames s ! f = Ready p n d \<and> n > 0" if pin: "backend_pin (lp_backends s ! c) = Some (f, p)"
  proof -
    have "on_frame f (lp_backends s ! c)" using pin by (simp add: on_frame_def)
    then have "pin_total (lp_backends s) f > 0"
      using assms(2) i(2) by (auto simp: pin_total_def filter_empty_conv)
    moreover have "\<exists>n d. lp_frames s ! f = Ready p n d" using bi pin by (cases "lp_backends s ! c") auto
    ultimately show ?thesis using i(6) [OF assms(3)] by auto
  qed
  show "lp_backends s ! c = BackendReserved f p r \<Longrightarrow>
      lp_frames s ! f = FrameReserved p c \<or> (\<exists>old. lp_frames s ! f = Flushing old p c)"
    using bi by auto
  show "lp_backends s ! c = Waiting f p r \<Longrightarrow> \<exists>io. lp_frames s ! f = Loading p io"
    using bi by auto
qed

text \<open>What backends other than \<open>b\<close> still satisfy when frame \<open>f\<close> becomes \<open>fr\<close>.\<close>

lemma others_keep:
  assumes inv: "lp_inv m s" and c: "c < bm_backend_count m" and f: "f < bm_frame_count m"
    and old: "case lp_frames s ! f of
       Free \<Rightarrow> True
     | FrameReserved p ob \<Rightarrow> ob \<noteq> c \<or> fr = FrameReserved p ob
     | Flushing _ p ob \<Rightarrow> ob \<noteq> c \<or> fr = FrameReserved p ob
     | Loading p _ \<Rightarrow> (\<exists>io. fr = Loading p io)
     | Ready p n _ \<Rightarrow> n = 0 \<or> (\<exists>k d. fr = Ready p k d)"
  shows "backend_inv m ((lp_frames s)[f := fr]) c (lp_backends s ! c)"
proof (rule backend_inv_frame_update)
  note i = inv_parts [OF inv]
  show "backend_inv m (lp_frames s) c (lp_backends s ! c)" by (rule i(4) [OF c])
  show "f < length (lp_frames s)" using f i(1) by simp
  note refs = frame_refs [OF inv c f]
  show "\<exists>old. fr = FrameReserved p c \<or> fr = Flushing old p c" if "lp_backends s ! c = BackendReserved f p r" for n p r
    using refs(2) [OF that] old by auto
  show "\<exists>io. fr = Loading p io" if "lp_backends s ! c = Waiting f p r" for p r
    using refs(3) [OF that] old by auto
  show "\<exists>n d. fr = Ready p n d" if "backend_pin (lp_backends s ! c) = Some (f, p)" for p
    using refs(1) [OF that] old by auto
qed

lemma inv_set_frame:
  assumes inv: "lp_inv m s" and f: "f < bm_frame_count m"
    and tab: "table_inv m ((lp_frames s)[f := fr]) tab" "length tab = bm_page_count m"
    and bks: "\<And>c. c < bm_backend_count m \<Longrightarrow> backend_inv m ((lp_frames s)[f := fr]) c (lp_backends s ! c)"
    and fi: "frame_inv m (lp_backends s) f fr" and pins: "frame_pins fr = frame_pins (lp_frames s ! f)"
    and s': "lp_frames s' = (lp_frames s)[f := fr]" "lp_backends s' = lp_backends s" "lp_table s' = tab"
  shows "lp_inv m s'"
proof -
  note i = inv_parts [OF inv]
  have "frame_inv m (lp_backends s) g ((lp_frames s)[f := fr] ! g)"
    "pin_total (lp_backends s) g = frame_pins ((lp_frames s)[f := fr] ! g)" if "g < bm_frame_count m" for g
    using i(1) i(5,6) [OF that] that fi pins f by (cases "g = f"; simp)+
  with tab bks i(1,2,8) show ?thesis by (simp add: lp_inv_def s')
qed

lemma inv_refresh:
  assumes inv: "lp_inv m s" and f: "f < bm_frame_count m"
    and same: "lp_frames s ! f = Ready p n d \<and> fr = Ready p n d' \<or> lp_frames s ! f = Loading p io \<and> fr = Loading p io'"
  shows "lp_inv m (set_lp_frame f fr s)"
proof (rule inv_set_frame [OF inv f])
  note i = inv_parts [OF inv]
  show "table_inv m ((lp_frames s)[f := fr]) (lp_table s)"
    using same f i(1) by (intro table_inv_same [OF i(7)]) auto
  show "backend_inv m ((lp_frames s)[f := fr]) c (lp_backends s ! c)" if "c < bm_backend_count m" for c
    using same by (intro others_keep [OF inv that f]) auto
qed (use same inv_parts(3) [OF inv] in auto)

lemma inv_flush_ok:
  assumes inv: "lp_inv m s" and f: "f < bm_frame_count m" and fl: "lp_frames s ! f = Flushing old t ob"
  shows "lp_inv m (set_lp_frame f (FrameReserved t ob) (set_table old None s))"
proof (rule inv_set_frame [OF inv f])
  note i = inv_parts [OF inv]
  show "table_inv m ((lp_frames s)[f := FrameReserved t ob]) ((lp_table s)[old := None])"
    using fl f i(1,3) by (intro table_inv_remove [OF i(7)]) auto
  show "backend_inv m ((lp_frames s)[f := FrameReserved t ob]) c (lp_backends s ! c)" if "c < bm_backend_count m" for c
    using fl by (intro others_keep [OF inv that f]) auto
  show "frame_inv m (lp_backends s) f (FrameReserved t ob)" using i(5) [OF f] fl by simp
qed (use fl inv_parts(3) [OF inv] in auto)

text \<open>Frames other than \<open>f\<close> when the backend that changes owned at most \<open>f\<close>.\<close>

lemma frames_keep:
  assumes inv: "lp_inv m s" and g: "g < bm_frame_count m" "g \<noteq> f"
    and own: "\<And>h p r. lp_backends s ! b = BackendReserved h p r \<Longrightarrow> h = f"
  shows "frame_inv m ((lp_backends s)[b := v]) g (lp_frames s ! g)"
proof -
  have "frame_inv m (lp_backends s) g (lp_frames s ! g)" by (rule inv_parts(5) [OF inv g(1)])
  moreover have "(lp_backends s)[b := v] ! c = BackendReserved g p r" if "lp_backends s ! c = BackendReserved g p r" for c p r
    using that own g(2) by (cases "c = b") auto
  ultimately show ?thesis by (cases "lp_frames s ! g") auto
qed

lemma inv_join_ready:
  assumes inv: "lp_inv m s" and b: "b < bm_backend_count m" and f: "f < bm_frame_count m"
    and free: "backend_pin (lp_backends s ! b) = None" "\<And>g p r. lp_backends s ! b \<noteq> BackendReserved g p r"
    and rd: "lp_frames s ! f = Ready p n d"
  shows "lp_inv m (set_backend b (Pinned f p) (set_lp_frame f (Ready p (n + 1) d) s))"
proof (rule inv_step [OF inv f b])
  note i = inv_parts [OF inv]
  show "table_inv m ((lp_frames s)[f := Ready p (n + 1) d]) (lp_table s)"
    using rd f i(1) by (intro table_inv_same [OF i(7)]) auto
  show "backend_inv m ((lp_frames s)[f := Ready p (n + 1) d]) c (lp_backends s ! c)" if "c < bm_backend_count m" for c
    using rd by (intro others_keep [OF inv that f]) auto
  show "frame_inv m ((lp_backends s)[b := Pinned f p]) g (lp_frames s ! g)"
    if "g < bm_frame_count m" "g \<noteq> f" for g by (rule frames_keep [OF inv that]) (use free in auto)
  show "of_bool (on_frame g (Pinned f p)) + frame_pins (lp_frames s ! g) =
      of_bool (on_frame g (lp_backends s ! b)) + frame_pins ((lp_frames s)[f := Ready p (n + 1) d] ! g)" for g
    using free rd f i(1) by (cases "g = f") (auto simp: on_frame_def)
  show "exclusive ((lp_backends s)[b := Pinned f p])" using b i(2) by (intro exclusive_passive [OF i(8)]) auto
qed (use inv_parts [OF inv] f in auto)

lemma inv_unpin:
  assumes inv: "lp_inv m s" and b: "b < bm_backend_count m" and f: "f < bm_frame_count m"
    and pin: "lp_backends s ! b = Pinned f p" and rd: "lp_frames s ! f = Ready p n d"
  shows "lp_inv m (set_backend b Idle (set_lp_frame f (Ready p (n - 1) d) s))"
proof (rule inv_step [OF inv f b])
  note i = inv_parts [OF inv]
  have n: "n > 0" using frame_refs(1) [OF inv b f, of p] pin rd by auto
  show "table_inv m ((lp_frames s)[f := Ready p (n - 1) d]) (lp_table s)"
    using rd f i(1) by (intro table_inv_same [OF i(7)]) auto
  show "backend_inv m ((lp_frames s)[f := Ready p (n - 1) d]) c (lp_backends s ! c)" if "c < bm_backend_count m" for c
    using rd by (intro others_keep [OF inv that f]) auto
  show "frame_inv m ((lp_backends s)[b := Idle]) g (lp_frames s ! g)"
    if "g < bm_frame_count m" "g \<noteq> f" for g by (rule frames_keep [OF inv that]) (use pin in auto)
  show "of_bool (on_frame g Idle) + frame_pins (lp_frames s ! g) =
      of_bool (on_frame g (lp_backends s ! b)) + frame_pins ((lp_frames s)[f := Ready p (n - 1) d] ! g)" for g
    using pin rd f i(1) n by (cases "g = f") auto
  show "exclusive ((lp_backends s)[b := Idle])" using b i(2) by (intro exclusive_passive [OF i(8)]) auto
qed (use inv_parts [OF inv] f in auto)

lemma inv_reserve:
  assumes inv: "lp_inv m s" and b: "b < bm_backend_count m" and f: "f < bm_frame_count m"
    and miss: "lp_backends s ! b = Miss p r"
    and v: "lp_frames s ! f = Free \<and> fr = FrameReserved p b \<and> tab = lp_table s \<or>
      (\<exists>old. lp_frames s ! f = Ready old 0 False \<and> fr = FrameReserved p b \<and> tab = (lp_table s)[old := None]) \<or>
      (\<exists>old. lp_frames s ! f = Ready old 0 True \<and> fr = Flushing old p b \<and> tab = lp_table s)"
    and s': "lp_frames s' = (lp_frames s)[f := fr]"
      "lp_backends s' = (lp_backends s)[b := BackendReserved f p r]" "lp_table s' = tab"
  shows "lp_inv m s'"
proof (rule inv_step [OF inv f b])
  note i = inv_parts [OF inv]
  show "table_inv m ((lp_frames s)[f := fr]) tab"
    using v f i(1,3) by (auto intro: table_inv_same [OF i(7)] table_inv_remove [OF i(7)])
  show "length tab = bm_page_count m" using v i(3) by auto
  have p: "p < bm_page_count m" using i(4) [OF b] miss by simp
  then show "backend_inv m ((lp_frames s)[f := fr]) b (BackendReserved f p r)"
    using v f i(1) by auto
  show "backend_inv m ((lp_frames s)[f := fr]) c (lp_backends s ! c)" if "c < bm_backend_count m" for c
    using v by (intro others_keep [OF inv that f]) auto
  show "frame_inv m ((lp_backends s)[b := BackendReserved f p r]) f fr" using v b i(2) by auto
  show "frame_inv m ((lp_backends s)[b := BackendReserved f p r]) g (lp_frames s ! g)"
    if "g < bm_frame_count m" "g \<noteq> f" for g by (rule frames_keep [OF inv that]) (use miss in auto)
  show "of_bool (on_frame g (BackendReserved f p r)) + frame_pins (lp_frames s ! g) =
      of_bool (on_frame g (lp_backends s ! b)) + frame_pins ((lp_frames s)[f := fr] ! g)" for g
    using miss v f i(1) by (cases "g = f") auto
  show "exclusive ((lp_backends s)[b := BackendReserved f p r])" using b i(2) by (intro exclusive_passive [OF i(8)]) auto
qed (use s' in auto)

text \<open>The owner of a reserved frame gives it up, keeps it for a load, or loses its writeback.\<close>

lemma inv_disown:
  assumes inv: "lp_inv m s" and b: "b < bm_backend_count m" and f: "f < bm_frame_count m"
    and bk: "lp_backends s ! b = BackendReserved f p r"
    and v: "lp_frames s ! f = FrameReserved p b \<and> fr = Free \<and> w = Request p r \<and> tab = lp_table s \<or>
      lp_frames s ! f = FrameReserved p b \<and> fr = Loading p False \<and> w = Waiting f p r \<and>
        lp_table s ! p = None \<and> tab = (lp_table s)[p := Some f] \<or>
      (\<exists>old. lp_frames s ! f = Flushing old p b \<and> fr = Ready old 0 True \<and> w = Request p r \<and> tab = lp_table s)"
    and s': "lp_frames s' = (lp_frames s)[f := fr]" "lp_backends s' = (lp_backends s)[b := w]" "lp_table s' = tab"
  shows "lp_inv m s'"
proof (rule inv_step [OF inv f b])
  note i = inv_parts [OF inv]
  have p: "p < bm_page_count m" using i(4) [OF b] bk by simp
  then show "table_inv m ((lp_frames s)[f := fr]) tab"
    using v f i(1,3) by (auto intro: table_inv_same [OF i(7)] table_inv_add [OF i(7)])
  show "length tab = bm_page_count m" using v i(3) by auto
  show "backend_inv m ((lp_frames s)[f := fr]) b w" using v f i(1) p by auto
  show "backend_inv m ((lp_frames s)[f := fr]) c (lp_backends s ! c)" if "c < bm_backend_count m" "c \<noteq> b" for c
    using v that by (intro others_keep [OF inv that(1) f]) auto
  show "frame_inv m ((lp_backends s)[b := w]) f fr" using v by auto
  show "frame_inv m ((lp_backends s)[b := w]) g (lp_frames s ! g)"
    if "g < bm_frame_count m" "g \<noteq> f" for g by (rule frames_keep [OF inv that]) (use bk in auto)
  show "of_bool (on_frame g w) + frame_pins (lp_frames s ! g) =
      of_bool (on_frame g (lp_backends s ! b)) + frame_pins ((lp_frames s)[f := fr] ! g)" for g
    using bk v f i(1) by (cases "g = f") auto
  show "exclusive ((lp_backends s)[b := w])" using b i(2) v by (intro exclusive_passive [OF i(8)]) auto
qed (use s' in auto)

lemma wake_simps [simp]:
  "on_frame g (wake True f bk) = (on_frame g bk \<or> g = f \<and> is_waiting f bk)"
  "on_frame g (wake False f bk) = on_frame g bk"
  "is_accessing g (wake ok f bk) = is_accessing g bk"
  "wake ok f bk = Writing g p \<longleftrightarrow> bk = Writing g p"
  "wake ok f bk = BackendReserved g p r \<longleftrightarrow> bk = BackendReserved g p r"
  "is_waiting f (wake ok f bk) = False"
  by (cases bk; auto simp: wake_def is_waiting_def)+

lemma pin_total_wake:
  "pin_total (map (wake True f) bks) g =
     (if g = f then pin_total bks g + length (filter (is_waiting f) bks) else pin_total bks g)"
  "pin_total (map (wake False f) bks) g = pin_total bks g"
proof -
  have "\<not> (on_frame g bk \<and> is_waiting f bk)" for bk by (cases bk) (auto simp: is_waiting_def)
  then show "pin_total (map (wake True f) bks) g =
     (if g = f then pin_total bks g + length (filter (is_waiting f) bks) else pin_total bks g)"
    by (induction bks) (auto simp: pin_total_def)
  show "pin_total (map (wake False f) bks) g = pin_total bks g"
    by (induction bks) (auto simp: pin_total_def)
qed

lemma exclusive_wake: "exclusive (map (wake ok f) bks) = exclusive bks"
  by (simp add: exclusive_def)

lemma inv_load_done:
  assumes inv: "lp_inv m s" and f: "f < bm_frame_count m" and ld: "lp_frames s ! f = Loading p io"
    and v: "if ok then fr = Ready p (length (filter (is_waiting f) (lp_backends s))) False \<and> tab = lp_table s
            else fr = Free \<and> tab = (lp_table s)[p := None]"
    and s': "lp_frames s' = (lp_frames s)[f := fr]" "lp_backends s' = map (wake ok f) (lp_backends s)" "lp_table s' = tab"
  shows "lp_inv m s'"
proof -
  note i = inv_parts [OF inv]
  have p: "p < bm_page_count m" using table_invD(1) [OF i(7) f] ld by simp
  have "backend_inv m ((lp_frames s)[f := fr]) c (wake ok f (lp_backends s ! c))" if c: "c < bm_backend_count m" for c
    using i(4) [OF c] f i(1) ld v p
    by (cases "lp_backends s ! c") (auto simp: wake_def nth_list_update split: if_splits)
  moreover have "frame_inv m (map (wake ok f) (lp_backends s)) g ((lp_frames s)[f := fr] ! g)" if g: "g < bm_frame_count m" for g
  proof (cases "g = f")
    case True
    with v f i(1) show ?thesis by (auto split: if_splits)
  next
    case False
    with i(5) [OF g] i(2) show ?thesis by (cases "lp_frames s ! g") auto
  qed
  moreover have "pin_total (map (wake ok f) (lp_backends s)) g = frame_pins ((lp_frames s)[f := fr] ! g)" if g: "g < bm_frame_count m" for g
    using i(6) [OF g] i(1) f ld v by (cases "g = f"; cases ok) (auto simp: pin_total_wake)
  moreover have "table_inv m ((lp_frames s)[f := fr]) tab"
    using v f i(1,3) ld by (auto intro: table_inv_same [OF i(7)] table_inv_remove [OF i(7)] split: if_splits)
  moreover have "length tab = bm_page_count m" using v i(3) by (auto split: if_splits)
  ultimately show ?thesis using i(1,2,8) by (simp add: lp_inv_def s' exclusive_wake)
qed

text \<open>When \<open>actions\<close> offers each action.\<close>

lemma enabledD:
  assumes "a \<in> set (actions m s)"
  shows "case a of
     ARequest b p \<Rightarrow> b < length (lp_backends s) \<and> lp_backends s ! b = Idle \<and> p < bm_page_count m
   | ALookup b \<Rightarrow> b < length (lp_backends s)
   | AReserve b f \<Rightarrow> b < length (lp_backends s) \<and> f < length (lp_frames s)
   | APublish b \<Rightarrow> b < length (lp_backends s) \<and>
       (\<exists>f p r t ob. lp_backends s ! b = BackendReserved f p r \<and> lp_frames s ! f = FrameReserved t ob)
   | ASubmit f \<Rightarrow> f < length (lp_frames s)
   | ALoadDone f _ \<Rightarrow> f < length (lp_frames s)
   | AFlushDone f _ \<Rightarrow> f < length (lp_frames s)
   | ACancel b \<Rightarrow> b < length (lp_backends s) \<and> (\<exists>f p r. lp_backends s ! b = Waiting f p r)
   | ARead b \<Rightarrow> b < length (lp_backends s) \<and>
       (\<exists>f p. lp_backends s ! b = Pinned f p \<and> \<not> list_ex (is_writing f) (lp_backends s))
   | AWrite b \<Rightarrow> b < length (lp_backends s) \<and>
       (\<exists>f p. lp_backends s ! b = Pinned f p \<and> \<not> list_ex (is_accessing f) (lp_backends s))
   | AEndAccess b \<Rightarrow> b < length (lp_backends s)
   | AUnpin b \<Rightarrow> b < length (lp_backends s)"
proof -
  from assms consider b where "b < length (lp_backends s)" "a \<in> set (backend_actions m s b)"
    | f where "f < length (lp_frames s)" "a \<in> set (frame_actions s f)"
    by (auto simp: actions_def)
  then show ?thesis
  proof cases
    case 1
    then show ?thesis
      by (cases "lp_backends s ! b")
        (auto simp: backend_actions_def split: option.splits frame.splits if_splits, (metis frame.exhaust)+)
  next
    case 2
    then show ?thesis by (auto simp: frame_actions_def split: frame.splits if_splits)
  qed
qed

lemma join_event: "join b f p r (s\<lparr>lp_event := e\<rparr>) = (join b f p r s)\<lparr>lp_event := e\<rparr>"
  by (simp add: join_def split: frame.split)

lemma inv_join:
  assumes inv: "lp_inv m s" and b: "b < bm_backend_count m" and p: "p < bm_page_count m" "lp_table s ! p = Some f"
    and free: "backend_pin (lp_backends s ! b) = None" "\<And>g p r. lp_backends s ! b \<noteq> BackendReserved g p r"
  shows "lp_inv m (join b f p r s)"
proof -
  note i = inv_parts [OF inv]
  have f: "f < bm_frame_count m" "published (lp_frames s ! f) = Some p" using table_invD(2) [OF i(7) p] by auto
  show ?thesis
  proof (cases "lp_frames s ! f")
    case (Ready q n d)
    with f inv_join_ready [OF inv b f(1) free Ready] show ?thesis by (simp add: join_def)
  next
    case (Loading q io)
    with f p have "lp_inv m (set_backend b (Waiting f p r) s)" by (intro inv_detached [OF inv b free]) auto
    with Loading show ?thesis by (simp add: join_def)
  next
    case (Flushing old t ob)
    have "lp_inv m (set_backend b (Request p r) s)" using p by (intro inv_detached [OF inv b free]) auto
    with Flushing show ?thesis by (simp add: join_def)
  qed (use f in auto)
qed

lemma inv_lookup:
  assumes inv: "lp_inv m s" and b: "b < bm_backend_count m" and n: "next_lookup b s = Some s'"
  shows "lp_inv m s'"
proof -
  from n obtain p r where bk: "lp_backends s ! b = Request p r \<or> lp_backends s ! b = Miss p r"
    and s': "s' = (case lp_table s ! p of Some f \<Rightarrow> join b f p r s | None \<Rightarrow> set_backend b (Miss p r) s)"
    by (auto simp: next_lookup_def split: backend.splits)
  have p: "p < bm_page_count m" using inv_parts(4) [OF inv b] bk by auto
  have free: "backend_pin (lp_backends s ! b) = None" "lp_backends s ! b \<noteq> BackendReserved g q t" for g q t
    using bk by auto
  show ?thesis
  proof (cases "lp_table s ! p")
    case None
    with s' p inv_detached [OF inv b free] show ?thesis by simp
  next
    case (Some f)
    with s' inv_join [OF inv b p Some free] show ?thesis by simp
  qed
qed

lemma inv_next_reserve:
  assumes inv: "lp_inv m s" and b: "b < bm_backend_count m" and f: "f < bm_frame_count m"
    and n: "next_reserve b f s = Some s'"
  shows "lp_inv m s'"
proof -
  from n obtain p r where miss: "lp_backends s ! b = Miss p r"
    by (auto simp: next_reserve_def split: backend.splits)
  note res = inv_reserve [OF inv b f miss]
  show ?thesis
  proof (cases "lp_frames s ! f")
    case Free
    with n miss show ?thesis by (intro res) (auto simp: next_reserve_def)
  next
    case (Ready old k d)
    with n miss show ?thesis by (cases d) (auto simp: next_reserve_def split: if_splits intro!: res)
  qed (use n miss in \<open>auto simp: next_reserve_def\<close>)
qed

lemma join_set_backend: "join b f p r (set_backend b w s) = join b f p r s"
  by (simp add: join_def split: frame.split)

lemma inv_next_publish:
  assumes inv: "lp_inv m s" and b: "b < bm_backend_count m"
    and bk: "lp_backends s ! b = BackendReserved f p r" and fr: "lp_frames s ! f = FrameReserved t ob"
    and n: "next_publish b s = Some s'"
  shows "lp_inv m s'"
proof -
  note i = inv_parts [OF inv]
  have f: "f < bm_frame_count m" and p: "p < bm_page_count m" and own: "lp_frames s ! f = FrameReserved p b"
    using i(4) [OF b] bk fr by auto
  show ?thesis
  proof (cases "lp_table s ! p")
    case None
    with n bk own show ?thesis
      by (intro inv_disown [OF inv b f bk, where fr = "Loading p False" and w = "Waiting f p r"
            and tab = "(lp_table s)[p := Some f]"]) (auto simp: next_publish_def)
  next
    case (Some w)
    let ?s1 = "set_backend b (Request p r) (set_lp_frame f Free s)"
    have "lp_inv m ?s1" using own
      by (intro inv_disown [OF inv b f bk, where fr = Free and w = "Request p r" and tab = "lp_table s"]) auto
    then have "lp_inv m (join b w p r ?s1)" using p Some b i(2) by (intro inv_join [OF _ b]) auto
    then have "lp_inv m (join b w p r (set_lp_frame f Free s))" by (simp only: join_set_backend)
    then have "lp_inv m ((join b w p r (set_lp_frame f Free s))\<lparr>lp_event := RaceReleased f\<rparr>)" by simp
    with n bk Some show ?thesis by (auto simp: next_publish_def)
  qed
qed

lemma inv_next_load_done:
  assumes inv: "lp_inv m s" and f: "f < bm_frame_count m" and n: "next_load_done f ok s = Some s'"
  shows "lp_inv m s'"
proof -
  from n obtain p io where ld: "lp_frames s ! f = Loading p io"
    by (auto simp: next_load_done_def split: frame.splits)
  let ?fr = "if ok then Ready p (length (filter (is_waiting f) (lp_backends s))) False else Free"
  from ld n show ?thesis
    by (intro inv_load_done [OF inv f ld, where ok = ok and fr = ?fr
          and tab = "if ok then lp_table s else (lp_table s)[p := None]"])
      (auto simp: next_load_done_def Let_def split: if_splits)
qed

lemma inv_next_flush_done:
  assumes inv: "lp_inv m s" and f: "f < bm_frame_count m" and n: "next_flush_done f ok s = Some s'"
  shows "lp_inv m s'"
proof -
  from n obtain old t ob where fl: "lp_frames s ! f = Flushing old t ob"
    by (auto simp: next_flush_done_def split: frame.splits)
  from inv_parts(5) [OF inv f] fl obtain r where ob: "ob < bm_backend_count m" and bk: "lp_backends s ! ob = BackendReserved f t r"
    by auto
  show ?thesis
  proof (cases ok)
    case True
    with n fl inv_flush_ok [OF inv f fl] show ?thesis by (simp add: next_flush_done_def)
  next
    case False
    with n fl bk show ?thesis
      by (intro inv_disown [OF inv ob f bk, where fr = "Ready old 0 True" and w = "Request t r"
            and tab = "lp_table s"]) (auto simp: next_flush_done_def)
  qed
qed

lemma next_state_inv:
  assumes inv: "lp_inv m s" and a: "a \<in> set (actions m s)" and n: "next_state s a = Some s'"
  shows "lp_inv m s'"
proof -
  let ?s = "s\<lparr>lp_event := NoEvent\<rparr>"
  from inv have inv0: "lp_inv m ?s" by simp
  note i = inv_parts [OF inv0] and e = enabledD [OF a]
  show ?thesis
  proof (cases a)
    case (ARequest b p)
    with e n i(2) inv_detached [OF inv0, of b "Request p False"] show ?thesis by (auto simp: next_state_def)
  next
    case (ALookup b)
    with e n i(2) show ?thesis by (auto simp: next_state_def intro!: inv_lookup [OF inv0])
  next
    case (AReserve b f)
    with e n i(1,2) show ?thesis by (auto simp: next_state_def intro!: inv_next_reserve [OF inv0])
  next
    case (APublish b)
    with e obtain f p r t ob where "lp_backends ?s ! b = BackendReserved f p r" "lp_frames ?s ! f = FrameReserved t ob" by auto
    from inv_next_publish [OF inv0 _ this] APublish e n i(2) show ?thesis by (auto simp: next_state_def)
  next
    case (ASubmit f)
    with e n i(1) obtain p where f: "f < bm_frame_count m" and ld: "lp_frames ?s ! f = Loading p False"
      by (auto simp: next_state_def Let_def split: frame.splits bool.splits)
    have "lp_inv m (set_lp_frame f (Loading p True) ?s)"
      by (rule inv_refresh [OF inv0 f]) (use ld in auto)
    with ASubmit n ld show ?thesis by (simp add: next_state_def)
  next
    case (ALoadDone f ok)
    with e n i(1) show ?thesis by (auto simp: next_state_def intro!: inv_next_load_done [OF inv0])
  next
    case (AFlushDone f ok)
    with e n i(1) show ?thesis by (auto simp: next_state_def intro!: inv_next_flush_done [OF inv0])
  next
    case (ACancel b)
    with e n i(2) inv_detached [OF inv0, of b Idle] show ?thesis by (auto simp: next_state_def)
  next
    case (ARead b)
    with e obtain f p where bk: "lp_backends s ! b = Pinned f p" "\<not> list_ex (is_writing f) (lp_backends s)"
      and b: "b < bm_backend_count m" using i(2) by auto
    have "lp_inv m (set_backend b (Reading f p) ?s)"
      using bk i(2) by (intro inv_access [OF inv0 b]) (auto simp: list_ex_iff)
    with ARead n bk show ?thesis by (simp add: next_state_def)
  next
    case (AWrite b)
    with e obtain f p where bk: "lp_backends s ! b = Pinned f p" "\<not> list_ex (is_accessing f) (lp_backends s)"
      and b: "b < bm_backend_count m" using i(2) by auto
    have wr: "\<not> is_writing f bk" if "\<not> is_accessing f bk" for bk using that by (cases bk) auto
    have inv1: "lp_inv m (set_backend b (Writing f p) ?s)"
      using bk i(2) wr by (intro inv_access [OF inv0 b]) (auto simp: list_ex_iff)
    have f: "f < bm_frame_count m" and rd: "\<exists>k d. lp_frames s ! f = Ready p k d"
      using i(4) [OF b] bk by auto
    from rd obtain k d where k: "lp_frames s ! f = Ready p k d" by blast
    have "lp_inv m (set_lp_frame f (Ready p k True) (set_backend b (Writing f p) ?s))"
      by (rule inv_refresh [OF inv1 f]) (use k in auto)
    with AWrite n bk k show ?thesis by (simp add: next_state_def)
  next
    case (AEndAccess b)
    with e n i(2) obtain f p where pin: "backend_pin (lp_backends ?s ! b) = Some (f, p)" and b: "b < bm_backend_count m"
      by (auto simp: next_state_def Let_def split: option.splits)
    have "lp_inv m (set_backend b (Pinned f p) ?s)"
      by (rule inv_access [OF inv0 b pin]) auto
    with AEndAccess n pin show ?thesis by (simp add: next_state_def)
  next
    case (AUnpin b)
    with n e i(2) obtain f p where bk: "lp_backends ?s ! b = Pinned f p" and b: "b < bm_backend_count m"
      by (cases "lp_backends s ! b") (auto simp: next_state_def Let_def)
    with i(4) [OF b] obtain k d where f: "f < bm_frame_count m" and k: "lp_frames ?s ! f = Ready p k d" by auto
    from inv_unpin [OF inv0 b f bk k] AUnpin n bk k show ?thesis by (simp add: next_state_def)
  qed
qed

lemma init_inv: "lp_inv m (init_state m)"
  by (auto simp: lp_inv_def init_state_def pin_total_def table_inv_def exclusive_def)

lemma reachable_inv: "lp_reachable m s \<Longrightarrow> lp_inv m s"
  by (induction rule: lp_reachable.induct) (auto intro: init_inv next_state_inv)

section \<open>From the invariant to the checked properties\<close>

lemma inv_access_requires_pin: "lp_inv m s \<Longrightarrow> access_requires_pin s"
  unfolding access_requires_pin_def list_all_length
proof (intro allI impI)
  fix c assume inv: "lp_inv m s" and c: "c < length (lp_backends s)"
  note i = inv_parts [OF inv]
  show "case backend_pin (lp_backends s ! c) of None \<Rightarrow> True
     | Some (f, p) \<Rightarrow> (case lp_frames s ! f of Ready q pins _ \<Rightarrow> q = p \<and> pins > 0 | _ \<Rightarrow> False)"
  proof (cases "backend_pin (lp_backends s ! c)")
    case (Some fp)
    obtain f p where fp: "fp = (f, p)" by fastforce
    have "f < bm_frame_count m" using i(4) [of c] c i(2) Some fp by (cases "lp_backends s ! c") auto
    with frame_refs(1) [OF inv _ this, of c p] c i(2) Some fp show ?thesis by auto
  qed simp
qed

lemma inv_unique_published:
  assumes "lp_inv m s" shows "unique_published s"
proof -
  note i = inv_parts [OF assms]
  have "\<not> list_ex (\<lambda>g. published g = Some p) (take f (lp_frames s))"
    if f: "f < length (lp_frames s)" "published (lp_frames s ! f) = Some p" for f p
  proof
    assume "list_ex (\<lambda>g. published g = Some p) (take f (lp_frames s))"
    then obtain g where g: "g < f" "published (lp_frames s ! g) = Some p"
      using f(1) by (auto simp: list_ex_length)
    with f i(1) have "lp_table s ! p = Some g" "lp_table s ! p = Some f"
      using table_invD(1) [OF i(7), of g p] table_invD(1) [OF i(7), of f p] by auto
    with g show False by simp
  qed
  then show ?thesis by (auto simp: unique_published_def list_all_iff split: option.split)
qed

lemma inv_mapping_bijection:
  assumes "lp_inv m s" shows "mapping_bijection s"
proof -
  note i = inv_parts [OF assms]
  have "case published (lp_frames s ! f) of None \<Rightarrow> True | Some p \<Rightarrow> lp_table s ! p = Some f"
    if "f < length (lp_frames s)" for f
    using table_invD(1) [OF i(7), of f] that i(1) by (cases "published (lp_frames s ! f)") auto
  moreover have "case lp_table s ! p of None \<Rightarrow> True | Some f \<Rightarrow> published (lp_frames s ! f) = Some p"
    if "p < length (lp_table s)" for p
    using table_invD(2) [OF i(7), of p] that i(3) by (cases "lp_table s ! p") auto
  ultimately show ?thesis by (simp add: mapping_bijection_def list_all_iff)
qed

lemma inv_pin_accounting: "lp_inv m s \<Longrightarrow> pin_accounting s"
  using inv_parts(6) [of m s] inv_parts(1) [of m s]
  by (fastforce simp: pin_accounting_def list_all_iff actual_pins_def pin_total_def split: frame.split)

lemma inv_reservation_ownership:
  assumes "lp_inv m s" shows "reservation_ownership s"
proof -
  note i = inv_parts [OF assms]
  have b: "case lp_backends s ! b of
         BackendReserved f p _ \<Rightarrow> (case lp_frames s ! f of
             FrameReserved t ob \<Rightarrow> ob = b \<and> t = p | Flushing _ t ob \<Rightarrow> ob = b \<and> t = p | _ \<Rightarrow> False)
       | Waiting f p _ \<Rightarrow> (case lp_frames s ! f of Loading q _ \<Rightarrow> q = p | _ \<Rightarrow> False)
       | _ \<Rightarrow> True" if "b < length (lp_backends s)" for b
    using i(4) [of b] i(2) that by (cases "lp_backends s ! b") auto
  have f: "case (case lp_frames s ! f of
           FrameReserved t ob \<Rightarrow> Some (t, ob) | Flushing _ t ob \<Rightarrow> Some (t, ob) | _ \<Rightarrow> None) of
         None \<Rightarrow> True
       | Some (t, ob) \<Rightarrow> (case lp_backends s ! ob of
             BackendReserved g p _ \<Rightarrow> g = f \<and> p = t | _ \<Rightarrow> False)" if "f < length (lp_frames s)" for f
    using i(5) [of f] i(1) that by (cases "lp_frames s ! f") auto
  show ?thesis unfolding reservation_ownership_def using b f by (simp add: list_all_iff)
qed

lemma inv_writer_exclusivity: "lp_inv m s \<Longrightarrow> writer_exclusivity s"
  using inv_parts(8) [of m s]
  by (auto simp: writer_exclusivity_def exclusive_def list_all_iff list_ex_iff split: backend.split)

text \<open>The three properties of the last transition.\<close>

lemma next_state_event:
  assumes "next_state s a = Some s'"
  shows "case lp_event s' of
     LoadFailed f p \<Rightarrow> a = ALoadDone f False | FlushFailed f p \<Rightarrow> a = AFlushDone f False
   | RaceReleased f \<Rightarrow> (\<exists>b. a = APublish b) | RetrySucceeded \<Rightarrow> (\<exists>f. a = ALoadDone f True) | NoEvent \<Rightarrow> True"
proof -
  have je: "lp_event (join b f p r t) = lp_event t" for b f p r t by (simp add: join_def split: frame.split)
  show ?thesis
    using assms
    by (cases a) (auto simp: next_state_def next_lookup_def next_reserve_def next_publish_def
        next_load_done_def next_flush_done_def Let_def je split: option.splits frame.splits backend.splits if_splits bool.splits)
qed

lemma after_load_failure:
  assumes inv: "lp_inv m s" and a: "a \<in> set (actions m s)" and n: "next_state s a = Some s'"
  shows "failed_load_reusable s'"
proof (cases "lp_event s'")
  case (LoadFailed f p)
  with next_state_event [OF n] have a': "a = ALoadDone f False" by simp
  with enabledD [OF a] inv_parts(1) [OF inv] have f: "f < bm_frame_count m" by simp
  from n a' obtain q where ld: "lp_frames s ! f = Loading q True"
    by (auto simp: next_state_def next_load_done_def Let_def split: frame.splits if_splits)
  have q: "q < bm_page_count m" using table_invD(1) [OF inv_parts(7) [OF inv] f] ld by simp
  from n a' ld have s': "s' = s\<lparr>lp_backends := map (wake False f) (lp_backends s), lp_frames := (lp_frames s)[f := Free],
      lp_table := (lp_table s)[q := None], lp_event := LoadFailed f q\<rparr>"
    by (simp add: next_state_def next_load_done_def)
  with LoadFailed f q inv_parts(1,3) [OF inv] show ?thesis
    by (simp add: failed_load_reusable_def list_ex_iff)
qed (auto simp: failed_load_reusable_def)

lemma after_flush_failure:
  assumes inv: "lp_inv m s" and a: "a \<in> set (actions m s)" and n: "next_state s a = Some s'"
  shows "failed_writeback_retains s'"
proof (cases "lp_event s'")
  case (FlushFailed f p)
  with next_state_event [OF n] have a': "a = AFlushDone f False" by simp
  with enabledD [OF a] inv_parts(1) [OF inv] have f: "f < bm_frame_count m" by simp
  from n a' obtain old t ob where fl: "lp_frames s ! f = Flushing old t ob"
    by (auto simp: next_state_def next_flush_done_def Let_def split: frame.splits)
  have old: "lp_table s ! old = Some f" using table_invD(1) [OF inv_parts(7) [OF inv] f] fl by simp
  from inv_parts(5) [OF inv f] fl obtain r where "lp_backends s ! ob = BackendReserved f t r" by auto
  with n a' fl have "lp_event s' = FlushFailed f old" "lp_frames s' = (lp_frames s)[f := Ready old 0 True]"
    "lp_table s' = lp_table s" by (auto simp: next_state_def next_flush_done_def)
  with FlushFailed f old inv_parts(1) [OF inv] show ?thesis by (simp add: failed_writeback_retains_def)
qed (auto simp: failed_writeback_retains_def)

lemma join_frame_other: "lp_frames s ! f \<noteq> lp_frames s ! w \<Longrightarrow> lp_frames (join b w p r s) ! f = lp_frames s ! f"
  by (cases "f = w") (auto simp: join_def split: frame.split)

lemma after_race:
  assumes inv: "lp_inv m s" and a: "a \<in> set (actions m s)" and n: "next_state s a = Some s'"
  shows "loser_releases s'"
proof (cases "lp_event s'")
  case (RaceReleased f)
  from next_state_event [OF n] RaceReleased obtain b where a': "a = APublish b" by auto
  with enabledD [OF a] inv_parts(2) [OF inv] obtain g p r t ob where b: "b < bm_backend_count m"
    and bk: "lp_backends s ! b = BackendReserved g p r" and fr: "lp_frames s ! g = FrameReserved t ob" by auto
  from inv_parts(4) [OF inv b] bk have g: "g < bm_frame_count m" and p: "p < bm_page_count m" by auto
  let ?s = "set_lp_frame g Free (s\<lparr>lp_event := NoEvent\<rparr>)"
  from n a' bk RaceReleased obtain w where w: "lp_table s ! p = Some w"
    and s': "s' = (join b w p r ?s)\<lparr>lp_event := RaceReleased g\<rparr>"
    by (cases "lp_table s ! p") (auto simp: next_state_def next_publish_def Let_def)
  have [simp]: "g = f" using s' RaceReleased by simp
  have pub: "published (lp_frames s ! w) = Some p" using table_invD(2) [OF inv_parts(7) [OF inv] p w] by simp
  then have "w \<noteq> g" using fr by auto
  with pub g inv_parts(1) [OF inv] have "lp_frames ?s ! g = Free" "lp_frames ?s ! w \<noteq> Free" by auto
  then have free: "lp_frames s' ! f = Free" using join_frame_other [of ?s g w b p r] s' by simp
  note i' = inv_parts [OF next_state_inv [OF inv a n]]
  have "Some f \<notin> set (lp_table s')"
  proof
    assume "Some f \<in> set (lp_table s')"
    then obtain q where q: "q < bm_page_count m" "lp_table s' ! q = Some f" using i'(3) by (auto simp: in_set_conv_nth)
    from table_invD(2) [OF i'(7) q] free show False by simp
  qed
  with free RaceReleased show ?thesis by (simp add: loser_releases_def)
qed (auto simp: loser_releases_def)

lemma reachable_last:
  assumes "lp_reachable m s"
  shows "failed_load_reusable s \<and> failed_writeback_retains s \<and> loser_releases s"
  using assms
proof cases
  case start
  then show ?thesis
    by (simp add: init_state_def failed_load_reusable_def failed_writeback_retains_def loser_releases_def)
next
  case (step s0 a)
  with reachable_inv [OF step(1)] show ?thesis
    by (auto intro: after_load_failure after_flush_failure after_race)
qed

text \<open>Every action the model offers can be taken, and it always offers one.\<close>

lemma reserve_succeeds:
  "evictable (lp_frames s ! f) \<Longrightarrow> lp_backends s ! b = Miss p r \<Longrightarrow> next_reserve b f s \<noteq> None"
  by (cases "lp_frames s ! f") (auto simp: evictable_def next_reserve_def)

lemma enabled_succeeds:
  assumes inv: "lp_inv m s" and a: "a \<in> set (actions m s)"
  shows "next_state s a \<noteq> None"
proof -
  from a consider b where "b < length (lp_backends s)" "a \<in> set (backend_actions m s b)"
    | f where "f < length (lp_frames s)" "a \<in> set (frame_actions s f)"
    by (auto simp: actions_def)
  then show ?thesis
  proof cases
    case 1
    show ?thesis
    proof (cases "lp_backends s ! b")
      case (Miss p r)
      with 1 have "a = ALookup b \<or> (\<exists>f. a = AReserve b f \<and> evictable (lp_frames s ! f))"
        by (cases "mapped_frame s p"; cases "the (mapped_frame s p)") (auto simp: backend_actions_def)
      with Miss reserve_succeeds [of "s\<lparr>lp_event := NoEvent\<rparr>"] show ?thesis
        by (auto simp: next_state_def next_lookup_def Let_def)
    qed (use 1 in \<open>auto simp: backend_actions_def next_state_def next_lookup_def next_publish_def Let_def
          split: option.splits frame.splits if_splits\<close>)
  next
    case 2
    show ?thesis
    proof (cases "lp_frames s ! f")
      case (Flushing old t ob)
      with inv_parts(5) [OF inv, of f] inv_parts(1) [OF inv] 2 obtain r
        where "lp_backends s ! ob = BackendReserved f t r" by auto
      with 2 Flushing show ?thesis by (auto simp: frame_actions_def next_state_def next_flush_done_def)
    qed (use 2 in \<open>auto simp: frame_actions_def next_state_def next_load_done_def Let_def split: if_splits\<close>)
  qed
qed

lemma backend_action_enabled:
  "b < length (lp_backends s) \<Longrightarrow> backend_actions m s b \<noteq> [] \<Longrightarrow> actions m s \<noteq> []"
  by (auto simp: actions_def)

lemma frame_action_enabled:
  "f < length (lp_frames s) \<Longrightarrow> frame_actions s f \<noteq> [] \<Longrightarrow> actions m s \<noteq> []"
  by (auto simp: actions_def)

lemma frame_progress:
  assumes inv: "lp_inv m s" and f: "f < bm_frame_count m"
  shows "evictable (lp_frames s ! f) \<or> actions m s \<noteq> []"
proof (cases "lp_frames s ! f")
  case (FrameReserved t ob)
  with inv_parts(5) [OF inv f] obtain r where ob: "ob < length (lp_backends s)"
    "lp_backends s ! ob = BackendReserved f t r" using inv_parts(2) [OF inv] by auto
  then have "backend_actions m s ob \<noteq> []" using FrameReserved by (simp add: backend_actions_def)
  with ob(1) backend_action_enabled show ?thesis by blast
next
  case (Ready p k d)
  show ?thesis
  proof (cases "k = 0")
    case False
    with inv_parts(6) [OF inv f] Ready have "filter (on_frame f) (lp_backends s) \<noteq> []"
      by (auto simp: pin_total_def)
    then obtain c where c: "c < length (lp_backends s)" "on_frame f (lp_backends s ! c)"
      by (auto simp: filter_empty_conv in_set_conv_nth)
    then have "backend_actions m s c \<noteq> []" by (cases "lp_backends s ! c") (auto simp: backend_actions_def)
    with c(1) backend_action_enabled show ?thesis by blast
  qed (simp add: evictable_def Ready)
next
  case (Flushing old t ob)
  with f inv_parts(1) [OF inv] frame_action_enabled [of f s m] show ?thesis by (simp add: frame_actions_def)
next
  case (Loading p io)
  with f inv_parts(1) [OF inv] frame_action_enabled [of f s m] show ?thesis by (simp add: frame_actions_def)
qed (simp add: evictable_def)

lemma inv_no_deadlock:
  assumes inv: "lp_inv m s" and pos: "bm_frame_count m > 0" "bm_page_count m > 0" "bm_backend_count m > 0"
  shows "actions m s \<noteq> []"
proof -
  note i = inv_parts [OF inv]
  have b: "0 < length (lp_backends s)" using i(2) pos by simp
  note en = backend_action_enabled [OF b, of m]
  show ?thesis
  proof (cases "lp_backends s ! 0")
    case (Request p r)
    show ?thesis
    proof (cases "backend_actions m s 0 = []")
      case True
      with Request obtain f old t ob where f: "lp_table s ! p = Some f" "lp_frames s ! f = Flushing old t ob"
        by (auto simp: backend_actions_def mapped_frame_def split: option.splits frame.splits)
      have "p < bm_page_count m" using i(4) [of 0] pos Request by simp
      from table_invD(2) [OF i(7) this f(1)] i(1) have "f < length (lp_frames s)" by simp
      with f(2) frame_action_enabled [of f s m] show ?thesis by (simp add: frame_actions_def)
    qed (rule en)
  next
    case (Miss p r)
    show ?thesis
    proof (cases "evictable (lp_frames s ! 0)")
      case True
      with Miss pos i(1) have "backend_actions m s 0 \<noteq> []" by (auto simp: backend_actions_def filter_empty_conv)
      then show ?thesis by (rule en)
    qed (use frame_progress [OF inv pos(1)] in simp)
  next
    case (BackendReserved f p r)
    with i(4) [of 0] pos have f: "f < length (lp_frames s)"
      and fr: "lp_frames s ! f = FrameReserved p 0 \<or> (\<exists>old. lp_frames s ! f = Flushing old p 0)" using i(1) by auto
    from fr show ?thesis
    proof
      assume "lp_frames s ! f = FrameReserved p 0"
      with BackendReserved have "backend_actions m s 0 \<noteq> []" by (simp add: backend_actions_def)
      then show ?thesis by (rule en)
    qed (use f frame_action_enabled [of f s m] in \<open>auto simp: frame_actions_def\<close>)
  qed (rule en, use pos in \<open>simp add: backend_actions_def\<close>)+
qed

section \<open>Reachability witnesses\<close>

fun lp_run :: "buffer_model \<Rightarrow> action list \<Rightarrow> lp_state \<Rightarrow> lp_state option" where
  "lp_run m [] s = Some s"
| "lp_run m (a # as) s =
     (if a \<in> set (actions m s) then Option.bind (next_state s a) (lp_run m as) else None)"

lemma lp_run_reachable: "lp_reachable m s \<Longrightarrow> lp_run m as s = Some s' \<Longrightarrow> lp_reachable m s'"
proof (induction as arbitrary: s)
  case (Cons a as)
  then obtain t where "a \<in> set (actions m s)" "next_state s a = Some t" "lp_run m as t = Some s'"
    by (auto split: if_splits bind_splits)
  with Cons show ?case by (blast intro: lp_reachable.step)
qed simp

definition lp_reaches :: "buffer_model \<Rightarrow> action list \<Rightarrow> (lp_state \<Rightarrow> bool) \<Rightarrow> bool" where
  "lp_reaches m as P = (case lp_run m as (init_state m) of Some s \<Rightarrow> P s | None \<Rightarrow> False)"

lemma lp_reachesD: "lp_reaches m as P \<Longrightarrow> \<exists>s. lp_reachable m s \<and> P s"
  by (auto simp: lp_reaches_def split: option.splits intro: lp_run_reachable lp_reachable.start)

definition cancelled_loading :: "lp_state \<Rightarrow> bool" where
  "cancelled_loading s = list_ex (\<lambda>f. (case lp_frames s ! f of Loading _ io \<Rightarrow> io | _ \<Rightarrow> False) \<and>
     \<not> list_ex (is_waiting f) (lp_backends s)) [0..<length (lp_frames s)]"

definition duplicate_waiters :: "lp_state \<Rightarrow> bool" where
  "duplicate_waiters s = list_ex (\<lambda>b. case lp_backends s ! b of
       Waiting f _ _ \<Rightarrow> list_ex (is_waiting f) (take b (lp_backends s)) | _ \<Rightarrow> False) [0..<length (lp_backends s)]"

definition writeback_failed :: "lp_state \<Rightarrow> bool" where
  "writeback_failed s = (case lp_event s of FlushFailed _ _ \<Rightarrow> True | _ \<Rightarrow> False)"

definition race_lost :: "lp_state \<Rightarrow> bool" where
  "race_lost s = (case lp_event s of RaceReleased _ \<Rightarrow> True | _ \<Rightarrow> False)"

lemma sometimes_runs:
  "lp_reaches \<lparr>bm_frame_count = 1, bm_page_count = 1, bm_backend_count = 1\<rparr>
     [ARequest 0 0, ALookup 0, AReserve 0 0, APublish 0, ASubmit 0, ALoadDone 0 False,
      ALookup 0, AReserve 0 0, APublish 0, ASubmit 0, ALoadDone 0 True] (\<lambda>s. lp_event s = RetrySucceeded)"
  "lp_reaches \<lparr>bm_frame_count = 1, bm_page_count = 1, bm_backend_count = 1\<rparr>
     [ARequest 0 0, ALookup 0, AReserve 0 0, APublish 0, ASubmit 0, ACancel 0] cancelled_loading"
  "lp_reaches \<lparr>bm_frame_count = 1, bm_page_count = 1, bm_backend_count = 2\<rparr>
     [ARequest 1 0, ALookup 1, ARequest 0 0, ALookup 0, AReserve 0 0, APublish 0, ASubmit 0, ALoadDone 0 True,
      AWrite 0, AEndAccess 0, AUnpin 0, AReserve 1 0, AFlushDone 0 False] writeback_failed"
  "lp_reaches \<lparr>bm_frame_count = 1, bm_page_count = 2, bm_backend_count = 1\<rparr>
     [ARequest 0 0, ALookup 0, AReserve 0 0, APublish 0, ASubmit 0, ALoadDone 0 True, AWrite 0, AEndAccess 0, AUnpin 0,
      ARequest 0 1, ALookup 0, AReserve 0 0, AFlushDone 0 False] writeback_failed"
  "lp_reaches \<lparr>bm_frame_count = 1, bm_page_count = 1, bm_backend_count = 2\<rparr>
     [ARequest 0 0, ALookup 0, AReserve 0 0, APublish 0, ARequest 1 0, ALookup 1] duplicate_waiters"
  "lp_reaches \<lparr>bm_frame_count = 2, bm_page_count = 1, bm_backend_count = 2\<rparr>
     [ARequest 0 0, ALookup 0, ARequest 1 0, ALookup 1, AReserve 0 0, AReserve 1 1, APublish 0, APublish 1] race_lost"
  by code_simp+

section \<open>Larger models\<close>

text \<open>
  A model with more frames, pages and backends can do everything a smaller one does: its extra
  frames stay free, its extra backends idle and its extra pages unmapped.
\<close>

definition enlarge :: "nat \<Rightarrow> nat \<Rightarrow> nat \<Rightarrow> buffer_model \<Rightarrow> buffer_model" where
  "enlarge i j k m = \<lparr>bm_frame_count = bm_frame_count m + i, bm_page_count = bm_page_count m + j,
     bm_backend_count = bm_backend_count m + k\<rparr>"

definition pad :: "nat \<Rightarrow> nat \<Rightarrow> nat \<Rightarrow> lp_state \<Rightarrow> lp_state" where
  "pad i j k s = \<lparr>lp_frames = lp_frames s @ replicate i Free, lp_backends = lp_backends s @ replicate k Idle,
     lp_table = lp_table s @ replicate j None, lp_event = lp_event s\<rparr>"

lemma pad_nth [simp]:
  "f < length (lp_frames s) \<Longrightarrow> lp_frames (pad i j k s) ! f = lp_frames s ! f"
  "b < length (lp_backends s) \<Longrightarrow> lp_backends (pad i j k s) ! b = lp_backends s ! b"
  "p < length (lp_table s) \<Longrightarrow> lp_table (pad i j k s) ! p = lp_table s ! p"
  by (simp_all add: pad_def nth_append)

lemma pad_update:
  "f < length (lp_frames s) \<Longrightarrow> set_lp_frame f v (pad i j k s) = pad i j k (set_lp_frame f v s)"
  "b < length (lp_backends s) \<Longrightarrow> set_backend b w (pad i j k s) = pad i j k (set_backend b w s)"
  "p < length (lp_table s) \<Longrightarrow> set_table p t (pad i j k s) = pad i j k (set_table p t s)"
  "(pad i j k s)\<lparr>lp_event := e\<rparr> = pad i j k (s\<lparr>lp_event := e\<rparr>)"
  by (simp_all add: pad_def list_update_append1)

lemma pad_event [simp]: "lp_event (pad i j k s) = lp_event s"
  by (simp add: pad_def)

lemma pad_backends [simp]:
  "list_ex (is_writing f) (lp_backends (pad i j k s)) = list_ex (is_writing f) (lp_backends s)"
  "list_ex (is_accessing f) (lp_backends (pad i j k s)) = list_ex (is_accessing f) (lp_backends s)"
  "list_ex (is_waiting f) (lp_backends (pad i j k s)) = list_ex (is_waiting f) (lp_backends s)"
  "list_ex (retried f) (lp_backends (pad i j k s)) = list_ex (retried f) (lp_backends s)"
  "filter (is_waiting f) (lp_backends (pad i j k s)) = filter (is_waiting f) (lp_backends s)"
  "map (wake ok f) (lp_backends (pad i j k s)) = map (wake ok f) (lp_backends s) @ replicate k Idle"
  by (auto simp: pad_def list_ex_iff is_writing_def is_accessing_def is_waiting_def retried_def wake_def
      filter_replicate)

lemma pad_mapped:
  assumes "lp_inv m s" "p < bm_page_count m"
  shows "mapped_frame (pad i j k s) p = mapped_frame s p"
  using inv_parts(1,3) [OF assms(1)] table_invD(2) [OF inv_parts(7) [OF assms(1)], of p] assms(2)
  by (cases "lp_table s ! p") (auto simp: mapped_frame_def)

lemma pad_init: "init_state (enlarge i j k m) = pad i j k (init_state m)"
  by (simp add: init_state_def enlarge_def pad_def replicate_add)

lemma pad_backend_actions:
  assumes inv: "lp_inv m s" and b: "b < bm_backend_count m"
  shows "set (backend_actions m s b) \<subseteq> set (backend_actions (enlarge i j k m) (pad i j k s) b)"
proof -
  note i = inv_parts [OF inv]
  show ?thesis
  proof (cases "lp_backends s ! b")
    case (Request p r)
    with i(4) [OF b] have "p < bm_page_count m" by simp
    with Request b i(2) show ?thesis by (simp add: backend_actions_def pad_mapped [OF inv])
  next
    case (Miss p r)
    with i(4) [OF b] have p: "p < bm_page_count m" by simp
    have "length (lp_frames s) \<le> length (lp_frames (pad i j k s))" by (simp add: pad_def)
    with Miss b p i(2) show ?thesis by (auto simp: backend_actions_def pad_mapped [OF inv])
  next
    case (BackendReserved f p r)
    with i(4) [OF b] i(1) have "f < length (lp_frames s)" by simp
    with BackendReserved b i(2) show ?thesis by (simp add: backend_actions_def)
  qed (use b i(2) in \<open>auto simp: backend_actions_def enlarge_def\<close>)
qed

lemma pad_actions:
  assumes inv: "lp_inv m s" and a: "a \<in> set (actions m s)"
  shows "a \<in> set (actions (enlarge i j k m) (pad i j k s))"
proof -
  have len: "length (lp_backends s) \<le> length (lp_backends (pad i j k s))"
    "length (lp_frames s) \<le> length (lp_frames (pad i j k s))" by (simp_all add: pad_def)
  from a consider b where "b < length (lp_backends s)" "a \<in> set (backend_actions m s b)"
    | f where "f < length (lp_frames s)" "a \<in> set (frame_actions s f)"
    by (auto simp: actions_def)
  then show ?thesis
  proof cases
    case 1
    with pad_backend_actions [OF inv, of b i j k] inv_parts(2) [OF inv] len(1) show ?thesis
      by (auto simp: actions_def intro!: bexI [of _ b])
  next
    case 2
    then have "a \<in> set (frame_actions (pad i j k s) f)" by (simp add: frame_actions_def)
    with 2 len(2) show ?thesis by (auto simp: actions_def)
  qed
qed

lemma pad_join:
  assumes "f < length (lp_frames s)" "b < length (lp_backends s)"
  shows "join b f p r (pad i j k s) = pad i j k (join b f p r s)"
  using assms by (simp add: join_def pad_update split: frame.split)

lemma pad_lookup:
  assumes inv: "lp_inv m s" and b: "b < bm_backend_count m" and n: "next_lookup b s = Some s'"
  shows "next_lookup b (pad i j k s) = Some (pad i j k s')"
proof -
  note i = inv_parts [OF inv]
  from n obtain p r where bk: "lp_backends s ! b = Request p r \<or> lp_backends s ! b = Miss p r"
    and s': "s' = (case lp_table s ! p of Some f \<Rightarrow> join b f p r s | None \<Rightarrow> set_backend b (Miss p r) s)"
    by (auto simp: next_lookup_def split: backend.splits)
  have p: "p < bm_page_count m" using i(4) [OF b] bk by auto
  with table_invD(2) [OF i(7) p] bk s' b i(1-3) show ?thesis
    by (cases "lp_table s ! p") (auto simp: next_lookup_def pad_update pad_join)
qed

lemma pad_reserve:
  assumes inv: "lp_inv m s" and b: "b < bm_backend_count m" and f: "f < bm_frame_count m"
    and n: "next_reserve b f s = Some s'"
  shows "next_reserve b f (pad i j k s) = Some (pad i j k s')"
proof -
  note i = inv_parts [OF inv]
  from n obtain p r where miss: "lp_backends s ! b = Miss p r" by (auto simp: next_reserve_def split: backend.splits)
  show ?thesis
  proof (cases "lp_frames s ! f")
    case (Ready old pins d)
    with table_invD(1) [OF i(7) f, of old] i(3) have "old < length (lp_table s)" by simp
    with n miss Ready b f i(1,2) show ?thesis by (auto simp: next_reserve_def pad_update split: if_splits)
  qed (use n miss b f i(1,2) in \<open>auto simp: next_reserve_def pad_update\<close>)
qed

lemma pad_publish:
  assumes inv: "lp_inv m s" and b: "b < bm_backend_count m" and n: "next_publish b s = Some s'"
  shows "next_publish b (pad i j k s) = Some (pad i j k s')"
proof -
  note i = inv_parts [OF inv]
  from n obtain f p r where bk: "lp_backends s ! b = BackendReserved f p r"
    by (auto simp: next_publish_def split: backend.splits)
  with i(4) [OF b] have f: "f < bm_frame_count m" and p: "p < bm_page_count m" by auto
  show ?thesis
  proof (cases "lp_table s ! p")
    case None
    with n bk b f p i(1-3) show ?thesis by (auto simp: next_publish_def pad_update)
  next
    case (Some w)
    with table_invD(2) [OF i(7) p] have "w < bm_frame_count m" by simp
    with n bk b f p i(1-3) Some show ?thesis by (auto simp: next_publish_def pad_update pad_join)
  qed
qed

lemma pad_load_done:
  assumes inv: "lp_inv m s" and f: "f < bm_frame_count m" and n: "next_load_done f ok s = Some s'"
  shows "next_load_done f ok (pad i j k s) = Some (pad i j k s')"
proof -
  note i = inv_parts [OF inv]
  from n obtain p where fr: "lp_frames s ! f = Loading p True"
    by (auto simp: next_load_done_def split: frame.splits if_splits)
  with table_invD(1) [OF i(7) f, of p] i(3) have p: "p < length (lp_table s)" by simp
  from n fr f p i(1) show ?thesis
    by (auto simp: next_load_done_def Let_def) (simp_all add: pad_def list_update_append1)
qed

lemma pad_flush_done:
  assumes inv: "lp_inv m s" and f: "f < bm_frame_count m" and n: "next_flush_done f ok s = Some s'"
  shows "next_flush_done f ok (pad i j k s) = Some (pad i j k s')"
proof -
  note i = inv_parts [OF inv]
  from n obtain old t ob where fr: "lp_frames s ! f = Flushing old t ob"
    by (auto simp: next_flush_done_def split: frame.splits)
  with table_invD(1) [OF i(7) f, of old] i(3) have p: "old < length (lp_table s)" by simp
  from i(5) [OF f] fr i(2) obtain r where ob: "ob < length (lp_backends s)" "lp_backends s ! ob = BackendReserved f t r"
    by auto
  from n fr f p i(1) ob show ?thesis by (cases ok) (auto simp: next_flush_done_def pad_update)
qed

lemma pad_next_state:
  assumes inv: "lp_inv m s" and a: "a \<in> set (actions m s)" and n: "next_state s a = Some s'"
  shows "next_state (pad i j k s) a = Some (pad i j k s')"
proof -
  let ?s = "s\<lparr>lp_event := NoEvent\<rparr>"
  have inv': "lp_inv m ?s" using inv by simp
  note i = inv_parts [OF inv']
  note en = enabledD [OF a]
  have pin: "f < length (lp_frames s)" if "b < length (lp_backends s)" "lp_backends s ! b = Pinned f p" for b f p
    using i(1,2) i(4) [of b] that by simp
  show ?thesis
  proof (cases a)
    case (ALookup b)
    with n en i pad_lookup [OF inv', of b s' i j k] show ?thesis by (simp add: next_state_def pad_update)
  next
    case (AReserve b f)
    with n en i pad_reserve [OF inv', of b f s' i j k] show ?thesis by (simp add: next_state_def pad_update)
  next
    case (APublish b)
    with n en i pad_publish [OF inv', of b s' i j k] show ?thesis by (simp add: next_state_def pad_update)
  next
    case (ALoadDone f ok)
    with n en i pad_load_done [OF inv', of f ok s' i j k] show ?thesis by (simp add: next_state_def pad_update)
  next
    case (AFlushDone f ok)
    with n en i pad_flush_done [OF inv', of f ok s' i j k] show ?thesis by (simp add: next_state_def pad_update)
  next
    case (AWrite b)
    with en obtain f p where bk: "b < length (lp_backends s)" "lp_backends s ! b = Pinned f p" by auto
    with pin [OF bk] n AWrite show ?thesis
      by (cases "lp_frames s ! f") (auto simp: next_state_def Let_def pad_update)
  next
    case (AUnpin b)
    with en have b: "b < length (lp_backends s)" by simp
    with n AUnpin obtain f p where bk: "lp_backends s ! b = Pinned f p"
      by (auto simp: next_state_def Let_def split: backend.splits)
    with pin [OF b bk] n b AUnpin show ?thesis
      by (cases "lp_frames s ! f") (auto simp: next_state_def Let_def pad_update)
  qed (use n en in \<open>auto simp: next_state_def Let_def pad_update split: frame.splits backend.splits bool.splits option.splits\<close>)
qed

lemma reachable_enlarge: "lp_reachable m s \<Longrightarrow> lp_reachable (enlarge i j k m) (pad i j k s)"
proof (induction rule: lp_reachable.induct)
  case start
  show ?case unfolding pad_init [symmetric] by (rule lp_reachable.start)
next
  case (step s a s')
  with pad_actions [OF reachable_inv] pad_next_state [OF reachable_inv] show ?case by (blast intro: lp_reachable.step)
qed

section \<open>A lone backend\<close>

text \<open>
  A single backend that has missed a page, or reserved a frame for it, still finds the page
  unmapped: nobody else can publish it. So it never loses a race, and it writes back only a
  page other than the one it wants.
\<close>

definition seeks_absent :: "lp_state \<Rightarrow> bool" where
  "seeks_absent s \<longleftrightarrow> (\<forall>f p r. lp_backends s ! 0 = Miss p r \<or> lp_backends s ! 0 = BackendReserved f p r \<longrightarrow>
     lp_table s ! p = None)"

lemma unmap_absent: "tab ! p = None \<Longrightarrow> tab[q := None] ! p = None"
  by (cases "p = q \<and> q < length tab") (auto simp: nth_list_update list_update_beyond)

lemma join_seeks: "0 < length (lp_backends s) \<Longrightarrow> seeks_absent (join 0 f p r s)"
  by (simp add: join_def seeks_absent_def split: frame.split)

lemma miss_seeks:
  "0 < length (lp_backends s) \<Longrightarrow> lp_table s ! p = None \<Longrightarrow> seeks_absent (set_backend 0 (Miss p r) s)"
  by (simp add: seeks_absent_def)

lemma wake_seeking: "wake ok f bk = Miss p r \<longleftrightarrow> bk = Miss p r" "wake ok f bk = BackendReserved g p r \<longleftrightarrow> bk = BackendReserved g p r"
  by (auto simp: wake_def split: backend.splits if_splits)

lemma lone_step:
  assumes one: "bm_backend_count m = 1" and inv: "lp_inv m s" and al: "seeks_absent s"
    and a: "a \<in> set (actions m s)" and n: "next_state s a = Some s'"
  shows "seeks_absent s'"
proof -
  have len: "length (lp_backends s) = 1" using inv_parts(2) [OF inv] one by simp
  note en = enabledD [OF a]
  show ?thesis
  proof (cases a)
    case (ALookup b)
    with en len have [simp]: "b = 0" by simp
    from n ALookup obtain p r where "lp_backends s ! 0 = Request p r \<or> lp_backends s ! 0 = Miss p r"
      "s' = (case lp_table s ! p of Some f \<Rightarrow> join 0 f p r (s\<lparr>lp_event := NoEvent\<rparr>)
         | None \<Rightarrow> set_backend 0 (Miss p r) (s\<lparr>lp_event := NoEvent\<rparr>))"
      by (auto simp: next_state_def next_lookup_def Let_def split: backend.splits)
    with join_seeks [of "s\<lparr>lp_event := NoEvent\<rparr>"] miss_seeks [of "s\<lparr>lp_event := NoEvent\<rparr>" p r] len show ?thesis
      by (cases "lp_table s ! p") simp_all
  next
    case (AReserve b f)
    with en len have [simp]: "b = 0" by simp
    from n AReserve obtain p r where bk: "lp_backends s ! 0 = Miss p r"
      by (auto simp: next_state_def next_reserve_def Let_def split: backend.splits)
    with al have "lp_table s ! p = None" by (simp add: seeks_absent_def)
    with n AReserve bk len show ?thesis
      by (auto simp: next_state_def next_reserve_def Let_def seeks_absent_def unmap_absent split: frame.splits if_splits)
  next
    case (APublish b)
    with en len obtain f p r where [simp]: "b = 0" and bk: "lp_backends s ! 0 = BackendReserved f p r" by auto
    with al have "lp_table s ! p = None" by (simp add: seeks_absent_def)
    with n APublish bk len show ?thesis by (auto simp: next_state_def next_publish_def Let_def seeks_absent_def)
  next
    case (ALoadDone f ok)
    with n al len show ?thesis
      by (auto simp: next_state_def next_load_done_def Let_def seeks_absent_def unmap_absent wake_seeking
          split: frame.splits if_splits)
  next
    case (AFlushDone f ok)
    then have f: "f < bm_frame_count m" using en inv_parts(1) [OF inv] by simp
    from n AFlushDone obtain old t ob where fl: "lp_frames s ! f = Flushing old t ob"
      by (auto simp: next_state_def next_flush_done_def Let_def split: frame.splits)
    with inv_parts(5) [OF inv f] one have "ob = 0" by auto
    with n al len AFlushDone fl show ?thesis
      by (auto simp: next_state_def next_flush_done_def Let_def seeks_absent_def unmap_absent
          split: backend.splits if_splits)
  qed (use n al len en in \<open>auto simp: next_state_def Let_def seeks_absent_def
        split: frame.splits backend.splits bool.splits option.splits\<close>)
qed

lemma reachable_lone: "lp_reachable m s \<Longrightarrow> bm_backend_count m = 1 \<Longrightarrow> seeks_absent s"
proof (induction rule: lp_reachable.induct)
  case start
  then show ?case by (simp add: seeks_absent_def init_state_def)
next
  case (step s a s')
  with lone_step [OF _ reachable_inv] show ?case by blast
qed

text \<open>What each \<^verbatim>\<open>sometimes\<close> state takes.\<close>

lemma cancelled_iff:
  "cancelled_loading s \<longleftrightarrow> (\<exists>f < length (lp_frames s). (\<exists>p. lp_frames s ! f = Loading p True) \<and>
     \<not> list_ex (is_waiting f) (lp_backends s))"
proof -
  have "(case fr of Loading _ io \<Rightarrow> io | _ \<Rightarrow> False) \<longleftrightarrow> (\<exists>p. fr = Loading p True)" for fr by (cases fr) auto
  then show ?thesis by (auto simp: cancelled_loading_def list_ex_iff)
qed

lemma duplicate_iff:
  "duplicate_waiters s \<longleftrightarrow> (\<exists>b < length (lp_backends s). \<exists>f p r. lp_backends s ! b = Waiting f p r \<and>
     list_ex (is_waiting f) (take b (lp_backends s)))"
proof -
  have "(case bk of Waiting f _ _ \<Rightarrow> Q f | _ \<Rightarrow> False) \<longleftrightarrow> (\<exists>f p r. bk = Waiting f p r \<and> Q f)" for bk Q
    by (cases bk) auto
  then show ?thesis unfolding duplicate_waiters_def list_ex_iff by (simp add: Bex_def conj_commute)
qed

lemma duplicate_needs:
  assumes "lp_reachable m s" "duplicate_waiters s"
  shows "bm_backend_count m \<ge> 2"
proof -
  from assms(2) obtain b f where "b < length (lp_backends s)" "list_ex (is_waiting f) (take b (lp_backends s))"
    by (auto simp: duplicate_iff)
  then have "0 < b" "b < length (lp_backends s)" by (cases b; simp)+
  with inv_parts(2) [OF reachable_inv [OF assms(1)]] show ?thesis by linarith
qed

lemma writeback_needs:
  assumes "lp_reachable m s'" "writeback_failed s'" "bm_backend_count m > 0"
  shows "bm_page_count m \<ge> 2 \<or> bm_backend_count m \<ge> 2"
  using assms(1)
proof cases
  case start
  with assms(2) show ?thesis by (simp add: writeback_failed_def init_state_def)
next
  case (step s a)
  note i = inv_parts [OF reachable_inv [OF step(1)]]
  from assms(2) next_state_event [OF step(3)] obtain f where a: "a = AFlushDone f False"
    by (auto simp: writeback_failed_def split: event.splits)
  with enabledD [OF step(2)] i(1) have f: "f < bm_frame_count m" by simp
  from step(3) a obtain old t ob where fl: "lp_frames s ! f = Flushing old t ob"
    by (auto simp: next_state_def next_flush_done_def Let_def split: frame.splits)
  from table_invD(1) [OF i(7) f, of old] fl have old: "old < bm_page_count m" "lp_table s ! old = Some f" by simp_all
  from i(5) [OF f] fl obtain r where ob: "ob < bm_backend_count m" "lp_backends s ! ob = BackendReserved f t r" by auto
  have t: "t < bm_page_count m" using i(4) [OF ob(1)] ob(2) by simp
  show ?thesis
  proof (cases "bm_backend_count m = 1")
    case True
    with ob reachable_lone [OF step(1)] have "lp_table s ! t = None" by (simp add: seeks_absent_def)
    with old t have "t \<noteq> old" by auto
    with old(1) t show ?thesis by linarith
  qed (use assms(3) in linarith)
qed

lemma race_needs:
  assumes "lp_reachable m s'" "race_lost s'" "bm_backend_count m > 0"
  shows "bm_backend_count m \<ge> 2 \<and> bm_frame_count m \<ge> 2"
  using assms(1)
proof cases
  case start
  with assms(2) show ?thesis by (simp add: race_lost_def init_state_def)
next
  case (step s a)
  note i = inv_parts [OF reachable_inv [OF step(1)]]
  from assms(2) next_state_event [OF step(3)] obtain b where a: "a = APublish b"
    by (auto simp: race_lost_def split: event.splits)
  with enabledD [OF step(2)] i(2) obtain f p r t ob where b: "b < bm_backend_count m"
    and bk: "lp_backends s ! b = BackendReserved f p r" and fr: "lp_frames s ! f = FrameReserved t ob" by auto
  have f: "f < bm_frame_count m" and p: "p < bm_page_count m" using i(4) [OF b] bk by auto
  from step(3) a bk assms(2) obtain w where w: "lp_table s ! p = Some w"
    by (cases "lp_table s ! p") (auto simp: next_state_def next_publish_def Let_def race_lost_def)
  have "w < bm_frame_count m" "w \<noteq> f" using table_invD(2) [OF i(7) p w] fr by auto
  moreover have "bm_backend_count m \<noteq> 1"
    using reachable_lone [OF step(1)] b bk w by (auto simp: seeks_absent_def)
  ultimately show ?thesis using f assms(3) by linarith
qed

section \<open>Sometimes-properties in larger models\<close>

lemma pad_cancelled: "cancelled_loading s \<Longrightarrow> cancelled_loading (pad i j k s)"
proof -
  assume "cancelled_loading s"
  then obtain f p where "f < length (lp_frames s)" "lp_frames s ! f = Loading p True"
    "\<not> list_ex (is_waiting f) (lp_backends s)" by (auto simp: cancelled_iff)
  moreover have "length (lp_frames s) \<le> length (lp_frames (pad i j k s))" by (simp add: pad_def)
  ultimately show ?thesis unfolding cancelled_iff by (intro exI [of _ f]) auto
qed

lemma pad_duplicate: "duplicate_waiters s \<Longrightarrow> duplicate_waiters (pad i j k s)"
proof -
  assume "duplicate_waiters s"
  then obtain b f p r where b: "b < length (lp_backends s)" "lp_backends s ! b = Waiting f p r"
    "list_ex (is_waiting f) (take b (lp_backends s))" by (auto simp: duplicate_iff)
  have "take b (lp_backends (pad i j k s)) = take b (lp_backends s)" "b < length (lp_backends (pad i j k s))"
    using b(1) by (simp_all add: pad_def)
  with b show ?thesis unfolding duplicate_iff by (intro exI [of _ b]) simp
qed

lemma reaches_enlarge:
  assumes "lp_reaches \<lparr>bm_frame_count = f, bm_page_count = p, bm_backend_count = b\<rparr> as P"
    and "\<And>s i j k. P s \<Longrightarrow> P (pad i j k s)" and "f \<le> fc" "p \<le> pc" "b \<le> bc"
  shows "\<exists>s. lp_reachable \<lparr>bm_frame_count = fc, bm_page_count = pc, bm_backend_count = bc\<rparr> s \<and> P s"
proof -
  from lp_reachesD [OF assms(1)] obtain s
    where s: "lp_reachable \<lparr>bm_frame_count = f, bm_page_count = p, bm_backend_count = b\<rparr> s" "P s" by blast
  have "enlarge (fc - f) (pc - p) (bc - b) \<lparr>bm_frame_count = f, bm_page_count = p, bm_backend_count = b\<rparr> =
      \<lparr>bm_frame_count = fc, bm_page_count = pc, bm_backend_count = bc\<rparr>"
    using assms(3-5) by (simp add: enlarge_def)
  with reachable_enlarge [OF s(1), of "fc - f" "pc - p" "bc - b"] assms(2) [OF s(2)] show ?thesis by metis
qed

section \<open>Properties\<close>

definition always_checked :: "lp_state \<Rightarrow> bool" where
  "always_checked s \<longleftrightarrow> access_requires_pin s \<and> unique_published s \<and> mapping_bijection s \<and>
     pin_accounting s \<and> reservation_ownership s \<and> writer_exclusivity s \<and>
     failed_load_reusable s \<and> failed_writeback_retains s \<and> loser_releases s"

text \<open>
  C13: All nine \<^verbatim>\<open>always\<close> properties that the Stateright checker explores for six small
  bounds hold in every reachable state of the loading protocol, for every number of frames,
  pages and backends: accesses hold a ready matching pinned frame, no page is published
  twice, page table and frames are inverse, pin counts are exact (so nothing pinned is
  evicted), reservations and waiters match their frames, writers are exclusive, and failed
  loads, failed writebacks and lost publication races leave the state they promise.
\<close>

theorem loading_protocol_safe:
  assumes "lp_reachable m s"
  shows "always_checked s"
  unfolding always_checked_def
  using reachable_inv [OF assms] reachable_last [OF assms]
  by (simp add: inv_access_requires_pin inv_unique_published inv_mapping_bijection inv_pin_accounting
      inv_reservation_ownership inv_writer_exclusivity)

theorem loading_protocol_safe_witness:
  "\<exists>s. lp_reachable \<lparr>bm_frame_count = 1, bm_page_count = 1, bm_backend_count = 2\<rparr> s \<and>
     writeback_failed s \<and> always_checked s"
  using lp_reachesD [OF sometimes_runs(3)] loading_protocol_safe by blast

text \<open>
  C24: The protocol never gets stuck: with at least one frame, page and backend (what
  \<^verbatim>\<open>BufferModel::new\<close> asserts), every reachable state offers an action, and every action
  \<^verbatim>\<open>actions\<close> offers is accepted by \<^verbatim>\<open>next_state\<close>.
\<close>

theorem loading_protocol_no_deadlock:
  assumes "buffer_model_new fc pc bc = Some m" "lp_reachable m s"
  shows "actions m s \<noteq> [] \<and> (\<forall>a \<in> set (actions m s). next_state s a \<noteq> None)"
  using inv_no_deadlock [OF reachable_inv [OF assms(2)]] enabled_succeeds [OF reachable_inv [OF assms(2)]] assms(1)
  by (auto simp: buffer_model_new_def split: if_splits)

theorem loading_protocol_no_deadlock_witness:
  "actions \<lparr>bm_frame_count = 1, bm_page_count = 1, bm_backend_count = 1\<rparr>
     (init_state \<lparr>bm_frame_count = 1, bm_page_count = 1, bm_backend_count = 1\<rparr>) \<noteq> []"
  using loading_protocol_no_deadlock [of 1 1 1] by (auto simp: buffer_model_new_def intro: lp_reachable.start)

text \<open>
  C25: The \<^verbatim>\<open>sometimes\<close> properties are reached in every configuration, and exactly where the
  source registers them. Whatever numbers of frames, pages and backends \<^verbatim>\<open>BufferModel::new\<close>
  accepts, some reachable state has just loaded a page by a retry after a failed load, and some
  has a load in flight whose waiters have all cancelled; a failed dirty writeback is reachable
  exactly when there are two pages or two backends, two waiters on one load exactly when there
  are two backends, and a lost publication race exactly when there are two backends and two
  frames.
\<close>

theorem loading_protocol_reaches:
  assumes "buffer_model_new fc pc bc = Some m"
  shows "(\<exists>s. lp_reachable m s \<and> lp_event s = RetrySucceeded) \<and>
   (\<exists>s. lp_reachable m s \<and> cancelled_loading s) \<and>
   ((\<exists>s. lp_reachable m s \<and> writeback_failed s) \<longleftrightarrow> pc \<ge> 2 \<or> bc \<ge> 2) \<and>
   ((\<exists>s. lp_reachable m s \<and> duplicate_waiters s) \<longleftrightarrow> bc \<ge> 2) \<and>
   ((\<exists>s. lp_reachable m s \<and> race_lost s) \<longleftrightarrow> bc \<ge> 2 \<and> fc \<ge> 2)"
proof -
  from assms have m: "m = \<lparr>bm_frame_count = fc, bm_page_count = pc, bm_backend_count = bc\<rparr>"
    and pos: "1 \<le> fc" "1 \<le> pc" "1 \<le> bc" by (auto simp: buffer_model_new_def split: if_splits)
  have events: "writeback_failed (pad i j k s) = writeback_failed s" "race_lost (pad i j k s) = race_lost s" for i j k s
    by (simp_all add: writeback_failed_def race_lost_def)
  have "\<exists>s. lp_reachable m s \<and> writeback_failed s" if "pc \<ge> 2 \<or> bc \<ge> 2"
    using that pos reaches_enlarge [OF sometimes_runs(3), of fc pc bc] reaches_enlarge [OF sometimes_runs(4), of fc pc bc]
    by (auto simp: m events)
  moreover have "\<exists>s. lp_reachable m s \<and> duplicate_waiters s" if "bc \<ge> 2"
    unfolding m by (rule reaches_enlarge [OF sometimes_runs(5) pad_duplicate pos(1,2) that])
  moreover have "\<exists>s. lp_reachable m s \<and> race_lost s" if "bc \<ge> 2" "fc \<ge> 2"
    using that pos reaches_enlarge [OF sometimes_runs(6), of fc pc bc] by (simp add: m events)
  moreover have "\<exists>s. lp_reachable m s \<and> cancelled_loading s"
    unfolding m by (rule reaches_enlarge [OF sometimes_runs(2) pad_cancelled pos])
  moreover have "\<exists>s. lp_reachable m s \<and> lp_event s = RetrySucceeded"
    using pos reaches_enlarge [OF sometimes_runs(1), of fc pc bc] by (simp add: m)
  ultimately show ?thesis
    using writeback_needs [of m] duplicate_needs [of m] race_needs [of m] pos by (auto simp: m)
qed

theorem loading_protocol_reaches_witness:
  "\<exists>m. buffer_model_new 5 2 1 = Some m \<and> (\<exists>s. lp_reachable m s \<and> writeback_failed s) \<and>
     \<not> (\<exists>s. lp_reachable m s \<and> race_lost s)"
proof -
  have m: "buffer_model_new 5 2 1 = Some \<lparr>bm_frame_count = 5, bm_page_count = 2, bm_backend_count = 1\<rparr>"
    by (simp add: buffer_model_new_def)
  from loading_protocol_reaches [OF m] m show ?thesis by simp
qed

end
