(* ===== verification/Schema.thy ===== *)
theory Schema
  imports Prelude
begin

text \<open>
  Logical types and table metadata, \<^verbatim>\<open>crates/binder/src/lib.rs\<close>, \<^verbatim>\<open>catalog.rs\<close> and the
  declaration part of \<^verbatim>\<open>ast.rs\<close>, shared by the catalog and the binder. A Rust string is the
  list of its UTF-8 bytes, one \<open>char\<close> each; \<open>is_str\<close> is the validity every \<^verbatim>\<open>String\<close> has.
  \<^verbatim>\<open>NonZeroU32\<close> is a \<open>u32\<close> with the well-formedness predicate \<open>type_ok\<close>.
\<close>

section \<open>Strings\<close>

definition byte_of_char :: "char \<Rightarrow> u8" where
  "byte_of_char c = word_of_nat (of_char c)"

definition char_of_byte :: "u8 \<Rightarrow> char" where
  "char_of_byte b = char_of (unat b)"

abbreviation as_bytes :: "string \<Rightarrow> u8 list" where
  "as_bytes s \<equiv> map byte_of_char s"

abbreviation of_bytes :: "u8 list \<Rightarrow> string" where
  "of_bytes bs \<equiv> map char_of_byte bs"

text \<open>Well-formed UTF-8, what \<^verbatim>\<open>String::from_utf8\<close> accepts.\<close>

definition is_cont :: "u8 \<Rightarrow> bool" where
  "is_cont b \<longleftrightarrow> 128 \<le> b \<and> b \<le> 191"

fun utf8_valid :: "u8 list \<Rightarrow> bool" where
  "utf8_valid [] = True"
| "utf8_valid (a # bs) =
     (if a < 128 then utf8_valid bs
      else if 194 \<le> a \<and> a \<le> 223 then
        (case bs of b # r \<Rightarrow> is_cont b \<and> utf8_valid r | _ \<Rightarrow> False)
      else if 224 \<le> a \<and> a \<le> 239 then
        (case bs of b # c # r \<Rightarrow> is_cont b \<and> is_cont c \<and> (a = 224 \<longrightarrow> 160 \<le> b) \<and> (a = 237 \<longrightarrow> b \<le> 159) \<and> utf8_valid r
         | _ \<Rightarrow> False)
      else if 240 \<le> a \<and> a \<le> 244 then
        (case bs of b # c # d # r \<Rightarrow> is_cont b \<and> is_cont c \<and> is_cont d \<and> (a = 240 \<longrightarrow> 144 \<le> b) \<and> (a = 244 \<longrightarrow> b \<le> 143) \<and>
           utf8_valid r | _ \<Rightarrow> False)
      else False)"

definition is_str :: "string \<Rightarrow> bool" where
  "is_str s \<longleftrightarrow> utf8_valid (as_bytes s)"

definition from_utf8 :: "u8 list \<Rightarrow> string option" where
  "from_utf8 bs = (if utf8_valid bs then Some (of_bytes bs) else None)"

lemma char_byte_inverse [simp]: "char_of_byte (byte_of_char c) = c"
proof -
  have "of_char c < (256 :: nat)" by simp
  then have "unat (word_of_nat (of_char c) :: u8) = of_char c" by (simp add: unat_of_nat)
  then show ?thesis by (simp add: char_of_byte_def byte_of_char_def)
qed

lemma byte_char_inverse [simp]: "byte_of_char (char_of_byte b) = b"
proof -
  have "unat b < 256" using unsigned_less [of b] by simp
  then show ?thesis by (simp add: char_of_byte_def byte_of_char_def of_char_of)
qed

lemma bytes_inverse [simp]: "of_bytes (as_bytes s) = s" "as_bytes (of_bytes bs) = bs"
  by (simp_all add: comp_def)

lemma from_utf8_iff: "from_utf8 bs = Some s \<longleftrightarrow> is_str s \<and> bs = as_bytes s"
proof -
  have "s = of_bytes bs \<longleftrightarrow> bs = as_bytes s" by (metis bytes_inverse)
  then show ?thesis by (auto simp: from_utf8_def is_str_def)
qed

section \<open>Types and schemas\<close>

datatype logical_type =
  TNull | TBoolean | TInt32 | TInt64 | TUint32 | TFloat32 | TFloat64 | TText | TVarchar "u32 option"

definition type_ok :: "logical_type \<Rightarrow> bool" where
  "type_ok t \<longleftrightarrow> t \<noteq> TVarchar (Some 0)"

record column_schema =
  col_name :: string
  col_type :: logical_type
  col_nullable :: bool

record table_schema =
  ts_name :: string
  ts_columns :: "column_schema list"

datatype table_constraint = PrimaryKey "nat list" | Unique "nat list"

record create_column =
  cc_name :: string
  cc_type :: logical_type
  cc_nullable :: bool

record create_table =
  ct_name :: string
  ct_columns :: "create_column list"
  ct_constraints :: "table_constraint list"

end
