(* ===== verification/PageStore.thy ===== *)
theory PageStore
  imports Prelude
begin

text \<open>
  Fixed-size page stores, \<^verbatim>\<open>crates/storage/src/store.rs\<close>. The trait object
  \<^verbatim>\<open>dyn PageStore\<close> is the record \<open>page_store_ops\<close> of its four methods over an arbitrary
  state; the locale \<open>page_store\<close> is the contract the buffer pool relies on, with a page map
  as the abstract state. \<^verbatim>\<open>MemoryPageStore\<close> and \<^verbatim>\<open>FilePageStore\<close> are its two instances.
  A file is a byte sequence with a cursor and a list of injected operating-system faults,
  one consumed per call, so that every error branch of the file store is reachable; a
  failing write may leave a prefix of the data behind.
\<close>

definition PAGE_SIZE :: nat where
  "PAGE_SIZE = 8192"

type_synonym page = "u8 list"

definition zero_page :: page where
  "zero_page = replicate PAGE_SIZE 0"

lemma length_zero_page [simp]: "length zero_page = PAGE_SIZE"
  by (simp add: zero_page_def)

lemma PAGE_SIZE_pos [simp]: "0 < PAGE_SIZE"
  by (simp add: PAGE_SIZE_def)

lemma PAGE_SIZE_bounds [simp]:
  "numeral k \<le> PAGE_SIZE \<longleftrightarrow> numeral k \<le> (8192 :: nat)" "numeral k < PAGE_SIZE \<longleftrightarrow> numeral k < (8192 :: nat)"
  by (simp_all add: PAGE_SIZE_def)

datatype io_kind = InvalidInput | InvalidData | UnexpectedEof | OtherKind | OsFault

datatype io_error = IoError io_kind string

section \<open>The PageStore trait\<close>

record 's page_store_ops =
  allocate_page :: "('s, io_error, u32) io"
  read_page :: "u32 \<Rightarrow> ('s, io_error, page) io"
  write_page :: "u32 \<Rightarrow> page \<Rightarrow> ('s, io_error, unit) io"
  sync :: "('s, io_error, unit) io"

text \<open>
  The contract: allocation returns a fresh identifier whose page reads as zero, reads and
  writes never allocate, failed allocations and reads change nothing, and a failed write
  changes at most the bytes of the page it was writing.
\<close>

locale page_store =
  fixes ops :: "'s page_store_ops"
    and wf :: "'s \<Rightarrow> bool"
    and contents :: "'s \<Rightarrow> u32 \<Rightarrow> page option"
  assumes contents_page: "wf s \<Longrightarrow> contents s p = Some d \<Longrightarrow> length d = PAGE_SIZE"
    and allocate_ok: "wf s \<Longrightarrow> allocate_page ops s = (Inr p, s') \<Longrightarrow>
      wf s' \<and> contents s p = None \<and> contents s' = (contents s)(p \<mapsto> zero_page)"
    and allocate_err: "wf s \<Longrightarrow> allocate_page ops s = (Inl e, s') \<Longrightarrow>
      wf s' \<and> contents s' = contents s"
    and read_ok: "wf s \<Longrightarrow> read_page ops p s = (Inr d, s') \<Longrightarrow>
      wf s' \<and> contents s' = contents s \<and> contents s p = Some d"
    and read_err: "wf s \<Longrightarrow> read_page ops p s = (Inl e, s') \<Longrightarrow>
      wf s' \<and> contents s' = contents s"
    and write_ok: "wf s \<Longrightarrow> length d = PAGE_SIZE \<Longrightarrow> write_page ops p d s = (Inr u, s') \<Longrightarrow>
      wf s' \<and> contents s p \<noteq> None \<and> contents s' = (contents s)(p \<mapsto> d)"
    and write_err: "wf s \<Longrightarrow> length d = PAGE_SIZE \<Longrightarrow> write_page ops p d s = (Inl e, s') \<Longrightarrow>
      wf s' \<and> (\<forall>q. q \<noteq> p \<longrightarrow> contents s' q = contents s q) \<and>
      (contents s' p = None \<longleftrightarrow> contents s p = None)"
    and sync_any: "wf s \<Longrightarrow> sync ops s = (r, s') \<Longrightarrow> wf s' \<and> contents s' = contents s"
begin

lemma write_err_dom:
  "wf s \<Longrightarrow> length d = PAGE_SIZE \<Longrightarrow> write_page ops p d s = (Inl e, s') \<Longrightarrow>
   dom (contents s') = dom (contents s)"
  using write_err [of s d p e s'] by (auto simp: dom_def) (metis option.distinct(1))+

lemma write_read_back:
  assumes "wf s" "length d = PAGE_SIZE" "write_page ops p d s = (Inr (), s1)"
    and "read_page ops p s1 = (Inr d', s2)"
  shows "d' = d"
  using write_ok [OF assms(1-3)] read_ok [OF _ assms(4)] by auto

lemma allocate_read_back:
  assumes "wf s" "allocate_page ops s = (Inr p, s1)" "read_page ops p s1 = (Inr d, s2)"
  shows "d = zero_page"
  using allocate_ok [OF assms(1,2)] read_ok [OF _ assms(3)] by auto

end

text \<open>A store without faults: every operation on an allocated page succeeds.\<close>

locale reliable_page_store = page_store +
  assumes read_reliable: "wf s \<Longrightarrow> contents s p = Some d \<Longrightarrow> \<exists>s'. read_page ops p s = (Inr d, s')"
    and write_reliable: "wf s \<Longrightarrow> length d = PAGE_SIZE \<Longrightarrow> contents s p \<noteq> None \<Longrightarrow>
      \<exists>s'. write_page ops p d s = (Inr (), s')"
    and sync_reliable: "wf s \<Longrightarrow> \<exists>s'. sync ops s = (Inr (), s')"
begin

lemma read_Inr_iff: "wf s \<Longrightarrow> (\<exists>s'. read_page ops p s = (Inr d, s')) \<longleftrightarrow> contents s p = Some d"
  using read_reliable read_ok by blast

end

section \<open>MemoryPageStore\<close>

record memory_store =
  ms_pages :: "page list"
  ms_poisoned :: bool

definition memory_new :: memory_store where
  "memory_new = \<lparr>ms_pages = [], ms_poisoned = False\<rparr>"

definition invalid_id :: "u32 \<Rightarrow> io_error" where
  "invalid_id pid = IoError InvalidInput (''unallocated page ID '' @ show_nat (unat pid))"

definition ms_lock :: "(memory_store, io_error, unit) io" where
  "ms_lock s = (if ms_poisoned s then (Inl (IoError OtherKind ''page store mutex poisoned''), s)
                else (Inr (), s))"

definition u32_try_from :: "nat \<Rightarrow> u32 option" where
  "u32_try_from n = (if n < 2 ^ 32 then Some (word_of_nat n) else None)"

definition memory_allocate_page :: "(memory_store, io_error, u32) io" where
  "memory_allocate_page = io_then ms_lock (\<lambda>_ s.
     case u32_try_from (length (ms_pages s)) of
       None \<Rightarrow> (Inl (IoError OtherKind ''page ID space exhausted''), s)
     | Some pid \<Rightarrow> (Inr pid, s\<lparr>ms_pages := ms_pages s @ [zero_page]\<rparr>))"

definition memory_read_page :: "u32 \<Rightarrow> (memory_store, io_error, page) io" where
  "memory_read_page pid = io_then ms_lock (\<lambda>_ s.
     let index = unat pid in
     if index < length (ms_pages s) then (Inr (ms_pages s ! index), s)
     else (Inl (invalid_id pid), s))"

definition memory_write_page :: "u32 \<Rightarrow> page \<Rightarrow> (memory_store, io_error, unit) io" where
  "memory_write_page pid data = io_then ms_lock (\<lambda>_ s.
     let index = unat pid in
     if index < length (ms_pages s) then (Inr (), s\<lparr>ms_pages := (ms_pages s)[index := data]\<rparr>)
     else (Inl (invalid_id pid), s))"

definition memory_sync :: "(memory_store, io_error, unit) io" where
  "memory_sync = ms_lock"

definition memory_page_store :: "memory_store page_store_ops" where
  "memory_page_store = \<lparr>allocate_page = memory_allocate_page, read_page = memory_read_page,
     write_page = memory_write_page, sync = memory_sync\<rparr>"

definition memory_wf :: "memory_store \<Rightarrow> bool" where
  "memory_wf s \<longleftrightarrow> \<not> ms_poisoned s \<and> length (ms_pages s) \<le> 2 ^ 32 \<and>
     list_all (\<lambda>d. length d = PAGE_SIZE) (ms_pages s)"

definition memory_contents :: "memory_store \<Rightarrow> u32 \<Rightarrow> page option" where
  "memory_contents s pid =
     (if unat pid < length (ms_pages s) then Some (ms_pages s ! unat pid) else None)"

lemma u32_try_from_Some: "u32_try_from n = Some w \<longleftrightarrow> n = unat w"
  using unat_u32_less [of w] by (auto simp: u32_try_from_def unat_of_nat)

lemma memory_new_wf [simp]: "memory_wf memory_new"
  by (simp add: memory_wf_def memory_new_def)

lemma memory_new_contents [simp]: "memory_contents memory_new p = None"
  by (simp add: memory_contents_def memory_new_def)

lemmas memory_ops_defs = memory_page_store_def memory_allocate_page_def memory_read_page_def
  memory_write_page_def memory_sync_def ms_lock_def io_then_def Let_def

lemma memory_contents_push:
  assumes "u32_try_from (length (ms_pages s)) = Some p"
  shows "memory_contents (s\<lparr>ms_pages := ms_pages s @ [d]\<rparr>) = (memory_contents s)(p \<mapsto> d)"
    and "memory_contents s p = None"
proof -
  have p: "length (ms_pages s) = unat p" using assms by (simp add: u32_try_from_Some)
  then show "memory_contents s p = None" by (simp add: memory_contents_def)
  show "memory_contents (s\<lparr>ms_pages := ms_pages s @ [d]\<rparr>) = (memory_contents s)(p \<mapsto> d)"
    by (rule ext) (auto simp: memory_contents_def p nth_append less_Suc_eq word_unat_eq_iff)
qed

lemma memory_contents_update:
  "unat p < length (ms_pages s) \<Longrightarrow>
   memory_contents (s\<lparr>ms_pages := (ms_pages s)[unat p := d]\<rparr>) = (memory_contents s)(p \<mapsto> d)"
  by (rule ext) (auto simp: memory_contents_def nth_list_update word_unat_eq_iff)

interpretation mem: reliable_page_store memory_page_store memory_wf memory_contents
proof (unfold_locales, goal_cases)
  case (2 s p s')
  then have p: "u32_try_from (length (ms_pages s)) = Some p"
    and s': "s' = s\<lparr>ms_pages := ms_pages s @ [zero_page]\<rparr>"
    by (auto simp: memory_ops_defs memory_wf_def split: option.splits if_splits)
  from p have "length (ms_pages s) < 2 ^ 32"
    by (auto simp: u32_try_from_def split: if_splits)
  with 2 s' have "memory_wf s'" by (simp add: memory_wf_def)
  with s' memory_contents_push [OF p] show ?case by simp
qed (auto simp: memory_ops_defs memory_wf_def memory_contents_def list_all_length
      memory_contents_update nth_list_update
      split: option.splits if_splits)

section \<open>Files\<close>

text \<open>
  What \<^verbatim>\<open>std::fs::File\<close> does for the store. \<open>faults\<close> is consumed one entry per call: no
  entry or \<open>None\<close> lets the call succeed, \<open>Some k\<close> makes it fail, a failing write having
  already transferred its first \<open>k\<close> bytes. Extending a file fills it with zeros.
\<close>

record os_file =
  f_data :: "u8 list"
  f_cursor :: nat
  f_faults :: "nat option list"

definition os_call :: "(os_file, nat, unit) io" where
  "os_call f = (case f_faults f of
      [] \<Rightarrow> (Inr (), f)
    | None # fs \<Rightarrow> (Inr (), f\<lparr>f_faults := fs\<rparr>)
    | Some k # fs \<Rightarrow> (Inl k, f\<lparr>f_faults := fs\<rparr>))"

definition os_fault :: io_error where
  "os_fault = IoError OsFault ''operating system error''"

definition write_bytes :: "u8 list \<Rightarrow> os_file \<Rightarrow> os_file" where
  "write_bytes bs f = f\<lparr>f_data := copy_at (f_data f) (f_cursor f) bs,
     f_cursor := f_cursor f + length bs\<rparr>"

definition file_len :: "(os_file, io_error, nat) io" where
  "file_len f = (case os_call f of (Inl k, f') \<Rightarrow> (Inl os_fault, f')
     | (Inr _, f') \<Rightarrow> (Inr (length (f_data f')), f'))"

definition file_set_len :: "nat \<Rightarrow> (os_file, io_error, unit) io" where
  "file_set_len n f = (case os_call f of (Inl k, f') \<Rightarrow> (Inl os_fault, f')
     | (Inr _, f') \<Rightarrow> (Inr (), f'\<lparr>f_data := take n (f_data f') @ replicate (n - length (f_data f')) 0\<rparr>))"

definition file_seek :: "nat \<Rightarrow> (os_file, io_error, unit) io" where
  "file_seek n f = (case os_call f of (Inl k, f') \<Rightarrow> (Inl os_fault, f')
     | (Inr _, f') \<Rightarrow> (Inr (), f'\<lparr>f_cursor := n\<rparr>))"

definition file_read_exact :: "nat \<Rightarrow> (os_file, io_error, u8 list) io" where
  "file_read_exact n f = (case os_call f of (Inl k, f') \<Rightarrow> (Inl os_fault, f')
     | (Inr _, f') \<Rightarrow>
        (if f_cursor f' + n \<le> length (f_data f')
         then (Inr (slice (f_data f') (f_cursor f') n), f'\<lparr>f_cursor := f_cursor f' + n\<rparr>)
         else (Inl (IoError UnexpectedEof ''failed to fill whole buffer''), f')))"

definition file_write_all :: "u8 list \<Rightarrow> (os_file, io_error, unit) io" where
  "file_write_all bs f = (case os_call f of
       (Inl k, f') \<Rightarrow> (Inl os_fault, write_bytes (take k bs) f')
     | (Inr _, f') \<Rightarrow> (Inr (), write_bytes bs f'))"

definition file_sync_all :: "(os_file, io_error, unit) io" where
  "file_sync_all f = (case os_call f of (Inl k, f') \<Rightarrow> (Inl os_fault, f') | (Inr _, f') \<Rightarrow> (Inr (), f'))"

section \<open>FilePageStore\<close>

record file_store =
  fs_file :: os_file
  fs_poisoned :: bool

definition page_count :: "(os_file, io_error, nat) io" where
  "page_count = io_then file_len (\<lambda>len f.
     if len mod PAGE_SIZE \<noteq> 0
     then (Inl (IoError InvalidData ''page file length is not page-aligned''), f)
     else let count = len div PAGE_SIZE in
       if count > (2 ^ 32 - 1) + 1
       then (Inl (IoError InvalidData ''page file exceeds page ID address space''), f)
       else (Inr count, f))"

definition checked_mul_u64 :: "nat \<Rightarrow> nat \<Rightarrow> nat option" where
  "checked_mul_u64 a b = (if a * b < 2 ^ 64 then Some (a * b) else None)"

definition page_offset :: "u32 \<Rightarrow> (os_file, io_error, nat) io" where
  "page_offset pid = io_then page_count (\<lambda>count f.
     if unat pid \<ge> count then (Inl (invalid_id pid), f)
     else case checked_mul_u64 (unat pid) PAGE_SIZE of
       None \<Rightarrow> (Inl (IoError OtherKind ''page offset overflow''), f)
     | Some offset \<Rightarrow> (Inr offset, f))"

definition fs_lock :: "(os_file, io_error, 'a) io \<Rightarrow> (file_store, io_error, 'a) io" where
  "fs_lock body s =
     (if fs_poisoned s then (Inl (IoError OtherKind ''page store mutex poisoned''), s)
      else case body (fs_file s) of (r, f) \<Rightarrow> (r, s\<lparr>fs_file := f\<rparr>))"

definition file_open :: "os_file \<Rightarrow> io_error + file_store" where
  "file_open f = (case page_count f of (Inl e, _) \<Rightarrow> Inl e
     | (Inr _, f') \<Rightarrow> Inr \<lparr>fs_file = f', fs_poisoned = False\<rparr>)"

definition file_allocate_page :: "(file_store, io_error, u32) io" where
  "file_allocate_page = fs_lock (io_then page_count (\<lambda>count f.
     case u32_try_from count of
       None \<Rightarrow> (Inl (IoError OtherKind ''page ID space exhausted''), f)
     | Some pid \<Rightarrow>
         (case (if count + 1 < 2 ^ 64 then checked_mul_u64 (count + 1) PAGE_SIZE else None) of
            None \<Rightarrow> (Inl (IoError OtherKind ''page file length overflow''), f)
          | Some len \<Rightarrow> io_then (file_set_len len) (\<lambda>_. io_ok pid) f)))"

definition file_read_page :: "u32 \<Rightarrow> (file_store, io_error, page) io" where
  "file_read_page pid = fs_lock (io_then (page_offset pid) (\<lambda>offset.
     io_then (file_seek offset) (\<lambda>_. file_read_exact PAGE_SIZE)))"

definition file_write_page :: "u32 \<Rightarrow> page \<Rightarrow> (file_store, io_error, unit) io" where
  "file_write_page pid data = fs_lock (io_then (page_offset pid) (\<lambda>offset.
     io_then (file_seek offset) (\<lambda>_. file_write_all data)))"

definition file_sync :: "(file_store, io_error, unit) io" where
  "file_sync = fs_lock file_sync_all"

definition file_page_store :: "file_store page_store_ops" where
  "file_page_store = \<lparr>allocate_page = file_allocate_page, read_page = file_read_page,
     write_page = file_write_page, sync = file_sync\<rparr>"

definition aligned :: "u8 list \<Rightarrow> bool" where
  "aligned bs \<longleftrightarrow> length bs mod PAGE_SIZE = 0 \<and> length bs div PAGE_SIZE \<le> 2 ^ 32"

definition file_wf :: "file_store \<Rightarrow> bool" where
  "file_wf s \<longleftrightarrow> aligned (f_data (fs_file s))"

definition data_contents :: "u8 list \<Rightarrow> u32 \<Rightarrow> page option" where
  "data_contents bs pid =
     (if unat pid < length bs div PAGE_SIZE
      then Some (slice bs (unat pid * PAGE_SIZE) PAGE_SIZE) else None)"

definition file_contents :: "file_store \<Rightarrow> u32 \<Rightarrow> page option" where
  "file_contents s = data_contents (f_data (fs_file s))"

lemma os_call_frame:
  "os_call f = (r, f') \<Longrightarrow> f_data f' = f_data f \<and> f_cursor f' = f_cursor f"
  by (auto simp: os_call_def split: list.splits option.splits)

lemma file_len_result:
  "file_len f = (Inl e, f') \<Longrightarrow> f_data f' = f_data f"
  "file_len f = (Inr n, f') \<Longrightarrow> f_data f' = f_data f \<and> n = length (f_data f)"
  by (auto simp: file_len_def split: prod.splits sum.splits dest!: os_call_frame)

lemma page_count_result:
  "page_count f = (Inl e, f') \<Longrightarrow> f_data f' = f_data f"
  "page_count f = (Inr c, f') \<Longrightarrow>
     f_data f' = f_data f \<and> aligned (f_data f) \<and> c = length (f_data f) div PAGE_SIZE"
  by (auto simp: page_count_def aligned_def Let_def elim!: io_thenE split: if_splits
      dest!: file_len_result)

lemma page_offset_result:
  "page_offset pid f = (Inl e, f') \<Longrightarrow> f_data f' = f_data f"
  "page_offset pid f = (Inr n, f') \<Longrightarrow>
     f_data f' = f_data f \<and> n = unat pid * PAGE_SIZE \<and> unat pid < length (f_data f) div PAGE_SIZE"
  by (auto simp: page_offset_def checked_mul_u64_def elim!: io_thenE
      split: option.splits if_splits dest!: page_count_result)

lemma file_seek_result:
  "file_seek n f = (Inl e, f') \<Longrightarrow> f_data f' = f_data f"
  "file_seek n f = (Inr u, f') \<Longrightarrow> f_data f' = f_data f \<and> f_cursor f' = n"
  by (auto simp: file_seek_def split: prod.splits sum.splits dest!: os_call_frame)

lemma file_write_all_result:
  "file_write_all bs f = (Inl e, f') \<Longrightarrow> \<exists>k. f_data f' = copy_at (f_data f) (f_cursor f) (take k bs)"
  "file_write_all bs f = (Inr u, f') \<Longrightarrow> f_data f' = copy_at (f_data f) (f_cursor f) bs"
  by (auto simp: file_write_all_def write_bytes_def split: prod.splits sum.splits dest!: os_call_frame)

lemma file_read_exact_result:
  "file_read_exact n f = (Inl e, f') \<Longrightarrow> f_data f' = f_data f"
  "file_read_exact n f = (Inr d, f') \<Longrightarrow> f_data f' = f_data f \<and> d = slice (f_data f) (f_cursor f) n"
  by (auto simp: file_read_exact_def split: prod.splits sum.splits if_splits dest!: os_call_frame)

lemma page_range:
  assumes "aligned bs" "unat p < length bs div PAGE_SIZE"
  shows "unat p * PAGE_SIZE + PAGE_SIZE \<le> length bs"
proof -
  have "Suc (unat p) * PAGE_SIZE \<le> length bs div PAGE_SIZE * PAGE_SIZE"
    using assms(2) by (intro mult_le_mono1) simp
  also have "\<dots> \<le> length bs" by simp
  finally show ?thesis by simp
qed

lemma page_ranges_disjoint:
  "q \<noteq> (p :: nat) \<Longrightarrow> q * PAGE_SIZE + PAGE_SIZE \<le> p * PAGE_SIZE \<or> p * PAGE_SIZE + PAGE_SIZE \<le> q * PAGE_SIZE"
  by (simp add: PAGE_SIZE_def) linarith

lemma data_contents_copy:
  assumes al: "aligned bs" and p: "unat p < length bs div PAGE_SIZE" and d: "length d \<le> PAGE_SIZE"
  defines "bs' \<equiv> copy_at bs (unat p * PAGE_SIZE) d"
  shows "length bs' = length bs"
    and "q \<noteq> p \<Longrightarrow> data_contents bs' q = data_contents bs q"
    and "data_contents bs' p \<noteq> None"
    and "length d = PAGE_SIZE \<Longrightarrow> data_contents bs' p = Some d"
proof -
  note r = page_range [OF al p]
  show len: "length bs' = length bs" using r d by (simp add: bs'_def length_copy_at)
  then show "data_contents bs' p \<noteq> None" using p by (simp add: data_contents_def)
  show "data_contents bs' p = Some d" if "length d = PAGE_SIZE"
    using that r p len by (simp add: data_contents_def bs'_def slice_copy_at_same)
  show "data_contents bs' q = data_contents bs q" if "q \<noteq> p"
  proof (cases "unat q < length bs div PAGE_SIZE")
    case True
    from that have "unat q \<noteq> unat p" by (simp add: word_unat_eq_iff)
    then have "slice bs' (unat q * PAGE_SIZE) PAGE_SIZE = slice bs (unat q * PAGE_SIZE) PAGE_SIZE"
      unfolding bs'_def using page_range [OF al True] r d page_ranges_disjoint [of "unat q" "unat p"]
      by (intro slice_copy_at_other) auto
    with True len show ?thesis by (simp add: data_contents_def)
  qed (simp add: data_contents_def len)
qed

lemma fs_lock_cases:
  assumes "fs_lock body s = (r, s')"
  obtains (locked) e where "s' = s" "r = Inl e" | (ran) f where "body (fs_file s) = (r, f)" "s' = s\<lparr>fs_file := f\<rparr>"
proof (cases "fs_poisoned s")
  case True
  with assms show thesis by (intro locked) (auto simp: fs_lock_def)
next
  case False
  obtain r' f where b: "body (fs_file s) = (r', f)" by (cases "body (fs_file s)")
  with False assms show thesis by (intro ran [of f]) (auto simp: fs_lock_def)
qed

lemma file_write_effect:
  assumes "file_write_page p d s = (r, s')"
  shows "f_data (fs_file s') = f_data (fs_file s) \<and> r \<noteq> Inr () \<or>
    unat p < length (f_data (fs_file s)) div PAGE_SIZE \<and>
    (\<exists>k. (k = length d \<or> r \<noteq> Inr ()) \<and>
       f_data (fs_file s') = copy_at (f_data (fs_file s)) (unat p * PAGE_SIZE) (take k d))"
  using assms unfolding file_write_page_def
proof (cases rule: fs_lock_cases)
  case (ran f)
  from ran(1) show ?thesis
  proof (cases rule: io_thenE)
    case (ok off f1)
    note off = page_offset_result(2) [OF ok(1)]
    from ok(2) show ?thesis
    proof (cases rule: io_thenE)
      case seeked: (ok u f2)
      note seek = file_seek_result(2) [OF seeked(1)]
      show ?thesis
      proof (cases r)
        case (Inl e)
        with seeked(2) obtain k where "f_data f = copy_at (f_data f2) (f_cursor f2) (take k d)"
          using file_write_all_result(1) by blast
        with Inl off seek ran(2) show ?thesis by auto
      next
        case (Inr u)
        with seeked(2) have "f_data f = copy_at (f_data f2) (f_cursor f2) d"
          using file_write_all_result(2) by blast
        with off seek ran(2) show ?thesis
          by (auto intro!: exI [of _ "length d"])
      qed
    qed (use off ran in \<open>auto dest!: file_seek_result\<close>)
  qed (use ran in \<open>auto dest!: page_offset_result\<close>)
qed auto

lemma file_write_result:
  assumes wf: "file_wf s" and d: "length d = PAGE_SIZE" and w: "file_write_page p d s = (r, s')"
  shows "file_wf s' \<and> (\<forall>q. q \<noteq> p \<longrightarrow> file_contents s' q = file_contents s q) \<and>
    (file_contents s' p = None \<longleftrightarrow> file_contents s p = None) \<and>
    (r = Inr () \<longrightarrow> file_contents s p \<noteq> None \<and> file_contents s' p = Some d)"
  using file_write_effect [OF w]
proof
  assume "f_data (fs_file s') = f_data (fs_file s) \<and> r \<noteq> Inr ()"
  with wf show ?thesis by (auto simp: file_wf_def file_contents_def)
next
  assume "unat p < length (f_data (fs_file s)) div PAGE_SIZE \<and>
    (\<exists>k. (k = length d \<or> r \<noteq> Inr ()) \<and>
       f_data (fs_file s') = copy_at (f_data (fs_file s)) (unat p * PAGE_SIZE) (take k d))"
  then obtain k where p: "unat p < length (f_data (fs_file s)) div PAGE_SIZE"
    and k: "k = length d \<or> r \<noteq> Inr ()"
    and s': "f_data (fs_file s') = copy_at (f_data (fs_file s)) (unat p * PAGE_SIZE) (take k d)"
    by blast
  from wf have al: "aligned (f_data (fs_file s))" by (simp add: file_wf_def)
  have "length (take k d) \<le> PAGE_SIZE" using d by simp
  note c = data_contents_copy [OF al p this, folded s']
  from c(1) al have wf': "file_wf s'" by (simp add: file_wf_def aligned_def)
  have "file_contents s p \<noteq> None" using p by (simp add: file_contents_def data_contents_def)
  moreover have "r = Inr () \<Longrightarrow> file_contents s' p = Some d"
    using k d c(4) by (simp add: file_contents_def)
  ultimately show ?thesis using wf' c(2,3) by (auto simp: file_contents_def)
qed

lemma file_read_result:
  assumes "file_read_page p s = (r, s')"
  shows "f_data (fs_file s') = f_data (fs_file s) \<and> (\<forall>d. r = Inr d \<longrightarrow> file_contents s p = Some d)"
  using assms unfolding file_read_page_def
proof (cases rule: fs_lock_cases)
  case (ran f)
  from ran(1) show ?thesis
  proof (cases rule: io_thenE)
    case (ok off f1)
    note off = page_offset_result(2) [OF ok(1)]
    from ok(2) show ?thesis
    proof (cases rule: io_thenE)
      case seeked: (ok u f2)
      note seek = file_seek_result(2) [OF seeked(1)]
      from seeked(2) off seek ran(2) show ?thesis
        by (cases r) (auto dest!: file_read_exact_result simp: file_contents_def data_contents_def)
    qed (use off ran in \<open>auto dest!: file_seek_result\<close>)
  qed (use ran in \<open>auto dest!: page_offset_result\<close>)
qed auto

lemma file_allocate_effect:
  assumes "file_allocate_page s = (r, s')"
  shows "f_data (fs_file s') = f_data (fs_file s) \<and> (\<forall>p. r \<noteq> Inr p) \<or>
    aligned (f_data (fs_file s)) \<and>
    (\<exists>p. r = Inr p \<and> unat p = length (f_data (fs_file s)) div PAGE_SIZE \<and>
       f_data (fs_file s') = f_data (fs_file s) @ zero_page)"
  using assms unfolding file_allocate_page_def
proof (cases rule: fs_lock_cases)
  case (ran f)
  from ran(1) show ?thesis
  proof (cases rule: io_thenE)
    case (ok count f1)
    note c = page_count_result(2) [OF ok(1)]
    show ?thesis
    proof (cases "u32_try_from count")
      case (Some pid)
      then have pid: "unat pid = count" by (simp add: u32_try_from_Some)
      with unat_u32_less [of pid] have "count + 1 < 2 ^ 64" "(count + 1) * PAGE_SIZE < 2 ^ 64"
        by (simp_all add: PAGE_SIZE_def)
      with ok(2) Some have "io_then (file_set_len ((count + 1) * PAGE_SIZE)) (\<lambda>_. io_ok pid) f1 = (r, f)"
        by (simp add: checked_mul_u64_def)
      then show ?thesis
      proof (cases rule: io_thenE)
        case extended: (ok u f2)
        have n: "length (f_data f1) = count * PAGE_SIZE"
          using c by (simp add: aligned_def minus_mod_eq_div_mult [symmetric])
        from extended(1) have "f_data f2 = f_data f1 @ zero_page"
          by (auto simp: file_set_len_def n zero_page_def split: prod.splits sum.splits dest!: os_call_frame)
        with extended(2) c pid ran(2) show ?thesis by auto
      qed (use c ran in \<open>auto simp: file_set_len_def split: prod.splits sum.splits dest!: os_call_frame\<close>)
    qed (use ok c ran in auto)
  qed (use ran in \<open>auto dest!: page_count_result\<close>)
qed auto

lemma data_contents_extend:
  assumes "aligned bs" "unat p = length bs div PAGE_SIZE"
  shows "data_contents bs p = None"
    and "data_contents (bs @ zero_page) = (data_contents bs)(p \<mapsto> zero_page)"
    and "aligned (bs @ zero_page)"
proof -
  have n: "length bs = unat p * PAGE_SIZE"
    using assms by (simp add: aligned_def minus_mod_eq_div_mult [symmetric])
  show "data_contents bs p = None" using assms by (simp add: data_contents_def)
  show "aligned (bs @ zero_page)"
    using unat_u32_less [of p] by (simp add: aligned_def n)
  show "data_contents (bs @ zero_page) = (data_contents bs)(p \<mapsto> zero_page)"
  proof
    fix q
    consider "q = p" | "unat q < unat p" | "unat p < unat q"
      by (metis linorder_neqE_nat word_unat_eq_iff)
    then show "data_contents (bs @ zero_page) q = ((data_contents bs)(p \<mapsto> zero_page)) q"
    proof cases
      case 2
      then have "unat q * PAGE_SIZE + PAGE_SIZE \<le> length bs"
        using page_range [OF assms(1), of q] assms(2) by simp
      then show ?thesis using 2 by (auto simp: data_contents_def n slice_def)
    qed (auto simp: data_contents_def n slice_def)
  qed
qed

interpretation fil: page_store file_page_store file_wf file_contents
proof (unfold_locales, goal_cases)
  case (1 s p d)
  then show ?case
    using page_range [of "f_data (fs_file s)" p]
    by (auto simp: file_wf_def file_contents_def data_contents_def length_slice split: if_splits)
next
  case (2 s p s')
  then have "aligned (f_data (fs_file s))" "unat p = length (f_data (fs_file s)) div PAGE_SIZE"
    and "f_data (fs_file s') = f_data (fs_file s) @ zero_page"
    using file_allocate_effect [of s "Inr p" s'] by (auto simp: file_page_store_def)
  with data_contents_extend show ?case by (simp add: file_wf_def file_contents_def)
next
  case (3 s e s')
  then show ?case
    using file_allocate_effect [of s "Inl e" s']
    by (simp add: file_page_store_def file_wf_def file_contents_def)
next
  case (4 s p d s')
  then show ?case
    using file_read_result [of p s "Inr d" s']
    by (simp add: file_page_store_def file_wf_def file_contents_def)
next
  case (5 s p e s')
  then show ?case
    using file_read_result [of p s "Inl e" s']
    by (simp add: file_page_store_def file_wf_def file_contents_def)
next
  case (6 s d p u s')
  then show ?case
    using file_write_result [of s d p "Inr u" s']
    by (auto simp: file_page_store_def)
next
  case (7 s d p e s')
  then show ?case
    using file_write_result [of s d p "Inl e" s'] by (simp add: file_page_store_def)
next
  case (8 s r s')
  then have "f_data (fs_file s') = f_data (fs_file s)"
    by (auto simp: file_page_store_def file_sync_def file_sync_all_def elim!: fs_lock_cases
        split: prod.splits sum.splits dest!: os_call_frame)
  with 8 show ?case by (simp add: file_wf_def file_contents_def)
qed

section \<open>Properties\<close>

text \<open>
  C27: \<^verbatim>\<open>FilePageStore::open\<close> on a fault-free file accepts exactly the files whose length is
  a multiple of the page size and fits the page identifier space, and then shows page \<open>p\<close> as
  the \<open>p\<close>-th 8192-byte block of the file.
\<close>

theorem file_open_exact:
  assumes "f_faults f = []"
  shows "(\<exists>s. file_open f = Inr s) = aligned (f_data f) \<and>
    (\<forall>s. file_open f = Inr s \<longrightarrow> file_wf s \<and> file_contents s = data_contents (f_data f))"
proof -
  have "file_open f = (if aligned (f_data f) then Inr \<lparr>fs_file = f, fs_poisoned = False\<rparr>
     else Inl (IoError InvalidData (if length (f_data f) mod PAGE_SIZE \<noteq> 0
       then ''page file length is not page-aligned'' else ''page file exceeds page ID address space'')))"
    using assms by (auto simp: file_open_def page_count_def file_len_def os_call_def io_then_def aligned_def Let_def)
  then show ?thesis by (auto simp: file_wf_def file_contents_def)
qed

theorem file_open_exact_witness:
  "(\<exists>s. file_open \<lparr>f_data = zero_page, f_cursor = 0, f_faults = []\<rparr> = Inr s) = aligned zero_page"
  using file_open_exact [of "\<lparr>f_data = zero_page, f_cursor = 0, f_faults = []\<rparr>"] by simp

text \<open>On a file whose calls succeed, reading returns the page's block, or refuses an absent page.\<close>

lemma file_read_fault_free:
  assumes "file_wf s" "f_faults (fs_file s) = []" "\<not> fs_poisoned s"
  shows "fst (file_read_page q s) =
    (case file_contents s q of Some d \<Rightarrow> Inr d | None \<Rightarrow> Inl (invalid_id q))"
proof -
  let ?f = "fs_file s"
  have al: "aligned (f_data ?f)" using assms(1) by (simp add: file_wf_def)
  have os: "os_call ?f = (Inr (), ?f)" "os_call (?f\<lparr>f_cursor := n\<rparr>) = (Inr (), ?f\<lparr>f_cursor := n\<rparr>)" for n
    using assms(2) by (simp_all add: os_call_def)
  have pc: "page_count ?f = (Inr (length (f_data ?f) div PAGE_SIZE), ?f)"
    using al by (simp add: page_count_def file_len_def os io_then_def Let_def aligned_def)
  show ?thesis
  proof (cases "unat q < length (f_data ?f) div PAGE_SIZE")
    case True
    note range = page_range [OF al True]
    have "unat q * PAGE_SIZE < 2 ^ 64" using unsigned_less [of q, where 'a = nat] by (simp add: PAGE_SIZE_def)
    with True pc have "page_offset q ?f = (Inr (unat q * PAGE_SIZE), ?f)"
      by (simp add: page_offset_def io_then_def checked_mul_u64_def)
    with True range assms(3) show ?thesis
      by (simp add: file_read_page_def fs_lock_def io_then_def file_seek_def file_read_exact_def os
          file_contents_def data_contents_def)
  next
    case False
    with pc assms(3) show ?thesis
      by (simp add: file_read_page_def fs_lock_def io_then_def page_offset_def file_contents_def data_contents_def)
  qed
qed

text \<open>
  C28: What a page write leaves in the file is what reads find after the file is opened
  again. If the write succeeded, a read of that page that succeeds returns exactly the bytes
  written and a read of another page the bytes it had before; if the write failed at any
  system call, every other page still reads as before and no page is added or lost, so a torn
  write damages only the page being written. Where no system call fails, a read of a page of
  the file does succeed, and a read beyond it is refused by its identifier.
\<close>

theorem file_write_reopen:
  assumes "file_wf s" "length d = PAGE_SIZE" "file_write_page p d s = (r, s1)"
    and "file_open (fs_file s1) = Inr s2"
  shows "file_wf s2 \<and> dom (file_contents s2) = dom (file_contents s) \<and>
    (\<forall>q. q \<noteq> p \<longrightarrow> file_contents s2 q = file_contents s q) \<and>
    (r = Inr () \<longrightarrow> file_contents s2 = (file_contents s)(p \<mapsto> d)) \<and>
    (\<forall>q d' s3. file_read_page q s2 = (Inr d', s3) \<longrightarrow>
       (if q = p then r = Inr () \<longrightarrow> d' = d else file_contents s q = Some d')) \<and>
    (f_faults (fs_file s2) = [] \<longrightarrow>
       (r = Inr () \<longrightarrow> fst (file_read_page p s2) = Inr d) \<and>
       (\<forall>q. q \<noteq> p \<or> file_contents s q = None \<longrightarrow> fst (file_read_page q s2) =
          (case file_contents s q of Some d' \<Rightarrow> Inr d' | None \<Rightarrow> Inl (invalid_id q))))"
proof -
  from assms(4) obtain c f' where pc: "page_count (fs_file s1) = (Inr c, f')" and s2: "s2 = \<lparr>fs_file = f', fs_poisoned = False\<rparr>"
    by (auto simp: file_open_def split: prod.splits sum.splits)
  note c = page_count_result(2) [OF pc]
  have same: "file_contents s2 = file_contents s1" and wf2: "file_wf s2"
    using c s2 by (simp_all add: file_contents_def file_wf_def)
  note w = file_write_result [OF assms(1-3)]
  have d: "dom (file_contents s2) = dom (file_contents s)"
  proof (intro set_eqI)
    fix q show "q \<in> dom (file_contents s2) \<longleftrightarrow> q \<in> dom (file_contents s)"
      using w same by (cases "q = p") (auto simp: domIff)
  qed
  have upd: "r = Inr () \<longrightarrow> file_contents s2 = (file_contents s)(p \<mapsto> d)"
    using w same by (auto simp: fun_eq_iff)
  have other: "\<forall>q. q \<noteq> p \<longrightarrow> file_contents s2 q = file_contents s q" using w same by simp
  have "if q = p then r = Inr () \<longrightarrow> d' = d else file_contents s q = Some d'"
    if "file_read_page q s2 = (Inr d', s3)" for q d' s3
    using file_read_result [OF that] upd other by auto
  moreover have "fst (file_read_page q s2) =
      (case file_contents s2 q of Some d' \<Rightarrow> Inr d' | None \<Rightarrow> Inl (invalid_id q))"
    if "f_faults (fs_file s2) = []" for q
    using file_read_fault_free [OF wf2 that] s2 by simp
  moreover have "file_contents s2 q = file_contents s q" if "q \<noteq> p \<or> file_contents s q = None" for q
    using that other w same by metis
  ultimately show ?thesis using wf2 d upd other by auto
qed

theorem file_write_reopen_witness:
  "\<exists>s2. file_open (fs_file (snd (file_write_page 1 (zero_page[0 := 42])
      \<lparr>fs_file = \<lparr>f_data = zero_page @ zero_page, f_cursor = 0, f_faults = []\<rparr>, fs_poisoned = False\<rparr>))) = Inr s2 \<and>
    fst (file_read_page 1 s2) = Inr (zero_page[0 := 42]) \<and> fst (file_read_page 0 s2) = Inr zero_page \<and>
    fst (file_read_page 2 s2) = Inl (invalid_id 2)"
proof -
  let ?s = "\<lparr>fs_file = \<lparr>f_data = zero_page @ zero_page, f_cursor = 0, f_faults = []\<rparr>, fs_poisoned = False\<rparr>"
  let ?d = "zero_page[0 := 42]"
  obtain r s1 where r: "file_write_page 1 ?d ?s = (r, s1)" by fastforce
  have wf: "file_wf ?s" by (simp add: file_wf_def aligned_def)
  have w: "r = Inr ()" "f_faults (fs_file s1) = []"
    using r by (auto simp: file_write_page_def fs_lock_def page_offset_def page_count_def file_len_def os_call_def
        io_then_def Let_def checked_mul_u64_def file_seek_def file_write_all_def write_bytes_def PAGE_SIZE_def)
  have "aligned (f_data (fs_file s1))" using file_write_result [OF wf _ r] by (simp add: file_wf_def)
  with w(2) have s2: "file_open (fs_file s1) = Inr \<lparr>fs_file = fs_file s1, fs_poisoned = False\<rparr>"
    by (auto simp: file_open_def page_count_def file_len_def os_call_def io_then_def aligned_def Let_def)
  have "file_contents ?s 0 = Some zero_page" "file_contents ?s 2 = None"
    by (simp_all add: file_contents_def data_contents_def slice_def)
  with file_write_reopen [OF wf _ r s2] s2 r w show ?thesis by simp
qed

end
