(* ===== verification/Replacement.thy ===== *)
theory Replacement
  imports Prelude
begin

text \<open>
  Victim selection, \<^verbatim>\<open>crates/storage/src/replacement.rs\<close>. \<^verbatim>\<open>dyn VictimStrategy\<close> is the
  record \<open>victim_strategy\<close> of its callbacks, each returning \<open>None\<close> where the callback panics.
  The locale \<open>sound_strategy\<close> states what the trait documentation asks of an implementation;
  \<^verbatim>\<open>ClockStrategy\<close> satisfies it, and its choice is characterised exactly.
\<close>

section \<open>The VictimStrategy trait\<close>

record 'v victim_strategy =
  access :: "u32 \<Rightarrow> 'v \<Rightarrow> 'v option"
  load :: "u32 \<Rightarrow> 'v \<Rightarrow> 'v option"
  victim :: "(u32 \<Rightarrow> bool) \<Rightarrow> 'v \<Rightarrow> (u32 option \<times> 'v) option"

locale sound_strategy =
  fixes strat :: "'v victim_strategy"
    and sinv :: "nat \<Rightarrow> 'v \<Rightarrow> bool"
  assumes access_ok: "sinv n v \<Longrightarrow> unat b < n \<Longrightarrow> \<exists>v'. access strat b v = Some v' \<and> sinv n v'"
    and load_ok: "sinv n v \<Longrightarrow> unat b < n \<Longrightarrow> \<exists>v'. load strat b v = Some v' \<and> sinv n v'"
    and victim_total: "sinv n v \<Longrightarrow> \<exists>r v'. victim strat P v = Some (r, v') \<and> sinv n v'"
    and victim_eligible: "sinv n v \<Longrightarrow> victim strat P v = Some (Some b, v') \<Longrightarrow> unat b < n \<and> P b"
    and victim_none: "sinv n v \<Longrightarrow> victim strat P v = Some (None, v') \<Longrightarrow> unat b < n \<Longrightarrow> \<not> P b"
begin

lemma victim_finds:
  assumes "sinv n v" "unat b < n" "P b"
  shows "\<exists>b' v'. victim strat P v = Some (Some b', v') \<and> sinv n v' \<and> unat b' < n \<and> P b'"
proof -
  from victim_total [OF assms(1), of P] obtain r v' where r: "victim strat P v = Some (r, v')" "sinv n v'"
    by blast
  with victim_none [OF assms(1), of P v' b] assms(2,3) obtain b' where "r = Some b'" by (cases r) auto
  with r victim_eligible [OF assms(1)] show ?thesis by blast
qed

end

section \<open>ClockStrategy\<close>

record clock =
  referenced :: "bool list"
  hand :: nat

definition clock_new :: "nat \<Rightarrow> clock option" where
  "clock_new capacity =
     (if capacity = 0 \<or> capacity - 1 < 2 ^ 32
      then Some \<lparr>referenced = replicate capacity False, hand = 0\<rparr> else None)"

definition clock_access :: "u32 \<Rightarrow> clock \<Rightarrow> clock option" where
  "clock_access buffer c =
     (if unat buffer < length (referenced c)
      then Some (c\<lparr>referenced := (referenced c)[unat buffer := True]\<rparr>) else None)"

definition clock_load :: "u32 \<Rightarrow> clock \<Rightarrow> clock option" where
  "clock_load buffer c = clock_access buffer c"

text \<open>One pass of the inner loop over \<open>n\<close> positions of the hand.\<close>

fun clock_sweep :: "nat \<Rightarrow> (u32 \<Rightarrow> bool) \<Rightarrow> clock \<Rightarrow> u32 option \<times> clock" where
  "clock_sweep 0 can_evict c = (None, c)"
| "clock_sweep (Suc n) can_evict c =
     (let index = hand c;
          c1 = c\<lparr>hand := (hand c + 1) mod length (referenced c)\<rparr>;
          buffer = word_of_nat index
      in if \<not> can_evict buffer then clock_sweep n can_evict c1
         else if \<not> referenced c1 ! index then (Some buffer, c1)
         else clock_sweep n can_evict (c1\<lparr>referenced := (referenced c1)[index := False]\<rparr>))"

definition clock_victim :: "(u32 \<Rightarrow> bool) \<Rightarrow> clock \<Rightarrow> u32 option \<times> clock" where
  "clock_victim can_evict c =
     (case clock_sweep (length (referenced c)) can_evict c of
        (Some buffer, c1) \<Rightarrow> (Some buffer, c1)
      | (None, c1) \<Rightarrow> clock_sweep (length (referenced c1)) can_evict c1)"

definition clock_strategy :: "clock victim_strategy" where
  "clock_strategy = \<lparr>access = clock_access, load = clock_load,
     victim = (\<lambda>can_evict c. Some (clock_victim can_evict c))\<rparr>"

definition clock_inv :: "nat \<Rightarrow> clock \<Rightarrow> bool" where
  "clock_inv n c \<longleftrightarrow> length (referenced c) = n \<and> n \<le> 2 ^ 32 \<and> (n = 0 \<or> hand c < n)"

section \<open>What the clock chooses\<close>

text \<open>The frames in the order the hand visits them during one sweep.\<close>

definition clock_order :: "nat \<Rightarrow> nat \<Rightarrow> nat \<Rightarrow> nat list" where
  "clock_order n h k = map (\<lambda>j. (h + j) mod n) [0..<k]"

lemma clock_order_0 [simp]: "clock_order n h 0 = []"
  by (simp add: clock_order_def)

lemma clock_order_Suc: "clock_order n h (Suc k) = h mod n # clock_order n ((h + 1) mod n) k"
  by (simp add: clock_order_def upt_conv_Cons map_Suc_upt [symmetric] mod_simps del: upt_Suc)

lemma clock_order_set: "h < n \<Longrightarrow> set (clock_order n h n) = {..<n}"
proof
  assume h: "h < n"
  show "{..<n} \<subseteq> set (clock_order n h n)"
  proof
    fix i assume "i \<in> {..<n}"
    with h have "(h + (i + n - h) mod n) mod n = i" "(i + n - h) mod n < n" by (simp_all add: mod_simps)
    then show "i \<in> set (clock_order n h n)" unfolding clock_order_def by force
  qed
qed (auto simp: clock_order_def)

lemma clock_order_fresh:
  assumes "h < n" "k < n"
  shows "h \<notin> set (clock_order n ((h + 1) mod n) k)"
proof
  assume "h \<in> set (clock_order n ((h + 1) mod n) k)"
  then obtain j where j: "j < k" "h = (h + Suc j) mod n"
    by (auto simp: clock_order_def mod_simps)
  with assms have "h + Suc j \<ge> n" by (metis add_Suc_right less_add_Suc1 less_irrefl mod_less not_le_imp_less)
  moreover have "h + Suc j < 2 * n" using assms j by linarith
  ultimately have "h = h + Suc j - n" using j(2) by (simp add: le_mod_geq)
  with \<open>h + Suc j \<ge> n\<close> j(1) assms show False by linarith
qed

text \<open>
  A sweep of at most \<open>n\<close> steps returns the first eligible frame whose reference bit was
  clear when the sweep began; if there is none, every eligible frame it passed has lost
  its bit and the hand has advanced by the number of steps.
\<close>

definition sweep_choice :: "(u32 \<Rightarrow> bool) \<Rightarrow> bool list \<Rightarrow> nat list \<Rightarrow> u32 option" where
  "sweep_choice P refs os = map_option word_of_nat (find (\<lambda>i. P (word_of_nat i) \<and> \<not> refs ! i) os)"

definition sweep_result :: "(u32 \<Rightarrow> bool) \<Rightarrow> nat \<Rightarrow> clock \<Rightarrow> nat \<Rightarrow> u32 option \<times> clock \<Rightarrow> bool" where
  "sweep_result P n c k rc \<longleftrightarrow>
     fst rc = sweep_choice P (referenced c) (clock_order n (hand c) k) \<and> clock_inv n (snd rc) \<and>
     (fst rc = None \<longrightarrow> hand (snd rc) = (if n = 0 then hand c else (hand c + k) mod n) \<and>
        (\<forall>i < n. referenced (snd rc) ! i =
           (referenced c ! i \<and> \<not> (i \<in> set (clock_order n (hand c) k) \<and> P (word_of_nat i)))))"

lemma sweep_choice_Cons:
  "sweep_choice P refs (i # os) =
     (if P (word_of_nat i) \<and> \<not> refs ! i then Some (word_of_nat i) else sweep_choice P refs os)"
  by (simp add: sweep_choice_def)

lemma sweep_choice_update:
  "i \<notin> set os \<Longrightarrow> sweep_choice P (refs[i := v]) os = sweep_choice P refs os"
  unfolding sweep_choice_def
  by (intro arg_cong [where f = "map_option _"] find_cong refl) (metis nth_list_update_neq)

lemma clock_sweep_spec: "clock_inv n c \<Longrightarrow> k \<le> n \<Longrightarrow> sweep_result P n c k (clock_sweep k P c)"
proof (induction k arbitrary: c)
  case 0
  then show ?case by (auto simp: sweep_result_def sweep_choice_def clock_inv_def)
next
  case (Suc k)
  let ?h = "hand c" and ?c1 = "c\<lparr>hand := (hand c + 1) mod n\<rparr>"
  let ?c2 = "?c1\<lparr>referenced := (referenced c)[?h := False]\<rparr>"
  from Suc.prems have n: "length (referenced c) = n" "?h < n" "k < n" by (auto simp: clock_inv_def)
  then have os: "clock_order n ?h (Suc k) = ?h # clock_order n ((?h + 1) mod n) k"
    and fresh: "?h \<notin> set (clock_order n ((?h + 1) mod n) k)"
    using clock_order_fresh [of ?h n k] by (simp_all add: clock_order_Suc)
  have inv: "clock_inv n ?c1" "clock_inv n ?c2" using Suc.prems n by (auto simp: clock_inv_def)
  have IH1: "sweep_result P n ?c1 k (clock_sweep k P ?c1)"
    and IH2: "sweep_result P n ?c2 k (clock_sweep k P ?c2)"
    using Suc.IH inv Suc.prems by auto
  consider (skip) "\<not> P (word_of_nat ?h)" | (take) "P (word_of_nat ?h)" "\<not> referenced c ! ?h"
    | (clear) "P (word_of_nat ?h)" "referenced c ! ?h" by blast
  then show ?case
  proof cases
    case skip
    with n have step: "clock_sweep (Suc k) P c = clock_sweep k P ?c1" by (simp add: Let_def)
    from IH1 skip fresh n show ?thesis
      unfolding step by (auto simp: sweep_result_def os sweep_choice_Cons mod_simps)
  next
    case take
    with n have "clock_sweep (Suc k) P c = (Some (word_of_nat ?h), ?c1)" by (simp add: Let_def)
    with take inv show ?thesis by (simp add: sweep_result_def os sweep_choice_Cons)
  next
    case clear
    with n have step: "clock_sweep (Suc k) P c = clock_sweep k P ?c2" by (simp add: Let_def)
    from IH2 clear fresh n show ?thesis
      unfolding step
      by (auto simp: sweep_result_def os sweep_choice_Cons sweep_choice_update mod_simps nth_list_update)
  qed
qed

text \<open>
  The whole selection: the first eligible frame with a clear bit in hand order, and if
  every eligible frame was referenced, the first eligible one (its second chance used up).
\<close>

definition clock_choice :: "(u32 \<Rightarrow> bool) \<Rightarrow> clock \<Rightarrow> u32 option" where
  "clock_choice P c =
     (let n = length (referenced c); os = clock_order n (hand c) n
      in case find (\<lambda>i. P (word_of_nat i) \<and> \<not> referenced c ! i) os of
           Some i \<Rightarrow> Some (word_of_nat i)
         | None \<Rightarrow> map_option word_of_nat (find (\<lambda>i. P (word_of_nat i)) os))"

lemma clock_victim_choice:
  assumes "clock_inv n c"
  shows "fst (clock_victim P c) = clock_choice P c" and "clock_inv n (snd (clock_victim P c))"
proof -
  let ?os = "clock_order n (hand c) n"
  have len: "length (referenced c) = n" using assms by (simp add: clock_inv_def)
  obtain r c1 where r: "clock_sweep n P c = (r, c1)" by fastforce
  with clock_sweep_spec [OF assms order_refl, of P]
  have r1: "r = sweep_choice P (referenced c) ?os" and inv1: "clock_inv n c1"
    and none1: "r = None \<Longrightarrow> (n \<noteq> 0 \<longrightarrow> hand c1 = hand c) \<and>
      (\<forall>i < n. referenced c1 ! i = (referenced c ! i \<and> \<not> (i \<in> set ?os \<and> P (word_of_nat i))))"
    using assms by (auto simp: sweep_result_def clock_inv_def)
  have len1: "length (referenced c1) = n" using inv1 by (simp add: clock_inv_def)
  have second: "sweep_result P n c1 n (clock_sweep n P c1)"
    using clock_sweep_spec [OF inv1 order_refl] .
  show "clock_inv n (snd (clock_victim P c))"
    using inv1 second by (auto simp: clock_victim_def len r len1 sweep_result_def split: option.splits)
  show "fst (clock_victim P c) = clock_choice P c"
  proof (cases r)
    case (Some b)
    with r1 show ?thesis
      by (auto simp: clock_victim_def clock_choice_def len r Let_def sweep_choice_def split: option.splits)
  next
    case None
    have same: "sweep_choice P (referenced c1) (clock_order n (hand c1) n)
        = map_option word_of_nat (find (\<lambda>i. P (word_of_nat i)) ?os)"
    proof (cases "n = 0")
      case False
      with none1 None have h: "hand c1 = hand c" and cleared: "\<And>i. i \<in> set ?os \<Longrightarrow> i < n \<Longrightarrow>
          P (word_of_nat i) \<Longrightarrow> \<not> referenced c1 ! i" by auto
      have "set ?os = {..<n}" using assms False by (intro clock_order_set) (simp add: clock_inv_def)
      with h cleared show ?thesis
        unfolding sweep_choice_def by (intro arg_cong [where f = "map_option _"] find_cong) auto
    qed (simp add: sweep_choice_def)
    from None r1 have "find (\<lambda>i. P (word_of_nat i) \<and> \<not> referenced c ! i) ?os = None"
      by (simp add: sweep_choice_def)
    with None r second same show ?thesis
      by (simp add: clock_victim_def clock_choice_def len len1 Let_def sweep_result_def)
  qed
qed

lemma unat_frame: "i < 2 ^ 32 \<Longrightarrow> unat (word_of_nat i :: u32) = i"
  by (simp add: unat_of_nat)

lemma clock_choice_Some:
  assumes "clock_inv n c" "clock_choice P c = Some b"
  shows "unat b < n \<and> P b"
proof -
  let ?os = "clock_order n (hand c) n"
  from assms obtain i where i: "i \<in> set ?os" "P (word_of_nat i)" "b = word_of_nat i"
    by (auto simp: clock_choice_def clock_inv_def Let_def find_Some_iff split: option.splits)
      (metis nth_mem)+
  then have "i < n" using assms(1) by (cases "n = 0") (auto simp: clock_inv_def clock_order_set)
  with i assms(1) show ?thesis by (auto simp: clock_inv_def unat_frame)
qed

lemma clock_choice_None:
  assumes "clock_inv n c" "clock_choice P c = None" "unat b < n"
  shows "\<not> P b"
proof -
  have "unat b \<in> set (clock_order n (hand c) n)"
    using assms by (simp add: clock_inv_def clock_order_set)
  with assms(1,2) have "\<not> P (word_of_nat (unat b))"
    by (auto simp: clock_choice_def clock_inv_def Let_def find_None_iff split: option.splits)
  then show ?thesis by simp
qed

lemma clock_access_inv:
  "clock_inv n c \<Longrightarrow> unat b < n \<Longrightarrow> \<exists>c'. clock_access b c = Some c' \<and> clock_inv n c'"
  by (auto simp: clock_access_def clock_inv_def)

lemma clock_new_inv: "clock_new n = Some c \<Longrightarrow> clock_inv n c"
  by (auto simp: clock_new_def clock_inv_def split: if_splits)

interpretation clk: sound_strategy clock_strategy clock_inv
proof (unfold_locales, goal_cases)
  case (3 n v P)
  then show ?case
    using clock_victim_choice(2) [of n v P] by (simp add: clock_strategy_def) (metis surj_pair snd_conv)
next
  case (4 n v P b v')
  then have "clock_choice P v = Some b"
    using clock_victim_choice(1) [OF 4(1), of P] by (simp add: clock_strategy_def)
  with 4 show ?case by (simp add: clock_choice_Some)
next
  case (5 n v P v' b)
  then have "clock_choice P v = None"
    using clock_victim_choice(1) [OF 5(1), of P] by (simp add: clock_strategy_def)
  with 5 show ?case by (simp add: clock_choice_None)
qed (simp_all add: clock_strategy_def clock_load_def clock_access_inv)

section \<open>Properties\<close>

text \<open>
  C23: \<^verbatim>\<open>ClockStrategy::victim\<close> returns the first eligible frame in hand order whose reference
  bit is clear, or, if every eligible frame was referenced since the hand last passed, the
  first eligible one; it returns \<^verbatim>\<open>None\<close> exactly when no frame is eligible, and keeps the
  clock well formed. Two sweeps therefore always suffice.
\<close>

theorem clock_second_chance:
  assumes "clock_inv n c"
  shows "fst (clock_victim P c) = clock_choice P c \<and> clock_inv n (snd (clock_victim P c)) \<and>
    (clock_choice P c = None \<longleftrightarrow> (\<forall>b. unat b < n \<longrightarrow> \<not> P b))"
  using clock_victim_choice [OF assms] clock_choice_None [OF assms] clock_choice_Some [OF assms]
  by (metis not_None_eq)

theorem clock_second_chance_witness:
  "fst (clock_victim (\<lambda>b. b \<noteq> 0) \<lparr>referenced = [False, True, True], hand = 2\<rparr>) = Some 2"
proof -
  let ?c = "\<lparr>referenced = [False, True, True], hand = 2\<rparr>"
  have "clock_inv 3 ?c" by (simp add: clock_inv_def)
  from clock_second_chance [OF this, of "\<lambda>b. b \<noteq> 0"] show ?thesis
    by (simp add: clock_choice_def clock_order_def Let_def upt_rec)
qed

end
