(* ===== verification/BufferPool.thy ===== *)
theory BufferPool
  imports PageStore Replacement "HOL-Library.Multiset"
begin

text \<open>
  The buffer pool of \<^verbatim>\<open>crates/storage/src/buffer.rs\<close>, over any page store and any victim
  strategy. One step of the model is one public call: \<^verbatim>\<open>pin\<close>, \<^verbatim>\<open>new_page\<close> and
  \<^verbatim>\<open>flush_page\<close>'s lookup run under the metadata mutex in the source, \<^verbatim>\<open>read\<close> and
  \<^verbatim>\<open>write\<close> under the frame's content lock, so a sequence of steps is an interleaving of
  clients at the granularity of those critical sections. Lock poisoning is a flag of the
  mutex and of each frame, set where a callback panics; \<open>Panicked\<close> is the unwinding itself.
  The \<^verbatim>\<open>HashMap\<close> from page to frame is an association list with distinct keys.
\<close>

section \<open>State\<close>

datatype buffer_error =
    InvalidCapacity
  | AllPinned
  | InvalidVictim u32
  | Poisoned
  | PinOverflow
  | Io io_error
  | Panicked

record buffer_desc =
  d_tag :: u64
  d_pins :: u32
  d_dirty :: bool
  d_poisoned :: bool

record ('s, 'v) pool =
  p_store :: 's
  p_frames :: "page list"
  p_descs :: "buffer_desc list"
  p_pages :: "(u32 \<times> nat) list"
  p_strategy :: 'v
  p_poisoned :: bool

record pinned_buffer =
  pb_index :: u32
  pb_page :: u32

definition desc_page_id :: "buffer_desc \<Rightarrow> u32 option" where
  "desc_page_id d = (if d_tag d = - 1 then None else Some (ucast (d_tag d)))"

definition free_desc :: buffer_desc where
  "free_desc = \<lparr>d_tag = - 1, d_pins = 0, d_dirty = False, d_poisoned = False\<rparr>"

text \<open>Updates of one descriptor and of one frame's bytes.\<close>

definition upd_desc :: "nat \<Rightarrow> (buffer_desc \<Rightarrow> buffer_desc) \<Rightarrow> ('s, 'v) pool \<Rightarrow> ('s, 'v) pool" where
  "upd_desc i f s = s\<lparr>p_descs := (p_descs s)[i := f (p_descs s ! i)]\<rparr>"

definition set_frame :: "nat \<Rightarrow> page \<Rightarrow> ('s, 'v) pool \<Rightarrow> ('s, 'v) pool" where
  "set_frame i d s = s\<lparr>p_frames := (p_frames s)[i := d]\<rparr>"

definition on_store :: "('s, io_error, 'a) io \<Rightarrow> (('s, 'v) pool, buffer_error, 'a) io" where
  "on_store m s = (case m (p_store s) of (r, st) \<Rightarrow> (map_err Io r, s\<lparr>p_store := st\<rparr>))"

section \<open>State::victim and State::install\<close>

definition can_evict :: "buffer_desc list \<Rightarrow> u32 \<Rightarrow> bool" where
  "can_evict ds b \<longleftrightarrow> unat b < length ds \<and> d_pins (ds ! unat b) = 0"

definition state_victim :: "'v victim_strategy \<Rightarrow> (('s, 'v) pool, buffer_error, nat) io" where
  "state_victim vs s =
     (if length (p_pages s) < length (p_descs s) then (Inr (length (p_pages s)), s)
      else case victim vs (can_evict (p_descs s)) (p_strategy s) of
        None \<Rightarrow> (Inl Panicked, s\<lparr>p_poisoned := True\<rparr>)
      | Some (None, v) \<Rightarrow> (Inl AllPinned, s\<lparr>p_strategy := v\<rparr>)
      | Some (Some b, v) \<Rightarrow>
          (if \<not> can_evict (p_descs s) b then (Inl (InvalidVictim b), s\<lparr>p_strategy := v\<rparr>)
           else (Inr (unat b), s\<lparr>p_strategy := v\<rparr>)))"

definition install :: "nat \<Rightarrow> u32 \<Rightarrow> ('s, 'v) pool \<Rightarrow> ('s, 'v) pool" where
  "install i pg s =
     (let old_removed = (case desc_page_id (p_descs s ! i) of
            Some old \<Rightarrow> AList.delete old (p_pages s)
          | None \<Rightarrow> p_pages s);
          s1 = upd_desc i (\<lambda>d. d\<lparr>d_tag := ucast pg\<rparr>) s
      in s1\<lparr>p_pages := AList.update pg i old_removed\<rparr>)"

section \<open>BufferPool\<close>

definition layout_array_ok :: "nat \<Rightarrow> nat \<Rightarrow> bool" where
  "layout_array_ok sz n \<longleftrightarrow> sz * n \<le> 2 ^ 63 - 1"

definition validate_capacity :: "nat \<Rightarrow> nat \<Rightarrow> buffer_error + unit" where
  "validate_capacity desc_size capacity =
     (if capacity = 0 \<or> \<not> capacity - 1 < 2 ^ 32 \<or> \<not> layout_array_ok PAGE_SIZE capacity
         \<or> \<not> layout_array_ok desc_size capacity
      then Inl InvalidCapacity else Inr ())"

definition pool_with_strategy :: "nat \<Rightarrow> nat \<Rightarrow> 's \<Rightarrow> 'v \<Rightarrow> buffer_error + ('s, 'v) pool" where
  "pool_with_strategy desc_size capacity st v =
     and_then (validate_capacity desc_size capacity) (\<lambda>_. Inr
       \<lparr>p_store = st, p_frames = replicate capacity zero_page,
        p_descs = replicate capacity free_desc, p_pages = [], p_strategy = v, p_poisoned = False\<rparr>)"

definition pool_new :: "nat \<Rightarrow> nat \<Rightarrow> 's \<Rightarrow> buffer_error + ('s, clock) pool" where
  "pool_new desc_size capacity st =
     and_then (validate_capacity desc_size capacity) (\<lambda>_.
       case clock_new capacity of
         None \<Rightarrow> Inl Panicked
       | Some c \<Rightarrow> pool_with_strategy desc_size capacity st c)"

definition pool_capacity :: "('s, 'v) pool \<Rightarrow> nat" where
  "pool_capacity s = length (p_frames s)"

definition lock_state :: "(('s, 'v) pool, buffer_error, unit) io" where
  "lock_state s = (if p_poisoned s then (Inl Poisoned, s) else (Inr (), s))"

definition check :: "nat \<Rightarrow> (('s, 'v) pool, buffer_error, unit) io" where
  "check i s = (if p_poisoned s \<or> d_poisoned (p_descs s ! i) then (Inl Poisoned, s) else (Inr (), s))"

definition drop_pin :: "pinned_buffer \<Rightarrow> ('s, 'v) pool \<Rightarrow> ('s, 'v) pool" where
  "drop_pin h s = upd_desc (unat (pb_index h)) (\<lambda>d. d\<lparr>d_pins := d_pins d - 1\<rparr>) s"

definition resident_pin :: "'v victim_strategy \<Rightarrow> bool \<Rightarrow> u32 \<Rightarrow>
    (('s, 'v) pool, buffer_error, pinned_buffer option) io" where
  "resident_pin vs record_access pg s =
     (case map_of (p_pages s) pg of
        None \<Rightarrow> (Inr None, s)
      | Some i \<Rightarrow>
          (if d_pins (p_descs s ! i) = - 1 then (Inl PinOverflow, s)
           else let s1 = upd_desc i (\<lambda>d. d\<lparr>d_pins := d_pins d + 1\<rparr>) s;
                    h = \<lparr>pb_index = word_of_nat i, pb_page = pg\<rparr>
                in if record_access
                   then case access vs (pb_index h) (p_strategy s1) of
                          None \<Rightarrow> (Inl Panicked, drop_pin h (s1\<lparr>p_poisoned := True\<rparr>))
                        | Some v \<Rightarrow> (Inr (Some h), s1\<lparr>p_strategy := v\<rparr>)
                   else (Inr (Some h), s1)))"

definition loaded_pin :: "'v victim_strategy \<Rightarrow> nat \<Rightarrow> u32 \<Rightarrow>
    (('s, 'v) pool, buffer_error, pinned_buffer) io" where
  "loaded_pin vs i pg s =
     (let h = \<lparr>pb_index = word_of_nat i, pb_page = pg\<rparr>
      in case load vs (pb_index h) (p_strategy s) of
           None \<Rightarrow> (Inl Panicked, drop_pin h (s\<lparr>p_poisoned := True\<rparr>))
         | Some v \<Rightarrow> (Inr h, s\<lparr>p_strategy := v\<rparr>))"

definition with_victim :: "nat \<Rightarrow> (('s, 'v) pool, buffer_error, 'a) io \<Rightarrow>
    (('s, 'v) pool, buffer_error, 'a) io" where
  "with_victim i replace s =
     (if d_pins (p_descs s ! i) \<noteq> 0 then (Inl Panicked, s\<lparr>p_poisoned := True\<rparr>)
      else if d_poisoned (p_descs s ! i) then (Inl Poisoned, s)
      else io_then (check i) (\<lambda>_. replace) s)"

definition flush_victim :: "'s page_store_ops \<Rightarrow> nat \<Rightarrow> (('s, 'v) pool, buffer_error, unit) io" where
  "flush_victim so i s =
     (if d_dirty (p_descs s ! i)
      then case desc_page_id (p_descs s ! i) of
             Some pg \<Rightarrow> on_store (write_page so pg (p_frames s ! i)) s
           | None \<Rightarrow> (Inr (), s)
      else (Inr (), s))"

text \<open>The tail both replacement callbacks share: bytes, identity, clean bit, one pin.\<close>

definition publish :: "nat \<Rightarrow> u32 \<Rightarrow> page \<Rightarrow> ('s, 'v) pool \<Rightarrow> ('s, 'v) pool" where
  "publish i pg data s =
     upd_desc i (\<lambda>d. d\<lparr>d_pins := 1\<rparr>) (upd_desc i (\<lambda>d. d\<lparr>d_dirty := False\<rparr>)
       (install i pg (set_frame i data s)))"

definition pool_pin :: "'s page_store_ops \<Rightarrow> 'v victim_strategy \<Rightarrow> u32 \<Rightarrow>
    (('s, 'v) pool, buffer_error, pinned_buffer) io" where
  "pool_pin so vs pg =
     io_then lock_state (\<lambda>_.
     io_then (resident_pin vs True pg) (\<lambda>r. case r of
       Some h \<Rightarrow> io_ok h
     | None \<Rightarrow>
         io_then (state_victim vs) (\<lambda>i.
         io_then (check i) (\<lambda>_.
         io_then (on_store (read_page so pg)) (\<lambda>incoming.
         io_then (with_victim i (io_then (flush_victim so i) (\<lambda>_ s. (Inr (), publish i pg incoming s))))
           (\<lambda>_. loaded_pin vs i pg))))))"

definition pool_new_page :: "'s page_store_ops \<Rightarrow> 'v victim_strategy \<Rightarrow>
    (('s, 'v) pool, buffer_error, pinned_buffer) io" where
  "pool_new_page so vs =
     io_then lock_state (\<lambda>_.
     io_then (state_victim vs) (\<lambda>i.
     io_then (check i) (\<lambda>_.
     io_then (with_victim i (io_then (flush_victim so i) (\<lambda>_.
                io_then (on_store (allocate_page so)) (\<lambda>pg s. (Inr pg, publish i pg zero_page s)))))
       (\<lambda>pg. loaded_pin vs i pg))))"

definition with_drop :: "pinned_buffer \<Rightarrow> (('s, 'v) pool, 'e, 'a) io \<Rightarrow> (('s, 'v) pool, 'e, 'a) io" where
  "with_drop h m s = (case m s of (r, s') \<Rightarrow> (r, drop_pin h s'))"

text \<open>A panicking read callback unwinds without poisoning; a panicking write poisons its frame.\<close>

definition latch :: "pinned_buffer \<Rightarrow> (('s, 'v) pool, buffer_error, unit) io" where
  "latch h s = (if d_poisoned (p_descs s ! unat (pb_index h)) then (Inl Poisoned, s)
                else check (unat (pb_index h)) s)"

definition pin_read :: "pinned_buffer \<Rightarrow> (page \<Rightarrow> 'a option) \<Rightarrow> (('s, 'v) pool, buffer_error, 'a) io" where
  "pin_read h f = io_then (latch h) (\<lambda>_ s.
     case f (p_frames s ! unat (pb_index h)) of None \<Rightarrow> (Inl Panicked, s) | Some x \<Rightarrow> (Inr x, s))"

definition pin_write :: "pinned_buffer \<Rightarrow> (page \<Rightarrow> 'a option \<times> page) \<Rightarrow>
    (('s, 'v) pool, buffer_error, 'a) io" where
  "pin_write h f = io_then (latch h) (\<lambda>_ s.
     let i = unat (pb_index h);
         s1 = upd_desc i (\<lambda>d. d\<lparr>d_dirty := True\<rparr>) s
     in case f (p_frames s1 ! i) of
          (None, data) \<Rightarrow> (Inl Panicked, upd_desc i (\<lambda>d. d\<lparr>d_poisoned := True\<rparr>) (set_frame i data s1))
        | (Some x, data) \<Rightarrow> (Inr x, set_frame i data s1))"

definition flush_resident :: "'s page_store_ops \<Rightarrow> u32 \<Rightarrow> nat \<Rightarrow> (('s, 'v) pool, buffer_error, unit) io" where
  "flush_resident so pg i s =
     (if d_dirty (p_descs s ! i)
      then io_then (on_store (write_page so pg (p_frames s ! i)))
             (\<lambda>_ s. (Inr (), upd_desc i (\<lambda>d. d\<lparr>d_dirty := False\<rparr>) s)) s
      else (Inr (), s))"

definition pool_flush_page :: "'s page_store_ops \<Rightarrow> 'v victim_strategy \<Rightarrow> u32 \<Rightarrow>
    (('s, 'v) pool, buffer_error, bool) io" where
  "pool_flush_page so vs pg =
     io_then lock_state (\<lambda>_.
     io_then (resident_pin vs False pg) (\<lambda>r. case r of
       None \<Rightarrow> io_ok False
     | Some h \<Rightarrow> with_drop h (io_then (latch h) (\<lambda>_.
         io_then (flush_resident so pg (unat (pb_index h))) (\<lambda>_. io_ok True)))))"

fun flush_pages :: "'s page_store_ops \<Rightarrow> 'v victim_strategy \<Rightarrow> u32 list \<Rightarrow>
    (('s, 'v) pool, buffer_error, unit) io" where
  "flush_pages so vs [] = io_ok ()"
| "flush_pages so vs (pg # pgs) = io_then (pool_flush_page so vs pg) (\<lambda>_. flush_pages so vs pgs)"

definition pool_flush_all :: "'s page_store_ops \<Rightarrow> 'v victim_strategy \<Rightarrow>
    (('s, 'v) pool, buffer_error, unit) io" where
  "pool_flush_all so vs =
     io_then lock_state (\<lambda>_ s.
     io_then (flush_pages so vs (sort (map fst (p_pages s)))) (\<lambda>_. on_store (sync so)) s)"

section \<open>The pool invariant\<close>

text \<open>
  \<open>H\<close> is the multiset of pins the clients hold. Assigned frames form a dense prefix, the
  page map and the descriptor tags are inverse to each other, every frame's pin count is
  the number of pins held on it, and a held pin's page stays mapped to the pin's frame.
\<close>

definition pin_count :: "pinned_buffer multiset \<Rightarrow> nat \<Rightarrow> nat" where
  "pin_count H i = size (filter_mset (\<lambda>h. unat (pb_index h) = i) H)"

definition frames_inv :: "pinned_buffer multiset \<Rightarrow> ('s, 'v) pool \<Rightarrow> bool" where
  "frames_inv H s \<longleftrightarrow>
     length (p_frames s) = length (p_descs s) \<and>
     0 < length (p_descs s) \<and> length (p_descs s) \<le> 2 ^ 32 \<and>
     (\<forall>i < length (p_frames s). length (p_frames s ! i) = PAGE_SIZE) \<and>
     distinct (map fst (p_pages s)) \<and>
     (\<forall>p i. map_of (p_pages s) p = Some i \<longleftrightarrow>
        i < length (p_descs s) \<and> desc_page_id (p_descs s ! i) = Some p) \<and>
     (\<forall>i < length (p_descs s). desc_page_id (p_descs s ! i) \<noteq> None \<longleftrightarrow> i < length (p_pages s)) \<and>
     (\<forall>i < length (p_descs s). unat (d_pins (p_descs s ! i)) = pin_count H i) \<and>
     (\<forall>h \<in># H. map_of (p_pages s) (pb_page h) = Some (unat (pb_index h)))"

definition coherent :: "('s \<Rightarrow> u32 \<Rightarrow> page option) \<Rightarrow> ('s, 'v) pool \<Rightarrow> bool" where
  "coherent contents s \<longleftrightarrow>
     (\<forall>p i. map_of (p_pages s) p = Some i \<longrightarrow>
        contents (p_store s) p \<noteq> None \<and>
        (\<not> d_dirty (p_descs s ! i) \<longrightarrow> contents (p_store s) p = Some (p_frames s ! i)))"

definition pool_inv :: "('s \<Rightarrow> bool) \<Rightarrow> ('s \<Rightarrow> u32 \<Rightarrow> page option) \<Rightarrow> pinned_buffer multiset \<Rightarrow>
    ('s, 'v) pool \<Rightarrow> bool" where
  "pool_inv swf contents H s \<longleftrightarrow> swf (p_store s) \<and> frames_inv H s \<and> coherent contents s"

text \<open>
  What a client sees of page \<open>p\<close>: the frame's bytes while it is resident, the stored bytes
  otherwise.
\<close>

definition pool_view :: "('s \<Rightarrow> u32 \<Rightarrow> page option) \<Rightarrow> ('s, 'v) pool \<Rightarrow> u32 \<Rightarrow> page option" where
  "pool_view contents s p =
     (case map_of (p_pages s) p of Some i \<Rightarrow> Some (p_frames s ! i) | None \<Rightarrow> contents (p_store s) p)"

lemma pool_fields_simps [simp]:
  "frames_inv H (s\<lparr>p_strategy := v\<rparr>) = frames_inv H s"
  "frames_inv H (s\<lparr>p_poisoned := b\<rparr>) = frames_inv H s"
  "frames_inv H (s\<lparr>p_store := st\<rparr>) = frames_inv H s"
  "coherent c (s\<lparr>p_strategy := v\<rparr>) = coherent c s"
  "coherent c (s\<lparr>p_poisoned := b\<rparr>) = coherent c s"
  "pool_view c (s\<lparr>p_strategy := v\<rparr>) = pool_view c s"
  "pool_view c (s\<lparr>p_poisoned := b\<rparr>) = pool_view c s"
  "pool_inv swf c H (s\<lparr>p_strategy := v\<rparr>) = pool_inv swf c H s"
  "pool_inv swf c H (s\<lparr>p_poisoned := b\<rparr>) = pool_inv swf c H s"
  by (simp_all add: frames_inv_def coherent_def pool_inv_def pool_view_def fun_eq_iff split: option.split)

lemma upd_desc_simps [simp]:
  "p_store (upd_desc i f s) = p_store s" "p_frames (upd_desc i f s) = p_frames s"
  "p_pages (upd_desc i f s) = p_pages s" "p_strategy (upd_desc i f s) = p_strategy s"
  "p_poisoned (upd_desc i f s) = p_poisoned s"
  "length (p_descs (upd_desc i f s)) = length (p_descs s)"
  "i < length (p_descs s) \<Longrightarrow> p_descs (upd_desc i f s) ! j = (if i = j then f (p_descs s ! i) else p_descs s ! j)"
  by (simp_all add: upd_desc_def nth_list_update)

lemma pool_view_upd_desc [simp]: "pool_view c (upd_desc i f s) = pool_view c s"
  by (rule ext) (simp add: pool_view_def split: option.split)

lemma set_frame_simps [simp]:
  "p_store (set_frame i d s) = p_store s" "p_descs (set_frame i d s) = p_descs s"
  "p_pages (set_frame i d s) = p_pages s" "p_strategy (set_frame i d s) = p_strategy s"
  "p_poisoned (set_frame i d s) = p_poisoned s"
  "length (p_frames (set_frame i d s)) = length (p_frames s)"
  "i < length (p_frames s) \<Longrightarrow> p_frames (set_frame i d s) ! j = (if i = j then d else p_frames s ! j)"
  by (simp_all add: set_frame_def nth_list_update)

lemma desc_page_id_simps [simp]:
  "desc_page_id (d\<lparr>d_pins := n\<rparr>) = desc_page_id d"
  "desc_page_id (d\<lparr>d_dirty := b\<rparr>) = desc_page_id d"
  "desc_page_id (d\<lparr>d_poisoned := b\<rparr>) = desc_page_id d"
  by (simp_all add: desc_page_id_def)

lemma desc_page_id_tag [simp]: "desc_page_id (d\<lparr>d_tag := ucast (pg :: u32)\<rparr>) = Some pg"
proof -
  have "uint (ucast pg :: u64) < 2 ^ 32"
    using uint_bounded [of pg] by (simp add: unsigned_ucast_eq take_bit_int_eq_self)
  then have "(ucast pg :: u64) \<noteq> - 1" by (auto simp: word_uint_eq_iff unsigned_minus_1_eq_mask mask_eq_exp_minus_1)
  then show ?thesis by (simp add: desc_page_id_def unsigned_ucast_eq ucast_up_ucast_id is_up take_bit_word_eq_self)
qed

lemma free_desc_page_id [simp]: "desc_page_id free_desc = None"
  by (simp add: free_desc_def desc_page_id_def)

lemma pin_count_simps [simp]:
  "pin_count {#} i = 0"
  "pin_count (add_mset h H) i = (if unat (pb_index h) = i then Suc (pin_count H i) else pin_count H i)"
  by (simp_all add: pin_count_def)

lemma pin_count_0: "pin_count H i = 0 \<Longrightarrow> h \<in># H \<Longrightarrow> unat (pb_index h) \<noteq> i"
  by (auto simp: pin_count_def filter_mset_eq_conv)

section \<open>Replacement keeps the invariant\<close>

definition same_core :: "('s, 'v) pool \<Rightarrow> ('s, 'v) pool \<Rightarrow> bool" where
  "same_core s s' \<longleftrightarrow> p_store s' = p_store s \<and> p_frames s' = p_frames s \<and>
     p_descs s' = p_descs s \<and> p_pages s' = p_pages s"

lemma same_core_inv:
  assumes "same_core s s'"
  shows "pool_inv swf c H s' = pool_inv swf c H s" and "pool_view c s' = pool_view c s"
  using assms
  by (simp_all add: same_core_def pool_inv_def frames_inv_def coherent_def pool_view_def fun_eq_iff
      split: option.split)

lemma same_core_refl [simp]: "same_core s s"
  by (simp add: same_core_def)

definition victim_slot :: "nat \<Rightarrow> ('s, 'v) pool \<Rightarrow> bool" where
  "victim_slot i s \<longleftrightarrow> i < length (p_descs s) \<and> d_pins (p_descs s ! i) = 0 \<and>
     (desc_page_id (p_descs s ! i) = None \<longrightarrow> i = length (p_pages s))"

lemma state_victim_core: "state_victim vs s = (r, s') \<Longrightarrow> same_core s s'"
  by (auto simp: state_victim_def same_core_def split: if_splits option.splits prod.splits)

lemma state_victim_slot:
  assumes "frames_inv H s" "state_victim vs s = (Inr i, s')"
  shows "victim_slot i s'"
proof (cases "length (p_pages s) < length (p_descs s)")
  case True
  with assms have i: "i = length (p_pages s)" "s' = s" by (auto simp: state_victim_def)
  have "desc_page_id (p_descs s ! i) = None" using assms(1) True i by (auto simp: frames_inv_def)
  then have "pin_count H i = 0"
    using assms(1) True i by (fastforce simp: frames_inv_def pin_count_def)
  with assms(1) True i show ?thesis
    by (auto simp: victim_slot_def frames_inv_def unat_eq_0 [symmetric] simp del: unat_eq_0)
next
  case False
  with assms(2) have i: "i < length (p_descs s')" "d_pins (p_descs s' ! i) = 0"
    and s': "p_descs s' = p_descs s" "p_pages s' = p_pages s"
    by (auto simp: state_victim_def can_evict_def split: option.splits prod.splits if_splits)
  with assms(1) False show ?thesis by (auto simp: victim_slot_def frames_inv_def)
qed

definition pages_without :: "u32 option \<Rightarrow> (u32 \<times> nat) list \<Rightarrow> (u32 \<times> nat) list" where
  "pages_without old ps = (case old of Some q \<Rightarrow> AList.delete q ps | None \<Rightarrow> ps)"

lemma publish_fields:
  assumes "i < length (p_descs s)" "length (p_frames s) = length (p_descs s)"
  shows "p_store (publish i pg d s) = p_store s"
    and "p_poisoned (publish i pg d s) = p_poisoned s"
    and "p_strategy (publish i pg d s) = p_strategy s"
    and "p_frames (publish i pg d s) = (p_frames s)[i := d]"
    and "p_descs (publish i pg d s) =
      (p_descs s)[i := (p_descs s ! i)\<lparr>d_tag := ucast pg, d_dirty := False, d_pins := 1\<rparr>]"
    and "p_pages (publish i pg d s) =
      AList.update pg i (pages_without (desc_page_id (p_descs s ! i)) (p_pages s))"
  using assms
  by (simp_all add: publish_def install_def Let_def upd_desc_def set_frame_def pages_without_def
      split: option.split)

lemma publish_pages:
  assumes inv: "frames_inv H s" and i: "i < length (p_descs s)"
    and pg: "map_of (p_pages s) pg = None"
  defines "ps \<equiv> AList.update pg i (pages_without (desc_page_id (p_descs s ! i)) (p_pages s))"
  shows "map_of ps q = (if q = pg then Some i
      else if desc_page_id (p_descs s ! i) = Some q then None else map_of (p_pages s) q)"
    and "distinct (map fst ps)"
    and "length ps = (if desc_page_id (p_descs s ! i) = None then Suc (length (p_pages s))
      else length (p_pages s))"
proof -
  from inv have d: "distinct (map fst (p_pages s))" by (simp add: frames_inv_def)
  show "map_of ps q = (if q = pg then Some i
      else if desc_page_id (p_descs s ! i) = Some q then None else map_of (p_pages s) q)"
    by (auto simp: ps_def pages_without_def alist_map_of split: option.split)
  show "distinct (map fst ps)"
    unfolding ps_def pages_without_def
    by (rule AList.distinct_update) (use d in \<open>auto simp: AList.distinct_delete split: option.split\<close>)
  show "length ps = (if desc_page_id (p_descs s ! i) = None then Suc (length (p_pages s))
      else length (p_pages s))"
  proof (cases "desc_page_id (p_descs s ! i)")
    case None
    with pg show ?thesis by (simp add: ps_def pages_without_def alist_length_update)
  next
    case (Some old)
    with inv i have "map_of (p_pages s) old = Some i" by (simp add: frames_inv_def)
    moreover from this have "p_pages s \<noteq> []" by auto
    ultimately show ?thesis
      using Some pg d
      by (simp add: ps_def pages_without_def alist_length_update alist_length_delete alist_map_of)
  qed
qed

lemma frames_inv_mapped:
  "frames_inv H s \<Longrightarrow> map_of (p_pages s) p = Some i \<longleftrightarrow>
   i < length (p_descs s) \<and> desc_page_id (p_descs s ! i) = Some p"
  by (simp add: frames_inv_def)

lemma frames_inv_unique:
  "frames_inv H s \<Longrightarrow> map_of (p_pages s) p = Some i \<Longrightarrow> map_of (p_pages s) q = Some i \<Longrightarrow> p = q"
  by (simp add: frames_inv_mapped)

lemma unat_frame_index: "frames_inv H s \<Longrightarrow> i < length (p_descs s) \<Longrightarrow> unat (word_of_nat i :: u32) = i"
  by (intro unat_frame) (simp add: frames_inv_def)

lemma victim_slot_unpinned:
  "frames_inv H s \<Longrightarrow> victim_slot i s \<Longrightarrow> pin_count H i = 0"
  by (auto simp: frames_inv_def victim_slot_def)

lemma publish_frames_inv:
  assumes inv: "frames_inv H s" and v: "victim_slot i s"
    and pg: "map_of (p_pages s) pg = None" and d: "length d = PAGE_SIZE"
  shows "frames_inv (add_mset \<lparr>pb_index = word_of_nat i, pb_page = pg\<rparr> H) (publish i pg d s)"
proof -
  from v have i: "i < length (p_descs s)" by (simp add: victim_slot_def)
  from inv have len: "length (p_frames s) = length (p_descs s)" by (simp add: frames_inv_def)
  note f = publish_fields [OF i len, of pg d]
  note ps = publish_pages [OF inv i pg, folded f(6)]
  note idx = unat_frame_index [OF inv i]
  have un: "pin_count H i = 0" using inv v by (rule victim_slot_unpinned)
  have mapped: "map_of (p_pages (publish i pg d s)) q = Some j \<longleftrightarrow>
      j < length (p_descs s) \<and> desc_page_id (p_descs (publish i pg d s) ! j) = Some q" for q j
    using i pg frames_inv_mapped [OF inv, of q j] frames_inv_mapped [OF inv, of q i]
    by (auto simp: ps(1) f(5) nth_list_update)
  have dense: "desc_page_id (p_descs (publish i pg d s) ! j) \<noteq> None \<longleftrightarrow>
      j < length (p_pages (publish i pg d s))" if "j < length (p_descs s)" for j
    using that i inv v by (auto simp: ps(3) f(5) nth_list_update frames_inv_def victim_slot_def)
  have pins: "unat (d_pins (p_descs (publish i pg d s) ! j)) =
      pin_count (add_mset \<lparr>pb_index = word_of_nat i, pb_page = pg\<rparr> H) j" if "j < length (p_descs s)" for j
    using that i inv un by (auto simp: f(5) nth_list_update idx frames_inv_def)
  have held: "map_of (p_pages (publish i pg d s)) (pb_page h) = Some (unat (pb_index h))" if "h \<in># H" for h
  proof -
    from inv that have m: "map_of (p_pages s) (pb_page h) = Some (unat (pb_index h))"
      by (simp add: frames_inv_def)
    have "unat (pb_index h) \<noteq> i" using un that by (rule pin_count_0)
    with m pg frames_inv_mapped [OF inv, of "pb_page h" i] i show ?thesis by (auto simp: ps(1))
  qed
  from inv i len d ps(2) mapped dense pins held idx show ?thesis
    unfolding frames_inv_def [of "add_mset _ _"]
    by (simp add: f(4,5) nth_list_update ps(1)) (simp add: frames_inv_def)
qed

lemma publish_inv:
  assumes inv: "pool_inv swf c H s" and v: "victim_slot i s"
    and clean: "\<And>old. desc_page_id (p_descs s ! i) = Some old \<Longrightarrow> c (p_store s) old = Some (p_frames s ! i)"
    and pg: "map_of (p_pages s) pg = None" "c (p_store s) pg = Some d" and d: "length d = PAGE_SIZE"
  shows "pool_inv swf c (add_mset \<lparr>pb_index = word_of_nat i, pb_page = pg\<rparr> H) (publish i pg d s)"
    and "pool_view c (publish i pg d s) = pool_view c s"
proof -
  from inv have fi: "frames_inv H s" by (simp add: pool_inv_def)
  from v have i: "i < length (p_descs s)" by (simp add: victim_slot_def)
  from fi have len: "length (p_frames s) = length (p_descs s)" by (simp add: frames_inv_def)
  note f = publish_fields [OF i len, of pg d]
  note ps = publish_pages [OF fi i pg(1), folded f(6)]
  have ne: "desc_page_id (p_descs s ! i) \<noteq> Some q \<Longrightarrow> map_of (p_pages s) q = Some j \<Longrightarrow> i \<noteq> j" for q j
    using frames_inv_mapped [OF fi] by auto
  have "coherent c (publish i pg d s)"
    using inv pg(2) i len ne
    by (auto simp: coherent_def pool_inv_def ps(1) f(1-5) nth_list_update split: if_splits)
  with inv publish_frames_inv [OF fi v pg(1) d]
  show "pool_inv swf c (add_mset \<lparr>pb_index = word_of_nat i, pb_page = pg\<rparr> H) (publish i pg d s)"
    by (simp add: pool_inv_def f(1))
  show "pool_view c (publish i pg d s) = pool_view c s"
  proof
    fix q
    show "pool_view c (publish i pg d s) q = pool_view c s q"
      using pg i len ne [of q] clean [of q] frames_inv_mapped [OF fi, of q i]
      by (auto simp: pool_view_def ps(1) f(1-5) nth_list_update split: option.split)
  qed
qed


lemma drop_pin_inv:
  assumes "pool_inv swf c (add_mset h H) s"
  shows "pool_inv swf c H (drop_pin h s)" and "pool_view c (drop_pin h s) = pool_view c s"
proof -
  let ?i = "unat (pb_index h)"
  from assms have fi: "frames_inv (add_mset h H) s" by (simp add: pool_inv_def)
  then have m: "map_of (p_pages s) (pb_page h) = Some ?i" by (simp add: frames_inv_def)
  with fi have i: "?i < length (p_descs s)" by (simp add: frames_inv_mapped)
  with fi have "unat (d_pins (p_descs s ! ?i)) = Suc (pin_count H ?i)" by (simp add: frames_inv_def)
  then have dec: "unat (d_pins (p_descs s ! ?i) - 1) = pin_count H ?i"
    by (metis diff_Suc_1 nat.simps(3) unat_eq_zero unat_minus_one)
  have "frames_inv H (drop_pin h s)"
    using fi i dec by (auto simp: frames_inv_def drop_pin_def)
  moreover have "coherent c (drop_pin h s)"
    using assms i by (auto simp: coherent_def pool_inv_def drop_pin_def)
  ultimately show "pool_inv swf c H (drop_pin h s)"
    using assms by (simp add: pool_inv_def drop_pin_def)
  show "pool_view c (drop_pin h s) = pool_view c s"
    by (simp add: drop_pin_def)
qed

lemma add_pin_inv:
  assumes inv: "pool_inv swf c H s" and m: "map_of (p_pages s) pg = Some i"
    and o: "d_pins (p_descs s ! i) \<noteq> - 1"
  defines "s' \<equiv> upd_desc i (\<lambda>d. d\<lparr>d_pins := d_pins d + 1\<rparr>) s"
    and "h \<equiv> \<lparr>pb_index = word_of_nat i, pb_page = pg\<rparr>"
  shows "pool_inv swf c (add_mset h H) s'" and "pool_view c s' = pool_view c s"
    and "unat (pb_index h) = i"
proof -
  from inv have fi: "frames_inv H s" by (simp add: pool_inv_def)
  with m have i: "i < length (p_descs s)" by (simp add: frames_inv_mapped)
  show idx: "unat (pb_index h) = i" using unat_frame_index [OF fi i] by (simp add: h_def)
  have "d_pins (p_descs s ! i) + 1 \<noteq> 0" using o by (metis add_eq_0_iff2)
  then have "unat (d_pins (p_descs s ! i) + 1) = Suc (unat (d_pins (p_descs s ! i)))"
    by (metis add.commute unatSuc)
  then have "frames_inv (add_mset h H) s'"
    using fi i m idx by (auto simp: frames_inv_def s'_def h_def)
  moreover have "coherent c s'" using inv i by (auto simp: coherent_def pool_inv_def s'_def)
  ultimately show "pool_inv swf c (add_mset h H) s'" using inv by (simp add: pool_inv_def s'_def)
  show "pool_view c s' = pool_view c s" by (simp add: s'_def)
qed

lemma lock_state_result: "lock_state s = (r, s') \<Longrightarrow> s' = s \<and> (r = Inl Poisoned \<and> p_poisoned s \<or> r = Inr () \<and> \<not> p_poisoned s)"
  by (auto simp: lock_state_def split: if_splits)

lemma check_result: "check i s = (r, s') \<Longrightarrow> s' = s \<and> (r = Inl Poisoned \<or> r = Inr ())"
  by (auto simp: check_def split: if_splits)

lemma resident_pin_inv:
  assumes inv: "pool_inv swf c H s" and r: "resident_pin vs b pg s = (r, s')"
  shows "pool_view c s' = pool_view c s"
    and "case r of Inr (Some h) \<Rightarrow> pb_page h = pg \<and> pool_inv swf c (add_mset h H) s'
         | Inr None \<Rightarrow> s' = s \<and> map_of (p_pages s) pg = None
         | Inl e \<Rightarrow> pool_inv swf c H s'"
proof -
  have "pool_view c s' = pool_view c s \<and> (case r of
           Inr (Some h) \<Rightarrow> pb_page h = pg \<and> pool_inv swf c (add_mset h H) s'
         | Inr None \<Rightarrow> s' = s \<and> map_of (p_pages s) pg = None
         | Inl e \<Rightarrow> pool_inv swf c H s')"
  proof (cases "map_of (p_pages s) pg")
    case (Some i)
    show ?thesis
    proof (cases "d_pins (p_descs s ! i) = - 1")
      case False
      let ?h = "\<lparr>pb_index = word_of_nat i, pb_page = pg\<rparr>"
      let ?s1 = "upd_desc i (\<lambda>d. d\<lparr>d_pins := d_pins d + 1\<rparr>) s"
      note a = add_pin_inv [OF inv Some False]
      then have "pool_inv swf c (add_mset ?h H) (?s1\<lparr>p_poisoned := True\<rparr>)" by simp
      note d = drop_pin_inv [OF this]
      from Some False r a d show ?thesis
        by (auto simp: resident_pin_def Let_def split: option.splits if_splits)
    qed (use Some inv r in \<open>auto simp: resident_pin_def\<close>)
  qed (use inv r in \<open>auto simp: resident_pin_def\<close>)
  then show "pool_view c s' = pool_view c s"
    and "case r of Inr (Some h) \<Rightarrow> pb_page h = pg \<and> pool_inv swf c (add_mset h H) s'
         | Inr None \<Rightarrow> s' = s \<and> map_of (p_pages s) pg = None
         | Inl e \<Rightarrow> pool_inv swf c H s'" by simp_all
qed

lemma loaded_pin_inv:
  assumes "pool_inv swf c (add_mset \<lparr>pb_index = word_of_nat i, pb_page = pg\<rparr> H) s"
    and "loaded_pin vs i pg s = (r, s')"
  shows "pool_view c s' = pool_view c s"
    and "case r of Inr h \<Rightarrow> pb_page h = pg \<and> pool_inv swf c (add_mset h H) s'
         | Inl e \<Rightarrow> e = Panicked \<and> pool_inv swf c H s'"
proof -
  from assms(1) have "pool_inv swf c (add_mset \<lparr>pb_index = word_of_nat i, pb_page = pg\<rparr> H)
      (s\<lparr>p_poisoned := True\<rparr>)" by simp
  note d = drop_pin_inv [OF this]
  from assms d show "pool_view c s' = pool_view c s"
    and "case r of Inr h \<Rightarrow> pb_page h = pg \<and> pool_inv swf c (add_mset h H) s'
         | Inl e \<Rightarrow> e = Panicked \<and> pool_inv swf c H s'"
    by (auto simp: loaded_pin_def Let_def split: option.splits)
qed

section \<open>The calls against the page-store contract\<close>

context page_store
begin

abbreviation "pinv \<equiv> pool_inv wf contents"
abbreviation "view \<equiv> pool_view contents"

lemma frame_page_size: "pinv H s \<Longrightarrow> i < length (p_descs s) \<Longrightarrow> length (p_frames s ! i) = PAGE_SIZE"
  by (simp add: pool_inv_def frames_inv_def)

lemma view_page_size: "pinv H s \<Longrightarrow> view s p = Some d \<Longrightarrow> length d = PAGE_SIZE"
  using frame_page_size [of H s]
  by (auto simp: pool_view_def pool_inv_def frames_inv_mapped contents_page split: option.splits)

lemma store_replaced:
  assumes "pinv H s" "wf st" "\<And>p. map_of (p_pages s) p = None \<Longrightarrow> contents st p = contents (p_store s) p"
    and "\<And>p i. map_of (p_pages s) p = Some i \<Longrightarrow> contents st p \<noteq> None \<and>
        (\<not> d_dirty (p_descs s ! i) \<longrightarrow> contents st p = contents (p_store s) p)"
  shows "pinv H (s\<lparr>p_store := st\<rparr>)" and "view (s\<lparr>p_store := st\<rparr>) = view s"
proof -
  have "coherent contents (s\<lparr>p_store := st\<rparr>)"
    using assms(1,4) by (auto simp: coherent_def pool_inv_def)
  with assms(1,2) show "pinv H (s\<lparr>p_store := st\<rparr>)" by (simp add: pool_inv_def)
  show "view (s\<lparr>p_store := st\<rparr>) = view s"
    using assms(3) by (auto simp: pool_view_def fun_eq_iff split: option.split)
qed

lemma same_contents:
  assumes "pinv H s" "wf st" "contents st = contents (p_store s)"
  shows "pinv H (s\<lparr>p_store := st\<rparr>)" and "view (s\<lparr>p_store := st\<rparr>) = view s"
  by (rule store_replaced [OF assms(1,2)]; use assms in \<open>auto simp: pool_inv_def coherent_def\<close>)+

lemma on_store_cases:
  assumes "on_store m s = (r, s')"
  obtains r0 st where "m (p_store s) = (r0, st)" "r = map_err Io r0" "s' = s\<lparr>p_store := st\<rparr>"
  using assms by (auto simp: on_store_def split: prod.splits)

lemma on_store_Inr: "on_store m s = (Inr x, s') \<Longrightarrow> m (p_store s) = (Inr x, p_store s')"
  by (auto simp: on_store_def map_err_def split: prod.splits sum.splits)

lemma pool_read_store:
  assumes inv: "pinv H s" and r: "on_store (read_page ops pg) s = (r, s')"
  shows "pinv H s'" "view s' = view s" "\<exists>st. s' = s\<lparr>p_store := st\<rparr>"
    and "r = Inr d \<Longrightarrow> contents (p_store s') pg = Some d \<and> contents (p_store s) pg = Some d \<and> length d = PAGE_SIZE"
proof -
  from r obtain r0 st where m: "read_page ops pg (p_store s) = (r0, st)" "r = map_err Io r0"
    and s': "s' = s\<lparr>p_store := st\<rparr>" by (rule on_store_cases)
  have w: "wf (p_store s)" using inv by (simp add: pool_inv_def)
  have st: "wf st" "contents st = contents (p_store s)"
    using m(1) read_ok [OF w] read_err [OF w] by (cases r0; auto)+
  note sc = same_contents [OF inv st]
  show "pinv H s'" "view s' = view s" "\<exists>st. s' = s\<lparr>p_store := st\<rparr>" using sc s' by auto
  show "r = Inr d \<Longrightarrow> contents (p_store s') pg = Some d \<and> contents (p_store s) pg = Some d \<and> length d = PAGE_SIZE"
    using m s' st read_ok [OF w] by (auto intro: contents_page [OF w])
qed

lemma flush_write:
  assumes inv: "pinv H s" and m: "map_of (p_pages s) pg = Some i" and d: "d_dirty (p_descs s ! i)"
    and r: "on_store (write_page ops pg (p_frames s ! i)) s = (r, s')"
  shows "pinv H s'" "view s' = view s" "\<exists>st. s' = s\<lparr>p_store := st\<rparr>"
    and "r = Inr () \<Longrightarrow> contents (p_store s') pg = Some (p_frames s ! i)"
proof -
  from r obtain r0 st where w: "write_page ops pg (p_frames s ! i) (p_store s) = (r0, st)" "r = map_err Io r0"
    and s': "s' = s\<lparr>p_store := st\<rparr>" by (rule on_store_cases)
  have wfs: "wf (p_store s)" and i: "i < length (p_descs s)" and c: "contents (p_store s) pg \<noteq> None"
    using inv m by (auto simp: pool_inv_def frames_inv_mapped coherent_def)
  note len = frame_page_size [OF inv i]
  have eff: "wf st \<and> (\<forall>q. q \<noteq> pg \<longrightarrow> contents st q = contents (p_store s) q) \<and> contents st pg \<noteq> None"
    using w(1) write_ok [OF wfs len] write_err [OF wfs len] c by (cases r0) auto
  have uniq: "q = pg" if "map_of (p_pages s) q = Some i" for q
    using inv m that by (auto simp: pool_inv_def intro: frames_inv_unique)
  have absent: "contents st p = contents (p_store s) p" if "map_of (p_pages s) p = None" for p
    using that eff m by (cases "p = pg") auto
  have resident: "contents st p \<noteq> None \<and> (\<not> d_dirty (p_descs s ! j) \<longrightarrow> contents st p = contents (p_store s) p)"
    if "map_of (p_pages s) p = Some j" for p j
  proof (cases "p = pg")
    case True
    with that m d eff show ?thesis by simp
  next
    case False
    with that inv eff show ?thesis by (auto simp: pool_inv_def coherent_def)
  qed
  from eff have "wf st" by simp
  from store_replaced [OF inv this absent resident]
  show "pinv H s'" "view s' = view s" "\<exists>st. s' = s\<lparr>p_store := st\<rparr>" using s' by auto
  show "r = Inr () \<Longrightarrow> contents (p_store s') pg = Some (p_frames s ! i)"
    using w s' write_ok [OF wfs len] by auto
qed

lemma flush_victim_inv:
  assumes inv: "pinv H s" and i: "i < length (p_descs s)" and r: "flush_victim ops i s = (r, s')"
  shows "pinv H s'" "view s' = view s" "\<exists>st. s' = s\<lparr>p_store := st\<rparr>"
    and "r = Inr () \<Longrightarrow> desc_page_id (p_descs s ! i) = Some old \<Longrightarrow>
      contents (p_store s') old = Some (p_frames s ! i)"
proof -
  have "pinv H s' \<and> view s' = view s \<and> (\<exists>st. s' = s\<lparr>p_store := st\<rparr>) \<and>
    (\<forall>old. r = Inr () \<longrightarrow> desc_page_id (p_descs s ! i) = Some old \<longrightarrow>
      contents (p_store s') old = Some (p_frames s ! i))"
  proof (cases "d_dirty (p_descs s ! i) \<and> desc_page_id (p_descs s ! i) \<noteq> None")
    case True
    then obtain pg where pg: "desc_page_id (p_descs s ! i) = Some pg" by auto
    with inv i have m: "map_of (p_pages s) pg = Some i" by (auto simp: pool_inv_def frames_inv_mapped)
    from True pg r have "on_store (write_page ops pg (p_frames s ! i)) s = (r, s')"
      by (simp add: flush_victim_def)
    from flush_write [OF inv m _ this] True pg show ?thesis by auto
  next
    case False
    with r have [simp]: "s' = s" and "r = Inr ()" by (auto simp: flush_victim_def split: if_splits option.splits)
    have "contents (p_store s) old = Some (p_frames s ! i)" if "desc_page_id (p_descs s ! i) = Some old" for old
    proof -
      from inv i that have "map_of (p_pages s) old = Some i" by (auto simp: pool_inv_def frames_inv_mapped)
      with inv False that show ?thesis by (auto simp: pool_inv_def coherent_def)
    qed
    with inv show ?thesis by (auto intro: exI [of _ "p_store s"])
  qed
  then show "pinv H s'" "view s' = view s" "\<exists>st. s' = s\<lparr>p_store := st\<rparr>"
    and "r = Inr () \<Longrightarrow> desc_page_id (p_descs s ! i) = Some old \<Longrightarrow>
      contents (p_store s') old = Some (p_frames s ! i)" by auto
qed

lemma view_absent: "map_of (p_pages s) p = None \<Longrightarrow> view s p = contents (p_store s) p"
  by (simp add: pool_view_def)

lemma view_None: "pinv H s \<Longrightarrow> view s p = None \<longleftrightarrow> contents (p_store s) p = None"
  by (auto simp: pool_view_def pool_inv_def coherent_def split: option.split)

lemma with_victim_cases:
  assumes "with_victim i replace s = (r, s')" "d_pins (p_descs s ! i) = 0"
  obtains (poisoned) "r = Inl Poisoned" "s' = s" | (run) "replace s = (r, s')"
proof (cases "p_poisoned s \<or> d_poisoned (p_descs s ! i)")
  case True
  with assms show thesis
    by (intro poisoned) (auto simp: with_victim_def io_then_def check_def split: if_splits)
next
  case False
  with assms show thesis by (intro run) (simp add: with_victim_def io_then_def check_def)
qed

lemma victim_prefixE:
  assumes "io_then (state_victim vs) (\<lambda>i. io_then (check i) (\<lambda>_. body i)) s = (r, s')"
    and "frames_inv H s"
  obtains (err) e where "r = Inl e" "same_core s s'"
  | (ok) i s1 where "same_core s s1" "victim_slot i s1" "body i s1 = (r, s')"
  using assms(1)
proof (cases rule: io_thenE)
  case (err e)
  show thesis by (rule that(1) [OF err(2) state_victim_core [OF err(1)]])
next
  case vict: (ok i s1)
  have core: "same_core s s1" using vict(1) by (rule state_victim_core)
  have slot: "victim_slot i s1" using assms(2) vict(1) by (rule state_victim_slot)
  from vict(2) show thesis
  proof (cases rule: io_thenE)
    case (err e)
    with core show thesis by (intro that(1)) (auto dest: check_result)
  next
    case chk: (ok u s2)
    then have "s2 = s1" by (auto dest: check_result)
    with chk core slot show thesis by (intro that(2)) auto
  qed
qed

lemma replace_inv:
  assumes inv: "pinv H s" and v: "victim_slot i s"
    and pg: "map_of (p_pages s) pg = None" "contents (p_store s) pg = Some d" "length d = PAGE_SIZE"
    and r: "with_victim i (io_then (flush_victim ops i) (\<lambda>_ s. (Inr (), publish i pg d s))) s = (r, s')"
  shows "view s' = view s"
    and "case r of Inr _ \<Rightarrow> pinv (add_mset \<lparr>pb_index = word_of_nat i, pb_page = pg\<rparr> H) s'
         | Inl e \<Rightarrow> pinv H s'"
proof -
  have i: "i < length (p_descs s)" and z: "d_pins (p_descs s ! i) = 0" using v by (auto simp: victim_slot_def)
  have "view s' = view s \<and> (case r of Inr _ \<Rightarrow> pinv (add_mset \<lparr>pb_index = word_of_nat i, pb_page = pg\<rparr> H) s'
         | Inl e \<Rightarrow> pinv H s')"
    using r z
  proof (cases rule: with_victim_cases)
    case run
    then show ?thesis
    proof (cases rule: io_thenE)
      case (err e)
      with flush_victim_inv [OF inv i err(1)] show ?thesis by simp
    next
      case (ok u s1)
      note f = flush_victim_inv [OF inv i ok(1)]
      from f(3) have same: "p_descs s1 = p_descs s" "p_pages s1 = p_pages s" "p_frames s1 = p_frames s" by auto
      have v1: "victim_slot i s1" using v by (simp add: victim_slot_def same)
      have "contents (p_store s1) pg = Some d"
        using f(2) pg view_absent [of s pg] view_absent [of s1 pg] by (simp add: same)
      from publish_inv [OF f(1) v1 _ _ this pg(3)] f(2,4) pg(1) ok(2) same
      show ?thesis by auto
    qed
  qed (use inv in auto)
  then show "view s' = view s"
    and "case r of Inr _ \<Rightarrow> pinv (add_mset \<lparr>pb_index = word_of_nat i, pb_page = pg\<rparr> H) s'
         | Inl e \<Rightarrow> pinv H s'" by simp_all
qed

definition pinned :: "pinned_buffer multiset \<Rightarrow> u32 \<Rightarrow> ('s, 'v) pool \<Rightarrow> buffer_error + pinned_buffer \<Rightarrow>
    ('s, 'v) pool \<Rightarrow> bool" where
  "pinned H pg s r s' \<longleftrightarrow> view s' = view s \<and>
     (case r of Inr h \<Rightarrow> pb_page h = pg \<and> pinv (add_mset h H) s' | Inl e \<Rightarrow> pinv H s')"

lemma pin_miss:
  assumes inv: "pinv H s" and v: "victim_slot i s" and pg: "map_of (p_pages s) pg = None"
    and r: "io_then (on_store (read_page ops pg)) (\<lambda>incoming.
         io_then (with_victim i (io_then (flush_victim ops i) (\<lambda>_ s. (Inr (), publish i pg incoming s))))
           (\<lambda>_. loaded_pin vs i pg)) s = (r, s')"
  shows "pinned H pg s r s'"
  using r
proof (cases rule: io_thenE)
  case (err e)
  with pool_read_store [OF inv err(1)] show ?thesis by (simp add: pinned_def)
next
  case (ok d s1)
  note rd = pool_read_store [OF inv ok(1)]
  from rd(3) v pg have v1: "victim_slot i s1" and pg1: "map_of (p_pages s1) pg = None"
    by (auto simp: victim_slot_def)
  from rd(4) have d: "contents (p_store s1) pg = Some d" "length d = PAGE_SIZE" by auto
  from ok(2) show ?thesis
  proof (cases rule: io_thenE)
    case (err e)
    with replace_inv [OF rd(1) v1 pg1 d err(1)] rd(2) show ?thesis by (simp add: pinned_def)
  next
    case replaced: (ok u s2)
    note re = replace_inv [OF rd(1) v1 pg1 d replaced(1)]
    from re(2) have "pinv (add_mset \<lparr>pb_index = word_of_nat i, pb_page = pg\<rparr> H) s2" by simp
    from loaded_pin_inv [OF this replaced(2)] re(1) rd(2) show ?thesis
      by (auto simp: pinned_def split: sum.splits)
  qed
qed

lemma pool_pin_inv:
  assumes inv: "pinv H s" and r: "pool_pin ops vs pg s = (r, s')"
  shows "pinned H pg s r s'"
  using r unfolding pool_pin_def
proof (cases rule: io_thenE)
  case (err e)
  with inv show ?thesis by (auto simp: pinned_def dest!: lock_state_result)
next
  case (ok u s0)
  from ok(1) have [simp]: "s0 = s" by (auto dest: lock_state_result)
  from ok(2) show ?thesis
  proof (cases rule: io_thenE)
    case (err e)
    with resident_pin_inv [OF inv, of vs True pg "Inl e" s'] show ?thesis by (simp add: pinned_def)
  next
    case res: (ok x s1)
    note rp = resident_pin_inv [OF inv, of vs True pg "Inr x" s1]
    show ?thesis
    proof (cases x)
      case (Some h)
      with res rp show ?thesis by (auto simp: pinned_def)
    next
      case None
      with res rp have [simp]: "s1 = s" and pg: "map_of (p_pages s) pg = None" by auto
      from res(2) None have "io_then (state_victim vs) (\<lambda>i. io_then (check i) (\<lambda>_.
         io_then (on_store (read_page ops pg)) (\<lambda>incoming.
         io_then (with_victim i (io_then (flush_victim ops i) (\<lambda>_ s. (Inr (), publish i pg incoming s))))
           (\<lambda>_. loaded_pin vs i pg)))) s = (r, s')" by simp
      moreover have "frames_inv H s" using inv by (simp add: pool_inv_def)
      ultimately show ?thesis
      proof (cases rule: victim_prefixE)
        case (err e)
        with inv same_core_inv [OF err(2)] show ?thesis by (simp add: pinned_def)
      next
        case (ok i s2)
        note same = same_core_inv [OF ok(1)]
        have "map_of (p_pages s2) pg = None" using ok(1) pg by (simp add: same_core_def)
        with same inv ok have "pinned H pg s2 r s'" by (intro pin_miss [where i = i and vs = vs]) auto
        with same show ?thesis by (simp add: pinned_def)
      qed
    qed
  qed
qed

lemma allocate_inv:
  assumes inv: "pinv H s" and r: "on_store (allocate_page ops) s = (r, s')"
  shows "pinv H s'" "\<exists>st. s' = s\<lparr>p_store := st\<rparr>"
    and "case r of Inl e \<Rightarrow> view s' = view s
         | Inr pg \<Rightarrow> view s pg = None \<and> map_of (p_pages s) pg = None \<and>
             contents (p_store s') pg = Some zero_page \<and> view s' = (view s)(pg \<mapsto> zero_page)"
proof -
  from r obtain r0 st where m: "allocate_page ops (p_store s) = (r0, st)" "r = map_err Io r0"
    and s': "s' = s\<lparr>p_store := st\<rparr>" by (rule on_store_cases)
  have w: "wf (p_store s)" using inv by (simp add: pool_inv_def)
  have "pinv H s' \<and> (case r of Inl e \<Rightarrow> view s' = view s
         | Inr pg \<Rightarrow> view s pg = None \<and> map_of (p_pages s) pg = None \<and>
             contents (p_store s') pg = Some zero_page \<and> view s' = (view s)(pg \<mapsto> zero_page))"
  proof (cases r0)
    case (Inl e)
    with m allocate_err [OF w] have "wf st" "contents st = contents (p_store s)" by auto
    from same_contents [OF inv this] m(2) Inl s' show ?thesis by simp
  next
    case (Inr pg)
    with m allocate_ok [OF w] have st: "wf st" "contents (p_store s) pg = None"
      "contents st = (contents (p_store s))(pg \<mapsto> zero_page)" by auto
    with inv have un: "map_of (p_pages s) pg = None"
      by (cases "map_of (p_pages s) pg") (fastforce simp: pool_inv_def coherent_def)+
    have "coherent contents s'" using inv st un s' by (auto simp: pool_inv_def coherent_def)
    with inv st s' have "pinv H s'" by (simp add: pool_inv_def)
    moreover have "view s' = (view s)(pg \<mapsto> zero_page)"
      using un st s' by (auto simp: pool_view_def fun_eq_iff split: option.split)
    ultimately show ?thesis using Inr m(2) st un s' by (simp add: pool_view_def)
  qed
  then show "pinv H s'" "\<exists>st. s' = s\<lparr>p_store := st\<rparr>"
    and "case r of Inl e \<Rightarrow> view s' = view s
         | Inr pg \<Rightarrow> view s pg = None \<and> map_of (p_pages s) pg = None \<and>
             contents (p_store s') pg = Some zero_page \<and> view s' = (view s)(pg \<mapsto> zero_page)"
    using s' by auto
qed

definition created :: "pinned_buffer multiset \<Rightarrow> ('s, 'v) pool \<Rightarrow> buffer_error + pinned_buffer \<Rightarrow>
    ('s, 'v) pool \<Rightarrow> bool" where
  "created H s r s' \<longleftrightarrow>
     (case r of
        Inr h \<Rightarrow> view s (pb_page h) = None \<and> view s' = (view s)(pb_page h \<mapsto> zero_page) \<and>
          pinv (add_mset h H) s'
      | Inl e \<Rightarrow> pinv H s' \<and> (view s' = view s \<or>
          e = Panicked \<and> (\<exists>pg. view s pg = None \<and> view s' = (view s)(pg \<mapsto> zero_page))))"

lemma allocate_replace_inv:
  assumes inv: "pinv H s" and v: "victim_slot i s"
    and r: "with_victim i (io_then (flush_victim ops i) (\<lambda>_.
              io_then (on_store (allocate_page ops)) (\<lambda>pg s. (Inr pg, publish i pg zero_page s)))) s = (r, s')"
  shows "case r of Inl e \<Rightarrow> pinv H s' \<and> view s' = view s
         | Inr pg \<Rightarrow> view s pg = None \<and> view s' = (view s)(pg \<mapsto> zero_page) \<and>
             pinv (add_mset \<lparr>pb_index = word_of_nat i, pb_page = pg\<rparr> H) s'"
proof -
  have i: "i < length (p_descs s)" and z: "d_pins (p_descs s ! i) = 0" using v by (auto simp: victim_slot_def)
  show ?thesis
    using r z
  proof (cases rule: with_victim_cases)
    case run
    then show ?thesis
    proof (cases rule: io_thenE)
      case (err e)
      with flush_victim_inv [OF inv i err(1)] show ?thesis by simp
    next
      case (ok u s1)
      note f = flush_victim_inv [OF inv i ok(1)]
      from ok(2) show ?thesis
      proof (cases rule: io_thenE)
        case (err e)
        with allocate_inv [OF f(1) err(1)] f(2) show ?thesis by simp
      next
        case alloc: (ok pg s2)
        note a = allocate_inv [OF f(1) alloc(1)]
        from f(3) a(2) have same: "p_descs s2 = p_descs s" "p_pages s2 = p_pages s"
          "p_frames s2 = p_frames s" "p_pages s1 = p_pages s" by auto
        have v2: "victim_slot i s2" using v by (simp add: victim_slot_def same)
        have old: "contents (p_store s2) old = Some (p_frames s2 ! i)"
          if "desc_page_id (p_descs s2 ! i) = Some old" for old
        proof -
          from inv i that same have m: "map_of (p_pages s) old = Some i"
            by (auto simp: pool_inv_def frames_inv_mapped)
          with f(3) a(3) have "old \<noteq> pg" by auto
          from \<open>old \<noteq> pg\<close> f(1) allocate_ok [OF _ on_store_Inr [OF alloc(1)]]
          have "contents (p_store s2) old = contents (p_store s1) old" by (simp add: pool_inv_def)
          with f(4) [of old] that same ok(1) show ?thesis by simp
        qed
        from publish_inv [OF a(1) v2 old, of pg zero_page] a(3) same alloc(2) f(2)
        show ?thesis by auto
      qed
    qed
  qed (use inv in auto)
qed

lemma pool_new_page_inv:
  assumes inv: "pinv H s" and r: "pool_new_page ops vs s = (r, s')"
  shows "created H s r s'"
  using r unfolding pool_new_page_def
proof (cases rule: io_thenE)
  case (err e)
  with inv show ?thesis by (auto simp: created_def dest!: lock_state_result)
next
  case (ok u s0)
  from ok(1) have [simp]: "s0 = s" by (auto dest: lock_state_result)
  have "frames_inv H s" using inv by (simp add: pool_inv_def)
  with ok(2) [simplified] show ?thesis
  proof (cases rule: victim_prefixE)
    case (err e)
    with inv same_core_inv [OF err(2)] show ?thesis by (simp add: created_def)
  next
    case (ok i s2)
    note same = same_core_inv [OF ok(1)]
    with inv have inv2: "pinv H s2" by simp
    from ok(3) show ?thesis
    proof (cases rule: io_thenE)
      case (err e)
      with allocate_replace_inv [OF inv2 ok(2) err(1)] same show ?thesis by (simp add: created_def)
    next
      case replaced: (ok pg s3)
      from allocate_replace_inv [OF inv2 ok(2) replaced(1)]
      have a: "view s2 pg = None" "view s3 = (view s2)(pg \<mapsto> zero_page)"
        and p: "pinv (add_mset \<lparr>pb_index = word_of_nat i, pb_page = pg\<rparr> H) s3" by auto
      from loaded_pin_inv [OF p replaced(2)] a same show ?thesis
        by (auto simp: created_def split: sum.splits)
    qed
  qed
qed

lemma held_frame:
  assumes "pinv H s" "h \<in># H"
  shows "map_of (p_pages s) (pb_page h) = Some (unat (pb_index h))"
    and "unat (pb_index h) < length (p_descs s)" and "unat (pb_index h) < length (p_frames s)"
    and "view s (pb_page h) = Some (p_frames s ! unat (pb_index h))"
    and "length (p_frames s ! unat (pb_index h)) = PAGE_SIZE"
proof -
  have fi: "frames_inv H s" using assms by (simp add: pool_inv_def)
  show m: "map_of (p_pages s) (pb_page h) = Some (unat (pb_index h))"
    using fi assms(2) by (simp add: frames_inv_def)
  then show i: "unat (pb_index h) < length (p_descs s)" using fi by (simp add: frames_inv_mapped)
  then show "unat (pb_index h) < length (p_frames s)" using fi by (simp add: frames_inv_def)
  show "view s (pb_page h) = Some (p_frames s ! unat (pb_index h))" using m by (simp add: pool_view_def)
  show "length (p_frames s ! unat (pb_index h)) = PAGE_SIZE" using assms(1) i by (rule frame_page_size)
qed

lemma latch_result: "latch h s = (r, s') \<Longrightarrow> s' = s \<and> (r = Inl Poisoned \<or> r = Inr ())"
  by (auto simp: latch_def check_def split: if_splits)

lemma pin_read_result:
  assumes "pinv H s" "h \<in># H" "pin_read h f s = (r, s')"
  shows "s' = s" and "r = Inl Poisoned \<or>
    (\<exists>d. view s (pb_page h) = Some d \<and> r = (case f d of None \<Rightarrow> Inl Panicked | Some x \<Rightarrow> Inr x))"
proof -
  have "s' = s \<and> (r = Inl Poisoned \<or>
    (\<exists>d. view s (pb_page h) = Some d \<and> r = (case f d of None \<Rightarrow> Inl Panicked | Some x \<Rightarrow> Inr x)))"
    using assms(3) unfolding pin_read_def
  proof (cases rule: io_thenE)
    case (ok u s1)
    with held_frame(4) [OF assms(1,2)] show ?thesis
      by (auto dest!: latch_result split: option.splits)
  qed (auto dest: latch_result)
  then show "s' = s" and "r = Inl Poisoned \<or>
    (\<exists>d. view s (pb_page h) = Some d \<and> r = (case f d of None \<Rightarrow> Inl Panicked | Some x \<Rightarrow> Inr x))" by auto
qed

lemma write_frame_inv:
  assumes inv: "pinv H s" and h: "h \<in># H" and d: "length d = PAGE_SIZE"
  defines "i \<equiv> unat (pb_index h)"
  defines "s' \<equiv> set_frame i d (upd_desc i (\<lambda>d. d\<lparr>d_dirty := True\<rparr>) s)"
  shows "pinv H s'" and "view s' = (view s)(pb_page h \<mapsto> d)"
    and "pinv H (upd_desc i (\<lambda>d. d\<lparr>d_poisoned := True\<rparr>) s')"
proof -
  note hf = held_frame [OF inv h, folded i_def]
  have fi: "frames_inv H s" using inv by (simp add: pool_inv_def)
  have fi': "frames_inv H s'" "frames_inv H (upd_desc i (\<lambda>d. d\<lparr>d_poisoned := True\<rparr>) s')"
    using fi hf(2,3) d by (auto simp: frames_inv_def s'_def)
  have uniq: "q = pb_page h" if "map_of (p_pages s) q = Some i" for q
    using fi that hf(1) by (rule frames_inv_unique)
  have "coherent contents s" using inv by (simp add: pool_inv_def)
  then have "coherent contents s'" "coherent contents (upd_desc i (\<lambda>d. d\<lparr>d_poisoned := True\<rparr>) s')"
    using hf(1-3) by (simp_all add: coherent_def s'_def)
  with fi' inv show "pinv H s'" "pinv H (upd_desc i (\<lambda>d. d\<lparr>d_poisoned := True\<rparr>) s')"
    by (simp_all add: pool_inv_def s'_def)
  show "view s' = (view s)(pb_page h \<mapsto> d)"
  proof
    fix q
    show "view s' q = ((view s)(pb_page h \<mapsto> d)) q"
    proof (cases "q = pb_page h")
      case True
      with hf(1,3) show ?thesis by (simp add: pool_view_def s'_def)
    next
      case False
      with uniq have "map_of (p_pages s) q \<noteq> Some i" by blast
      with False hf(3) show ?thesis by (cases "map_of (p_pages s) q") (auto simp: pool_view_def s'_def)
    qed
  qed
qed

definition wrote :: "(page \<Rightarrow> 'a option \<times> page) \<Rightarrow> u32 \<Rightarrow> ('s, 'v) pool \<Rightarrow> buffer_error + 'a \<Rightarrow>
    ('s, 'v) pool \<Rightarrow> bool" where
  "wrote f pg s r s' \<longleftrightarrow>
     (\<exists>d. view s pg = Some d \<and> view s' = (view s)(pg \<mapsto> snd (f d)) \<and>
        r = (case fst (f d) of None \<Rightarrow> Inl Panicked | Some x \<Rightarrow> Inr x))"

lemma pin_write_result:
  assumes inv: "pinv H s" and h: "h \<in># H" and r: "pin_write h f s = (r, s')"
    and f: "\<And>d. length d = PAGE_SIZE \<Longrightarrow> length (snd (f d)) = PAGE_SIZE"
  shows "pinv H s'" and "s' = s \<and> r = Inl Poisoned \<or> wrote f (pb_page h) s r s'"
proof -
  have "pinv H s' \<and> (s' = s \<and> r = Inl Poisoned \<or> wrote f (pb_page h) s r s')"
    using r unfolding pin_write_def
  proof (cases rule: io_thenE)
    case (err e)
    with inv show ?thesis by (auto dest!: latch_result)
  next
    case (ok u s1)
    then have [simp]: "s1 = s" by (auto dest: latch_result)
    note hf = held_frame [OF inv h]
    note w = write_frame_inv [OF inv h f [OF hf(5)]]
    obtain x d' where x: "f (p_frames s ! unat (pb_index h)) = (x, d')" by fastforce
    with w have w': "pinv H (set_frame (unat (pb_index h)) d' (upd_desc (unat (pb_index h)) (\<lambda>d. d\<lparr>d_dirty := True\<rparr>) s))"
      "view (set_frame (unat (pb_index h)) d' (upd_desc (unat (pb_index h)) (\<lambda>d. d\<lparr>d_dirty := True\<rparr>) s)) = (view s)(pb_page h \<mapsto> d')"
      "pinv H (upd_desc (unat (pb_index h)) (\<lambda>d. d\<lparr>d_poisoned := True\<rparr>) (set_frame (unat (pb_index h)) d' (upd_desc (unat (pb_index h)) (\<lambda>d. d\<lparr>d_dirty := True\<rparr>) s)))"
      by simp_all
    show ?thesis
    proof (cases x)
      case None
      with ok(2) x w' hf(4) show ?thesis by (auto simp: wrote_def Let_def)
    next
      case (Some y)
      with ok(2) x w' hf(4) show ?thesis by (auto simp: wrote_def Let_def)
    qed
  qed
  then show "pinv H s'" and "s' = s \<and> r = Inl Poisoned \<or> wrote f (pb_page h) s r s'" by auto
qed

text \<open>A page is clean when the store holds what clients see of it.\<close>

definition clean :: "('s, 'v) pool \<Rightarrow> u32 \<Rightarrow> bool" where
  "clean s q \<longleftrightarrow> contents (p_store s) q = view s q"

definition flushed :: "pinned_buffer multiset \<Rightarrow> ('s, 'v) pool \<Rightarrow> ('s, 'v) pool \<Rightarrow> bool" where
  "flushed H s s' \<longleftrightarrow> pinv H s' \<and> view s' = view s \<and> p_pages s' = p_pages s"

lemma flush_resident_inv:
  assumes inv: "pinv H s" and m: "map_of (p_pages s) pg = Some i"
    and r: "flush_resident ops pg i s = (r, s')"
  shows "flushed H s s'"
    and "r = Inr u \<Longrightarrow> clean s' pg \<and> (\<forall>q. clean s q \<longrightarrow> clean s' q)"
proof -
  have "flushed H s s' \<and> (r = Inr u \<longrightarrow> clean s' pg \<and> (\<forall>q. clean s q \<longrightarrow> clean s' q))"
  proof (cases "d_dirty (p_descs s ! i)")
    case True
    with r have "io_then (on_store (write_page ops pg (p_frames s ! i)))
             (\<lambda>_ s. (Inr (), upd_desc i (\<lambda>d. d\<lparr>d_dirty := False\<rparr>) s)) s = (r, s')"
      by (simp add: flush_resident_def)
    then show ?thesis
    proof (cases rule: io_thenE)
      case (err e)
      with flush_write [OF inv m True err(1)] show ?thesis by (auto simp: flushed_def)
    next
      case (ok x s1)
      note fw = flush_write [OF inv m True ok(1)]
      from fw(3) obtain st where s1: "s1 = s\<lparr>p_store := st\<rparr>" by blast
      from ok(2) have s': "s' = upd_desc i (\<lambda>d. d\<lparr>d_dirty := False\<rparr>) s1" and r: "r = Inr ()" by auto
      have i: "i < length (p_descs s1)" using fw(1) m s1 by (auto simp: pool_inv_def frames_inv_mapped)
      have now: "contents st pg = Some (p_frames s ! i)" using fw(4) s1 by simp
      have other: "contents st q = contents (p_store s) q" if "q \<noteq> pg" for q
      proof -
        from on_store_Inr [OF ok(1)] have "write_page ops pg (p_frames s ! i) (p_store s) = (Inr x, st)"
          using s1 by simp
        moreover have "i < length (p_descs s)" using i s1 by simp
        ultimately show ?thesis
          using that write_ok [of "p_store s" "p_frames s ! i" pg] frame_page_size [OF inv] inv
          by (simp add: pool_inv_def)
      qed
      have view': "view s' = view s" using fw(2) s' by simp
      have uniq: "q = pg" if "map_of (p_pages s) q = Some i" for q
        using inv m that by (auto simp: pool_inv_def intro: frames_inv_unique)
      have fi: "frames_inv H s'" using fw(1) i s' by (auto simp: pool_inv_def frames_inv_def)
      have "coherent contents s'"
        unfolding coherent_def
      proof (intro allI impI)
        fix p j assume "map_of (p_pages s') p = Some j"
        then have j: "map_of (p_pages s) p = Some j" using s' s1 by simp
        show "contents (p_store s') p \<noteq> None \<and>
          (\<not> d_dirty (p_descs s' ! j) \<longrightarrow> contents (p_store s') p = Some (p_frames s' ! j))"
        proof (cases "j = i")
          case True
          with j uniq have "p = pg" by simp
          with True now s' s1 show ?thesis by simp
        next
          case False
          with j fw(1) s' s1 i show ?thesis by (auto simp: pool_inv_def coherent_def)
        qed
      qed
      with fi fw(1) s' have "pinv H s'" by (simp add: pool_inv_def)
      moreover have "clean s' pg" using now m s' s1 by (simp add: clean_def pool_view_def)
      moreover have "clean s' q" if "clean s q" for q
        using that other [of q] \<open>clean s' pg\<close> view' s' s1 by (cases "q = pg") (auto simp: clean_def)
      ultimately show ?thesis using view' s' s1 by (simp add: flushed_def)
    qed
  next
    case False
    with r have "s' = s" by (simp add: flush_resident_def)
    moreover have "clean s pg" using inv m False by (auto simp: clean_def pool_view_def pool_inv_def coherent_def)
    ultimately show ?thesis using inv by (simp add: flushed_def)
  qed
  then show "flushed H s s'"
    and "r = Inr u \<Longrightarrow> clean s' pg \<and> (\<forall>q. clean s q \<longrightarrow> clean s' q)" by simp_all
qed

lemma resident_pin_pages: "resident_pin vs b pg s = (r, s') \<Longrightarrow> p_pages s' = p_pages s \<and> p_store s' = p_store s"
  by (auto simp: resident_pin_def Let_def drop_pin_def split: option.splits if_splits)

lemma clean_drop [simp]: "clean (drop_pin h s) q = clean s q"
  by (simp add: clean_def drop_pin_def)

lemma flushed_drop: "flushed (add_mset h H) s s' \<Longrightarrow> flushed H s (drop_pin h s')"
  using drop_pin_inv [of wf contents h H s'] by (simp add: flushed_def) (simp add: drop_pin_def)

lemma pool_flush_page_inv:
  assumes inv: "pinv H s" and r: "pool_flush_page ops vs pg s = (r, s')"
  shows "flushed H s s'"
    and "r = Inr b \<Longrightarrow> clean s' pg \<and> (\<forall>q. clean s q \<longrightarrow> clean s' q)"
proof -
  have "flushed H s s' \<and> (r = Inr b \<longrightarrow> clean s' pg \<and> (\<forall>q. clean s q \<longrightarrow> clean s' q))"
    using r unfolding pool_flush_page_def
  proof (cases rule: io_thenE)
    case (ok u s0)
    from ok(1) have [simp]: "s0 = s" by (auto dest: lock_state_result)
    from ok(2) show ?thesis
    proof (cases rule: io_thenE)
      case (err e)
      with resident_pin_inv [OF inv, of vs False pg "Inl e" s'] resident_pin_pages show ?thesis
        by (fastforce simp: flushed_def)
    next
      case res: (ok x s1)
      note rp = resident_pin_inv [OF inv, of vs False pg "Inr x" s1] resident_pin_pages [OF res(1)]
      show ?thesis
      proof (cases x)
        case None
        with res rp inv show ?thesis by (auto simp: flushed_def clean_def pool_view_def)
      next
        case (Some h)
        with rp res have h: "pb_page h = pg" and inv1: "pinv (add_mset h H) s1"
          and same: "view s1 = view s" "p_pages s1 = p_pages s" "p_store s1 = p_store s" by auto
        obtain s2 where s2: "io_then (latch h) (\<lambda>_.
            io_then (flush_resident ops pg (unat (pb_index h))) (\<lambda>_. io_ok True)) s1 = (r, s2)"
          and s': "s' = drop_pin h s2"
          using res(2) Some by (auto simp: with_drop_def split: prod.splits)
        have cl: "clean s1 q = clean s q" for q using same by (simp add: clean_def)
        have "flushed (add_mset h H) s1 s2 \<and> (r = Inr b \<longrightarrow> clean s2 pg \<and> (\<forall>q. clean s1 q \<longrightarrow> clean s2 q))"
          using s2
        proof (cases rule: io_thenE)
          case (ok u s3)
          from ok(1) have [simp]: "s3 = s1" by (auto dest: latch_result)
          have m: "map_of (p_pages s1) pg = Some (unat (pb_index h))"
            using held_frame(1) [OF inv1, of h] h by simp
          from ok(2) show ?thesis
            by (cases rule: io_thenE) (use flush_resident_inv [OF inv1 m] in \<open>auto\<close>)
        qed (use inv1 in \<open>auto simp: flushed_def dest!: latch_result\<close>)
        then show ?thesis
          using flushed_drop [of h H s1 s2] same s' cl by (simp add: flushed_def)
      qed
    qed
  qed (use inv in \<open>auto simp: flushed_def dest!: lock_state_result\<close>)
  then show "flushed H s s'"
    and "r = Inr b \<Longrightarrow> clean s' pg \<and> (\<forall>q. clean s q \<longrightarrow> clean s' q)" by simp_all
qed

lemma flush_pages_inv:
  "pinv H s \<Longrightarrow> flush_pages ops vs pgs s = (r, s') \<Longrightarrow>
   flushed H s s' \<and> (r = Inr () \<longrightarrow> (\<forall>q. clean s q \<or> q \<in> set pgs \<longrightarrow> clean s' q))"
proof (induction pgs arbitrary: s)
  case Nil
  then show ?case by (simp add: flushed_def)
next
  case (Cons pg pgs)
  from Cons.prems(2) have "io_then (pool_flush_page ops vs pg) (\<lambda>_. flush_pages ops vs pgs) s = (r, s')" by simp
  then show ?case
  proof (cases rule: io_thenE)
    case (err e)
    with pool_flush_page_inv(1) [OF Cons.prems(1) err(1)] show ?thesis by simp
  next
    case (ok b s1)
    note fp = pool_flush_page_inv [OF Cons.prems(1) ok(1)]
    with Cons.IH [OF _ ok(2)] show ?thesis by (auto simp: flushed_def)
  qed
qed

lemma pool_flush_all_inv:
  assumes inv: "pinv H s" and r: "pool_flush_all ops vs s = (r, s')"
  shows "pinv H s'" "view s' = view s"
    and "r = Inr () \<Longrightarrow> contents (p_store s') = view s"
proof -
  have "pinv H s' \<and> view s' = view s \<and> (r = Inr () \<longrightarrow> contents (p_store s') = view s)"
    using r unfolding pool_flush_all_def
  proof (cases rule: io_thenE)
    case (ok u s0)
    from ok(1) have [simp]: "s0 = s" by (auto dest: lock_state_result)
    from ok(2) show ?thesis
    proof (cases rule: io_thenE)
      case (err e)
      with flush_pages_inv [OF inv] inv show ?thesis by (force simp: flushed_def)
    next
      case fl: (ok u s1)
      have f: "pinv H s1" "view s1 = view s" and c: "\<And>q. clean s q \<or> q \<in> fst ` set (p_pages s) \<Longrightarrow> clean s1 q"
        using flush_pages_inv [OF _ fl(1)] inv by (auto simp: flushed_def)
      have all: "contents (p_store s1) = view s"
      proof
        fix q
        have "clean s q \<or> q \<in> fst ` set (p_pages s)"
          using map_of_eq_None_iff [of "p_pages s" q] by (auto simp: clean_def pool_view_def)
        with c f(2) show "contents (p_store s1) q = view s q" by (auto simp: clean_def)
      qed
      from fl(2) obtain r0 st where m: "sync ops (p_store s1) = (r0, st)" "s' = s1\<lparr>p_store := st\<rparr>"
        by (rule on_store_cases) auto
      have "wf st" "contents st = contents (p_store s1)"
        using sync_any [OF _ m(1)] f(1) by (auto simp: pool_inv_def)
      with same_contents [OF f(1), of st] all m(2) f(2) show ?thesis by simp
    qed
  qed (use inv in \<open>auto dest: lock_state_result\<close>)
  then show "pinv H s'" "view s' = view s"
    and "r = Inr () \<Longrightarrow> contents (p_store s') = view s" by auto
qed

end

section \<open>Sequences of calls\<close>

text \<open>
  An event is one public call with its arguments and what it returned; \<open>'a\<close> is the type of
  the values the clients' callbacks compute from a page. Callbacks have the form of
  \<open>pin_read\<close> and \<open>pin_write\<close>: no value when they panic.
\<close>

datatype 'a pool_event =
    PinCall u32 "buffer_error + pinned_buffer"
  | NewCall "buffer_error + pinned_buffer"
  | ReadCall pinned_buffer "page \<Rightarrow> 'a option" "buffer_error + 'a"
  | WriteCall pinned_buffer "page \<Rightarrow> 'a option \<times> page" "buffer_error + 'a"
  | DropCall pinned_buffer
  | FlushPageCall u32 "buffer_error + bool"
  | FlushAllCall "buffer_error + unit"

inductive labelled_run :: "('e \<Rightarrow> 's \<Rightarrow> 's \<Rightarrow> bool) \<Rightarrow> 's \<Rightarrow> 'e list \<Rightarrow> 's \<Rightarrow> bool"
  for step :: "'e \<Rightarrow> 's \<Rightarrow> 's \<Rightarrow> bool" where
  labelled_start: "labelled_run step s [] s"
| labelled_step: "labelled_run step s es s1 \<Longrightarrow> step e s1 s2 \<Longrightarrow> labelled_run step s (es @ [e]) s2"

text \<open>
  Clients of one pool, with the multiset of pins they hold. A pin is only used or dropped
  while it is held, which Rust's ownership of \<^verbatim>\<open>PinnedBuffer\<close> enforces, and write callbacks
  map pages to pages.
\<close>

inductive pool_call :: "'s page_store_ops \<Rightarrow> 'v victim_strategy \<Rightarrow> 'a pool_event \<Rightarrow>
    ('s, 'v) pool \<times> pinned_buffer multiset \<Rightarrow> ('s, 'v) pool \<times> pinned_buffer multiset \<Rightarrow> bool"
  for so :: "'s page_store_ops" and vs :: "'v victim_strategy" where
  pin_ok: "pool_pin so vs pg s = (Inr h, s') \<Longrightarrow> pool_call so vs (PinCall pg (Inr h)) (s, H) (s', add_mset h H)"
| pin_err: "pool_pin so vs pg s = (Inl e, s') \<Longrightarrow> pool_call so vs (PinCall pg (Inl e)) (s, H) (s', H)"
| new_ok: "pool_new_page so vs s = (Inr h, s') \<Longrightarrow> pool_call so vs (NewCall (Inr h)) (s, H) (s', add_mset h H)"
| new_err: "pool_new_page so vs s = (Inl e, s') \<Longrightarrow> pool_call so vs (NewCall (Inl e)) (s, H) (s', H)"
| read_call: "h \<in># H \<Longrightarrow> pin_read h f s = (r, s') \<Longrightarrow> pool_call so vs (ReadCall h f r) (s, H) (s', H)"
| write_call: "h \<in># H \<Longrightarrow> pin_write h f s = (r, s') \<Longrightarrow>
    (\<And>d. length d = PAGE_SIZE \<Longrightarrow> length (snd (f d)) = PAGE_SIZE) \<Longrightarrow>
    pool_call so vs (WriteCall h f r) (s, H) (s', H)"
| drop_handle: "pool_call so vs (DropCall h) (s, add_mset h H) (drop_pin h s, H)"
| flush_page: "pool_flush_page so vs pg s = (rb, s') \<Longrightarrow> pool_call so vs (FlushPageCall pg rb) (s, H) (s', H)"
| flush_all: "pool_flush_all so vs s = (ru, s') \<Longrightarrow> pool_call so vs (FlushAllCall ru) (s, H) (s', H)"

text \<open>
  The abstract specification has no frames, no store and no victims: a map from page
  identifiers to pages, the pins held, and whether some call has unwound from a panic. Every
  call's effect on the map is fixed by its arguments and its result, and a read or a write
  returns what its callback makes of the map's own page; until a call has panicked, a held
  pin is never refused. Only a panicking \<^verbatim>\<open>new_page\<close> has a choice, since its page may
  already be allocated.
\<close>

type_synonym page_map = "(u32 \<Rightarrow> page option) \<times> pinned_buffer multiset \<times> bool"

definition callback_result :: "'a option \<Rightarrow> buffer_error + 'a" where
  "callback_result x = (case x of None \<Rightarrow> Inl Panicked | Some y \<Rightarrow> Inr y)"

inductive page_map_call :: "'a pool_event \<Rightarrow> page_map \<Rightarrow> page_map \<Rightarrow> bool" where
  map_pin: "m (pb_page h) = Some d \<Longrightarrow>
    page_map_call (PinCall (pb_page h) (Inr h)) (m, H, x) (m, add_mset h H, x)"
| map_pin_err: "page_map_call (PinCall pg (Inl e)) (m, H, x) (m, H, x \<or> e = Panicked)"
| map_new: "m (pb_page h) = None \<Longrightarrow>
    page_map_call (NewCall (Inr h)) (m, H, x) (m(pb_page h \<mapsto> zero_page), add_mset h H, x)"
| map_new_err: "page_map_call (NewCall (Inl e)) (m, H, x) (m, H, x \<or> e = Panicked)"
| map_new_unwound: "m pg = None \<Longrightarrow>
    page_map_call (NewCall (Inl Panicked)) (m, H, x) (m(pg \<mapsto> zero_page), H, True)"
| map_read: "h \<in># H \<Longrightarrow> m (pb_page h) = Some d \<Longrightarrow>
    page_map_call (ReadCall h f (callback_result (f d))) (m, H, x) (m, H, x)"
| map_read_refused: "h \<in># H \<Longrightarrow> page_map_call (ReadCall h f (Inl Poisoned)) (m, H, True) (m, H, True)"
| map_write: "h \<in># H \<Longrightarrow> m (pb_page h) = Some d \<Longrightarrow> f d = (y, d') \<Longrightarrow>
    page_map_call (WriteCall h f (callback_result y)) (m, H, x) (m(pb_page h \<mapsto> d'), H, x \<or> y = None)"
| map_write_refused: "h \<in># H \<Longrightarrow> page_map_call (WriteCall h f (Inl Poisoned)) (m, H, True) (m, H, True)"
| map_drop: "page_map_call (DropCall h) (m, add_mset h H, x) (m, H, x)"
| map_flush_page: "page_map_call (FlushPageCall pg rb) (m, H, x) (m, H, x)"
| map_flush_all: "page_map_call (FlushAllCall ru) (m, H, x) (m, H, x)"

subsection \<open>No lock is poisoned before a call panics\<close>

definition unpoisoned :: "('s, 'v) pool \<Rightarrow> bool" where
  "unpoisoned s \<longleftrightarrow> \<not> p_poisoned s \<and> (\<forall>d \<in> set (p_descs s). \<not> d_poisoned d)"

definition poisons_by_panic :: "(('s, 'v) pool, buffer_error, 'a) io \<Rightarrow> bool" where
  "poisons_by_panic m \<longleftrightarrow> (\<forall>s r s'. unpoisoned s \<longrightarrow> m s = (r, s') \<longrightarrow> unpoisoned s' \<or> r = Inl Panicked)"

lemma poisons_then [intro]:
  "poisons_by_panic m \<Longrightarrow> (\<And>x. poisons_by_panic (f x)) \<Longrightarrow> poisons_by_panic (io_then m f)"
  unfolding poisons_by_panic_def by (blast elim: io_thenE)

lemma unpoisoned_fields [simp]:
  "unpoisoned (s\<lparr>p_store := st\<rparr>) = unpoisoned s" "unpoisoned (s\<lparr>p_frames := fs\<rparr>) = unpoisoned s"
  "unpoisoned (s\<lparr>p_pages := ps\<rparr>) = unpoisoned s" "unpoisoned (s\<lparr>p_strategy := v\<rparr>) = unpoisoned s"
  by (simp_all add: unpoisoned_def)

lemma unpoisoned_upd_desc:
  assumes "unpoisoned s" "\<And>d. d_poisoned (f d) = d_poisoned d"
  shows "unpoisoned (upd_desc i f s)"
proof (cases "i < length (p_descs s)")
  case True
  with assms show ?thesis
    by (auto simp: unpoisoned_def upd_desc_def dest!: set_update_subset_insert [THEN subsetD])
next
  case False
  then have "upd_desc i f s = s" by (simp add: upd_desc_def list_update_beyond)
  with assms(1) show ?thesis by simp
qed

lemma unpoisoned_drop_pin: "unpoisoned s \<Longrightarrow> unpoisoned (drop_pin h s)"
  by (simp add: drop_pin_def unpoisoned_upd_desc)

lemma unpoisoned_publish: "unpoisoned s \<Longrightarrow> unpoisoned (publish i pg d s)"
  by (simp add: publish_def install_def Let_def set_frame_def unpoisoned_upd_desc)

lemma poisons_on_store [intro]: "poisons_by_panic (on_store m)"
  by (auto simp: poisons_by_panic_def on_store_def unpoisoned_def split: prod.splits)

lemma poisons_locks [intro]:
  "poisons_by_panic lock_state" "poisons_by_panic (check i)" "poisons_by_panic (latch h)" "poisons_by_panic (io_ok x)"
  by (auto simp: poisons_by_panic_def lock_state_def check_def latch_def io_ok_def split: if_splits)

lemma poisons_victim [intro]: "poisons_by_panic (state_victim vs)"
  by (auto simp: poisons_by_panic_def state_victim_def unpoisoned_def split: if_splits option.splits)

lemma poisons_pins [intro]: "poisons_by_panic (resident_pin vs b pg)" "poisons_by_panic (loaded_pin vs i pg)"
  by (auto simp: poisons_by_panic_def resident_pin_def loaded_pin_def Let_def unpoisoned_upd_desc
      split: if_splits option.splits)

lemma poisons_with_victim [intro]: "poisons_by_panic m \<Longrightarrow> poisons_by_panic (with_victim i m)"
  using poisons_then [OF poisons_locks(2), of "\<lambda>_. m" i]
  by (auto simp: poisons_by_panic_def with_victim_def split: if_splits)

lemma poisons_with_drop [intro]: "poisons_by_panic m \<Longrightarrow> poisons_by_panic (with_drop h m)"
  by (auto simp: poisons_by_panic_def with_drop_def intro: unpoisoned_drop_pin split: prod.splits)

lemma poisons_flush_victim [intro]: "poisons_by_panic (flush_victim so i)"
  using poisons_on_store by (auto simp: poisons_by_panic_def flush_victim_def split: if_splits option.splits)

lemma poisons_return [intro]: "(\<And>s. unpoisoned s \<Longrightarrow> unpoisoned (f s)) \<Longrightarrow> poisons_by_panic (\<lambda>s. (Inr x, f s))"
  by (simp add: poisons_by_panic_def)

lemma poisons_case_option:
  "poisons_by_panic m \<Longrightarrow> (\<And>h. poisons_by_panic (f h)) \<Longrightarrow> poisons_by_panic (case r of None \<Rightarrow> m | Some h \<Rightarrow> f h)"
  by (cases r) simp_all

lemmas poisons_intros = poisons_then poisons_case_option poisons_locks poisons_on_store poisons_victim poisons_pins
  poisons_with_victim poisons_with_drop poisons_flush_victim poisons_return unpoisoned_publish

lemma poisons_pin: "poisons_by_panic (pool_pin so vs pg)"
  unfolding pool_pin_def by (intro poisons_intros)

lemma poisons_new_page: "poisons_by_panic (pool_new_page so vs)"
  unfolding pool_new_page_def by (intro poisons_intros)

lemma poisons_flush_resident: "poisons_by_panic (flush_resident so pg i)"
  unfolding poisons_by_panic_def flush_resident_def on_store_def
  by (auto simp: unpoisoned_upd_desc elim!: io_thenE split: if_splits prod.splits)

lemma poisons_flush_page: "poisons_by_panic (pool_flush_page so vs pg)"
  unfolding pool_flush_page_def by (intro poisons_intros poisons_flush_resident)

lemma flush_page_panic_free: "pool_flush_page so vs pg s \<noteq> (Inl Panicked, s')"
  by (auto simp: pool_flush_page_def with_drop_def flush_resident_def resident_pin_def Let_def lock_state_def
      latch_def check_def on_store_def map_err_def io_ok_def elim!: io_thenE
      split: if_splits option.splits prod.splits sum.splits)

lemma flush_pages_panic_free: "flush_pages so vs pgs s \<noteq> (Inl Panicked, s')"
  by (induction pgs arbitrary: s) (auto simp: io_ok_def flush_page_panic_free elim!: io_thenE)

lemma flush_page_unpoisoned: "pool_flush_page so vs pg s = (r, s') \<Longrightarrow> unpoisoned s \<Longrightarrow> unpoisoned s'"
  using poisons_flush_page flush_page_panic_free unfolding poisons_by_panic_def by metis

lemma flush_pages_unpoisoned: "flush_pages so vs pgs s = (r, s') \<Longrightarrow> unpoisoned s \<Longrightarrow> unpoisoned s'"
  by (induction pgs arbitrary: s) (auto simp: io_ok_def elim!: io_thenE dest: flush_page_unpoisoned)

lemma flush_all_unpoisoned: "pool_flush_all so vs s = (r, s') \<Longrightarrow> unpoisoned s \<Longrightarrow> unpoisoned s'"
  unfolding pool_flush_all_def
  by (auto simp: lock_state_def on_store_def unpoisoned_def dest!: flush_pages_unpoisoned
      elim!: io_thenE split: if_splits prod.splits)

text \<open>Reads and writes take the frame's lock, so an unpoisoned pool never refuses them.\<close>

lemma unpoisoned_latch:
  "unpoisoned s \<Longrightarrow> unat (pb_index h) < length (p_descs s) \<Longrightarrow> latch h s = (Inr (), s)"
  by (simp add: latch_def check_def unpoisoned_def)

lemma read_unpoisoned:
  "unpoisoned s \<Longrightarrow> unat (pb_index h) < length (p_descs s) \<Longrightarrow>
   pin_read h f s = (callback_result (f (p_frames s ! unat (pb_index h))), s)"
  by (simp add: pin_read_def io_then_def unpoisoned_latch callback_result_def split: option.split)

lemma write_unpoisoned:
  assumes "unpoisoned s" "unat (pb_index h) < length (p_descs s)" "pin_write h f s = (r, s')"
  shows "r \<noteq> Inl Poisoned" and "r = Inl Panicked \<or> unpoisoned s'"
  using assms unpoisoned_upd_desc [OF assms(1), of "\<lambda>d. d\<lparr>d_dirty := True\<rparr>" "unat (pb_index h)"]
  by (auto simp: pin_write_def io_then_def unpoisoned_latch Let_def set_frame_def unpoisoned_def
      split: prod.splits option.splits)

subsection \<open>The simulation\<close>

text \<open>\<open>tracks x s\<close>: no lock is poisoned as long as the specification has seen no panic.\<close>

definition tracks :: "bool \<Rightarrow> ('s, 'v) pool \<Rightarrow> bool" where
  "tracks x s \<longleftrightarrow> x \<or> unpoisoned s"

lemma tracks_io:
  "poisons_by_panic m \<Longrightarrow> m s = (r, s') \<Longrightarrow> tracks x s \<Longrightarrow> tracks (x \<or> r = Inl Panicked) s'"
  by (auto simp: poisons_by_panic_def tracks_def)

context page_store
begin

lemma pin_simulates:
  assumes inv: "pinv H s" and t: "tracks x s" and r: "pool_pin ops vs pg s = (r, s')"
  defines "H' \<equiv> (case r of Inr h \<Rightarrow> add_mset h H | Inl e \<Rightarrow> H)" and "x' \<equiv> x \<or> r = Inl Panicked"
  shows "pinv H' s' \<and> page_map_call (PinCall pg r) (view s, H, x) (view s', H', x') \<and> tracks x' s'"
proof (cases r)
  case (Inl e)
  with pool_pin_inv [OF inv r] tracks_io [OF poisons_pin r t] show ?thesis
    using map_pin_err [of pg e "view s" H x] by (simp add: pinned_def H'_def x'_def)
next
  case (Inr h)
  with pool_pin_inv [OF inv r] have p: "pb_page h = pg" "view s' = view s" "pinv (add_mset h H) s'"
    by (simp_all add: pinned_def)
  then have "view s (pb_page h) = Some (p_frames s' ! unat (pb_index h))"
    using held_frame(4) [OF p(3), of h] by simp
  from map_pin [of "view s", OF this, of H x] p tracks_io [OF poisons_pin r t] Inr show ?thesis
    by (simp add: H'_def x'_def)
qed

lemma new_page_simulates:
  assumes inv: "pinv H s" and t: "tracks x s" and r: "pool_new_page ops vs s = (r, s')"
  defines "H' \<equiv> (case r of Inr h \<Rightarrow> add_mset h H | Inl e \<Rightarrow> H)" and "x' \<equiv> x \<or> r = Inl Panicked"
  shows "pinv H' s' \<and> page_map_call (NewCall r) (view s, H, x) (view s', H', x') \<and> tracks x' s'"
proof (cases r)
  case (Inl e)
  have "view s' = view s \<or> e = Panicked \<and> (\<exists>pg. view s pg = None \<and> view s' = (view s)(pg \<mapsto> zero_page))"
    using pool_new_page_inv [OF inv r] Inl by (simp add: created_def)
  then have "page_map_call (NewCall r) (view s, H, x) (view s', H, x')"
    using map_new_err [of e "view s" H x] map_new_unwound [of "view s" _ H x] Inl by (auto simp: x'_def)
  with pool_new_page_inv [OF inv r] tracks_io [OF poisons_new_page r t] Inl show ?thesis
    by (simp add: created_def H'_def x'_def)
next
  case (Inr h)
  with pool_new_page_inv [OF inv r] tracks_io [OF poisons_new_page r t] map_new [of "view s" h] show ?thesis
    by (simp add: created_def H'_def x'_def)
qed

lemma read_simulates:
  assumes inv: "pinv H s" and t: "tracks x s" and h: "h \<in># H" and r: "pin_read h f s = (r, s')"
  shows "s' = s \<and> page_map_call (ReadCall h f r) (view s, H, x) (view s, H, x)"
proof -
  note hf = held_frame [OF inv h]
  note res = pin_read_result [OF inv h r]
  have "page_map_call (ReadCall h f r) (view s, H, x) (view s, H, x)"
  proof (cases x)
    case True
    with res(2) map_read [OF h] map_read_refused [OF h] show ?thesis by (auto simp: callback_result_def)
  next
    case False
    with t have "unpoisoned s" by (simp add: tracks_def)
    from read_unpoisoned [OF this hf(2), of f] r
    have "r = callback_result (f (p_frames s ! unat (pb_index h)))" by simp
    with map_read [of h H "view s", OF h hf(4), of f x] show ?thesis by simp
  qed
  with res(1) show ?thesis by simp
qed

lemma write_simulates:
  assumes inv: "pinv H s" and t: "tracks x s" and h: "h \<in># H" and r: "pin_write h f s = (r, s')"
    and f: "\<And>d. length d = PAGE_SIZE \<Longrightarrow> length (snd (f d)) = PAGE_SIZE"
  shows "\<exists>x'. pinv H s' \<and> page_map_call (WriteCall h f r) (view s, H, x) (view s', H, x') \<and> tracks x' s'"
proof -
  note w = pin_write_result [OF inv h r f]
  note hf = held_frame [OF inv h]
  show ?thesis
  proof (cases "r = Inl Poisoned")
    case True
    with write_unpoisoned(1) [OF _ hf(2) r] t have "x" by (auto simp: tracks_def)
    moreover have "view s' = view s" using True w(2) by (auto simp: wrote_def split: option.splits)
    ultimately show ?thesis using w(1) True map_write_refused [OF h, of f "view s"] by (auto simp: tracks_def)
  next
    case False
    with w(2) obtain d where d: "view s (pb_page h) = Some d" "view s' = (view s)(pb_page h \<mapsto> snd (f d))"
      "r = callback_result (fst (f d))" by (auto simp: wrote_def callback_result_def)
    have "tracks (x \<or> fst (f d) = None) s'"
      using write_unpoisoned(2) [OF _ hf(2) r] t d(3) by (auto simp: tracks_def callback_result_def split: option.splits)
    moreover have "page_map_call (WriteCall h f r) (view s, H, x) (view s', H, x \<or> fst (f d) = None)"
      using map_write [of h H "view s" d f "fst (f d)" "snd (f d)" x] h d by simp
    ultimately show ?thesis using w(1) by blast
  qed
qed

lemma call_simulates:
  assumes "pool_call ops vs e (s, H) (s', H')" and inv: "pinv H s" and t: "tracks x s"
  shows "\<exists>x'. pinv H' s' \<and> page_map_call e (view s, H, x) (view s', H', x') \<and> tracks x' s'"
  using assms(1)
proof cases
  case (pin_ok pg h)
  with pin_simulates [OF inv t pin_ok(3)] show ?thesis by auto
next
  case (pin_err pg e)
  with pin_simulates [OF inv t pin_err(3)] show ?thesis by auto
next
  case (new_ok h)
  with new_page_simulates [OF inv t new_ok(3)] show ?thesis by auto
next
  case (new_err e)
  with new_page_simulates [OF inv t new_err(3)] show ?thesis by auto
next
  case (read_call h f r)
  with read_simulates [OF inv t read_call(3,4)] inv t show ?thesis by auto
next
  case (write_call h f r)
  with write_simulates [OF inv t write_call(3,4,5)] show ?thesis by simp
next
  case (drop_handle h)
  with drop_pin_inv [of wf contents h H' s] inv t map_drop [of h "view s" H' x] unpoisoned_drop_pin [of s h]
  show ?thesis by (auto simp: tracks_def)
next
  case (flush_page pg rb)
  with pool_flush_page_inv(1) [OF inv flush_page(3)] flush_page_unpoisoned [OF flush_page(3)] t
    map_flush_page [of pg rb "view s" H x] show ?thesis by (auto simp: flushed_def tracks_def)
next
  case (flush_all ru)
  with pool_flush_all_inv(1,2) [OF inv flush_all(3)] flush_all_unpoisoned [OF flush_all(3)] t
    map_flush_all [of ru "view s" H x] show ?thesis by (auto simp: tracks_def)
qed

lemma run_simulates:
  fixes es :: "'a pool_event list"
  assumes "labelled_run (pool_call ops vs) (s0, H0) es (s, H)" and "pinv H0 s0" "unpoisoned s0"
  shows "\<exists>x. pinv H s \<and> labelled_run page_map_call (view s0, H0, False) es (view s, H, x) \<and> tracks x s"
  using assms(1)
proof (induction "(s0, H0)" es "(s, H)" arbitrary: s H rule: labelled_run.induct)
  case labelled_start
  with assms(2,3) show ?case by (auto simp: tracks_def intro: labelled_run.intros)
next
  case (labelled_step es s1 e)
  obtain s' H' where [simp]: "s1 = (s', H')" by fastforce
  from labelled_step obtain x where x: "pinv H' s'" "labelled_run page_map_call (view s0, H0, False) es (view s', H', x)"
    "tracks x s'" by auto
  from labelled_step(3) have "pool_call ops vs e (s', H') (s, H)" by simp
  from call_simulates [OF this x(1,3)] obtain x' where "pinv H s"
    "page_map_call e (view s', H', x) (view s, H, x')" "tracks x' s" by blast
  with labelled_run.labelled_step [OF x(2)] show ?case by blast
qed

lemma run_flush_all:
  fixes es :: "'a pool_event list"
  assumes "labelled_run (pool_call ops vs) (s0, H0) es (s, H)" "pinv H0 s0" "unpoisoned s0"
    and "es \<noteq> []" "last es = FlushAllCall (Inr ())"
  shows "contents (p_store s) = view s"
proof -
  from assms(1,4,5) obtain es' :: "'a pool_event list" and s1 H1 where run: "labelled_run (pool_call ops vs) (s0, H0) es' (s1, H1)"
    and c: "pool_call ops vs (FlushAllCall (Inr ()) :: 'a pool_event) (s1, H1) (s, H)"
    by cases auto
  from c have fl: "pool_flush_all ops vs s1 = (Inr (), s)" by (cases rule: pool_call.cases) auto
  from run_simulates [OF run assms(2,3)] have "pinv H1 s1" by blast
  from pool_flush_all_inv(2,3) [OF this fl] show ?thesis by simp
qed

end

lemma pool_with_strategy_inv:
  assumes "pool_with_strategy ds capacity st v = Inr s" "swf st"
  shows "pool_inv swf c {#} s" and "pool_view c s = c st" and "length (p_descs s) = capacity"
    and "p_strategy s = v" and "\<not> p_poisoned s" and "\<forall>d \<in> set (p_descs s). \<not> d_poisoned d"
proof -
  from assms(1) have s: "s = \<lparr>p_store = st, p_frames = replicate capacity zero_page,
      p_descs = replicate capacity free_desc, p_pages = [], p_strategy = v, p_poisoned = False\<rparr>"
    and c: "capacity \<noteq> 0" "capacity - 1 < 2 ^ 32"
    by (auto simp: pool_with_strategy_def validate_capacity_def split: if_splits)
  then show "pool_inv swf c {#} s"
    using assms(2) by (simp add: pool_inv_def frames_inv_def coherent_def free_desc_def [THEN arg_cong, of d_pins])
  show "pool_view c s = c st" "length (p_descs s) = capacity" "p_strategy s = v" "\<not> p_poisoned s"
    "\<forall>d \<in> set (p_descs s). \<not> d_poisoned d"
    by (simp_all add: s pool_view_def fun_eq_iff free_desc_def)
qed

section \<open>Progress over a reliable store and a sound strategy\<close>

definition pool_healthy :: "(nat \<Rightarrow> 'v \<Rightarrow> bool) \<Rightarrow> ('s, 'v) pool \<Rightarrow> bool" where
  "pool_healthy sinv s \<longleftrightarrow> \<not> p_poisoned s \<and> (\<forall>d \<in> set (p_descs s). \<not> d_poisoned d) \<and>
     sinv (length (p_descs s)) (p_strategy s)"

locale reliable_pool = reliable_page_store ops wf contents + sound_strategy strat sinv
  for ops :: "'s page_store_ops" and wf :: "'s \<Rightarrow> bool" and contents :: "'s \<Rightarrow> u32 \<Rightarrow> page option"
    and strat :: "'v victim_strategy" and sinv :: "nat \<Rightarrow> 'v \<Rightarrow> bool"
begin

abbreviation "healthy \<equiv> pool_healthy sinv"

lemmas healthy_def = pool_healthy_def [of sinv]

lemma state_victim_progress:
  assumes inv: "pool_inv wf contents H s" and h: "healthy s"
    and j: "j < length (p_descs s)" "d_pins (p_descs s ! j) = 0"
  shows "\<exists>i s1. state_victim strat s = (Inr i, s1) \<and> healthy s1"
proof (cases "length (p_pages s) < length (p_descs s)")
  case True
  with h show ?thesis by (simp add: state_victim_def)
next
  case False
  have "unat (word_of_nat j :: u32) = j"
    using inv j(1) by (auto simp: pool_inv_def intro: unat_frame_index)
  then have "can_evict (p_descs s) (word_of_nat j)" using j by (simp add: can_evict_def)
  moreover have "unat (word_of_nat j :: u32) < length (p_descs s)"
    using \<open>unat (word_of_nat j :: u32) = j\<close> j by simp
  moreover have "sinv (length (p_descs s)) (p_strategy s)" using h by (simp add: healthy_def)
  ultimately obtain b v where "victim strat (can_evict (p_descs s)) (p_strategy s) = Some (Some b, v)"
    "sinv (length (p_descs s)) v" "can_evict (p_descs s) b"
    using victim_finds by metis
  with False h show ?thesis by (simp add: state_victim_def healthy_def)
qed

lemma flush_victim_progress:
  assumes inv: "pool_inv wf contents H s" and i: "i < length (p_descs s)"
  shows "\<exists>st. flush_victim ops i s = (Inr (), s\<lparr>p_store := st\<rparr>)"
proof (cases "d_dirty (p_descs s ! i) \<and> desc_page_id (p_descs s ! i) \<noteq> None")
  case True
  then obtain pg where pg: "desc_page_id (p_descs s ! i) = Some pg" by auto
  with inv i have "map_of (p_pages s) pg = Some i" by (auto simp: pool_inv_def frames_inv_mapped)
  with inv have "contents (p_store s) pg \<noteq> None" "wf (p_store s)" by (auto simp: pool_inv_def coherent_def)
  with write_reliable frame_page_size [OF inv i]
  obtain st where "write_page ops pg (p_frames s ! i) (p_store s) = (Inr (), st)" by blast
  with True pg show ?thesis by (intro exI [of _ st]) (simp add: flush_victim_def on_store_def)
next
  case False
  have "s = s\<lparr>p_store := p_store s\<rparr>" by simp
  moreover have "flush_victim ops i s = (Inr (), s)"
    using False by (auto simp: flush_victim_def split: option.split)
  ultimately show ?thesis by metis
qed

lemma loaded_pin_progress:
  assumes "healthy s" "frames_inv H s" "i < length (p_descs s)"
  shows "\<exists>s'. loaded_pin strat i pg s = (Inr \<lparr>pb_index = word_of_nat i, pb_page = pg\<rparr>, s') \<and> healthy s'"
proof -
  have "unat (word_of_nat i :: u32) < length (p_descs s)" using unat_frame_index [OF assms(2,3)] assms(3) by simp
  with load_ok assms(1) obtain v where "load strat (word_of_nat i) (p_strategy s) = Some v"
    "sinv (length (p_descs s)) v" unfolding healthy_def by blast
  with assms(1) show ?thesis by (simp add: loaded_pin_def healthy_def)
qed

lemma pin_miss_progress:
  assumes inv: "pool_inv wf contents H s" and h: "healthy s" and v: "victim_slot i s"
    and pg: "map_of (p_pages s) pg = None" "contents (p_store s) pg = Some d"
  shows "\<exists>hd s'. io_then (on_store (read_page ops pg)) (\<lambda>incoming.
         io_then (with_victim i (io_then (flush_victim ops i) (\<lambda>_ s. (Inr (), publish i pg incoming s))))
           (\<lambda>_. loaded_pin strat i pg)) s = (Inr hd, s') \<and> healthy s'"
proof -
  have w: "wf (p_store s)" using inv by (simp add: pool_inv_def)
  with read_reliable pg(2) obtain st where st: "read_page ops pg (p_store s) = (Inr d, st)" by blast
  let ?s1 = "s\<lparr>p_store := st\<rparr>"
  have r: "on_store (read_page ops pg) s = (Inr d, ?s1)" using st by (simp add: on_store_def)
  note inv1 = pool_read_store(1) [OF inv r]
  have i: "i < length (p_descs s)" using v by (simp add: victim_slot_def)
  obtain st2 where fl: "flush_victim ops i ?s1 = (Inr (), s\<lparr>p_store := st2\<rparr>)"
    using flush_victim_progress [OF inv1, of i] i by auto
  let ?s2 = "publish i pg d (s\<lparr>p_store := st2\<rparr>)"
  have "\<not> p_poisoned s" "\<not> d_poisoned (p_descs s ! i)" using h i by (auto simp: healthy_def)
  then have wv: "with_victim i (io_then (flush_victim ops i) (\<lambda>_ s. (Inr (), publish i pg d s))) ?s1 = (Inr (), ?s2)"
    using v fl by (simp add: with_victim_def victim_slot_def check_def io_then_def)
  have d: "length d = PAGE_SIZE" using w pg(2) by (rule contents_page)
  have "victim_slot i ?s1" "map_of (p_pages ?s1) pg = None" using v pg by (simp_all add: victim_slot_def)
  moreover have "contents (p_store ?s1) pg = Some d" using pool_read_store(4) [OF inv r, of d] by simp
  ultimately have "pool_inv wf contents (add_mset \<lparr>pb_index = word_of_nat i, pb_page = pg\<rparr> H) ?s2"
    using replace_inv(2) [OF inv1 _ _ _ d wv] by simp
  then have fi: "frames_inv (add_mset \<lparr>pb_index = word_of_nat i, pb_page = pg\<rparr> H) ?s2" by (simp add: pool_inv_def)
  have len: "length (p_frames s) = length (p_descs s)" using inv by (simp add: pool_inv_def frames_inv_def)
  note f = publish_fields [of i "s\<lparr>p_store := st2\<rparr>" pg d, simplified, OF i len]
  have "healthy ?s2" using h i by (auto simp: healthy_def f dest!: set_update_subset_insert [THEN subsetD])
  from loaded_pin_progress [OF this fi, of i pg] i f
  obtain s' where "loaded_pin strat i pg ?s2 = (Inr \<lparr>pb_index = word_of_nat i, pb_page = pg\<rparr>, s')" "healthy s'"
    by auto
  with r wv show ?thesis by (simp add: io_then_def)
qed

lemma resident_pin_progress:
  assumes inv: "pool_inv wf contents H s" and h: "healthy s"
    and m: "map_of (p_pages s) pg = Some i" and o: "d_pins (p_descs s ! i) \<noteq> - 1"
  shows "\<exists>hd s'. resident_pin strat True pg s = (Inr (Some hd), s') \<and> healthy s'"
proof -
  have i: "i < length (p_descs s)" "unat (word_of_nat i :: u32) = i"
    using inv m unat_frame_index by (auto simp: pool_inv_def frames_inv_mapped)
  moreover have "sinv (length (p_descs s)) (p_strategy s)" using h by (simp add: healthy_def)
  ultimately obtain v where v: "access strat (word_of_nat i) (p_strategy s) = Some v"
    "sinv (length (p_descs s)) v" using access_ok [of "length (p_descs s)" _ "word_of_nat i"] by auto
  have "\<not> d_poisoned (p_descs s ! i)" using h i by (simp add: healthy_def)
  then have "healthy ((upd_desc i (\<lambda>d. d\<lparr>d_pins := d_pins d + 1\<rparr>) s)\<lparr>p_strategy := v\<rparr>)"
    using h v by (auto simp: healthy_def upd_desc_def dest!: set_update_subset_insert [THEN subsetD])
  with m o v show ?thesis by (simp add: resident_pin_def Let_def)
qed

lemma pool_pin_progress:
  assumes inv: "pool_inv wf contents H s" and h: "healthy s"
    and pg: "pool_view contents s pg = Some d"
    and room: "case map_of (p_pages s) pg of Some i \<Rightarrow> d_pins (p_descs s ! i) \<noteq> - 1
               | None \<Rightarrow> \<exists>j < length (p_descs s). d_pins (p_descs s ! j) = 0"
  shows "\<exists>hd s'. pool_pin ops strat pg s = (Inr hd, s') \<and> healthy s'"
proof -
  have lock: "lock_state s = (Inr (), s)" using h by (simp add: lock_state_def healthy_def)
  show ?thesis
  proof (cases "map_of (p_pages s) pg")
    case (Some i)
    with resident_pin_progress [OF inv h Some] room lock show ?thesis
      by (auto simp: pool_pin_def io_then_def)
  next
    case None
    with room obtain j where "j < length (p_descs s)" "d_pins (p_descs s ! j) = 0" by auto
    with state_victim_progress [OF inv h] obtain i s1 where sv: "state_victim strat s = (Inr i, s1)"
      and h1: "healthy s1" by blast
    have core: "same_core s s1" using sv by (rule state_victim_core)
    have fi: "frames_inv H s" using inv by (simp add: pool_inv_def)
    note slot = state_victim_slot [OF fi sv]
    have inv1: "pool_inv wf contents H s1" using inv same_core_inv(1) [OF core] by simp
    have pg1: "map_of (p_pages s1) pg = None" "contents (p_store s1) pg = Some d"
      using core None pg by (simp_all add: same_core_def pool_view_def)
    have chk: "check i s1 = (Inr (), s1)" using h1 slot by (auto simp: check_def healthy_def victim_slot_def)
    from pin_miss_progress [OF inv1 h1 slot pg1] lock None sv chk
    show ?thesis by (simp add: pool_pin_def resident_pin_def io_then_simps)
  qed
qed

end

interpretation mempool: reliable_pool memory_page_store memory_wf memory_contents clock_strategy clock_inv
  by unfold_locales

section \<open>Properties\<close>

text \<open>A one-frame pool over an empty memory store, for the witnesses.\<close>

definition small_pool :: "(memory_store, clock) pool" where
  "small_pool = \<lparr>p_store = memory_new, p_frames = [zero_page], p_descs = [free_desc], p_pages = [],
     p_strategy = \<lparr>referenced = [False], hand = 0\<rparr>, p_poisoned = False\<rparr>"

definition small_handle :: pinned_buffer where
  "small_handle = \<lparr>pb_index = 0, pb_page = 0\<rparr>"

definition small_pool1 :: "(memory_store, clock) pool" where
  "small_pool1 = \<lparr>p_store = \<lparr>ms_pages = [zero_page], ms_poisoned = False\<rparr>, p_frames = [zero_page],
     p_descs = [\<lparr>d_tag = 0, d_pins = 1, d_dirty = False, d_poisoned = False\<rparr>], p_pages = [(0, 0)],
     p_strategy = \<lparr>referenced = [True], hand = 0\<rparr>, p_poisoned = False\<rparr>"

lemmas pool_eval = pool_new_page_def pool_pin_def lock_state_def state_victim_def check_def with_victim_def
  flush_victim_def on_store_def publish_def install_def upd_desc_def set_frame_def loaded_pin_def
  resident_pin_def desc_page_id_def io_then_def Let_def memory_page_store_def memory_allocate_page_def
  memory_read_page_def memory_write_page_def memory_sync_def ms_lock_def u32_try_from_def clock_strategy_def
  clock_load_def clock_access_def

lemma small_pool_new: "pool_new 64 1 memory_new = Inr small_pool"
  by (simp add: pool_new_def validate_capacity_def layout_array_ok_def PAGE_SIZE_def clock_new_def
      pool_with_strategy_def small_pool_def)

lemma small_pool_new_page:
  "pool_new_page memory_page_store clock_strategy small_pool = (Inr small_handle, small_pool1)"
  by (simp add: pool_eval small_pool_def small_pool1_def small_handle_def free_desc_def memory_new_def)

lemma small_pool_inv: "pool_inv memory_wf memory_contents {#} small_pool"
  using pool_with_strategy_inv(1) [of 64 1 memory_new "\<lparr>referenced = [False], hand = 0\<rparr>" small_pool memory_wf]
    small_pool_new
  by (simp add: pool_new_def validate_capacity_def layout_array_ok_def PAGE_SIZE_def clock_new_def)

lemma small_pool1_inv: "pool_inv memory_wf memory_contents {#small_handle#} small_pool1"
  using mem.pool_new_page_inv [OF small_pool_inv small_pool_new_page] by (simp add: mem.created_def)

text \<open>
  C11: The buffer pool refines a page map, call by call. Whatever sequence of pins,
  allocations, reads, writes, drops and flushes clients issue, with any page store meeting the
  \<^verbatim>\<open>PageStore\<close> contract and any victim strategy (even a faulty or panicking one), the same
  events are a run of the map: a pin that is granted is on the requested, existing page, a new
  page is fresh and zero, a read returns its callback's value on the bytes last written to
  that page, a write changes its own page only, and every other call, each eviction and failed
  I/O included, changes nothing. No read or write is refused before a call has panicked. The
  pool invariant holds throughout, and after a successful \<^verbatim>\<open>flush_all\<close> the store holds
  exactly the pages of the map.
\<close>

theorem pool_refines_page_map:
  assumes "page_store so swf contents" "swf st" "pool_with_strategy ds capacity st v = Inr s0"
    and "labelled_run (pool_call so vs) (s0, {#}) es (s, H)"
  shows "pool_inv swf contents H s \<and>
    (\<exists>x. labelled_run page_map_call (contents st, {#}, False) es (pool_view contents s, H, x)) \<and>
    (es \<noteq> [] \<and> last es = FlushAllCall (Inr ()) \<longrightarrow> contents (p_store s) = pool_view contents s)"
proof -
  note i = pool_with_strategy_inv(1,2) [OF assms(3), where swf = swf and c = contents, OF assms(2)]
  have u: "unpoisoned s0"
    using pool_with_strategy_inv(5,6) [OF assms(3), where swf = swf, OF assms(2)] by (simp add: unpoisoned_def)
  from page_store.run_simulates [OF assms(1,4) i(1) u] page_store.run_flush_all [OF assms(1,4) i(1) u] i(2)
  show ?thesis by auto
qed

text \<open>
  One frame, two pages: page 0 gets a byte, is evicted by a new page, and is read back.
\<close>

theorem pool_refines_page_map_witness:
  "\<exists>x. labelled_run page_map_call (Map.empty, {#}, False)
     [NewCall (Inr small_handle),
      WriteCall small_handle (\<lambda>d. (Some 0, d[0 := 42])) (Inr 0),
      DropCall small_handle,
      NewCall (Inr \<lparr>pb_index = 0, pb_page = 1\<rparr>),
      DropCall \<lparr>pb_index = 0, pb_page = 1\<rparr>,
      PinCall 0 (Inr small_handle),
      ReadCall small_handle (\<lambda>d. Some (d ! 0)) (Inr (42 :: u8))]
     ([0 \<mapsto> zero_page[0 := 42], 1 \<mapsto> zero_page], {#small_handle#}, x)"
  (is "\<exists>x. labelled_run _ _ [?e1, ?e2, ?e3, ?e4, ?e5, ?e6, ?e7] _")
proof -
  let ?d = "zero_page[0 := 42]"
  let ?h = "\<lparr>pb_index = 0, pb_page = 1\<rparr>"
  let ?call = "pool_call memory_page_store clock_strategy :: u8 pool_event \<Rightarrow> _"
  let ?pool = "\<lambda>st fr tag pins b pgs. \<lparr>p_store = \<lparr>ms_pages = st, ms_poisoned = False\<rparr>, p_frames = [fr],
     p_descs = [\<lparr>d_tag = tag, d_pins = pins, d_dirty = b, d_poisoned = False\<rparr>], p_pages = pgs,
     p_strategy = \<lparr>referenced = [True], hand = 0\<rparr>, p_poisoned = False\<rparr> :: (memory_store, clock) pool"
  have 1: "?call ?e1 (small_pool, {#}) (small_pool1, {#small_handle#})"
    using pool_call.new_ok [OF small_pool_new_page] by blast
  have "pin_write small_handle (\<lambda>d. (Some 0, d[0 := 42])) small_pool1 = (Inr (0 :: u8), ?pool [zero_page] ?d 0 1 True [(0, 0)])"
    by (simp add: pin_write_def io_then_def latch_def check_def small_pool1_def small_handle_def Let_def
        upd_desc_def set_frame_def)
  then have 2: "?call ?e2 (small_pool1, {#small_handle#}) (?pool [zero_page] ?d 0 1 True [(0, 0)], {#small_handle#})"
    by (intro pool_call.write_call) simp_all
  have 3: "?call ?e3 (?pool [zero_page] ?d 0 1 True [(0, 0)], {#small_handle#}) (?pool [zero_page] ?d 0 0 True [(0, 0)], {#})"
    using pool_call.drop_handle [of _ _ small_handle "?pool [zero_page] ?d 0 1 True [(0, 0)]" "{#}"]
    by (simp add: drop_pin_def upd_desc_def small_handle_def)
  have "pool_new_page memory_page_store clock_strategy (?pool [zero_page] ?d 0 0 True [(0, 0)]) =
      (Inr ?h, ?pool [?d, zero_page] zero_page 1 1 False [(1, 0)])"
    by (simp add: pool_eval can_evict_def clock_victim_def)
  then have 4: "?call ?e4 (?pool [zero_page] ?d 0 0 True [(0, 0)], {#}) (?pool [?d, zero_page] zero_page 1 1 False [(1, 0)], {#?h#})"
    by (rule pool_call.new_ok)
  have 5: "?call ?e5 (?pool [?d, zero_page] zero_page 1 1 False [(1, 0)], {#?h#}) (?pool [?d, zero_page] zero_page 1 0 False [(1, 0)], {#})"
    using pool_call.drop_handle [of _ _ ?h "?pool [?d, zero_page] zero_page 1 1 False [(1, 0)]" "{#}"]
    by (simp add: drop_pin_def upd_desc_def)
  have "pool_pin memory_page_store clock_strategy 0 (?pool [?d, zero_page] zero_page 1 0 False [(1, 0)]) =
      (Inr small_handle, ?pool [?d, zero_page] ?d 0 1 False [(0, 0)])"
    by (simp add: pool_eval can_evict_def clock_victim_def small_handle_def)
  then have 6: "?call ?e6 (?pool [?d, zero_page] zero_page 1 0 False [(1, 0)], {#}) (?pool [?d, zero_page] ?d 0 1 False [(0, 0)], {#small_handle#})"
    by (rule pool_call.pin_ok)
  have "pin_read small_handle (\<lambda>d. Some (d ! 0)) (?pool [?d, zero_page] ?d 0 1 False [(0, 0)]) =
      (Inr (42 :: u8), ?pool [?d, zero_page] ?d 0 1 False [(0, 0)])"
    by (simp add: pin_read_def io_then_def latch_def check_def small_handle_def)
  then have 7: "?call ?e7 (?pool [?d, zero_page] ?d 0 1 False [(0, 0)], {#small_handle#}) (?pool [?d, zero_page] ?d 0 1 False [(0, 0)], {#small_handle#})"
    by (intro pool_call.read_call) simp_all
  have "labelled_run ?call (small_pool, {#}) [] (small_pool, {#})" by (rule labelled_start)
  from labelled_step [of ?call, OF this 1] have "labelled_run ?call (small_pool, {#}) [?e1] (small_pool1, {#small_handle#})" by simp
  note r2 = labelled_step [of ?call, OF this 2]
  note r4 = labelled_step [of ?call, OF labelled_step [of ?call, OF r2 3] 4]
  note r6 = labelled_step [of ?call, OF labelled_step [of ?call, OF r4 5] 6]
  have r: "labelled_run ?call (small_pool, {#}) [?e1, ?e2, ?e3, ?e4, ?e5, ?e6, ?e7]
      (?pool [?d, zero_page] ?d 0 1 False [(0, 0)], {#small_handle#})"
    using labelled_step [of ?call, OF r6 7] by simp
  have p: "pool_with_strategy 64 1 memory_new \<lparr>referenced = [False], hand = 0\<rparr> = Inr small_pool"
    by (simp add: validate_capacity_def layout_array_ok_def PAGE_SIZE_def pool_with_strategy_def small_pool_def)
  have m: "memory_contents memory_new = Map.empty"
    by (simp add: memory_contents_def memory_new_def fun_eq_iff)
  have v: "pool_view memory_contents (?pool [?d, zero_page] ?d 0 1 False [(0, 0)]) = [0 \<mapsto> ?d, 1 \<mapsto> zero_page]"
  proof
    fix q :: u32
    have "q = 0 \<or> q = 1" if "unat q < 2"
    proof -
      from that have "unat q = unat (0 :: u32) \<or> unat q = unat (1 :: u32)" by (simp add: less_Suc_eq numeral_2_eq_2)
      then show ?thesis by (simp only: word_unat_eq_iff)
    qed
    then show "pool_view memory_contents (?pool [?d, zero_page] ?d 0 1 False [(0, 0)]) q = [0 \<mapsto> ?d, 1 \<mapsto> zero_page] q"
      by (auto simp: pool_view_def memory_contents_def)
  qed
  from pool_refines_page_map [OF mem.page_store_axioms memory_new_wf p r] show ?thesis unfolding v m by blast
qed

text \<open>
  Pinning a page never changes what clients see of any page, whether it hits, replaces a
  dirty or clean victim, or fails; on success the pin is held on exactly the requested page
  and every pin already held keeps its frame.
\<close>

theorem pool_pin_transparent:
  assumes "page_store so swf contents" "pool_inv swf contents H s" "pool_pin so vs pg s = (r, s')"
  shows "pool_view contents s' = pool_view contents s \<and>
    (case r of Inr h \<Rightarrow> pb_page h = pg \<and> pool_inv swf contents (add_mset h H) s'
     | Inl e \<Rightarrow> pool_inv swf contents H s')"
  using page_store.pool_pin_inv [OF assms(1-3)] assms(1) by (simp add: page_store.pinned_def)

theorem pool_pin_transparent_witness:
  "pool_view memory_contents (snd (pool_pin memory_page_store clock_strategy 0 small_pool1)) =
   pool_view memory_contents small_pool1"
proof -
  obtain r s' where r: "pool_pin memory_page_store clock_strategy 0 small_pool1 = (r, s')" by fastforce
  from pool_pin_transparent [OF mem.page_store_axioms small_pool1_inv r] r show ?thesis by simp
qed

text \<open>
  A new page is one no client could see before, it reads as zeros, and no other page
  changes; if the call fails without a panicking strategy callback, no page appears at all.
\<close>

theorem pool_new_page_fresh:
  assumes "page_store so swf contents" "pool_inv swf contents H s" "pool_new_page so vs s = (r, s')"
  shows "case r of
      Inr h \<Rightarrow> pool_view contents s (pb_page h) = None \<and>
        pool_view contents s' = (pool_view contents s)(pb_page h \<mapsto> zero_page) \<and>
        pool_inv swf contents (add_mset h H) s'
    | Inl e \<Rightarrow> pool_inv swf contents H s' \<and>
        (e \<noteq> Panicked \<longrightarrow> pool_view contents s' = pool_view contents s)"
  using page_store.pool_new_page_inv [OF assms(1-3)] assms(1)
  by (auto simp: page_store.created_def split: sum.splits)

theorem pool_new_page_fresh_witness:
  "pool_view memory_contents small_pool1 = (pool_view memory_contents small_pool)(0 \<mapsto> zero_page)"
  using pool_new_page_fresh [OF mem.page_store_axioms small_pool_inv small_pool_new_page]
  by (simp add: small_handle_def)

text \<open>
  A write through a held pin replaces the bytes of its own page by what the callback
  left there and touches no other page, also when the callback panics half-way; in that case
  the frame is poisoned, so every later read or write through the pin is refused.
\<close>

theorem pin_write_effect:
  assumes "page_store so swf contents" "pool_inv swf contents H s" "h \<in># H"
    and "\<And>d. length d = PAGE_SIZE \<Longrightarrow> length (snd (f d)) = PAGE_SIZE"
    and "pin_write h f s = (r, s')" "r \<noteq> Inl Poisoned"
  shows "pool_inv swf contents H s' \<and>
    (\<exists>d. pool_view contents s (pb_page h) = Some d \<and>
       pool_view contents s' = (pool_view contents s)(pb_page h \<mapsto> snd (f d)) \<and>
       r = (case fst (f d) of None \<Rightarrow> Inl Panicked | Some x \<Rightarrow> Inr x)) \<and>
    (r = Inl Panicked \<longrightarrow> pin_read h g s' = (Inl Poisoned, s') \<and> pin_write h f' s' = (Inl Poisoned, s'))"
proof -
  note w = page_store.pin_write_result [OF assms(1,2,3,5,4)]
  have i: "unat (pb_index h) < length (p_descs s)" by (rule page_store.held_frame(2) [OF assms(1-3)])
  have "d_poisoned (p_descs s' ! unat (pb_index h))" if "r = Inl Panicked"
    using assms(5) that i
    by (auto simp: pin_write_def Let_def latch_def check_def elim!: io_thenE split: if_splits prod.splits option.splits)
  then have "r = Inl Panicked \<longrightarrow> pin_read h g s' = (Inl Poisoned, s') \<and> pin_write h f' s' = (Inl Poisoned, s')"
    by (simp add: pin_read_def pin_write_def io_then_def latch_def)
  with w assms(1,6) show ?thesis by (simp add: page_store.wrote_def)
qed

theorem pin_write_effect_witness:
  "pool_view memory_contents (snd (pin_write small_handle (\<lambda>d. (Some (), d[0 := 42])) small_pool1)) 0 =
     Some (zero_page[0 := 42])"
proof -
  let ?f = "\<lambda>d :: page. (Some (), d[0 := 42])"
  obtain r s' where r: "pin_write small_handle ?f small_pool1 = (r, s')" by fastforce
  then have "r = Inr ()"
    by (simp add: pin_write_def io_then_def latch_def check_def small_pool1_def small_handle_def Let_def)
  then have "\<exists>d. pool_view memory_contents small_pool1 0 = Some d \<and>
      pool_view memory_contents s' = (pool_view memory_contents small_pool1)(0 \<mapsto> d[0 := 42])"
    using pin_write_effect [OF mem.page_store_axioms small_pool1_inv, of small_handle ?f r s'] r
    by (auto simp: small_handle_def)
  with r show ?thesis by (auto simp: pool_view_def small_pool1_def)
qed

text \<open>
  When \<^verbatim>\<open>flush_all\<close> returns \<^verbatim>\<open>Ok\<close>, the store holds every page exactly as clients see it,
  so a pool reopened on that store shows the same pages; when it fails, clients still see
  the same pages.
\<close>

theorem pool_flush_all_durable:
  assumes "page_store so swf contents" "pool_inv swf contents H s" "pool_flush_all so vs s = (r, s')"
  shows "pool_inv swf contents H s' \<and> pool_view contents s' = pool_view contents s \<and>
    (r = Inr () \<longrightarrow> contents (p_store s') = pool_view contents s)"
  using page_store.pool_flush_all_inv [OF assms(1-3)] by blast

theorem pool_flush_all_durable_witness:
  "memory_contents (p_store (snd (pool_flush_all memory_page_store clock_strategy small_pool1))) =
   pool_view memory_contents small_pool1"
proof -
  obtain r s' where r: "pool_flush_all memory_page_store clock_strategy small_pool1 = (r, s')" by fastforce
  then have "r = Inr ()"
    by (auto simp: pool_flush_all_def pool_flush_page_def with_drop_def latch_def flush_resident_def drop_pin_def
        pool_eval small_pool1_def)
  with pool_flush_all_durable [OF mem.page_store_axioms small_pool1_inv r] r show ?thesis by simp
qed

text \<open>
  C22: Progress. Over a store without faults and with a strategy that keeps the
  \<^verbatim>\<open>VictimStrategy\<close> contract, pinning an existing page succeeds whenever nothing is poisoned
  and either the page is resident and its pin counter is not saturated, or some frame is
  unpinned: neither \<^verbatim>\<open>AllPinned\<close> nor \<^verbatim>\<open>InvalidVictim\<close> is returned spuriously.
\<close>

theorem pool_pin_succeeds:
  assumes "reliable_pool so swf contents vs sinv" "pool_inv swf contents H s" "pool_healthy sinv s"
    and "pool_view contents s pg = Some d"
    and "case map_of (p_pages s) pg of Some i \<Rightarrow> d_pins (p_descs s ! i) \<noteq> - 1
         | None \<Rightarrow> \<exists>j < length (p_descs s). d_pins (p_descs s ! j) = 0"
  shows "\<exists>h s'. pool_pin so vs pg s = (Inr h, s') \<and> pool_healthy sinv s'"
  by (rule reliable_pool.pool_pin_progress [OF assms])

theorem pool_pin_succeeds_witness:
  "\<exists>h s'. pool_pin memory_page_store clock_strategy 0 small_pool1 = (Inr h, s') \<and> pool_healthy clock_inv s'"
  by (rule pool_pin_succeeds [OF mempool.reliable_pool_axioms small_pool1_inv, of 0 zero_page])
    (simp_all add: pool_healthy_def clock_inv_def small_pool1_def pool_view_def)

end
