(* ===== verification/HeapPage.thy ===== *)
theory HeapPage
  imports BufferPool Ctid
begin

text \<open>
  The slotted heap page of \<^verbatim>\<open>crates/heapam/src/page.rs\<close>, byte for byte: a 24-byte header, a
  directory of 4-byte slots growing upwards and records packed downwards from the end of the
  page. An operation that takes \<^verbatim>\<open>&mut Page\<close> is a function of the page returning its result
  and the page it leaves. The abstraction of a valid page is its owner, its successor and
  the list of its slots, each holding a record or a tombstone; every operation is shown to
  act on that list and to leave a page that validates again.
\<close>

section \<open>Errors and layout\<close>

datatype heap_error =
    Buffer buffer_error
  | Corrupt string
  | InvalidTupleSize nat nat
  | InvalidCtid ctid
  | NoSpace
  | HeapPoisoned

definition MAGIC :: "u8 list" where
  "MAGIC = [67, 72, 73, 76, 73, 72, 80, 49]"

definition HEADER_SIZE :: nat where "HEADER_SIZE = 24"
definition SLOT_SIZE :: nat where "SLOT_SIZE = 4"
definition MAX_TUPLE_SIZE :: nat where "MAX_TUPLE_SIZE = PAGE_SIZE - HEADER_SIZE - SLOT_SIZE"

record page_header =
  h_owner :: u32
  h_next :: "u32 option"
  h_slots :: u16

definition u16_at :: "page \<Rightarrow> nat \<Rightarrow> u16" where
  "u16_at p at = u16_from_le_bytes [p ! at, p ! (at + 1)]"

definition u32_at :: "page \<Rightarrow> nat \<Rightarrow> u32" where
  "u32_at p at = u32_from_le_bytes [p ! at, p ! (at + 1), p ! (at + 2), p ! (at + 3)]"

definition put_u16 :: "page \<Rightarrow> nat \<Rightarrow> nat \<Rightarrow> page" where
  "put_u16 p at v = copy_at p at (u16_to_le_bytes (word_of_nat v))"

definition slot :: "page \<Rightarrow> nat \<Rightarrow> nat \<times> nat" where
  "slot p index = (let at = HEADER_SIZE + index * SLOT_SIZE
     in (unat (u16_at p at), unat (u16_at p (at + 2))))"

definition put_slot :: "page \<Rightarrow> nat \<Rightarrow> nat \<Rightarrow> nat \<Rightarrow> page" where
  "put_slot p index offset len = (let at = HEADER_SIZE + index * SLOT_SIZE
     in put_u16 (put_u16 p at offset) (at + 2) len)"

definition initialize :: "page \<Rightarrow> u32 \<Rightarrow> page" where
  "initialize p owner =
     put_u16 (copy_at (copy_at (replicate (length p) 0) 0 MAGIC) 8 (u32_to_le_bytes owner)) 22 PAGE_SIZE"

section \<open>validate\<close>

fun mark_occupied :: "bool list \<Rightarrow> nat \<Rightarrow> nat \<Rightarrow> bool list option" where
  "mark_occupied occ off 0 = Some occ"
| "mark_occupied occ off (Suc n) =
     (if occ ! off then None else mark_occupied (occ[off := True]) (off + 1) n)"

fun validate_slots :: "page \<Rightarrow> nat \<Rightarrow> nat list \<Rightarrow> bool list \<Rightarrow> nat \<Rightarrow> heap_error + nat" where
  "validate_slots p upper [] occ used = Inr used"
| "validate_slots p upper (index # is) occ used =
     (case slot p index of (offset, len) \<Rightarrow>
        if offset = 0 \<and> len = 0 then validate_slots p upper is occ used
        else if len = 0 \<or> offset < upper \<or> offset + len > PAGE_SIZE
        then Inl (Corrupt ''invalid heap slot bounds'')
        else case mark_occupied occ offset len of
               None \<Rightarrow> Inl (Corrupt ''overlapping heap slots'')
             | Some occ' \<Rightarrow> validate_slots p upper is occ' (used + len))"

definition page_validate :: "page \<Rightarrow> heap_error + page_header \<times> nat" where
  "page_validate p =
     (if take 8 p \<noteq> MAGIC then Inl (Corrupt ''invalid heap page magic'')
      else if p ! 16 > 1 \<or> slice p 17 3 \<noteq> [0, 0, 0]
      then Inl (Corrupt ''invalid heap page flags or reserved bytes'')
      else let slots = u16_at p 20;
               lower = HEADER_SIZE + unat slots * SLOT_SIZE;
               upper = unat (u16_at p 22)
           in if lower > upper \<or> upper > PAGE_SIZE
              then Inl (Corrupt ''invalid heap page free space bounds'')
              else and_then (validate_slots p upper [0..<unat slots] (replicate PAGE_SIZE False) 0) (\<lambda>used.
                Inr (\<lparr>h_owner = u32_at p 8, h_next = (if p ! 16 = 1 then Some (u32_at p 12) else None),
                      h_slots = slots\<rparr>, used)))"

definition page_header_of :: "page \<Rightarrow> heap_error + page_header" where
  "page_header_of p = and_then (page_validate p) (\<lambda>(h, _). Inr h)"

section \<open>Operations\<close>

definition write_next :: "page \<Rightarrow> u32 option \<Rightarrow> page" where
  "write_next p next =
     (copy_at p 12 (u32_to_le_bytes (case next of Some n \<Rightarrow> n | None \<Rightarrow> 0)))
       [16 := (if next \<noteq> None then 1 else 0)]"

definition page_set_next :: "u32 option \<Rightarrow> (page, heap_error, unit) io" where
  "page_set_next next p =
     (case page_validate p of Inl e \<Rightarrow> (Inl e, p) | Inr _ \<Rightarrow> (Inr (), write_next p next))"

definition check_tuple :: "u8 list \<Rightarrow> heap_error + unit" where
  "check_tuple tuple =
     (if tuple = [] \<or> length tuple > MAX_TUPLE_SIZE
      then Inl (InvalidTupleSize (length tuple) MAX_TUPLE_SIZE) else Inr ())"

definition slot_tuple :: "page \<Rightarrow> nat \<Rightarrow> u8 list option" where
  "slot_tuple p index = (case slot p index of (offset, len) \<Rightarrow>
     if len \<noteq> 0 then Some (slice p offset len) else None)"

fun compact_slots :: "page \<Rightarrow> (nat \<times> u8 list option) option \<Rightarrow> nat list \<Rightarrow> nat \<Rightarrow> page \<Rightarrow> nat \<times> page" where
  "compact_slots p change [] upper result = (upper, result)"
| "compact_slots p change (index # is) upper result =
     (let tuple = (case change of
            Some (changed, t) \<Rightarrow> (if changed = index then t else slot_tuple p index)
          | None \<Rightarrow> slot_tuple p index)
      in case tuple of
           None \<Rightarrow> compact_slots p change is upper result
         | Some t \<Rightarrow>
             (let upper' = upper - length t
              in compact_slots p change is upper' (put_slot (copy_at result upper' t) index upper' (length t))))"

definition page_compact :: "page \<Rightarrow> page_header \<Rightarrow> (nat \<times> u8 list option) option \<Rightarrow> page" where
  "page_compact p h change =
     (let result = put_u16 (write_next (initialize (replicate PAGE_SIZE 0) (h_owner h)) (h_next h)) 20 (unat (h_slots h))
      in case compact_slots p change [0..<unat (h_slots h)] PAGE_SIZE result of
           (upper, result') \<Rightarrow> put_u16 result' 22 upper)"

definition page_insert :: "u8 list \<Rightarrow> (page, heap_error, u16 option) io" where
  "page_insert tuple p =
     (case check_tuple tuple of Inl e \<Rightarrow> (Inl e, p)
      | Inr _ \<Rightarrow> case page_validate p of Inl e \<Rightarrow> (Inl e, p)
      | Inr (h, used) \<Rightarrow>
          let new_slots = unat (h_slots h) + 1 in
          if HEADER_SIZE + new_slots * SLOT_SIZE + used + length tuple > PAGE_SIZE then (Inr None, p)
          else let result = page_compact p h None;
                   upper = PAGE_SIZE - used - length tuple;
                   result = copy_at result upper tuple;
                   result = put_slot result (unat (h_slots h)) upper (length tuple);
                   result = put_u16 result 20 new_slots;
                   result = put_u16 result 22 upper
               in (Inr (nonzero_u16 (word_of_nat new_slots)), result))"

definition page_get :: "page \<Rightarrow> u16 \<Rightarrow> heap_error + u8 list option" where
  "page_get p sid = and_then (page_validate p) (\<lambda>(h, _).
     if sid > h_slots h then Inr None else Inr (slot_tuple p (unat sid - 1)))"

definition page_records :: "page \<Rightarrow> u16 \<Rightarrow> heap_error + (u16 \<times> u8 list) list" where
  "page_records p limit = and_then (page_validate p) (\<lambda>(h, _).
     if limit > h_slots h then Inl (Corrupt ''scan limit exceeds slot directory'')
     else Inr (List.map_filter (\<lambda>index.
       map_option (Pair (word_of_nat (index + 1))) (slot_tuple p index)) [0..<unat limit]))"

definition page_delete :: "u16 \<Rightarrow> (page, heap_error, bool) io" where
  "page_delete sid p =
     (case page_validate p of Inl e \<Rightarrow> (Inl e, p)
      | Inr (h, _) \<Rightarrow>
          let index = unat sid - 1 in
          if sid > h_slots h \<or> snd (slot p index) = 0 then (Inr False, p)
          else (Inr True, page_compact p h (Some (index, None))))"

definition page_replace :: "u16 \<Rightarrow> u8 list \<Rightarrow> (page, heap_error, bool) io" where
  "page_replace sid tuple p =
     (case check_tuple tuple of Inl e \<Rightarrow> (Inl e, p)
      | Inr _ \<Rightarrow> case page_validate p of Inl e \<Rightarrow> (Inl e, p)
      | Inr (h, used) \<Rightarrow>
          let index = unat sid - 1 in
          if sid > h_slots h then (Inr False, p)
          else let old_len = snd (slot p index) in
            if old_len = 0 \<or>
               HEADER_SIZE + unat (h_slots h) * SLOT_SIZE + used - old_len + length tuple > PAGE_SIZE
            then (Inr False, p)
            else (Inr True, page_compact p h (Some (index, Some tuple))))"

section \<open>Reading back what was written\<close>

lemma u16_at_slice: "at + 2 \<le> length p \<Longrightarrow> u16_at p at = u16_from_le_bytes (slice p at 2)"
  unfolding u16_at_def by (rule arg_cong [where f = u16_from_le_bytes], rule nth_equalityI)
    (auto simp: length_slice nth_slice less_Suc_eq numeral_2_eq_2)

lemma u32_at_slice: "at + 4 \<le> length p \<Longrightarrow> u32_at p at = u32_from_le_bytes (slice p at 4)"
  unfolding u32_at_def by (rule arg_cong [where f = u32_from_le_bytes], rule nth_equalityI)
    (auto simp: length_slice nth_slice less_Suc_eq numeral_eq_Suc)

lemma length_put_u16 [simp]: "at + 2 \<le> length p \<Longrightarrow> length (put_u16 p at v) = length p"
  by (simp add: put_u16_def length_copy_at)

lemma u16_at_put_same: "at + 2 \<le> length p \<Longrightarrow> u16_at (put_u16 p at v) at = word_of_nat v"
  by (simp add: u16_at_slice put_u16_def length_copy_at slice_copy_at_same)

lemma slice_put_other:
  "at + 2 \<le> length p \<Longrightarrow> b + len \<le> length p \<Longrightarrow> b + len \<le> at \<or> at + 2 \<le> b \<Longrightarrow>
   slice (put_u16 p at v) b len = slice p b len"
  by (simp add: put_u16_def slice_copy_at_other)

lemma u16_at_put_other:
  "at + 2 \<le> length p \<Longrightarrow> b + 2 \<le> length p \<Longrightarrow> b + 2 \<le> at \<or> at + 2 \<le> b \<Longrightarrow>
   u16_at (put_u16 p at v) b = u16_at p b"
  by (simp add: u16_at_slice slice_put_other)

lemma u16_at_copy_other:
  "at + length ys \<le> length p \<Longrightarrow> b + 2 \<le> length p \<Longrightarrow> b + 2 \<le> at \<or> at + length ys \<le> b \<Longrightarrow>
   u16_at (copy_at p at ys) b = u16_at p b"
  by (simp add: u16_at_slice length_copy_at slice_copy_at_other)

lemma nth_put_other:
  "at + 2 \<le> length p \<Longrightarrow> i < length p \<Longrightarrow> i < at \<or> at + 2 \<le> i \<Longrightarrow> put_u16 p at v ! i = p ! i"
  by (auto simp: put_u16_def nth_copy_at)

lemma unat_u16_of_nat: "n < 65536 \<Longrightarrow> unat (word_of_nat n :: u16) = n"
  by (simp add: unat_of_nat)

text \<open>Slots: entry \<open>i\<close> of the directory occupies the four bytes from \<open>dir i\<close>.\<close>

abbreviation dir :: "nat \<Rightarrow> nat" where
  "dir i \<equiv> HEADER_SIZE + i * SLOT_SIZE"

lemma length_put_slot [simp]: "dir (Suc i) \<le> length p \<Longrightarrow> length (put_slot p i off len) = length p"
  by (simp add: put_slot_def Let_def SLOT_SIZE_def HEADER_SIZE_def)

lemma slot_put_same:
  "dir (Suc i) \<le> length p \<Longrightarrow> off < 65536 \<Longrightarrow> len < 65536 \<Longrightarrow> slot (put_slot p i off len) i = (off, len)"
  by (simp add: slot_def put_slot_def Let_def SLOT_SIZE_def HEADER_SIZE_def u16_at_put_same u16_at_put_other
      unat_u16_of_nat)

lemma slot_put_other:
  assumes "dir (Suc i) \<le> length p" "dir (Suc j) \<le> length p" "i \<noteq> j"
  shows "slot (put_slot p i off len) j = slot p j"
proof -
  have "4 * i + 4 \<le> 4 * j \<or> 4 * j + 4 \<le> 4 * i" using assms(3) by linarith
  then show ?thesis
    using assms(1,2)
    by (auto simp: slot_def put_slot_def Let_def SLOT_SIZE_def HEADER_SIZE_def u16_at_put_other)
qed

lemma slot_copy_other:
  "dir (Suc j) \<le> at \<Longrightarrow> at + length ys \<le> length p \<Longrightarrow> slot (copy_at p at ys) j = slot p j"
  by (simp add: slot_def Let_def SLOT_SIZE_def HEADER_SIZE_def u16_at_copy_other)

lemma slice_put_slot_other:
  "dir (Suc i) \<le> b \<or> b + len \<le> dir i \<Longrightarrow> dir (Suc i) \<le> length p \<Longrightarrow> b + len \<le> length p \<Longrightarrow>
   slice (put_slot p i off l) b len = slice p b len"
  by (auto simp: put_slot_def Let_def SLOT_SIZE_def HEADER_SIZE_def slice_put_other)

lemma slot_put_u16_header:
  "at + 2 \<le> HEADER_SIZE \<Longrightarrow> dir (Suc j) \<le> length p \<Longrightarrow> slot (put_u16 p at v) j = slot p j"
  by (simp add: slot_def Let_def SLOT_SIZE_def HEADER_SIZE_def u16_at_put_other)

section \<open>What validate establishes\<close>

definition occupied_set :: "bool list \<Rightarrow> nat set" where
  "occupied_set occ = {k. k < length occ \<and> occ ! k}"

lemma finite_occupied [simp]: "finite (occupied_set occ)"
  by (simp add: occupied_set_def)

lemma mark_occupied_Some:
  "off + len \<le> length occ \<Longrightarrow> mark_occupied occ off len = Some occ' \<Longrightarrow>
   length occ' = length occ \<and> occupied_set occ' = occupied_set occ \<union> {off..<off + len} \<and>
   occupied_set occ \<inter> {off..<off + len} = {}"
proof (induction len arbitrary: occ off)
  case (Suc n)
  then have free: "\<not> occ ! off" and m: "mark_occupied (occ[off := True]) (off + 1) n = Some occ'"
    and off: "off < length occ" by (auto split: if_splits)
  have set': "occupied_set (occ[off := True]) = insert off (occupied_set occ)"
    using off by (auto simp: occupied_set_def nth_list_update)
  have "{off..<off + Suc n} = insert off {off + 1..<off + 1 + n}" by auto
  moreover have "off \<notin> occupied_set occ" using free by (simp add: occupied_set_def)
  ultimately show ?case using Suc.IH [OF _ m] Suc.prems(1) set' by auto
qed simp

lemma mark_occupied_free:
  "off + len \<le> length occ \<Longrightarrow> occupied_set occ \<inter> {off..<off + len} = {} \<Longrightarrow>
   \<exists>occ'. mark_occupied occ off len = Some occ'"
proof (induction len arbitrary: occ off)
  case (Suc n)
  from Suc.prems(2) have "off \<notin> occupied_set occ" by auto
  with Suc.prems(1) have off: "off < length occ" "\<not> occ ! off" by (auto simp: occupied_set_def)
  have "occupied_set (occ[off := True]) = insert off (occupied_set occ)"
    using off by (auto simp: occupied_set_def nth_list_update)
  with Suc.prems have "occupied_set (occ[off := True]) \<inter> {off + 1..<off + 1 + n} = {}" by auto
  from Suc.IH [OF _ this] Suc.prems off show ?case by auto
qed simp

definition slot_ok :: "nat \<Rightarrow> nat \<times> nat \<Rightarrow> bool" where
  "slot_ok upper sl \<longleftrightarrow> sl = (0, 0) \<or> snd sl \<noteq> 0 \<and> upper \<le> fst sl \<and> fst sl + snd sl \<le> PAGE_SIZE"

lemma validate_slots_sound:
  assumes "validate_slots p upper is occ used = Inr tb" "length occ = PAGE_SIZE"
    and "occupied_set occ \<subseteq> {upper..<PAGE_SIZE}" "card (occupied_set occ) = used"
  shows "(\<forall>i \<in> set is. slot_ok upper (slot p i)) \<and> tb = used + sum_list (map (snd \<circ> slot p) is) \<and>
    tb \<le> PAGE_SIZE - upper"
  using assms
proof (induction "is" arbitrary: occ used)
  case Nil
  then have "card (occupied_set occ) \<le> card {upper..<PAGE_SIZE}" by (intro card_mono) auto
  with Nil show ?case by simp
next
  case (Cons i "is")
  obtain off len where sl: "slot p i = (off, len)" by fastforce
  show ?case
  proof (cases "off = 0 \<and> len = 0")
    case True
    with sl Cons.prems Cons.IH [OF _ Cons.prems(2-4)] show ?thesis by (auto simp: slot_ok_def)
  next
    case False
    with sl Cons.prems(1) obtain occ' where b: "len \<noteq> 0" "upper \<le> off" "off + len \<le> PAGE_SIZE"
      and m: "mark_occupied occ off len = Some occ'"
      and rest: "validate_slots p upper is occ' (used + len) = Inr tb"
      by (auto split: if_splits option.splits)
    from mark_occupied_Some [OF _ m] b Cons.prems(2) have occ': "length occ' = PAGE_SIZE"
      "occupied_set occ' = occupied_set occ \<union> {off..<off + len}" "occupied_set occ \<inter> {off..<off + len} = {}" by auto
    have "card (occupied_set occ') = used + len"
      using Cons.prems(4) occ' by (simp add: card_Un_disjoint)
    moreover have "occupied_set occ' \<subseteq> {upper..<PAGE_SIZE}" using occ' b Cons.prems(3) by auto
    ultimately show ?thesis using Cons.IH [OF rest occ'(1)] sl b by (auto simp: slot_ok_def)
  qed
qed

definition page_tuples :: "page \<Rightarrow> nat \<Rightarrow> u8 list option list" where
  "page_tuples p n = map (slot_tuple p) [0..<n]"

definition tlen :: "u8 list option \<Rightarrow> nat" where
  "tlen t = (case t of None \<Rightarrow> 0 | Some bs \<Rightarrow> length bs)"

definition tuple_bytes :: "u8 list option list \<Rightarrow> nat" where
  "tuple_bytes ts = sum_list (map tlen ts)"

lemma tlen_simps [simp]: "tlen None = 0" "tlen (Some bs) = length bs"
  by (simp_all add: tlen_def)

lemma tuple_bytes_simps [simp]: "tuple_bytes [] = 0" "tuple_bytes (t # ts) = tlen t + tuple_bytes ts" "tuple_bytes (xs @ ys) = tuple_bytes xs + tuple_bytes ys"
  by (simp_all add: tuple_bytes_def)

lemma page_validate_sound:
  assumes v: "page_validate p = Inr (h, used)" and len: "length p = PAGE_SIZE"
  defines "n \<equiv> unat (h_slots h)"
  shows "h_owner h = u32_at p 8" and "h_slots h = u16_at p 20"
    and "h_next h = (if p ! 16 = 1 then Some (u32_at p 12) else None)"
    and "\<And>i. i < n \<Longrightarrow> slot_ok (dir n) (slot p i)"
    and "used = tuple_bytes (page_tuples p n)" and "dir n + used \<le> PAGE_SIZE"
    and "\<And>t. Some t \<in> set (page_tuples p n) \<Longrightarrow> t \<noteq> []"
proof -
  let ?u = "unat (u16_at p 22)"
  from v have h: "h = \<lparr>h_owner = u32_at p 8, h_next = (if p ! 16 = 1 then Some (u32_at p 12) else None),
      h_slots = u16_at p 20\<rparr>"
    and b: "dir n \<le> ?u" "?u \<le> PAGE_SIZE"
    and vs: "validate_slots p ?u [0..<n] (replicate PAGE_SIZE False) 0 = Inr used"
    by (auto simp: page_validate_def Let_def and_then_Inr_iff n_def split: if_splits)
  then show "h_owner h = u32_at p 8" "h_slots h = u16_at p 20"
    "h_next h = (if p ! 16 = 1 then Some (u32_at p 12) else None)" by simp_all
  have "occupied_set (replicate PAGE_SIZE False) = {}" by (auto simp: occupied_set_def)
  with validate_slots_sound [OF vs] have ok: "\<And>i. i < n \<Longrightarrow> slot_ok ?u (slot p i)"
    and used: "used = sum_list (map (snd \<circ> slot p) [0..<n])" "used \<le> PAGE_SIZE - ?u" by auto
  show ok': "slot_ok (dir n) (slot p i)" if "i < n" for i using ok [OF that] b by (auto simp: slot_ok_def)
  have tl: "tlen (slot_tuple p i) = snd (slot p i)" if "i < n" for i
    using ok [OF that] len by (cases "slot p i") (auto simp: slot_tuple_def slot_ok_def length_slice)
  have "map (tlen \<circ> slot_tuple p) [0..<n] = map (snd \<circ> slot p) [0..<n]" using tl by auto
  then show "used = tuple_bytes (page_tuples p n)"
    unfolding used(1) tuple_bytes_def page_tuples_def map_map by (rule arg_cong [symmetric])
  show "dir n + used \<le> PAGE_SIZE" using b used(2) by simp
  show "t \<noteq> []" if t: "Some t \<in> set (page_tuples p n)" for t
  proof -
    from t obtain i where i: "i < n" "slot_tuple p i = Some t" by (auto simp: page_tuples_def)
    with tl [OF i(1)] have "length t = snd (slot p i)" by simp
    moreover have "snd (slot p i) \<noteq> 0" using i by (cases "slot p i") (auto simp: slot_tuple_def split: if_splits)
    ultimately show ?thesis by auto
  qed
qed

section \<open>Packed pages\<close>

text \<open>
  The layout that compaction produces: record \<open>i\<close> ends where record \<open>i - 1\<close> begins, the first
  one at the end of the page.
\<close>

definition offset_of :: "u8 list option list \<Rightarrow> nat \<Rightarrow> nat" where
  "offset_of ts i = PAGE_SIZE - tuple_bytes (take (Suc i) ts)"

definition packed :: "page \<Rightarrow> u8 list option list \<Rightarrow> nat \<Rightarrow> bool" where
  "packed p ts k \<longleftrightarrow> (\<forall>i < k. case ts ! i of
     None \<Rightarrow> slot p i = (0, 0)
   | Some t \<Rightarrow> slot p i = (offset_of ts i, length t) \<and> slice p (offset_of ts i) (length t) = t)"

definition fits :: "u8 list option list \<Rightarrow> bool" where
  "fits ts \<longleftrightarrow> dir (length ts) + tuple_bytes ts \<le> PAGE_SIZE \<and> (\<forall>t. Some t \<in> set ts \<longrightarrow> t \<noteq> [])"

definition head_ok :: "page \<Rightarrow> u32 \<Rightarrow> u32 option \<Rightarrow> bool" where
  "head_ok p owner next \<longleftrightarrow> take 8 p = MAGIC \<and> u32_at p 8 = owner \<and>
     u32_at p 12 = (case next of Some n \<Rightarrow> n | None \<Rightarrow> 0) \<and>
     p ! 16 = (if next \<noteq> None then 1 else 0) \<and> slice p 17 3 = [0, 0, 0]"

definition formatted :: "page \<Rightarrow> u32 \<Rightarrow> u32 option \<Rightarrow> u8 list option list \<Rightarrow> bool" where
  "formatted p owner next ts \<longleftrightarrow> length p = PAGE_SIZE \<and> head_ok p owner next \<and>
     u16_at p 20 = word_of_nat (length ts) \<and> u16_at p 22 = word_of_nat (PAGE_SIZE - tuple_bytes ts) \<and>
     packed p ts (length ts) \<and> fits ts"

lemma tuple_bytes_take: "tuple_bytes (take k ts) \<le> tuple_bytes ts"
  by (metis append_take_drop_id le_add1 tuple_bytes_simps(3))

lemma tuple_bytes_take_Suc: "i < length ts \<Longrightarrow> tuple_bytes (take (Suc i) ts) = tuple_bytes (take i ts) + tlen (ts ! i)"
  by (simp add: take_Suc_conv_app_nth)

lemma fits_bounds:
  assumes "fits ts"
  shows "tuple_bytes ts \<le> PAGE_SIZE" "tuple_bytes (take k ts) \<le> PAGE_SIZE" "length ts < 65536"
    and "i < length ts \<Longrightarrow> offset_of ts i + tlen (ts ! i) = PAGE_SIZE - tuple_bytes (take i ts)"
    and "i < length ts \<Longrightarrow> dir (length ts) \<le> offset_of ts i" "offset_of ts i < 65536"
    and "i < length ts \<Longrightarrow> PAGE_SIZE - tuple_bytes ts \<le> offset_of ts i"
proof -
  note t = tuple_bytes_take [of k ts] tuple_bytes_take [of "Suc i" ts]
  show a: "tuple_bytes ts \<le> PAGE_SIZE" "length ts < 65536"
    using assms by (auto simp: fits_def HEADER_SIZE_def SLOT_SIZE_def PAGE_SIZE_def)
  show "tuple_bytes (take k ts) \<le> PAGE_SIZE" using t a by simp
  show "i < length ts \<Longrightarrow> offset_of ts i + tlen (ts ! i) = PAGE_SIZE - tuple_bytes (take i ts)"
    using t(2) a by (simp add: offset_of_def tuple_bytes_take_Suc)
  have "dir (length ts) + tuple_bytes ts \<le> PAGE_SIZE" using assms by (simp add: fits_def)
  then show "i < length ts \<Longrightarrow> dir (length ts) \<le> offset_of ts i" using t(2) unfolding offset_of_def by linarith
  show "offset_of ts i < 65536" by (simp add: offset_of_def PAGE_SIZE_def)
  show "i < length ts \<Longrightarrow> PAGE_SIZE - tuple_bytes ts \<le> offset_of ts i" using t(2) by (simp add: offset_of_def)
qed

lemma packed_slot:
  "packed p ts k \<Longrightarrow> i < k \<Longrightarrow> slot p i = (if ts ! i = None then (0, 0) else (offset_of ts i, tlen (ts ! i)))"
  by (cases "ts ! i") (auto simp: packed_def)

lemma packed_tuples:
  assumes "packed p ts (length ts)" "fits ts"
  shows "page_tuples p (length ts) = ts"
proof (rule nth_equalityI)
  fix i assume "i < length (page_tuples p (length ts))"
  then have i: "i < length ts" by (simp add: page_tuples_def)
  show "page_tuples p (length ts) ! i = ts ! i"
  proof (cases "ts ! i")
    case None
    with assms(1) i show ?thesis by (auto simp: page_tuples_def packed_def slot_tuple_def)
  next
    case (Some t)
    with i have "Some t \<in> set ts" by (metis nth_mem)
    with assms(2) have "t \<noteq> []" by (simp add: fits_def)
    with assms(1) i Some show ?thesis by (auto simp: page_tuples_def packed_def slot_tuple_def)
  qed
qed (simp add: page_tuples_def)

lemma validate_packed:
  assumes pk: "packed p ts (length ts)" and fit: "fits ts" and k: "k \<le> length ts"
    and occ: "length occ = PAGE_SIZE" "occupied_set occ \<subseteq> {PAGE_SIZE - tuple_bytes (take k ts)..<PAGE_SIZE}"
  shows "validate_slots p (PAGE_SIZE - tuple_bytes ts) [k..<length ts] occ (tuple_bytes (take k ts)) = Inr (tuple_bytes ts)"
  using k occ
proof (induction "length ts - k" arbitrary: k occ)
  case 0
  then show ?case by simp
next
  case (Suc d)
  then have k: "k < length ts" by simp
  then have upt: "[k..<length ts] = k # [Suc k..<length ts]" by (rule upt_conv_Cons)
  note fb = fits_bounds [OF fit]
  note IH = Suc.hyps(1) [of "Suc k"]
  show ?case
  proof (cases "ts ! k")
    case None
    with k have "tuple_bytes (take (Suc k) ts) = tuple_bytes (take k ts)" by (simp add: tuple_bytes_take_Suc)
    with IH Suc.hyps(2) Suc.prems None k packed_slot [OF pk k] show ?thesis by (simp add: upt)
  next
    case (Some t)
    let ?o = "offset_of ts k"
    have "Some t \<in> set ts" using Some k by (metis nth_mem)
    with fit have t: "t \<noteq> []" by (simp add: fits_def)
    have sl: "slot p k = (?o, length t)" using packed_slot [OF pk k] Some by simp
    have o: "?o + length t = PAGE_SIZE - tuple_bytes (take k ts)" using fb(4) [OF k] Some by simp
    have "occupied_set occ \<inter> {?o..<?o + length t} = {}" using Suc.prems(3) o by auto
    with mark_occupied_free [of ?o "length t" occ] o Suc.prems(2) obtain occ'
      where m: "mark_occupied occ ?o (length t) = Some occ'" by auto
    note m' = mark_occupied_Some [OF _ m]
    have "occupied_set occ' \<subseteq> {PAGE_SIZE - tuple_bytes (take (Suc k) ts)..<PAGE_SIZE}"
      using m' o Suc.prems(2,3) by (auto simp: offset_of_def)
    moreover have "tuple_bytes (take (Suc k) ts) = tuple_bytes (take k ts) + length t"
      using Some k by (simp add: tuple_bytes_take_Suc)
    ultimately have "validate_slots p (PAGE_SIZE - tuple_bytes ts) [Suc k..<length ts] occ' (tuple_bytes (take k ts) + length t)
        = Inr (tuple_bytes ts)" using IH [of occ'] Suc.hyps(2) k m' o Suc.prems(2) by simp
    with sl t o m fb(7) [OF k] show ?thesis by (simp add: upt)
  qed
qed

lemma formatted_validate:
  assumes f: "formatted p owner next ts"
  shows "page_validate p = Inr (\<lparr>h_owner = owner, h_next = next, h_slots = word_of_nat (length ts)\<rparr>, tuple_bytes ts)"
    and "page_tuples p (length ts) = ts"
proof -
  from f have fit: "fits ts" and pk: "packed p ts (length ts)" and hd: "head_ok p owner next"
    and u: "u16_at p 20 = word_of_nat (length ts)" "u16_at p 22 = word_of_nat (PAGE_SIZE - tuple_bytes ts)"
    by (auto simp: formatted_def)
  note fb = fits_bounds [OF fit]
  have n: "unat (u16_at p 20) = length ts" using u fb(3) by (simp add: unat_u16_of_nat)
  have up: "unat (u16_at p 22) = PAGE_SIZE - tuple_bytes ts" using u by (simp add: unat_u16_of_nat PAGE_SIZE_def)
  have "occupied_set (replicate PAGE_SIZE False) = {}" by (auto simp: occupied_set_def)
  then have vs: "validate_slots p (PAGE_SIZE - tuple_bytes ts) [0..<length ts] (replicate PAGE_SIZE False) 0 = Inr (tuple_bytes ts)"
    using validate_packed [OF pk fit, of 0] by simp
  have "dir (length ts) + tuple_bytes ts \<le> PAGE_SIZE" using fit by (simp add: fits_def)
  then have lower: "dir (length ts) \<le> PAGE_SIZE - tuple_bytes ts" by linarith
  show "page_validate p = Inr (\<lparr>h_owner = owner, h_next = next, h_slots = word_of_nat (length ts)\<rparr>, tuple_bytes ts)"
    using hd vs n up lower u(1)
    by (cases "next") (auto simp: page_validate_def head_ok_def Let_def)
  show "page_tuples p (length ts) = ts" by (rule packed_tuples [OF pk fit])
qed

section \<open>Compaction\<close>

lemma packed_header_write:
  assumes "packed p ts (length ts)" "fits ts" "length p = PAGE_SIZE" "at + 2 \<le> HEADER_SIZE"
  shows "packed (put_u16 p at v) ts (length ts)"
  unfolding packed_def
proof (intro allI impI)
  fix i assume i: "i < length ts"
  note fb = fits_bounds [OF assms(2)]
  have "dir (Suc i) \<le> dir (length ts)" using i by (simp add: SLOT_SIZE_def)
  then have d: "dir (Suc i) \<le> offset_of ts i" using fb(5) [OF i] by linarith
  have o: "offset_of ts i + tlen (ts ! i) \<le> PAGE_SIZE" using fb(4) [OF i] by simp
  have "slot (put_u16 p at v) i = slot p i"
    by (rule slot_put_u16_header [OF assms(4)]) (use d o assms(3) in linarith)
  moreover have "slice (put_u16 p at v) (offset_of ts i) (length t) = slice p (offset_of ts i) (length t)"
    if "ts ! i = Some t" for t
    by (rule slice_put_other) (use d o that assms(3,4) in \<open>auto simp: HEADER_SIZE_def\<close>)
  ultimately show "case ts ! i of None \<Rightarrow> slot (put_u16 p at v) i = (0, 0)
      | Some t \<Rightarrow> slot (put_u16 p at v) i = (offset_of ts i, length t) \<and>
          slice (put_u16 p at v) (offset_of ts i) (length t) = t"
    using assms(1) i by (auto simp: packed_def split: option.splits)
qed

lemma head_ok_cong:
  assumes "slice p 0 20 = slice q 0 20" "length p = PAGE_SIZE" "length q = PAGE_SIZE"
  shows "head_ok p owner next = head_ok q owner next"
proof -
  have sub: "slice p i k = slice q i k" if "i + k \<le> 20" for i k
    using slice_slice [of i k 20 p 0] slice_slice [of i k 20 q 0] that assms(1) by simp
  have "take 8 p = take 8 q" using sub [of 0 8] by (simp add: slice_def)
  moreover have "u32_at p 8 = u32_at q 8" "u32_at p 12 = u32_at q 12"
    using sub [of 8 4] sub [of 12 4] assms by (simp_all add: u32_at_slice PAGE_SIZE_def)
  moreover have "p ! 16 = q ! 16"
    using arg_cong [OF assms(1), of "\<lambda>xs. xs ! 16"] assms(2,3) by (simp add: nth_slice PAGE_SIZE_def)
  ultimately show ?thesis using sub [of 17 3] by (simp add: head_ok_def)
qed

lemma place_tuple:
  assumes fit: "fits ts" and k: "k < length ts" "ts ! k = Some t"
    and r: "length r = PAGE_SIZE" "packed r ts k"
  defines "r' \<equiv> put_slot (copy_at r (offset_of ts k) t) k (offset_of ts k) (length t)"
  shows "length r' = PAGE_SIZE" and "packed r' ts (Suc k)" and "slice r' 0 24 = slice r 0 24"
    and "\<And>i. Suc k \<le> i \<Longrightarrow> i < length ts \<Longrightarrow> slot r' i = slot r i"
proof -
  note fb = fits_bounds [OF fit]
  let ?o = "offset_of ts k"
  have o: "?o + length t = PAGE_SIZE - tuple_bytes (take k ts)" using fb(4) [OF k(1)] k(2) by simp
  have dirs: "dir (Suc i) \<le> dir (length ts)" if "i < length ts" for i
    using that by (simp add: SLOT_SIZE_def)
  have lo: "dir (Suc i) \<le> offset_of ts j" if "i < length ts" "j < length ts" for i j
    using dirs [OF that(1)] fb(5) [OF that(2)] by linarith
  have olen: "offset_of ts i + tlen (ts ! i) \<le> PAGE_SIZE" if "i < length ts" for i using fb(4) [OF that] by simp
  have in_page: "dir (Suc i) \<le> PAGE_SIZE" if "i < length ts" for i using lo [OF that that] olen [OF that] by linarith
  have len1: "length (copy_at r ?o t) = PAGE_SIZE" using r(1) o by (simp add: length_copy_at)
  then show len': "length r' = PAGE_SIZE" using in_page [OF k(1)] by (simp add: r'_def)
  have slot_other: "slot r' i = slot r i" if "i < length ts" "i \<noteq> k" for i
  proof -
    have "slot r' i = slot (copy_at r ?o t) i"
      unfolding r'_def by (rule slot_put_other) (use in_page k that len1 in auto)
    also have "\<dots> = slot r i" by (rule slot_copy_other) (use lo that k o r in auto)
    finally show ?thesis .
  qed
  then show "\<And>i. Suc k \<le> i \<Longrightarrow> i < length ts \<Longrightarrow> slot r' i = slot r i" by simp
  have "length t < 65536" using o by (simp add: PAGE_SIZE_def)
  then have here: "slot r' k = (?o, length t)"
    unfolding r'_def by (intro slot_put_same) (use in_page [OF k(1)] len1 fb(6) in auto)
  have slice': "slice r' b n = slice (copy_at r ?o t) b n" if "dir (Suc k) \<le> b \<or> b + n \<le> dir k" "b + n \<le> PAGE_SIZE" for b n
    unfolding r'_def by (rule slice_put_slot_other) (use that in_page [OF k(1)] len1 in auto)
  have now: "slice r' ?o (length t) = t"
    using slice' [of ?o "length t"] lo [OF k(1) k(1)] o r(1) by (simp add: slice_copy_at_same)
  show "packed r' ts (Suc k)"
    unfolding packed_def
  proof (intro allI impI)
    fix i assume "i < Suc k"
    show "case ts ! i of None \<Rightarrow> slot r' i = (0, 0)
      | Some u \<Rightarrow> slot r' i = (offset_of ts i, length u) \<and> slice r' (offset_of ts i) (length u) = u"
    proof (cases "i = k")
      case True
      with here now k(2) show ?thesis by simp
    next
      case False
      with \<open>i < Suc k\<close> have i: "i < k" "i < length ts" using k by auto
      have above: "?o + length t \<le> offset_of ts i"
      proof -
        have "tuple_bytes (take (Suc i) ts) \<le> tuple_bytes (take k ts)"
          using tuple_bytes_take [of "Suc i" "take k ts"] i by (simp add: min_def)
        then show ?thesis unfolding o by (simp add: offset_of_def)
      qed
      have "slice r' (offset_of ts i) (length u) = slice r (offset_of ts i) (length u)" if "ts ! i = Some u" for u
        using slice' [of "offset_of ts i" "length u"] lo [OF k(1) i(2)] olen [OF i(2)] that above r(1)
        by (simp add: slice_copy_at_other)
      with r(2) i False slot_other show ?thesis by (auto simp: packed_def split: option.splits)
    qed
  qed
  have "24 \<le> ?o" using lo [OF k(1) k(1)] by (simp add: HEADER_SIZE_def)
  then show "slice r' 0 24 = slice r 0 24"
    using slice' [of 0 24] r(1) o by (simp add: slice_copy_at_other HEADER_SIZE_def)
qed

definition chosen_tuple :: "page \<Rightarrow> (nat \<times> u8 list option) option \<Rightarrow> nat \<Rightarrow> u8 list option" where
  "chosen_tuple p change index = (case change of
     Some (changed, t) \<Rightarrow> (if changed = index then t else slot_tuple p index) | None \<Rightarrow> slot_tuple p index)"

lemma compact_slots_spec:
  assumes fit: "fits ts" and ch: "\<And>i. i < length ts \<Longrightarrow> chosen_tuple p change i = ts ! i"
    and "k \<le> length ts" "length r = PAGE_SIZE" "packed r ts k"
    and "\<And>i. k \<le> i \<Longrightarrow> i < length ts \<Longrightarrow> slot r i = (0, 0)"
  shows "\<exists>r'. compact_slots p change [k..<length ts] (PAGE_SIZE - tuple_bytes (take k ts)) r =
      (PAGE_SIZE - tuple_bytes ts, r') \<and>
    length r' = PAGE_SIZE \<and> packed r' ts (length ts) \<and> slice r' 0 24 = slice r 0 24"
  using assms(3-6)
proof (induction "length ts - k" arbitrary: k r)
  case 0
  then show ?case by simp
next
  case (Suc d)
  then have k: "k < length ts" by simp
  then have upt: "[k..<length ts] = k # [Suc k..<length ts]" by (rule upt_conv_Cons)
  note c = ch [OF k, unfolded chosen_tuple_def]
  note fb = fits_bounds [OF fit]
  show ?case
  proof (cases "ts ! k")
    case None
    with k have same: "tuple_bytes (take (Suc k) ts) = tuple_bytes (take k ts)" by (simp add: tuple_bytes_take_Suc)
    have "packed r ts (Suc k)" using Suc.prems(3) Suc.prems(4) [of k] k None by (auto simp: packed_def less_Suc_eq)
    with Suc.hyps(1) [of "Suc k" r] Suc.hyps(2) Suc.prems k None c same show ?thesis by (simp add: upt)
  next
    case (Some t)
    note pl = place_tuple [OF fit k Some Suc.prems(2,3)]
    have "offset_of ts k + tlen (ts ! k) = PAGE_SIZE - tuple_bytes (take k ts)" by (rule fb(4) [OF k])
    then have o: "PAGE_SIZE - tuple_bytes (take k ts) - length t = offset_of ts k" using Some by simp
    have o': "PAGE_SIZE - tuple_bytes (take (Suc k) ts) = offset_of ts k" by (simp add: offset_of_def)
    let ?r = "put_slot (copy_at r (offset_of ts k) t) k (offset_of ts k) (length t)"
    have "\<exists>r'. compact_slots p change [Suc k..<length ts] (offset_of ts k) ?r = (PAGE_SIZE - tuple_bytes ts, r') \<and>
        length r' = PAGE_SIZE \<and> packed r' ts (length ts) \<and> slice r' 0 24 = slice ?r 0 24"
      using Suc.hyps(1) [of "Suc k" ?r] Suc.hyps(2) k pl Suc.prems(4) o' by simp
    with c Some o pl(3) show ?thesis by (simp add: upt Let_def)
  qed
qed

lemma slice_list_update:
  "i < b \<or> b + len \<le> i \<Longrightarrow> b + len \<le> length xs \<Longrightarrow> slice (xs[i := v]) b len = slice xs b len"
  by (rule nth_equalityI) (auto simp: length_slice nth_slice)

lemma length_write_next [simp]: "length p = PAGE_SIZE \<Longrightarrow> length (write_next p nx) = PAGE_SIZE"
  by (simp add: write_next_def length_copy_at PAGE_SIZE_def)

lemma write_next_slice:
  assumes "length p = PAGE_SIZE" "b + len \<le> 12 \<or> 17 \<le> b" "b + len \<le> PAGE_SIZE"
  shows "slice (write_next p nx) b len = slice p b len"
proof -
  let ?c = "copy_at p 12 (u32_to_le_bytes (case nx of Some n \<Rightarrow> n | None \<Rightarrow> 0))"
  have c: "length ?c = PAGE_SIZE" using assms(1) by (simp add: length_copy_at)
  have "slice (write_next p nx) b len = slice ?c b len"
    unfolding write_next_def by (rule slice_list_update) (use assms c in auto)
  also have "\<dots> = slice p b len" by (rule slice_copy_at_other) (use assms in auto)
  finally show ?thesis .
qed

lemma head_ok_write_next:
  assumes "length p = PAGE_SIZE" "take 8 p = MAGIC" "slice p 17 3 = [0, 0, 0]" "u32_at p 8 = owner"
  shows "head_ok (write_next p nx) owner nx"
proof -
  note sl = write_next_slice [OF assms(1), where nx = nx]
  have "take 8 (write_next p nx) = MAGIC" using sl [of 0 8] assms by (simp add: slice_def)
  moreover have "u32_at (write_next p nx) 8 = owner"
    using sl [of 8 4] assms by (simp add: u32_at_slice)
  moreover have "slice (write_next p nx) 17 3 = [0, 0, 0]" using sl [of 17 3] assms by simp
  moreover have "u32_at (write_next p nx) 12 = (case nx of Some n \<Rightarrow> n | None \<Rightarrow> 0)"
  proof -
    have "slice (write_next p nx) 12 4 = u32_to_le_bytes (case nx of Some n \<Rightarrow> n | None \<Rightarrow> 0)"
      unfolding write_next_def using assms(1)
      by (subst slice_list_update) (simp_all add: length_copy_at slice_copy_at_same)
    then show ?thesis using assms(1) by (simp add: u32_at_slice)
  qed
  moreover have "write_next p nx ! 16 = (if nx \<noteq> None then 1 else 0)"
    using assms(1) by (simp add: write_next_def length_copy_at)
  ultimately show ?thesis by (simp add: head_ok_def)
qed

lemma write_next_head:
  "length p = PAGE_SIZE \<Longrightarrow> head_ok p owner old \<Longrightarrow> head_ok (write_next p nx) owner nx"
  by (rule head_ok_write_next) (auto simp: head_ok_def)

lemma u16_at_write_next:
  "length p = PAGE_SIZE \<Longrightarrow> 17 \<le> at \<Longrightarrow> at + 2 \<le> PAGE_SIZE \<Longrightarrow> u16_at (write_next p nx) at = u16_at p at"
  by (simp add: u16_at_slice write_next_slice)

lemma slot_write_next:
  "length p = PAGE_SIZE \<Longrightarrow> dir (Suc i) \<le> PAGE_SIZE \<Longrightarrow> slot (write_next p nx) i = slot p i"
  by (simp add: slot_def Let_def HEADER_SIZE_def SLOT_SIZE_def u16_at_write_next)

text \<open>A freshly initialised page.\<close>

lemma initialize_page:
  assumes "length p = PAGE_SIZE"
  shows "length (initialize p owner) = PAGE_SIZE" and "head_ok (initialize p owner) owner None"
    and "dir (Suc i) \<le> PAGE_SIZE \<Longrightarrow> slot (initialize p owner) i = (0, 0)"
    and "u16_at (initialize p owner) 20 = 0" and "u16_at (initialize p owner) 22 = word_of_nat PAGE_SIZE"
proof -
  let ?z = "replicate PAGE_SIZE (0 :: u8)"
  let ?q1 = "copy_at ?z 0 MAGIC" let ?q2 = "copy_at ?q1 8 (u32_to_le_bytes owner)" let ?q3 = "put_u16 ?q2 22 PAGE_SIZE"
  have i: "initialize p owner = ?q3" by (simp add: initialize_def assms)
  have m: "length MAGIC = 8" by (simp add: MAGIC_def)
  have l1: "length ?q1 = PAGE_SIZE" by (simp add: length_copy_at m PAGE_SIZE_def)
  have l2: "length ?q2 = PAGE_SIZE" using l1 by (simp add: length_copy_at PAGE_SIZE_def)
  show l3: "length (initialize p owner) = PAGE_SIZE" unfolding i using l2 by (simp add: PAGE_SIZE_def)
  have zero: "?q3 ! j = 0" if "12 \<le> j" "j < PAGE_SIZE" "j \<noteq> 22" "j \<noteq> 23" for j
  proof -
    have "?q3 ! j = ?q2 ! j" using that l2 by (intro nth_put_other) (auto simp: PAGE_SIZE_def)
    also have "\<dots> = ?q1 ! j" using that l1 by (subst nth_copy_at) auto
    also have "\<dots> = 0" using that m by (subst nth_copy_at) auto
    finally show ?thesis .
  qed
  have zw: "u16_from_le_bytes [0, 0] = 0" "u32_from_le_bytes [0, 0, 0, 0] = 0"
    by (simp_all add: u16_from_le_bytes_def u32_from_le_bytes_def)
  have "slice ?q3 0 8 = MAGIC"
    using l1 l2 m by (simp add: slice_put_other slice_copy_at_other slice_copy_at_same PAGE_SIZE_def)
  then have "take 8 ?q3 = MAGIC" by (simp add: slice_def)
  moreover have "slice ?q3 8 4 = u32_to_le_bytes owner"
    using l1 l2 by (simp add: slice_put_other slice_copy_at_same PAGE_SIZE_def)
  then have "u32_at ?q3 8 = owner" using l3 i by (simp add: u32_at_slice PAGE_SIZE_def)
  moreover have "u32_at ?q3 12 = 0" by (simp add: u32_at_def zero zw)
  moreover have "?q3 ! 16 = 0" by (simp add: zero)
  moreover have "slice ?q3 17 3 = [0, 0, 0]"
    by (rule nth_equalityI) (use l3 i in \<open>auto simp: length_slice nth_slice zero less_Suc_eq numeral_3_eq_3\<close>)
  ultimately show "head_ok (initialize p owner) owner None" by (simp add: i head_ok_def)
  show "slot (initialize p owner) i = (0, 0)" if "dir (Suc i) \<le> PAGE_SIZE"
    using that by (simp add: i slot_def Let_def u16_at_def zero zw HEADER_SIZE_def SLOT_SIZE_def)
  show "u16_at (initialize p owner) 20 = 0" by (simp add: i u16_at_def zero zw)
  show "u16_at (initialize p owner) 22 = word_of_nat PAGE_SIZE"
    unfolding i using l2 by (intro u16_at_put_same) (simp add: PAGE_SIZE_def)
qed

lemma initialize_formatted: "length p = PAGE_SIZE \<Longrightarrow> formatted (initialize p owner) owner None []"
  using initialize_page [where p = p and owner = owner]
  by (simp add: formatted_def packed_def fits_def HEADER_SIZE_def PAGE_SIZE_def)

lemma compact_formatted:
  assumes fit: "fits ts" and n: "length ts = unat (h_slots h)"
    and ch: "\<And>i. i < length ts \<Longrightarrow> chosen_tuple p change i = ts ! i"
  shows "formatted (page_compact p h change) (h_owner h) (h_next h) ts"
proof -
  let ?i = "initialize (replicate PAGE_SIZE 0) (h_owner h)"
  let ?w = "write_next ?i (h_next h)"
  let ?r = "put_u16 ?w 20 (length ts)"
  note ini = initialize_page [where p = "replicate PAGE_SIZE 0" and owner = "h_owner h", simplified]
  have w: "length ?w = PAGE_SIZE" using ini(1) by simp
  have r: "length ?r = PAGE_SIZE" using w by (simp add: PAGE_SIZE_def)
  have hd: "head_ok ?r (h_owner h) (h_next h)"
    using write_next_head [OF ini(1,2), of "h_next h"] head_ok_cong [of ?r ?w] r w
      slice_put_other [of 20 ?w 0 20 "length ts"] by (simp add: PAGE_SIZE_def)
  note fb = fits_bounds [OF fit]
  have in_page: "dir (Suc i) \<le> PAGE_SIZE" if "i < length ts" for i
  proof -
    have "dir (Suc i) \<le> dir (length ts)" using that by (simp add: SLOT_SIZE_def)
    then show ?thesis using fit by (simp add: fits_def)
  qed
  have zero: "slot ?r i = (0, 0)" if "i < length ts" for i
    using in_page [OF that] w ini(1,3) by (simp add: slot_put_u16_header slot_write_next HEADER_SIZE_def)
  obtain r' where c: "compact_slots p change [0..<length ts] PAGE_SIZE ?r = (PAGE_SIZE - tuple_bytes ts, r')"
    and r': "length r' = PAGE_SIZE" "packed r' ts (length ts)" "slice r' 0 24 = slice ?r 0 24"
    using compact_slots_spec [OF fit ch, where k = 0 and r = ?r] r zero by (auto simp: packed_def)
  let ?f = "put_u16 r' 22 (PAGE_SIZE - tuple_bytes ts)"
  have pc: "page_compact p h change = ?f" using c n by (simp add: page_compact_def Let_def)
  have f: "length ?f = PAGE_SIZE" using r'(1) by (simp add: PAGE_SIZE_def)
  have "slice ?f 0 20 = slice r' 0 20" using r'(1) by (simp add: slice_put_other PAGE_SIZE_def)
  also have "\<dots> = slice ?r 0 20"
    using slice_slice [of 0 20 24 r' 0] slice_slice [of 0 20 24 ?r 0] r'(3) by simp
  finally have "head_ok ?f (h_owner h) (h_next h)" using hd head_ok_cong [of ?f ?r] f r by simp
  moreover have "u16_at ?f 20 = word_of_nat (length ts)"
  proof -
    have "u16_at ?f 20 = u16_at r' 20" using r'(1) by (simp add: u16_at_put_other PAGE_SIZE_def)
    also have "\<dots> = u16_at ?r 20"
      using slice_slice [of 20 2 24 r' 0] slice_slice [of 20 2 24 ?r 0] r' r by (simp add: u16_at_slice PAGE_SIZE_def)
    also have "\<dots> = word_of_nat (length ts)" using w by (simp add: u16_at_put_same PAGE_SIZE_def)
    finally show ?thesis .
  qed
  moreover have "u16_at ?f 22 = word_of_nat (PAGE_SIZE - tuple_bytes ts)"
    using r'(1) by (intro u16_at_put_same) (simp add: PAGE_SIZE_def)
  moreover have "packed ?f ts (length ts)"
    by (rule packed_header_write [OF r'(2) fit r'(1)]) (simp add: HEADER_SIZE_def)
  ultimately show ?thesis using f fit by (simp add: formatted_def pc)
qed

section \<open>The operations on the slot list\<close>

definition page_abs :: "page \<Rightarrow> (u32 \<times> u32 option \<times> u8 list option list) option" where
  "page_abs p = (case page_validate p of
     Inl _ \<Rightarrow> None
   | Inr (h, _) \<Rightarrow> Some (h_owner h, h_next h, page_tuples p (unat (h_slots h))))"

definition tuple_at :: "u8 list option list \<Rightarrow> u16 \<Rightarrow> u8 list option" where
  "tuple_at ts sid = (if sid \<noteq> 0 \<and> unat sid \<le> length ts then ts ! (unat sid - 1) else None)"

definition live_slots :: "u8 list option list \<Rightarrow> (u16 \<times> u8 list) list" where
  "live_slots ts = List.map_filter (\<lambda>i. map_option (Pair (word_of_nat (i + 1))) (ts ! i)) [0..<length ts]"

lemma tuple_at_Nil [simp]: "tuple_at [] k = None"
proof (cases "k = 0")
  case False
  then have "0 < unat k" by (simp add: unat_gt_0)
  then show ?thesis by (simp add: tuple_at_def)
qed (simp add: tuple_at_def)

lemma length_page_tuples [simp]: "length (page_tuples p n) = n"
  by (simp add: page_tuples_def)

lemma page_absD:
  assumes "page_abs p = Some (owner, nx, ts)" "length p = PAGE_SIZE"
  obtains h where "page_validate p = Inr (h, tuple_bytes ts)" "h_owner h = owner" "h_next h = nx"
    "unat (h_slots h) = length ts" "ts = page_tuples p (length ts)" "fits ts"
proof -
  from assms(1) obtain h used where v: "page_validate p = Inr (h, used)" "h_owner h = owner" "h_next h = nx"
    and ts: "ts = page_tuples p (unat (h_slots h))"
    by (auto simp: page_abs_def split: sum.splits)
  note sound = page_validate_sound [OF v(1) assms(2)]
  have n: "unat (h_slots h) = length ts" by (simp add: ts)
  have used: "used = tuple_bytes ts" unfolding ts by (rule sound(5))
  have fit: "fits ts" unfolding fits_def n [symmetric] used [symmetric] using sound(6,7) unfolding ts [symmetric] by blast
  have ts': "ts = page_tuples p (length ts)" unfolding n [symmetric] by (rule ts)
  show thesis by (rule that [OF v(1) [unfolded used] v(2,3) n ts' fit])
qed

lemma page_abs_validate_iff: "page_abs p = None \<longleftrightarrow> (\<exists>e. page_validate p = Inl e)"
  by (auto simp: page_abs_def split: sum.splits)

lemma formatted_abs:
  assumes "formatted p owner nx ts"
  shows "page_abs p = Some (owner, nx, ts)" and "length p = PAGE_SIZE"
proof -
  have "length ts < 65536" using assms fits_bounds(3) by (auto simp: formatted_def)
  with formatted_validate [OF assms] show "page_abs p = Some (owner, nx, ts)"
    by (simp add: page_abs_def unat_u16_of_nat)
  show "length p = PAGE_SIZE" using assms by (simp add: formatted_def)
qed

lemma tuple_bytes_update:
  "i < length ts \<Longrightarrow> tuple_bytes (ts[i := t]) + tlen (ts ! i) = tuple_bytes ts + tlen t"
proof (induction ts arbitrary: i)
  case (Cons x ts)
  then show ?case by (cases i) (auto simp: algebra_simps)
qed simp

lemma page_abs_initialize:
  "length p = PAGE_SIZE \<Longrightarrow> page_abs (initialize p owner) = Some (owner, None, [])"
  by (rule formatted_abs(1) [OF initialize_formatted])

lemma validate_slots_cong:
  "(\<And>i. i \<in> set is \<Longrightarrow> slot q i = slot p i) \<Longrightarrow> validate_slots q upper is occ used = validate_slots p upper is occ used"
  by (induction "is" arbitrary: occ used) (auto split: prod.splits option.splits)

lemma page_set_next_abs:
  assumes "page_abs p = Some (owner, old, ts)" "length p = PAGE_SIZE"
  shows "page_set_next nx p = (Inr (), write_next p nx)" and "length (write_next p nx) = PAGE_SIZE"
    and "page_abs (write_next p nx) = Some (owner, nx, ts)"
proof -
  let ?q = "write_next p nx"
  from assms obtain h where v: "page_validate p = Inr (h, tuple_bytes ts)" "h_owner h = owner" "h_next h = old"
    and n: "unat (h_slots h) = length ts" "ts = page_tuples p (length ts)" and fit: "fits ts" by (rule page_absD)
  show "page_set_next nx p = (Inr (), ?q)" by (simp add: page_set_next_def v(1))
  show len: "length ?q = PAGE_SIZE" using assms(2) by simp
  note sound = page_validate_sound [OF v(1) assms(2)]
  have in_page: "dir (Suc i) \<le> PAGE_SIZE" if "i < length ts" for i
  proof -
    have "dir (Suc i) \<le> dir (length ts)" using that by (simp add: SLOT_SIZE_def)
    then show ?thesis using fit by (simp add: fits_def)
  qed
  have slots: "slot ?q i = slot p i" if "i < length ts" for i
    using in_page [OF that] assms(2) by (simp add: slot_write_next)
  have at: "u16_at ?q 20 = u16_at p 20" "u16_at ?q 22 = u16_at p 22" "slice ?q 17 3 = slice p 17 3"
    using assms(2) by (simp_all add: u16_at_write_next write_next_slice)
  have "take 8 p = MAGIC" "slice p 17 3 = [0, 0, 0]" using v(1) by (auto simp: page_validate_def split: if_splits)
  moreover have "u32_at p 8 = owner" using sound(1) v(2) by simp
  ultimately have hd: "head_ok ?q owner nx"
    using assms(2) by (intro head_ok_write_next)
  have "page_validate ?q = Inr (h\<lparr>h_next := nx\<rparr>, tuple_bytes ts)"
    using v(1) hd at slots n(1) v(2) validate_slots_cong [of "[0..<length ts]" ?q p]
    by (auto simp: page_validate_def head_ok_def Let_def and_then_Inr_iff split: if_splits option.splits)
  moreover have "page_tuples ?q (length ts) = ts"
  proof -
    have "slot_tuple ?q i = slot_tuple p i" if i: "i < length ts" for i
    proof -
      have "slot_ok (dir (length ts)) (slot p i)" using sound(4) i n(1) by simp
      then have "slice ?q (fst (slot p i)) (snd (slot p i)) = slice p (fst (slot p i)) (snd (slot p i))"
        if "snd (slot p i) \<noteq> 0"
        using that assms(2) by (intro write_next_slice) (auto simp: slot_ok_def HEADER_SIZE_def)
      then show ?thesis using slots [OF i] by (auto simp: slot_tuple_def split: prod.splits)
    qed
    then have "page_tuples ?q (length ts) = page_tuples p (length ts)" by (simp add: page_tuples_def)
    with n(2) show ?thesis by simp
  qed
  ultimately show "page_abs ?q = Some (owner, nx, ts)" using n(1) v(2) by (simp add: page_abs_def)
qed

lemma slot_tuple_nth: "ts = page_tuples p n \<Longrightarrow> i < n \<Longrightarrow> slot_tuple p i = ts ! i"
  by (simp add: page_tuples_def)

lemma slot_empty_iff: "snd (slot p i) = 0 \<longleftrightarrow> slot_tuple p i = None"
  by (cases "slot p i") (simp add: slot_tuple_def)

lemma packed_append: "packed p ts (length ts) \<Longrightarrow> packed p (ts @ us) (length ts)"
  by (auto simp: packed_def offset_of_def nth_append split: option.splits)

lemma page_insert_formatted:
  assumes v: "page_validate p = Inr (h, tuple_bytes ts)" and n: "unat (h_slots h) = length ts"
    and ts: "ts = page_tuples p (length ts)" and fit: "fits (ts @ [Some t])" and chk: "check_tuple t = Inr ()"
  shows "\<exists>p'. page_insert t p = (Inr (Some (word_of_nat (length ts + 1))), p') \<and>
    formatted p' (h_owner h) (h_next h) (ts @ [Some t])"
proof -
  let ?ts = "ts @ [Some t]" and ?n = "length ts"
  note fb = fits_bounds [OF fit]
  have fits: "fits ts" using fit by (auto simp: fits_def)
  have space: "dir (Suc ?n) + tuple_bytes ts + length t \<le> PAGE_SIZE" using fit by (simp add: fits_def)
  have ch: "chosen_tuple p None i = ts ! i" if "i < ?n" for i
    using slot_tuple_nth [OF ts that] by (simp add: chosen_tuple_def)
  have f: "formatted (page_compact p h None) (h_owner h) (h_next h) ts"
    by (rule compact_formatted [OF fits _ ch]) (simp_all add: n)
  let ?r = "page_compact p h None"
  have r: "length ?r = PAGE_SIZE" "packed ?r ?ts ?n" using f packed_append by (auto simp: formatted_def)
  have o: "PAGE_SIZE - tuple_bytes ts - length t = offset_of ?ts ?n" by (simp add: offset_of_def)
  have last: "?n < length ?ts" "?ts ! ?n = Some t" by simp_all
  note pl = place_tuple [OF fit last r]
  let ?q = "put_slot (copy_at ?r (offset_of ?ts ?n) t) ?n (offset_of ?ts ?n) (length t)"
  let ?q1 = "put_u16 ?q 20 (?n + 1)" let ?q2 = "put_u16 ?q1 22 (offset_of ?ts ?n)"
  have q1: "length ?q1 = PAGE_SIZE" using pl(1) by simp
  have q2: "length ?q2 = PAGE_SIZE" using q1 by simp
  have "slice ?q2 0 20 = slice ?q 0 20" using q1 pl(1) by (simp add: slice_put_other)
  also have "\<dots> = slice ?r 0 20"
    using slice_slice [of 0 20 24 ?q 0] slice_slice [of 0 20 24 ?r 0] pl(3) by simp
  finally have "head_ok ?q2 (h_owner h) (h_next h)"
    using head_ok_cong [of ?q2 ?r] q2 r(1) f by (simp add: formatted_def)
  moreover have "packed ?q1 ?ts (length ?ts)"
    by (rule packed_header_write [OF _ fit pl(1)]) (use pl(2) in \<open>simp_all add: HEADER_SIZE_def\<close>)
  then have "packed ?q2 ?ts (length ?ts)"
    by (rule packed_header_write [OF _ fit q1]) (simp add: HEADER_SIZE_def)
  moreover have "u16_at ?q2 20 = word_of_nat (length ?ts)"
    using q1 pl(1) by (simp add: u16_at_put_other u16_at_put_same)
  moreover have "u16_at ?q2 22 = word_of_nat (PAGE_SIZE - tuple_bytes ?ts)"
    using q1 by (simp add: u16_at_put_same offset_of_def)
  ultimately have "formatted ?q2 (h_owner h) (h_next h) ?ts" using q2 fit by (simp add: formatted_def)
  moreover have "nonzero_u16 (word_of_nat (?n + 1)) = Some (word_of_nat (?n + 1))"
  proof -
    have "unat (word_of_nat (?n + 1) :: u16) = ?n + 1" using fb(3) by (intro unat_u16_of_nat) simp
    then have "(word_of_nat (?n + 1) :: u16) \<noteq> 0" by (metis add_eq_0_iff_both_eq_0 one_neq_zero unat_0)
    then show ?thesis by (simp add: nonzero_u16_def)
  qed
  moreover have "page_insert t p = (Inr (nonzero_u16 (word_of_nat (?n + 1))), ?q2)"
    using space by (simp add: page_insert_def chk v n Let_def offset_of_def)
  ultimately show ?thesis by simp
qed

lemma check_tuple_iff: "check_tuple t = Inr u \<longleftrightarrow> t \<noteq> [] \<and> length t \<le> MAX_TUPLE_SIZE"
  by (auto simp: check_tuple_def)

lemma check_tuple_err: "check_tuple t = Inl e \<Longrightarrow> e = InvalidTupleSize (length t) MAX_TUPLE_SIZE"
  by (auto simp: check_tuple_def split: if_splits)

lemma fits_snoc: "fits (ts @ [Some t]) \<longleftrightarrow> fits ts \<and> t \<noteq> [] \<and> dir (Suc (length ts)) + tuple_bytes ts + length t \<le> PAGE_SIZE"
  by (auto simp: fits_def)

lemma page_insert_abs:
  assumes a: "page_abs p = Some (owner, nx, ts)" and len: "length p = PAGE_SIZE"
  shows "t \<noteq> [] \<Longrightarrow> length t \<le> MAX_TUPLE_SIZE \<Longrightarrow> fits (ts @ [Some t]) \<Longrightarrow>
      \<exists>p'. page_insert t p = (Inr (Some (word_of_nat (length ts + 1))), p') \<and>
        length p' = PAGE_SIZE \<and> page_abs p' = Some (owner, nx, ts @ [Some t])"
    and "t \<noteq> [] \<Longrightarrow> length t \<le> MAX_TUPLE_SIZE \<Longrightarrow> \<not> fits (ts @ [Some t]) \<Longrightarrow> page_insert t p = (Inr None, p)"
    and "t = [] \<or> length t > MAX_TUPLE_SIZE \<Longrightarrow>
      page_insert t p = (Inl (InvalidTupleSize (length t) MAX_TUPLE_SIZE), p)"
proof -
  from a len obtain h where v: "page_validate p = Inr (h, tuple_bytes ts)" "h_owner h = owner" "h_next h = nx"
    and n: "unat (h_slots h) = length ts" "ts = page_tuples p (length ts)" and fit: "fits ts" by (rule page_absD)
  show "\<exists>p'. page_insert t p = (Inr (Some (word_of_nat (length ts + 1))), p') \<and>
        length p' = PAGE_SIZE \<and> page_abs p' = Some (owner, nx, ts @ [Some t])"
    if "t \<noteq> []" "length t \<le> MAX_TUPLE_SIZE" "fits (ts @ [Some t])"
    using page_insert_formatted [OF v(1) n that(3)] that v(2,3) formatted_abs by (fastforce simp: check_tuple_iff)
  show "page_insert t p = (Inr None, p)"
    if "t \<noteq> []" "length t \<le> MAX_TUPLE_SIZE" "\<not> fits (ts @ [Some t])"
  proof -
    have "check_tuple t = Inr ()" using that by (simp add: check_tuple_iff)
    with that v(1) n(1) fit show ?thesis by (simp add: page_insert_def fits_snoc Let_def)
  qed
  show "page_insert t p = (Inl (InvalidTupleSize (length t) MAX_TUPLE_SIZE), p)"
    if "t = [] \<or> length t > MAX_TUPLE_SIZE"
    using that by (simp add: page_insert_def check_tuple_def)
qed

lemma slot_in_range:
  "sid \<noteq> 0 \<Longrightarrow> unat (n :: u16) = k \<Longrightarrow> \<not> n < sid \<longleftrightarrow> unat sid - 1 < k"
  by (auto simp: word_less_nat_alt unat_eq_0 [symmetric] simp del: unat_eq_0)

lemma tuple_at_nth:
  "sid \<noteq> 0 \<Longrightarrow> tuple_at ts sid = (if unat sid - 1 < length ts then ts ! (unat sid - 1) else None)"
  by (auto simp: tuple_at_def unat_eq_0 [symmetric] simp del: unat_eq_0)

lemma page_get_abs:
  assumes a: "page_abs p = Some (owner, nx, ts)" and len: "length p = PAGE_SIZE" and sid: "sid \<noteq> 0"
  shows "page_get p sid = Inr (tuple_at ts sid)"
proof -
  from a len obtain h where v: "page_validate p = Inr (h, tuple_bytes ts)"
    and n: "unat (h_slots h) = length ts" "ts = page_tuples p (length ts)" by (rule page_absD)
  show ?thesis
    using v slot_in_range [OF sid n(1)] slot_tuple_nth [OF n(2)] sid
    by (auto simp: page_get_def tuple_at_nth)
qed

lemma map_filter_cong:
  "(\<And>x. x \<in> set xs \<Longrightarrow> f x = g x) \<Longrightarrow> List.map_filter f xs = List.map_filter g xs"
  by (induction xs) (simp_all add: List.map_filter_simps split: option.split)

lemma page_records_abs:
  assumes a: "page_abs p = Some (owner, nx, ts)" and len: "length p = PAGE_SIZE"
  shows "page_records p limit = (if unat limit \<le> length ts then Inr (live_slots (take (unat limit) ts))
    else Inl (Corrupt ''scan limit exceeds slot directory''))"
proof -
  from a len obtain h where v: "page_validate p = Inr (h, tuple_bytes ts)"
    and n: "unat (h_slots h) = length ts" "ts = page_tuples p (length ts)" by (rule page_absD)
  have "List.map_filter (\<lambda>i. map_option (Pair (word_of_nat (i + 1))) (slot_tuple p i)) [0..<unat limit] =
      live_slots (take (unat limit) ts)" if "unat limit \<le> length ts"
    unfolding live_slots_def length_take min_absorb2 [OF that]
    by (rule map_filter_cong) (use that slot_tuple_nth [OF n(2)] in auto)
  then show ?thesis
    by (cases "unat limit \<le> length ts") (simp_all add: page_records_def v n(1) word_less_nat_alt)
qed

lemma page_change_abs:
  assumes a: "page_abs p = Some (owner, nx, ts)" and len: "length p = PAGE_SIZE"
    and v: "page_validate p = Inr (h, used)" and i: "i < length ts" and fit: "fits (ts[i := t])"
  shows "length (page_compact p h (Some (i, t))) = PAGE_SIZE \<and>
    page_abs (page_compact p h (Some (i, t))) = Some (owner, nx, ts[i := t])"
proof -
  from a len obtain h' where v': "page_validate p = Inr (h', tuple_bytes ts)" "h_owner h' = owner" "h_next h' = nx"
    and n: "unat (h_slots h') = length ts" "ts = page_tuples p (length ts)" by (rule page_absD)
  with v have [simp]: "h' = h" by simp
  have "chosen_tuple p (Some (i, t)) j = ts[i := t] ! j" if "j < length (ts[i := t])" for j
    using that slot_tuple_nth [OF n(2)] by (auto simp: chosen_tuple_def nth_list_update)
  from compact_formatted [OF fit _ this, where h = h] n(1) v'(2,3)
  have "formatted (page_compact p h (Some (i, t))) owner nx (ts[i := t])" by simp
  from formatted_abs [OF this] show ?thesis by simp
qed

lemma fits_update:
  assumes "fits ts" "i < length ts"
  shows "fits (ts[i := None])"
    and "t \<noteq> [] \<Longrightarrow> fits (ts[i := Some t]) \<longleftrightarrow> dir (length ts) + tuple_bytes ts - tlen (ts ! i) + length t \<le> PAGE_SIZE"
proof -
  have le: "tlen (ts ! i) \<le> tuple_bytes ts" using tuple_bytes_update [OF assms(2), of None] by simp
  show "fits (ts[i := None])"
    using assms tuple_bytes_update [OF assms(2), of None] set_update_subset_insert [of ts i None]
    by (auto simp: fits_def)
  show "t \<noteq> [] \<Longrightarrow> fits (ts[i := Some t]) \<longleftrightarrow> dir (length ts) + tuple_bytes ts - tlen (ts ! i) + length t \<le> PAGE_SIZE"
    using assms(1) le tuple_bytes_update [OF assms(2), of "Some t"] set_update_subset_insert [of ts i "Some t"]
    by (auto simp: fits_def)
qed

lemma page_delete_abs:
  assumes a: "page_abs p = Some (owner, nx, ts)" and len: "length p = PAGE_SIZE" and sid: "sid \<noteq> 0"
  shows "tuple_at ts sid = None \<Longrightarrow> page_delete sid p = (Inr False, p)"
    and "tuple_at ts sid \<noteq> None \<Longrightarrow> \<exists>p'. page_delete sid p = (Inr True, p') \<and> length p' = PAGE_SIZE \<and>
      page_abs p' = Some (owner, nx, ts[unat sid - 1 := None])"
proof -
  from a len obtain h where v: "page_validate p = Inr (h, tuple_bytes ts)"
    and n: "unat (h_slots h) = length ts" "ts = page_tuples p (length ts)" and fit: "fits ts" by (rule page_absD)
  note r = slot_in_range [OF sid n(1)] and st = slot_tuple_nth [OF n(2)]
  show "page_delete sid p = (Inr False, p)" if "tuple_at ts sid = None"
    using that r st sid by (auto simp: page_delete_def v tuple_at_nth slot_empty_iff Let_def split: if_splits)
  show "\<exists>p'. page_delete sid p = (Inr True, p') \<and> length p' = PAGE_SIZE \<and>
      page_abs p' = Some (owner, nx, ts[unat sid - 1 := None])" if "tuple_at ts sid \<noteq> None"
  proof -
    from that sid have i: "unat sid - 1 < length ts" "ts ! (unat sid - 1) \<noteq> None"
      by (auto simp: tuple_at_nth split: if_splits)
    then have "page_delete sid p = (Inr True, page_compact p h (Some (unat sid - 1, None)))"
      using r st [of "unat sid - 1"] by (simp add: page_delete_def v slot_empty_iff Let_def)
    with page_change_abs [OF a len v i(1) fits_update(1) [OF fit i(1)]] show ?thesis by blast
  qed
qed

lemma page_replace_abs:
  assumes a: "page_abs p = Some (owner, nx, ts)" and len: "length p = PAGE_SIZE" and sid: "sid \<noteq> 0"
    and t: "t \<noteq> []" "length t \<le> MAX_TUPLE_SIZE"
  shows "tuple_at ts sid = None \<or> \<not> fits (ts[unat sid - 1 := Some t]) \<Longrightarrow> page_replace sid t p = (Inr False, p)"
    and "tuple_at ts sid \<noteq> None \<Longrightarrow> fits (ts[unat sid - 1 := Some t]) \<Longrightarrow>
      \<exists>p'. page_replace sid t p = (Inr True, p') \<and> length p' = PAGE_SIZE \<and>
        page_abs p' = Some (owner, nx, ts[unat sid - 1 := Some t])"
proof -
  from a len obtain h where v: "page_validate p = Inr (h, tuple_bytes ts)"
    and n: "unat (h_slots h) = length ts" "ts = page_tuples p (length ts)" and fit: "fits ts" by (rule page_absD)
  note r = slot_in_range [OF sid n(1)] and st = slot_tuple_nth [OF n(2)]
  have chk: "check_tuple t = Inr ()" using t by (simp add: check_tuple_iff)
  let ?i = "unat sid - 1"
  have old: "snd (slot p ?i) = tlen (ts ! ?i)" if "?i < length ts"
    using page_validate_sound(4) [OF v len, of ?i] that n(1) st [OF that, symmetric] len
    by (cases "slot p ?i") (auto simp: slot_tuple_def slot_ok_def length_slice)
  have live: "tlen (ts ! ?i) = 0 \<longleftrightarrow> ts ! ?i = None" if "?i < length ts"
    using old [OF that] st [OF that] slot_empty_iff [of p ?i] by simp
  note fu = fits_update(2) [OF fit _ t(1), of ?i]
  show "page_replace sid t p = (Inr False, p)" if "tuple_at ts sid = None \<or> \<not> fits (ts[?i := Some t])"
  proof (cases "?i < length ts")
    case True
    with that sid have "ts ! ?i = None \<or> \<not> fits (ts[?i := Some t])" by (simp add: tuple_at_nth)
    with True r old live fu show ?thesis by (auto simp: page_replace_def chk v n(1) Let_def)
  qed (use r in \<open>simp add: page_replace_def chk v Let_def\<close>)
  show "\<exists>p'. page_replace sid t p = (Inr True, p') \<and> length p' = PAGE_SIZE \<and>
        page_abs p' = Some (owner, nx, ts[?i := Some t])" if "tuple_at ts sid \<noteq> None" "fits (ts[?i := Some t])"
  proof -
    from that(1) sid have i: "?i < length ts" "ts ! ?i \<noteq> None" by (auto simp: tuple_at_nth split: if_splits)
    with that(2) r old live fu have "page_replace sid t p = (Inr True, page_compact p h (Some (?i, Some t)))"
      by (auto simp: page_replace_def chk v n(1) Let_def)
    with page_change_abs [OF a len v i(1) that(2)] show ?thesis by blast
  qed
qed

lemma validate_slots_disjoint:
  assumes "validate_slots p upper is occ used = Inr tb" "length occ = PAGE_SIZE" "distinct is"
  shows "(\<forall>i \<in> set is. occupied_set occ \<inter> {fst (slot p i)..<fst (slot p i) + snd (slot p i)} = {}) \<and>
    (\<forall>i \<in> set is. \<forall>j \<in> set is. i \<noteq> j \<longrightarrow>
       {fst (slot p i)..<fst (slot p i) + snd (slot p i)} \<inter> {fst (slot p j)..<fst (slot p j) + snd (slot p j)} = {})"
  using assms
proof (induction "is" arbitrary: occ used)
  case (Cons i "is")
  obtain off len where sl: "slot p i = (off, len)" by fastforce
  show ?case
  proof (cases "off = 0 \<and> len = 0")
    case True
    with sl Cons.prems Cons.IH [of occ used] show ?thesis by auto
  next
    case False
    with sl Cons.prems(1) obtain occ' where b: "off + len \<le> PAGE_SIZE"
      and m: "mark_occupied occ off len = Some occ'"
      and rest: "validate_slots p upper is occ' (used + len) = Inr tb"
      by (auto split: if_splits option.splits)
    from mark_occupied_Some [OF _ m] b Cons.prems(2) have occ': "length occ' = PAGE_SIZE"
      "occupied_set occ' = occupied_set occ \<union> {off..<off + len}" "occupied_set occ \<inter> {off..<off + len} = {}" by auto
    from Cons.IH [OF rest occ'(1)] Cons.prems(3)
    have IH: "\<forall>j \<in> set is. occupied_set occ' \<inter> {fst (slot p j)..<fst (slot p j) + snd (slot p j)} = {}"
      "\<forall>j \<in> set is. \<forall>k \<in> set is. j \<noteq> k \<longrightarrow>
        {fst (slot p j)..<fst (slot p j) + snd (slot p j)} \<inter> {fst (slot p k)..<fst (slot p k) + snd (slot p k)} = {}"
      by simp_all
    have new: "occupied_set occ \<inter> {fst (slot p j)..<fst (slot p j) + snd (slot p j)} = {}"
      "{off..<off + len} \<inter> {fst (slot p j)..<fst (slot p j) + snd (slot p j)} = {}" if "j \<in> set is" for j
      using IH(1) that occ'(2) by blast+
    show ?thesis using IH(2) new occ'(3) sl by (auto simp: Int_commute)
  qed
qed simp

lemma page_validate_slots:
  assumes "page_validate p = Inr (h, used)"
  shows "validate_slots p (unat (u16_at p 22)) [0..<unat (h_slots h)] (replicate PAGE_SIZE False) 0 = Inr used"
  using assms by (auto simp: page_validate_def Let_def and_then_Inr_iff split: if_splits)

lemma page_insert_spec:
  assumes "page_abs p = Some (owner, nx, ts)" "length p = PAGE_SIZE"
  shows "if t = [] \<or> length t > MAX_TUPLE_SIZE
    then page_insert t p = (Inl (InvalidTupleSize (length t) MAX_TUPLE_SIZE), p)
    else if fits (ts @ [Some t])
    then \<exists>p'. page_insert t p = (Inr (Some (word_of_nat (length ts + 1))), p') \<and>
      length p' = PAGE_SIZE \<and> page_abs p' = Some (owner, nx, ts @ [Some t])
    else page_insert t p = (Inr None, p)"
  using page_insert_abs [OF assms, of t] by auto

lemma page_invalid:
  assumes "page_abs p = None"
  shows "snd (page_insert t p) = p" "snd (page_delete sid p) = p" "snd (page_replace sid t p) = p"
    "snd (page_set_next nx p) = p"
  using assms
  by (auto simp: page_abs_validate_iff page_insert_def page_delete_def page_replace_def page_set_next_def
      split: sum.split)

lemma page_ops_length:
  assumes len: "length p = PAGE_SIZE"
  shows "length (snd (page_insert t p)) = PAGE_SIZE" "length (snd (page_set_next nx p)) = PAGE_SIZE"
    and "sid \<noteq> 0 \<Longrightarrow> length (snd (page_delete sid p)) = PAGE_SIZE"
    and "sid \<noteq> 0 \<Longrightarrow> length (snd (page_replace sid t p)) = PAGE_SIZE"
proof -
  have "length (snd (page_insert t p)) = PAGE_SIZE \<and> length (snd (page_set_next nx p)) = PAGE_SIZE \<and>
    (sid \<noteq> 0 \<longrightarrow> length (snd (page_delete sid p)) = PAGE_SIZE \<and> length (snd (page_replace sid t p)) = PAGE_SIZE)"
  proof (cases "page_abs p")
    case None
    with len page_invalid [OF None] show ?thesis by simp
  next
    case (Some a)
    obtain owner nx' ts where a: "page_abs p = Some (owner, nx', ts)" using Some by (cases a) auto
    have "length (snd (page_replace sid t p)) = PAGE_SIZE" if "sid \<noteq> 0"
    proof (cases "check_tuple t")
      case (Inr u)
      then have t: "t \<noteq> []" "length t \<le> MAX_TUPLE_SIZE" by (auto simp: check_tuple_iff)
      show ?thesis
        using page_replace_abs [OF a len that t] len
        by (cases "tuple_at ts sid = None \<or> \<not> fits (ts[unat sid - 1 := Some t])") auto
    qed (simp add: page_replace_def len)
    moreover have "length (snd (page_delete sid p)) = PAGE_SIZE" if "sid \<noteq> 0"
      using page_delete_abs [OF a len that] len by (cases "tuple_at ts sid = None") auto
    moreover have "length (snd (page_insert t p)) = PAGE_SIZE"
      using page_insert_spec [OF a len, of t] len by (auto split: if_splits)
    ultimately show ?thesis using page_set_next_abs [OF a len, of nx] by simp
  qed
  then show "length (snd (page_insert t p)) = PAGE_SIZE" "length (snd (page_set_next nx p)) = PAGE_SIZE"
    and "sid \<noteq> 0 \<Longrightarrow> length (snd (page_delete sid p)) = PAGE_SIZE"
    and "sid \<noteq> 0 \<Longrightarrow> length (snd (page_replace sid t p)) = PAGE_SIZE" by auto
qed

section \<open>Properties\<close>

lemma fresh_page:
  "page_abs (initialize zero_page 7) = Some (7, None, [])" "length (initialize zero_page 7) = PAGE_SIZE"
  by (simp_all add: page_abs_initialize initialize_page(1))

text \<open>
  C26: A page accepted by \<^verbatim>\<open>validate\<close> is safe to index: every non-empty slot describes a
  non-empty byte range between the end of the slot directory and the end of the page, no two
  such ranges overlap, and directory plus records fit on the page. No wire-provided offset is
  used outside these bounds.
\<close>

theorem page_validate_bounds:
  assumes "page_validate p = Inr (h, used)" "length p = PAGE_SIZE"
  shows "HEADER_SIZE + unat (h_slots h) * SLOT_SIZE + used \<le> PAGE_SIZE \<and>
    (\<forall>i < unat (h_slots h). slot_ok (HEADER_SIZE + unat (h_slots h) * SLOT_SIZE) (slot p i)) \<and>
    (\<forall>i < unat (h_slots h). \<forall>j < unat (h_slots h). i \<noteq> j \<longrightarrow>
       {fst (slot p i)..<fst (slot p i) + snd (slot p i)} \<inter> {fst (slot p j)..<fst (slot p j) + snd (slot p j)} = {})"
  using page_validate_sound(4,6) [OF assms] validate_slots_disjoint [OF page_validate_slots [OF assms(1)]] by simp

theorem page_validate_bounds_witness:
  "\<exists>h used. page_validate (initialize zero_page 7) = Inr (h, used) \<and>
     HEADER_SIZE + unat (h_slots h) * SLOT_SIZE + used \<le> PAGE_SIZE"
  using formatted_validate(1) [OF initialize_formatted [of zero_page 7]]
    page_validate_bounds [of "initialize zero_page 7"] initialize_page(1) [of zero_page 7] by auto

text \<open>
  C15: \<^verbatim>\<open>page::insert\<close> on a valid page refines appending to the slot list. A record of
  legal size that fits gets the next slot number and every existing slot keeps its record
  (tombstones are never reused); one that does not fit or has an illegal size leaves the
  page untouched. The new page validates again with the same owner and successor.
\<close>

theorem page_insert_refines:
  assumes "page_abs p = Some (owner, nx, ts)" "length p = PAGE_SIZE"
  shows "if t = [] \<or> length t > MAX_TUPLE_SIZE
    then page_insert t p = (Inl (InvalidTupleSize (length t) MAX_TUPLE_SIZE), p)
    else if fits (ts @ [Some t])
    then \<exists>p'. page_insert t p = (Inr (Some (word_of_nat (length ts + 1))), p') \<and>
      length p' = PAGE_SIZE \<and> page_abs p' = Some (owner, nx, ts @ [Some t])
    else page_insert t p = (Inr None, p)"
  using assms by (rule page_insert_spec)

theorem page_insert_refines_witness:
  "\<exists>p'. page_insert [1, 2, 3] (initialize zero_page 7) = (Inr (Some 1), p') \<and>
     page_abs p' = Some (7, None, [Some [1, 2, 3]])"
  using page_insert_refines [OF fresh_page, of "[1, 2, 3]"]
  by (auto simp: fits_def HEADER_SIZE_def SLOT_SIZE_def MAX_TUPLE_SIZE_def PAGE_SIZE_def)

text \<open>
  \<^verbatim>\<open>page::get\<close> and \<^verbatim>\<open>page::records\<close> read the slot list of a valid page: a slot number
  beyond the directory or on a tombstone gives nothing, and iteration up to a limit lists
  exactly the live slots below it in order, rejecting a limit beyond the directory.
\<close>

theorem page_reads_refine:
  assumes "page_abs p = Some (owner, nx, ts)" "length p = PAGE_SIZE" "sid \<noteq> 0"
  shows "page_get p sid = Inr (tuple_at ts sid) \<and>
    page_records p limit = (if unat limit \<le> length ts then Inr (live_slots (take (unat limit) ts))
      else Inl (Corrupt ''scan limit exceeds slot directory''))"
  using page_get_abs [OF assms] page_records_abs [OF assms(1,2)] by simp

theorem page_reads_refine_witness:
  "page_get (initialize zero_page 7) 1 = Inr None \<and> page_records (initialize zero_page 7) 0 = Inr []"
  using page_reads_refine [OF fresh_page, of 1 0]
  by (simp add: tuple_at_def live_slots_def List.map_filter_simps)

text \<open>
  \<^verbatim>\<open>page::delete\<close> turns a live slot into a tombstone and compacts the page; slot
  numbers and the records of all other slots are unchanged. Deleting a missing or already
  deleted slot changes nothing.
\<close>

theorem page_delete_refines:
  assumes "page_abs p = Some (owner, nx, ts)" "length p = PAGE_SIZE" "sid \<noteq> 0"
  shows "if tuple_at ts sid = None then page_delete sid p = (Inr False, p)
    else \<exists>p'. page_delete sid p = (Inr True, p') \<and> length p' = PAGE_SIZE \<and>
      page_abs p' = Some (owner, nx, ts[unat sid - 1 := None])"
  using page_delete_abs [OF assms] by simp

theorem page_delete_refines_witness:
  "page_delete 1 (initialize zero_page 7) = (Inr False, initialize zero_page 7)"
  using page_delete_refines [OF fresh_page, of 1]
  by (simp add: tuple_at_def)

text \<open>
  \<^verbatim>\<open>page::replace\<close> with a legal record replaces exactly one live slot when the
  compacted page has room for the new record (reusing the space of the old one), whether it
  grows or shrinks; otherwise the page is untouched and the result is \<^verbatim>\<open>false\<close>.
\<close>

theorem page_replace_refines:
  assumes "page_abs p = Some (owner, nx, ts)" "length p = PAGE_SIZE" "sid \<noteq> 0"
    and "t \<noteq> []" "length t \<le> MAX_TUPLE_SIZE"
  shows "if tuple_at ts sid \<noteq> None \<and> fits (ts[unat sid - 1 := Some t])
    then \<exists>p'. page_replace sid t p = (Inr True, p') \<and> length p' = PAGE_SIZE \<and>
      page_abs p' = Some (owner, nx, ts[unat sid - 1 := Some t])
    else page_replace sid t p = (Inr False, p)"
  using page_replace_abs [OF assms] by auto

theorem page_replace_refines_witness:
  "\<exists>p p'. page_abs p = Some (7, None, [Some [1]]) \<and> page_replace 1 [5, 6] p = (Inr True, p') \<and>
     page_abs p' = Some (7, None, [Some [5, 6]])"
proof -
  obtain p where p: "length p = PAGE_SIZE" "page_abs p = Some (7, None, [Some [1]])"
    using page_insert_abs(1) [OF fresh_page, of "[1]"]
    by (auto simp: fits_def HEADER_SIZE_def SLOT_SIZE_def MAX_TUPLE_SIZE_def PAGE_SIZE_def)
  from page_replace_refines [OF p(2,1), of 1 "[5, 6]"] p show ?thesis
    by (auto simp: tuple_at_def fits_def HEADER_SIZE_def SLOT_SIZE_def MAX_TUPLE_SIZE_def PAGE_SIZE_def)
qed

end
