(* ===== verification/CatalogCodec.thy ===== *)
theory CatalogCodec
  imports Schema HeapPage
begin

text \<open>
  The record format of the catalog, \<^verbatim>\<open>crates/catalog/src/codec.rs\<close>: validation, encoding
  and decoding of a table's metadata. The writer appends to an output buffer, the reader is
  a state transformer on the bytes left; both report their failures as strings. The
  properties say that encoding and decoding are inverse to each other on valid metadata.
\<close>

section \<open>Metadata and its validation\<close>

definition MANIFEST :: "u8 list" where
  "MANIFEST = as_bytes ''CHILICAT'' @ [1, 0]"

definition TABLE :: "u8 list" where
  "TABLE = as_bytes ''CHILICAT'' @ [1, 1]"

record metadata =
  md_schema :: table_schema
  md_head :: u32
  md_constraints :: "table_constraint list"

fun validate_columns :: "string list \<Rightarrow> column_schema list \<Rightarrow> string + unit" where
  "validate_columns names [] = Inr ()"
| "validate_columns names (c # cs) =
     (if col_name c = [] \<or> col_name c \<in> set names then Inl ''empty or duplicate column name''
      else if col_type c = TNull then Inl ''NULL is not a column type''
      else validate_columns (col_name c # names) cs)"

fun validate_indices :: "column_schema list \<Rightarrow> bool \<Rightarrow> nat list \<Rightarrow> nat list \<Rightarrow> string + unit" where
  "validate_indices columns pk seen [] = Inr ()"
| "validate_indices columns pk seen (i # is) =
     (if i \<ge> length columns then Inl ''constraint index out of bounds''
      else if i \<in> set seen then Inl ''repeated constraint index''
      else if pk \<and> col_nullable (columns ! i) then Inl ''nullable primary key''
      else validate_indices columns pk (i # seen) is)"

fun constraint_parts :: "table_constraint \<Rightarrow> nat list \<times> bool" where
  "constraint_parts (PrimaryKey v) = (v, True)"
| "constraint_parts (Unique v) = (v, False)"

fun validate_constraints :: "column_schema list \<Rightarrow> bool \<Rightarrow> table_constraint list \<Rightarrow> string + unit" where
  "validate_constraints columns primary [] = Inr ()"
| "validate_constraints columns primary (c # cs) =
     (case constraint_parts c of (indices, pk) \<Rightarrow>
        if pk \<and> primary then Inl ''multiple primary keys''
        else if indices = [] then Inl ''empty constraint''
        else and_then (validate_indices columns pk [] indices) (\<lambda>_.
          validate_constraints columns (primary \<or> pk) cs))"

definition validate :: "metadata \<Rightarrow> string + unit" where
  "validate m =
     (if ts_name (md_schema m) = [] \<or> ts_columns (md_schema m) = [] then Inl ''empty table name or column list''
      else and_then (validate_columns [] (ts_columns (md_schema m))) (\<lambda>_.
        validate_constraints (ts_columns (md_schema m)) False (md_constraints m)))"

section \<open>Encoding\<close>

definition put_number :: "u8 list \<Rightarrow> nat \<Rightarrow> string + u8 list" where
  "put_number out n = (if n < 2 ^ 32 then Inr (out @ u32_to_le_bytes (word_of_nat n))
     else Inl ''metadata count overflow'')"

definition put_string :: "u8 list \<Rightarrow> string \<Rightarrow> string + u8 list" where
  "put_string out s = and_then (put_number out (length s)) (\<lambda>out. Inr (out @ as_bytes s))"

fun type_tag :: "logical_type \<Rightarrow> string + u8" where
  "type_tag TBoolean = Inr 1"
| "type_tag TInt32 = Inr 2"
| "type_tag TInt64 = Inr 3"
| "type_tag TUint32 = Inr 4"
| "type_tag TFloat32 = Inr 5"
| "type_tag TFloat64 = Inr 6"
| "type_tag TText = Inr 7"
| "type_tag (TVarchar None) = Inr 8"
| "type_tag (TVarchar (Some n)) = Inr 9"
| "type_tag TNull = Inl ''NULL is not a column type''"

fun encode_columns :: "u8 list \<Rightarrow> column_schema list \<Rightarrow> string + u8 list" where
  "encode_columns out [] = Inr out"
| "encode_columns out (c # cs) =
     and_then (put_string out (col_name c)) (\<lambda>out.
     let out = out @ [if col_nullable c then 1 else 0] in
     and_then (type_tag (col_type c)) (\<lambda>tag.
     let out = out @ [tag] in
     encode_columns (case col_type c of TVarchar (Some n) \<Rightarrow> out @ u32_to_le_bytes n | _ \<Rightarrow> out) cs))"

fun encode_indices :: "u8 list \<Rightarrow> nat list \<Rightarrow> string + u8 list" where
  "encode_indices out [] = Inr out"
| "encode_indices out (i # is) = and_then (put_number out i) (\<lambda>out. encode_indices out is)"

fun constraint_tag :: "table_constraint \<Rightarrow> u8 \<times> nat list" where
  "constraint_tag (PrimaryKey v) = (1, v)"
| "constraint_tag (Unique v) = (2, v)"

fun encode_constraints :: "u8 list \<Rightarrow> table_constraint list \<Rightarrow> string + u8 list" where
  "encode_constraints out [] = Inr out"
| "encode_constraints out (c # cs) =
     (case constraint_tag c of (tag, indices) \<Rightarrow>
        and_then (put_number (out @ [tag]) (length indices)) (\<lambda>out.
        and_then (encode_indices out indices) (\<lambda>out. encode_constraints out cs)))"

definition encode :: "metadata \<Rightarrow> string + u8 list" where
  "encode m = and_then (validate m) (\<lambda>_.
     and_then (put_string (TABLE @ u32_to_le_bytes (md_head m)) (ts_name (md_schema m))) (\<lambda>out.
     and_then (put_number out (length (ts_columns (md_schema m)))) (\<lambda>out.
     and_then (encode_columns out (ts_columns (md_schema m))) (\<lambda>out.
     and_then (put_number out (length (md_constraints m))) (\<lambda>out.
     and_then (encode_constraints out (md_constraints m)) (\<lambda>out.
     if length out > MAX_TUPLE_SIZE then Inl ''catalog metadata exceeds maximum tuple size''
     else Inr out))))))"

section \<open>Decoding\<close>

type_synonym 'a reader = "(u8 list, string, 'a) io"

definition reader_take :: "nat \<Rightarrow> u8 list reader" where
  "reader_take n r = (if n > length r then (Inl ''truncated metadata'', r) else (Inr (take n r), drop n r))"

definition reader_byte :: "u8 reader" where
  "reader_byte = io_then (reader_take 1) (\<lambda>a. io_ok (a ! 0))"

definition reader_number :: "u32 reader" where
  "reader_number = io_then (reader_take 4) (\<lambda>a. io_ok (u32_from_le_bytes a))"

definition reader_count :: "nat reader" where
  "reader_count = io_then reader_number (\<lambda>n r.
     if unat n > length r then (Inl ''invalid metadata count'', r) else (Inr (unat n), r))"

definition reader_string :: "string reader" where
  "reader_string = io_then reader_count (\<lambda>n.
     io_then (reader_take n) (\<lambda>a. io_lift (ok_or ''invalid UTF-8'' (from_utf8 a))))"

fun reader_repeat :: "nat \<Rightarrow> 'a reader \<Rightarrow> 'a list reader" where
  "reader_repeat 0 f = io_ok []"
| "reader_repeat (Suc n) f = io_then f (\<lambda>x. io_then (reader_repeat n f) (\<lambda>xs. io_ok (x # xs)))"

definition decode_nullable :: "u8 \<Rightarrow> string + bool" where
  "decode_nullable b = (if b = 0 then Inr False else if b = 1 then Inr True else Inl ''invalid nullability'')"

definition decode_type :: "u8 \<Rightarrow> logical_type reader" where
  "decode_type tag =
     (if tag = 1 then io_ok TBoolean else if tag = 2 then io_ok TInt32 else if tag = 3 then io_ok TInt64
      else if tag = 4 then io_ok TUint32 else if tag = 5 then io_ok TFloat32 else if tag = 6 then io_ok TFloat64
      else if tag = 7 then io_ok TText else if tag = 8 then io_ok (TVarchar None)
      else if tag = 9 then io_then reader_number (\<lambda>n.
        if n = 0 then io_err ''zero varchar bound'' else io_ok (TVarchar (Some n)))
      else io_err ''unknown logical type'')"

definition decode_column :: "column_schema reader" where
  "decode_column = io_then reader_string (\<lambda>name.
     io_then (io_then reader_byte (\<lambda>b. io_lift (decode_nullable b))) (\<lambda>nullable.
     io_then (io_then reader_byte decode_type) (\<lambda>data_type.
     io_ok \<lparr>col_name = name, col_type = data_type, col_nullable = nullable\<rparr>)))"

definition decode_constraint :: "table_constraint reader" where
  "decode_constraint = io_then reader_byte (\<lambda>tag.
     io_then reader_count (\<lambda>count.
     io_then (reader_repeat count (io_then reader_number (\<lambda>n. io_ok (unat n)))) (\<lambda>indices.
     if tag = 1 then io_ok (PrimaryKey indices)
     else if tag = 2 then io_ok (Unique indices)
     else io_err ''unknown constraint'')))"

definition decode_fields :: "metadata reader" where
  "decode_fields =
     io_then (reader_take (length TABLE)) (\<lambda>magic.
     if magic \<noteq> TABLE then io_err ''unknown catalog record or version''
     else io_then reader_number (\<lambda>head.
     io_then reader_string (\<lambda>name.
     io_then reader_count (\<lambda>n.
     io_then (reader_repeat n decode_column) (\<lambda>columns.
     io_then reader_count (\<lambda>n.
     io_then (reader_repeat n decode_constraint) (\<lambda>constraints r.
     if r \<noteq> [] then (Inl ''trailing metadata bytes'', r)
     else (Inr \<lparr>md_schema = \<lparr>ts_name = name, ts_columns = columns\<rparr>, md_head = head,
                md_constraints = constraints\<rparr>, r))))))))"

definition decode :: "u8 list \<Rightarrow> string + metadata" where
  "decode bytes = and_then (fst (decode_fields bytes)) (\<lambda>m. and_then (validate m) (\<lambda>_. Inr m))"

section \<open>What validation establishes\<close>

fun constraint_ok :: "column_schema list \<Rightarrow> table_constraint \<Rightarrow> bool" where
  "constraint_ok columns (PrimaryKey v) \<longleftrightarrow> v \<noteq> [] \<and> distinct v \<and>
     (\<forall>i \<in> set v. i < length columns \<and> \<not> col_nullable (columns ! i))"
| "constraint_ok columns (Unique v) \<longleftrightarrow> v \<noteq> [] \<and> distinct v \<and> (\<forall>i \<in> set v. i < length columns)"

fun is_primary :: "table_constraint \<Rightarrow> bool" where
  "is_primary (PrimaryKey v) = True"
| "is_primary (Unique v) = False"

definition schema_ok :: "column_schema list \<Rightarrow> table_constraint list \<Rightarrow> bool" where
  "schema_ok columns cs \<longleftrightarrow> columns \<noteq> [] \<and> distinct (map col_name columns) \<and>
     (\<forall>c \<in> set columns. col_name c \<noteq> [] \<and> col_type c \<noteq> TNull) \<and>
     length (filter is_primary cs) \<le> 1 \<and> (\<forall>c \<in> set cs. constraint_ok columns c)"

lemma validate_columns_iff:
  "validate_columns names cs = Inr () \<longleftrightarrow> distinct (map col_name cs) \<and>
     (\<forall>c \<in> set cs. col_name c \<noteq> [] \<and> col_type c \<noteq> TNull \<and> col_name c \<notin> set names)"
  by (induction cs arbitrary: names) (auto simp: rev_image_eqI)

lemma validate_indices_iff:
  "validate_indices columns pk seen is = Inr () \<longleftrightarrow> distinct is \<and>
     (\<forall>i \<in> set is. i < length columns \<and> i \<notin> set seen \<and> (pk \<longrightarrow> \<not> col_nullable (columns ! i)))"
  by (induction "is" arbitrary: seen) auto

lemma constraint_ok_parts:
  "constraint_ok columns c \<longleftrightarrow> fst (constraint_parts c) \<noteq> [] \<and>
     validate_indices columns (snd (constraint_parts c)) [] (fst (constraint_parts c)) = Inr ()"
  "is_primary c = snd (constraint_parts c)"
  by (cases c; auto simp: validate_indices_iff)+

lemma validate_constraints_iff:
  "validate_constraints columns primary cs = Inr () \<longleftrightarrow>
     length (filter is_primary cs) + (if primary then 1 else 0) \<le> 1 \<and> (\<forall>c \<in> set cs. constraint_ok columns c)"
proof (induction cs arbitrary: primary)
  case (Cons c cs)
  obtain v pk where c: "constraint_parts c = (v, pk)" by fastforce
  show ?case
    by (auto simp: c Cons.IH constraint_ok_parts and_then_Inr_iff split: if_splits)
qed simp

lemma validate_iff:
  "validate m = Inr () \<longleftrightarrow> ts_name (md_schema m) \<noteq> [] \<and> schema_ok (ts_columns (md_schema m)) (md_constraints m)"
  by (auto simp: validate_def schema_ok_def and_then_Inr_iff validate_columns_iff validate_constraints_iff)

section \<open>The bytes of each field\<close>

definition enc_number :: "nat \<Rightarrow> u8 list" where
  "enc_number n = u32_to_le_bytes (word_of_nat n)"

definition enc_string :: "string \<Rightarrow> u8 list" where
  "enc_string s = enc_number (length s) @ as_bytes s"

definition tag_byte :: "logical_type \<Rightarrow> u8" where
  "tag_byte t = (case type_tag t of Inr b \<Rightarrow> b | Inl _ \<Rightarrow> 0)"

definition bound_bytes :: "logical_type \<Rightarrow> u8 list" where
  "bound_bytes t = (case t of TVarchar (Some n) \<Rightarrow> u32_to_le_bytes n | _ \<Rightarrow> [])"

definition enc_column :: "column_schema \<Rightarrow> u8 list" where
  "enc_column c = enc_string (col_name c) @ [if col_nullable c then 1 else 0] @ [tag_byte (col_type c)] @
     bound_bytes (col_type c)"

definition enc_constraint :: "table_constraint \<Rightarrow> u8 list" where
  "enc_constraint c = (case constraint_tag c of (tag, v) \<Rightarrow>
     [tag] @ enc_number (length v) @ concat (map enc_number v))"

definition enc_fields :: "metadata \<Rightarrow> u8 list" where
  "enc_fields m = TABLE @ u32_to_le_bytes (md_head m) @ enc_string (ts_name (md_schema m)) @
     enc_number (length (ts_columns (md_schema m))) @ concat (map enc_column (ts_columns (md_schema m))) @
     enc_number (length (md_constraints m)) @ concat (map enc_constraint (md_constraints m))"

definition small :: "nat \<Rightarrow> bool" where
  "small n \<longleftrightarrow> n < 2 ^ 32"

definition column_small :: "column_schema \<Rightarrow> bool" where
  "column_small c \<longleftrightarrow> small (length (col_name c)) \<and> col_type c \<noteq> TNull"

definition constraint_small :: "table_constraint \<Rightarrow> bool" where
  "constraint_small c \<longleftrightarrow> (case constraint_tag c of (tag, v) \<Rightarrow> small (length v) \<and> list_all small v)"

lemma put_number_Inr: "put_number out n = Inr out' \<longleftrightarrow> small n \<and> out' = out @ enc_number n"
  by (auto simp: put_number_def small_def enc_number_def)

lemma put_string_Inr: "put_string out s = Inr out' \<longleftrightarrow> small (length s) \<and> out' = out @ enc_string s"
  by (auto simp: put_string_def and_then_Inr_iff put_number_Inr enc_string_def)

lemma type_tag_Inr: "type_tag t = Inr b \<longleftrightarrow> t \<noteq> TNull \<and> b = tag_byte t"
  by (cases t rule: type_tag.cases) (auto simp: tag_byte_def)

lemma bound_bytes_append:
  "(case t of TVarchar (Some n) \<Rightarrow> out @ u32_to_le_bytes n | _ \<Rightarrow> out) = out @ bound_bytes t"
  by (simp add: bound_bytes_def split: logical_type.split option.split)

lemma encode_columns_Inr:
  "encode_columns out cs = Inr out' \<longleftrightarrow> list_all column_small cs \<and> out' = out @ concat (map enc_column cs)"
  by (induction cs arbitrary: out)
    (auto simp: and_then_Inr_iff put_string_Inr type_tag_Inr Let_def bound_bytes_append enc_column_def column_small_def)

lemma encode_indices_Inr:
  "encode_indices out v = Inr out' \<longleftrightarrow> list_all small v \<and> out' = out @ concat (map enc_number v)"
  by (induction v arbitrary: out) (auto simp: and_then_Inr_iff put_number_Inr)

lemma encode_constraints_Inr:
  "encode_constraints out cs = Inr out' \<longleftrightarrow>
     list_all constraint_small cs \<and> out' = out @ concat (map enc_constraint cs)"
  by (induction cs arbitrary: out)
    (auto simp: and_then_Inr_iff put_number_Inr encode_indices_Inr constraint_small_def enc_constraint_def split: prod.splits)

lemma encode_Inr:
  "encode m = Inr out \<longleftrightarrow> validate m = Inr () \<and> out = enc_fields m \<and> length out \<le> MAX_TUPLE_SIZE \<and>
     small (length (ts_name (md_schema m))) \<and> small (length (ts_columns (md_schema m))) \<and>
     list_all column_small (ts_columns (md_schema m)) \<and> small (length (md_constraints m)) \<and>
     list_all constraint_small (md_constraints m)"
  by (auto simp: encode_def and_then_Inr_iff put_string_Inr put_number_Inr encode_columns_Inr encode_constraints_Inr
      enc_fields_def)

text \<open>Every length in a record that fits a tuple is small.\<close>

lemma length_le_enc:
  "length s \<le> length (enc_string s)" "x \<in> set xs \<Longrightarrow> length (f x) \<le> length (concat (map f xs))"
  "(\<And>x. f x \<noteq> []) \<Longrightarrow> length xs \<le> length (concat (map f xs))"
proof -
  show "length s \<le> length (enc_string s)" by (simp add: enc_string_def)
  show "x \<in> set xs \<Longrightarrow> length (f x) \<le> length (concat (map f xs))" by (induction xs) auto
  assume ne: "\<And>x. f x \<noteq> []"
  have "1 \<le> length (f x)" for x using ne [of x] by (cases "f x") auto
  then show "length xs \<le> length (concat (map f xs))"
  proof (induction xs)
    case (Cons a xs)
    from Cons.IH [OF Cons.prems] Cons.prems [of a] show ?case by simp
  qed simp
qed

lemma enc_nonempty [simp]: "enc_column c \<noteq> []" "enc_constraint d \<noteq> []" "enc_number n \<noteq> []"
proof -
  have "length (enc_number n) = 4" for n by (simp add: enc_number_def)
  then show "enc_number n \<noteq> []" by (metis length_0_conv zero_neq_numeral)
qed (simp_all add: enc_column_def enc_constraint_def split: prod.split)

section \<open>Decoding inverts encoding\<close>

definition reads :: "'a reader \<Rightarrow> u8 list \<Rightarrow> 'a \<Rightarrow> bool" where
  "reads f bs x \<longleftrightarrow> (\<forall>r. f (bs @ r) = (Inr x, r))"

lemma reads_take: "length bs = n \<Longrightarrow> reads (reader_take n) bs bs"
  by (simp add: reads_def reader_take_def)

lemma reads_ok: "reads (io_ok x) [] x"
  by (simp add: reads_def)

lemma reads_then: "reads f a x \<Longrightarrow> reads (k x) b y \<Longrightarrow> reads (io_then f k) (a @ b) y"
  by (simp add: reads_def)

lemma reads_then_nil: "reads f a x \<Longrightarrow> reads (k x) [] y \<Longrightarrow> reads (io_then f k) a y"
  using reads_then [of f a x k "[]"] by simp

lemma reads_byte: "reads reader_byte [b] b"
  unfolding reader_byte_def by (rule reads_then_nil [OF reads_take]) (simp_all add: reads_def)

lemma reads_number: "reads reader_number (u32_to_le_bytes n) n"
  unfolding reader_number_def by (rule reads_then_nil [OF reads_take]) (simp_all add: reads_def)

lemma unat_small: "small n \<Longrightarrow> unat (word_of_nat n :: u32) = n"
  by (simp add: small_def unat_of_nat)

lemma reads_index: "small n \<Longrightarrow> reads (io_then reader_number (\<lambda>n. io_ok (unat n))) (enc_number n) n"
  unfolding enc_number_def by (rule reads_then_nil [OF reads_number]) (simp add: reads_def unat_small)

lemma count_run: "small n \<Longrightarrow> n \<le> length r \<Longrightarrow> reader_count (enc_number n @ r) = (Inr n, r)"
  using reads_number [of "word_of_nat n"]
  by (simp add: reader_count_def enc_number_def reads_def unat_small)

lemma reads_string:
  assumes "small (length s)" "is_str s"
  shows "reads reader_string (enc_string s) s"
proof -
  have "from_utf8 (as_bytes s) = Some s" using assms(2) by (simp add: from_utf8_iff)
  with assms(1) show ?thesis
    by (simp add: reads_def reader_string_def enc_string_def count_run reader_take_def io_then_def)
qed

lemma reads_repeat:
  "(\<And>x. x \<in> set xs \<Longrightarrow> reads f (e x) x) \<Longrightarrow> reads (reader_repeat (length xs) f) (concat (map e xs)) xs"
proof (induction xs)
  case (Cons x xs)
  then show ?case
    by (simp, intro reads_then [of f "e x" x]) (auto intro!: reads_then_nil [where x = xs] reads_ok)
qed (simp add: reads_def)

lemma reads_list:
  assumes "small (length xs)" "\<And>x. x \<in> set xs \<Longrightarrow> reads f (e x) x" "\<And>x. e x \<noteq> []" "reads (k xs) b y"
  shows "reads (io_then reader_count (\<lambda>n. io_then (reader_repeat n f) k))
    (enc_number (length xs) @ concat (map e xs) @ b) y"
proof -
  have "length xs \<le> length (concat (map e xs) @ b @ r)" for r
    using length_le_enc(3) [of e xs, OF assms(3)] by simp
  with reads_repeat [of xs f e, OF assms(2)] assms(1,4) show ?thesis
    by (simp add: reads_def count_run)
qed

lemma reads_type:
  assumes "t \<noteq> TNull" "type_ok t"
  shows "reads (decode_type (tag_byte t)) (bound_bytes t) t"
proof (cases t)
  case (TVarchar b)
  then show ?thesis
  proof (cases b)
    case (Some n)
    with TVarchar assms(2) have "n \<noteq> 0" by (auto simp: type_ok_def)
    with TVarchar Some show ?thesis
      using reads_number [of n] by (simp add: reads_def decode_type_def tag_byte_def bound_bytes_def)
  qed (use TVarchar in \<open>simp add: reads_def decode_type_def tag_byte_def bound_bytes_def\<close>)
qed (use assms in \<open>simp_all add: reads_def decode_type_def tag_byte_def bound_bytes_def\<close>)

definition column_ok :: "column_schema \<Rightarrow> bool" where
  "column_ok c \<longleftrightarrow> is_str (col_name c) \<and> type_ok (col_type c)"

text \<open>What the Rust types guarantee of any metadata value: UTF-8 names, nonzero bounds.\<close>

definition metadata_ok :: "metadata \<Rightarrow> bool" where
  "metadata_ok m \<longleftrightarrow> is_str (ts_name (md_schema m)) \<and> (\<forall>c \<in> set (ts_columns (md_schema m)). column_ok c)"

lemma reads_column:
  assumes "column_small c" "column_ok c"
  shows "reads decode_column (enc_column c) c"
  unfolding decode_column_def enc_column_def
proof (rule reads_then)
  show "reads reader_string (enc_string (col_name c)) (col_name c)"
    using assms by (intro reads_string) (simp_all add: column_small_def column_ok_def)
  let ?b = "if col_nullable c then 1 else 0 :: u8"
  have "reads (io_lift (decode_nullable ?b)) [] (col_nullable c)" by (simp add: reads_def decode_nullable_def)
  then have n: "reads (io_then reader_byte (\<lambda>b. io_lift (decode_nullable b))) [?b] (col_nullable c)"
    by (rule reads_then_nil [OF reads_byte])
  have "reads (decode_type (tag_byte (col_type c))) (bound_bytes (col_type c)) (col_type c)"
    using assms by (intro reads_type) (simp_all add: column_small_def column_ok_def)
  then have t: "reads (io_then reader_byte decode_type) ([tag_byte (col_type c)] @ bound_bytes (col_type c)) (col_type c)"
    by (rule reads_then [OF reads_byte])
  show "reads (io_then (io_then reader_byte (\<lambda>b. io_lift (decode_nullable b)))
      (\<lambda>nullable. io_then (io_then reader_byte decode_type)
        (\<lambda>data_type. io_ok \<lparr>col_name = col_name c, col_type = data_type, col_nullable = nullable\<rparr>)))
      ([?b] @ [tag_byte (col_type c)] @ bound_bytes (col_type c)) c"
    by (rule reads_then [OF n], rule reads_then_nil [OF t]) (simp add: reads_def)
qed

lemma reads_constraint:
  assumes "constraint_small c"
  shows "reads decode_constraint (enc_constraint c) c"
proof -
  obtain tag v where c: "constraint_tag c = (tag, v)" by fastforce
  have sm: "small (length v)" "\<And>i. i \<in> set v \<Longrightarrow> small i"
    using assms by (auto simp: constraint_small_def c list_all_iff)
  have k: "reads (if tag = 1 then io_ok (PrimaryKey v) else if tag = 2 then io_ok (Unique v)
      else io_err ''unknown constraint'') [] c"
    using c by (cases c) (auto simp: reads_def)
  have "reads (io_then reader_count (\<lambda>count. io_then (reader_repeat count (io_then reader_number (\<lambda>n. io_ok (unat n))))
      (\<lambda>indices. if tag = 1 then io_ok (PrimaryKey indices) else if tag = 2 then io_ok (Unique indices)
        else io_err ''unknown constraint''))) (enc_number (length v) @ concat (map enc_number v) @ []) c"
    by (rule reads_list [OF sm(1) reads_index [OF sm(2)] enc_nonempty(3)]) (use k in simp_all)
  then show ?thesis
    unfolding decode_constraint_def enc_constraint_def c prod.case append_Nil2
    by (intro reads_then [OF reads_byte])
qed

lemma decode_fields_enc:
  assumes "metadata_ok m" "encode m = Inr out"
  shows "decode_fields out = (Inr m, [])"
proof -
  have e: "out = enc_fields m" "small (length (ts_name (md_schema m)))" "small (length (ts_columns (md_schema m)))"
    "\<And>c. c \<in> set (ts_columns (md_schema m)) \<Longrightarrow> column_small c" "small (length (md_constraints m))"
    "\<And>c. c \<in> set (md_constraints m) \<Longrightarrow> constraint_small c"
    using assms(2) by (auto simp: encode_Inr list_all_iff)
  have st: "is_str (ts_name (md_schema m))" "\<And>c. c \<in> set (ts_columns (md_schema m)) \<Longrightarrow> column_ok c"
    using assms(1) by (auto simp: metadata_ok_def)
  let ?cols = "ts_columns (md_schema m)" and ?cs = "md_constraints m"
  have repC: "reads (reader_repeat (length ?cols) decode_column) (concat (map enc_column ?cols)) ?cols"
    by (rule reads_repeat) (rule reads_column [OF e(4) st(2)])
  have repD: "reads (reader_repeat (length ?cs) decode_constraint) (concat (map enc_constraint ?cs)) ?cs"
    by (rule reads_repeat) (rule reads_constraint [OF e(6)])
  have lenC: "length ?cols \<le> length (concat (map enc_column ?cols) @ r)" for r
    using length_le_enc(3) [of enc_column ?cols] by simp
  have lenD: "length ?cs \<le> length (concat (map enc_constraint ?cs))"
    using length_le_enc(3) [of enc_constraint ?cs] by simp
  have "reader_count (enc_number (length ?cs) @ concat (map enc_constraint ?cs)) = (Inr (length ?cs), concat (map enc_constraint ?cs))"
    by (rule count_run [OF e(5) lenD])
  moreover have "reader_repeat (length ?cs) decode_constraint (concat (map enc_constraint ?cs)) = (Inr ?cs, [])"
    using repD by (simp add: reads_def) (metis append_Nil2)
  moreover have "\<lparr>md_schema = \<lparr>ts_name = ts_name (md_schema m), ts_columns = ?cols\<rparr>, md_head = md_head m, md_constraints = ?cs\<rparr> = m"
    by simp
  ultimately show ?thesis
    using reads_take [of TABLE "length TABLE"] reads_number [of "md_head m"] reads_string [OF e(2) st(1)] repC
    by (simp add: decode_fields_def e(1) enc_fields_def reads_def count_run [OF e(3) lenC])
qed

section \<open>Encoding inverts decoding\<close>

lemma io_then_Inr: "io_then m f s = (Inr y, t) \<longleftrightarrow> (\<exists>x s'. m s = (Inr x, s') \<and> f x s' = (Inr y, t))"
  by (auto simp: io_then_def split: prod.splits sum.splits)

lemma take_parses: "reader_take n r = (Inr a, r') \<longleftrightarrow> length a = n \<and> r = a @ r'"
  by (auto simp: reader_take_def split: if_splits)

lemma byte_parses: "reader_byte r = (Inr b, r') \<longleftrightarrow> r = b # r'"
  by (auto simp: reader_byte_def io_then_Inr take_parses length_Suc_conv)

lemma number_parses: "reader_number r = (Inr n, r') \<longleftrightarrow> r = u32_to_le_bytes n @ r'"
  by (auto simp: reader_number_def io_then_Inr take_parses u32_le_bytes_inverse intro!: exI [of _ "u32_to_le_bytes n"])

lemma enc_number_unat: "enc_number (unat n) = u32_to_le_bytes n" "small (unat (n :: u32))"
  using unat_u32_less [of n] by (simp_all add: enc_number_def small_def)

lemma count_parses: "reader_count r = (Inr n, r') \<Longrightarrow> r = enc_number n @ r' \<and> small n"
  by (auto simp: reader_count_def io_then_Inr number_parses enc_number_unat split: if_splits)

lemma string_parses: "reader_string r = (Inr s, r') \<Longrightarrow> r = enc_string s @ r' \<and> is_str s \<and> small (length s)"
  by (auto simp: reader_string_def io_then_Inr take_parses from_utf8_iff enc_string_def dest!: count_parses)

lemma repeat_parses:
  assumes f: "\<And>r x r'. f r = (Inr x, r') \<Longrightarrow> r = e x @ r' \<and> P x"
  shows "reader_repeat n f r = (Inr xs, r') \<Longrightarrow> r = concat (map e xs) @ r' \<and> (\<forall>x \<in> set xs. P x) \<and> length xs = n"
proof (induction n arbitrary: r xs)
  case (Suc n)
  then obtain x s ys where x: "f r = (Inr x, s)" "reader_repeat n f s = (Inr ys, r')" "xs = x # ys"
    by (auto simp: io_then_Inr)
  from f [OF x(1)] Suc.IH [OF x(2)] x(3) show ?case by auto
qed simp

lemma type_parses:
  "decode_type tag r = (Inr t, r') \<Longrightarrow> tag = tag_byte t \<and> r = bound_bytes t @ r' \<and> t \<noteq> TNull \<and> type_ok t"
  by (auto simp: decode_type_def io_then_Inr number_parses tag_byte_def bound_bytes_def type_ok_def split: if_splits)

lemma column_parses:
  assumes "decode_column r = (Inr c, r')"
  shows "r = enc_column c @ r' \<and> column_small c \<and> column_ok c"
proof -
  from assms obtain s b s1 tag s2 t where "reader_string r = (Inr (col_name c), s)" "s = b # s1"
    "decode_nullable b = Inr (col_nullable c)" "s1 = tag # s2" "decode_type tag s2 = (Inr (col_type c), r')"
    by (auto simp: decode_column_def io_then_Inr byte_parses)
  with string_parses type_parses show ?thesis
    by (fastforce simp: enc_column_def column_small_def column_ok_def decode_nullable_def split: if_splits)
qed

lemma constraint_parses:
  assumes "decode_constraint r = (Inr c, r')"
  shows "r = enc_constraint c @ r' \<and> constraint_small c"
proof -
  let ?f = "io_then reader_number (\<lambda>n. io_ok (unat n))"
  have f: "?f r = (Inr x, r') \<Longrightarrow> r = enc_number x @ r' \<and> small x" for r x r'
    by (auto simp: io_then_Inr number_parses enc_number_unat)
  from assms obtain tag s n s1 v where v: "r = tag # s" "reader_count s = (Inr n, s1)"
    "reader_repeat n ?f s1 = (Inr v, r')" "tag = 1 \<and> c = PrimaryKey v \<or> tag = 2 \<and> c = Unique v"
    by (auto simp: decode_constraint_def io_then_Inr byte_parses split: if_splits)
  from count_parses [OF v(2)] repeat_parses [of ?f enc_number small, OF f v(3)] v(1,4) show ?thesis
    by (auto simp: enc_constraint_def constraint_small_def list_all_iff)
qed

lemma decode_fields_parses:
  assumes "decode_fields r = (Inr m, r')"
  shows "r = enc_fields m \<and> metadata_ok m \<and> small (length (ts_name (md_schema m))) \<and>
    small (length (ts_columns (md_schema m))) \<and> list_all column_small (ts_columns (md_schema m)) \<and>
    small (length (md_constraints m)) \<and> list_all constraint_small (md_constraints m)"
proof -
  from assms obtain head s name s1 n s2 columns s3 k s4 cs where
    r: "r = TABLE @ u32_to_le_bytes head @ s" and name: "reader_string s = (Inr name, s1)"
    and n: "reader_count s1 = (Inr n, s2)" and cols: "reader_repeat n decode_column s2 = (Inr columns, s3)"
    and k: "reader_count s3 = (Inr k, s4)" and con: "reader_repeat k decode_constraint s4 = (Inr cs, [])"
    and m: "m = \<lparr>md_schema = \<lparr>ts_name = name, ts_columns = columns\<rparr>, md_head = head, md_constraints = cs\<rparr>"
    by (auto simp: decode_fields_def io_then_Inr take_parses number_parses split: if_splits)
  from repeat_parses [of decode_column enc_column "\<lambda>c. column_small c \<and> column_ok c", OF column_parses cols]
  have cols': "s2 = concat (map enc_column columns) @ s3" "\<forall>c \<in> set columns. column_small c \<and> column_ok c" "length columns = n"
    by blast+
  from repeat_parses [of decode_constraint enc_constraint constraint_small, OF constraint_parses con]
  have con': "s4 = concat (map enc_constraint cs)" "\<forall>c \<in> set cs. constraint_small c" "length cs = k" by auto
  from string_parses [OF name] count_parses [OF n] count_parses [OF k] cols' con' show ?thesis
    by (simp add: m r enc_fields_def metadata_ok_def list_all_iff)
qed

lemma decode_Inr:
  "decode bs = Inr m \<longleftrightarrow> fst (decode_fields bs) = Inr m \<and> validate m = Inr ()"
  by (auto simp: decode_def and_then_Inr_iff)

section \<open>Properties\<close>

definition sample_metadata :: metadata where
  "sample_metadata = \<lparr>md_schema = \<lparr>ts_name = ''t'',
       ts_columns = [\<lparr>col_name = ''x'', col_type = TVarchar (Some 7), col_nullable = False\<rparr>]\<rparr>,
     md_head = 3, md_constraints = [PrimaryKey [0]]\<rparr>"

lemma sample_encodes: "encode sample_metadata = Inr (enc_fields sample_metadata)" "metadata_ok sample_metadata"
  by (simp_all add: encode_Inr validate_iff schema_ok_def sample_metadata_def enc_fields_def enc_string_def enc_number_def
      enc_column_def enc_constraint_def bound_bytes_def TABLE_def MAX_TUPLE_SIZE_def PAGE_SIZE_def HEADER_SIZE_def SLOT_SIZE_def
      small_def column_small_def constraint_small_def metadata_ok_def column_ok_def is_str_def byte_of_char_def type_ok_def)

text \<open>
  C7: The catalog record format is lossless and canonical. Metadata that encodes decodes to
  itself; bytes that decode re-encode to exactly themselves (when they fit a heap record, as
  stored ones do); so no two tables share a record and no record has two spellings.
\<close>

theorem codec_roundtrip:
  "(metadata_ok m \<longrightarrow> encode m = Inr bytes \<longrightarrow> decode bytes = Inr m \<and> length bytes \<le> MAX_TUPLE_SIZE) \<and>
   (decode bytes = Inr m \<longrightarrow> length bytes \<le> MAX_TUPLE_SIZE \<longrightarrow> metadata_ok m \<and> encode m = Inr bytes)"
proof (intro conjI impI)
  assume m: "metadata_ok m" "encode m = Inr bytes"
  with decode_fields_enc [OF m] show "decode bytes = Inr m" "length bytes \<le> MAX_TUPLE_SIZE"
    by (auto simp: decode_Inr encode_Inr)
next
  assume d: "decode bytes = Inr m" "length bytes \<le> MAX_TUPLE_SIZE"
  then obtain r' where "decode_fields bytes = (Inr m, r')" by (auto simp: decode_Inr) (metis prod.collapse)
  from decode_fields_parses [OF this] d show "metadata_ok m" "encode m = Inr bytes"
    by (auto simp: encode_Inr decode_Inr)
qed

theorem codec_roundtrip_witness:
  "decode (enc_fields sample_metadata) = Inr sample_metadata \<and> encode sample_metadata = Inr (enc_fields sample_metadata)"
  using codec_roundtrip [of sample_metadata "enc_fields sample_metadata"] sample_encodes by simp

text \<open>
  C29: What the catalog accepts. Validation succeeds exactly for a named, non-empty table with
  distinct non-empty column names and column types, at most one primary key, and constraints
  that list distinct existing columns, non-nullable ones for the primary key; and every
  record that decodes, whatever bytes it came from, satisfies this.
\<close>

theorem codec_validates:
  "(validate m = Inr () \<longleftrightarrow> ts_name (md_schema m) \<noteq> [] \<and> schema_ok (ts_columns (md_schema m)) (md_constraints m)) \<and>
   (decode bytes = Inr m \<longrightarrow> ts_name (md_schema m) \<noteq> [] \<and> schema_ok (ts_columns (md_schema m)) (md_constraints m) \<and>
      metadata_ok m)"
proof (intro conjI impI validate_iff)
  assume d: "decode bytes = Inr m"
  then show "ts_name (md_schema m) \<noteq> []" "schema_ok (ts_columns (md_schema m)) (md_constraints m)"
    by (auto simp: decode_Inr validate_iff)
  from d obtain r' where "decode_fields bytes = (Inr m, r')" by (auto simp: decode_Inr) (metis prod.collapse)
  from decode_fields_parses [OF this] show "metadata_ok m" by blast
qed

theorem codec_validates_witness:
  "validate sample_metadata = Inr () \<and> ts_name (md_schema sample_metadata) \<noteq> [] \<and>
   schema_ok (ts_columns (md_schema sample_metadata)) (md_constraints sample_metadata)"
proof -
  have "validate sample_metadata = Inr ()" using sample_encodes(1) by (simp add: encode_Inr)
  with codec_validates [of sample_metadata "[]"] show ?thesis by simp
qed

end
