(* ===== verification/HeapTable.thy ===== *)
theory HeapTable
  imports HeapPage
begin

text \<open>
  Heap tables, \<^verbatim>\<open>crates/heapam/src/heap.rs\<close>: a chain of heap pages behind the buffer pool,
  with the chain cached in the handle. A handle and the pool it shares are the state of an
  operation; the metadata mutex is the \<open>ht_poisoned\<close> flag, set when a call unwinds while
  holding it. A heap is abstracted to a map from tuple addresses to records, and every
  operation is shown to act on that map alone, whatever the pool has to evict or reload, and
  to leave it unchanged when it fails.
\<close>

section \<open>State\<close>

record heap_table =
  ht_head :: u32
  ht_pages :: "u32 list"
  ht_indices :: "(u32 \<times> nat) list"
  ht_poisoned :: bool

definition pool_op :: "('s, buffer_error, 'a) io \<Rightarrow> ('s, heap_error, 'a) io" where
  "pool_op m s = (case m s of (r, s') \<Rightarrow> (map_err Buffer r, s'))"

text \<open>
  \<^verbatim>\<open>pool.pin(id)?.read(f)??\<close> and \<^verbatim>\<open>pool.pin(id)?.write(f)??\<close>: the pin lives for the
  statement and is released on every path.
\<close>

definition pinned_read :: "pinned_buffer \<Rightarrow> (page \<Rightarrow> heap_error + 'a) \<Rightarrow> (('s, 'v) pool, heap_error, 'a) io" where
  "pinned_read h f = with_drop h (io_then (pool_op (pin_read h (\<lambda>d. Some (f d)))) io_lift)"

definition pinned_write :: "pinned_buffer \<Rightarrow> (page, heap_error, 'a) io \<Rightarrow> (('s, 'v) pool, heap_error, 'a) io" where
  "pinned_write h f = with_drop h (io_then (pool_op (pin_write h (\<lambda>d. case f d of (r, d') \<Rightarrow> (Some r, d')))) io_lift)"

definition read_heap_page :: "'s page_store_ops \<Rightarrow> 'v victim_strategy \<Rightarrow> u32 \<Rightarrow> (page \<Rightarrow> heap_error + 'a) \<Rightarrow>
    (('s, 'v) pool, heap_error, 'a) io" where
  "read_heap_page so vs pg f = io_then (pool_op (pool_pin so vs pg)) (\<lambda>h. pinned_read h f)"

definition write_heap_page :: "'s page_store_ops \<Rightarrow> 'v victim_strategy \<Rightarrow> u32 \<Rightarrow> (page, heap_error, 'a) io \<Rightarrow>
    (('s, 'v) pool, heap_error, 'a) io" where
  "write_heap_page so vs pg f = io_then (pool_op (pool_pin so vs pg)) (\<lambda>h. pinned_write h f)"

section \<open>Opening and creating\<close>

definition heap_create :: "'s page_store_ops \<Rightarrow> 'v victim_strategy \<Rightarrow> (('s, 'v) pool, heap_error, heap_table) io" where
  "heap_create so vs = io_then (pool_op (pool_new_page so vs)) (\<lambda>h.
     let head = pb_page h in
     io_then (pinned_write h (\<lambda>d. (Inr (), initialize d head))) (\<lambda>_.
       io_ok \<lparr>ht_head = head, ht_pages = [head], ht_indices = [(head, 0)], ht_poisoned = False\<rparr>))"

definition owned_header :: "u32 \<Rightarrow> page \<Rightarrow> heap_error + page_header" where
  "owned_header head d = and_then (page_header_of d) (\<lambda>hd.
     if h_owner hd \<noteq> head then Inl (Corrupt ''page belongs to another heap'') else Inr hd)"

lemma chain_measure:
  assumes "map_of indices pid = None"
  shows "card (- fst ` set (AList.update pid n indices)) < card (- fst ` set (indices :: (u32 \<times> nat) list))"
proof (rule psubset_card_mono)
  have "pid \<in> - fst ` set indices" using assms by (simp add: map_of_eq_None_iff)
  then show "- fst ` set (AList.update pid n indices) \<subset> - fst ` set indices"
    unfolding AList.dom_update by blast
qed simp

function heap_open_chain :: "'s page_store_ops \<Rightarrow> 'v victim_strategy \<Rightarrow> u32 \<Rightarrow> u32 option \<Rightarrow>
    u32 list \<Rightarrow> (u32 \<times> nat) list \<Rightarrow> ('s, 'v) pool \<Rightarrow> (heap_error + u32 list \<times> (u32 \<times> nat) list) \<times> ('s, 'v) pool" where
  "heap_open_chain so vs head None pages indices s = (Inr (pages, indices), s)"
| "heap_open_chain so vs head (Some pid) pages indices s =
     (if map_of indices pid \<noteq> None then (Inl (Corrupt ''cycle in page chain''), s)
      else io_then (read_heap_page so vs pid (owned_header head)) (\<lambda>hd s'.
        heap_open_chain so vs head (h_next hd) (pages @ [pid]) (AList.update pid (length pages) indices) s') s)"
  by pat_completeness auto

termination
  by (relation "measure (\<lambda>(so, vs, head, nx, pages, indices, s). card (- fst ` set indices))")
    (auto intro: chain_measure)

definition heap_open :: "'s page_store_ops \<Rightarrow> 'v victim_strategy \<Rightarrow> u32 \<Rightarrow> (('s, 'v) pool, heap_error, heap_table) io" where
  "heap_open so vs head = io_then (heap_open_chain so vs head (Some head) [] []) (\<lambda>(pages, indices).
     io_ok \<lparr>ht_head = head, ht_pages = pages, ht_indices = indices, ht_poisoned = False\<rparr>)"

section \<open>Operations on records\<close>

text \<open>Run a body holding the metadata lock; unwinding out of it poisons the lock.\<close>

definition heap_locked :: "(heap_table \<Rightarrow> (('s, 'v) pool, heap_error, 'a \<times> heap_table) io) \<Rightarrow>
    (heap_table \<times> ('s, 'v) pool, heap_error, 'a) io" where
  "heap_locked body ts = (case ts of (t, s) \<Rightarrow>
     if ht_poisoned t then (Inl HeapPoisoned, (t, s))
     else case body t s of
       (Inl e, s') \<Rightarrow> (Inl e, (if e = Buffer Panicked then t\<lparr>ht_poisoned := True\<rparr> else t, s'))
     | (Inr (x, t'), s') \<Rightarrow> (Inr x, (t', s')))"

definition checked_header :: "heap_table \<Rightarrow> nat \<Rightarrow> page \<Rightarrow> heap_error + page_header" where
  "checked_header t index d = and_then (page_header_of d) (\<lambda>hd.
     if h_owner hd \<noteq> ht_head t then Inl (Corrupt ''page belongs to another heap'')
     else if h_next hd \<noteq> (if index + 1 < length (ht_pages t) then Some (ht_pages t ! (index + 1)) else None)
     then Inl (Corrupt ''page chain changed outside this heap handle'')
     else Inr hd)"

text \<open>A write callback that checks the header first.\<close>

definition checked_write :: "heap_table \<Rightarrow> nat \<Rightarrow> (page, heap_error, 'a) io \<Rightarrow> (page, heap_error, 'a) io" where
  "checked_write t index f d = (case checked_header t index d of Inl e \<Rightarrow> (Inl e, d) | Inr _ \<Rightarrow> f d)"

definition validate_tuple :: "u8 list \<Rightarrow> heap_error + unit" where
  "validate_tuple bytes =
     (if bytes = [] \<or> length bytes > MAX_TUPLE_SIZE
      then Inl (InvalidTupleSize (length bytes) MAX_TUPLE_SIZE) else Inr ())"

definition insert_fresh :: "u32 \<Rightarrow> u8 list \<Rightarrow> (page, heap_error, u16) io" where
  "insert_fresh head bytes d = (case page_insert bytes (initialize d head) of
      (Inl e, d') \<Rightarrow> (Inl e, d')
    | (Inr None, d') \<Rightarrow> (Inl (Corrupt ''valid tuple cannot fit on a new page''), d')
    | (Inr (Some sid), d') \<Rightarrow> (Inr sid, d'))"

definition heap_insert_locked :: "'s page_store_ops \<Rightarrow> 'v victim_strategy \<Rightarrow> u8 list \<Rightarrow> heap_table \<Rightarrow>
    (('s, 'v) pool, heap_error, ctid \<times> heap_table) io" where
  "heap_insert_locked so vs bytes t =
     (let index = length (ht_pages t) - 1; tail = ht_pages t ! index in
      io_then (write_heap_page so vs tail (checked_write t index (page_insert bytes))) (\<lambda>r.
      case r of
        Some sid \<Rightarrow> io_ok (\<lparr>page_id = tail, slot_id = sid\<rparr>, t)
      | None \<Rightarrow>
          io_then (pool_op (pool_new_page so vs)) (\<lambda>h.
          let new_page = pb_page h in
          io_then (pinned_write h (insert_fresh (ht_head t) bytes)) (\<lambda>sid.
          io_then (write_heap_page so vs tail (checked_write t index (page_set_next (Some new_page)))) (\<lambda>_.
          io_ok (\<lparr>page_id = new_page, slot_id = sid\<rparr>,
            t\<lparr>ht_pages := ht_pages t @ [new_page],
              ht_indices := AList.update new_page (length (ht_pages t)) (ht_indices t)\<rparr>))))))"

definition heap_insert :: "'s page_store_ops \<Rightarrow> 'v victim_strategy \<Rightarrow> u8 list \<Rightarrow>
    (heap_table \<times> ('s, 'v) pool, heap_error, ctid) io" where
  "heap_insert so vs bytes = io_then (io_lift (validate_tuple bytes)) (\<lambda>_.
     heap_locked (heap_insert_locked so vs bytes))"

definition page_index :: "heap_table \<Rightarrow> ctid \<Rightarrow> heap_error + nat" where
  "page_index t c = ok_or (InvalidCtid c) (map_of (ht_indices t) (page_id c))"

definition heap_get :: "'s page_store_ops \<Rightarrow> 'v victim_strategy \<Rightarrow> ctid \<Rightarrow>
    (heap_table \<times> ('s, 'v) pool, heap_error, u8 list option) io" where
  "heap_get so vs c = heap_locked (\<lambda>t. io_then (io_lift (page_index t c)) (\<lambda>index.
     io_then (read_heap_page so vs (page_id c) (\<lambda>d.
       and_then (checked_header t index d) (\<lambda>_. page_get d (slot_id c)))) (\<lambda>r. io_ok (r, t))))"

definition heap_delete :: "'s page_store_ops \<Rightarrow> 'v victim_strategy \<Rightarrow> ctid \<Rightarrow>
    (heap_table \<times> ('s, 'v) pool, heap_error, bool) io" where
  "heap_delete so vs c = heap_locked (\<lambda>t. io_then (io_lift (page_index t c)) (\<lambda>index.
     io_then (write_heap_page so vs (page_id c) (checked_write t index (page_delete (slot_id c))))
       (\<lambda>r. io_ok (r, t))))"

definition replace_record :: "u16 \<Rightarrow> u8 list \<Rightarrow> (page, heap_error, bool) io" where
  "replace_record sid bytes d = (case page_get d sid of
      Inl e \<Rightarrow> (Inl e, d)
    | Inr None \<Rightarrow> (Inr False, d)
    | Inr (Some _) \<Rightarrow> (case page_replace sid bytes d of
        (Inl e, d') \<Rightarrow> (Inl e, d')
      | (Inr False, d') \<Rightarrow> (Inl NoSpace, d')
      | (Inr True, d') \<Rightarrow> (Inr True, d')))"

definition heap_replace :: "'s page_store_ops \<Rightarrow> 'v victim_strategy \<Rightarrow> ctid \<Rightarrow> u8 list \<Rightarrow>
    (heap_table \<times> ('s, 'v) pool, heap_error, bool) io" where
  "heap_replace so vs c bytes = io_then (io_lift (validate_tuple bytes)) (\<lambda>_.
     heap_locked (\<lambda>t. io_then (io_lift (page_index t c)) (\<lambda>index.
       io_then (write_heap_page so vs (page_id c) (checked_write t index (replace_record (slot_id c) bytes)))
         (\<lambda>r. io_ok (r, t)))))"

section \<open>Scans\<close>

record heap_scan =
  hs_pages :: "(u32 \<times> u16) list"
  hs_index :: nat
  hs_rows :: "(ctid \<times> u8 list) list"
  hs_failed :: bool

fun scan_pages :: "'s page_store_ops \<Rightarrow> 'v victim_strategy \<Rightarrow> heap_table \<Rightarrow> nat \<Rightarrow> u32 list \<Rightarrow>
    (('s, 'v) pool, heap_error, (u32 \<times> u16) list) io" where
  "scan_pages so vs t index [] = io_ok []"
| "scan_pages so vs t index (pid # ids) =
     io_then (read_heap_page so vs pid (checked_header t index)) (\<lambda>hd.
     io_then (scan_pages so vs t (index + 1) ids) (\<lambda>rest. io_ok ((pid, h_slots hd) # rest)))"

definition heap_scan_start :: "'s page_store_ops \<Rightarrow> 'v victim_strategy \<Rightarrow>
    (heap_table \<times> ('s, 'v) pool, heap_error, heap_scan) io" where
  "heap_scan_start so vs = heap_locked (\<lambda>t. io_then (scan_pages so vs t 0 (ht_pages t)) (\<lambda>pages.
     io_ok (\<lparr>hs_pages = pages, hs_index = 0, hs_rows = [], hs_failed = False\<rparr>, t)))"

definition read_scan_page :: "'s page_store_ops \<Rightarrow> 'v victim_strategy \<Rightarrow> u32 \<Rightarrow> u16 \<Rightarrow>
    (heap_table \<times> ('s, 'v) pool, heap_error, (ctid \<times> u8 list) list) io" where
  "read_scan_page so vs pid slots = heap_locked (\<lambda>t.
     io_then (io_lift (ok_or (Corrupt ''scan page disappeared'') (map_of (ht_indices t) pid))) (\<lambda>index.
     io_then (read_heap_page so vs pid (\<lambda>d. and_then (checked_header t index d) (\<lambda>hd.
       if h_slots hd < slots then Inl (Corrupt ''slot directory shrank'')
       else and_then (page_records d slots) (\<lambda>rs.
         Inr (map (\<lambda>(sid, bytes). (\<lparr>page_id = pid, slot_id = sid\<rparr>, bytes)) rs)))))
       (\<lambda>rows. io_ok (rows, t))))"

function scan_loop :: "'s page_store_ops \<Rightarrow> 'v victim_strategy \<Rightarrow> heap_scan \<Rightarrow> heap_table \<times> ('s, 'v) pool \<Rightarrow>
    ((heap_error + ctid \<times> u8 list) option \<times> heap_scan) \<times> heap_table \<times> ('s, 'v) pool" where
  "scan_loop so vs sc st =
     (case hs_rows sc of
        row # rows \<Rightarrow> ((Some (Inr row), sc\<lparr>hs_rows := rows\<rparr>), st)
      | [] \<Rightarrow>
          (if hs_index sc < length (hs_pages sc)
           then case hs_pages sc ! hs_index sc of (pid, slots) \<Rightarrow>
             (case read_scan_page so vs pid slots st of
                (Inr rows, st') \<Rightarrow> scan_loop so vs (sc\<lparr>hs_index := hs_index sc + 1, hs_rows := rows\<rparr>) st'
              | (Inl e, st') \<Rightarrow> ((Some (Inl e), sc\<lparr>hs_index := hs_index sc + 1, hs_failed := True\<rparr>), st'))
           else ((None, sc), st)))"
  by pat_completeness auto
termination
  by (relation "measure (\<lambda>(so, vs, sc, st). length (hs_pages sc) - hs_index sc)") auto

declare scan_loop.simps [simp del]

definition scan_next :: "'s page_store_ops \<Rightarrow> 'v victim_strategy \<Rightarrow> heap_scan \<Rightarrow> heap_table \<times> ('s, 'v) pool \<Rightarrow>
    ((heap_error + ctid \<times> u8 list) option \<times> heap_scan) \<times> heap_table \<times> ('s, 'v) pool" where
  "scan_next so vs sc st = (if hs_failed sc then ((None, sc), st) else scan_loop so vs sc st)"

section \<open>Page access through the pool\<close>

lemma pool_op_result: "pool_op m s = (r, s') \<Longrightarrow> \<exists>r0. m s = (r0, s') \<and> r = map_err Buffer r0"
  by (auto simp: pool_op_def split: prod.splits)

lemma pool_op_Inr: "pool_op m s = (Inr x, s') \<Longrightarrow> m s = (Inr x, s')"
  by (auto simp: pool_op_def map_err_def split: prod.splits sum.splits)

lemma pool_op_Inl: "pool_op m s = (Inl e, s') \<Longrightarrow> \<exists>b. m s = (Inl b, s') \<and> e = Buffer b"
  by (auto simp: pool_op_def map_err_def split: prod.splits sum.splits)

definition keeps_size :: "(page, 'e, 'a) io \<Rightarrow> bool" where
  "keeps_size f \<longleftrightarrow> (\<forall>d. length d = PAGE_SIZE \<longrightarrow> length (snd (f d)) = PAGE_SIZE)"

context page_store
begin

lemma pinned_read_result:
  assumes inv: "pinv (add_mset h H) s" and r: "pinned_read h f s = (r, s')"
  shows "pinv H s'" "view s' = view s"
    and "(\<exists>d. view s (pb_page h) = Some d \<and> length d = PAGE_SIZE \<and> r = f d) \<or> (\<exists>e. r = Inl (Buffer e))"
proof -
  let ?f = "\<lambda>d. Some (f d)"
  obtain q s1 where q: "pin_read h ?f s = (q, s1)" by fastforce
  have h: "h \<in># add_mset h H" by simp
  note pr = pin_read_result [OF inv h q]
  have run: "io_then (pool_op (pin_read h ?f)) io_lift s = (case q of Inl e \<Rightarrow> Inl (Buffer e) | Inr x \<Rightarrow> x, s)"
    using q pr(1) by (simp add: io_then_def pool_op_def split: sum.split)
  then have s': "s' = drop_pin h s" and rr: "r = (case q of Inl e \<Rightarrow> Inl (Buffer e) | Inr x \<Rightarrow> x)"
    using r by (simp_all add: pinned_read_def with_drop_def)
  show "pinv H s'" "view s' = view s" using drop_pin_inv [OF inv] s' by simp_all
  show "(\<exists>d. view s (pb_page h) = Some d \<and> length d = PAGE_SIZE \<and> r = f d) \<or> (\<exists>e. r = Inl (Buffer e))"
    using pr(2) rr view_page_size [OF inv] by auto
qed

lemma pinned_write_result:
  assumes inv: "pinv (add_mset h H) s" and r: "pinned_write h f s = (r, s')"
    and f: "keeps_size f"
  shows "pinv H s'"
    and "(\<exists>d. view s (pb_page h) = Some d \<and> length d = PAGE_SIZE \<and> r = fst (f d) \<and>
        view s' = (view s)(pb_page h \<mapsto> snd (f d))) \<or> (\<exists>e. r = Inl (Buffer e) \<and> view s' = view s)"
proof -
  let ?f = "\<lambda>d. case f d of (r, d') \<Rightarrow> (Some r, d')"
  obtain q s1 where q: "pin_write h ?f s = (q, s1)" by fastforce
  have h: "h \<in># add_mset h H" by simp
  have lf: "length (snd (?f d)) = PAGE_SIZE" if "length d = PAGE_SIZE" for d
    using f that by (auto simp: keeps_size_def split: prod.splits)
  have pw: "pinv (add_mset h H) s1" "s1 = s \<and> q = Inl Poisoned \<or> wrote ?f (pb_page h) s q s1"
    using pin_write_result [OF inv h q] lf by blast+
  have "io_then (pool_op (pin_write h ?f)) io_lift s = (case q of Inl e \<Rightarrow> Inl (Buffer e) | Inr x \<Rightarrow> x, s1)"
    using q by (simp add: io_then_def pool_op_def split: sum.split)
  then have s': "s' = drop_pin h s1" and rr: "r = (case q of Inl e \<Rightarrow> Inl (Buffer e) | Inr x \<Rightarrow> x)"
    using r by (simp_all add: pinned_write_def with_drop_def)
  show "pinv H s'" using drop_pin_inv(1) [OF pw(1)] s' by simp
  have v': "view s' = view s1" using drop_pin_inv(2) [OF pw(1)] s' by simp
  from pw(2) show "(\<exists>d. view s (pb_page h) = Some d \<and> length d = PAGE_SIZE \<and> r = fst (f d) \<and>
        view s' = (view s)(pb_page h \<mapsto> snd (f d))) \<or> (\<exists>e. r = Inl (Buffer e) \<and> view s' = view s)"
  proof
    assume "wrote ?f (pb_page h) s q s1"
    then obtain d where d: "view s (pb_page h) = Some d" "view s1 = (view s)(pb_page h \<mapsto> snd (f d))" "q = Inr (fst (f d))"
      by (auto simp: wrote_def case_prod_beta)
    with v' rr view_page_size [OF inv d(1)] show ?thesis by auto
  qed (use rr v' in auto)
qed

lemma read_heap_page_result:
  assumes inv: "pinv H s" and r: "read_heap_page ops vs pg f s = (r, s')"
  shows "pinv H s'" "view s' = view s"
    and "(\<exists>d. view s pg = Some d \<and> length d = PAGE_SIZE \<and> r = f d) \<or> (\<exists>e. r = Inl (Buffer e))"
proof -
  have "pinv H s' \<and> view s' = view s \<and>
    ((\<exists>d. view s pg = Some d \<and> length d = PAGE_SIZE \<and> r = f d) \<or> (\<exists>e. r = Inl (Buffer e)))"
    using r unfolding read_heap_page_def
  proof (cases rule: io_thenE)
    case (err e)
    from pool_op_Inl [OF err(1)] obtain b where b: "pool_pin ops vs pg s = (Inl b, s')" "e = Buffer b" by blast
    with pool_pin_inv [OF inv b(1)] err(2) show ?thesis by (simp add: pinned_def)
  next
    case (ok h s1)
    from pool_pin_inv [OF inv pool_op_Inr [OF ok(1)]]
    have h: "pb_page h = pg" "pinv (add_mset h H) s1" "view s1 = view s" by (simp_all add: pinned_def)
    from pinned_read_result [OF h(2) ok(2)] h(1,3) show ?thesis by simp
  qed
  then show "pinv H s'" "view s' = view s"
    and "(\<exists>d. view s pg = Some d \<and> length d = PAGE_SIZE \<and> r = f d) \<or> (\<exists>e. r = Inl (Buffer e))" by auto
qed

lemma write_heap_page_result:
  assumes inv: "pinv H s" and r: "write_heap_page ops vs pg f s = (r, s')"
    and f: "keeps_size f"
  shows "pinv H s'"
    and "(\<exists>d. view s pg = Some d \<and> length d = PAGE_SIZE \<and> r = fst (f d) \<and> view s' = (view s)(pg \<mapsto> snd (f d))) \<or>
      (\<exists>e. r = Inl (Buffer e) \<and> view s' = view s)"
proof -
  have "pinv H s' \<and>
    ((\<exists>d. view s pg = Some d \<and> length d = PAGE_SIZE \<and> r = fst (f d) \<and> view s' = (view s)(pg \<mapsto> snd (f d))) \<or>
      (\<exists>e. r = Inl (Buffer e) \<and> view s' = view s))"
    using r unfolding write_heap_page_def
  proof (cases rule: io_thenE)
    case (err e)
    from pool_op_Inl [OF err(1)] obtain b where b: "pool_pin ops vs pg s = (Inl b, s')" "e = Buffer b" by blast
    with pool_pin_inv [OF inv b(1)] err(2) show ?thesis by (simp add: pinned_def)
  next
    case (ok h s1)
    from pool_pin_inv [OF inv pool_op_Inr [OF ok(1)]]
    have h: "pb_page h = pg" "pinv (add_mset h H) s1" "view s1 = view s" by (simp_all add: pinned_def)
    from pinned_write_result [OF h(2) ok(2) f] h(1,3) show ?thesis by simp
  qed
  then show "pinv H s'"
    and "(\<exists>d. view s pg = Some d \<and> length d = PAGE_SIZE \<and> r = fst (f d) \<and> view s' = (view s)(pg \<mapsto> snd (f d))) \<or>
      (\<exists>e. r = Inl (Buffer e) \<and> view s' = view s)" by auto
qed

end

section \<open>The heap as a map from addresses to records\<close>

text \<open>
  \<open>V\<close> is what the pool shows of each page. A handle is consistent with \<open>V\<close> when its cached
  chain is the chain stored in the pages.
\<close>

definition chain_next :: "u32 list \<Rightarrow> nat \<Rightarrow> u32 option" where
  "chain_next pages i = (if i + 1 < length pages then Some (pages ! (i + 1)) else None)"

definition heap_ok :: "(u32 \<Rightarrow> page option) \<Rightarrow> heap_table \<Rightarrow> bool" where
  "heap_ok V t \<longleftrightarrow> ht_pages t \<noteq> [] \<and> hd (ht_pages t) = ht_head t \<and> distinct (ht_pages t) \<and>
     (\<forall>p i. map_of (ht_indices t) p = Some i \<longleftrightarrow> i < length (ht_pages t) \<and> ht_pages t ! i = p) \<and>
     (\<forall>i < length (ht_pages t). \<exists>d ts. V (ht_pages t ! i) = Some d \<and> length d = PAGE_SIZE \<and>
        page_abs d = Some (ht_head t, chain_next (ht_pages t) i, ts))"

definition page_slots :: "(u32 \<Rightarrow> page option) \<Rightarrow> u32 \<Rightarrow> u8 list option list" where
  "page_slots V p = (case V p of None \<Rightarrow> [] | Some d \<Rightarrow> (case page_abs d of None \<Rightarrow> [] | Some (_, _, ts) \<Rightarrow> ts))"

definition heap_map :: "(u32 \<Rightarrow> page option) \<Rightarrow> heap_table \<Rightarrow> ctid \<Rightarrow> u8 list option" where
  "heap_map V t c = (if page_id c \<in> set (ht_pages t) then tuple_at (page_slots V (page_id c)) (slot_id c) else None)"

lemma heap_ok_page:
  assumes "heap_ok V t" "i < length (ht_pages t)"
  obtains d where "V (ht_pages t ! i) = Some d" "length d = PAGE_SIZE"
    "page_abs d = Some (ht_head t, chain_next (ht_pages t) i, page_slots V (ht_pages t ! i))"
  using assms by (fastforce simp: heap_ok_def page_slots_def)

lemma checked_header_ok:
  assumes "page_abs d = Some (ht_head t, chain_next (ht_pages t) i, ts)" "length d = PAGE_SIZE"
  obtains hd where "checked_header t i d = Inr hd" "unat (h_slots hd) = length ts"
proof -
  from assms obtain h where "page_validate d = Inr (h, tuple_bytes ts)" "h_owner h = ht_head t"
    "h_next h = chain_next (ht_pages t) i" "unat (h_slots h) = length ts" by (rule page_absD)
  then have "checked_header t i d = Inr h"
    by (simp add: checked_header_def page_header_of_def chain_next_def)
  with \<open>unat (h_slots h) = length ts\<close> show thesis by (intro that) auto
qed

text \<open>Pages outside the chain do not matter, so other heaps and fresh pages may change.\<close>

lemma heap_ok_cong:
  assumes "heap_ok V t" "\<And>p. p \<in> set (ht_pages t) \<Longrightarrow> V' p = V p"
  shows "heap_ok V' t" and "heap_map V' t = heap_map V t"
proof -
  show "heap_ok V' t" using assms by (fastforce simp: heap_ok_def)
  show "heap_map V' t = heap_map V t"
    using assms(2) by (auto simp: heap_map_def page_slots_def fun_eq_iff)
qed

text \<open>Replacing the slots of one page of the chain.\<close>

lemma heap_ok_update:
  assumes ok: "heap_ok V t" and i: "i < length (ht_pages t)" and d: "length d = PAGE_SIZE"
    and a: "page_abs d = Some (ht_head t, chain_next (ht_pages t) i, ts)"
  defines "p \<equiv> ht_pages t ! i"
  shows "heap_ok (V(p \<mapsto> d)) t"
    and "heap_map (V(p \<mapsto> d)) t = (\<lambda>c. if page_id c = p then tuple_at ts (slot_id c) else heap_map V t c)"
proof -
  have uniq: "ht_pages t ! j = p \<longleftrightarrow> j = i" if "j < length (ht_pages t)" for j
    using ok i that by (auto simp: heap_ok_def p_def nth_eq_iff_index_eq)
  show "heap_ok (V(p \<mapsto> d)) t"
    using ok d a uniq by (auto simp: heap_ok_def)
  have "p \<in> set (ht_pages t)" using i by (simp add: p_def)
  then show "heap_map (V(p \<mapsto> d)) t = (\<lambda>c. if page_id c = p then tuple_at ts (slot_id c) else heap_map V t c)"
    using a by (auto simp: heap_map_def page_slots_def fun_eq_iff)
qed

lemma heap_poison_simps [simp]:
  "heap_ok V (t\<lparr>ht_poisoned := b\<rparr>) = heap_ok V t" "heap_map V (t\<lparr>ht_poisoned := b\<rparr>) = heap_map V t"
  by (simp_all add: heap_ok_def heap_map_def fun_eq_iff)

text \<open>Room for a replacement on the record's own page.\<close>

definition replace_fits :: "(u32 \<Rightarrow> page option) \<Rightarrow> ctid \<Rightarrow> u8 list \<Rightarrow> bool" where
  "replace_fits V c bytes \<longleftrightarrow> fits ((page_slots V (page_id c))[unat (slot_id c) - 1 := Some bytes])"

definition replace_verdict :: "heap_table \<Rightarrow> (u32 \<Rightarrow> page option) \<Rightarrow> ctid \<Rightarrow> u8 list \<Rightarrow> heap_error + bool" where
  "replace_verdict t V c bytes =
     (if bytes = [] \<or> length bytes > MAX_TUPLE_SIZE then Inl (InvalidTupleSize (length bytes) MAX_TUPLE_SIZE)
      else if page_id c \<notin> set (ht_pages t) then Inl (InvalidCtid c)
      else if heap_map V t c = None then Inr False
      else if replace_fits V c bytes then Inr True else Inl NoSpace)"

text \<open>Failures of the pool or of a poisoned lock, as opposed to verdicts about the heap.\<close>

definition infra :: "heap_error \<Rightarrow> bool" where
  "infra e \<longleftrightarrow> (\<exists>b. e = Buffer b) \<or> e = HeapPoisoned"

definition same_heap :: "heap_table \<Rightarrow> heap_table \<Rightarrow> bool" where
  "same_heap t t' \<longleftrightarrow> (\<exists>b. t' = t\<lparr>ht_poisoned := b\<rparr>)"

lemma same_heap_refl [simp]: "same_heap t t"
  unfolding same_heap_def by (rule exI [of _ "ht_poisoned t"]) simp

lemma same_heap_simps: "same_heap t t' \<Longrightarrow> heap_ok V t' = heap_ok V t \<and> heap_map V t' = heap_map V t \<and>
   ht_pages t' = ht_pages t \<and> ht_head t' = ht_head t"
  by (auto simp: same_heap_def)

definition untouched :: "u32 list \<Rightarrow> (u32 \<Rightarrow> page option) \<Rightarrow> (u32 \<Rightarrow> page option) \<Rightarrow> bool" where
  "untouched ps V V' \<longleftrightarrow> (\<forall>p. p \<notin> set ps \<longrightarrow> V p \<noteq> None \<longrightarrow> V' p = V p)"

lemma untouched_simps [simp]: "untouched ps V V" "p \<in> set ps \<Longrightarrow> untouched ps V (V(p \<mapsto> d))"
  by (auto simp: untouched_def)

lemma heap_lockedE:
  assumes "heap_locked body (t, s) = (r, (t', s'))"
  obtains (poisoned) "r = Inl HeapPoisoned" "t' = t" "s' = s"
  | (err) e where "body t s = (Inl e, s')" "r = Inl e" "same_heap t t'"
  | (ok) x where "body t s = (Inr (x, t'), s')" "r = Inr x"
proof (cases "ht_poisoned t")
  case True
  with assms show thesis by (intro poisoned) (auto simp: heap_locked_def)
next
  case False
  obtain q s1 where q: "body t s = (q, s1)" by fastforce
  show thesis
  proof (cases q)
    case (Inl e)
    then have "r = Inl e" "s' = s1" "t' = (if e = Buffer Panicked then t\<lparr>ht_poisoned := True\<rparr> else t)"
      using False assms q by (simp_all add: heap_locked_def)
    moreover have "same_heap t (if e = Buffer Panicked then t\<lparr>ht_poisoned := True\<rparr> else t)"
      by (cases "e = Buffer Panicked") (simp_all, auto simp: same_heap_def)
    ultimately show thesis using q Inl by (intro err [of e]) simp_all
  next
    case (Inr xt)
    obtain x t1 where xt: "xt = (x, t1)" by fastforce
    have "r = Inr x" "t' = t1" "s' = s1" using False assms q Inr xt by (simp_all add: heap_locked_def)
    with q Inr xt show thesis by (intro ok [of x]) simp_all
  qed
qed

lemma page_index_ok:
  assumes "heap_ok V t"
  shows "page_id c \<in> set (ht_pages t) \<Longrightarrow>
      \<exists>i < length (ht_pages t). page_index t c = Inr i \<and> ht_pages t ! i = page_id c"
    and "page_id c \<notin> set (ht_pages t) \<Longrightarrow> page_index t c = Inl (InvalidCtid c)"
proof -
  have m: "map_of (ht_indices t) p = Some i \<longleftrightarrow> i < length (ht_pages t) \<and> ht_pages t ! i = p" for p i
    using assms by (simp add: heap_ok_def)
  show "\<exists>i < length (ht_pages t). page_index t c = Inr i \<and> ht_pages t ! i = page_id c" if "page_id c \<in> set (ht_pages t)"
  proof -
    from that obtain i where i: "i < length (ht_pages t)" "ht_pages t ! i = page_id c" by (auto simp: in_set_conv_nth)
    then have "map_of (ht_indices t) (page_id c) = Some i" using m by blast
    with i show ?thesis by (auto simp: page_index_def)
  qed
  show "page_index t c = Inl (InvalidCtid c)" if "page_id c \<notin> set (ht_pages t)"
  proof -
    have "map_of (ht_indices t) (page_id c) = None"
      using that m by (metis nth_mem option.exhaust)
    then show ?thesis by (simp add: page_index_def)
  qed
qed

lemma heap_map_slots:
  "page_id c \<in> set (ht_pages t) \<Longrightarrow> heap_map V t c = tuple_at (page_slots V (page_id c)) (slot_id c)"
  by (simp add: heap_map_def)

lemma heap_callback_size:
  shows "sid \<noteq> 0 \<Longrightarrow> keeps_size (replace_record sid bytes)"
    and "keeps_size (insert_fresh head bytes)"
    and "keeps_size f \<Longrightarrow> keeps_size (checked_write t index f)"
    and "keeps_size (page_insert bytes)" "keeps_size (page_set_next nx)"
    and "sid \<noteq> 0 \<Longrightarrow> keeps_size (page_delete sid)"
    and "keeps_size (\<lambda>d. (Inr (), initialize d head))"
proof -
  show "keeps_size (replace_record sid bytes)" if "sid \<noteq> 0"
    unfolding keeps_size_def
  proof (intro allI impI)
    fix d :: page assume "length d = PAGE_SIZE"
    with page_ops_length(4) [OF this that, of bytes] show "length (snd (replace_record sid bytes d)) = PAGE_SIZE"
      by (auto simp: replace_record_def split: sum.splits option.splits prod.splits bool.splits)
  qed
  have "length (snd (page_insert bytes (initialize d head))) = PAGE_SIZE" if "length d = PAGE_SIZE" for d
    using that by (simp add: page_ops_length initialize_page(1))
  then show "keeps_size (insert_fresh head bytes)"
    by (auto simp: keeps_size_def insert_fresh_def split: prod.split sum.split option.split) (metis snd_conv)+
  show "keeps_size f \<Longrightarrow> keeps_size (checked_write t index f)"
    by (simp add: keeps_size_def checked_write_def split: sum.split)
  show "keeps_size (page_insert bytes)" "keeps_size (page_set_next nx)" "sid \<noteq> 0 \<Longrightarrow> keeps_size (page_delete sid)"
    "keeps_size (\<lambda>d. (Inr (), initialize d head))"
    by (simp_all add: keeps_size_def page_ops_length initialize_page(1))
qed

section \<open>Every operation acts on the map\<close>

text \<open>The shape \<^verbatim>\<open>get\<close>, \<^verbatim>\<open>delete\<close> and \<^verbatim>\<open>replace\<close> share: lock, look the page up, run.\<close>

lemma indexed_opE:
  assumes ok: "heap_ok V t"
    and r: "heap_locked (\<lambda>t. io_then (io_lift (page_index t c)) (\<lambda>i. io_then (m t i) (\<lambda>x. io_ok (x, t)))) (t, s)
      = (r, (t', s'))"
  obtains (refused) "r = Inl HeapPoisoned" "t' = t" "s' = s"
  | (absent) "page_id c \<notin> set (ht_pages t)" "r = Inl (InvalidCtid c)" "same_heap t t'" "s' = s"
  | (run) i where "i < length (ht_pages t)" "ht_pages t ! i = page_id c" "m t i s = (r, s')" "same_heap t t'"
  using r
proof (cases rule: heap_lockedE)
  case poisoned
  then show thesis by (rule refused)
next
  case (err e)
  show thesis
  proof (cases "page_id c \<in> set (ht_pages t)")
    case True
    with page_index_ok(1) [OF ok] obtain i where i: "i < length (ht_pages t)" "page_index t c = Inr i"
      "ht_pages t ! i = page_id c" by blast
    from err(1) i(2) have "m t i s = (Inl e, s')" by (auto simp: io_then_def split: prod.splits sum.splits)
    with i err show thesis by (intro run [of i]) simp_all
  next
    case False
    with page_index_ok(2) [OF ok False] err show thesis by (intro absent) (auto simp: io_then_def)
  qed
next
  case ran: (ok x)
  show thesis
  proof (cases "page_id c \<in> set (ht_pages t)")
    case True
    with page_index_ok(1) [OF ok] obtain i where i: "i < length (ht_pages t)" "page_index t c = Inr i"
      "ht_pages t ! i = page_id c" by blast
    from ran(1) i(2) have "m t i s = (Inr x, s')" "t' = t" by (auto simp: io_then_def split: prod.splits sum.splits)
    with i ran show thesis by (intro run [of i]) simp_all
  next
    case False
    with page_index_ok(2) [OF ok False] ran show thesis by (simp add: io_then_def)
  qed
qed

lemma infra_Buffer [simp]: "infra (Buffer b)" "infra HeapPoisoned"
  by (simp_all add: infra_def)

context page_store
begin

text \<open>Reading and writing a page of a consistent chain never meets a corrupt header.\<close>

lemma chain_read:
  assumes inv: "pinv H s" and ok: "heap_ok (view s) t" and i: "i < length (ht_pages t)"
    and r: "read_heap_page ops vs (ht_pages t ! i) (\<lambda>d. and_then (checked_header t i d) (g d)) s = (r, s')"
  shows "pinv H s'" "view s' = view s"
    and "(\<exists>b. r = Inl (Buffer b)) \<or> (\<exists>d hd. length d = PAGE_SIZE \<and> r = g d hd \<and>
      page_abs d = Some (ht_head t, chain_next (ht_pages t) i, page_slots (view s) (ht_pages t ! i)) \<and>
      unat (h_slots hd) = length (page_slots (view s) (ht_pages t ! i)))"
proof -
  note rr = read_heap_page_result [OF inv r]
  from ok i obtain d where d: "view s (ht_pages t ! i) = Some d" "length d = PAGE_SIZE"
    "page_abs d = Some (ht_head t, chain_next (ht_pages t) i, page_slots (view s) (ht_pages t ! i))"
    by (rule heap_ok_page)
  from checked_header_ok [OF d(3,2)] obtain hd where hd: "checked_header t i d = Inr hd"
    "unat (h_slots hd) = length (page_slots (view s) (ht_pages t ! i))" by blast
  show "pinv H s'" "view s' = view s" using rr(1,2) by simp_all
  from rr(3) show "(\<exists>b. r = Inl (Buffer b)) \<or> (\<exists>d hd. length d = PAGE_SIZE \<and> r = g d hd \<and>
      page_abs d = Some (ht_head t, chain_next (ht_pages t) i, page_slots (view s) (ht_pages t ! i)) \<and>
      unat (h_slots hd) = length (page_slots (view s) (ht_pages t ! i)))"
  proof
    assume "\<exists>d'. view s (ht_pages t ! i) = Some d' \<and> length d' = PAGE_SIZE \<and> r = and_then (checked_header t i d') (g d')"
    with d hd show ?thesis by auto
  qed simp
qed

lemma chain_write:
  assumes inv: "pinv H s" and ok: "heap_ok (view s) t" and i: "i < length (ht_pages t)"
    and r: "write_heap_page ops vs (ht_pages t ! i) (checked_write t i f) s = (r, s')"
    and f: "keeps_size f"
  shows "pinv H s'"
    and "(\<exists>b. r = Inl (Buffer b) \<and> view s' = view s) \<or> (\<exists>d. length d = PAGE_SIZE \<and> r = fst (f d) \<and>
      view s (ht_pages t ! i) = Some d \<and> view s' = (view s)(ht_pages t ! i \<mapsto> snd (f d)) \<and>
      page_abs d = Some (ht_head t, chain_next (ht_pages t) i, page_slots (view s) (ht_pages t ! i)))"
proof -
  note rr = write_heap_page_result [OF inv r heap_callback_size(3) [OF f]]
  from ok i obtain d where d: "view s (ht_pages t ! i) = Some d" "length d = PAGE_SIZE"
    "page_abs d = Some (ht_head t, chain_next (ht_pages t) i, page_slots (view s) (ht_pages t ! i))"
    by (rule heap_ok_page)
  from checked_header_ok [OF d(3,2)] obtain hd where hd: "checked_header t i d = Inr hd" by blast
  show "pinv H s'" by (rule rr(1))
  from rr(2) show "(\<exists>b. r = Inl (Buffer b) \<and> view s' = view s) \<or> (\<exists>d. length d = PAGE_SIZE \<and> r = fst (f d) \<and>
      view s (ht_pages t ! i) = Some d \<and> view s' = (view s)(ht_pages t ! i \<mapsto> snd (f d)) \<and>
      page_abs d = Some (ht_head t, chain_next (ht_pages t) i, page_slots (view s) (ht_pages t ! i)))"
  proof
    assume "\<exists>d'. view s (ht_pages t ! i) = Some d' \<and> length d' = PAGE_SIZE \<and> r = fst (checked_write t i f d') \<and>
      view s' = (view s)(ht_pages t ! i \<mapsto> snd (checked_write t i f d'))"
    with d hd show ?thesis by (auto simp: checked_write_def)
  qed (rule disjI1)
qed

definition quiet :: "pinned_buffer multiset \<Rightarrow> heap_table \<Rightarrow> ('s, 'v) pool \<Rightarrow> heap_table \<Rightarrow> ('s, 'v) pool \<Rightarrow> bool" where
  "quiet H t s t' s' \<longleftrightarrow> pinv H s' \<and> same_heap t t' \<and> view s' = view s"

lemma quiet_refl: "pinv H s \<Longrightarrow> quiet H t s t s"
  by (simp add: quiet_def)

lemma heap_get_result:
  assumes inv: "pinv H s" and ok: "heap_ok (view s) t" and wf: "ctid_wf c"
    and r: "heap_get ops vs c (t, s) = (r, (t', s'))"
  shows "quiet H t s t' s' \<and> ((\<exists>e. r = Inl e \<and> infra e) \<or>
      r = (if page_id c \<in> set (ht_pages t) then Inr (heap_map (view s) t c) else Inl (InvalidCtid c)))"
proof -
  from ok r [unfolded heap_get_def] show ?thesis
  proof (cases rule: indexed_opE)
    case (run i)
    then have c: "page_id c \<in> set (ht_pages t)" by (metis nth_mem)
    note cr = chain_read [OF inv ok run(1), of vs "\<lambda>d _. page_get d (slot_id c)", unfolded run(2), OF run(3)]
    have "(\<exists>b. r = Inl (Buffer b)) \<or> r = Inr (heap_map (view s) t c)"
      using cr(3) wf page_get_abs c by (fastforce simp: ctid_wf_def heap_map_slots)
    with cr(1,2) run c show ?thesis by (auto simp: quiet_def)
  qed (use inv in \<open>auto simp: quiet_def\<close>)
qed

text \<open>Writing callbacks that replace the slot list of one page.\<close>

lemma chain_write_slots:
  assumes inv: "pinv H s" and ok: "heap_ok (view s) t" and i: "i < length (ht_pages t)" "ht_pages t ! i = page_id c"
    and r: "write_heap_page ops vs (page_id c) (checked_write t i f) s = (r, s')"
    and f: "keeps_size f"
    and eff: "\<forall>d. length d = PAGE_SIZE \<longrightarrow>
      page_abs d = Some (ht_head t, chain_next (ht_pages t) i, page_slots (view s) (page_id c)) \<longrightarrow>
      fst (f d) = res \<and> page_abs (snd (f d)) = Some (ht_head t, chain_next (ht_pages t) i, ts)"
  shows "pinv H s' \<and> ((\<exists>b. r = Inl (Buffer b) \<and> view s' = view s) \<or>
    r = res \<and> heap_ok (view s') t \<and> untouched (ht_pages t) (view s) (view s') \<and>
    heap_map (view s') t = (\<lambda>k. if page_id k = page_id c then tuple_at ts (slot_id k) else heap_map (view s) t k))"
proof -
  note cw = chain_write [OF inv ok i(1), of vs f, unfolded i(2), OF r f]
  from cw(2) show ?thesis
  proof
    assume "\<exists>d. length d = PAGE_SIZE \<and> r = fst (f d) \<and> view s (page_id c) = Some d \<and>
      view s' = (view s)(page_id c \<mapsto> snd (f d)) \<and>
      page_abs d = Some (ht_head t, chain_next (ht_pages t) i, page_slots (view s) (page_id c))"
    then obtain d where d: "length d = PAGE_SIZE" "r = fst (f d)" "view s' = (view s)(page_id c \<mapsto> snd (f d))"
      "page_abs d = Some (ht_head t, chain_next (ht_pages t) i, page_slots (view s) (page_id c))" by blast
    from eff d(1,4) have e: "fst (f d) = res"
      "page_abs (snd (f d)) = Some (ht_head t, chain_next (ht_pages t) i, ts)" by simp_all
    have "page_id c \<in> set (ht_pages t)" using i by (metis nth_mem)
    moreover have "length (snd (f d)) = PAGE_SIZE" using f d(1) by (simp add: keeps_size_def)
    ultimately show ?thesis
      using heap_ok_update [OF ok i(1) _ e(2), unfolded i(2)] d(2,3) e(1) cw(1) by simp
  qed (rule conjI [OF cw(1)], rule disjI1)
qed

lemma tuple_at_update:
  assumes "sid \<noteq> 0" "tuple_at ts sid \<noteq> None"
  shows "tuple_at (ts[unat sid - 1 := v]) k = (if k = sid then v else tuple_at ts k)"
proof (cases "k = 0")
  case False
  have i: "unat sid - 1 < length ts" using assms by (auto simp: tuple_at_nth split: if_splits)
  show ?thesis
  proof (cases "k = sid")
    case True
    with i assms(1) show ?thesis by (simp add: tuple_at_nth)
  next
    case other: False
    have "unat k \<noteq> unat sid" using other by (metis word_unat_eq_iff)
    moreover have "unat k \<noteq> 0" "unat sid \<noteq> 0" using False assms(1) by (simp_all add: unat_gt_0)
    ultimately have "unat sid - 1 \<noteq> unat k - 1" by linarith
    with other False show ?thesis by (simp add: tuple_at_nth)
  qed
qed (use assms in \<open>simp add: tuple_at_def\<close>)

lemma ctid_eq_iff: "(k :: ctid) = c \<longleftrightarrow> page_id k = page_id c \<and> slot_id k = slot_id c"
  by (cases k; cases c) simp

lemma heap_map_update:
  assumes "page_id c \<in> set (ht_pages t)" "ctid_wf c" "heap_map V t c \<noteq> None"
  shows "(\<lambda>k. if page_id k = page_id c then tuple_at ((page_slots V (page_id c))[unat (slot_id c) - 1 := v]) (slot_id k)
      else heap_map V t k) = (heap_map V t)(c := v)"
  using assms by (auto simp: fun_eq_iff heap_map_slots tuple_at_update ctid_wf_def ctid_eq_iff simp del: One_nat_def)

lemma heap_delete_result:
  assumes inv: "pinv H s" and ok: "heap_ok (view s) t" and wf: "ctid_wf c"
    and r: "heap_delete ops vs c (t, s) = (r, (t', s'))"
  shows "(\<exists>e. r = Inl e \<and> infra e) \<and> quiet H t s t' s' \<or>
    (if page_id c \<notin> set (ht_pages t) then r = Inl (InvalidCtid c) \<and> quiet H t s t' s'
     else r = Inr (heap_map (view s) t c \<noteq> None) \<and> pinv H s' \<and> same_heap t t' \<and> heap_ok (view s') t \<and>
       untouched (ht_pages t) (view s) (view s') \<and> heap_map (view s') t = (heap_map (view s) t)(c := None))"
proof -
  from ok r [unfolded heap_delete_def] show ?thesis
  proof (cases rule: indexed_opE)
    case (run i)
    then have c: "page_id c \<in> set (ht_pages t)" by (metis nth_mem)
    have sid: "slot_id c \<noteq> 0" using wf by (simp add: ctid_wf_def)
    let ?ts = "page_slots (view s) (page_id c)"
    let ?new = "if tuple_at ?ts (slot_id c) = None then ?ts else ?ts[unat (slot_id c) - 1 := None]"
    have eff: "\<forall>d. length d = PAGE_SIZE \<longrightarrow> page_abs d = Some (ht_head t, chain_next (ht_pages t) i, ?ts) \<longrightarrow>
        fst (page_delete (slot_id c) d) = Inr (heap_map (view s) t c \<noteq> None) \<and>
        page_abs (snd (page_delete (slot_id c) d)) = Some (ht_head t, chain_next (ht_pages t) i, ?new)"
    proof (intro allI impI)
      fix d assume d: "length d = PAGE_SIZE" "page_abs d = Some (ht_head t, chain_next (ht_pages t) i, ?ts)"
      show "fst (page_delete (slot_id c) d) = Inr (heap_map (view s) t c \<noteq> None) \<and>
        page_abs (snd (page_delete (slot_id c) d)) = Some (ht_head t, chain_next (ht_pages t) i, ?new)"
        using page_delete_abs [OF d(2,1) sid] d heap_map_slots [OF c, of "view s"]
        by (cases "tuple_at ?ts (slot_id c) = None") auto
    qed
    have new: "(\<lambda>k. if page_id k = page_id c then tuple_at ?new (slot_id k) else heap_map (view s) t k)
        = (heap_map (view s) t)(c := None)"
    proof (cases "heap_map (view s) t c = None")
      case True
      with c show ?thesis by (auto simp: heap_map_slots fun_eq_iff)
    next
      case False
      then have "tuple_at ?ts (slot_id c) \<noteq> None" using c by (simp add: heap_map_slots)
      then show ?thesis using heap_map_update [OF c wf False, of None] by (simp only: if_False simp_thms)
    qed
    note cw = chain_write_slots [OF inv ok run(1-3) heap_callback_size(6) [OF sid] eff]
    from cw [unfolded new] run(4) c show ?thesis by (auto simp: quiet_def)
  qed (use inv in \<open>auto simp: quiet_def\<close>)
qed

lemma validate_tuple_cases:
  "validate_tuple bytes = (if bytes \<noteq> [] \<and> length bytes \<le> MAX_TUPLE_SIZE then Inr ()
     else Inl (InvalidTupleSize (length bytes) MAX_TUPLE_SIZE))"
  by (auto simp: validate_tuple_def)

lemma replace_record_abs:
  assumes "page_abs d = Some (owner, nx, ts)" "length d = PAGE_SIZE" "sid \<noteq> 0" "bytes \<noteq> []" "length bytes \<le> MAX_TUPLE_SIZE"
  shows "fst (replace_record sid bytes d) = (if tuple_at ts sid = None then Inr False
      else if fits (ts[unat sid - 1 := Some bytes]) then Inr True else Inl NoSpace)"
    and "page_abs (snd (replace_record sid bytes d)) = Some (owner, nx,
      if tuple_at ts sid \<noteq> None \<and> fits (ts[unat sid - 1 := Some bytes]) then ts[unat sid - 1 := Some bytes] else ts)"
proof -
  note g = page_get_abs [OF assms(1-3)] and rp = page_replace_abs [OF assms]
  consider "tuple_at ts sid = None" | x where "tuple_at ts sid = Some x" "fits (ts[unat sid - 1 := Some bytes])"
    | x where "tuple_at ts sid = Some x" "\<not> fits (ts[unat sid - 1 := Some bytes])" by blast
  then have "fst (replace_record sid bytes d) = (if tuple_at ts sid = None then Inr False
      else if fits (ts[unat sid - 1 := Some bytes]) then Inr True else Inl NoSpace) \<and>
    page_abs (snd (replace_record sid bytes d)) = Some (owner, nx,
      if tuple_at ts sid \<noteq> None \<and> fits (ts[unat sid - 1 := Some bytes]) then ts[unat sid - 1 := Some bytes] else ts)"
  proof cases
    case 1
    with g assms(1) show ?thesis by (simp add: replace_record_def)
  next
    case 2
    then obtain d' where d': "page_replace sid bytes d = (Inr True, d')"
      "page_abs d' = Some (owner, nx, ts[unat sid - 1 := Some bytes])" using rp(2) by auto
    with g 2 show ?thesis by (simp add: replace_record_def del: One_nat_def)
  next
    case 3
    with rp(1) g assms(1) show ?thesis by (simp add: replace_record_def del: One_nat_def)
  qed
  then show "fst (replace_record sid bytes d) = (if tuple_at ts sid = None then Inr False
      else if fits (ts[unat sid - 1 := Some bytes]) then Inr True else Inl NoSpace)"
    and "page_abs (snd (replace_record sid bytes d)) = Some (owner, nx,
      if tuple_at ts sid \<noteq> None \<and> fits (ts[unat sid - 1 := Some bytes]) then ts[unat sid - 1 := Some bytes] else ts)"
    by blast+
qed

lemma heap_replace_result:
  assumes inv: "pinv H s" and ok: "heap_ok (view s) t" and wf: "ctid_wf c"
    and r: "heap_replace ops vs c bytes (t, s) = (r, (t', s'))"
  shows "pinv H s' \<and> same_heap t t' \<and> heap_ok (view s') t \<and> untouched (ht_pages t) (view s) (view s') \<and>
    ((\<exists>e. r = Inl e \<and> infra e) \<and> heap_map (view s') t = heap_map (view s) t \<or>
     r = replace_verdict t (view s) c bytes \<and>
     heap_map (view s') t = (if r = Inr True then (heap_map (view s) t)(c \<mapsto> bytes) else heap_map (view s) t))"
proof (cases "bytes \<noteq> [] \<and> length bytes \<le> MAX_TUPLE_SIZE")
  case size: True
  then have "heap_locked (\<lambda>t. io_then (io_lift (page_index t c)) (\<lambda>index.
       io_then (write_heap_page ops vs (page_id c) (checked_write t index (replace_record (slot_id c) bytes)))
         (\<lambda>r. io_ok (r, t)))) (t, s) = (r, (t', s'))"
    using r by (simp add: heap_replace_def validate_tuple_cases io_then_def)
  with ok show ?thesis
  proof (cases rule: indexed_opE)
    case (run i)
    then have c: "page_id c \<in> set (ht_pages t)" by (metis nth_mem)
    have sid: "slot_id c \<noteq> 0" using wf by (simp add: ctid_wf_def)
    let ?ts = "page_slots (view s) (page_id c)"
    let ?hit = "tuple_at ?ts (slot_id c) \<noteq> None \<and> fits (?ts[unat (slot_id c) - 1 := Some bytes])"
    let ?new = "if ?hit then ?ts[unat (slot_id c) - 1 := Some bytes] else ?ts"
    let ?res = "replace_verdict t (view s) c bytes"
    have res: "?res = (if tuple_at ?ts (slot_id c) = None then Inr False
        else if fits (?ts[unat (slot_id c) - 1 := Some bytes]) then Inr True else Inl NoSpace)"
      using size c by (auto simp: replace_verdict_def replace_fits_def heap_map_slots)
    have eff: "\<forall>d. length d = PAGE_SIZE \<longrightarrow> page_abs d = Some (ht_head t, chain_next (ht_pages t) i, ?ts) \<longrightarrow>
        fst (replace_record (slot_id c) bytes d) = ?res \<and>
        page_abs (snd (replace_record (slot_id c) bytes d)) = Some (ht_head t, chain_next (ht_pages t) i, ?new)"
      unfolding res using replace_record_abs [OF _ _ sid] size by blast
    have new: "(\<lambda>k. if page_id k = page_id c then tuple_at ?new (slot_id k) else heap_map (view s) t k)
        = (if ?res = Inr True then (heap_map (view s) t)(c \<mapsto> bytes) else heap_map (view s) t)"
    proof (cases ?hit)
      case True
      then have "heap_map (view s) t c \<noteq> None" using c by (simp add: heap_map_slots)
      from heap_map_update [OF c wf this, of "Some bytes"] True show ?thesis by (auto simp: res simp del: One_nat_def)
    next
      case False
      then have "?res \<noteq> Inr True" by (auto simp: res)
      with False c show ?thesis by (auto simp: fun_eq_iff heap_map_slots)
    qed
    note cw = chain_write_slots [OF inv ok run(1-3) heap_callback_size(1) [OF sid] eff]
    from cw [unfolded new] run(4) ok show ?thesis by auto
  next
    case refused
    with inv ok show ?thesis by simp
  next
    case absent
    with inv ok size show ?thesis by (auto simp: replace_verdict_def)
  qed
next
  case False
  then have "r = Inl (InvalidTupleSize (length bytes) MAX_TUPLE_SIZE)" "t' = t" "s' = s"
    using r by (auto simp: heap_replace_def validate_tuple_cases io_then_def split: if_splits)
  with False inv ok show ?thesis by (auto simp: replace_verdict_def)
qed

end

text \<open>Linking a fresh page behind the tail.\<close>

definition link_page :: "heap_table \<Rightarrow> u32 \<Rightarrow> heap_table" where
  "link_page t pg = t\<lparr>ht_pages := ht_pages t @ [pg],
     ht_indices := AList.update pg (length (ht_pages t)) (ht_indices t)\<rparr>"

lemma chain_next_append:
  "i < length ps \<Longrightarrow> chain_next (ps @ [pg]) i = (if i = length ps - 1 then Some pg else chain_next ps i)"
  by (auto simp: chain_next_def nth_append)

lemma heap_extend:
  assumes ok: "heap_ok V t" and pg: "V pg = None"
    and d: "length d = PAGE_SIZE" "page_abs d = Some (ht_head t, None, ts)"
    and tl: "length e = PAGE_SIZE" "page_abs e = Some (ht_head t, Some pg, page_slots V (last (ht_pages t)))"
  defines "V' \<equiv> (V(pg \<mapsto> d))(last (ht_pages t) \<mapsto> e)"
  shows "heap_ok V' (link_page t pg)"
    and "heap_map V' (link_page t pg) = (\<lambda>k. if page_id k = pg then tuple_at ts (slot_id k) else heap_map V t k)"
    and "untouched (ht_pages t) V V'"
    and "map (\<lambda>p. (p, page_slots V' p)) (ht_pages (link_page t pg)) = map (\<lambda>p. (p, page_slots V p)) (ht_pages t) @ [(pg, ts)]"
proof -
  let ?ps = "ht_pages t" and ?n = "length (ht_pages t)"
  have ne: "?ps \<noteq> []" and dist: "distinct ?ps" using ok by (simp_all add: heap_ok_def)
  have mem: "V p \<noteq> None" if "p \<in> set ?ps" for p
    using that heap_ok_page [OF ok] by (metis in_set_conv_nth option.distinct(1))
  have fresh: "pg \<notin> set ?ps" using mem pg by blast
  have lst: "last ?ps = ?ps ! (?n - 1)" "last ?ps \<in> set ?ps" using ne by (simp_all add: last_conv_nth)
  have m: "map_of (ht_indices t) p = Some i \<longleftrightarrow> i < ?n \<and> ?ps ! i = p" for p i
    using ok by (simp add: heap_ok_def)
  have idx: "map_of (AList.update pg ?n (ht_indices t)) p = Some i \<longleftrightarrow> i < Suc ?n \<and> (?ps @ [pg]) ! i = p" for p i
    using m [of p i] fresh by (auto simp: alist_map_of nth_append less_Suc_eq)
  have page: "\<exists>d' us. V' ((?ps @ [pg]) ! i) = Some d' \<and> length d' = PAGE_SIZE \<and>
      page_abs d' = Some (ht_head t, chain_next (?ps @ [pg]) i, us)" if "i < Suc ?n" for i
  proof (cases "i < ?n")
    case True
    show ?thesis
    proof (cases "i = ?n - 1")
      case last: True
      then have "(?ps @ [pg]) ! i = last ?ps" using True lst by (simp add: nth_append)
      with last True tl show ?thesis by (auto simp: V'_def chain_next_append)
    next
      case False
      have "?ps ! i \<noteq> last ?ps" using True False dist lst(1) by (simp add: nth_eq_iff_index_eq)
      moreover have "?ps ! i \<noteq> pg" using True fresh by (metis nth_mem)
      ultimately have "V' ((?ps @ [pg]) ! i) = V (?ps ! i)" using True by (simp add: V'_def nth_append)
      moreover obtain d' where "V (?ps ! i) = Some d'" "length d' = PAGE_SIZE"
        "page_abs d' = Some (ht_head t, chain_next ?ps i, page_slots V (?ps ! i))" using ok True by (rule heap_ok_page)
      ultimately show ?thesis using True False by (auto simp: chain_next_append)
    qed
  next
    case False
    with that have "i = ?n" by simp
    moreover have "pg \<noteq> last ?ps" using fresh lst(2) by auto
    ultimately show ?thesis using d by (auto simp: V'_def chain_next_def nth_append)
  qed
  show "heap_ok V' (link_page t pg)"
    using ok ne dist fresh idx page by (simp add: heap_ok_def link_page_def hd_append)
  have slots: "page_slots V' p = page_slots V p" if "p \<noteq> pg" for p
    using that tl by (auto simp: page_slots_def V'_def)
  have pgs: "page_slots V' pg = ts" using d fresh lst(2) by (auto simp: page_slots_def V'_def)
  have "map (\<lambda>p. (p, page_slots V' p)) ?ps = map (\<lambda>p. (p, page_slots V p)) ?ps"
  proof (rule map_cong [OF refl])
    fix p assume "p \<in> set ?ps"
    with fresh have "p \<noteq> pg" by auto
    with slots show "(p, page_slots V' p) = (p, page_slots V p)" by simp
  qed
  with pgs show "map (\<lambda>p. (p, page_slots V' p)) (ht_pages (link_page t pg)) =
      map (\<lambda>p. (p, page_slots V p)) ?ps @ [(pg, ts)]" by (simp add: link_page_def)
  from pgs slots fresh show "heap_map V' (link_page t pg) = (\<lambda>k. if page_id k = pg then tuple_at ts (slot_id k) else heap_map V t k)"
    by (auto simp: heap_map_def link_page_def fun_eq_iff)
  show "untouched ?ps V V'" using pg lst(2) by (auto simp: untouched_def V'_def)
qed

lemma tuple_at_append:
  assumes "length ts + 1 < 65536"
  shows "tuple_at (ts @ [v]) k = (if k = word_of_nat (length ts + 1) then v else tuple_at ts k)"
    and "tuple_at ts (word_of_nat (length ts + 1)) = None" and "(word_of_nat (length ts + 1) :: u16) \<noteq> 0"
proof -
  let ?w = "word_of_nat (length ts + 1) :: u16"
  have w: "unat ?w = length ts + 1" using assms by (rule unat_u16_of_nat)
  then show nz: "?w \<noteq> 0" by (metis Suc_eq_plus1 nat.distinct(1) unat_0)
  show "tuple_at ts ?w = None" using w by (simp add: tuple_at_def)
  show "tuple_at (ts @ [v]) k = (if k = ?w then v else tuple_at ts k)"
  proof (cases "k = ?w")
    case True
    with w nz show ?thesis by (simp add: tuple_at_def)
  next
    case False
    then have "unat k \<noteq> length ts + 1" using w by (metis word_unat_eq_iff)
    moreover have "unat k \<noteq> 0" if "k \<noteq> 0" using that by (simp add: unat_gt_0)
    ultimately show ?thesis using False by (auto simp: tuple_at_def nth_append)
  qed
qed

lemma insert_fresh_abs:
  assumes "length d = PAGE_SIZE" "bytes \<noteq> []" "length bytes \<le> MAX_TUPLE_SIZE"
  shows "fst (insert_fresh head bytes d) = Inr 1"
    and "page_abs (snd (insert_fresh head bytes d)) = Some (head, None, [Some bytes])"
proof -
  have "fits ([] @ [Some bytes])"
    using assms(2,3) by (simp add: fits_def MAX_TUPLE_SIZE_def HEADER_SIZE_def SLOT_SIZE_def PAGE_SIZE_def)
  from page_insert_abs(1) [OF page_abs_initialize [OF assms(1)] initialize_page(1) [OF assms(1)] assms(2,3) this]
  obtain p' where "page_insert bytes (initialize d head) = (Inr (Some 1), p')"
    "page_abs p' = Some (head, None, [Some bytes])" by auto
  then show "fst (insert_fresh head bytes d) = Inr 1"
    and "page_abs (snd (insert_fresh head bytes d)) = Some (head, None, [Some bytes])"
    by (simp_all add: insert_fresh_def)
qed

text \<open>An insertion extends the slots of the tail page or hangs a new page behind it.\<close>

definition chain_slots :: "(u32 \<Rightarrow> page option) \<Rightarrow> heap_table \<Rightarrow> (u32 \<times> u8 list option list) list" where
  "chain_slots V t = map (\<lambda>p. (p, page_slots V p)) (ht_pages t)"

definition slots_added :: "ctid \<Rightarrow> u8 list \<Rightarrow> (u32 \<times> u8 list option list) list \<Rightarrow>
    (u32 \<times> u8 list option list) list \<Rightarrow> bool" where
  "slots_added c bytes cs cs' \<longleftrightarrow>
     (\<exists>pre ts. cs = pre @ [(page_id c, ts)] \<and> cs' = pre @ [(page_id c, ts @ [Some bytes])] \<and>
        slot_id c = word_of_nat (length ts + 1)) \<or>
     cs' = cs @ [(page_id c, [Some bytes])] \<and> slot_id c = 1"

lemma slots_added_tail:
  assumes ok: "heap_ok V t" and p: "page_abs d = Some (ow, nx, page_slots V (last (ht_pages t)) @ [Some bytes])"
    and c: "page_id c = last (ht_pages t)" "slot_id c = word_of_nat (length (page_slots V (last (ht_pages t))) + 1)"
  shows "slots_added c bytes (chain_slots V t) (chain_slots (V(last (ht_pages t) \<mapsto> d)) t)"
proof -
  from ok have ne: "ht_pages t \<noteq> []" and dist: "distinct (ht_pages t)" by (simp_all add: heap_ok_def)
  let ?tail = "last (ht_pages t)" and ?pre = "butlast (ht_pages t)"
  have ps: "ht_pages t = ?pre @ [?tail]" using ne by simp
  have "p \<noteq> ?tail" if "p \<in> set ?pre" for p using dist that by (subst (asm) ps) auto
  then have "map (\<lambda>p. (p, page_slots (V(?tail \<mapsto> d)) p)) ?pre = map (\<lambda>p. (p, page_slots V p)) ?pre"
    by (simp add: page_slots_def)
  moreover have "page_slots (V(?tail \<mapsto> d)) ?tail = page_slots V ?tail @ [Some bytes]"
    by (simp add: page_slots_def [of "V(?tail \<mapsto> d)"] p)
  moreover have "chain_slots W t = map (\<lambda>p. (p, page_slots W p)) ?pre @ [(?tail, page_slots W ?tail)]" for W
    unfolding chain_slots_def by (subst ps) simp
  ultimately have "chain_slots V t = map (\<lambda>p. (p, page_slots V p)) ?pre @ [(page_id c, page_slots V ?tail)]"
    "chain_slots (V(?tail \<mapsto> d)) t =
      map (\<lambda>p. (p, page_slots V p)) ?pre @ [(page_id c, page_slots V ?tail @ [Some bytes])]"
    unfolding c(1) by simp_all
  then show ?thesis using c(2) unfolding slots_added_def by blast
qed

definition inserted :: "u8 list \<Rightarrow> heap_table \<Rightarrow> (u32 \<Rightarrow> page option) \<Rightarrow> heap_error + ctid \<Rightarrow> heap_table \<Rightarrow>
    (u32 \<Rightarrow> page option) \<Rightarrow> bool" where
  "inserted bytes t V r t' V' \<longleftrightarrow> heap_ok V' t' \<and> untouched (ht_pages t) V V' \<and>
     (case r of
        Inr c \<Rightarrow> ctid_wf c \<and> heap_map V t c = None \<and> heap_map V' t' = (heap_map V t)(c \<mapsto> bytes) \<and>
          slots_added c bytes (chain_slots V t) (chain_slots V' t') \<and> ht_head t' = ht_head t
      | Inl e \<Rightarrow> same_heap t t' \<and> heap_map V' t' = heap_map V t \<and> chain_slots V' t' = chain_slots V t)"

lemma inserted_err:
  assumes ok: "heap_ok V t" and same: "same_heap t t'" and V': "\<And>p. V p \<noteq> None \<Longrightarrow> V' p = V p"
  shows "inserted bytes t V (Inl e) t' V'"
proof -
  have "V p \<noteq> None" if "p \<in> set (ht_pages t)" for p
    using that heap_ok_page [OF ok] by (metis in_set_conv_nth option.distinct(1))
  then have V: "V' p = V p" if "p \<in> set (ht_pages t)" for p using V' that by blast
  then have "heap_ok V' t" "heap_map V' t = heap_map V t" using heap_ok_cong [OF ok] by blast+
  moreover have "chain_slots V' t = chain_slots V t"
    using V by (auto simp: chain_slots_def page_slots_def)
  ultimately show ?thesis
    using same_heap_simps [OF same] same V' by (simp add: inserted_def untouched_def chain_slots_def)
qed

context page_store
begin

text \<open>The second half of an insertion: allocate, fill, link.\<close>

lemma insert_new_page:
  assumes inv: "pinv H s" and ok: "heap_ok (view s) t"
    and size: "bytes \<noteq> []" "length bytes \<le> MAX_TUPLE_SIZE"
    and r: "io_then (pool_op (pool_new_page ops vs)) (\<lambda>h.
          io_then (pinned_write h (insert_fresh (ht_head t) bytes)) (\<lambda>sid.
          io_then (write_heap_page ops vs (last (ht_pages t))
            (checked_write t (length (ht_pages t) - 1) (page_set_next (Some (pb_page h))))) (\<lambda>_.
          io_ok (\<lparr>page_id = pb_page h, slot_id = sid\<rparr>, link_page t (pb_page h))))) s = (q, s')"
  shows "pinv H s'" and "case q of Inl e \<Rightarrow> infra e \<and> inserted bytes t (view s) (Inl e) t (view s')
    | Inr (c, t') \<Rightarrow> inserted bytes t (view s) (Inr c) t' (view s')"
proof -
  have fresh_err: "inserted bytes t (view s) (Inl e) t V'" if "\<And>p. view s p \<noteq> None \<Longrightarrow> V' p = view s p" for e V'
    using that by (intro inserted_err [OF ok]) auto
  have "pinv H s' \<and> (case q of Inl e \<Rightarrow> infra e \<and> inserted bytes t (view s) (Inl e) t (view s')
    | Inr (c, t') \<Rightarrow> inserted bytes t (view s) (Inr c) t' (view s'))"
    using r
  proof (cases rule: io_thenE)
    case (err e)
    from pool_op_Inl [OF err(1)] obtain b where b: "pool_new_page ops vs s = (Inl b, s')" "e = Buffer b" by blast
    from pool_new_page_inv [OF inv b(1)] have "pinv H s'" "\<And>p. view s p \<noteq> None \<Longrightarrow> view s' p = view s p"
      by (auto simp: created_def)
    with fresh_err err(2) b(2) show ?thesis by simp
  next
    case (ok h s1)
    from pool_new_page_inv [OF inv pool_op_Inr [OF ok(1)]]
    have pg: "view s (pb_page h) = None" and v1: "view s1 = (view s)(pb_page h \<mapsto> zero_page)"
      and inv1: "pinv (add_mset h H) s1" by (simp_all add: created_def)
    from ok(2) show ?thesis
    proof (cases rule: io_thenE)
      case (err e)
      from pinned_write_result [OF inv1 err(1) heap_callback_size(2)] v1 insert_fresh_abs(1) [OF _ size]
      have "pinv H s'" "infra e" "view s' = view s1" by auto
      moreover have "inserted bytes t (view s) (Inl e) t (view s')"
        unfolding \<open>view s' = view s1\<close> v1 by (rule fresh_err) (use pg in auto)
      ultimately show ?thesis using err(2) by simp
    next
      case wrote: (ok sid s2)
      let ?d = "snd (insert_fresh (ht_head t) bytes zero_page)"
      define d where "d = ?d"
      have "pinv H s2 \<and> sid = 1 \<and> view s2 = (view s)(pb_page h \<mapsto> ?d)"
        using pinned_write_result [OF inv1 wrote(1) heap_callback_size(2)] v1 insert_fresh_abs(1) [OF _ size] by auto
      then have inv2: "pinv H s2" and sid: "sid = 1" and v2: "view s2 = (view s)(pb_page h \<mapsto> d)"
        by (simp_all add: d_def)
      have d: "page_abs d = Some (ht_head t, None, [Some bytes])"
        unfolding d_def by (rule insert_fresh_abs(2) [OF length_zero_page size])
      have dl: "length d = PAGE_SIZE" using view_page_size [OF inv2, of "pb_page h" d] v2 by simp
      let ?i = "length (ht_pages t) - 1" and ?tail = "last (ht_pages t)"
      have ne: "ht_pages t \<noteq> []" using \<open>heap_ok (view s) t\<close> by (simp add: heap_ok_def)
      then have i: "?i < length (ht_pages t)" and tl: "ht_pages t ! ?i = ?tail" by (simp_all add: last_conv_nth)
      have mem: "view s p \<noteq> None" if "p \<in> set (ht_pages t)" for p
        using that heap_ok_page [OF \<open>heap_ok (view s) t\<close>] by (metis in_set_conv_nth option.distinct(1))
      then have notin: "pb_page h \<notin> set (ht_pages t)" using pg by blast
      have ok2: "heap_ok (view s2) t"
        unfolding v2 by (rule heap_ok_cong(1) [OF \<open>heap_ok (view s) t\<close>]) (use notin in auto)
      have slots: "page_slots (view s2) ?tail = page_slots (view s) ?tail"
      proof -
        have "?tail \<noteq> pb_page h" using notin ne by (metis last_in_set)
        then show ?thesis using v2 by (simp add: page_slots_def)
      qed
      from wrote(2) show ?thesis
      proof (cases rule: io_thenE)
        case (err e)
        note cw = chain_write [OF inv2 ok2 i, of vs, unfolded tl, OF err(1) heap_callback_size(5)]
        from cw(2) have "\<exists>b. e = Buffer b \<and> view s' = view s2"
          using page_set_next_abs(1) by (fastforce simp: slots)
        then have "infra e" "view s' = view s2" by auto
        moreover have "inserted bytes t (view s) (Inl e) t (view s2)"
          unfolding v2 by (rule fresh_err) (use pg in auto)
        ultimately show ?thesis using cw(1) err(2) by simp
      next
        case linked: (ok u s3)
        note cw = chain_write [OF inv2 ok2 i, of vs, unfolded tl, OF linked(1) heap_callback_size(5)]
        from cw(2) obtain e where e: "length e = PAGE_SIZE" "view s3 = (view s2)(?tail \<mapsto> snd (page_set_next (Some (pb_page h)) e))"
          "page_abs e = Some (ht_head t, chain_next (ht_pages t) ?i, page_slots (view s) ?tail)"
          by (auto simp: slots)
        note sn = page_set_next_abs [OF e(3,1), of "Some (pb_page h)"]
        note ex = heap_extend [OF \<open>heap_ok (view s) t\<close> pg dl d sn(2,3)]
        have s': "s' = s3" "q = Inr (\<lparr>page_id = pb_page h, slot_id = 1\<rparr>, link_page t (pb_page h))"
          using linked(2) sid by auto
        have v3: "view s3 = ((view s)(pb_page h \<mapsto> d))(?tail \<mapsto> write_next e (Some (pb_page h)))"
          using e(2) v2 sn(1) by simp
        have one: "tuple_at [Some bytes] k = (if k = 1 then Some bytes else None)" for k
          using tuple_at_append(1) [of "[]" "Some bytes" k] by simp
        have "heap_map (view s3) (link_page t (pb_page h)) =
            (heap_map (view s) t)(\<lparr>page_id = pb_page h, slot_id = 1\<rparr> \<mapsto> bytes)"
          unfolding v3 ex(2) using notin by (auto simp: fun_eq_iff one ctid_eq_iff heap_map_def)
        moreover have "heap_map (view s) t \<lparr>page_id = pb_page h, slot_id = 1\<rparr> = None"
          using notin by (simp add: heap_map_def)
        moreover have "slots_added \<lparr>page_id = pb_page h, slot_id = 1\<rparr> bytes (chain_slots (view s) t)
            (chain_slots (view s3) (link_page t (pb_page h)))"
          using ex(4) v3 by (simp add: slots_added_def chain_slots_def)
        moreover have "ht_head (link_page t (pb_page h)) = ht_head t" by (simp add: link_page_def)
        ultimately show ?thesis using s' cw(1) ex(1,3) v3 by (simp add: inserted_def ctid_wf_def)
      qed
    qed
  qed
  then show "pinv H s'" and "case q of Inl e \<Rightarrow> infra e \<and> inserted bytes t (view s) (Inl e) t (view s')
    | Inr (c, t') \<Rightarrow> inserted bytes t (view s) (Inr c) t' (view s')" by auto
qed

lemma heap_insert_locked_result:
  assumes inv: "pinv H s" and ok: "heap_ok (view s) t"
    and size: "bytes \<noteq> []" "length bytes \<le> MAX_TUPLE_SIZE"
    and r: "heap_insert_locked ops vs bytes t s = (q, s')"
  shows "pinv H s' \<and> (case q of Inl e \<Rightarrow> infra e \<and> inserted bytes t (view s) (Inl e) t (view s')
    | Inr (c, t') \<Rightarrow> inserted bytes t (view s) (Inr c) t' (view s'))"
proof -
  let ?i = "length (ht_pages t) - 1" and ?tail = "last (ht_pages t)"
  let ?c = "\<lambda>sid. \<lparr>page_id = ?tail, slot_id = sid\<rparr>"
  have ne: "ht_pages t \<noteq> []" using ok by (simp add: heap_ok_def)
  then have i: "?i < length (ht_pages t)" and tl: "ht_pages t ! ?i = ?tail" and mem: "?tail \<in> set (ht_pages t)"
    by (simp_all add: last_conv_nth)
  let ?ts = "page_slots (view s) ?tail"
  from r [unfolded heap_insert_locked_def Let_def tl] show ?thesis
  proof (cases rule: io_thenE)
    case (err e)
    note cw = chain_write [OF inv ok i, of vs, unfolded tl, OF err(1) heap_callback_size(4)]
    from cw(2) have "(\<exists>b. e = Buffer b) \<and> view s' = view s"
    proof
      assume "\<exists>d. length d = PAGE_SIZE \<and> Inl e = fst (page_insert bytes d) \<and> view s ?tail = Some d \<and>
        view s' = (view s)(?tail \<mapsto> snd (page_insert bytes d)) \<and>
        page_abs d = Some (ht_head t, chain_next (ht_pages t) ?i, ?ts)"
      then obtain d where d: "length d = PAGE_SIZE" "Inl e = fst (page_insert bytes d)"
        "page_abs d = Some (ht_head t, chain_next (ht_pages t) ?i, ?ts)" by blast
      from page_insert_spec [OF d(3,1), of bytes] size d(2) show ?thesis by (auto split: if_splits)
    qed auto
    then have "infra e" "view s' = view s" by auto
    with cw(1) err(2) inserted_err [OF ok same_heap_refl, of "view s'"] show ?thesis by simp
  next
    case (ok w s1)
    note cw = chain_write [OF inv \<open>heap_ok (view s) t\<close> i, of vs, unfolded tl, OF ok(1) heap_callback_size(4)]
    from cw(2) obtain d where d: "length d = PAGE_SIZE" "Inr w = fst (page_insert bytes d)" "view s ?tail = Some d"
      "view s1 = (view s)(?tail \<mapsto> snd (page_insert bytes d))"
      "page_abs d = Some (ht_head t, chain_next (ht_pages t) ?i, ?ts)" by blast
    show ?thesis
    proof (cases "fits (?ts @ [Some bytes])")
      case True
      from page_insert_spec [OF d(5,1), of bytes] size True obtain p'
        where p': "page_insert bytes d = (Inr (Some (word_of_nat (length ?ts + 1))), p')" "length p' = PAGE_SIZE"
          "page_abs p' = Some (ht_head t, chain_next (ht_pages t) ?i, ?ts @ [Some bytes])" by auto
      let ?w = "word_of_nat (length ?ts + 1) :: u16"
      have s': "s' = s1" "q = Inr (?c ?w, t)" using ok(2) d(2) p'(1) by auto
      have v1: "view s1 = (view s)(?tail \<mapsto> p')" using d(4) p'(1) by simp
      note up = heap_ok_update [OF \<open>heap_ok (view s) t\<close> i p'(2,3), unfolded tl]
      have "length ?ts + 1 < 65536" using fits_bounds(3) [OF True] by simp
      note ta = tuple_at_append [OF this]
      have "heap_map (view s1) t = (heap_map (view s) t)(?c ?w \<mapsto> bytes)"
        unfolding v1 up(2) using mem ta(1) [of "Some bytes"]
        by (auto simp: fun_eq_iff heap_map_def ctid_eq_iff simp del: One_nat_def of_nat_add)
      moreover have "heap_map (view s) t (?c ?w) = None" using ta(2) by (simp add: heap_map_def)
      moreover have "slots_added (?c ?w) bytes (chain_slots (view s) t) (chain_slots (view s1) t)"
        unfolding v1 by (rule slots_added_tail [OF \<open>heap_ok (view s) t\<close> p'(3)]) simp_all
      ultimately show ?thesis
        using s' cw(1) up(1) v1 mem ta(3) by (simp add: inserted_def ctid_wf_def)
    next
      case False
      with page_insert_spec [OF d(5,1), of bytes] size have no: "page_insert bytes d = (Inr None, d)" by simp
      then have v1: "view s1 = view s" using d(3,4) by auto
      with \<open>heap_ok (view s) t\<close> have ok1: "heap_ok (view s1) t" by simp
      have w: "w = None" using d(2) no by simp
      from ok(2) [unfolded w] have "io_then (pool_op (pool_new_page ops vs)) (\<lambda>h.
          io_then (pinned_write h (insert_fresh (ht_head t) bytes)) (\<lambda>sid.
          io_then (write_heap_page ops vs (last (ht_pages t))
            (checked_write t (length (ht_pages t) - 1) (page_set_next (Some (pb_page h))))) (\<lambda>_.
          io_ok (\<lparr>page_id = pb_page h, slot_id = sid\<rparr>, link_page t (pb_page h))))) s1 = (q, s')"
        by (simp add: link_page_def)
      from insert_new_page [OF cw(1) ok1 size this, unfolded v1] show ?thesis by blast
    qed
  qed
qed

lemma heap_insert_result:
  assumes inv: "pinv H s" and ok: "heap_ok (view s) t" and r: "heap_insert ops vs bytes (t, s) = (r, (t', s'))"
  shows "pinv H s' \<and> inserted bytes t (view s) r t' (view s') \<and>
    (\<forall>e. r = Inl e \<longrightarrow> infra e \<or>
       (bytes = [] \<or> length bytes > MAX_TUPLE_SIZE) \<and> e = InvalidTupleSize (length bytes) MAX_TUPLE_SIZE)"
proof (cases "bytes \<noteq> [] \<and> length bytes \<le> MAX_TUPLE_SIZE")
  case True
  then have "heap_locked (heap_insert_locked ops vs bytes) (t, s) = (r, (t', s'))"
    using r by (simp add: heap_insert_def validate_tuple_cases io_then_def)
  then show ?thesis
  proof (cases rule: heap_lockedE)
    case poisoned
    with inv ok inserted_err [OF ok same_heap_refl, of "view s"] show ?thesis by simp
  next
    case (err e)
    from heap_insert_locked_result [OF inv ok _ _ err(1)] True
    have "pinv H s'" "infra e" "inserted bytes t (view s) (Inl e) t (view s')" by auto
    with err same_heap_simps [OF err(3)] show ?thesis by (simp add: inserted_def chain_slots_def)
  next
    case (ok c)
    from heap_insert_locked_result [OF inv \<open>heap_ok (view s) t\<close> _ _ ok(1)] True ok(2) show ?thesis by simp
  qed
next
  case False
  then have "r = Inl (InvalidTupleSize (length bytes) MAX_TUPLE_SIZE)" "t' = t" "s' = s"
    using r by (auto simp: heap_insert_def validate_tuple_cases io_then_def split: if_splits)
  with False inv inserted_err [OF ok same_heap_refl, of "view s"] show ?thesis by auto
qed

lemma heap_create_result:
  assumes inv: "pinv H s" and r: "heap_create ops vs s = (Inr t, s')"
  shows "pinv H s' \<and> heap_ok (view s') t \<and> heap_map (view s') t = (\<lambda>_. None) \<and>
    view s (ht_head t) = None \<and> ht_pages t = [ht_head t] \<and> untouched [] (view s) (view s')"
  using r unfolding heap_create_def Let_def
proof (cases rule: io_thenE)
  case (ok h s1)
  from pool_new_page_inv [OF inv pool_op_Inr [OF ok(1)]]
  have pg: "view s (pb_page h) = None" and v1: "view s1 = (view s)(pb_page h \<mapsto> zero_page)"
    and inv1: "pinv (add_mset h H) s1" by (simp_all add: created_def)
  from ok(2) show ?thesis
  proof (cases rule: io_thenE)
    case wrote: (ok u s2)
    note pw = pinned_write_result [OF inv1 wrote(1) heap_callback_size(7)]
    have v2: "view s2 = (view s)(pb_page h \<mapsto> initialize zero_page (pb_page h))" using pw(2) v1 by auto
    have t: "t = \<lparr>ht_head = pb_page h, ht_pages = [pb_page h], ht_indices = [(pb_page h, 0)], ht_poisoned = False\<rparr>"
      and s': "s' = s2" using wrote(2) by auto
    have "heap_ok (view s2) t" using page_abs_initialize [OF length_zero_page, of "pb_page h"] initialize_page(1) [OF length_zero_page]
      by (auto simp: heap_ok_def t v2 chain_next_def)
    moreover have "heap_map (view s2) t = (\<lambda>_. None)"
      using page_abs_initialize [OF length_zero_page, of "pb_page h"]
      by (auto simp: heap_map_def t v2 page_slots_def fun_eq_iff)
    moreover have "untouched [] (view s) (view s2)" using pg v2 by (auto simp: untouched_def)
    ultimately show ?thesis using pw(1) pg s' by (simp add: t)
  qed auto
qed auto

lemma heap_create_keeps:
  assumes inv: "pinv H s" and r: "heap_create ops vs s = (r, s')"
  shows "pinv H s' \<and> untouched [] (view s) (view s') \<and> (\<forall>e. r = Inl e \<longrightarrow> infra e)"
proof (cases r)
  case (Inr t)
  with heap_create_result [OF inv] r show ?thesis by simp
next
  case (Inl e)
  with r show ?thesis unfolding heap_create_def Let_def
  proof (cases rule: io_thenE)
    case (err f)
    from pool_op_Inl [OF err(1)] obtain b where b: "pool_new_page ops vs s = (Inl b, s')" "f = Buffer b" by blast
    from pool_new_page_inv [OF inv b(1)] err(2) b(2) Inl show ?thesis by (auto simp: created_def untouched_def)
  next
    case (ok h s1)
    from pool_new_page_inv [OF inv pool_op_Inr [OF ok(1)]]
    have pg: "view s (pb_page h) = None" and v1: "view s1 = (view s)(pb_page h \<mapsto> zero_page)"
      and inv1: "pinv (add_mset h H) s1" by (simp_all add: created_def)
    from ok(2) show ?thesis
    proof (cases rule: io_thenE)
      case (err f)
      from pinned_write_result [OF inv1 err(1) heap_callback_size(7)] v1 pg err(2) Inl
      show ?thesis by (auto simp: untouched_def)
    qed (use Inl in auto)
  qed
qed

end

section \<open>Opening a chain\<close>

lemma owned_header_iff:
  "owned_header head d = Inr hdr \<Longrightarrow> \<exists>ts. page_abs d = Some (head, h_next hdr, ts)"
  by (auto simp: owned_header_def page_header_of_def page_abs_def and_then_Inr_iff split: if_splits prod.splits)

lemma owned_header_ok:
  assumes "page_abs d = Some (head, nx, ts)" "length d = PAGE_SIZE"
  obtains hdr where "owned_header head d = Inr hdr" "h_next hdr = nx"
proof -
  from assms obtain h where "page_validate d = Inr (h, tuple_bytes ts)" "h_owner h = head" "h_next h = nx"
    by (rule page_absD)
  then show thesis by (intro that [of h]) (simp_all add: owned_header_def page_header_of_def)
qed

text \<open>The cached prefix while the chain is being walked, and the link still to follow.\<close>

definition index_ok :: "u32 list \<Rightarrow> (u32 \<times> nat) list \<Rightarrow> bool" where
  "index_ok pages idx \<longleftrightarrow> (\<forall>p i. map_of idx p = Some i \<longleftrightarrow> i < length pages \<and> pages ! i = p)"

lemma index_ok_snoc:
  assumes "index_ok pages idx" "map_of idx pid = None"
  shows "index_ok (pages @ [pid]) (AList.update pid (length pages) idx)" and "pid \<notin> set pages"
proof -
  have m: "map_of idx p = Some i \<longleftrightarrow> i < length pages \<and> pages ! i = p" for p i
    using assms(1) unfolding index_ok_def by blast
  show fresh: "pid \<notin> set pages" using m [of pid] assms(2) by (auto simp: in_set_conv_nth)
  show "index_ok (pages @ [pid]) (AList.update pid (length pages) idx)"
    unfolding index_ok_def
  proof (intro allI)
    fix p i
    show "map_of (AList.update pid (length pages) idx) p = Some i \<longleftrightarrow>
        i < length (pages @ [pid]) \<and> (pages @ [pid]) ! i = p"
      using m [of p i] fresh by (auto simp: alist_map_of nth_append less_Suc_eq)
  qed
qed

definition walk_ok :: "(u32 \<Rightarrow> page option) \<Rightarrow> u32 \<Rightarrow> u32 option \<Rightarrow> u32 list \<Rightarrow> (u32 \<times> nat) list \<Rightarrow> bool" where
  "walk_ok V head nx pages idx \<longleftrightarrow> distinct pages \<and> index_ok pages idx \<and>
     (if pages = [] then nx = Some head else hd pages = head) \<and>
     (\<forall>i < length pages. \<exists>d ts. V (pages ! i) = Some d \<and> length d = PAGE_SIZE \<and>
        page_abs d = Some (head, if i + 1 < length pages then Some (pages ! (i + 1)) else nx, ts))"

lemma walk_ok_step:
  assumes w: "walk_ok V head (Some pid) pages idx" and new: "map_of idx pid = None"
    and d: "V pid = Some d" "length d = PAGE_SIZE" "page_abs d = Some (head, nx, ts)"
  shows "walk_ok V head nx (pages @ [pid]) (AList.update pid (length pages) idx)"
proof -
  from w have ix: "index_ok pages idx" and dist: "distinct pages"
    and hd: "if pages = [] then Some pid = Some head else hd pages = head" by (simp_all add: walk_ok_def)
  note sn = index_ok_snoc [OF ix new]
  have "\<exists>d ts. V ((pages @ [pid]) ! i) = Some d \<and> length d = PAGE_SIZE \<and>
      page_abs d = Some (head, if i + 1 < length (pages @ [pid]) then Some ((pages @ [pid]) ! (i + 1)) else nx, ts)"
    if "i < length (pages @ [pid])" for i
  proof (cases "i < length pages")
    case True
    with w obtain d' ts' where "V (pages ! i) = Some d'" "length d' = PAGE_SIZE"
      "page_abs d' = Some (head, if i + 1 < length pages then Some (pages ! (i + 1)) else Some pid, ts')"
      by (auto simp: walk_ok_def)
    with True show ?thesis by (auto simp: nth_append split: if_splits)
  next
    case False
    with that d show ?thesis by (auto simp: nth_append)
  qed
  with sn dist hd show ?thesis by (simp add: walk_ok_def hd_append split: if_splits)
qed

lemma walk_ok_done:
  assumes "walk_ok V head None pages idx"
  shows "heap_ok V \<lparr>ht_head = head, ht_pages = pages, ht_indices = idx, ht_poisoned = b\<rparr>"
  using assms by (auto simp: walk_ok_def heap_ok_def index_ok_def chain_next_def split: if_splits)

context page_store
begin

lemma heap_open_chain_sound:
  "pinv H s \<Longrightarrow> walk_ok (view s) head nx pages idx \<Longrightarrow>
   heap_open_chain ops vs head nx pages idx s = (r, s') \<Longrightarrow>
   pinv H s' \<and> view s' = view s \<and> (\<forall>pages' idx'. r = Inr (pages', idx') \<longrightarrow> walk_ok (view s) head None pages' idx')"
proof (induction "card (- fst ` set idx)" arbitrary: nx pages idx s rule: less_induct)
  case less
  show ?case
  proof (cases nx)
    case None
    with less.prems show ?thesis by auto
  next
    case (Some pid)
    show ?thesis
    proof (cases "map_of idx pid")
      case new: None
      with less.prems(3) Some have "io_then (read_heap_page ops vs pid (owned_header head)) (\<lambda>hdr s'.
          heap_open_chain ops vs head (h_next hdr) (pages @ [pid]) (AList.update pid (length pages) idx) s') s = (r, s')"
        by simp
      then show ?thesis
      proof (cases rule: io_thenE)
        case (err e)
        with read_heap_page_result(1,2) [OF less.prems(1) err(1)] show ?thesis by simp
      next
        case (ok hdr s1)
        note rr = read_heap_page_result [OF less.prems(1) ok(1)]
        from rr(3) obtain d where d: "view s pid = Some d" "length d = PAGE_SIZE" "owned_header head d = Inr hdr" by auto
        from owned_header_iff [OF d(3)] obtain ts where "page_abs d = Some (head, h_next hdr, ts)" by blast
        from walk_ok_step [OF less.prems(2) [unfolded Some] new d(1,2) this]
        have "walk_ok (view s1) head (h_next hdr) (pages @ [pid]) (AList.update pid (length pages) idx)" by (simp add: rr(2))
        from less.hyps [OF chain_measure [OF new] rr(1) this ok(2)] rr(2) show ?thesis by simp
      qed
    qed (use less.prems Some in auto)
  qed
qed

lemma heap_open_sound:
  assumes inv: "pinv H s" and r: "heap_open ops vs head s = (Inr t, s')"
  shows "pinv H s' \<and> view s' = view s \<and> ht_head t = head \<and> heap_ok (view s) t"
  using r unfolding heap_open_def
proof (cases rule: io_thenE)
  case (ok pi s1)
  obtain pages idx where pi: "pi = (pages, idx)" by fastforce
  have "walk_ok (view s) head (Some head) [] []" by (simp add: walk_ok_def index_ok_def)
  from heap_open_chain_sound [OF inv this ok(1)] ok(2) walk_ok_done [of "view s" head pages idx] pi
  show ?thesis by auto
qed auto

text \<open>Walking a chain that is consistent meets no corruption.\<close>

lemma heap_open_chain_complete:
  assumes ok: "heap_ok V t"
  shows "pinv H s \<Longrightarrow> view s = V \<Longrightarrow> k \<le> length (ht_pages t) \<Longrightarrow> index_ok (take k (ht_pages t)) idx \<Longrightarrow>
    nx = (if k < length (ht_pages t) then Some (ht_pages t ! k) else None) \<Longrightarrow>
    heap_open_chain ops vs (ht_head t) nx (take k (ht_pages t)) idx s = (r, s') \<Longrightarrow>
    (\<exists>b. r = Inl (Buffer b)) \<or> (\<exists>idx'. r = Inr (ht_pages t, idx'))"
proof (induction "length (ht_pages t) - k" arbitrary: k idx nx s)
  case 0
  then show ?case by auto
next
  case (Suc n)
  let ?ps = "ht_pages t"
  from Suc.hyps(2) have k: "k < length ?ps" by simp
  have dist: "distinct ?ps" using ok by (simp add: heap_ok_def)
  have new: "map_of idx (?ps ! k) = None"
  proof (rule ccontr)
    assume "map_of idx (?ps ! k) \<noteq> None"
    then obtain i where "i < length (take k ?ps)" "take k ?ps ! i = ?ps ! k"
      using Suc.prems(4) by (auto simp: index_ok_def)
    with k dist show False by (simp add: nth_eq_iff_index_eq)
  qed
  have tk: "take (Suc k) ?ps = take k ?ps @ [?ps ! k]" using k by (simp add: take_Suc_conv_app_nth)
  from Suc.prems(5,6) k new have "io_then (read_heap_page ops vs (?ps ! k) (owned_header (ht_head t))) (\<lambda>hdr s'.
      heap_open_chain ops vs (ht_head t) (h_next hdr) (take (Suc k) ?ps) (AList.update (?ps ! k) k idx) s') s = (r, s')"
    by (simp add: tk min_def)
  then show ?case
  proof (cases rule: io_thenE)
    case (err e)
    from ok k obtain d where d: "V (?ps ! k) = Some d" "length d = PAGE_SIZE"
      "page_abs d = Some (ht_head t, chain_next ?ps k, page_slots V (?ps ! k))" by (rule heap_ok_page)
    from d(3,2) obtain hdr where "owned_header (ht_head t) d = Inr hdr" by (rule owned_header_ok)
    with read_heap_page_result(3) [OF Suc.prems(1) err(1)] Suc.prems(2) d err(2) show ?thesis by auto
  next
    case step: (ok hdr s1)
    note rr = read_heap_page_result [OF Suc.prems(1) step(1)]
    from ok k obtain d where d: "V (?ps ! k) = Some d" "length d = PAGE_SIZE"
      "page_abs d = Some (ht_head t, chain_next ?ps k, page_slots V (?ps ! k))" by (rule heap_ok_page)
    from d(3,2) obtain hdr' where "owned_header (ht_head t) d = Inr hdr'" "h_next hdr' = chain_next ?ps k"
      by (rule owned_header_ok)
    with rr(3) Suc.prems(2) d have "h_next hdr = chain_next ?ps k" by auto
    then have nx: "h_next hdr = (if Suc k < length ?ps then Some (?ps ! Suc k) else None)"
      by (simp add: chain_next_def)
    have n: "n = length ?ps - Suc k" using Suc.hyps(2) by arith
    have V: "view s1 = V" using rr(2) Suc.prems(2) by simp
    have "index_ok (take (Suc k) ?ps) (AList.update (?ps ! k) k idx)"
      using index_ok_snoc(1) [OF Suc.prems(4) new] k by (simp add: tk min_def)
    from Suc.hyps(1) [OF n rr(1) V _ this nx step(2)] k show ?thesis by simp
  qed
qed

lemma heap_open_complete:
  assumes inv: "pinv H s" and ok: "heap_ok (view s) t" and r: "heap_open ops vs (ht_head t) s = (r, s')"
  shows "pinv H s' \<and> view s' = view s \<and> ((\<exists>b. r = Inl (Buffer b)) \<or>
    (\<exists>t'. r = Inr t' \<and> ht_pages t' = ht_pages t \<and> heap_ok (view s) t' \<and> heap_map (view s) t' = heap_map (view s) t))"
proof -
  let ?nx = "Some (ht_head t)"
  have ne: "ht_pages t \<noteq> []" "ht_pages t ! 0 = ht_head t" using ok by (auto simp: heap_ok_def hd_conv_nth)
  have w: "walk_ok (view s) (ht_head t) ?nx [] []" by (simp add: walk_ok_def index_ok_def)
  obtain q s1 where q: "heap_open_chain ops vs (ht_head t) ?nx [] [] s = (q, s1)" by fastforce
  note sd = heap_open_chain_sound [OF inv w q]
  have "index_ok (take 0 (ht_pages t)) []" by (simp add: index_ok_def)
  with heap_open_chain_complete [OF ok inv refl, of 0 "[]" ?nx vs q s1] q ne
  have c: "(\<exists>b. q = Inl (Buffer b)) \<or> (\<exists>idx'. q = Inr (ht_pages t, idx'))" by simp
  then show ?thesis
  proof
    assume "\<exists>b. q = Inl (Buffer b)"
    with q r sd show ?thesis by (auto simp: heap_open_def io_then_def)
  next
    assume "\<exists>idx'. q = Inr (ht_pages t, idx')"
    then obtain idx' where qi: "q = Inr (ht_pages t, idx')" by blast
    let ?t = "\<lparr>ht_head = ht_head t, ht_pages = ht_pages t, ht_indices = idx', ht_poisoned = False\<rparr>"
    have "r = Inr ?t" "s' = s1" using q r qi by (simp_all add: heap_open_def io_then_def)
    moreover have "heap_ok (view s) ?t" using sd qi walk_ok_done by blast
    moreover have "heap_map (view s) ?t = heap_map (view s) t" by (simp add: heap_map_def fun_eq_iff)
    ultimately show ?thesis using sd by simp
  qed
qed

end

end
