(* ===== verification/HeapSpec.thy ===== *)
theory HeapSpec
  imports HeapTable
begin

text \<open>
  The contract of \<^verbatim>\<open>HeapTable\<close>, \<^verbatim>\<open>crates/heapam/src/heap.rs\<close>: what scans return, that the
  operations answer over a store without faults, and the properties of the heap crate as
  theorems about every page store meeting the \<^verbatim>\<open>PageStore\<close> contract.
\<close>

section \<open>Scans\<close>

text \<open>The rows one visit of a page returns, and the rows a scan has yet to return.\<close>

definition page_rows :: "(u32 \<Rightarrow> page option) \<Rightarrow> u32 \<Rightarrow> u16 \<Rightarrow> (ctid \<times> u8 list) list" where
  "page_rows V pid slots = map (\<lambda>(sid, bytes). (\<lparr>page_id = pid, slot_id = sid\<rparr>, bytes))
     (live_slots (take (unat slots) (page_slots V pid)))"

definition rest_rows :: "(u32 \<Rightarrow> page option) \<Rightarrow> heap_scan \<Rightarrow> (ctid \<times> u8 list) list" where
  "rest_rows V sc = hs_rows sc @ concat (map (\<lambda>(pid, slots). page_rows V pid slots) (drop (hs_index sc) (hs_pages sc)))"

definition scan_ok :: "(u32 \<Rightarrow> page option) \<Rightarrow> heap_table \<Rightarrow> heap_scan \<Rightarrow> bool" where
  "scan_ok V t sc \<longleftrightarrow>
     (\<forall>(pid, slots) \<in> set (hs_pages sc). pid \<in> set (ht_pages t) \<and> unat slots \<le> length (page_slots V pid))"

lemma heap_index:
  assumes "heap_ok V t" "pid \<in> set (ht_pages t)"
  obtains i where "i < length (ht_pages t)" "ht_pages t ! i = pid" "map_of (ht_indices t) pid = Some i"
proof -
  from assms(2) obtain i where "i < length (ht_pages t)" "ht_pages t ! i = pid" by (auto simp: in_set_conv_nth)
  moreover from this assms(1) have "map_of (ht_indices t) pid = Some i" unfolding heap_ok_def by blast
  ultimately show thesis by (rule that)
qed

lemma rest_rows_read:
  assumes "hs_rows sc = []" "hs_index sc < length (hs_pages sc)" "hs_pages sc ! hs_index sc = (pid, slots)"
  shows "rest_rows V (sc\<lparr>hs_index := hs_index sc + 1, hs_rows := page_rows V pid slots\<rparr>) = rest_rows V sc"
  using assms by (simp add: rest_rows_def Cons_nth_drop_Suc [symmetric])

context page_store
begin

lemma read_scan_page_result:
  assumes inv: "pinv H s" and ok: "heap_ok (view s) t"
    and pid: "pid \<in> set (ht_pages t)" "unat slots \<le> length (page_slots (view s) pid)"
    and r: "read_scan_page ops vs pid slots (t, s) = (r, (t', s'))"
  shows "quiet H t s t' s' \<and> ((\<exists>e. r = Inl e \<and> infra e) \<or> r = Inr (page_rows (view s) pid slots))"
proof -
  from heap_index [OF ok pid(1)] obtain i where i: "i < length (ht_pages t)" "ht_pages t ! i = pid"
    "map_of (ht_indices t) pid = Some i" by blast
  let ?g = "\<lambda>d hd. if h_slots hd < slots then Inl (Corrupt ''slot directory shrank'')
       else and_then (page_records d slots) (\<lambda>rs.
         Inr (map (\<lambda>(sid, bytes). (\<lparr>page_id = pid, slot_id = sid\<rparr>, bytes)) rs))"
  obtain q s1 where q: "read_heap_page ops vs pid (\<lambda>d. and_then (checked_header t i d) (?g d)) s = (q, s1)" by fastforce
  note cr = chain_read [OF inv ok i(1), of vs ?g, unfolded i(2), OF q]
  have qq: "(\<exists>b. q = Inl (Buffer b)) \<or> q = Inr (page_rows (view s) pid slots)"
    using cr(3) pid(2) page_records_abs [of _ _ _ "page_slots (view s) pid" slots]
    by (auto simp: page_rows_def word_less_nat_alt)
  from r [unfolded read_scan_page_def] show ?thesis
  proof (cases rule: heap_lockedE)
    case (err e)
    then have "q = Inl e" "s' = s1" using q i(3) by (auto simp: io_then_def split: sum.splits)
    with qq err cr(1,2) show ?thesis by (auto simp: quiet_def)
  next
    case (ok x)
    then have "q = Inr x" "s' = s1" "t' = t" using q i(3) by (auto simp: io_then_def split: sum.splits)
    with qq ok cr(1,2) show ?thesis by (auto simp: quiet_def)
  qed (use inv in \<open>simp add: quiet_def\<close>)
qed

lemma quiet_trans: "quiet H t s t1 s1 \<Longrightarrow> quiet H t1 s1 t2 s2 \<Longrightarrow> quiet H t s t2 s2"
  by (auto simp: quiet_def same_heap_def)

lemma quiet_keeps:
  assumes "quiet H t s t' s'" "heap_ok (view s) t" "scan_ok (view s) t sc"
  shows "heap_ok (view s') t'" "scan_ok (view s') t' sc" "pinv H s'" "view s' = view s"
  using assms same_heap_simps [of t t'] by (auto simp: quiet_def scan_ok_def)

lemma scan_loop_result:
  assumes "pinv H s" "heap_ok (view s) t" "scan_ok (view s) t sc" "scan_loop ops vs sc (t, s) = ((r, sc'), (t', s'))"
  shows "quiet H t s t' s' \<and> hs_pages sc' = hs_pages sc \<and>
    (case r of
       None \<Rightarrow> rest_rows (view s) sc = [] \<and> rest_rows (view s) sc' = [] \<and> hs_failed sc' = hs_failed sc
     | Some (Inl e) \<Rightarrow> infra e \<and> hs_failed sc'
     | Some (Inr row) \<Rightarrow> rest_rows (view s) sc = row # rest_rows (view s) sc' \<and> hs_failed sc' = hs_failed sc)"
  using assms
proof (induction "length (hs_pages sc) - hs_index sc" arbitrary: sc t s rule: less_induct)
  case less
  note inv = less.prems(1) and ok = less.prems(2) and so = less.prems(3)
  show ?case
  proof (cases "hs_rows sc")
    case (Cons row rows)
    then have "r = Some (Inr row)" "sc' = sc\<lparr>hs_rows := rows\<rparr>" "t' = t" "s' = s"
      using less.prems(4) by (simp_all add: scan_loop.simps [of _ _ sc])
    with inv Cons show ?thesis by (simp add: quiet_refl rest_rows_def)
  next
    case Nil
    show ?thesis
    proof (cases "hs_index sc < length (hs_pages sc)")
      case False
      then have "r = None" "sc' = sc" "t' = t" "s' = s"
        using less.prems(4) Nil by (simp_all add: scan_loop.simps [of _ _ sc])
      with inv Nil False show ?thesis by (simp add: quiet_refl rest_rows_def)
    next
      case i: True
      obtain pid slots where p: "hs_pages sc ! hs_index sc = (pid, slots)" by fastforce
      then have "(pid, slots) \<in> set (hs_pages sc)" using i by (metis nth_mem)
      with so have ps: "pid \<in> set (ht_pages t)" "unat slots \<le> length (page_slots (view s) pid)"
        by (auto simp: scan_ok_def)
      obtain q t1 s1 where q: "read_scan_page ops vs pid slots (t, s) = (q, (t1, s1))" by (metis surj_pair)
      note rp = read_scan_page_result [OF inv ok ps q]
      show ?thesis
      proof (cases q)
        case (Inl e)
        then have "r = Some (Inl e)" "sc' = sc\<lparr>hs_index := hs_index sc + 1, hs_failed := True\<rparr>" "t' = t1" "s' = s1"
          using less.prems(4) Nil i p q by (simp_all add: scan_loop.simps [of _ _ sc])
        with rp Inl show ?thesis by simp
      next
        case (Inr rows)
        with rp have rows: "rows = page_rows (view s) pid slots" and qt: "quiet H t s t1 s1" by auto
        let ?sc = "sc\<lparr>hs_index := hs_index sc + 1, hs_rows := rows\<rparr>"
        have loop: "scan_loop ops vs ?sc (t1, s1) = ((r, sc'), (t', s'))"
          using less.prems(4) Nil i p q Inr by (simp add: scan_loop.simps [of _ _ sc])
        note keep = quiet_keeps [OF qt ok so]
        have so1: "scan_ok (view s1) t1 ?sc" using keep(2) by (simp add: scan_ok_def)
        have rest: "rest_rows (view s) ?sc = rest_rows (view s) sc"
          unfolding rows by (rule rest_rows_read [OF Nil i p])
        have lt: "length (hs_pages ?sc) - hs_index ?sc < length (hs_pages sc) - hs_index sc" using i by simp
        note IH = less.hyps [OF lt keep(3,1) so1 loop, unfolded keep(4) rest]
        show ?thesis
        proof (cases r)
          case (Some a)
          with IH quiet_trans [OF qt] show ?thesis by (cases a) auto
        qed (use IH quiet_trans [OF qt] in auto)
      qed
    qed
  qed
qed

lemma scan_next_result:
  assumes inv: "pinv H s" and ok: "heap_ok (view s) t" and so: "scan_ok (view s) t sc"
    and r: "scan_next ops vs sc (t, s) = ((r, sc'), (t', s'))"
  shows "view s' = view s \<and> pinv H s' \<and> same_heap t t' \<and> scan_ok (view s) t sc' \<and>
    (if hs_failed sc then r = None \<and> sc' = sc
     else case r of
       None \<Rightarrow> rest_rows (view s) sc = []
     | Some (Inl e) \<Rightarrow> infra e \<and> hs_failed sc'
     | Some (Inr row) \<Rightarrow> rest_rows (view s) sc = row # rest_rows (view s) sc' \<and> \<not> hs_failed sc')"
proof (cases "hs_failed sc")
  case True
  with inv so r show ?thesis by (simp add: scan_next_def)
next
  case False
  with r have "scan_loop ops vs sc (t, s) = ((r, sc'), (t', s'))" by (simp add: scan_next_def)
  from scan_loop_result [OF inv ok so this]
  have p: "quiet H t s t' s'" "hs_pages sc' = hs_pages sc"
    and q: "case r of
       None \<Rightarrow> rest_rows (view s) sc = [] \<and> rest_rows (view s) sc' = [] \<and> hs_failed sc' = hs_failed sc
     | Some (Inl e) \<Rightarrow> infra e \<and> hs_failed sc'
     | Some (Inr row) \<Rightarrow> rest_rows (view s) sc = row # rest_rows (view s) sc' \<and> hs_failed sc' = hs_failed sc"
    by blast+
  from p so have "scan_ok (view s) t sc'" by (simp add: scan_ok_def)
  with p(1) q False show ?thesis
    by (auto simp: quiet_def split: option.splits sum.splits)
qed

end

text \<open>All rows of a heap, in chain order.\<close>

definition heap_rows :: "(u32 \<Rightarrow> page option) \<Rightarrow> heap_table \<Rightarrow> (ctid \<times> u8 list) list" where
  "heap_rows V t = concat (map (\<lambda>pid. page_rows V pid (word_of_nat (length (page_slots V pid)))) (ht_pages t))"

lemma live_slots_iff:
  assumes "length ts < 65536"
  shows "(sid, b) \<in> set (live_slots ts) \<longleftrightarrow> tuple_at ts sid = Some b"
proof
  assume "(sid, b) \<in> set (live_slots ts)"
  then obtain i where i: "i < length ts" "ts ! i = Some b" "sid = word_of_nat (i + 1)"
    by (auto simp: live_slots_def List.map_filter_def)
  have "unat sid = i + 1" unfolding i(3) using i(1) assms by (intro unat_u16_of_nat) simp
  with i show "tuple_at ts sid = Some b" by (auto simp: tuple_at_def)
next
  assume t: "tuple_at ts sid = Some b"
  then have "sid \<noteq> 0" "unat sid \<le> length ts" "ts ! (unat sid - 1) = Some b"
    by (auto simp: tuple_at_def split: if_splits)
  moreover from \<open>sid \<noteq> 0\<close> have "0 < unat sid" by (simp add: unat_gt_0)
  moreover from this have "sid = word_of_nat (unat sid - 1 + 1)" by simp
  ultimately have "map_option (Pair (word_of_nat (unat sid - 1 + 1))) (ts ! (unat sid - 1)) = Some (sid, b)"
    "unat sid - 1 < length ts" by simp_all
  then show "(sid, b) \<in> set (live_slots ts)"
    unfolding live_slots_def List.map_filter_def set_map set_filter set_upt
    by (intro image_eqI [of _ _ "unat sid - 1"]) simp_all
qed

lemma live_slots_sorted:
  assumes "length ts < 65536"
  shows "sorted_wrt (<) (map fst (live_slots ts))"
proof -
  have "sorted_wrt (<) (map fst (List.map_filter (\<lambda>i. map_option (Pair (word_of_nat (i + 1) :: u16)) (ts ! i)) [0..<n]))"
    if "n < 65536" for n
    using that
  proof (induction n)
    case (Suc n)
    let ?f = "\<lambda>i. map_option (Pair (word_of_nat (i + 1) :: u16)) (ts ! i)"
    have "fst x < word_of_nat (n + 1)" if x: "x \<in> set (List.map_filter ?f [0..<n])" for x
    proof -
      from x obtain i where i: "i < n" "fst x = word_of_nat (i + 1)" by (auto simp: List.map_filter_def)
      have "unat (word_of_nat (i + 1) :: u16) = i + 1" "unat (word_of_nat (n + 1) :: u16) = n + 1"
        using i(1) Suc.prems by (intro unat_u16_of_nat; simp)+
      with i show ?thesis by (simp only: word_less_nat_alt)
    qed
    with Suc show ?case
      by (cases "ts ! n") (auto simp: List.map_filter_def sorted_wrt_append)
  qed (simp add: List.map_filter_def)
  with assms show ?thesis unfolding live_slots_def by blast
qed

lemma unat_u16_bound: "unat (w :: u16) < 65536"
  using unsigned_less [of w] by simp

lemma page_slots_bound: "length (page_slots V pid) < 65536"
proof (cases "V pid")
  case (Some d)
  then show ?thesis
    using unat_u16_bound
    by (auto simp: page_slots_def page_abs_def split: option.splits sum.splits prod.splits)
qed (simp add: page_slots_def)

lemma page_rows_all:
  defines "full V pid \<equiv> page_rows V pid (word_of_nat (length (page_slots V pid)))"
  shows "(c, b) \<in> set (full V pid) \<longleftrightarrow> page_id c = pid \<and> tuple_at (page_slots V pid) (slot_id c) = Some b"
    and "sorted_wrt (<) (map fst (full V pid))"
proof -
  note bd = page_slots_bound [of V pid]
  have u: "unat (word_of_nat (length (page_slots V pid)) :: u16) = length (page_slots V pid)"
    using bd by (rule unat_u16_of_nat)
  show "(c, b) \<in> set (full V pid) \<longleftrightarrow> page_id c = pid \<and> tuple_at (page_slots V pid) (slot_id c) = Some b"
    unfolding full_def page_rows_def u
    using live_slots_iff [OF bd] by (cases c) (force simp: image_iff)
  have "map fst (full V pid) = map (\<lambda>sid. \<lparr>page_id = pid, slot_id = sid\<rparr>) (map fst (live_slots (page_slots V pid)))"
    unfolding full_def page_rows_def u by (simp add: case_prod_beta)
  with live_slots_sorted [OF bd] show "sorted_wrt (<) (map fst (full V pid))"
    by (simp add: sorted_wrt_map ctid_less_iff)
qed

lemma heap_rows_map:
  assumes "heap_ok V t"
  shows "(c, b) \<in> set (heap_rows V t) \<longleftrightarrow> heap_map V t c = Some b"
  by (auto simp: heap_rows_def page_rows_all(1) heap_map_def split: if_splits)

lemma distinct_concat_pages:
  assumes "distinct ps" "\<And>p. distinct (f p)" "\<And>p x. x \<in> set (f p) \<Longrightarrow> g x = p"
  shows "distinct (concat (map f ps))"
  using assms(1) by (induction ps) (auto simp: assms(2) dest!: assms(3))

lemma heap_rows_distinct:
  assumes "heap_ok V t"
  shows "distinct (map fst (heap_rows V t))"
proof -
  have d: "distinct (ht_pages t)" using assms by (simp add: heap_ok_def)
  show ?thesis
    unfolding heap_rows_def map_concat map_map
  proof (rule distinct_concat_pages [OF d, where g = page_id])
    fix p
    show "distinct ((map fst \<circ> (\<lambda>pid. page_rows V pid (word_of_nat (length (page_slots V pid))))) p)"
      using page_rows_all(2) [of V p] by (simp add: strict_sorted_iff)
  qed (auto simp: page_rows_all(1))
qed

text \<open>The rows follow the chain, so an insertion adds its row at the end.\<close>

definition slot_rows :: "u32 \<times> u8 list option list \<Rightarrow> (ctid \<times> u8 list) list" where
  "slot_rows = (\<lambda>(pid, ts). map (\<lambda>(sid, bytes). (\<lparr>page_id = pid, slot_id = sid\<rparr>, bytes)) (live_slots ts))"

lemma heap_rows_chain: "heap_rows V t = concat (map slot_rows (chain_slots V t))"
proof -
  have "unat (word_of_nat (length (page_slots V pid)) :: u16) = length (page_slots V pid)" for pid
    using page_slots_bound by (rule unat_u16_of_nat)
  then show ?thesis by (simp add: heap_rows_def chain_slots_def slot_rows_def page_rows_def comp_def)
qed

lemma live_slots_snoc: "live_slots (ts @ [Some b]) = live_slots ts @ [(word_of_nat (length ts + 1), b)]"
proof -
  have "List.map_filter (\<lambda>i. map_option (Pair (word_of_nat (i + 1) :: u16)) ((ts @ [Some b]) ! i)) [0..<length ts] =
      List.map_filter (\<lambda>i. map_option (Pair (word_of_nat (i + 1))) (ts ! i)) [0..<length ts]"
    by (rule map_filter_cong) (simp add: nth_append)
  then show ?thesis by (simp add: live_slots_def List.map_filter_def)
qed

lemma heap_rows_insert:
  assumes "inserted bytes t V (Inr c) t' V'"
  shows "heap_rows V' t' = heap_rows V t @ [(c, bytes)]"
proof -
  have one: "live_slots [Some bytes] = [(1, bytes)]" by (simp add: live_slots_def List.map_filter_def)
  have "\<lparr>page_id = page_id c, slot_id = slot_id c\<rparr> = c" by simp
  moreover from assms have "slots_added c bytes (chain_slots V t) (chain_slots V' t')" by (simp add: inserted_def)
  ultimately show ?thesis
    by (auto simp: heap_rows_chain slots_added_def slot_rows_def live_slots_snoc one)
qed

text \<open>The bounds a scan captures: every page of the chain with its current slot count.\<close>

definition page_bound :: "(u32 \<Rightarrow> page option) \<Rightarrow> u32 \<Rightarrow> u32 \<times> u16" where
  "page_bound V pid = (pid, word_of_nat (length (page_slots V pid)))"

context page_store
begin

lemma word_of_nat_unat: "word_of_nat (unat w) = (w :: u16)"
  by simp

lemma and_then_Inr_right: "and_then x Inr = x"
  by (cases x) simp_all

lemma scan_pages_result:
  assumes "heap_ok (view s) t" "pinv H s" "drop k (ht_pages t) = ps" "scan_pages ops vs t k ps s = (r, s')"
  shows "pinv H s' \<and> view s' = view s \<and> ((\<exists>b. r = Inl (Buffer b)) \<or> r = Inr (map (page_bound (view s)) ps))"
  using assms
proof (induction ps arbitrary: k s r)
  case (Cons pid ps)
  have k: "k < length (ht_pages t)" and pid: "ht_pages t ! k = pid" and rest: "drop (Suc k) (ht_pages t) = ps"
  proof -
    show k: "k < length (ht_pages t)" using Cons.prems(3) by (metis drop_all linorder_not_le list.distinct(1))
    from Cons.prems(3) [folded Cons_nth_drop_Suc [OF k]]
    show "ht_pages t ! k = pid" "drop (Suc k) (ht_pages t) = ps" by simp_all
  qed
  from Cons.prems(4) have
    "io_then (read_heap_page ops vs pid (checked_header t k)) (\<lambda>hd.
     io_then (scan_pages ops vs t (k + 1) ps) (\<lambda>rest. io_ok ((pid, h_slots hd) # rest))) s = (r, s')" by simp
  then show ?case
  proof (cases rule: io_thenE)
    case (err e)
    have "read_heap_page ops vs (ht_pages t ! k) (\<lambda>d. and_then (checked_header t k d) Inr) s = (Inl e, s')"
      using err(1) pid by (simp add: and_then_Inr_right)
    from chain_read [OF Cons.prems(2,1) k this] err(2) show ?thesis by auto
  next
    case (ok hd s1)
    have "read_heap_page ops vs (ht_pages t ! k) (\<lambda>d. and_then (checked_header t k d) Inr) s = (Inr hd, s1)"
      using ok(1) pid by (simp add: and_then_Inr_right)
    note cr = chain_read [OF Cons.prems(2,1) k this]
    then have "unat (h_slots hd) = length (page_slots (view s) pid)" using pid by auto
    then have "word_of_nat (length (page_slots (view s) pid)) = h_slots hd" by (metis word_of_nat_unat)
    then have bound: "(pid, h_slots hd) = page_bound (view s) pid" by (simp add: page_bound_def)
    from ok(2) obtain q where q: "scan_pages ops vs t (k + 1) ps s1 = (q, s')"
      "r = (case q of Inl e \<Rightarrow> Inl e | Inr rest \<Rightarrow> Inr ((pid, h_slots hd) # rest))"
      by (auto simp: io_then_def split: prod.splits sum.splits)
    have "heap_ok (view s1) t" using Cons.prems(1) cr(2) by simp
    from Cons.IH [OF this cr(1) _ q(1)] rest cr(2) q(2) bound show ?thesis by auto
  qed
qed simp

lemma heap_scan_start_result:
  assumes inv: "pinv H s" and ok: "heap_ok (view s) t" and r: "heap_scan_start ops vs (t, s) = (r, (t', s'))"
  shows "quiet H t s t' s' \<and> ((\<exists>e. r = Inl e \<and> infra e) \<or>
    (\<exists>sc. r = Inr sc \<and> scan_ok (view s) t sc \<and> \<not> hs_failed sc \<and> rest_rows (view s) sc = heap_rows (view s) t))"
proof -
  obtain q s1 where q: "scan_pages ops vs t 0 (ht_pages t) s = (q, s1)" by fastforce
  have "drop 0 (ht_pages t) = ht_pages t" by simp
  note sp = scan_pages_result [OF ok inv this q]
  let ?sc = "\<lparr>hs_pages = map (page_bound (view s)) (ht_pages t), hs_index = 0, hs_rows = [], hs_failed = False\<rparr>"
  have "scan_ok (view s) t ?sc"
    using page_slots_bound by (auto simp: scan_ok_def page_bound_def unat_u16_of_nat)
  moreover have "rest_rows (view s) ?sc = heap_rows (view s) t"
    by (simp add: rest_rows_def heap_rows_def page_bound_def comp_def)
  ultimately have sc: "scan_ok (view s) t ?sc \<and> \<not> hs_failed ?sc \<and> rest_rows (view s) ?sc = heap_rows (view s) t" by simp
  from r [unfolded heap_scan_start_def] show ?thesis
  proof (cases rule: heap_lockedE)
    case (err e)
    then have "q = Inl e" "s' = s1" using q by (auto simp: io_then_def split: sum.splits)
    with sp err show ?thesis by (auto simp: quiet_def)
  next
    case (ok x)
    then have "\<exists>pg. q = Inr pg \<and> x = \<lparr>hs_pages = pg, hs_index = 0, hs_rows = [], hs_failed = False\<rparr>" "s' = s1" "t' = t"
      using q by (auto simp: io_then_def split: sum.splits)
    with sp ok(2) sc show ?thesis by (auto simp: quiet_def)
  qed (use inv in \<open>simp add: quiet_def\<close>)
qed

end

section \<open>Progress\<close>

text \<open>
  With no pin held, a reliable store and a sound strategy, no access to an existing page
  fails, so every operation that needs no new page answers with its verdict.
\<close>

context reliable_pool
begin

lemma upd_desc_healthy:
  assumes "healthy s" "\<And>d. d_poisoned (f d) = d_poisoned d"
  shows "healthy (upd_desc i f s)"
proof (cases "i < length (p_descs s)")
  case True
  with assms show ?thesis by (auto simp: healthy_def upd_desc_def all_set_conv_all_nth nth_list_update)
next
  case False
  with assms show ?thesis by (simp add: healthy_def upd_desc_def list_update_beyond)
qed

lemma drop_pin_healthy: "healthy s \<Longrightarrow> healthy (drop_pin h s)"
  unfolding drop_pin_def by (rule upd_desc_healthy) simp_all

lemma idle_pin:
  assumes inv: "pool_inv wf contents {#} s" and h: "healthy s" and pg: "view s pg = Some d"
  obtains hd s1 where "pool_pin ops strat pg s = (Inr hd, s1)" "healthy s1" "pb_page hd = pg"
    "pool_inv wf contents {#hd#} s1" "view s1 = view s"
proof -
  have pins: "d_pins (p_descs s ! i) = 0" if "i < length (p_descs s)" for i
    using inv that by (simp add: pool_inv_def frames_inv_def pin_count_def unat_eq_0)
  have "0 < length (p_descs s)" using inv by (simp add: pool_inv_def frames_inv_def)
  moreover have "i < length (p_descs s)" if "map_of (p_pages s) pg = Some i" for i
    using inv that by (auto simp: pool_inv_def frames_inv_mapped)
  ultimately have "case map_of (p_pages s) pg of Some i \<Rightarrow> d_pins (p_descs s ! i) \<noteq> - 1
               | None \<Rightarrow> \<exists>j < length (p_descs s). d_pins (p_descs s ! j) = 0"
    using pins by (auto split: option.split)
  from pool_pin_progress [OF inv h pg this] obtain hd s1 where
    p: "pool_pin ops strat pg s = (Inr hd, s1)" "healthy s1" by blast
  from pool_pin_inv [OF inv p(1)] p show thesis by (intro that [of hd s1]) (simp_all add: pinned_def)
qed

lemma read_heap_page_progress:
  assumes "pool_inv wf contents {#} s" "healthy s" "view s pg = Some d"
  shows "\<exists>s'. read_heap_page ops strat pg f s = (f d, s') \<and> healthy s'"
proof -
  from assms obtain h s1 where p: "pool_pin ops strat pg s = (Inr h, s1)" "healthy s1" "pb_page h = pg"
    "pool_inv wf contents {#h#} s1" "view s1 = view s" by (rule idle_pin)
  have hm: "h \<in># {#h#}" by simp
  note hf = held_frame [OF p(4) hm]
  have "pin_read h (\<lambda>d. Some (f d)) s1 = (Inr (f d), s1)"
    using p(2,3,5) hf assms(3) by (simp add: pin_read_def io_then_def latch_def check_def healthy_def)
  with p show ?thesis
    by (auto simp: read_heap_page_def io_then_def pool_op_def pinned_read_def with_drop_def drop_pin_healthy)
qed

lemma write_heap_page_progress:
  assumes "pool_inv wf contents {#} s" "healthy s" "view s pg = Some d"
  shows "\<exists>s'. write_heap_page ops strat pg f s = (fst (f d), s') \<and> healthy s'"
proof -
  from assms obtain h s1 where p: "pool_pin ops strat pg s = (Inr h, s1)" "healthy s1" "pb_page h = pg"
    "pool_inv wf contents {#h#} s1" "view s1 = view s" by (rule idle_pin)
  have hm: "h \<in># {#h#}" by simp
  note hf = held_frame [OF p(4) hm]
  have d: "p_frames s1 ! unat (pb_index h) = d" using hf(4) p(3,5) assms(3) by simp
  have nl: "latch h s1 = (Inr (), s1)" using p(2) hf(2) by (simp add: latch_def check_def healthy_def)
  let ?s2 = "set_frame (unat (pb_index h)) (snd (f d)) (upd_desc (unat (pb_index h)) (\<lambda>d. d\<lparr>d_dirty := True\<rparr>) s1)"
  have "pin_write h (\<lambda>d. case f d of (r, d') \<Rightarrow> (Some r, d')) s1 = (Inr (fst (f d)), ?s2)"
    unfolding pin_write_def io_then_def nl
    by (simp add: upd_desc_def d case_prod_beta Let_def)
  moreover
  have "healthy (upd_desc (unat (pb_index h)) (\<lambda>d. d\<lparr>d_dirty := True\<rparr>) s1)"
    by (rule upd_desc_healthy [OF p(2)]) simp
  then have "healthy ?s2" by (simp add: healthy_def set_frame_def)
  ultimately show ?thesis using p(1)
    by (auto simp: write_heap_page_def io_then_def pool_op_def pinned_write_def with_drop_def drop_pin_healthy)
qed

lemma flush_page_progress:
  assumes inv: "pool_inv wf contents {#} s" and h: "healthy s"
  shows "\<exists>b s'. pool_flush_page ops strat pg s = (Inr b, s') \<and> healthy s'"
proof -
  have lock: "lock_state s = (Inr (), s)" using h by (simp add: lock_state_def healthy_def)
  show ?thesis
  proof (cases "map_of (p_pages s) pg")
    case None
    with lock have "pool_flush_page ops strat pg s = (Inr False, s)" by (simp add: pool_flush_page_def resident_pin_def)
    with h show ?thesis by blast
  next
    case (Some i)
    have i: "i < length (p_descs s)" "unat (word_of_nat i :: u32) = i"
      using inv Some unat_frame_index by (auto simp: pool_inv_def frames_inv_mapped)
    then have pins: "d_pins (p_descs s ! i) = 0"
      using inv by (simp add: pool_inv_def frames_inv_def pin_count_def unat_eq_0)
    let ?h = "\<lparr>pb_index = word_of_nat i, pb_page = pg\<rparr>" and ?s1 = "upd_desc i (\<lambda>d. d\<lparr>d_pins := d_pins d + 1\<rparr>) s"
    have pin: "resident_pin strat False pg s = (Inr (Some ?h), ?s1)" using Some pins by (simp add: resident_pin_def Let_def)
    have h1: "healthy ?s1" by (rule upd_desc_healthy [OF h]) simp
    have latch: "latch ?h ?s1 = (Inr (), ?s1)" using h i by (simp add: latch_def check_def healthy_def upd_desc_def)
    have "length (p_frames s ! i) = PAGE_SIZE" "wf (p_store s)" "contents (p_store s) pg \<noteq> None"
      using inv i Some frame_page_size [OF inv i(1)] by (auto simp: pool_inv_def coherent_def)
    with write_reliable obtain st where st: "write_page ops pg (p_frames s ! i) (p_store s) = (Inr (), st)" by blast
    have "\<exists>s2. flush_resident ops pg i ?s1 = (Inr (), s2) \<and> healthy s2"
    proof (cases "d_dirty (p_descs ?s1 ! i)")
      case True
      let ?s2 = "upd_desc i (\<lambda>d. d\<lparr>d_dirty := False\<rparr>) (?s1\<lparr>p_store := st\<rparr>)"
      have "on_store (write_page ops pg (p_frames ?s1 ! i)) ?s1 = (Inr (), ?s1\<lparr>p_store := st\<rparr>)"
        using st by (simp add: on_store_def upd_desc_def)
      then have "flush_resident ops pg i ?s1 = (Inr (), ?s2)" using True by (simp add: flush_resident_def)
      moreover have "healthy (?s1\<lparr>p_store := st\<rparr>)" using h1 by (simp add: healthy_def)
      then have "healthy ?s2" by (rule upd_desc_healthy) simp
      ultimately show ?thesis by blast
    qed (use h1 in \<open>simp add: flush_resident_def\<close>)
    then obtain s2 where "flush_resident ops pg i ?s1 = (Inr (), s2)" "healthy s2" by blast
    with lock pin latch i(2) show ?thesis
      by (auto simp: pool_flush_page_def with_drop_def drop_pin_healthy)
  qed
qed

lemma flush_pages_progress:
  "pool_inv wf contents {#} s \<Longrightarrow> healthy s \<Longrightarrow> \<exists>s'. flush_pages ops strat pgs s = (Inr (), s') \<and> healthy s' \<and> wf (p_store s')"
proof (induction pgs arbitrary: s)
  case (Cons pg pgs)
  from flush_page_progress [OF Cons.prems] obtain b s1 where
    s1: "pool_flush_page ops strat pg s = (Inr b, s1)" "healthy s1" by blast
  from pool_flush_page_inv(1) [OF Cons.prems(1) s1(1)] have "pool_inv wf contents {#} s1" by (simp add: flushed_def)
  from Cons.IH [OF this s1(2)] s1(1) show ?case by auto
qed (simp add: pool_inv_def)

lemma flush_all_progress:
  assumes "pool_inv wf contents {#} s" "healthy s"
  shows "\<exists>s'. pool_flush_all ops strat s = (Inr (), s')"
proof -
  have lock: "lock_state s = (Inr (), s)" using assms(2) by (simp add: lock_state_def healthy_def)
  from flush_pages_progress [OF assms] obtain s1 where
    s1: "flush_pages ops strat (sort (map fst (p_pages s))) s = (Inr (), s1)" "wf (p_store s1)" by blast
  with sync_reliable obtain st where "sync ops (p_store s1) = (Inr (), st)" by blast
  then have "on_store (sync ops) s1 = (Inr (), s1\<lparr>p_store := st\<rparr>)" by (simp add: on_store_def)
  with lock s1(1) show ?thesis by (auto simp: pool_flush_all_def)
qed

lemma indexed_op_progress:
  assumes ok: "heap_ok V t" and np: "\<not> ht_poisoned t" and h: "healthy s"
    and run: "\<And>i. i < length (ht_pages t) \<Longrightarrow> ht_pages t ! i = page_id c \<Longrightarrow>
      \<exists>s'. m t i s = (q, s') \<and> healthy s'"
    and q: "q \<noteq> Inl (Buffer Panicked)"
  shows "\<exists>s'. heap_locked (\<lambda>t. io_then (io_lift (page_index t c)) (\<lambda>i. io_then (m t i) (\<lambda>x. io_ok (x, t)))) (t, s)
      = (if page_id c \<in> set (ht_pages t) then q else Inl (InvalidCtid c), (t, s')) \<and> healthy s'"
proof (cases "page_id c \<in> set (ht_pages t)")
  case True
  with page_index_ok(1) [OF ok] obtain i where i: "i < length (ht_pages t)" "page_index t c = Inr i"
    "ht_pages t ! i = page_id c" by blast
  from run [OF i(1,3)] obtain s' where "m t i s = (q, s')" "healthy s'" by blast
  with True i np q show ?thesis
    by (cases q) (auto simp: heap_locked_def io_then_def)
next
  case False
  with page_index_ok(2) [OF ok False] np h show ?thesis by (simp add: heap_locked_def io_then_def)
qed

lemma heap_get_progress:
  assumes inv: "pool_inv wf contents {#} s" and h: "healthy s" and ok: "heap_ok (view s) t"
    and np: "\<not> ht_poisoned t" and wf: "ctid_wf c"
  shows "\<exists>s'. heap_get ops strat c (t, s) = (if page_id c \<in> set (ht_pages t) then Inr (heap_map (view s) t c)
      else Inl (InvalidCtid c), (t, s')) \<and> healthy s'"
  unfolding heap_get_def
proof (rule indexed_op_progress [OF ok np h])
  fix i assume i: "i < length (ht_pages t)" "ht_pages t ! i = page_id c"
  from heap_ok_page [OF ok i(1), unfolded i(2)]
  obtain d where d: "view s (page_id c) = Some d" "length d = PAGE_SIZE"
    "page_abs d = Some (ht_head t, chain_next (ht_pages t) i, page_slots (view s) (page_id c))" .
  from checked_header_ok [OF d(3,2)] obtain hd where hd: "checked_header t i d = Inr hd" by blast
  have "page_get d (slot_id c) = Inr (heap_map (view s) t c)"
    using page_get_abs [OF d(3,2)] wf i by (auto simp: heap_map_def ctid_wf_def in_set_conv_nth)
  with read_heap_page_progress [OF inv h d(1), of "\<lambda>d. and_then (checked_header t i d) (\<lambda>_. page_get d (slot_id c))"] hd
  show "\<exists>s'. read_heap_page ops strat (page_id c) (\<lambda>d. and_then (checked_header t i d) (\<lambda>_. page_get d (slot_id c))) s
      = (Inr (heap_map (view s) t c), s') \<and> healthy s'" by simp
qed simp

lemma chain_write_progress:
  assumes inv: "pool_inv wf contents {#} s" and h: "healthy s" and ok: "heap_ok (view s) t"
    and i: "i < length (ht_pages t)" "ht_pages t ! i = p"
    and eff: "\<forall>d. length d = PAGE_SIZE \<longrightarrow>
      page_abs d = Some (ht_head t, chain_next (ht_pages t) i, page_slots (view s) p) \<longrightarrow> fst (f d) = q"
  shows "\<exists>s'. write_heap_page ops strat p (checked_write t i f) s = (q, s') \<and> healthy s'"
proof -
  from heap_ok_page [OF ok i(1), unfolded i(2)]
  obtain d where d: "view s p = Some d" "length d = PAGE_SIZE"
    "page_abs d = Some (ht_head t, chain_next (ht_pages t) i, page_slots (view s) p)" .
  from checked_header_ok [OF d(3,2)] obtain hd where "checked_header t i d = Inr hd" by blast
  then have "fst (checked_write t i f d) = q" using eff d by (simp add: checked_write_def)
  with write_heap_page_progress [OF inv h d(1), of "checked_write t i f"] show ?thesis by simp
qed

lemma heap_delete_progress:
  assumes inv: "pool_inv wf contents {#} s" and h: "healthy s" and ok: "heap_ok (view s) t"
    and np: "\<not> ht_poisoned t" and wf: "ctid_wf c"
  shows "\<exists>s'. heap_delete ops strat c (t, s) = (if page_id c \<in> set (ht_pages t) then Inr (heap_map (view s) t c \<noteq> None)
      else Inl (InvalidCtid c), (t, s')) \<and> healthy s'"
  unfolding heap_delete_def
proof (rule indexed_op_progress [OF ok np h])
  fix i assume i: "i < length (ht_pages t)" "ht_pages t ! i = page_id c"
  have "fst (page_delete (slot_id c) d) = Inr (heap_map (view s) t c \<noteq> None)" if "length d = PAGE_SIZE"
    "page_abs d = Some (ht_head t, chain_next (ht_pages t) i, page_slots (view s) (page_id c))" for d
  proof -
    have "page_id c \<in> set (ht_pages t)" using i by (metis nth_mem)
    then show ?thesis
      using page_delete_abs [OF that(2,1), of "slot_id c"] wf
      by (cases "heap_map (view s) t c") (auto simp: heap_map_slots ctid_wf_def)
  qed
  then show "\<exists>s'. write_heap_page ops strat (page_id c) (checked_write t i (page_delete (slot_id c))) s
      = (Inr (heap_map (view s) t c \<noteq> None), s') \<and> healthy s'"
    by (intro chain_write_progress [OF inv h ok i]) simp
qed simp

lemma heap_replace_progress:
  assumes inv: "pool_inv wf contents {#} s" and h: "healthy s" and ok: "heap_ok (view s) t"
    and np: "\<not> ht_poisoned t" and wf: "ctid_wf c"
  shows "\<exists>s'. heap_replace ops strat c bytes (t, s) = (replace_verdict t (view s) c bytes, (t, s')) \<and> healthy s'"
proof (cases "bytes \<noteq> [] \<and> length bytes \<le> MAX_TUPLE_SIZE")
  case size: True
  let ?q = "if heap_map (view s) t c = None then Inr False
      else if replace_fits (view s) c bytes then Inr True else Inl NoSpace"
  have "\<exists>s'. heap_locked (\<lambda>t. io_then (io_lift (page_index t c)) (\<lambda>index.
       io_then (write_heap_page ops strat (page_id c) (checked_write t index (replace_record (slot_id c) bytes)))
         (\<lambda>r. io_ok (r, t)))) (t, s) = (if page_id c \<in> set (ht_pages t) then ?q else Inl (InvalidCtid c), (t, s')) \<and> healthy s'"
  proof (rule indexed_op_progress [OF ok np h])
    fix i assume i: "i < length (ht_pages t)" "ht_pages t ! i = page_id c"
    have "fst (replace_record (slot_id c) bytes d) = ?q" if "length d = PAGE_SIZE"
      "page_abs d = Some (ht_head t, chain_next (ht_pages t) i, page_slots (view s) (page_id c))" for d
    proof -
      have "page_id c \<in> set (ht_pages t)" using i by (metis nth_mem)
      with replace_record_abs(1) [OF that(2,1), of "slot_id c" bytes] wf size show ?thesis
        by (simp add: heap_map_slots ctid_wf_def replace_fits_def)
    qed
    then show "\<exists>s'. write_heap_page ops strat (page_id c) (checked_write t i (replace_record (slot_id c) bytes)) s
      = (?q, s') \<and> healthy s'"
      by (intro chain_write_progress [OF inv h ok i]) simp
  qed simp
  with size show ?thesis
    by (auto simp: heap_replace_def validate_tuple_cases io_then_def replace_verdict_def)
next
  case False
  with h show ?thesis
    by (auto simp: heap_replace_def validate_tuple_cases io_then_def replace_verdict_def)
qed

end

section \<open>Properties\<close>

text \<open>A heap created in the one-frame pool of the witnesses.\<close>

definition small_heap :: heap_table where
  "small_heap = \<lparr>ht_head = 0, ht_pages = [0], ht_indices = [(0, 0)], ht_poisoned = False\<rparr>"

definition small_heap_pool :: "(memory_store, clock) pool" where
  "small_heap_pool = small_pool1\<lparr>p_frames := [initialize zero_page 0],
     p_descs := [\<lparr>d_tag = 0, d_pins = 0, d_dirty = True, d_poisoned = False\<rparr>]\<rparr>"

lemma small_heap_create:
  "heap_create memory_page_store clock_strategy small_pool = (Inr small_heap, small_heap_pool)"
  by (simp add: heap_create_def io_then_def pool_op_def small_pool_new_page pinned_write_def with_drop_def
      pin_write_def latch_def check_def Let_def upd_desc_def set_frame_def drop_pin_def small_handle_def
      small_pool1_def small_heap_def small_heap_pool_def)

lemma small_heap_ok:
  "pool_inv memory_wf memory_contents {#} small_heap_pool"
  "heap_ok (pool_view memory_contents small_heap_pool) small_heap"
  "heap_map (pool_view memory_contents small_heap_pool) small_heap = (\<lambda>_. None)"
  using mem.heap_create_result [OF small_pool_inv small_heap_create] by simp_all

lemma small_heap_healthy: "pool_healthy clock_inv small_heap_pool"
  by (simp add: pool_healthy_def clock_inv_def small_heap_pool_def small_pool1_def)

text \<open>
  \<^verbatim>\<open>HeapTable::create\<close> makes an empty heap on a page no heap could own before, and
  leaves every existing page as it was.
\<close>

theorem heap_create_empty:
  assumes "page_store so swf contents" "pool_inv swf contents H s" "heap_create so vs s = (Inr t, s')"
  shows "pool_inv swf contents H s' \<and> heap_ok (pool_view contents s') t \<and>
    heap_map (pool_view contents s') t = (\<lambda>_. None) \<and> pool_view contents s (ht_head t) = None \<and>
    (\<forall>p d. pool_view contents s p = Some d \<longrightarrow> pool_view contents s' p = Some d)"
  using page_store.heap_create_result [OF assms] by (simp add: untouched_def)

theorem heap_create_empty_witness:
  "heap_map (pool_view memory_contents small_heap_pool) small_heap = (\<lambda>_. None)"
  using heap_create_empty [OF mem.page_store_axioms small_pool_inv small_heap_create] by simp

text \<open>
  C1: Insertion. On any page store and with any eviction behaviour, \<^verbatim>\<open>insert\<close> of a record
  returns an address that held no record and adds exactly that record to the heap, on the
  tail page or on a newly linked one; when it fails, for whatever reason and at whatever
  point, the heap holds the same records as before and its handle is still consistent with
  the stored chain. Pages of other heaps are untouched in every case, and a failure that is
  not the pool's is the rejection of an empty or oversized record.
\<close>

theorem heap_insert_refines:
  assumes "page_store so swf contents" "pool_inv swf contents H s" "heap_ok (pool_view contents s) t"
    and "heap_insert so vs bytes (t, s) = (r, (t', s'))"
  shows "pool_inv swf contents H s' \<and> heap_ok (pool_view contents s') t' \<and>
    untouched (ht_pages t) (pool_view contents s) (pool_view contents s') \<and>
    (case r of
       Inr c \<Rightarrow> ctid_wf c \<and> heap_map (pool_view contents s) t c = None \<and>
         heap_map (pool_view contents s') t' = (heap_map (pool_view contents s) t)(c \<mapsto> bytes)
     | Inl e \<Rightarrow> heap_map (pool_view contents s') t' = heap_map (pool_view contents s) t \<and>
         (infra e \<or> (bytes = [] \<or> length bytes > MAX_TUPLE_SIZE) \<and> e = InvalidTupleSize (length bytes) MAX_TUPLE_SIZE))"
  using page_store.heap_insert_result [OF assms] by (auto simp: inserted_def split: sum.splits)

lemma small_heap_insert_any:
  assumes b: "b \<noteq> []" "length b \<le> 100"
  shows "\<exists>c t' s'. heap_insert memory_page_store clock_strategy b (small_heap, small_heap_pool) = (Inr c, (t', s')) \<and>
     pool_healthy clock_inv s' \<and> \<not> ht_poisoned t'"
proof -
  have eff: "fst (page_insert b d) = Inr (Some 1)" if "length d = PAGE_SIZE" "page_abs d = Some (0, None, [])" for d
  proof -
    have "fits ([] @ [Some b])"
      using b by (simp add: fits_def tlen_def HEADER_SIZE_def SLOT_SIZE_def PAGE_SIZE_def)
    then show ?thesis
      using page_insert_abs(1) [OF that(2,1) b(1)] b(2) by (auto simp: MAX_TUPLE_SIZE_def PAGE_SIZE_def HEADER_SIZE_def SLOT_SIZE_def)
  qed
  have slots: "page_slots (pool_view memory_contents small_heap_pool) 0 = []"
    using page_abs_initialize [of zero_page 0]
    by (simp add: page_slots_def pool_view_def small_heap_pool_def small_pool1_def)
  have "\<exists>s'. write_heap_page memory_page_store clock_strategy 0 (checked_write small_heap 0 (page_insert b)) small_heap_pool
      = (Inr (Some 1), s') \<and> pool_healthy clock_inv s'"
    by (rule mempool.chain_write_progress [OF small_heap_ok(1) small_heap_healthy small_heap_ok(2)])
      (simp_all add: small_heap_def chain_next_def slots eff)
  with b show ?thesis
    by (auto simp: heap_insert_def validate_tuple_def MAX_TUPLE_SIZE_def PAGE_SIZE_def HEADER_SIZE_def SLOT_SIZE_def
        io_then_def heap_locked_def heap_insert_locked_def small_heap_def)
qed

lemma small_heap_insert:
  "\<exists>c t' s'. heap_insert memory_page_store clock_strategy [7, 8] (small_heap, small_heap_pool) = (Inr c, (t', s')) \<and>
     pool_healthy clock_inv s' \<and> \<not> ht_poisoned t'"
  by (rule small_heap_insert_any) simp_all

theorem heap_insert_refines_witness:
  "\<exists>c t' s'. heap_insert memory_page_store clock_strategy [7, 8] (small_heap, small_heap_pool) = (Inr c, (t', s')) \<and>
     heap_map (pool_view memory_contents s') t' = [c \<mapsto> [7, 8]]"
proof -
  from small_heap_insert obtain c t' s' where
    r: "heap_insert memory_page_store clock_strategy [7, 8] (small_heap, small_heap_pool) = (Inr c, (t', s'))" by blast
  from heap_insert_refines [OF mem.page_store_axioms small_heap_ok(1,2) r] r small_heap_ok(3) show ?thesis by auto
qed

text \<open>A one-record heap, reached from the empty one.\<close>

lemma one_record_heap:
  obtains c t s where "ctid_wf c" "pool_inv memory_wf memory_contents {#} s" "heap_ok (pool_view memory_contents s) t"
    "heap_map (pool_view memory_contents s) t = [c \<mapsto> [7, 8]]" "pool_healthy clock_inv s" "\<not> ht_poisoned t"
proof -
  from small_heap_insert obtain c t' s' where
    r: "heap_insert memory_page_store clock_strategy [7, 8] (small_heap, small_heap_pool) = (Inr c, (t', s'))"
    "pool_healthy clock_inv s'" "\<not> ht_poisoned t'" by blast
  from mem.heap_insert_result [OF small_heap_ok(1,2) r(1)] small_heap_ok(3) r(2,3) show thesis
    by (intro that [of c s' t']) (simp_all add: inserted_def)
qed

text \<open>
  A call that meets no fault: no pin is held, the handle's lock and the pool are not poisoned,
  the store is reliable and the strategy sound.
\<close>

definition steady :: "'s page_store_ops \<Rightarrow> ('s \<Rightarrow> bool) \<Rightarrow> ('s \<Rightarrow> u32 \<Rightarrow> page option) \<Rightarrow> 'v victim_strategy \<Rightarrow>
    pinned_buffer multiset \<Rightarrow> heap_table \<Rightarrow> ('s, 'v) pool \<Rightarrow> bool" where
  "steady so swf contents vs H t s \<longleftrightarrow> H = {#} \<and> \<not> ht_poisoned t \<and>
     (\<exists>sinv. reliable_pool so swf contents vs sinv \<and> pool_healthy sinv s)"

lemma steady_answers:
  assumes "steady so swf contents vs H t s" "pool_inv swf contents H s" "heap_ok (pool_view contents s) t" "ctid_wf c"
  shows "fst (heap_get so vs c (t, s)) =
      (if page_id c \<in> set (ht_pages t) then Inr (heap_map (pool_view contents s) t c) else Inl (InvalidCtid c))"
    and "fst (heap_delete so vs c (t, s)) =
      (if page_id c \<in> set (ht_pages t) then Inr (heap_map (pool_view contents s) t c \<noteq> None) else Inl (InvalidCtid c))"
    and "fst (heap_replace so vs c bytes (t, s)) = replace_verdict t (pool_view contents s) c bytes"
proof -
  from assms(1) obtain sinv where st: "reliable_pool so swf contents vs sinv" "pool_healthy sinv s" "\<not> ht_poisoned t"
    and H: "H = {#}" by (auto simp: steady_def)
  note inv = assms(2) [unfolded H]
  show "fst (heap_get so vs c (t, s)) =
      (if page_id c \<in> set (ht_pages t) then Inr (heap_map (pool_view contents s) t c) else Inl (InvalidCtid c))"
    using reliable_pool.heap_get_progress [OF st(1) inv st(2) assms(3) st(3) assms(4)] by auto
  show "fst (heap_delete so vs c (t, s)) =
      (if page_id c \<in> set (ht_pages t) then Inr (heap_map (pool_view contents s) t c \<noteq> None) else Inl (InvalidCtid c))"
    using reliable_pool.heap_delete_progress [OF st(1) inv st(2) assms(3) st(3) assms(4)] by auto
  show "fst (heap_replace so vs c bytes (t, s)) = replace_verdict t (pool_view contents s) c bytes"
    using reliable_pool.heap_replace_progress [OF st(1) inv st(2) assms(3) st(3) assms(4), of bytes] by auto
qed

lemma memory_steady:
  "pool_healthy clock_inv s \<Longrightarrow> \<not> ht_poisoned t \<Longrightarrow> steady memory_page_store memory_wf memory_contents clock_strategy {#} t s"
  using mempool.reliable_pool_axioms by (auto simp: steady_def)

text \<open>
  C18: Reading. \<^verbatim>\<open>get\<close> returns the record stored at the address, \<^verbatim>\<open>None\<close> for a deleted or
  never-used slot and \<^verbatim>\<open>InvalidCtid\<close> exactly for a page outside the heap; it changes
  nothing. In a steady state this is the answer; otherwise the pool's own failure may be
  reported instead.
\<close>

theorem heap_get_correct:
  assumes "page_store so swf contents" "pool_inv swf contents H s" "heap_ok (pool_view contents s) t" "ctid_wf c"
    and "heap_get so vs c (t, s) = (r, (t', s'))"
  shows "pool_view contents s' = pool_view contents s \<and> pool_inv swf contents H s' \<and> same_heap t t' \<and>
    (r = (if page_id c \<in> set (ht_pages t) then Inr (heap_map (pool_view contents s) t c) else Inl (InvalidCtid c)) \<or>
     (\<exists>e. r = Inl e \<and> infra e \<and> \<not> steady so swf contents vs H t s))"
proof -
  have "r = (if page_id c \<in> set (ht_pages t) then Inr (heap_map (pool_view contents s) t c) else Inl (InvalidCtid c))"
    if "steady so swf contents vs H t s" using steady_answers(1) [OF that assms(2-4)] assms(5) by simp
  with page_store.heap_get_result [OF assms] show ?thesis
    unfolding page_store.quiet_def [OF assms(1)] by blast
qed

theorem heap_get_correct_witness:
  "fst (heap_get memory_page_store clock_strategy \<lparr>page_id = 0, slot_id = 1\<rparr> (small_heap, small_heap_pool)) = Inr None \<and>
   fst (heap_get memory_page_store clock_strategy \<lparr>page_id = 5, slot_id = 1\<rparr> (small_heap, small_heap_pool)) =
     Inl (InvalidCtid \<lparr>page_id = 5, slot_id = 1\<rparr>)"
proof -
  have *: "fst (heap_get memory_page_store clock_strategy c (small_heap, small_heap_pool)) =
      (if page_id c = 0 then Inr None else Inl (InvalidCtid c))" if "ctid_wf c" for c
  proof -
    obtain r t' s' where r: "heap_get memory_page_store clock_strategy c (small_heap, small_heap_pool) = (r, (t', s'))"
      by (metis surj_pair)
    have "\<not> ht_poisoned small_heap" "set (ht_pages small_heap) = {0}" by (simp_all add: small_heap_def)
    with heap_get_correct [OF mem.page_store_axioms small_heap_ok(1,2) that r] r small_heap_ok(3)
      memory_steady [OF small_heap_healthy] show ?thesis by auto
  qed
  show ?thesis by (simp add: * ctid_wf_def)
qed

text \<open>
  C17: Deletion. \<^verbatim>\<open>delete\<close> removes exactly the addressed record and reports whether there was
  one; other records, addresses and heaps are untouched, and a failing call removes nothing.
  In a steady state only an address outside the heap fails.
\<close>

theorem heap_delete_correct:
  assumes "page_store so swf contents" "pool_inv swf contents H s" "heap_ok (pool_view contents s) t" "ctid_wf c"
    and "heap_delete so vs c (t, s) = (r, (t', s'))"
  shows "pool_inv swf contents H s' \<and> same_heap t t' \<and> heap_ok (pool_view contents s') t' \<and>
    untouched (ht_pages t) (pool_view contents s) (pool_view contents s') \<and>
    (case r of
       Inr b \<Rightarrow> page_id c \<in> set (ht_pages t) \<and> (b \<longleftrightarrow> heap_map (pool_view contents s) t c \<noteq> None) \<and>
         heap_map (pool_view contents s') t' = (heap_map (pool_view contents s) t)(c := None)
     | Inl e \<Rightarrow> pool_view contents s' = pool_view contents s \<and>
         (e = InvalidCtid c \<and> page_id c \<notin> set (ht_pages t) \<or> infra e \<and> \<not> steady so swf contents vs H t s))"
proof -
  note d = page_store.heap_delete_result [OF assms]
  have p: "r = (if page_id c \<in> set (ht_pages t) then Inr (heap_map (pool_view contents s) t c \<noteq> None) else Inl (InvalidCtid c))"
    if "steady so swf contents vs H t s" using steady_answers(2) [OF that assms(2-4)] assms(5) by simp
  have same: "heap_ok V t' = heap_ok V t \<and> heap_map V t' = heap_map V t" if "same_heap t t'" for V
    using same_heap_simps [OF that] by blast
  show ?thesis
  proof (cases r)
    case (Inl e)
    with d assms(1) have q: "pool_inv swf contents H s'" "same_heap t t'" "pool_view contents s' = pool_view contents s"
      and e: "infra e \<or> e = InvalidCtid c \<and> page_id c \<notin> set (ht_pages t)"
      by (auto simp: page_store.quiet_def split: if_splits)
    from p Inl e have "e = InvalidCtid c \<and> page_id c \<notin> set (ht_pages t) \<or> infra e \<and> \<not> steady so swf contents vs H t s"
      by (fastforce split: if_splits)
    with Inl q same assms(3) show ?thesis by simp
  next
    case (Inr b)
    with d same show ?thesis by (auto split: if_splits)
  qed
qed

lemma heap_map_page: "heap_map V t c = Some b \<Longrightarrow> page_id c \<in> set (ht_pages t)"
  by (auto simp: heap_map_def split: if_splits)

theorem heap_delete_correct_witness:
  "\<exists>c t s t' s'. heap_map (pool_view memory_contents s) t = [c \<mapsto> [7, 8]] \<and>
     heap_delete memory_page_store clock_strategy c (t, s) = (Inr True, (t', s')) \<and>
     heap_map (pool_view memory_contents s') t' = Map.empty"
proof -
  obtain c t s where h: "ctid_wf c" "pool_inv memory_wf memory_contents {#} s" "heap_ok (pool_view memory_contents s) t"
    "heap_map (pool_view memory_contents s) t = [c \<mapsto> [7, 8]]" "pool_healthy clock_inv s" "\<not> ht_poisoned t"
    by (rule one_record_heap)
  obtain r t' s' where r: "heap_delete memory_page_store clock_strategy c (t, s) = (r, (t', s'))" by (metis surj_pair)
  have c: "page_id c \<in> set (ht_pages t)" using h(4) by (intro heap_map_page [of "pool_view memory_contents s" t c "[7, 8]"]) simp
  from heap_delete_correct [OF mem.page_store_axioms h(2,3,1) r] memory_steady [OF h(5,6)] c
  obtain b where "r = Inr b" "b = (heap_map (pool_view memory_contents s) t c \<noteq> None)"
    "heap_map (pool_view memory_contents s') t' = (heap_map (pool_view memory_contents s) t)(c := None)"
    by (cases r) auto
  then have "r = Inr True \<and> heap_map (pool_view memory_contents s') t' = Map.empty" by (simp add: h(4))
  with h(4) r show ?thesis by blast
qed

text \<open>
  C16: Replacement. \<^verbatim>\<open>replace\<close> swaps the record in place at the same address when one is there
  and the new bytes fit its page, reports \<^verbatim>\<open>false\<close> when there is none, and otherwise fails
  with the size, address or space error the code documents; every outcome but success
  leaves all records as they were. In a steady state it gives exactly that verdict.
\<close>

theorem heap_replace_correct:
  assumes "page_store so swf contents" "pool_inv swf contents H s" "heap_ok (pool_view contents s) t" "ctid_wf c"
    and "heap_replace so vs c bytes (t, s) = (r, (t', s'))"
  shows "pool_inv swf contents H s' \<and> same_heap t t' \<and> heap_ok (pool_view contents s') t' \<and>
    untouched (ht_pages t) (pool_view contents s) (pool_view contents s') \<and>
    heap_map (pool_view contents s') t' =
      (if r = Inr True then (heap_map (pool_view contents s) t)(c \<mapsto> bytes) else heap_map (pool_view contents s) t) \<and>
    (r = replace_verdict t (pool_view contents s) c bytes \<or>
     (\<exists>e. r = Inl e \<and> infra e \<and> \<not> steady so swf contents vs H t s))"
proof -
  note d = page_store.heap_replace_result [OF assms]
  have p: "r = replace_verdict t (pool_view contents s) c bytes" if "steady so swf contents vs H t s"
    using steady_answers(3) [OF that assms(2-4), of bytes] assms(5) by simp
  from d have "same_heap t t'" by blast
  from same_heap_simps [OF this] d p show ?thesis by auto
qed

theorem heap_replace_correct_witness:
  "\<exists>c t s t' s'. heap_map (pool_view memory_contents s) t = [c \<mapsto> [7, 8]] \<and>
     heap_replace memory_page_store clock_strategy c [] (t, s) = (Inl (InvalidTupleSize 0 MAX_TUPLE_SIZE), (t', s')) \<and>
     heap_map (pool_view memory_contents s') t' = [c \<mapsto> [7, 8]]"
proof -
  obtain c t s where h: "ctid_wf c" "pool_inv memory_wf memory_contents {#} s" "heap_ok (pool_view memory_contents s) t"
    "heap_map (pool_view memory_contents s) t = [c \<mapsto> [7, 8]]" "pool_healthy clock_inv s" "\<not> ht_poisoned t"
    by (rule one_record_heap)
  obtain r t' s' where r: "heap_replace memory_page_store clock_strategy c [] (t, s) = (r, (t', s'))" by (metis surj_pair)
  have "replace_verdict t (pool_view memory_contents s) c [] = Inl (InvalidTupleSize 0 MAX_TUPLE_SIZE)"
    by (simp add: replace_verdict_def)
  with heap_replace_correct [OF mem.page_store_axioms h(2,3,1) r] memory_steady [OF h(5,6)]
  have "r = Inl (InvalidTupleSize 0 MAX_TUPLE_SIZE)" "heap_map (pool_view memory_contents s') t' = heap_map (pool_view memory_contents s) t"
    by auto
  then have "heap_map (pool_view memory_contents s') t' = [c \<mapsto> [7, 8]]" "r = Inl (InvalidTupleSize 0 MAX_TUPLE_SIZE)"
    by (simp_all only: h(4))
  with h(4) r show ?thesis by blast
qed

lemma heap_ok_unique:
  assumes "heap_ok V t" "heap_ok V t'" "ht_head t = ht_head t'"
  shows "ht_pages t = ht_pages t' \<and> heap_map V t = heap_map V t'"
proof -
  let ?ps = "ht_pages t" and ?qs = "ht_pages t'"
  have step: "?ps ! i = ?qs ! i \<Longrightarrow> chain_next ?ps i = chain_next ?qs i" if "i < length ?ps" "i < length ?qs" for i
    using heap_ok_page [OF assms(1) that(1)] heap_ok_page [OF assms(2) that(2)]
    by (metis option.inject prod.inject)
  have ne: "?ps \<noteq> []" "?qs \<noteq> []" "?ps ! 0 = ?qs ! 0"
    using assms by (auto simp: heap_ok_def hd_conv_nth)
  have same: "i < length ?ps \<longleftrightarrow> i < length ?qs" "i < length ?ps \<Longrightarrow> ?ps ! i = ?qs ! i" for i
  proof (induction i)
    case (Suc i)
    { case 1
      show ?case using step [of i] Suc by (fastforce simp: chain_next_def split: if_splits) }
    { case 2
      then show ?case using step [of i] Suc by (fastforce simp: chain_next_def split: if_splits) }
  qed (use ne in auto)
  then have "?ps = ?qs" by (metis linorder_neqE_nat nth_equalityI order.irrefl)
  then show ?thesis by (simp add: heap_map_def fun_eq_iff)
qed

text \<open>
  C21: Opening. Whatever bytes the store holds, \<^verbatim>\<open>HeapTable::open\<close> terminates, and a handle it
  returns caches exactly the stored chain of validated pages owned by that head, without a
  cycle, and shows the records of every other consistent handle on the head. Where such a
  handle exists, opening can fail only through the pool: it never reports corruption.
\<close>

theorem heap_open_correct:
  assumes "page_store so swf contents" "pool_inv swf contents H s" "heap_open so vs head s = (r, s')"
  shows "case r of
      Inr t \<Rightarrow> pool_inv swf contents H s' \<and> pool_view contents s' = pool_view contents s \<and>
        ht_head t = head \<and> heap_ok (pool_view contents s) t \<and>
        (\<forall>u. ht_head u = head \<longrightarrow> heap_ok (pool_view contents s) u \<longrightarrow>
           ht_pages t = ht_pages u \<and> heap_map (pool_view contents s) t = heap_map (pool_view contents s) u)
    | Inl e \<Rightarrow> (\<forall>u. ht_head u = head \<longrightarrow> heap_ok (pool_view contents s) u \<longrightarrow> (\<exists>b. e = Buffer b))"
proof (cases r)
  case (Inr t)
  with page_store.heap_open_sound [OF assms(1,2), of vs head t s'] assms(3)
  have "pool_inv swf contents H s' \<and> pool_view contents s' = pool_view contents s \<and> ht_head t = head \<and>
    heap_ok (pool_view contents s) t" by blast
  moreover from this have "ht_pages t = ht_pages u \<and> heap_map (pool_view contents s) t = heap_map (pool_view contents s) u"
    if "ht_head u = head" "heap_ok (pool_view contents s) u" for u
    using heap_ok_unique that by metis
  ultimately show ?thesis using Inr by auto
next
  case (Inl e)
  with page_store.heap_open_complete [OF assms(1,2)] assms(3) show ?thesis by fastforce
qed

theorem heap_open_correct_witness:
  "case heap_open memory_page_store clock_strategy 0 small_heap_pool of
     (Inr t, s') \<Rightarrow> ht_pages t = [0] \<and> heap_map (pool_view memory_contents small_heap_pool) t = Map.empty
   | (Inl e, s') \<Rightarrow> \<exists>b. e = Buffer b"
proof -
  obtain r s' where r: "heap_open memory_page_store clock_strategy 0 small_heap_pool = (r, s')" by fastforce
  have "ht_head small_heap = 0" "ht_pages small_heap = [0]" by (simp_all add: small_heap_def)
  with heap_open_correct [OF mem.page_store_axioms small_heap_ok(1) r] small_heap_ok(2,3) r show ?thesis
    by (cases r) fastforce+
qed

text \<open>
  C20: Starting a scan captures every record of the heap: the rows it will return, if the heap
  is not changed meanwhile, are exactly the address/record pairs of the heap, each address
  once, in the order of the page chain and of the slots within a page.
\<close>

theorem heap_scan_start_complete:
  assumes "page_store so swf contents" "pool_inv swf contents H s" "heap_ok (pool_view contents s) t"
    and "heap_scan_start so vs (t, s) = (Inr sc, (t', s'))"
  shows "pool_view contents s' = pool_view contents s \<and> scan_ok (pool_view contents s) t sc \<and> \<not> hs_failed sc \<and>
    (\<forall>c b. (c, b) \<in> set (rest_rows (pool_view contents s) sc) \<longleftrightarrow> heap_map (pool_view contents s) t c = Some b) \<and>
    distinct (map fst (rest_rows (pool_view contents s) sc))"
  using page_store.heap_scan_start_result [OF assms] assms(1) heap_rows_map [OF assms(3)] heap_rows_distinct [OF assms(3)]
  by (simp add: page_store.quiet_def)

theorem heap_scan_start_complete_witness:
  "case heap_scan_start memory_page_store clock_strategy (small_heap, small_heap_pool) of
     (Inr sc, (t', s')) \<Rightarrow> rest_rows (pool_view memory_contents small_heap_pool) sc = []
   | (Inl e, (t', s')) \<Rightarrow> False"
proof -
  let ?V = "pool_view memory_contents small_heap_pool"
  have v: "?V 0 = Some (initialize zero_page 0)"
    by (simp add: pool_view_def small_heap_pool_def small_pool1_def)
  have a: "page_abs (initialize zero_page 0) = Some (ht_head small_heap, chain_next (ht_pages small_heap) 0, [])"
    using page_abs_initialize [of zero_page 0] by (simp add: small_heap_def chain_next_def)
  have l: "length (initialize zero_page 0) = PAGE_SIZE" by (simp add: initialize_page(1))
  from checked_header_ok [OF a l] obtain hd where "checked_header small_heap 0 (initialize zero_page 0) = Inr hd" by blast
  with mempool.read_heap_page_progress [OF small_heap_ok(1) small_heap_healthy v, of "checked_header small_heap 0"]
  obtain s' where "read_heap_page memory_page_store clock_strategy 0 (checked_header small_heap 0) small_heap_pool = (Inr hd, s')"
    by auto
  then obtain sc t' s'' where sc: "heap_scan_start memory_page_store clock_strategy (small_heap, small_heap_pool) = (Inr sc, (t', s''))"
    by (auto simp: heap_scan_start_def heap_locked_def io_then_def small_heap_def)
  from heap_scan_start_complete [OF mem.page_store_axioms small_heap_ok(1,2) sc]
  have "(c, b) \<notin> set (rest_rows ?V sc)" for c b
    unfolding small_heap_ok(3) by blast
  then have "rest_rows ?V sc = []" by (metis list.set_intros(1) neq_Nil_conv surj_pair)
  with sc show ?thesis by simp
qed

text \<open>
  C19: Each \<^verbatim>\<open>next\<close> of a scan hands out the first of the remaining rows as the heap now has
  them, or ends exactly when none remain; a failure of the pool is reported once and ends
  the scan. The heap is never changed by it.
\<close>

theorem scan_next_correct:
  assumes "page_store so swf contents" "pool_inv swf contents H s" "heap_ok (pool_view contents s) t"
    and "scan_ok (pool_view contents s) t sc" "scan_next so vs sc (t, s) = ((r, sc'), (t', s'))"
  shows "pool_view contents s' = pool_view contents s \<and> pool_inv swf contents H s' \<and> same_heap t t' \<and>
    scan_ok (pool_view contents s) t sc' \<and>
    (if hs_failed sc then r = None \<and> sc' = sc
     else case r of
       None \<Rightarrow> rest_rows (pool_view contents s) sc = []
     | Some (Inl e) \<Rightarrow> infra e \<and> hs_failed sc'
     | Some (Inr row) \<Rightarrow> rest_rows (pool_view contents s) sc = row # rest_rows (pool_view contents s) sc' \<and> \<not> hs_failed sc')"
  by (rule page_store.scan_next_result [OF assms])

theorem scan_next_correct_witness:
  "let row = (\<lparr>page_id = 0, slot_id = 1\<rparr>, [7, 8]); sc = \<lparr>hs_pages = [], hs_index = 0, hs_rows = [row], hs_failed = False\<rparr>
   in fst (scan_next memory_page_store clock_strategy sc (small_heap, small_heap_pool)) =
     (Some (Inr row), sc\<lparr>hs_rows := []\<rparr>) \<and>
     rest_rows (pool_view memory_contents small_heap_pool) sc = [row]"
proof -
  let ?row = "(\<lparr>page_id = 0, slot_id = 1\<rparr>, [7, 8])"
  let ?sc = "\<lparr>hs_pages = [], hs_index = 0, hs_rows = [?row], hs_failed = False\<rparr>"
  have n: "scan_next memory_page_store clock_strategy ?sc (small_heap, small_heap_pool) =
      ((Some (Inr ?row), ?sc\<lparr>hs_rows := []\<rparr>), (small_heap, small_heap_pool))"
    by (simp add: scan_next_def scan_loop.simps)
  have "scan_ok (pool_view memory_contents small_heap_pool) small_heap ?sc" by (simp add: scan_ok_def)
  from scan_next_correct [OF mem.page_store_axioms small_heap_ok(1,2) this n] n show ?thesis
    by (simp add: rest_rows_def)
qed

end
