(* ===== verification/Catalog.thy ===== *)
theory Catalog
  imports CatalogCodec HeapSpec
begin

text \<open>
  The heap-backed catalog, \<^verbatim>\<open>crates/catalog/src/lib.rs\<close>: a metadata heap whose first record
  is the manifest and whose other records are table definitions, with an in-memory map of
  table sources. The shared \<^verbatim>\<open>Arc<HeapTable>\<close> of a source is an index into \<open>cat_heaps\<close>, the
  open table heaps. A catalog is abstracted to its table definitions; creating tables,
  failing to, and reopening are shown to act on them as documented.
\<close>

section \<open>State\<close>

datatype catalog_error =
  Heap heap_error
| TableExists string
| InvalidMetadata string
| Corruption string
| CatalogPoisoned

record table_source =
  src_heap :: nat
  src_schema :: table_schema
  src_constraints :: "table_constraint list"

record heap_catalog =
  cat_metadata :: heap_table
  cat_entries :: "(string \<times> table_source) list"
  cat_heaps :: "heap_table list"
  cat_poisoned :: bool

definition heap_op :: "('s, heap_error, 'a) io \<Rightarrow> ('s, catalog_error, 'a) io" where
  "heap_op m s = (case m s of (r, s') \<Rightarrow> (map_err Heap r, s'))"

section \<open>Creating and opening\<close>

definition catalog_create :: "'s page_store_ops \<Rightarrow> 'v victim_strategy \<Rightarrow>
    (('s, 'v) pool, catalog_error, heap_catalog) io" where
  "catalog_create so vs = io_then (heap_op (heap_create so vs)) (\<lambda>metadata s.
     case heap_op (heap_insert so vs MANIFEST) (metadata, s) of
       (Inl e, (metadata, s)) \<Rightarrow> (Inl e, s)
     | (Inr _, (metadata, s)) \<Rightarrow>
         (Inr \<lparr>cat_metadata = metadata, cat_entries = [], cat_heaps = [], cat_poisoned = False\<rparr>, s))"

text \<open>Each row a scan returns brings it nearer to its end.\<close>

definition scan_left :: "heap_scan \<Rightarrow> (nat \<times> nat)" where
  "scan_left sc = (length (hs_pages sc) - hs_index sc, length (hs_rows sc))"

lemma scan_loop_left:
  assumes "scan_loop so vs sc st = ((Some (Inr row), sc'), st')"
  shows "(scan_left sc', scan_left sc) \<in> less_than <*lex*> less_than"
  using assms
proof (induction "length (hs_pages sc) - hs_index sc" arbitrary: sc st rule: less_induct)
  case less
  show ?case
  proof (cases "hs_rows sc")
    case (Cons row' rows)
    with less.prems have "sc' = sc\<lparr>hs_rows := rows\<rparr>" by (simp add: scan_loop.simps [of _ _ sc])
    with Cons show ?thesis by (simp add: scan_left_def)
  next
    case Nil
    obtain pid slots where p: "hs_pages sc ! hs_index sc = (pid, slots)" by fastforce
    obtain q st1 where q: "read_scan_page so vs pid slots st = (q, st1)" by (metis surj_pair)
    from less.prems Nil p q have i: "hs_index sc < length (hs_pages sc)"
      and "\<exists>rows. q = Inr rows" by (auto simp: scan_loop.simps [of _ _ sc] split: if_splits sum.splits)
    then obtain rows where "q = Inr rows" by blast
    let ?sc = "sc\<lparr>hs_index := hs_index sc + 1, hs_rows := rows\<rparr>"
    have "scan_loop so vs ?sc st1 = ((Some (Inr row), sc'), st')"
      using less.prems Nil p q i \<open>q = Inr rows\<close> by (simp add: scan_loop.simps [of _ _ sc])
    from less.hyps [OF _ this] i have "(scan_left sc', scan_left ?sc) \<in> less_than <*lex*> less_than" by simp
    with i show ?thesis by (auto simp: scan_left_def)
  qed
qed

function open_records :: "'s page_store_ops \<Rightarrow> 'v victim_strategy \<Rightarrow> heap_scan \<Rightarrow> (string \<times> table_source) list \<Rightarrow>
    heap_table list \<Rightarrow> u32 list \<Rightarrow> heap_table \<times> ('s, 'v) pool \<Rightarrow>
    (catalog_error + (string \<times> table_source) list \<times> heap_table list) \<times> heap_table \<times> ('s, 'v) pool" where
  "open_records so vs records entries heaps roots st =
     (case scan_next so vs records st of
        ((None, _), st) \<Rightarrow> (Inr (entries, heaps), st)
      | ((Some (Inl e), _), st) \<Rightarrow> (Inl (Heap e), st)
      | ((Some (Inr (_, bytes)), records'), (t, s)) \<Rightarrow>
          if bytes = MANIFEST then (Inl (Corruption ''duplicate manifest''), (t, s))
          else case decode bytes of
            Inl e \<Rightarrow> (Inl (Corruption e), (t, s))
          | Inr m \<Rightarrow>
              if map_of entries (ts_name (md_schema m)) \<noteq> None \<or> md_head m \<in> set roots
              then (Inl (Corruption ''duplicate table name or heap root''), (t, s))
              else case heap_op (heap_open so vs (md_head m)) s of
                (Inl e, s) \<Rightarrow> (Inl e, (t, s))
              | (Inr heap, s) \<Rightarrow>
                  open_records so vs records'
                    (AList.update (ts_name (md_schema m))
                      \<lparr>src_heap = length heaps, src_schema = md_schema m, src_constraints = md_constraints m\<rparr> entries)
                    (heaps @ [heap]) (md_head m # roots) (t, s))"
  by pat_completeness auto

termination
proof (relation "inv_image (less_than <*lex*> less_than) (\<lambda>(so, vs, records, entries, heaps, roots, st). scan_left records)",
    goal_cases)
  case (2 so vs records entries heaps roots st p q r1 x4 rec t s)
  then show ?case by (auto simp: scan_next_def split: if_splits intro: scan_loop_left [OF sym])
qed auto

declare open_records.simps [simp del]

definition catalog_open :: "'s page_store_ops \<Rightarrow> 'v victim_strategy \<Rightarrow> u32 \<Rightarrow>
    (('s, 'v) pool, catalog_error, heap_catalog) io" where
  "catalog_open so vs root = io_then (heap_op (heap_open so vs root)) (\<lambda>metadata s.
     case heap_op (heap_scan_start so vs) (metadata, s) of
       (Inl e, (metadata, s)) \<Rightarrow> (Inl e, s)
     | (Inr records, st) \<Rightarrow>
         (case scan_next so vs records st of
            ((Some (Inl e), _), (metadata, s)) \<Rightarrow> (Inl (Heap e), s)
          | ((first, records), st) \<Rightarrow>
              if (case first of Some (Inr (_, bytes)) \<Rightarrow> bytes \<noteq> MANIFEST | _ \<Rightarrow> True)
              then (Inl (Corruption ''missing catalog manifest''), snd st)
              else case open_records so vs records [] [] [root] st of
                (Inl e, (metadata, s)) \<Rightarrow> (Inl e, s)
              | (Inr (entries, heaps), (metadata, s)) \<Rightarrow>
                  (Inr \<lparr>cat_metadata = metadata, cat_entries = entries, cat_heaps = heaps, cat_poisoned = False\<rparr>, s)))"

section \<open>Tables\<close>

definition declared_metadata :: "create_table \<Rightarrow> metadata" where
  "declared_metadata d = \<lparr>
     md_schema = \<lparr>ts_name = ct_name d,
       ts_columns = map (\<lambda>c. \<lparr>col_name = cc_name c, col_type = cc_type c, col_nullable = cc_nullable c\<rparr>) (ct_columns d)\<rparr>,
     md_head = 0, md_constraints = ct_constraints d\<rparr>"

text \<open>The body of \<^verbatim>\<open>create_table\<close> once the entries are locked.\<close>

definition publish_table :: "'s page_store_ops \<Rightarrow> 'v victim_strategy \<Rightarrow> create_table \<Rightarrow> heap_catalog \<Rightarrow> ('s, 'v) pool \<Rightarrow>
    (catalog_error + table_source) \<times> heap_catalog \<times> ('s, 'v) pool" where
  "publish_table so vs d cat s =
     (if map_of (cat_entries cat) (ct_name d) \<noteq> None then (Inl (TableExists (ct_name d)), (cat, s))
      else let m = declared_metadata d in
      case encode m of
        Inl e \<Rightarrow> (Inl (InvalidMetadata e), (cat, s))
      | Inr _ \<Rightarrow>
          (case heap_op (heap_create so vs) s of
             (Inl e, s) \<Rightarrow> (Inl e, (cat, s))
           | (Inr heap, s) \<Rightarrow>
               let m = m\<lparr>md_head := ht_head heap\<rparr> in
               (case encode m of
                  Inl e \<Rightarrow> (Inl (InvalidMetadata e), (cat, s))
                | Inr bytes \<Rightarrow>
                    (case heap_op (heap_insert so vs bytes) (cat_metadata cat, s) of
                       (Inl e, (metadata, s)) \<Rightarrow> (Inl e, (cat\<lparr>cat_metadata := metadata\<rparr>, s))
                     | (Inr _, (metadata, s)) \<Rightarrow>
                         let source = \<lparr>src_heap = length (cat_heaps cat), src_schema = md_schema m,
                           src_constraints = md_constraints m\<rparr> in
                         (Inr source, (cat\<lparr>cat_metadata := metadata, cat_heaps := cat_heaps cat @ [heap],
                            cat_entries := AList.update (ts_name (src_schema source)) source (cat_entries cat)\<rparr>, s))))))"

definition catalog_create_table :: "'s page_store_ops \<Rightarrow> 'v victim_strategy \<Rightarrow> create_table \<Rightarrow>
    (heap_catalog \<times> ('s, 'v) pool, catalog_error, table_source) io" where
  "catalog_create_table so vs d cs = (case cs of (cat, s) \<Rightarrow>
     if cat_poisoned cat then (Inl CatalogPoisoned, (cat, s))
     else case publish_table so vs d cat s of
       (Inl e, (cat, s)) \<Rightarrow> (Inl e, (if e = Heap (Buffer Panicked) then cat\<lparr>cat_poisoned := True\<rparr> else cat, s))
     | (Inr source, cs) \<Rightarrow> (Inr source, cs))"

definition catalog_table :: "heap_catalog \<Rightarrow> string \<Rightarrow> catalog_error + table_source option" where
  "catalog_table cat name = (if cat_poisoned cat then Inl CatalogPoisoned else Inr (map_of (cat_entries cat) name))"

section \<open>The catalog as a map of definitions\<close>

text \<open>
  \<open>ms\<close> are the definitions stored behind the manifest, in record order; the cached entries
  and open heaps are theirs.
\<close>

definition source_of :: "nat \<Rightarrow> metadata \<Rightarrow> string \<times> table_source" where
  "source_of i m = (ts_name (md_schema m),
     \<lparr>src_heap = i, src_schema = md_schema m, src_constraints = md_constraints m\<rparr>)"

definition stores :: "(u32 \<Rightarrow> page option) \<Rightarrow> heap_table \<Rightarrow> metadata list \<Rightarrow> bool" where
  "stores V t ms \<longleftrightarrow> heap_ok V t \<and> map snd (heap_rows V t) = MANIFEST # map enc_fields ms \<and>
     (\<forall>m \<in> set ms. metadata_ok m \<and> encode m = Inr (enc_fields m)) \<and>
     distinct (map (ts_name \<circ> md_schema) ms) \<and> distinct (ht_head t # map md_head ms)"

definition opened :: "(u32 \<Rightarrow> page option) \<Rightarrow> metadata list \<Rightarrow> (string \<times> table_source) list \<Rightarrow> heap_table list \<Rightarrow> bool" where
  "opened V ms entries heaps \<longleftrightarrow> length heaps = length ms \<and>
     map_of entries = map_of (map (\<lambda>i. source_of i (ms ! i)) [0..<length ms]) \<and>
     (\<forall>i < length ms. heap_ok V (heaps ! i) \<and> ht_head (heaps ! i) = md_head (ms ! i))"

definition catalog_ok :: "(u32 \<Rightarrow> page option) \<Rightarrow> heap_catalog \<Rightarrow> bool" where
  "catalog_ok V cat \<longleftrightarrow> (\<exists>ms. stores V (cat_metadata cat) ms \<and> opened V ms (cat_entries cat) (cat_heaps cat))"

text \<open>The definition a name has: its schema, its constraints and the head of its heap.\<close>

definition catalog_defs :: "heap_catalog \<Rightarrow> string \<Rightarrow> (table_schema \<times> table_constraint list \<times> u32) option" where
  "catalog_defs cat name = map_option (\<lambda>src. (src_schema src, src_constraints src, ht_head (cat_heaps cat ! src_heap src)))
     (map_of (cat_entries cat) name)"

definition defs_of :: "metadata list \<Rightarrow> string \<Rightarrow> (table_schema \<times> table_constraint list \<times> u32) option" where
  "defs_of ms = map_of (map (\<lambda>m. (ts_name (md_schema m), (md_schema m, md_constraints m, md_head m))) ms)"

lemma map_of_index: "map_of (map (\<lambda>i. (f i, g i)) is) k = map_option g (List.find (\<lambda>i. f i = k) is)"
  by (induction "is") auto

lemma opened_defs:
  assumes "opened V ms (cat_entries cat) (cat_heaps cat)"
  shows "catalog_defs cat = defs_of ms"
proof
  fix name
  let ?n = "length ms" and ?name = "\<lambda>i. ts_name (md_schema (ms ! i))"
  have e: "map_of (cat_entries cat) name = map_option (\<lambda>i. snd (source_of i (ms ! i))) (List.find (\<lambda>i. ?name i = name) [0..<?n])"
    using assms by (simp add: opened_def source_of_def map_of_index)
  have "defs_of ms = map_of (map (\<lambda>i. (?name i, (md_schema (ms ! i), md_constraints (ms ! i), md_head (ms ! i)))) [0..<?n])"
  proof -
    have "map g ms = map (\<lambda>i. g (ms ! i)) [0..<length ms]" for g :: "metadata \<Rightarrow> string \<times> table_schema \<times> table_constraint list \<times> u32"
      using map_map [of g "(!) ms" "[0..<length ms]"] by (simp add: map_nth comp_def)
    then show ?thesis unfolding defs_of_def by (rule arg_cong)
  qed
  then have d: "defs_of ms name = map_option (\<lambda>i. (md_schema (ms ! i), md_constraints (ms ! i), md_head (ms ! i)))
      (List.find (\<lambda>i. ?name i = name) [0..<?n])" by (simp add: map_of_index)
  show "catalog_defs cat name = defs_of ms name"
  proof (cases "List.find (\<lambda>i. ?name i = name) [0..<?n]")
    case (Some i)
    then have "i < ?n" by (auto simp: find_Some_iff)
    with assms Some e d show ?thesis by (simp add: catalog_defs_def opened_def source_of_def)
  qed (use e d in \<open>simp add: catalog_defs_def\<close>)
qed

lemma map_of_snoc: "k \<notin> set (map fst xs) \<Longrightarrow> map_of (xs @ [(k, v)]) = (map_of xs)(k \<mapsto> v)"
  by (induction xs) (auto simp: fun_eq_iff)

lemma opened_snoc:
  assumes o: "opened V ms entries heaps" and new: "ts_name (md_schema m) \<notin> set (map (ts_name \<circ> md_schema) ms)"
    and h: "heap_ok V heap" "ht_head heap = md_head m"
  shows "opened V (ms @ [m]) (AList.update (fst (source_of (length heaps) m)) (snd (source_of (length heaps) m)) entries)
    (heaps @ [heap])"
proof -
  let ?n = "length ms" and ?s = "source_of (length ms) m"
  let ?old = "map (\<lambda>i. source_of i (ms ! i)) [0..<?n]"
  have len: "length heaps = ?n" using o by (simp add: opened_def)
  have fresh: "fst ?s \<notin> set (map fst ?old)" using new by (auto simp: source_of_def)
  have "map (\<lambda>i. source_of i ((ms @ [m]) ! i)) [0..<Suc ?n] = ?old @ [?s]" by (simp add: nth_append)
  then have "map_of (map (\<lambda>i. source_of i ((ms @ [m]) ! i)) [0..<Suc ?n]) = (map_of ?old)(fst ?s \<mapsto> snd ?s)"
    using map_of_snoc [OF fresh, of "snd ?s"] by (simp only: prod.collapse)
  with o h len show ?thesis by (auto simp: opened_def nth_append less_Suc_eq update_conv')
qed

lemma heaps_disjoint:
  assumes "heap_ok V t" "heap_ok V u" "ht_head t \<noteq> ht_head u"
  shows "set (ht_pages t) \<inter> set (ht_pages u) = {}"
proof (rule ccontr)
  assume "set (ht_pages t) \<inter> set (ht_pages u) \<noteq> {}"
  then obtain p where "p \<in> set (ht_pages t)" "p \<in> set (ht_pages u)" by blast
  then obtain i j where "i < length (ht_pages t)" "ht_pages t ! i = p" "j < length (ht_pages u)" "ht_pages u ! j = p"
    by (auto simp: in_set_conv_nth)
  with heap_ok_page [OF assms(1), of i] heap_ok_page [OF assms(2), of j] assms(3) show False
    by (metis option.inject prod.inject)
qed

lemma heap_pages_exist:
  assumes "heap_ok V t" "p \<in> set (ht_pages t)"
  shows "V p \<noteq> None"
  using assms heap_ok_page [OF assms(1)] by (metis in_set_conv_nth option.distinct(1))

lemma heap_head_page: "heap_ok V t \<Longrightarrow> ht_head t \<in> set (ht_pages t)"
  by (metis heap_ok_def hd_in_set)

lemma heap_head_exists: "heap_ok V t \<Longrightarrow> V (ht_head t) \<noteq> None"
  using heap_pages_exist heap_head_page by blast

lemma heap_ok_untouched:
  assumes "heap_ok V t" "untouched ps V V'" "set ps \<inter> set (ht_pages t) = {}"
  shows "heap_ok V' t" "heap_map V' t = heap_map V t" "chain_slots V' t = chain_slots V t"
proof -
  have same: "V' p = V p" if "p \<in> set (ht_pages t)" for p
    using assms that heap_pages_exist [OF assms(1) that] by (auto simp: untouched_def)
  then show "heap_ok V' t" "heap_map V' t = heap_map V t" using heap_ok_cong [OF assms(1)] by blast+
  show "chain_slots V' t = chain_slots V t" using same by (simp add: chain_slots_def page_slots_def)
qed

lemma stores_cong:
  assumes "stores V t ms" "heap_ok V' t'" "chain_slots V' t' = chain_slots V t" "ht_head t' = ht_head t"
  shows "stores V' t' ms"
  using assms by (simp add: stores_def heap_rows_chain)

lemma opened_cong:
  assumes "opened V ms entries heaps" "\<And>i. i < length ms \<Longrightarrow> heap_ok V' (heaps ! i)"
  shows "opened V' ms entries heaps"
  using assms by (simp add: opened_def)

text \<open>Records on a heap page are small enough to have been inserted.\<close>

lemma heap_rows_size:
  assumes "heap_ok V t" "(c, b) \<in> set (heap_rows V t)"
  shows "length b \<le> MAX_TUPLE_SIZE \<and> b \<noteq> []"
proof -
  from assms have m: "heap_map V t c = Some b" by (simp add: heap_rows_map)
  then have "page_id c \<in> set (ht_pages t)" by (rule heap_map_page)
  then obtain i where i: "i < length (ht_pages t)" "ht_pages t ! i = page_id c" by (auto simp: in_set_conv_nth)
  from heap_ok_page [OF assms(1) i(1), unfolded i(2)] obtain d where d: "length d = PAGE_SIZE"
    "page_abs d = Some (ht_head t, chain_next (ht_pages t) i, page_slots V (page_id c))" by blast
  from d(2,1) have fit: "fits (page_slots V (page_id c))" by (rule page_absD)
  let ?ts = "page_slots V (page_id c)"
  have "Some b \<in> set ?ts"
    using m by (auto simp: heap_map_def tuple_at_def split: if_splits)
      (metis One_nat_def Suc_pred diff_less less_numeral_extra(1) nth_mem order_less_le_trans unat_gt_0)
  then have "tlen (Some b) \<in> set (map tlen ?ts)" "0 < length ?ts"
    by (simp_all only: set_map imageI length_pos_if_in_set)
  from member_le_sum_list [OF this(1)] this(2) have "length b \<le> tuple_bytes ?ts" "SLOT_SIZE \<le> length ?ts * SLOT_SIZE"
    by (simp_all add: tuple_bytes_def tlen_def Suc_le_eq)
  moreover have "dir (length ?ts) + tuple_bytes ?ts \<le> PAGE_SIZE" "b \<noteq> []"
    using fit \<open>Some b \<in> set ?ts\<close> by (auto simp: fits_def)
  ultimately show ?thesis unfolding MAX_TUPLE_SIZE_def by linarith
qed

section \<open>Creating a table\<close>

definition decl_ok :: "create_table \<Rightarrow> bool" where
  "decl_ok d \<longleftrightarrow> is_str (ct_name d) \<and> (\<forall>c \<in> set (ct_columns d). is_str (cc_name c) \<and> type_ok (cc_type c))"

lemma declared_ok: "decl_ok d \<Longrightarrow> metadata_ok ((declared_metadata d)\<lparr>md_head := h\<rparr>)"
  by (auto simp: decl_ok_def metadata_ok_def declared_metadata_def column_ok_def)

text \<open>The head is fixed-width, so what encodes with the placeholder encodes with any head.\<close>

lemma encode_head:
  "encode m = Inr bytes \<Longrightarrow> encode (m\<lparr>md_head := h\<rparr>) = Inr (enc_fields (m\<lparr>md_head := h\<rparr>))"
proof -
  assume e: "encode m = Inr bytes"
  have "length (enc_fields (m\<lparr>md_head := h\<rparr>)) = length (enc_fields m)" by (simp add: enc_fields_def)
  with e show ?thesis by (auto simp: encode_Inr validate_def)
qed

lemma enc_fields_nonempty: "enc_fields m \<noteq> []" "enc_fields m \<noteq> MANIFEST"
proof -
  have "take 10 (enc_fields m) = TABLE" by (simp add: enc_fields_def TABLE_def)
  moreover have "TABLE \<noteq> MANIFEST" "TABLE \<noteq> []" "take 10 MANIFEST = MANIFEST"
    by (simp_all add: TABLE_def MANIFEST_def)
  ultimately show "enc_fields m \<noteq> []" "enc_fields m \<noteq> MANIFEST" by auto
qed

lemma defs_of_snoc:
  assumes "ts_name (md_schema m) \<notin> set (map (ts_name \<circ> md_schema) ms)"
  shows "defs_of (ms @ [m]) = (defs_of ms)(ts_name (md_schema m) \<mapsto> (md_schema m, md_constraints m, md_head m))"
proof -
  let ?f = "\<lambda>m. (ts_name (md_schema m), (md_schema m, md_constraints m, md_head m))"
  have "ts_name (md_schema m) \<notin> set (map fst (map ?f ms))" using assms by (auto simp: comp_def)
  from map_of_snoc [OF this] show ?thesis by (simp add: defs_of_def)
qed

lemma entries_fresh:
  assumes "opened V ms entries heaps" "map_of entries name = None"
  shows "name \<notin> set (map (ts_name \<circ> md_schema) ms)"
proof -
  have "name \<notin> fst ` set (map (\<lambda>i. source_of i (ms ! i)) [0..<length ms])"
    using assms by (simp only: opened_def map_of_eq_None_iff) (metis map_of_eq_None_iff)
  then have "name \<noteq> ts_name (md_schema (ms ! i))" if "i < length ms" for i
    using that by (force simp: source_of_def image_iff)
  then have "name \<noteq> ts_name (md_schema m)" if "m \<in> set ms" for m
    using that unfolding in_set_conv_nth by blast
  then show ?thesis by auto
qed

lemma opened_names:
  assumes "opened V ms entries heaps"
  shows "map_of entries name = None \<longleftrightarrow> name \<notin> set (map (ts_name \<circ> md_schema) ms)"
proof
  assume "name \<notin> set (map (ts_name \<circ> md_schema) ms)"
  then have "name \<notin> fst ` set (map (\<lambda>i. source_of i (ms ! i)) [0..<length ms])" by (auto simp: source_of_def)
  with assms show "map_of entries name = None" by (simp only: opened_def map_of_eq_None_iff) (metis map_of_eq_None_iff)
qed (rule entries_fresh [OF assms])

definition created_table :: "create_table \<Rightarrow> heap_catalog \<Rightarrow> (u32 \<Rightarrow> page option) \<Rightarrow> catalog_error + table_source \<Rightarrow>
    heap_catalog \<Rightarrow> (u32 \<Rightarrow> page option) \<Rightarrow> bool" where
  "created_table d cat V r cat' V' \<longleftrightarrow> catalog_ok V' cat' \<and>
     (case r of
        Inr src \<Rightarrow> catalog_defs cat (ct_name d) = None \<and> map_of (cat_entries cat') (ct_name d) = Some src \<and>
          src_schema src = md_schema (declared_metadata d) \<and> src_constraints src = ct_constraints d \<and>
          (\<exists>h. V h = None \<and> catalog_defs cat' = (catalog_defs cat)(ct_name d \<mapsto>
              (md_schema (declared_metadata d), ct_constraints d, h))) \<and>
          heap_map V' (cat_heaps cat' ! src_heap src) = Map.empty
      | Inl e \<Rightarrow> catalog_defs cat' = catalog_defs cat \<and>
          (e = TableExists (ct_name d) \<and> catalog_defs cat (ct_name d) \<noteq> None \<or>
           (\<exists>msg. e = InvalidMetadata msg \<and> encode (declared_metadata d) = Inl msg) \<or>
           (\<exists>h. e = Heap h \<and> infra h) \<or> e = CatalogPoisoned \<and> cat_poisoned cat))"

lemma catalog_untouched:
  assumes st: "stores V t ms" and op: "opened V ms entries heaps" and u: "untouched [] V V'"
  shows "stores V' t ms" "opened V' ms entries heaps"
proof -
  have "heap_ok V t" using st by (simp add: stores_def)
  from heap_ok_untouched [OF this u] st show "stores V' t ms" by (intro stores_cong [OF st]) auto
  show "opened V' ms entries heaps"
  proof (rule opened_cong [OF op])
    fix i assume "i < length ms"
    with op have "heap_ok V (heaps ! i)" by (simp add: opened_def)
    from heap_ok_untouched(1) [OF this u] show "heap_ok V' (heaps ! i)" by simp
  qed
qed

text \<open>Writing to the metadata heap leaves the table heaps alone.\<close>

lemma opened_insert:
  assumes st: "stores V t ms" and op: "opened V ms entries heaps" and u: "untouched (ht_pages t) V V'"
  shows "opened V' ms entries heaps"
proof (rule opened_cong [OF op])
  fix i assume i: "i < length ms"
  with op have h: "heap_ok V (heaps ! i)" "ht_head (heaps ! i) = md_head (ms ! i)" by (simp_all add: opened_def)
  have "ht_head t \<noteq> ht_head (heaps ! i)" using st i h(2) by (auto simp: stores_def)
  with st heaps_disjoint [OF _ h(1)] have "set (ht_pages t) \<inter> set (ht_pages (heaps ! i)) = {}" by (simp add: stores_def)
  from heap_ok_untouched(1) [OF h(1) u this] show "heap_ok V' (heaps ! i)" .
qed

lemma stores_insert:
  assumes st: "stores V t ms" and op: "opened V ms entries heaps"
    and ins: "inserted (enc_fields m) t V (Inr c) t' V'"
    and m: "metadata_ok m" "encode m = Inr (enc_fields m)"
    and new: "ts_name (md_schema m) \<notin> set (map (ts_name \<circ> md_schema) ms)"
    and head: "md_head m \<notin> set (ht_head t # map md_head ms)"
  shows "stores V' t' (ms @ [m])"
proof -
  from ins have "heap_ok V' t'" "ht_head t' = ht_head t" by (simp_all add: inserted_def)
  with st m new head heap_rows_insert [OF ins] show ?thesis by (auto simp: stores_def)
qed

lemma heap_op_run: "m s = (r, s') \<Longrightarrow> heap_op m s = (map_err Heap r, s')"
  by (simp add: heap_op_def)

context page_store
begin

lemma publish_table_result:
  assumes inv: "pinv H s" and ok: "catalog_ok (view s) cat" and d: "decl_ok d"
    and r: "publish_table ops vs d cat s = (r, (cat', s'))"
  shows "pinv H s' \<and> created_table d cat (view s) r cat' (view s')"
proof -
  from ok obtain ms where st: "stores (view s) (cat_metadata cat) ms"
    and op: "opened (view s) ms (cat_entries cat) (cat_heaps cat)" by (auto simp: catalog_ok_def)
  let ?m = "declared_metadata d"
  have name: "ts_name (md_schema ?m) = ct_name d" "md_constraints ?m = ct_constraints d" by (simp_all add: declared_metadata_def)
  show ?thesis
  proof (cases "map_of (cat_entries cat) (ct_name d)")
    case (Some src)
    then have "r = Inl (TableExists (ct_name d))" "cat' = cat" "s' = s"
      using r by (simp_all add: publish_table_def)
    with Some inv ok show ?thesis by (simp add: created_table_def catalog_defs_def)
  next
    case None
    note fresh = entries_fresh [OF op None]
    show ?thesis
    proof (cases "encode ?m")
      case (Inl msg)
      then have "r = Inl (InvalidMetadata msg)" "cat' = cat" "s' = s"
        using r None by (simp_all add: publish_table_def)
      with Inl inv ok show ?thesis by (simp add: created_table_def)
    next
      case enc: (Inr out)
      obtain q s1 where q: "heap_create ops vs s = (q, s1)" by fastforce
      note kp = heap_create_keeps [OF inv q]
      then have inv1: "pinv H s1" and u1: "untouched [] (view s) (view s1)" by simp_all
      note st1 = catalog_untouched(1) [OF st op u1] and op1 = catalog_untouched(2) [OF st op u1]
      show ?thesis
      proof (cases q)
        case (Inl e)
        then have "r = Inl (Heap e)" "cat' = cat" "s' = s1"
          using r None enc heap_op_run [of "heap_create ops vs" s, OF q] by (simp_all add: publish_table_def)
        with Inl kp st1 op1 show ?thesis by (auto simp: created_table_def catalog_ok_def)
      next
        case (Inr heap)
        from heap_create_result [OF inv] q Inr have hp: "heap_ok (view s1) heap" "heap_map (view s1) heap = (\<lambda>_. None)"
          "view s (ht_head heap) = None" "ht_pages heap = [ht_head heap]" by simp_all
        let ?m1 = "?m\<lparr>md_head := ht_head heap\<rparr>" and ?t = "cat_metadata cat"
        note enc1 = encode_head [OF enc, of "ht_head heap"]
        obtain w t2 s2 where w: "heap_insert ops vs (enc_fields ?m1) (?t, s1) = (w, (t2, s2))" by (metis surj_pair)
        have tok: "heap_ok (view s1) ?t" using st1 by (simp add: stores_def)
        note ins = heap_insert_result [OF inv1 tok w]
        then have inv2: "pinv H s2" and I: "inserted (enc_fields ?m1) ?t (view s1) w t2 (view s2)" by simp_all
        then have u2: "untouched (ht_pages ?t) (view s1) (view s2)" by (simp add: inserted_def)
        note op2 = opened_insert [OF st1 op1 u2]
        show ?thesis
        proof (cases w)
          case err: (Inl e)
          have "r = Inl (Heap e)" "cat' = cat\<lparr>cat_metadata := t2\<rparr>" "s' = s2"
            using r None enc heap_op_run [of "heap_create ops vs" s, OF q] enc1 heap_op_run [of "heap_insert ops vs (enc_fields ?m1)" "(?t, s1)", OF w] Inr err
            by (simp_all add: publish_table_def Let_def)
          moreover have "infra e" using ins err enc1 enc_fields_nonempty by (auto simp: encode_Inr)
          moreover have "heap_ok (view s2) t2" "chain_slots (view s2) t2 = chain_slots (view s1) ?t" "ht_head t2 = ht_head ?t"
            using I err same_heap_simps [of ?t t2] by (auto simp: inserted_def)
          from stores_cong [OF st1 this] have "stores (view s2) t2 ms" .
          ultimately show ?thesis using op2 inv2
            by (auto simp: created_table_def catalog_ok_def catalog_defs_def)
        next
          case linked: (Inr c)
          let ?src = "snd (source_of (length (cat_heaps cat)) ?m1)"
          have res: "r = Inr ?src" "s' = s2" "cat' = cat\<lparr>cat_metadata := t2, cat_heaps := cat_heaps cat @ [heap],
              cat_entries := AList.update (ct_name d) ?src (cat_entries cat)\<rparr>"
            using r None enc heap_op_run [of "heap_create ops vs" s, OF q] enc1 heap_op_run [of "heap_insert ops vs (enc_fields ?m1)" "(?t, s1)", OF w] Inr linked name
            by (simp_all add: publish_table_def Let_def source_of_def)
          have root: "view s (ht_head ?t) \<noteq> None"
            using heap_head_exists [of "view s" ?t] st unfolding stores_def by blast
          have "view s (md_head (ms ! i)) \<noteq> None" if "i < length ms" for i
            using op that heap_head_exists unfolding opened_def by metis
          then have "\<forall>m \<in> set ms. view s (md_head m) \<noteq> None" by (metis in_set_conv_nth)
          then have "md_head m \<noteq> ht_head heap" if "m \<in> set ms" for m using that hp(3) by metis
          then have head: "md_head ?m1 \<notin> set (ht_head ?t # map md_head ms)" using root hp(3) by force
          have nn: "ts_name (md_schema ?m1) \<notin> set (map (ts_name \<circ> md_schema) ms)" using fresh name by simp
          have st2: "stores (view s2) t2 (ms @ [?m1])"
            using stores_insert [OF st1 op1 I [unfolded linked] declared_ok [OF d] enc1 nn head] .
          have "heap_ok (view s) ?t" using st by (simp add: stores_def)
          from heap_pages_exist [OF this, of "ht_head heap"] hp(3) have "ht_head heap \<notin> set (ht_pages ?t)" by auto
          then have "set (ht_pages ?t) \<inter> set (ht_pages heap) = {}" by (simp add: hp(4))
          from heap_ok_untouched [OF hp(1) u2 this] have h2: "heap_ok (view s2) heap" "heap_map (view s2) heap = (\<lambda>_. None)"
            using hp(2) by simp_all
          have len: "length (cat_heaps cat) = length ms" using op by (simp add: opened_def)
          have op3: "opened (view s2) (ms @ [?m1]) (cat_entries cat') (cat_heaps cat')"
            using opened_snoc [OF op2 nn h2(1)] name by (simp add: res(3) source_of_def)
          have "catalog_ok (view s2) cat'" using st2 op3 by (auto simp: catalog_ok_def res(3))
          moreover have "catalog_defs cat' = (catalog_defs cat)(ct_name d \<mapsto> (md_schema ?m, ct_constraints d, ht_head heap))"
            unfolding opened_defs [OF op3] opened_defs [OF op] defs_of_snoc [OF nn] by (simp add: name)
          moreover have "catalog_defs cat (ct_name d) = None" using None by (simp add: catalog_defs_def)
          moreover have "map_of (cat_entries cat') (ct_name d) = Some ?src" by (simp add: res(3) update_conv')
          moreover have "cat_heaps cat' ! src_heap ?src = heap" by (simp add: res(3) source_of_def)
          ultimately show ?thesis using res(1,2) inv2 h2(2) hp(3) name
            by (auto simp: created_table_def source_of_def)
        qed
      qed
    qed
  qed
qed

end

section \<open>Opening\<close>

text \<open>What reopening needs of the records not yet read.\<close>

definition readable :: "(u32 \<Rightarrow> page option) \<Rightarrow> u32 \<Rightarrow> metadata list \<Rightarrow> metadata list \<Rightarrow> bool" where
  "readable V root ms ms' \<longleftrightarrow> (\<forall>m \<in> set ms'. metadata_ok m \<and> encode m = Inr (enc_fields m)) \<and>
     distinct (map (ts_name \<circ> md_schema) (ms @ ms')) \<and> distinct (root # map md_head (ms @ ms'))"

lemma decode_record:
  assumes "decode bytes = Inr m" "length bytes \<le> MAX_TUPLE_SIZE"
  shows "bytes = enc_fields m \<and> metadata_ok m \<and> encode m = Inr (enc_fields m)"
proof -
  from assms(1) have f: "fst (decode_fields bytes) = Inr m" and v: "validate m = Inr ()" by (simp_all add: decode_Inr)
  from f obtain r' where "decode_fields bytes = (Inr m, r')" by (metis prod.collapse)
  from decode_fields_parses [OF this] v assms(2) show ?thesis by (auto simp: encode_Inr)
qed

lemma decode_enc: "metadata_ok m \<Longrightarrow> encode m = Inr (enc_fields m) \<Longrightarrow> decode (enc_fields m) = Inr m"
  using decode_fields_enc [of m "enc_fields m"] by (auto simp: decode_Inr encode_Inr)

lemma decode_Inl_enc:
  assumes "map snd ((c, b) # rs) = map enc_fields ms'" "readable V root ms ms'"
  obtains m ms'' where "ms' = m # ms''" "decode b = Inr m" "b = enc_fields m" "map snd rs = map enc_fields ms''"
    "readable V root (ms @ [m]) ms''"
proof -
  from assms(1) obtain m ms'' where m: "ms' = m # ms''" "b = enc_fields m" "map snd rs = map enc_fields ms''"
    by (cases ms') auto
  with assms(2) have "decode b = Inr m" by (auto simp: readable_def intro: decode_enc)
  with m assms(2) show thesis by (intro that [of m ms'']) (auto simp: readable_def)
qed

definition reopened :: "(u32 \<Rightarrow> page option) \<Rightarrow> u32 \<Rightarrow> catalog_error + heap_catalog \<Rightarrow> bool" where
  "reopened V root r \<longleftrightarrow>
     (case r of
        Inr cat \<Rightarrow> catalog_ok V cat \<and> ht_head (cat_metadata cat) = root \<and> \<not> cat_poisoned cat
      | Inl e \<Rightarrow> (\<forall>cat. catalog_ok V cat \<longrightarrow> ht_head (cat_metadata cat) = root \<longrightarrow> (\<exists>h. e = Heap h \<and> infra h)))"

lemma stores_rows:
  assumes ok: "heap_ok V t" and c: "catalog_ok V cat" "ht_head (cat_metadata cat) = ht_head t"
  obtains ms where "map snd (heap_rows V t) = MANIFEST # map enc_fields ms" "readable V (ht_head t) [] ms"
    "\<forall>m \<in> set ms. \<exists>u. heap_ok V u \<and> ht_head u = md_head m"
proof -
  from c obtain ms where ms: "stores V (cat_metadata cat) ms" "opened V ms (cat_entries cat) (cat_heaps cat)"
    by (auto simp: catalog_ok_def)
  from ms(1) have "heap_ok V (cat_metadata cat)" by (simp add: stores_def)
  from heap_ok_unique [OF ok this] c(2) have "ht_pages t = ht_pages (cat_metadata cat)" by simp
  then have "heap_rows V t = heap_rows V (cat_metadata cat)" by (simp add: heap_rows_def)
  with ms(1) have "map snd (heap_rows V t) = MANIFEST # map enc_fields ms" by (simp add: stores_def)
  moreover have "readable V (ht_head t) [] ms" using ms(1) c(2) by (simp add: stores_def readable_def)
  moreover have "\<forall>m \<in> set ms. \<exists>u. heap_ok V u \<and> ht_head u = md_head m"
    using ms(2) unfolding opened_def by (metis in_set_conv_nth)
  ultimately show thesis by (rule that)
qed

context page_store
begin

lemma heap_open_result:
  assumes inv: "pinv H s" and r: "heap_open ops vs head s = (r, s')"
  shows "pinv H s' \<and> view s' = view s \<and>
    (case r of Inr t \<Rightarrow> ht_head t = head \<and> heap_ok (view s) t
     | Inl e \<Rightarrow> (\<exists>u. heap_ok (view s) u \<and> ht_head u = head) \<longrightarrow> infra e)"
proof (cases r)
  case (Inr t)
  with heap_open_sound [OF inv] r show ?thesis by simp
next
  case (Inl e)
  have w: "walk_ok (view s) head (Some head) [] []" by (simp add: walk_ok_def index_ok_def)
  from r Inl have "heap_open_chain ops vs head (Some head) [] [] s = (Inl e, s')"
    unfolding heap_open_def by (cases rule: io_thenE) (auto split: prod.splits)
  from heap_open_chain_sound [OF inv w this] have "pinv H s' \<and> view s' = view s" by simp
  moreover have "infra e" if "heap_ok (view s) u" "ht_head u = head" for u
    using heap_open_complete [OF inv that(1), unfolded that(2), OF r] Inl by auto
  ultimately show ?thesis using Inl by auto
qed

lemma open_records_result:
  assumes "pinv H s" "heap_ok (view s) t" "scan_ok (view s) t sc" "\<not> hs_failed sc" "rest_rows (view s) sc = rows"
    and "opened (view s) ms entries heaps" "set roots = insert root (md_head ` set ms)" "readable (view s) root ms []"
    and "\<forall>row \<in> set rows. length (snd row) \<le> MAX_TUPLE_SIZE"
    and "open_records ops vs sc entries heaps roots (t, s) = (r, (t', s'))"
  shows "pinv H s' \<and> view s' = view s \<and> same_heap t t' \<and>
    (case r of
       Inr (entries', heaps') \<Rightarrow> \<exists>ms'. map snd rows = map enc_fields ms' \<and> readable (view s) root ms ms' \<and>
         opened (view s) (ms @ ms') entries' heaps'
     | Inl e \<Rightarrow> (\<exists>ms'. map snd rows = map enc_fields ms' \<and> readable (view s) root ms ms' \<and>
           (\<forall>m \<in> set ms'. \<exists>u. heap_ok (view s) u \<and> ht_head u = md_head m)) \<longrightarrow>
         (\<exists>h. e = Heap h \<and> infra h))"
  using assms
proof (induction rows arbitrary: sc t s ms entries heaps roots)
  case Nil
  obtain q sc1 t1 s1 where q: "scan_next ops vs sc (t, s) = ((q, sc1), (t1, s1))" by (metis surj_pair)
  note nx = scan_next_result [OF Nil.prems(1-3) q]
  have "q = None \<or> (\<exists>e. q = Some (Inl e) \<and> infra e)"
    using nx Nil.prems(4,5) by (auto split: option.splits sum.splits)
  then show ?case
  proof
    assume "q = None"
    then have "r = Inr (entries, heaps)" "t' = t1" "s' = s1"
      using Nil.prems(10) q by (simp_all add: open_records.simps [of _ _ sc])
    with nx Nil.prems(6,8) show ?thesis by auto
  next
    assume "\<exists>e. q = Some (Inl e) \<and> infra e"
    then obtain e where e: "q = Some (Inl e)" "infra e" by blast
    then have "r = Inl (Heap e)" "t' = t1" "s' = s1"
      using Nil.prems(10) q by (simp_all add: open_records.simps [of _ _ sc])
    with nx e show ?thesis by auto
  qed
next
  case (Cons row rows)
  obtain c b where row: "row = (c, b)" by fastforce
  obtain q sc1 t1 s1 where q: "scan_next ops vs sc (t, s) = ((q, sc1), (t1, s1))" by (metis surj_pair)
  note nx = scan_next_result [OF Cons.prems(1-3) q]
  then have v1: "view s1 = view s" and inv1: "pinv H s1" and same1: "same_heap t t1" and sc1: "scan_ok (view s) t sc1" by simp_all
  have t1: "heap_ok (view s1) t1" "scan_ok (view s1) t1 sc1"
    using same_heap_simps [OF same1] Cons.prems(2) sc1 v1 by (simp_all add: scan_ok_def)
  have "(q = Some (Inr row) \<and> rest_rows (view s) sc1 = rows \<and> \<not> hs_failed sc1) \<or> (\<exists>e. q = Some (Inl e) \<and> infra e)"
    using nx Cons.prems(4,5) by (auto split: option.splits sum.splits)
  then show ?case
  proof
    assume "\<exists>e. q = Some (Inl e) \<and> infra e"
    then obtain e where e: "q = Some (Inl e)" "infra e" by blast
    then have "r = Inl (Heap e)" "t' = t1" "s' = s1"
      using Cons.prems(10) q by (simp_all add: open_records.simps [of _ _ sc])
    with nx e show ?thesis by auto
  next
    assume "q = Some (Inr row) \<and> rest_rows (view s) sc1 = rows \<and> \<not> hs_failed sc1"
    then have qr: "q = Some (Inr (c, b))" and rest: "rest_rows (view s1) sc1 = rows" and nf: "\<not> hs_failed sc1"
      using row v1 by simp_all
    have run: "(r, (t', s')) = (if b = MANIFEST then (Inl (Corruption ''duplicate manifest''), (t1, s1))
          else case decode b of
            Inl e \<Rightarrow> (Inl (Corruption e), (t1, s1))
          | Inr m \<Rightarrow>
              if map_of entries (ts_name (md_schema m)) \<noteq> None \<or> md_head m \<in> set roots
              then (Inl (Corruption ''duplicate table name or heap root''), (t1, s1))
              else case heap_op (heap_open ops vs (md_head m)) s1 of
                (Inl e, s) \<Rightarrow> (Inl e, (t1, s))
              | (Inr heap, s) \<Rightarrow>
                  open_records ops vs sc1
                    (AList.update (ts_name (md_schema m))
                      \<lparr>src_heap = length heaps, src_schema = md_schema m, src_constraints = md_constraints m\<rparr> entries)
                    (heaps @ [heap]) (md_head m # roots) (t1, s))"
      using Cons.prems(10) q qr by (simp add: open_records.simps [of _ _ sc])
    let ?good = "\<lambda>ms rows. \<exists>ms'. map snd rows = map enc_fields ms' \<and> readable (view s) root ms ms' \<and>
           (\<forall>m \<in> set ms'. \<exists>u. heap_ok (view s) u \<and> ht_head u = md_head m)"
    have good: "\<exists>m. decode b = Inr m \<and> b \<noteq> MANIFEST \<and> map_of entries (ts_name (md_schema m)) = None \<and>
        md_head m \<notin> set roots \<and> (\<exists>u. heap_ok (view s) u \<and> ht_head u = md_head m) \<and> ?good (ms @ [m]) rows"
      if g: "?good ms (row # rows)"
    proof -
      from g obtain ms' where ms': "map snd ((c, b) # rows) = map enc_fields ms'" "readable (view s) root ms ms'"
        "\<forall>m \<in> set ms'. \<exists>u. heap_ok (view s) u \<and> ht_head u = md_head m" unfolding row by blast
      from decode_Inl_enc [OF ms'(1,2)] obtain m ms'' where m: "ms' = m # ms''" "decode b = Inr m" "b = enc_fields m"
        "map snd rows = map enc_fields ms''" "readable (view s) root (ms @ [m]) ms''" by blast
      have "ts_name (md_schema m) \<notin> set (map (ts_name \<circ> md_schema) ms)" "md_head m \<notin> set roots"
        using m(5) Cons.prems(7) by (auto simp: readable_def)
      with opened_names [OF Cons.prems(6)] have "map_of entries (ts_name (md_schema m)) = None" by metis
      with m ms'(3) \<open>md_head m \<notin> set roots\<close> enc_fields_nonempty show ?thesis by auto
    qed
    have stop: ?case if "r = Inl e" "t' = t1" "s' = s1" "\<not> ?good ms (row # rows)" for e
      unfolding that(1-3) v1 sum.case using that(4) inv1 same1 by blast
    show ?case
    proof (cases "\<exists>m. decode b = Inr m \<and> b \<noteq> MANIFEST \<and> map_of entries (ts_name (md_schema m)) = None \<and> md_head m \<notin> set roots")
      case False
      then have "\<exists>e. r = Inl e" "t' = t1" "s' = s1" using run by (auto split: if_splits sum.splits)
      moreover have "\<not> ?good ms (row # rows)" using good False by blast
      ultimately show ?thesis using stop by blast
    next
      case True
      then obtain m where m: "decode b = Inr m" "b \<noteq> MANIFEST" "map_of entries (ts_name (md_schema m)) = None" "md_head m \<notin> set roots"
        by blast
      have size: "length b \<le> MAX_TUPLE_SIZE" using Cons.prems(9) row by simp
      note rec = decode_record [OF m(1) size]
      obtain w s2 where w: "heap_open ops vs (md_head m) s1 = (w, s2)" by fastforce
      note ho = heap_open_result [OF inv1 w, unfolded v1]
      note hop = heap_op_run [of "heap_open ops vs (md_head m)" s1, OF w]
      show ?thesis
      proof (cases w)
        case (Inl e)
        then have "r = Inl (Heap e)" "t' = t1" "s' = s2" using run m hop by simp_all
        moreover have "infra e" if "?good ms (row # rows)" using good [OF that] m(1) ho Inl by auto
        ultimately show ?thesis using ho same1 by auto
      next
        case (Inr heap)
        let ?e = "AList.update (fst (source_of (length heaps) m)) (snd (source_of (length heaps) m)) entries"
        have loop: "open_records ops vs sc1 ?e (heaps @ [heap]) (md_head m # roots) (t1, s2) = (r, (t', s'))"
          using run m hop Inr by (simp add: source_of_def)
        have v2: "view s2 = view s" and inv2: "pinv H s2" and hk: "heap_ok (view s) heap" "ht_head heap = md_head m"
          using ho Inr by simp_all
        have nn: "ts_name (md_schema m) \<notin> set (map (ts_name \<circ> md_schema) ms)" by (rule entries_fresh [OF Cons.prems(6) m(3)])
        have op: "opened (view s2) (ms @ [m]) ?e (heaps @ [heap])"
          unfolding v2 by (rule opened_snoc [OF Cons.prems(6) nn hk])
        have rd: "readable (view s2) root (ms @ [m]) []"
          using Cons.prems(7,8) nn m(4) by (auto simp: readable_def)
        have rt: "set (md_head m # roots) = insert root (md_head ` set (ms @ [m]))" using Cons.prems(7) by auto
        have rr: "rest_rows (view s2) sc1 = rows" using rest v1 v2 by simp
        have ts: "heap_ok (view s2) t1" "scan_ok (view s2) t1 sc1" using t1 v1 v2 by simp_all
        have sz: "\<forall>row \<in> set rows. length (snd row) \<le> MAX_TUPLE_SIZE" using Cons.prems(9) by simp
        note IH = Cons.IH [OF inv2 ts nf rr op rt rd sz loop, unfolded v2]
        show ?thesis
        proof (cases r)
          case err: (Inl e)
          have "?good (ms @ [m]) rows" if "?good ms (row # rows)" using good [OF that] m(1) by auto
          with IH err same1 show ?thesis by (auto simp: same_heap_def)
        next
          case ok: (Inr eh)
          obtain entries' heaps' where eh: "eh = (entries', heaps')" by fastforce
          from IH ok eh obtain ms' where ms': "map snd rows = map enc_fields ms'" "readable (view s) root (ms @ [m]) ms'"
            "opened (view s) ((ms @ [m]) @ ms') entries' heaps'" by auto
          have "map snd (row # rows) = map enc_fields (m # ms')" using ms'(1) rec row by simp
          moreover have "readable (view s) root ms (m # ms')" using ms'(2) rec by (auto simp: readable_def)
          moreover have "opened (view s) (ms @ m # ms') entries' heaps'" using ms'(3) by simp
          moreover have "pinv H s'" "view s' = view s" "same_heap t t'"
            using IH same1 by (auto simp: same_heap_def)
          ultimately show ?thesis unfolding ok eh sum.case prod.case by blast
        qed
      qed
    qed
  qed
qed

text \<open>Reading the manifest, then the definitions.\<close>

lemma first_record:
  assumes inv: "pinv H s" and ok: "heap_ok (view s) t" and so: "scan_ok (view s) t sc" and nf: "\<not> hs_failed sc"
    and rows: "rest_rows (view s) sc = heap_rows (view s) t"
    and r: "(r, s') = (case scan_next ops vs sc (t, s) of
            ((Some (Inl e), _), (metadata, s)) \<Rightarrow> (Inl (Heap e), s)
          | ((first, records), st) \<Rightarrow>
              if (case first of Some (Inr (_, bytes)) \<Rightarrow> bytes \<noteq> MANIFEST | _ \<Rightarrow> True)
              then (Inl (Corruption ''missing catalog manifest''), snd st)
              else case open_records ops vs records [] [] [ht_head t] st of
                (Inl e, (metadata, s)) \<Rightarrow> (Inl e, s)
              | (Inr (entries, heaps), (metadata, s)) \<Rightarrow>
                  (Inr \<lparr>cat_metadata = metadata, cat_entries = entries, cat_heaps = heaps, cat_poisoned = False\<rparr>, s))"
  shows "pinv H s' \<and> view s' = view s \<and> reopened (view s) (ht_head t) r"
proof -
  obtain q sc1 t1 s1 where q: "scan_next ops vs sc (t, s) = ((q, sc1), (t1, s1))" by (metis surj_pair)
  note nx = scan_next_result [OF inv ok so q]
  then have v1: "view s1 = view s" and inv1: "pinv H s1" and same1: "same_heap t t1" and sc1: "scan_ok (view s) t sc1" by simp_all
  note sh = same_heap_simps [OF same1]
  have t1: "heap_ok (view s1) t1" "scan_ok (view s1) t1 sc1" using sh ok sc1 v1 by (simp_all add: scan_ok_def)
  show ?thesis
  proof (cases "\<exists>c. q = Some (Inr (c, MANIFEST))")
    case False
    have "(r, s') = (case q of Some (Inl e) \<Rightarrow> Inl (Heap e) | _ \<Rightarrow> Inl (Corruption ''missing catalog manifest''), s1)"
    proof (cases q)
      case None
      with r q show ?thesis by simp
    next
      case (Some x)
      show ?thesis
      proof (cases x)
        case (Inl e)
        with r q Some show ?thesis by simp
      next
        case (Inr row)
        obtain c b where row: "row = (c, b)" by fastforce
        with False Some Inr have "b \<noteq> MANIFEST" by simp
        with r q Some Inr row show ?thesis by simp
      qed
    qed
    then have "s' = s1" "r = (case q of Some (Inl e) \<Rightarrow> Inl (Heap e) | _ \<Rightarrow> Inl (Corruption ''missing catalog manifest''))"
      by simp_all
    moreover have "\<exists>e. q = Some (Inl e) \<and> infra e" if co: "catalog_ok (view s) cat" "ht_head (cat_metadata cat) = ht_head t" for cat
    proof -
      obtain ms where "map snd (heap_rows (view s) t) = MANIFEST # map enc_fields ms" by (rule stores_rows [OF ok co])
      then obtain c rs where "heap_rows (view s) t = (c, MANIFEST) # rs" by (cases "heap_rows (view s) t") auto
      with nx nf rows False show ?thesis by (auto split: option.splits sum.splits)
    qed
    ultimately show ?thesis using inv1 v1 by (fastforce simp: reopened_def split: option.splits sum.splits)
  next
    case True
    then obtain c where c: "q = Some (Inr (c, MANIFEST))" by blast
    obtain w t2 s2 where w: "open_records ops vs sc1 [] [] [ht_head t] (t1, s1) = (w, (t2, s2))" by (metis surj_pair)
    have hr: "heap_rows (view s) t = (c, MANIFEST) # rest_rows (view s) sc1" and nf1: "\<not> hs_failed sc1"
      using nx nf rows c by auto
    have op: "opened (view s1) [] [] []" by (simp add: opened_def)
    have rd: "readable (view s1) (ht_head t) [] []" by (simp add: readable_def)
    have "length (snd row) \<le> MAX_TUPLE_SIZE" if "row \<in> set (heap_rows (view s) t)" for row
      using heap_rows_size [OF ok, of "fst row" "snd row"] that by simp
    then have sz: "\<forall>row \<in> set (rest_rows (view s1) sc1). length (snd row) \<le> MAX_TUPLE_SIZE" using hr v1 by simp
    have rt: "set [ht_head t] = insert (ht_head t) (md_head ` set [])" by simp
    note or = open_records_result [OF inv1 t1 nf1 refl op rt rd sz w, unfolded v1]
    show ?thesis
    proof (cases w)
      case (Inl e)
      then have "r = Inl e" "s' = s2" using r q c w by simp_all
      moreover have "\<exists>h. e = Heap h \<and> infra h" if co: "catalog_ok (view s) cat" "ht_head (cat_metadata cat) = ht_head t" for cat
      proof -
        obtain ms where "map snd (heap_rows (view s) t) = MANIFEST # map enc_fields ms"
          "readable (view s) (ht_head t) [] ms" "\<forall>m \<in> set ms. \<exists>u. heap_ok (view s) u \<and> ht_head u = md_head m"
          by (rule stores_rows [OF ok co])
        with or Inl hr show ?thesis by auto
      qed
      ultimately show ?thesis using or by (simp add: reopened_def)
    next
      case (Inr eh)
      obtain entries heaps where eh: "eh = (entries, heaps)" by fastforce
      then have "r = Inr \<lparr>cat_metadata = t2, cat_entries = entries, cat_heaps = heaps, cat_poisoned = False\<rparr>" "s' = s2"
        using r q c w Inr by simp_all
      moreover from or Inr eh obtain ms where ms: "map snd (rest_rows (view s) sc1) = map enc_fields ms"
        "readable (view s) (ht_head t) [] ms" "opened (view s) ms entries heaps" by auto
      moreover have t2: "heap_ok (view s) t2" "ht_head t2 = ht_head t" "heap_rows (view s) t2 = heap_rows (view s) t"
        using or same_heap_simps [of t1 t2] sh ok by (auto simp: heap_rows_def)
      moreover have "stores (view s) t2 ms" using ms(1,2) t2 hr by (auto simp: stores_def readable_def)
      ultimately show ?thesis using or by (auto simp: reopened_def catalog_ok_def)
    qed
  qed
qed

lemma catalog_open_result:
  assumes inv: "pinv H s" and r: "catalog_open ops vs root s = (r, s')"
  shows "pinv H s' \<and> view s' = view s \<and> reopened (view s) root r"
proof -
  obtain w s1 where w: "heap_open ops vs root s = (w, s1)" by fastforce
  note ho = heap_open_result [OF inv w] and hop = heap_op_run [of "heap_open ops vs root" s, OF w]
  show ?thesis
  proof (cases w)
    case (Inl e)
    then have "r = Inl (Heap e)" "s' = s1" using r hop by (simp_all add: catalog_open_def io_then_def)
    with ho Inl show ?thesis by (fastforce simp: reopened_def catalog_ok_def stores_def)
  next
    case (Inr t)
    with ho have inv1: "pinv H s1" and v1: "view s1 = view s" and t: "heap_ok (view s) t" "ht_head t = root" by simp_all
    obtain q t2 s2 where q: "heap_scan_start ops vs (t, s1) = (q, (t2, s2))" by (metis surj_pair)
    from heap_scan_start_result [OF inv1 _ q] v1 t(1)
    have qt: "quiet H t s1 t2 s2" and qq: "(\<exists>e. q = Inl e \<and> infra e) \<or>
      (\<exists>sc. q = Inr sc \<and> scan_ok (view s) t sc \<and> \<not> hs_failed sc \<and> rest_rows (view s) sc = heap_rows (view s) t)" by simp_all
    have inv2: "pinv H s2" and v2: "view s2 = view s" and t2: "same_heap t t2" using qt v1 by (simp_all add: quiet_def)
    note hsc = heap_op_run [of "heap_scan_start ops vs" "(t, s1)", OF q]
    from qq show ?thesis
    proof
      assume "\<exists>e. q = Inl e \<and> infra e"
      then obtain e where "q = Inl e" "infra e" by blast
      then have "r = Inl (Heap e)" "s' = s2" "infra e" using r hop hsc Inr by (simp_all add: catalog_open_def)
      with inv2 v2 show ?thesis by (simp add: reopened_def)
    next
      assume "\<exists>sc. q = Inr sc \<and> scan_ok (view s) t sc \<and> \<not> hs_failed sc \<and> rest_rows (view s) sc = heap_rows (view s) t"
      then obtain sc where sc: "q = Inr sc" "scan_ok (view s) t sc" "\<not> hs_failed sc" "rest_rows (view s) sc = heap_rows (view s) t" by blast
      have run: "catalog_open ops vs root s = (case scan_next ops vs sc (t2, s2) of
            ((Some (Inl e), _), (metadata, s)) \<Rightarrow> (Inl (Heap e), s)
          | ((first, records), st) \<Rightarrow>
              if (case first of Some (Inr (_, bytes)) \<Rightarrow> bytes \<noteq> MANIFEST | _ \<Rightarrow> True)
              then (Inl (Corruption ''missing catalog manifest''), snd st)
              else case open_records ops vs records [] [] [root] st of
                (Inl e, (metadata, s)) \<Rightarrow> (Inl e, s)
              | (Inr (entries, heaps), (metadata, s)) \<Rightarrow>
                  (Inr \<lparr>cat_metadata = metadata, cat_entries = entries, cat_heaps = heaps, cat_poisoned = False\<rparr>, s))"
        using hop hsc Inr sc(1) by (simp add: catalog_open_def)
      have ok2: "heap_ok (view s2) t2" "scan_ok (view s2) t2 sc" and h2: "ht_head t2 = root" "heap_rows (view s) t2 = heap_rows (view s) t"
        using t t2 v2 sc(2) same_heap_simps [OF t2] by (simp_all add: scan_ok_def heap_rows_def)
      show ?thesis
        using first_record [OF inv2 ok2 sc(3) _ run [unfolded r, folded h2(1)]] sc(4) v2 h2 by simp
    qed
  qed
qed

lemma catalog_create_result:
  assumes inv: "pinv H s" and r: "catalog_create ops vs s = (Inr cat, s')"
  shows "pinv H s' \<and> catalog_ok (view s') cat \<and> catalog_defs cat = Map.empty \<and> \<not> cat_poisoned cat \<and>
    view s (ht_head (cat_metadata cat)) = None"
proof -
  obtain w s1 where w: "heap_create ops vs s = (w, s1)" by fastforce
  obtain t where t: "w = Inr t" using r heap_op_run [of "heap_create ops vs" s, OF w] by (cases w) (auto simp: catalog_create_def)
  obtain q t1 s2 where q: "heap_insert ops vs MANIFEST (t, s1) = (q, (t1, s2))" by (metis surj_pair)
  note hc = heap_create_result [OF inv w [unfolded t]]
  then have inv1: "pinv H s1" and ok1: "heap_ok (view s1) t" by simp_all
  note hop = heap_op_run [of "heap_create ops vs" s, OF w] heap_op_run [of "heap_insert ops vs MANIFEST" "(t, s1)", OF q]
  from r hop t obtain c where c: "q = Inr c" and
    cat: "cat = \<lparr>cat_metadata = t1, cat_entries = [], cat_heaps = [], cat_poisoned = False\<rparr>" and s': "s' = s2"
    by (cases q) (simp_all add: catalog_create_def)
  from heap_insert_result [OF inv1 ok1 q] c have inv2: "pinv H s2" and I: "inserted MANIFEST t (view s1) (Inr c) t1 (view s2)" by simp_all
  have "heap_rows (view s1) t = []"
  proof -
    have "(c, b) \<notin> set (heap_rows (view s1) t)" for c b using heap_rows_map [OF ok1] hc by simp
    then show ?thesis by (metis list.set_intros(1) neq_Nil_conv surj_pair)
  qed
  with heap_rows_insert [OF I] I have "stores (view s2) t1 []" by (simp add: stores_def inserted_def)
  moreover have "opened (view s2) [] [] []" by (simp add: opened_def)
  ultimately have "catalog_ok (view s2) cat" by (auto simp: catalog_ok_def cat)
  moreover have "ht_head t1 = ht_head t" using I by (simp add: inserted_def)
  ultimately show ?thesis using hc inv2 by (simp add: cat s' catalog_defs_def fun_eq_iff)
qed

lemma create_table_result:
  assumes inv: "pinv H s" and ok: "catalog_ok (view s) cat" and d: "decl_ok d"
    and r: "catalog_create_table ops vs d (cat, s) = (r, (cat', s'))"
  shows "pinv H s' \<and> created_table d cat (view s) r cat' (view s')"
proof (cases "cat_poisoned cat")
  case True
  with r have "r = Inl CatalogPoisoned" "cat' = cat" "s' = s" by (simp_all add: catalog_create_table_def)
  with True inv ok show ?thesis by (simp add: created_table_def)
next
  case False
  obtain q cat1 s1 where q: "publish_table ops vs d cat s = (q, (cat1, s1))" by (metis surj_pair)
  note pt = publish_table_result [OF inv ok d q]
  show ?thesis
  proof (cases q)
    case (Inl e)
    let ?c = "if e = Heap (Buffer Panicked) then cat1\<lparr>cat_poisoned := True\<rparr> else cat1"
    have "r = Inl e" "cat' = ?c" "s' = s1" using r False q Inl by (simp_all add: catalog_create_table_def)
    moreover have "catalog_ok V ?c = catalog_ok V cat1" "catalog_defs ?c = catalog_defs cat1" for V
      by (simp_all add: catalog_ok_def catalog_defs_def fun_eq_iff)
    ultimately show ?thesis using pt Inl by (simp add: created_table_def)
  next
    case (Inr src)
    with r False q pt show ?thesis by (simp add: catalog_create_table_def)
  qed
qed

end

text \<open>A stored catalog determines its definitions.\<close>

lemma enc_fields_inj:
  assumes "map enc_fields ms = map enc_fields ms'" "\<forall>m \<in> set ms \<union> set ms'. metadata_ok m \<and> encode m = Inr (enc_fields m)"
  shows "ms = ms'"
  using assms
proof (induction ms arbitrary: ms')
  case (Cons m ms)
  then obtain m' ns where ms': "ms' = m' # ns" "enc_fields m = enc_fields m'" "map enc_fields ms = map enc_fields ns"
    by (cases ms') auto
  have "decode (enc_fields m) = Inr m" "decode (enc_fields m') = Inr m'"
    using Cons.prems(2) ms'(1) by (auto intro: decode_enc)
  with ms'(2) have "m = m'" by (metis sum.inject(2))
  moreover have "ms = ns" using Cons.prems(2) ms'(1) by (intro Cons.IH [OF ms'(3)]) auto
  ultimately show ?case by (simp add: ms'(1))
qed simp

lemma catalog_unique:
  assumes "catalog_ok V cat" "catalog_ok V cat'" "ht_head (cat_metadata cat) = ht_head (cat_metadata cat')"
  shows "catalog_defs cat = catalog_defs cat'"
proof -
  from assms(1,2) obtain ms ms' where st: "stores V (cat_metadata cat) ms" "stores V (cat_metadata cat') ms'"
    and op: "opened V ms (cat_entries cat) (cat_heaps cat)" "opened V ms' (cat_entries cat') (cat_heaps cat')"
    by (auto simp: catalog_ok_def)
  have "ht_pages (cat_metadata cat) = ht_pages (cat_metadata cat')"
    using heap_ok_unique [OF _ _ assms(3), of V] st by (simp add: stores_def)
  then have "heap_rows V (cat_metadata cat) = heap_rows V (cat_metadata cat')" by (simp add: heap_rows_def)
  with st have "map enc_fields ms = map enc_fields ms'" by (simp add: stores_def)
  with st have "ms = ms'" by (intro enc_fields_inj) (auto simp: stores_def)
  with op opened_defs show ?thesis by metis
qed

section \<open>Properties\<close>

lemma small_catalog:
  obtains cat s where "catalog_create memory_page_store clock_strategy small_pool = (Inr cat, s)"
    "pool_inv memory_wf memory_contents {#} s" "catalog_ok (pool_view memory_contents s) cat"
    "catalog_defs cat = Map.empty" "\<not> cat_poisoned cat" "pool_healthy clock_inv s"
proof -
  have m: "MANIFEST \<noteq> []" "length MANIFEST \<le> 100" by (simp_all add: MANIFEST_def)
  from small_heap_insert_any [OF m] obtain c t' s' where
    i: "heap_insert memory_page_store clock_strategy MANIFEST (small_heap, small_heap_pool) = (Inr c, (t', s'))"
    "pool_healthy clock_inv s'" by blast
  then have c: "catalog_create memory_page_store clock_strategy small_pool =
      (Inr \<lparr>cat_metadata = t', cat_entries = [], cat_heaps = [], cat_poisoned = False\<rparr>, s')"
    using small_heap_create by (simp add: catalog_create_def io_then_def heap_op_def)
  from mem.catalog_create_result [OF small_pool_inv c] i(2) show thesis by (intro that [OF c]) blast+
qed

text \<open>
  C4: \<^verbatim>\<open>create_table\<close> publishes exactly one definition. On success the name was free, and the
  catalog afterwards is the old one plus the declared schema and constraints on a fresh,
  empty heap whose pages no table had; on failure, whether the name is taken, the metadata
  invalid or too large, or the storage fails at any point, every definition is as it was. In
  both cases the stored records and the cached entries still agree, and an error says which
  of these happened.
\<close>

theorem create_table_correct:
  assumes "page_store so swf contents" "pool_inv swf contents H s" "catalog_ok (pool_view contents s) cat" "decl_ok d"
    and "catalog_create_table so vs d (cat, s) = (r, (cat', s'))"
  shows "pool_inv swf contents H s' \<and> catalog_ok (pool_view contents s') cat' \<and>
    (case r of
       Inr src \<Rightarrow> catalog_defs cat (ct_name d) = None \<and> map_of (cat_entries cat') (ct_name d) = Some src \<and>
         src_schema src = md_schema (declared_metadata d) \<and> src_constraints src = ct_constraints d \<and>
         (\<exists>h. pool_view contents s h = None \<and> catalog_defs cat' =
            (catalog_defs cat)(ct_name d \<mapsto> (md_schema (declared_metadata d), ct_constraints d, h))) \<and>
         heap_map (pool_view contents s') (cat_heaps cat' ! src_heap src) = Map.empty
     | Inl e \<Rightarrow> catalog_defs cat' = catalog_defs cat \<and>
         (e = TableExists (ct_name d) \<and> catalog_defs cat (ct_name d) \<noteq> None \<or>
          (\<exists>msg. e = InvalidMetadata msg \<and> encode (declared_metadata d) = Inl msg) \<or>
          (\<exists>h. e = Heap h \<and> infra h) \<or> e = CatalogPoisoned \<and> cat_poisoned cat))"
  using page_store.create_table_result [OF assms] by (simp only: created_table_def)

theorem create_table_correct_witness:
  "\<exists>cat s cat' s'. catalog_create memory_page_store clock_strategy small_pool = (Inr cat, s) \<and>
     catalog_create_table memory_page_store clock_strategy \<lparr>ct_name = ''t'', ct_columns = [], ct_constraints = []\<rparr> (cat, s) =
       (Inl (InvalidMetadata ''empty table name or column list''), (cat', s')) \<and> catalog_defs cat' = Map.empty"
proof -
  let ?d = "\<lparr>ct_name = ''t'', ct_columns = [], ct_constraints = []\<rparr>"
  obtain cat s where c: "catalog_create memory_page_store clock_strategy small_pool = (Inr cat, s)"
    "pool_inv memory_wf memory_contents {#} s" "catalog_ok (pool_view memory_contents s) cat"
    "catalog_defs cat = Map.empty" "\<not> cat_poisoned cat" by (rule small_catalog)
  obtain r cat' s' where r: "catalog_create_table memory_page_store clock_strategy ?d (cat, s) = (r, (cat', s'))" by (metis surj_pair)
  have n: "map_of (cat_entries cat) ''t'' = None" using fun_cong [OF c(4), of "''t''"] by (simp add: catalog_defs_def)
  have "encode (declared_metadata ?d) = Inl ''empty table name or column list''"
    by (simp add: encode_def validate_def declared_metadata_def)
  then have e: "r = Inl (InvalidMetadata ''empty table name or column list'')"
    using r c(5) n by (simp add: catalog_create_table_def publish_table_def)
  have "decl_ok ?d" by (simp add: decl_ok_def is_str_def byte_of_char_def)
  from create_table_correct [OF mem.page_store_axioms c(2,3) this r] e c(4) have "catalog_defs cat' = Map.empty" by simp
  with c(1) r e show ?thesis by blast
qed

text \<open>
  C6: Opening a catalog. Whatever the store holds, \<^verbatim>\<open>HeapCatalog::open\<close> terminates without
  changing a page, and a catalog it returns is consistent: its entries are exactly the
  decoded records behind the manifest, with distinct names and heap roots and every table
  heap opened. If a consistent catalog is rooted there, opening never reports corruption and
  finds the same definitions.
\<close>

theorem catalog_open_correct:
  assumes "page_store so swf contents" "pool_inv swf contents H s" "catalog_open so vs root s = (r, s')"
  shows "pool_inv swf contents H s' \<and> pool_view contents s' = pool_view contents s \<and>
    (case r of
       Inr cat \<Rightarrow> catalog_ok (pool_view contents s) cat \<and> ht_head (cat_metadata cat) = root \<and> \<not> cat_poisoned cat \<and>
         (\<forall>cat'. catalog_ok (pool_view contents s) cat' \<longrightarrow> ht_head (cat_metadata cat') = root \<longrightarrow>
            catalog_defs cat = catalog_defs cat')
     | Inl e \<Rightarrow> (\<forall>cat. catalog_ok (pool_view contents s) cat \<longrightarrow> ht_head (cat_metadata cat) = root \<longrightarrow>
         (\<exists>h. e = Heap h \<and> infra h)))"
proof -
  note c = page_store.catalog_open_result [OF assms]
  show ?thesis
  proof (cases r)
    case (Inr cat)
    with c have k: "catalog_ok (pool_view contents s) cat" "ht_head (cat_metadata cat) = root" "\<not> cat_poisoned cat"
      by (simp_all add: reopened_def)
    have "catalog_defs cat = catalog_defs cat'" if "catalog_ok (pool_view contents s) cat'" "ht_head (cat_metadata cat') = root" for cat'
      using catalog_unique [OF k(1) that(1)] k(2) that(2) by simp
    with c k Inr show ?thesis by simp
  qed (use c in \<open>simp add: reopened_def\<close>)
qed

theorem catalog_open_correct_witness:
  "\<exists>cat s. catalog_create memory_page_store clock_strategy small_pool = (Inr cat, s) \<and>
     (case fst (catalog_open memory_page_store clock_strategy (ht_head (cat_metadata cat)) s) of
        Inr cat' \<Rightarrow> catalog_defs cat' = Map.empty
      | Inl e \<Rightarrow> \<exists>h. e = Heap h \<and> infra h)"
proof -
  obtain cat s where c: "catalog_create memory_page_store clock_strategy small_pool = (Inr cat, s)"
    "pool_inv memory_wf memory_contents {#} s" "catalog_ok (pool_view memory_contents s) cat"
    "catalog_defs cat = Map.empty" "\<not> cat_poisoned cat" by (rule small_catalog)
  obtain r s' where r: "catalog_open memory_page_store clock_strategy (ht_head (cat_metadata cat)) s = (r, s')" by fastforce
  note o = catalog_open_correct [OF mem.page_store_axioms c(2) r]
  have "case r of Inr cat' \<Rightarrow> catalog_defs cat' = Map.empty | Inl e \<Rightarrow> \<exists>h. e = Heap h \<and> infra h"
  proof (cases r)
    case (Inl e)
    with o c(3) show ?thesis by simp
  next
    case (Inr cat')
    with o c(3) have "catalog_defs cat' = catalog_defs cat" by simp
    with Inr c(4) show ?thesis by simp
  qed
  moreover have "fst (catalog_open memory_page_store clock_strategy (ht_head (cat_metadata cat)) s) = r" by (simp add: r)
  ultimately show ?thesis by (intro exI [of _ cat] exI [of _ s] conjI c(1)) simp
qed

end
