(* ===== verification/SqlAst.thy ===== *)
theory SqlAst
  imports Schema
begin

text \<open>
  The unbound syntax tree, \<^verbatim>\<open>crates/parser/src/ast.rs\<close>: one constructor per variant, in the
  source's order. Structs that occur inside expressions are single-constructor datatypes over
  the expression type, so that the tree is one nested datatype. Borrowed and owned text
  (\<^verbatim>\<open>Cow<str>\<close>) are both strings: the difference is ownership only.
\<close>

section \<open>Operators and literals\<close>

datatype unary_op = OpNot | OpPlus | OpMinus

datatype binary_op =
  OpOr | OpAnd | OpEq | OpNotEq | OpLess | OpLessEq | OpGreater | OpGreaterEq |
  OpAdd | OpSubtract | OpMultiply | OpDivide | OpModulo

datatype literal = LitNumber string | LitString string | LitNull | LitBoolean bool

datatype sort_direction = Ascending | Descending

datatype null_order = NullsFirst | NullsLast

datatype frame_units = RowsUnits | RangeUnits

text \<open>Offsets of a frame bound keep their spelling, as \<^verbatim>\<open>&str\<close> does.\<close>

datatype frame_bound =
  UnboundedPreceding | Preceding string | CurrentRow | Following string | UnboundedFollowing

datatype window_frame = WindowFrame (wf_units: frame_units) (wf_start: frame_bound) (wf_stop: frame_bound)

section \<open>Expressions\<close>

datatype 'e order_by_expr = OrderByExpr (ob_expr: 'e) (ob_direction: sort_direction) (ob_nulls: "null_order option")

datatype 'e window_spec =
  WindowSpec (ws_partition_by: "'e list") (ws_order_by: "'e order_by_expr list") (ws_frame: "window_frame option")

datatype expr =
  Identifier string
| QualifiedIdentifier string string
| Alias expr string
| FunctionCall string "expr list" bool "expr option" "expr window_spec option"
| Wildcard
| Literal literal
| Unary unary_op expr
| Binary expr binary_op expr
| IsNull expr bool

section \<open>Statements\<close>

datatype data_type = DInteger | DBigInt | DText | DBoolean | DReal | DDouble | DVarchar "string option"

datatype column_constraint = CNotNull | CPrimaryKey | CUnique

record column_def =
  cd_name :: string
  cd_type :: data_type
  cd_constraints :: "column_constraint list"

record assignment =
  as_column :: string
  as_value :: expr

datatype statement =
  SSelect "expr list" "string option" "expr option" "expr list" "expr option" "expr order_by_expr list"
| SCreateTable string "column_def list"
| SInsert string "string list" "expr list list"
| SUpdate string "assignment list" "expr option"
| SDelete string "expr option"
| SBegin
| SCommit
| SRollback

section \<open>Operands of a call\<close>

text \<open>
  The expressions a window specification contains, in source order; each is smaller than the
  call, which is what the recursive descents over expressions terminate by.
\<close>

definition spec_exprs :: "'e window_spec \<Rightarrow> 'e list" where
  "spec_exprs w = ws_partition_by w @ map ob_expr (ws_order_by w)"

lemma set_order_by_expr_eq [simp]: "set_order_by_expr x = {ob_expr x}"
  by (cases x) simp

lemma set_spec_exprs: "set (spec_exprs w) = set_window_spec w"
  by (cases w) (auto simp: spec_exprs_def)

lemma size_order_by_expr: "size_order_by_expr f x = f (ob_expr x) + 1"
  by (cases x) simp

lemma spec_expr_size: "x \<in> set (spec_exprs w) \<Longrightarrow> f x < size_window_spec f w"
  by (cases w) (auto simp: spec_exprs_def size_order_by_expr dest!: size_list_estimation' [where f = f and y = "f x", simplified]
      size_list_estimation' [where f = "size_order_by_expr f" and y = "f x"])

end
