(* ===== verification/Numbers.thy ===== *)
theory Numbers
  imports Schema
begin

text \<open>
  Decimal tokens. \<open>valid_number\<close> is the binder's token check (\<^verbatim>\<open>expression.rs\<close>), \<open>parser_number\<close>
  the parser's (\<^verbatim>\<open>transform.rs\<close>); both are proved to accept the same token grammar. The rest
  models what the sources use of the standard library: \<^verbatim>\<open>str::parse\<close> for unsigned integers and
  for \<^verbatim>\<open>f64\<close>, whose values are their IEEE 754 bit patterns.
\<close>

section \<open>Characters and digits\<close>

definition is_ascii_digit :: "char \<Rightarrow> bool" where
  "is_ascii_digit c \<longleftrightarrow> (of_char c :: nat) \<in> {48..57}"

definition digit_value :: "char \<Rightarrow> nat" where
  "digit_value c = of_char c - 48"

definition all_digits :: "string \<Rightarrow> bool" where
  "all_digits s \<longleftrightarrow> s \<noteq> [] \<and> list_all is_ascii_digit s"

definition decimal_value :: "string \<Rightarrow> nat" where
  "decimal_value s = foldl (\<lambda>a c. 10 * a + digit_value c) 0 s"

text \<open>\<^verbatim>\<open>bytes.get(i)\<close>\<close>

definition byte_at :: "string \<Rightarrow> nat \<Rightarrow> char option" where
  "byte_at s i = (if i < length s then Some (s ! i) else None)"

section \<open>The two token checks\<close>

text \<open>The loop \<^verbatim>\<open>while i < bytes.len() && bytes[i].is_ascii_digit() { i += 1; }\<close>\<close>

function skip_digits :: "string \<Rightarrow> nat \<Rightarrow> nat" where
  "skip_digits s i = (if i < length s \<and> is_ascii_digit (s ! i) then skip_digits s (i + 1) else i)"
  by pat_completeness auto
termination by (relation "measure (\<lambda>(s, i). length s - i)") auto

declare skip_digits.simps [simp del]

definition exponent_end :: "string \<Rightarrow> nat \<Rightarrow> nat option" where
  "exponent_end s i =
     (if byte_at s i \<in> {Some CHR ''e'', Some CHR ''E''} then
        (let i = i + 1; start = (if byte_at s i \<in> {Some CHR ''+'', Some CHR ''-''} then i + 1 else i); i = skip_digits s start
         in if i = start then None else Some i)
      else Some i)"

definition valid_number :: "string \<Rightarrow> bool" where
  "valid_number s =
     (let whole = skip_digits s 0 in
      if byte_at s whole = Some CHR ''.'' then
        (let start = whole + 1; i = skip_digits s start in
         if i = start then False else exponent_end s i = Some (length s))
      else if whole = 0 then False
      else exponent_end s whole = Some (length s))"

definition digits :: "string \<Rightarrow> nat \<times> string" where
  "digits b = (let count = length (takeWhile is_ascii_digit b) in (count, drop count b))"

fun starts_with :: "string \<Rightarrow> char list \<Rightarrow> bool" where
  "starts_with [] cs = False"
| "starts_with (c # s) cs = (c \<in> set cs)"

definition exponent_rest :: "string \<Rightarrow> string option" where
  "exponent_rest b =
     (if starts_with b ''eE'' then
        (let b = tl b; b = (if starts_with b ''+-'' then tl b else b); (n, b) = digits b in if n = 0 then None else Some b)
      else Some b)"

definition parser_number :: "string \<Rightarrow> bool" where
  "parser_number s =
     (let (whole, b) = digits s in
      if starts_with b ''.'' then
        (let (n, b) = digits (tl b) in if n = 0 then False else exponent_rest b = Some [])
      else if whole = 0 then False
      else exponent_rest b = Some [])"

section \<open>Equivalence of the two\<close>

lemma skip_digits_drop: "i \<le> length s \<Longrightarrow> skip_digits s i = i + length (takeWhile is_ascii_digit (drop i s))"
proof (induction s i rule: skip_digits.induct)
  case (1 s i)
  show ?case
  proof (cases "i < length s \<and> is_ascii_digit (s ! i)")
    case True
    then have "drop i s = s ! i # drop (Suc i) s" by (simp add: Cons_nth_drop_Suc)
    with True 1 show ?thesis by (subst skip_digits.simps) simp
  next
    case False
    then have "takeWhile is_ascii_digit (drop i s) = []"
      by (cases "i < length s") (auto simp: takeWhile_eq_Nil_iff hd_drop_conv_nth)
    with False show ?thesis by (subst skip_digits.simps) auto
  qed
qed

lemma byte_at_drop: "i \<le> length s \<Longrightarrow> byte_at s i \<in> Some ` set cs \<longleftrightarrow> starts_with (drop i s) cs"
proof (cases "i < length s")
  case True
  then have "drop i s = s ! i # drop (Suc i) s" by (simp add: Cons_nth_drop_Suc)
  with True show ?thesis by (auto simp: byte_at_def)
qed (simp add: byte_at_def)

lemma starts_with_drop: "starts_with (drop i s) cs \<Longrightarrow> i < length s \<and> tl (drop i s) = drop (Suc i) s"
  by (cases "i < length s") (simp_all add: tl_drop drop_Suc)

lemma digits_drop:
  "i \<le> length s \<Longrightarrow> digits (drop i s) = (skip_digits s i - i, drop (skip_digits s i) s) \<and> i \<le> skip_digits s i \<and> skip_digits s i \<le> length s"
  using length_takeWhile_le [of is_ascii_digit "drop i s"]
  by (auto simp: digits_def Let_def skip_digits_drop add.commute)

lemma exponent_agree:
  assumes "i \<le> length s"
  shows "exponent_rest (drop i s) = map_option (\<lambda>j. drop j s) (exponent_end s i) \<and> (\<forall>j. exponent_end s i = Some j \<longrightarrow> j \<le> length s)"
proof (cases "starts_with (drop i s) ''eE''")
  case True
  then have i: "i < length s" "tl (drop i s) = drop (Suc i) s" by (simp_all add: starts_with_drop)
  let ?j = "if starts_with (drop (Suc i) s) ''+-'' then Suc (Suc i) else Suc i"
  have j: "?j \<le> length s" "(if starts_with (drop (Suc i) s) ''+-'' then tl (drop (Suc i) s) else drop (Suc i) s) = drop ?j s"
    using i starts_with_drop [of "Suc i" s "''+-''"] by auto
  have b: "byte_at s i \<in> {Some CHR ''e'', Some CHR ''E''}"
    "byte_at s (Suc i) \<in> {Some CHR ''+'', Some CHR ''-''} \<longleftrightarrow> starts_with (drop (Suc i) s) ''+-''"
    using True i byte_at_drop [of i s "''eE''"] byte_at_drop [of "Suc i" s "''+-''"] by (auto simp del: starts_with.simps)
  have e: "exponent_end s i = (if skip_digits s ?j = ?j then None else Some (skip_digits s ?j))"
    unfolding exponent_end_def Let_def if_P [OF b(1)] using b(2) by (simp del: starts_with.simps insert_iff)
  have "exponent_rest (drop i s) = (case digits (drop ?j s) of (n, b) \<Rightarrow> if n = 0 then None else Some b)"
    unfolding exponent_rest_def if_P [OF True] Let_def i(2) j(2) ..
  with e digits_drop [OF j(1)] show ?thesis by (auto simp del: starts_with.simps)
next
  case False
  then have "byte_at s i \<notin> {Some CHR ''e'', Some CHR ''E''}" using assms byte_at_drop [of i s "''eE''"] by auto
  with False assms show ?thesis by (simp add: exponent_end_def exponent_rest_def)
qed

lemma valid_number_parser: "valid_number s = parser_number s"
proof -
  let ?w = "skip_digits s 0"
  have w: "digits s = (?w, drop ?w s)" "?w \<le> length s" using digits_drop [of 0 s] by auto
  have dot: "byte_at s ?w = Some CHR ''.'' \<longleftrightarrow> starts_with (drop ?w s) ''.''"
    using byte_at_drop [OF w(2), of "''.''"] by simp
  have rest: "exponent_rest (drop i s) = Some [] \<longleftrightarrow> exponent_end s i = Some (length s)" if "i \<le> length s" for i
    using exponent_agree [OF that] by (cases "exponent_end s i") auto
  show ?thesis
  proof (cases "starts_with (drop ?w s) ''.''")
    case True
    then have "tl (drop ?w s) = drop (Suc ?w) s" "Suc ?w \<le> length s" using starts_with_drop by fastforce+
    with True w dot digits_drop [of "Suc ?w" s] rest show ?thesis
      by (auto simp: valid_number_def parser_number_def Let_def simp del: starts_with.simps)
  next
    case False
    with w dot rest show ?thesis by (simp add: valid_number_def parser_number_def Let_def del: starts_with.simps)
  qed
qed

section \<open>Integers\<close>

text \<open>
  \<^verbatim>\<open>s.parse::<uN>()\<close>: an optional plus sign and at least one digit, and \<open>None\<close> for the errors,
  overflow included.
\<close>

definition parse_unsigned :: "nat \<Rightarrow> string \<Rightarrow> nat option" where
  "parse_unsigned m s =
     (let ds = (case s of c # r \<Rightarrow> if c = CHR ''+'' \<and> r \<noteq> [] then r else s | [] \<Rightarrow> s) in
      if all_digits ds \<and> decimal_value ds \<le> m then Some (decimal_value ds) else None)"

definition max_u32 :: nat where "max_u32 = 2 ^ 32 - 1"
definition max_u64 :: nat where "max_u64 = 2 ^ 64 - 1"

lemma parse_unsigned_digits:
  "all_digits s \<Longrightarrow> parse_unsigned m s = (if decimal_value s \<le> m then Some (decimal_value s) else None)"
  by (cases s) (auto simp: parse_unsigned_def all_digits_def is_ascii_digit_def)

section \<open>Double-precision numbers\<close>

type_synonym f64 = u64

text \<open>
  A bit pattern without its sign, read as the exponent field \<open>b div 2 ^ 52\<close> and the fraction
  \<open>b mod 2 ^ 52\<close>, denotes \<open>f64_scaled b / 2 ^ 1074\<close> when the exponent field is not all ones.
\<close>

definition f64_scaled :: "nat \<Rightarrow> nat" where
  "f64_scaled b = (if b div 2 ^ 52 = 0 then b else (2 ^ 52 + b mod 2 ^ 52) * 2 ^ (b div 2 ^ 52 - 1))"

definition f64_inf :: nat where "f64_inf = 2047 * 2 ^ 52"

definition is_finite :: "f64 \<Rightarrow> bool" where
  "is_finite x \<longleftrightarrow> unat x mod 2 ^ 63 < f64_inf"

definition is_nan :: "f64 \<Rightarrow> bool" where
  "is_nan x \<longleftrightarrow> f64_inf < unat x mod 2 ^ 63"

definition f64_neg :: "f64 \<Rightarrow> f64" where
  "f64_neg x = x + 2 ^ 63"

text \<open>IEEE equality: no NaN is equal to anything, and the two zeros are equal.\<close>

definition f64_eq :: "f64 \<Rightarrow> f64 \<Rightarrow> bool" where
  "f64_eq x y \<longleftrightarrow> \<not> is_nan x \<and> \<not> is_nan y \<and> (x = y \<or> unat x mod 2 ^ 63 = 0 \<and> unat y mod 2 ^ 63 = 0)"

text \<open>
  \<^verbatim>\<open>str::parse::<f64>\<close> rounds the decimal to the nearest double, ties to the even bit pattern,
  and to infinity past the largest. The decimal is \<open>n / d\<close>; \<open>f64_scale\<close> finds the binade, by
  the least power of two that brings \<open>n * 2 ^ 1074 / d\<close> under \<open>2 ^ 53\<close>.
\<close>

definition round_half_even :: "nat \<Rightarrow> nat \<Rightarrow> nat" where
  "round_half_even n d = (let q = n div d; r = n mod d in if 2 * r < d \<or> 2 * r = d \<and> even q then q else q + 1)"

function f64_scale :: "nat \<Rightarrow> nat \<Rightarrow> nat \<Rightarrow> nat" where
  "f64_scale n d k = (if d = 0 \<or> n < d * 2 ^ 53 then k else f64_scale n (2 * d) (k + 1))"
  by pat_completeness auto
termination
  by (relation "measure (\<lambda>(n, d, k). n - d)") (auto intro: diff_less_mono2)

declare f64_scale.simps [simp del]

definition f64_round :: "nat \<Rightarrow> nat \<Rightarrow> nat" where
  "f64_round n d =
     (let k = f64_scale (n * 2 ^ 1074) d 0 in min (k * 2 ^ 52 + round_half_even (n * 2 ^ 1074) (d * 2 ^ k)) f64_inf)"

text \<open>The decimal a valid token spells: its digits as one integer and the power of ten.\<close>

definition token_parts :: "string \<Rightarrow> nat \<times> int" where
  "token_parts s =
     (let whole = takeWhile is_ascii_digit s; r = drop (length whole) s;
          frac = (if starts_with r ''.'' then takeWhile is_ascii_digit (tl r) else []);
          r = (if starts_with r ''.'' then drop (length frac) (tl r) else r);
          ex = (if starts_with r ''eE'' then
                  (if starts_with (tl r) ''-'' then - int (decimal_value (tl (tl r)))
                   else if starts_with (tl r) ''+'' then int (decimal_value (tl (tl r)))
                   else int (decimal_value (tl r)))
                else 0)
      in (decimal_value (whole @ frac), ex - int (length frac)))"

definition parse_f64 :: "string \<Rightarrow> f64" where
  "parse_f64 s = (case token_parts s of (m, e) \<Rightarrow>
     word_of_nat (if 0 \<le> e then f64_round (m * 10 ^ nat e) 1 else f64_round m (10 ^ nat (- e))))"

text \<open>A finite value is not a NaN, and negation, which flips the sign bit, keeps it finite.\<close>

lemma f64_neg_magnitude: "unat (f64_neg x) mod 2 ^ 63 = unat x mod 2 ^ 63"
proof -
  have "unat (f64_neg x) = (unat x + 2 ^ 63) mod 2 ^ 64" by (simp add: f64_neg_def unat_word_ariths)
  also have "\<dots> mod 2 ^ 63 = (unat x + 2 ^ 63) mod 2 ^ 63" by (rule mod_mod_cancel) simp
  finally show ?thesis by simp
qed

lemma f64_finite: "is_finite x \<Longrightarrow> f64_eq x x" "is_finite x \<Longrightarrow> f64_eq (f64_neg x) (f64_neg x)"
  using f64_neg_magnitude [of x] by (simp_all add: is_finite_def is_nan_def f64_eq_def)

end
