(* ===== verification/BoundAst.thy ===== *)
theory BoundAst
  imports SqlAst Numbers
begin

text \<open>
  The resolved query structure: literals and errors of \<^verbatim>\<open>crates/binder/src/lib.rs\<close>, the bound
  tree of \<^verbatim>\<open>crates/binder/src/ast.rs\<close> and the scopes of \<^verbatim>\<open>context.rs\<close>. The kinds of a bound
  expression are a functor over the expression type, so that \<open>bexpr\<close> is its fixed point and
  \<open>set_expr_kind\<close> the operands of a node. A table source, \<^verbatim>\<open>Arc<dyn TableSource>\<close>, is the
  identity of the allocation and the immutable schema it answers with.
\<close>

section \<open>Literals and errors\<close>

text \<open>
  Signed integers are words read with \<open>sint\<close>; floating-point values are their bit patterns.
  \<open>BindPanic\<close> is not a variant of \<^verbatim>\<open>BindError\<close>: it marks where \<^verbatim>\<open>unwrap\<close>, \<^verbatim>\<open>remove(0)\<close>,
  \<^verbatim>\<open>unreachable!\<close> or an index would panic, and the binder is proved never to return it.
\<close>

datatype scalar =
  ScNull | ScBoolean bool | ScInt32 u32 | ScInt64 u64 | ScUint32 u32 | ScFloat32 u32 | ScFloat64 f64 | ScString string

datatype 'e bind_error =
  UnknownFunction string
| InvalidFunction string
| UngroupedColumn
| InvalidWindowFrame string
| CatalogFailure 'e
| TableAlreadyExists string
| DuplicateColumn string
| InvalidConstraint string
| InvalidType string
| InvalidStatement string
| RowWidth nat nat nat
| UnknownTable string
| UnknownColumn "string option" string
| AmbiguousColumn "string option" string
| TypeMismatch string string logical_type
| IncompatibleTypes string logical_type logical_type
| InvalidNumber string
| InvalidWildcard
| EmptyProjection
| ExpressionTooDeep
| BindPanic string

section \<open>Bound expressions\<close>

record column_binding =
  cb_relation :: u32
  cb_index :: nat

record dyn_source =
  ds_ptr :: nat
  ds_schema :: table_schema

record bound_table =
  bt_relation :: u32
  bt_source :: dyn_source

datatype aggregate_function = AggCount | AggSum | AggAvg | AggMin | AggMax

datatype window_function = WinAggregate aggregate_function | RowNumber | Rank | DenseRank

datatype bframe_bound =
  BUnboundedPreceding | BPreceding u64 | BCurrentRow | BFollowing u64 | BUnboundedFollowing

datatype bwindow_frame = BWindowFrame (bf_units: frame_units) (bf_start: bframe_bound) (bf_stop: bframe_bound)

datatype 'e border_by = BOrderBy (bo_expr: 'e) (bo_direction: sort_direction) (bo_nulls: null_order)

datatype 'e aggregate_expr =
  AggregateExpr (ag_function: aggregate_function) (ag_args: "'e list") (ag_distinct: bool) (ag_filter: "'e option")

datatype 'e window_expr =
  WindowExpr (wn_function: window_function) (wn_args: "'e list") (wn_distinct: bool) (wn_filter: "'e option")
    (wn_partition_by: "'e list") (wn_order_by: "'e border_by list") (wn_frame: bwindow_frame)

datatype 'e expr_kind =
  KAggregate "'e aggregate_expr"
| KWindow "'e window_expr"
| KLiteral scalar
| KColumn column_binding
| KUnary unary_op 'e
| KBinary binary_op 'e 'e
| KCast 'e
| KIsNull 'e bool

datatype bexpr = BExpr (be_type: logical_type) (be_nullable: bool) (be_kind: "bexpr expr_kind")

section \<open>Bound statements\<close>

record named_expr =
  ne_name :: string
  ne_expr :: bexpr

record bound_select =
  se_group_by :: "bexpr list"
  se_having :: "bexpr option"
  se_order_by :: "bexpr border_by list"
  se_is_aggregate :: bool
  se_source :: "bound_table option"
  se_projection :: "named_expr list"
  se_filter :: "bexpr option"

record bound_insert =
  in_table :: bound_table
  in_rows :: "bexpr list list"

record bound_assignment =
  ba_column :: nat
  ba_value :: bexpr

record bound_update =
  up_table :: bound_table
  up_assignments :: "bound_assignment list"
  up_filter :: "bexpr option"

record bound_delete =
  de_table :: bound_table
  de_filter :: "bexpr option"

datatype bound_statement =
  BSelect bound_select
| BCreateTable create_table
| BInsert bound_insert
| BUpdate bound_update
| BDelete bound_delete
| BBegin
| BCommit
| BRollback

section \<open>Scopes\<close>

record relation_binding =
  rb_name :: string
  rb_table :: bound_table

type_synonym scope = "relation_binding list"

text \<open>\<^verbatim>\<open>BindContext::scopes\<close>, outermost first.\<close>

type_synonym bind_context = "scope list"

section \<open>Derived equality\<close>

text \<open>
  \<^verbatim>\<open>#[derive(PartialEq)]\<close> compares field by field, and floating-point literals with the IEEE
  comparison, so it is not equality: \<open>0.0\<close> equals \<open>-0.0\<close>. \<open>f32\<close> literals are compared alike.
\<close>

definition f32_eq :: "u32 \<Rightarrow> u32 \<Rightarrow> bool" where
  "f32_eq x y \<longleftrightarrow> unat x mod 2 ^ 31 \<le> 255 * 2 ^ 23 \<and> unat y mod 2 ^ 31 \<le> 255 * 2 ^ 23 \<and>
     (x = y \<or> unat x mod 2 ^ 31 = 0 \<and> unat y mod 2 ^ 31 = 0)"

fun scalar_eq :: "scalar \<Rightarrow> scalar \<Rightarrow> bool" where
  "scalar_eq (ScFloat64 x) (ScFloat64 y) = f64_eq x y"
| "scalar_eq (ScFloat32 x) (ScFloat32 y) = f32_eq x y"
| "scalar_eq x y = (x = y)"

fun option_eq :: "('a \<Rightarrow> 'a \<Rightarrow> bool) \<Rightarrow> 'a option \<Rightarrow> 'a option \<Rightarrow> bool" where
  "option_eq r None None = True"
| "option_eq r (Some x) (Some y) = r x y"
| "option_eq r _ _ = False"

definition aggregate_eq :: "('e \<Rightarrow> 'e \<Rightarrow> bool) \<Rightarrow> 'e aggregate_expr \<Rightarrow> 'e aggregate_expr \<Rightarrow> bool" where
  "aggregate_eq r a b \<longleftrightarrow> ag_function a = ag_function b \<and> list_all2 r (ag_args a) (ag_args b) \<and>
     ag_distinct a = ag_distinct b \<and> option_eq r (ag_filter a) (ag_filter b)"

definition order_eq :: "('e \<Rightarrow> 'e \<Rightarrow> bool) \<Rightarrow> 'e border_by \<Rightarrow> 'e border_by \<Rightarrow> bool" where
  "order_eq r x y \<longleftrightarrow> r (bo_expr x) (bo_expr y) \<and> bo_direction x = bo_direction y \<and> bo_nulls x = bo_nulls y"

definition window_eq :: "('e \<Rightarrow> 'e \<Rightarrow> bool) \<Rightarrow> 'e window_expr \<Rightarrow> 'e window_expr \<Rightarrow> bool" where
  "window_eq r a b \<longleftrightarrow> wn_function a = wn_function b \<and> list_all2 r (wn_args a) (wn_args b) \<and>
     wn_distinct a = wn_distinct b \<and> option_eq r (wn_filter a) (wn_filter b) \<and>
     list_all2 r (wn_partition_by a) (wn_partition_by b) \<and> list_all2 (order_eq r) (wn_order_by a) (wn_order_by b) \<and>
     wn_frame a = wn_frame b"

definition kind_eq :: "('e \<Rightarrow> 'e \<Rightarrow> bool) \<Rightarrow> 'e expr_kind \<Rightarrow> 'e expr_kind \<Rightarrow> bool" where
  "kind_eq r k l = (case k of
     KAggregate a \<Rightarrow> (case l of KAggregate b \<Rightarrow> aggregate_eq r a b | _ \<Rightarrow> False)
   | KWindow a \<Rightarrow> (case l of KWindow b \<Rightarrow> window_eq r a b | _ \<Rightarrow> False)
   | KLiteral x \<Rightarrow> (case l of KLiteral y \<Rightarrow> scalar_eq x y | _ \<Rightarrow> False)
   | KColumn x \<Rightarrow> (case l of KColumn y \<Rightarrow> x = y | _ \<Rightarrow> False)
   | KUnary o1 x \<Rightarrow> (case l of KUnary o2 y \<Rightarrow> o1 = o2 \<and> r x y | _ \<Rightarrow> False)
   | KBinary o1 x1 x2 \<Rightarrow> (case l of KBinary o2 y1 y2 \<Rightarrow> o1 = o2 \<and> r x1 y1 \<and> r x2 y2 | _ \<Rightarrow> False)
   | KCast x \<Rightarrow> (case l of KCast y \<Rightarrow> r x y | _ \<Rightarrow> False)
   | KIsNull x b \<Rightarrow> (case l of KIsNull y c \<Rightarrow> r x y \<and> b = c | _ \<Rightarrow> False))"

lemma set_border_by_eq [simp]: "set_border_by x = {bo_expr x}"
  by (cases x) simp

lemma set_aggregate_expr: "set_aggregate_expr a = set (ag_args a) \<union> set_option (ag_filter a)"
  by (cases a) simp

lemma set_window_expr: "set_window_expr w = set (wn_args w) \<union> set_option (wn_filter w) \<union> set (wn_partition_by w) \<union>
    bo_expr ` set (wn_order_by w)"
  by (cases w) auto

lemma option_eq_cong: "(\<And>x y. x \<in> set_option a \<Longrightarrow> r x y = r' x y) \<Longrightarrow> option_eq r a b = option_eq r' a b"
  by (cases a; cases b) auto

lemma list_all2_cong_left: "(\<And>x y. x \<in> set xs \<Longrightarrow> r x y = r' x y) \<Longrightarrow> list_all2 r xs ys = list_all2 r' xs ys"
  by (induction xs arbitrary: ys) (auto simp: list_all2_Cons1)

lemma aggregate_eq_cong: "(\<And>x y. x \<in> set_aggregate_expr a \<Longrightarrow> r x y = r' x y) \<Longrightarrow> aggregate_eq r a b = aggregate_eq r' a b"
  using option_eq_cong [of "ag_filter a" r r' "ag_filter b"] list_all2_cong_left [of "ag_args a" r r' "ag_args b"]
  by (simp add: aggregate_eq_def set_aggregate_expr)

lemma window_eq_cong:
  assumes "\<And>x y. x \<in> set_window_expr a \<Longrightarrow> r x y = r' x y"
  shows "window_eq r a b = window_eq r' a b"
proof -
  have "list_all2 (order_eq r) (wn_order_by a) (wn_order_by b) = list_all2 (order_eq r') (wn_order_by a) (wn_order_by b)"
    by (rule list_all2_cong_left) (simp add: order_eq_def assms set_window_expr)
  moreover have "option_eq r (wn_filter a) (wn_filter b) = option_eq r' (wn_filter a) (wn_filter b)"
    by (rule option_eq_cong) (simp add: assms set_window_expr)
  moreover have "list_all2 r (wn_args a) (wn_args b) = list_all2 r' (wn_args a) (wn_args b)"
    by (rule list_all2_cong_left) (simp add: assms set_window_expr)
  moreover have "list_all2 r (wn_partition_by a) (wn_partition_by b) = list_all2 r' (wn_partition_by a) (wn_partition_by b)"
    by (rule list_all2_cong_left) (simp add: assms set_window_expr)
  ultimately show ?thesis by (simp only: window_eq_def)
qed

lemma kind_eq_cong [fundef_cong]:
  assumes "k = k'" "l = l'" "\<And>x y. x \<in> set_expr_kind k' \<Longrightarrow> r x y = r' x y"
  shows "kind_eq r k l = kind_eq r' k' l'"
proof -
  have ball: "\<forall>x \<in> set_expr_kind k'. \<forall>y. r x y = r' x y" using assms(3) by blast
  show ?thesis
  proof (cases k')
    case (KAggregate a)
    then have "aggregate_eq r a b = aggregate_eq r' a b" for b using assms(3) by (intro aggregate_eq_cong) simp
    with KAggregate assms(1,2) show ?thesis by (simp add: kind_eq_def cong: expr_kind.case_cong)
  next
    case (KWindow a)
    then have "window_eq r a b = window_eq r' a b" for b using assms(3) by (intro window_eq_cong) simp
    with KWindow assms(1,2) show ?thesis by (simp add: kind_eq_def cong: expr_kind.case_cong)
  qed (use assms(1,2) ball in \<open>simp_all add: kind_eq_def cong: expr_kind.case_cong\<close>)
qed

lemma size_border_by: "size_border_by f x = f (bo_expr x) + 1"
  by (cases x) simp

lemma set_list_size: "x \<in> set xs \<Longrightarrow> f x < size_list f xs"
  by (induction xs) auto

lemma aggregate_size: "x \<in> set_aggregate_expr a \<Longrightarrow> f x < size_aggregate_expr f a"
  by (cases a) (auto dest: set_list_size [where f = f])

lemma window_size: "x \<in> set_window_expr a \<Longrightarrow> f x < size_window_expr f a"
  by (cases a) (auto simp: size_border_by dest: set_list_size [where f = f] set_list_size [where f = "size_border_by f"])

lemma kind_size [termination_simp]: "x \<in> set_expr_kind k \<Longrightarrow> f x < size_expr_kind f k"
  by (cases k) (auto dest: aggregate_size [where f = f] window_size [where f = f])

lemma operand_size [termination_simp]: "x \<in> set_expr_kind k \<Longrightarrow> size x < Suc (size_expr_kind size k)"
  using kind_size [of x k size] by simp

fun expr_eq :: "bexpr \<Rightarrow> bexpr \<Rightarrow> bool" where
  "expr_eq (BExpr t n k) (BExpr t' n' k') = (t = t' \<and> n = n' \<and> kind_eq expr_eq k k')"

end
