(* ===== verification/Binder.thy ===== *)
theory Binder
  imports BoundAst
begin

text \<open>
  Expression binding: column resolution (\<^verbatim>\<open>context.rs\<close>), coercions and expressions
  (\<^verbatim>\<open>expression.rs\<close>), calls, window frames and grouping (\<^verbatim>\<open>aggregate.rs\<close>). The lemmas show that
  resolution is the nearest-scope rule, that every bound expression is well typed, that binding
  stops at nesting depth 256 and never panics.
\<close>

section \<open>Column resolution\<close>

definition column_expr :: "u32 \<Rightarrow> nat \<Rightarrow> column_schema \<Rightarrow> bexpr" where
  "column_expr rel i c = BExpr (col_type c) (col_nullable c) (KColumn \<lparr>cb_relation = rel, cb_index = i\<rparr>)"

abbreviation source_columns :: "bound_table \<Rightarrow> column_schema list" where
  "source_columns t \<equiv> ts_columns (ds_schema (bt_source t))"

text \<open>The loop over a relation's columns; \<open>ambiguous\<close> is the error it returns early with.\<close>

fun resolve_columns :: "'e bind_error \<Rightarrow> string \<Rightarrow> u32 \<Rightarrow> nat \<Rightarrow> column_schema list \<Rightarrow> bexpr option \<Rightarrow>
    'e bind_error + bexpr option" where
  "resolve_columns ambiguous name rel i [] found = Inr found"
| "resolve_columns ambiguous name rel i (c # cs) found =
     (if col_name c = name then
        (if found \<noteq> None then Inl ambiguous
         else resolve_columns ambiguous name rel (i + 1) cs (Some (column_expr rel i c)))
      else resolve_columns ambiguous name rel (i + 1) cs found)"

text \<open>The loop over a scope's relations, with the running result and the count of qualified relations.\<close>

fun resolve_relations :: "'e bind_error \<Rightarrow> string option \<Rightarrow> string \<Rightarrow> scope \<Rightarrow> bexpr option \<Rightarrow> nat \<Rightarrow>
    'e bind_error + bexpr option \<times> nat" where
  "resolve_relations ambiguous qualifier name [] found n = Inr (found, n)"
| "resolve_relations ambiguous qualifier name (r # rs) found n =
     (let columns = (\<lambda>n. and_then (resolve_columns ambiguous name (bt_relation (rb_table r)) 0 (source_columns (rb_table r)) found)
                      (\<lambda>found. resolve_relations ambiguous qualifier name rs found n))
      in case qualifier of
        Some q \<Rightarrow> if rb_name r \<noteq> q then resolve_relations ambiguous qualifier name rs found n
                  else if n + 1 > 1 then Inl ambiguous else columns (n + 1)
      | None \<Rightarrow> columns n)"

fun resolve_scopes :: "string option \<Rightarrow> string \<Rightarrow> scope list \<Rightarrow> 'e bind_error + bexpr" where
  "resolve_scopes qualifier name [] = Inl (UnknownColumn qualifier name)"
| "resolve_scopes qualifier name (scope # outer) =
     and_then (resolve_relations (AmbiguousColumn qualifier name) qualifier name scope None 0) (\<lambda>(found, n).
       case found of
         Some e \<Rightarrow> Inr e
       | None \<Rightarrow> if n > 0 then Inl (UnknownColumn qualifier name) else resolve_scopes qualifier name outer)"

definition resolve_column :: "bind_context \<Rightarrow> string option \<Rightarrow> string \<Rightarrow> 'e bind_error + bexpr" where
  "resolve_column context qualifier name = resolve_scopes qualifier name (rev context)"

section \<open>Coercions\<close>

fun textual :: "logical_type \<Rightarrow> bool" where
  "textual TText = True"
| "textual (TVarchar n) = True"
| "textual _ = False"

definition numeric :: "logical_type \<Rightarrow> bool" where
  "numeric t \<longleftrightarrow> t \<in> {TInt32, TInt64, TUint32, TFloat32, TFloat64}"

definition integral :: "logical_type \<Rightarrow> bool" where
  "integral t \<longleftrightarrow> t \<in> {TInt32, TInt64, TUint32}"

definition cast :: "bexpr \<Rightarrow> logical_type \<Rightarrow> bexpr" where
  "cast e target = (if be_type e = target then e else BExpr target (be_nullable e) (KCast e))"

definition boolean :: "bexpr \<Rightarrow> string \<Rightarrow> 'e bind_error + bexpr" where
  "boolean e context = (case be_type e of
     TBoolean \<Rightarrow> Inr e
   | TNull \<Rightarrow> Inr (cast e TBoolean)
   | actual \<Rightarrow> Inl (TypeMismatch context ''Boolean'' actual))"

definition assignment :: "bexpr \<Rightarrow> logical_type \<Rightarrow> 'e bind_error + bexpr" where
  "assignment e target =
     (let source = be_type e in
      if source = target \<or> source = TNull \<or> numeric source \<and> numeric target \<or> textual source \<and> textual target
      then Inr (cast e target) else Inl (IncompatibleTypes ''assignment'' source target))"

definition value_expr :: "logical_type \<Rightarrow> scalar \<Rightarrow> bexpr" where
  "value_expr data_type s = BExpr data_type (s = ScNull) (KLiteral s)"

definition require_numeric :: "logical_type \<Rightarrow> bool \<Rightarrow> string \<Rightarrow> 'e bind_error + unit" where
  "require_numeric t int_only context =
     (if t = TNull \<or> numeric t \<and> (\<not> int_only \<or> integral t) then Inr ()
      else Inl (TypeMismatch context (if int_only then ''integer'' else ''numeric'') t))"

definition numeric_common :: "logical_type \<Rightarrow> logical_type \<Rightarrow> logical_type option" where
  "numeric_common left right =
     (if left = TNull \<and> right = TNull then Some TInt32
      else if left = TNull then (if numeric right then Some right else None)
      else if right = TNull then (if numeric left then Some left else None)
      else if \<not> numeric left \<or> \<not> numeric right then None
      else if left = right then Some left
      else if left \<in> {TFloat64, TFloat32} \<or> right \<in> {TFloat64, TFloat32} then Some TFloat64
      else Some TInt64)"

function comparison_common :: "logical_type \<Rightarrow> logical_type \<Rightarrow> logical_type option" where
  "comparison_common left right =
     (if left = TNull \<and> right = TNull then Some TText
      else if left = TNull then comparison_common right right
      else if right = TNull then comparison_common left left
      else if left = TBoolean \<and> right = TBoolean then Some TBoolean
      else if textual left \<and> textual right then Some TText
      else numeric_common left right)"
  by pat_completeness auto
termination
  by (relation "measure (\<lambda>(l, r). (if l = TNull then 1 else 0) + (if r = TNull then 1 else 0))") auto

declare comparison_common.simps [simp del]

section \<open>Numbers\<close>

definition min_i64_magnitude :: nat where "min_i64_magnitude = 2 ^ 63"

text \<open>\<open>i64::try_from(magnitude)\<close>, with the value kept as an integer.\<close>

definition try_i64 :: "nat \<Rightarrow> int option" where
  "try_i64 m = (if m < 2 ^ 63 then Some (int m) else None)"

definition number :: "string \<Rightarrow> bool \<Rightarrow> 'e bind_error + bexpr" where
  "number s negative =
     (let invalid = InvalidNumber (if negative then CHR ''-'' # s else s) in
      if \<not> valid_number s then Inl invalid
      else if list_ex (\<lambda>c. c \<in> set ''.eE'') s then
        (let n = parse_f64 s in
         if \<not> is_finite n then Inl invalid
         else Inr (value_expr TFloat64 (ScFloat64 (if negative then f64_neg n else n))))
      else and_then (ok_or invalid (parse_unsigned max_u64 s)) (\<lambda>magnitude.
        and_then (if negative then
                    (if magnitude = min_i64_magnitude then Inr (- (2 ^ 63))
                     else and_then (ok_or invalid (try_i64 magnitude)) (\<lambda>n. Inr (- n)))
                  else ok_or invalid (try_i64 magnitude)) (\<lambda>n :: int.
        Inr (if - (2 ^ 31) \<le> n \<and> n < 2 ^ 31 then value_expr TInt32 (ScInt32 (word_of_int n))
             else value_expr TInt64 (ScInt64 (word_of_int n))))))"

section \<open>Window frames and ordering\<close>

definition order_key :: "bexpr \<Rightarrow> expr order_by_expr \<Rightarrow> bexpr border_by" where
  "order_key e o' = BOrderBy e (ob_direction o')
     (case ob_nulls o' of Some n \<Rightarrow> n | None \<Rightarrow> (case ob_direction o' of Ascending \<Rightarrow> NullsLast | Descending \<Rightarrow> NullsFirst))"

definition frame_offset :: "frame_units \<Rightarrow> string \<Rightarrow> 'e bind_error + u64" where
  "frame_offset units n =
     (if units = RangeUnits then Inl (InvalidWindowFrame ''RANGE offsets are unsupported'')
      else if \<not> all_digits n then Inl (InvalidWindowFrame ''ROWS offset must be a nonnegative integer'')
      else and_then (ok_or (InvalidWindowFrame ''ROWS offset exceeds u64'') (parse_unsigned max_u64 n)) (\<lambda>v. Inr (word_of_nat v)))"

fun convert_bound :: "frame_units \<Rightarrow> frame_bound \<Rightarrow> 'e bind_error + bframe_bound" where
  "convert_bound units UnboundedPreceding = Inr BUnboundedPreceding"
| "convert_bound units UnboundedFollowing = Inr BUnboundedFollowing"
| "convert_bound units CurrentRow = Inr BCurrentRow"
| "convert_bound units (Preceding n) = and_then (frame_offset units n) (\<lambda>v. Inr (BPreceding v))"
| "convert_bound units (Following n) = and_then (frame_offset units n) (\<lambda>v. Inr (BFollowing v))"

fun bound_category :: "bframe_bound \<Rightarrow> nat" where
  "bound_category BUnboundedPreceding = 0"
| "bound_category (BPreceding n) = 1"
| "bound_category BCurrentRow = 2"
| "bound_category (BFollowing n) = 3"
| "bound_category BUnboundedFollowing = 4"

definition bind_frame :: "window_frame option \<Rightarrow> bool \<Rightarrow> 'e bind_error + bwindow_frame" where
  "bind_frame frame ordered = (case frame of
     None \<Rightarrow> Inr (BWindowFrame RangeUnits BUnboundedPreceding (if ordered then BCurrentRow else BUnboundedFollowing))
   | Some frame \<Rightarrow>
       and_then (convert_bound (wf_units frame) (wf_start frame)) (\<lambda>start.
       and_then (convert_bound (wf_units frame) (wf_stop frame)) (\<lambda>stop.
         if start = BUnboundedFollowing \<or> stop = BUnboundedPreceding \<or> bound_category stop < bound_category start
         then Inl (InvalidWindowFrame ''frame boundaries are reversed or use an invalid unbounded endpoint'')
         else Inr (BWindowFrame (wf_units frame) start stop))))"

section \<open>Calls\<close>

definition function_named :: "string \<Rightarrow> 'e bind_error + window_function" where
  "function_named name =
     (if name = ''count'' then Inr (WinAggregate AggCount)
      else if name = ''sum'' then Inr (WinAggregate AggSum)
      else if name = ''avg'' then Inr (WinAggregate AggAvg)
      else if name = ''min'' then Inr (WinAggregate AggMin)
      else if name = ''max'' then Inr (WinAggregate AggMax)
      else if name = ''row_number'' then Inr RowNumber
      else if name = ''rank'' then Inr Rank
      else if name = ''dense_rank'' then Inr DenseRank
      else Inl (UnknownFunction name))"

fun is_aggregate_function :: "window_function \<Rightarrow> bool" where
  "is_aggregate_function (WinAggregate a) = True"
| "is_aggregate_function _ = False"

definition call_allowed :: "window_function \<Rightarrow> bool \<Rightarrow> bool \<Rightarrow> bool \<Rightarrow> bool \<Rightarrow> 'e bind_error + unit" where
  "call_allowed function over dst aggregates windows =
     (if over then
        (if \<not> windows then Inl (InvalidFunction ''window is not allowed in this context'')
         else if dst then Inl (InvalidFunction ''window DISTINCT is unsupported'')
         else Inr ())
      else if \<not> is_aggregate_function function then Inl (InvalidFunction ''ranking functions require OVER'')
      else if \<not> aggregates then Inl (InvalidFunction ''aggregate is not allowed in this context'')
      else Inr ())"

definition call_shape :: "window_function \<Rightarrow> expr list \<Rightarrow> bool \<Rightarrow> expr option \<Rightarrow> 'e bind_error + unit" where
  "call_shape function args dst flt =
     (let star = (args = [Wildcard]) in
      case function of
        WinAggregate a \<Rightarrow>
          if length args \<noteq> 1 \<or> star \<and> a \<noteq> AggCount \<or> star \<and> dst
          then Inl (InvalidFunction ''aggregate requires one argument; only COUNT accepts non-DISTINCT *'')
          else Inr ()
      | _ \<Rightarrow>
          if args \<noteq> [] \<or> dst \<or> flt \<noteq> None
          then Inl (InvalidFunction ''ranking functions take no arguments, DISTINCT, or FILTER'')
          else Inr ())"

text \<open>The type an aggregate's argument is cast to, which is also its result type.\<close>

definition aggregate_target :: "aggregate_function \<Rightarrow> logical_type \<Rightarrow> 'e bind_error + logical_type" where
  "aggregate_target a t = (case a of
     AggCount \<Rightarrow> Inl (BindPanic ''entered unreachable code'')
   | AggSum \<Rightarrow> and_then (require_numeric t False ''aggregate'') (\<lambda>_. Inr (if t \<in> {TFloat32, TFloat64} then TFloat64 else TInt64))
   | AggAvg \<Rightarrow> and_then (require_numeric t False ''aggregate'') (\<lambda>_. Inr TFloat64)
   | AggMin \<Rightarrow> Inr (if t = TNull then TText else t)
   | AggMax \<Rightarrow> Inr (if t = TNull then TText else t))"

definition call_signature :: "window_function \<Rightarrow> bexpr list \<Rightarrow> 'e bind_error + bexpr list \<times> logical_type \<times> bool" where
  "call_signature function args = (case function of
     WinAggregate a \<Rightarrow>
       if a = AggCount then Inr (args, TInt64, False)
       else (case args of
         [] \<Rightarrow> Inl (BindPanic ''removal index (is 0) should be < len (is 0)'')
       | arg # rest \<Rightarrow>
           and_then (aggregate_target a (be_type arg)) (\<lambda>target. Inr (rest @ [cast arg target], target, True)))
   | _ \<Rightarrow> Inr (args, TInt64, False))"

text \<open>
  \<open>bind\<close> is the closure of \<^verbatim>\<open>bind_call\<close>, which binds an operand one level deeper, with
  aggregates exactly when the call is a window and without windows.
\<close>

definition bind_call :: "(expr \<Rightarrow> 'e bind_error + bexpr) \<Rightarrow> string \<Rightarrow> expr list \<Rightarrow> bool \<Rightarrow> expr option \<Rightarrow>
    expr window_spec option \<Rightarrow> bool \<Rightarrow> bool \<Rightarrow> 'e bind_error + bexpr" where
  "bind_call bind name args dst flt over aggregates windows =
     and_then (function_named name) (\<lambda>function.
     and_then (call_allowed function (over \<noteq> None) dst aggregates windows) (\<lambda>_.
     and_then (call_shape function args dst flt) (\<lambda>_.
     and_then (if args = [Wildcard] then Inr [] else try_map bind args) (\<lambda>args.
     and_then (try_option (\<lambda>x. and_then (bind x) (\<lambda>b. boolean b ''FILTER'')) flt) (\<lambda>flt.
     and_then (call_signature function args) (\<lambda>(args, data_type, nullable).
     case over of
       Some over \<Rightarrow>
         and_then (try_map bind (ws_partition_by over)) (\<lambda>partition_by.
         and_then (try_map (\<lambda>o'. and_then (bind (ob_expr o')) (\<lambda>b. Inr (order_key b o'))) (ws_order_by over)) (\<lambda>order_by.
         and_then (bind_frame (ws_frame over) (ws_order_by over \<noteq> [])) (\<lambda>frame.
         Inr (BExpr data_type nullable (KWindow (WindowExpr function args dst flt partition_by order_by frame))))))
     | None \<Rightarrow>
         (case function of
            WinAggregate f \<Rightarrow> Inr (BExpr data_type nullable (KAggregate (AggregateExpr f args dst flt)))
          | _ \<Rightarrow> Inl (BindPanic ''entered unreachable code''))))))))"

text \<open>The operands a call binds, which is all that its value depends on.\<close>

definition call_operands :: "expr list \<Rightarrow> expr option \<Rightarrow> expr window_spec option \<Rightarrow> expr list" where
  "call_operands args flt over =
     (if args = [Wildcard] then [] else args) @ (case flt of None \<Rightarrow> [] | Some x \<Rightarrow> [x]) @
     (case over of None \<Rightarrow> [] | Some w \<Rightarrow> spec_exprs w)"

lemma bind_call_cong [fundef_cong]:
  assumes "name = name'" "args = args'" "dst = dst'" "flt = flt'" "over = over'"
    "aggregates = aggregates'" "windows = windows'"
    and "\<And>x. x \<in> set (call_operands args' flt' over') \<Longrightarrow> bind x = bind' x"
  shows "bind_call bind name args dst flt over aggregates windows =
    bind_call bind' name' args' dst' flt' over' aggregates' windows'"
proof -
  have a: "(if args = [Wildcard] then Inr [] else try_map bind args) = (if args = [Wildcard] then Inr [] else try_map bind' args)"
    using assms(2,8) by (auto simp: call_operands_def intro: try_map_cong)
  have f: "try_option (\<lambda>x. and_then (bind x) h) flt = try_option (\<lambda>x. and_then (bind' x) h) flt" for h
    using assms(4,8) by (intro try_option_cong) (auto simp: call_operands_def)
  have p: "try_map bind (ws_partition_by w) = try_map bind' (ws_partition_by w)" if "over = Some w" for w
    using assms(5,8) that by (intro try_map_cong) (auto simp: call_operands_def spec_exprs_def)
  have o: "try_map (\<lambda>o'. and_then (bind (ob_expr o')) (g o')) (ws_order_by w) =
      try_map (\<lambda>o'. and_then (bind' (ob_expr o')) (g o')) (ws_order_by w)" if "over = Some w" for w g
    using assms(5,8) that by (intro try_map_cong) (auto simp: call_operands_def spec_exprs_def)
  show ?thesis
    unfolding bind_call_def assms(1-7) [symmetric] a f
    by (cases over) (simp_all add: p o cong: and_then_cong)
qed

lemma operand_expr_size:
  assumes "x \<in> set (call_operands args flt over)"
  shows "size x < size (FunctionCall name args dst flt over)"
proof -
  have "size x < size_list size args" if "x \<in> set args" using that by (induction args) auto
  moreover have "size x < size_option size flt" if "flt = Some x" using that by simp
  moreover have "size x < size_window_spec size w" if "over = Some w" "x \<in> set (spec_exprs w)" for w
    using spec_expr_size [OF that(2), of size] .
  ultimately show ?thesis using assms
    by (fastforce simp: call_operands_def split: if_splits option.splits)
qed

lemmas operand_expr_size_simp [termination_simp] = operand_expr_size [simplified]

section \<open>Expressions\<close>

text \<open>\<^verbatim>\<open>Literal::Number\<close> under a minus sign is one token.\<close>

fun minus_literal :: "unary_op \<Rightarrow> expr \<Rightarrow> string option" where
  "minus_literal OpMinus (Literal (LitNumber s)) = Some s"
| "minus_literal _ _ = None"

fun bind_literal :: "literal \<Rightarrow> 'e bind_error + bexpr" where
  "bind_literal LitNull = Inr (value_expr TNull ScNull)"
| "bind_literal (LitBoolean b) = Inr (value_expr TBoolean (ScBoolean b))"
| "bind_literal (LitString s) = Inr (value_expr TText (ScString s))"
| "bind_literal (LitNumber s) = number s False"

definition unary_operand :: "unary_op \<Rightarrow> bexpr \<Rightarrow> 'e bind_error + bexpr" where
  "unary_operand op e =
     (if op = OpNot then boolean e ''NOT''
      else let e = (if be_type e = TNull then cast e TInt32 else e) in
        and_then (require_numeric (be_type e) False ''unary sign'') (\<lambda>_.
          Inr (if op = OpMinus \<and> be_type e = TUint32 then cast e TInt64 else e)))"

definition logical_op :: "binary_op \<Rightarrow> bool" where
  "logical_op op \<longleftrightarrow> op \<in> {OpAnd, OpOr}"

definition arithmetic_op :: "binary_op \<Rightarrow> bool" where
  "arithmetic_op op \<longleftrightarrow> op \<in> {OpAdd, OpSubtract, OpMultiply, OpDivide, OpModulo}"

definition binary_operands :: "binary_op \<Rightarrow> bexpr \<Rightarrow> bexpr \<Rightarrow> 'e bind_error + bexpr \<times> bexpr \<times> logical_type" where
  "binary_operands op left right =
     (if logical_op op then
        and_then (boolean left ''boolean operator'') (\<lambda>left.
        and_then (boolean right ''boolean operator'') (\<lambda>right. Inr (left, right, TBoolean)))
      else if arithmetic_op op then
        and_then (require_numeric (be_type left) (op = OpModulo) ''arithmetic'') (\<lambda>_.
        and_then (require_numeric (be_type right) (op = OpModulo) ''arithmetic'') (\<lambda>_.
        and_then (ok_or (BindPanic ''unwrap on None'') (numeric_common (be_type left) (be_type right))) (\<lambda>target.
        Inr (cast left target, cast right target, target))))
      else
        and_then (ok_or (IncompatibleTypes ''comparison'' (be_type left) (be_type right))
          (comparison_common (be_type left) (be_type right))) (\<lambda>target.
        Inr (cast left target, cast right target, TBoolean)))"

definition depth_guard :: "nat \<Rightarrow> 'e bind_error + 'a \<Rightarrow> 'e bind_error + 'a" where
  "depth_guard depth r = (if depth \<ge> 256 then Inl ExpressionTooDeep else r)"

fun bind_expr_inner :: "expr \<Rightarrow> bind_context \<Rightarrow> nat \<Rightarrow> bool \<Rightarrow> bool \<Rightarrow> 'e bind_error + bexpr" where
  "bind_expr_inner (Alias e alias) context depth aggregates windows =
     depth_guard depth (Inl (InvalidStatement ''alias only allowed on projection''))"
| "bind_expr_inner (FunctionCall name args dst flt over) context depth aggregates windows =
     depth_guard depth (bind_call (\<lambda>x. bind_expr_inner x context (depth + 1) (over \<noteq> None) False)
       name args dst flt over aggregates windows)"
| "bind_expr_inner (Identifier name) context depth aggregates windows =
     depth_guard depth (resolve_column context None name)"
| "bind_expr_inner (QualifiedIdentifier table column) context depth aggregates windows =
     depth_guard depth (resolve_column context (Some table) column)"
| "bind_expr_inner Wildcard context depth aggregates windows = depth_guard depth (Inl InvalidWildcard)"
| "bind_expr_inner (Literal l) context depth aggregates windows = depth_guard depth (bind_literal l)"
| "bind_expr_inner (Unary op e) context depth aggregates windows = depth_guard depth
     (case minus_literal op e of
        Some s \<Rightarrow> number s True
      | None \<Rightarrow>
          and_then (bind_expr_inner e context (depth + 1) aggregates windows) (\<lambda>e.
          and_then (unary_operand op e) (\<lambda>e.
          Inr (BExpr (be_type e) (be_nullable e) (KUnary op e)))))"
| "bind_expr_inner (Binary left op right) context depth aggregates windows = depth_guard depth
     (and_then (bind_expr_inner left context (depth + 1) aggregates windows) (\<lambda>left.
      and_then (bind_expr_inner right context (depth + 1) aggregates windows) (\<lambda>right.
      and_then (binary_operands op left right) (\<lambda>(left, right, data_type).
      Inr (BExpr data_type (be_nullable left \<or> be_nullable right) (KBinary op left right))))))"
| "bind_expr_inner (IsNull e negated) context depth aggregates windows = depth_guard depth
     (and_then (bind_expr_inner e context (depth + 1) aggregates windows) (\<lambda>e.
      Inr (BExpr TBoolean False (KIsNull e negated))))"

definition bind_expr :: "expr \<Rightarrow> bind_context \<Rightarrow> 'e bind_error + bexpr" where
  "bind_expr e context = bind_expr_inner e context 0 False False"

section \<open>Grouping\<close>

definition option_list :: "'a option \<Rightarrow> 'a list" where
  "option_list x = (case x of None \<Rightarrow> [] | Some v \<Rightarrow> [v])"

fun children :: "bexpr \<Rightarrow> bexpr list" where
  "children (BExpr t n k) = (case k of
     KUnary op e \<Rightarrow> [e]
   | KCast e \<Rightarrow> [e]
   | KIsNull e b \<Rightarrow> [e]
   | KBinary op l r \<Rightarrow> [l, r]
   | KWindow w \<Rightarrow> wn_args w @ option_list (wn_filter w) @ wn_partition_by w @ map bo_expr (wn_order_by w)
   | _ \<Rightarrow> [])"

fun is_aggregate :: "bexpr \<Rightarrow> bool" where
  "is_aggregate (BExpr t n (KAggregate a)) = True"
| "is_aggregate _ = False"

fun is_column :: "bexpr \<Rightarrow> bool" where
  "is_column (BExpr t n (KColumn c)) = True"
| "is_column _ = False"

lemma set_option_list [simp]: "set (option_list x) = set_option x"
  by (cases x) (simp_all add: option_list_def)

lemma child_operand: "x \<in> set (children e) \<Longrightarrow> x \<in> set_expr_kind (be_kind e)"
  by (cases e; cases "be_kind e") (auto simp: set_window_expr)

lemma child_size [termination_simp]: "x \<in> set (children e) \<Longrightarrow> size x < size e"
  using child_operand [of x e] operand_size by (cases e) auto

fun contains_aggregate :: "bexpr \<Rightarrow> bool" where
  "contains_aggregate e = (is_aggregate e \<or> list_ex contains_aggregate (children e))"

fun validate_grouped :: "bexpr list \<Rightarrow> bexpr \<Rightarrow> 'e bind_error + unit" where
  "validate_grouped groups e =
     (if list_ex (\<lambda>g. expr_eq g e) groups \<or> is_aggregate e then Inr ()
      else if is_column e then Inl UngroupedColumn
      else try_all (validate_grouped groups) (children e))"

declare contains_aggregate.simps [simp del] validate_grouped.simps [simp del]

end
