(* ===== verification/BindTypes.thy ===== *)
theory BindTypes
  imports Binder
begin

text \<open>
  The type discipline of bound expressions, stated independently of the binder, and the proof
  that expression binding establishes it: every operand has the type its operator needs, every
  cast is between convertible types, no literal is a NaN, nullability is computed from the operands, and aggregates
  and windows occur only in the phase that allows them.
\<close>

section \<open>The discipline\<close>

fun scalar_type :: "scalar \<Rightarrow> logical_type" where
  "scalar_type ScNull = TNull"
| "scalar_type (ScBoolean b) = TBoolean"
| "scalar_type (ScInt32 n) = TInt32"
| "scalar_type (ScInt64 n) = TInt64"
| "scalar_type (ScUint32 n) = TUint32"
| "scalar_type (ScFloat32 n) = TFloat32"
| "scalar_type (ScFloat64 n) = TFloat64"
| "scalar_type (ScString s) = TText"

definition castable :: "logical_type \<Rightarrow> logical_type \<Rightarrow> bool" where
  "castable s t \<longleftrightarrow> s \<noteq> t \<and> (s = TNull \<or> numeric s \<and> numeric t \<or> textual s \<and> textual t)"

definition comparable :: "logical_type \<Rightarrow> bool" where
  "comparable t \<longleftrightarrow> t = TBoolean \<or> t = TText \<or> numeric t"

definition column_typed :: "bind_context \<Rightarrow> column_binding \<Rightarrow> logical_type \<Rightarrow> bool \<Rightarrow> bool" where
  "column_typed context b t n \<longleftrightarrow> (\<exists>scope \<in> set context. \<exists>r \<in> set scope. bt_relation (rb_table r) = cb_relation b \<and>
     cb_index b < length (source_columns (rb_table r)) \<and> col_type (source_columns (rb_table r) ! cb_index b) = t \<and>
     col_nullable (source_columns (rb_table r) ! cb_index b) = n)"

fun signature_typed :: "window_function \<Rightarrow> bexpr list \<Rightarrow> logical_type \<Rightarrow> bool \<Rightarrow> bool" where
  "signature_typed (WinAggregate AggCount) args t n \<longleftrightarrow> length args \<le> 1 \<and> t = TInt64 \<and> \<not> n"
| "signature_typed (WinAggregate AggSum) args t n \<longleftrightarrow> map be_type args = [t] \<and> t \<in> {TInt64, TFloat64} \<and> n"
| "signature_typed (WinAggregate AggAvg) args t n \<longleftrightarrow> map be_type args = [t] \<and> t = TFloat64 \<and> n"
| "signature_typed (WinAggregate AggMin) args t n \<longleftrightarrow> map be_type args = [t] \<and> t \<noteq> TNull \<and> n"
| "signature_typed (WinAggregate AggMax) args t n \<longleftrightarrow> map be_type args = [t] \<and> t \<noteq> TNull \<and> n"
| "signature_typed _ args t n \<longleftrightarrow> args = [] \<and> t = TInt64 \<and> \<not> n"

definition filter_typed :: "bexpr option \<Rightarrow> bool" where
  "filter_typed f \<longleftrightarrow> (\<forall>x \<in> set_option f. be_type x = TBoolean)"

fun bound_offset :: "bframe_bound \<Rightarrow> bool" where
  "bound_offset (BPreceding n) = True"
| "bound_offset (BFollowing n) = True"
| "bound_offset _ = False"

definition frame_ok :: "bwindow_frame \<Rightarrow> bool" where
  "frame_ok f \<longleftrightarrow> bf_start f \<noteq> BUnboundedFollowing \<and> bf_stop f \<noteq> BUnboundedPreceding \<and>
     bound_category (bf_start f) \<le> bound_category (bf_stop f) \<and>
     (bf_units f = RangeUnits \<longrightarrow> \<not> bound_offset (bf_start f) \<and> \<not> bound_offset (bf_stop f))"

definition kind_typed :: "bind_context \<Rightarrow> bool \<Rightarrow> bool \<Rightarrow> logical_type \<Rightarrow> bool \<Rightarrow> bexpr expr_kind \<Rightarrow> bool" where
  "kind_typed context aggregates windows t n k = (case k of
     KLiteral s \<Rightarrow> t = scalar_type s \<and> n = (s = ScNull) \<and> scalar_eq s s
   | KColumn b \<Rightarrow> column_typed context b t n
   | KUnary op e \<Rightarrow> t = be_type e \<and> n = be_nullable e \<and>
       (if op = OpNot then t = TBoolean else numeric t) \<and> (op = OpMinus \<longrightarrow> t \<noteq> TUint32)
   | KBinary op l r \<Rightarrow> be_type l = be_type r \<and> n = (be_nullable l \<or> be_nullable r) \<and>
       (if logical_op op then t = TBoolean \<and> be_type l = TBoolean
        else if arithmetic_op op then t = be_type l \<and> numeric t \<and> (op = OpModulo \<longrightarrow> integral t)
        else t = TBoolean \<and> comparable (be_type l))
   | KCast e \<Rightarrow> castable (be_type e) t \<and> n = be_nullable e
   | KIsNull e negated \<Rightarrow> t = TBoolean \<and> \<not> n
   | KAggregate a \<Rightarrow> aggregates \<and> signature_typed (WinAggregate (ag_function a)) (ag_args a) t n \<and>
       filter_typed (ag_filter a) \<and> (ag_distinct a \<longrightarrow> ag_args a \<noteq> [])
   | KWindow w \<Rightarrow> windows \<and> signature_typed (wn_function w) (wn_args w) t n \<and> filter_typed (wn_filter w) \<and>
       \<not> wn_distinct w \<and> (\<not> is_aggregate_function (wn_function w) \<longrightarrow> wn_filter w = None) \<and> frame_ok (wn_frame w))"

text \<open>Operands of an aggregate see neither aggregates nor windows, those of a window only aggregates.\<close>

definition operand_phase :: "'e expr_kind \<Rightarrow> bool \<Rightarrow> bool \<Rightarrow> bool \<times> bool" where
  "operand_phase k aggregates windows =
     (case k of KAggregate a \<Rightarrow> (False, False) | KWindow w \<Rightarrow> (True, False) | _ \<Rightarrow> (aggregates, windows))"

fun well_typed :: "bind_context \<Rightarrow> bool \<Rightarrow> bool \<Rightarrow> bexpr \<Rightarrow> bool" where
  "well_typed context aggregates windows (BExpr t n k) \<longleftrightarrow> kind_typed context aggregates windows t n k \<and>
     (\<forall>x \<in> set_expr_kind k. case operand_phase k aggregates windows of (a, w) \<Rightarrow> well_typed context a w x)"

declare well_typed.simps [simp del]

lemmas typed_simps = well_typed.simps kind_typed_def operand_phase_def

section \<open>Resolution\<close>

lemma column_expr_typed:
  assumes "scope \<in> set context" "r \<in> set scope" "i < length (source_columns (rb_table r))"
  shows "well_typed context aggregates windows (column_expr (bt_relation (rb_table r)) i (source_columns (rb_table r) ! i))"
  using assms by (auto simp: column_expr_def typed_simps column_typed_def)

text \<open>The expressions a relation offers for a name, in column order.\<close>

definition column_matches :: "u32 \<Rightarrow> nat \<Rightarrow> string \<Rightarrow> column_schema list \<Rightarrow> bexpr list" where
  "column_matches rel i name cs = map (\<lambda>(j, c). column_expr rel j c) (filter (\<lambda>(j, c). col_name c = name) (enumerate i cs))"

lemma column_matches_simps [simp]:
  "column_matches rel i name [] = []"
  "column_matches rel i name (c # cs) =
     (if col_name c = name then [column_expr rel i c] else []) @ column_matches rel (Suc i) name cs"
  by (simp_all add: column_matches_def)

definition relation_matches :: "string \<Rightarrow> relation_binding \<Rightarrow> bexpr list" where
  "relation_matches name r = column_matches (bt_relation (rb_table r)) 0 name (source_columns (rb_table r))"

definition qualified_relations :: "string option \<Rightarrow> scope \<Rightarrow> scope" where
  "qualified_relations q scope = (case q of None \<Rightarrow> scope | Some q \<Rightarrow> filter (\<lambda>r. rb_name r = q) scope)"

definition scope_matches :: "string option \<Rightarrow> string \<Rightarrow> scope \<Rightarrow> bexpr list" where
  "scope_matches q name scope = concat (map (relation_matches name) (qualified_relations q scope))"

text \<open>The scope that decides a name: a qualified name belongs to the nearest scope with the relation.\<close>

definition decides :: "string option \<Rightarrow> string \<Rightarrow> scope \<Rightarrow> bool" where
  "decides q name scope \<longleftrightarrow> (if q = None then scope_matches q name scope \<noteq> [] else qualified_relations q scope \<noteq> [])"

definition resolve_reference :: "bind_context \<Rightarrow> string option \<Rightarrow> string \<Rightarrow> 'e bind_error + bexpr" where
  "resolve_reference context q name = (case find (decides q name) (rev context) of
     None \<Rightarrow> Inl (UnknownColumn q name)
   | Some scope \<Rightarrow>
       if q \<noteq> None \<and> length (qualified_relations q scope) > 1 then Inl (AmbiguousColumn q name)
       else (case scope_matches q name scope of
         [] \<Rightarrow> Inl (UnknownColumn q name)
       | [e] \<Rightarrow> Inr e
       | _ \<Rightarrow> Inl (AmbiguousColumn q name)))"

lemma resolve_columns_matches:
  "resolve_columns amb name rel i cs found =
     (case option_list found @ column_matches rel i name cs of [] \<Rightarrow> Inr None | [e] \<Rightarrow> Inr (Some e) | _ \<Rightarrow> Inl amb)"
proof (induction cs arbitrary: i found)
  case Nil
  then show ?case by (cases found) (simp_all add: option_list_def)
next
  case (Cons c cs)
  then show ?case by (cases found) (simp_all add: option_list_def split: list.splits)
qed

lemma scope_matches_simps [simp]:
  "scope_matches q name [] = []"
  "scope_matches None name (r # rs) = relation_matches name r @ scope_matches None name rs"
  "scope_matches (Some q') name (r # rs) = (if rb_name r = q' then relation_matches name r else []) @ scope_matches (Some q') name rs"
  by (simp_all add: scope_matches_def qualified_relations_def split: option.splits)

lemma qualified_relations_simps [simp]:
  "qualified_relations (Some q) [] = []"
  "qualified_relations (Some q) (r # rs) = (if rb_name r = q then [r] else []) @ qualified_relations (Some q) rs"
  by (simp_all add: qualified_relations_def)

lemma no_relation_no_match: "qualified_relations (Some q) rs = [] \<Longrightarrow> scope_matches (Some q) name rs = []"
  by (induction rs) (auto split: if_splits)

lemma resolve_relation_matches:
  "resolve_columns amb name (bt_relation (rb_table r)) 0 (source_columns (rb_table r)) found =
     (case option_list found @ relation_matches name r of [] \<Rightarrow> Inr None | [e] \<Rightarrow> Inr (Some e) | _ \<Rightarrow> Inl amb)"
  by (simp add: resolve_columns_matches relation_matches_def)

lemma resolve_relations_unqualified:
  "resolve_relations amb None name rs found n =
     (case option_list found @ scope_matches None name rs of [] \<Rightarrow> Inr (None, n) | [e] \<Rightarrow> Inr (Some e, n) | _ \<Rightarrow> Inl amb)"
  by (induction rs arbitrary: found)
    (auto simp: option_list_def resolve_relation_matches split: list.splits option.splits)

lemma resolve_relations_qualified:
  "n \<le> 1 \<Longrightarrow> (n = 0 \<longrightarrow> found = None) \<Longrightarrow> resolve_relations amb (Some q) name rs found n =
     (if n + length (qualified_relations (Some q) rs) > 1 then Inl amb
      else (case option_list found @ scope_matches (Some q) name rs of
        [] \<Rightarrow> Inr (None, n + length (qualified_relations (Some q) rs))
      | [e] \<Rightarrow> Inr (Some e, n + length (qualified_relations (Some q) rs))
      | _ \<Rightarrow> Inl amb))"
proof (induction rs arbitrary: found n)
  case Nil
  then show ?case by (auto simp: option_list_def split: option.splits)
next
  case (Cons r rs)
  show ?case
  proof (cases "rb_name r = q")
    case False
    with Cons show ?thesis by (simp cong: list.case_cong)
  next
    case True
    show ?thesis
    proof (cases n)
      case 0
      then have f: "found = None" using Cons.prems by simp
      have rest: "qualified_relations (Some q) rs = [] \<Longrightarrow> scope_matches (Some q) name rs = []" by (rule no_relation_no_match)
      from 0 f True rest show ?thesis
        by (cases "qualified_relations (Some q) rs")
          (auto simp: resolve_relation_matches Cons.IH option_list_def split: list.splits)
    next
      case (Suc m)
      with True Cons.prems show ?thesis by simp
    qed
  qed
qed

lemma resolve_scopes_reference:
  "resolve_scopes q name ss = resolve_reference (rev ss) q name"
proof (induction ss)
  case (Cons scope ss)
  show ?case
  proof (cases q)
    case None
    with Cons show ?thesis
      by (auto simp: resolve_relations_unqualified option_list_def resolve_reference_def decides_def split: list.splits)
  next
    case (Some q')
    show ?thesis
    proof (cases "qualified_relations (Some q') scope")
      case Nil
      with Cons Some no_relation_no_match [OF Nil, of name] show ?thesis
        by (simp add: resolve_relations_qualified option_list_def resolve_reference_def decides_def)
    next
      case (Cons r rs)
      with Some show ?thesis
        by (auto simp: resolve_relations_qualified option_list_def resolve_reference_def decides_def split: list.splits)
    qed
  qed
qed (simp add: resolve_reference_def)

lemma resolve_column_reference: "resolve_column context q name = resolve_reference context q name"
  by (simp add: resolve_column_def resolve_scopes_reference)

lemma column_matches_set:
  "e \<in> set (column_matches rel i name cs) \<Longrightarrow> \<exists>j < length cs. e = column_expr rel (i + j) (cs ! j) \<and> col_name (cs ! j) = name"
proof (induction cs arbitrary: i)
  case (Cons c cs)
  show ?case
  proof (cases "col_name c = name \<and> e = column_expr rel i c")
    case True
    then show ?thesis by (intro exI [of _ 0]) simp
  next
    case False
    with Cons.prems have "e \<in> set (column_matches rel (Suc i) name cs)" by (auto split: if_splits)
    from Cons.IH [OF this] obtain j where "j < length cs" "e = column_expr rel (Suc i + j) (cs ! j)" "col_name (cs ! j) = name"
      by blast
    then show ?thesis by (intro exI [of _ "Suc j"]) simp
  qed
qed simp

lemma scope_matches_set:
  assumes "e \<in> set (scope_matches q name scope)"
  shows "\<exists>r \<in> set scope. \<exists>j < length (source_columns (rb_table r)). (q \<noteq> None \<longrightarrow> q = Some (rb_name r)) \<and>
    e = column_expr (bt_relation (rb_table r)) j (source_columns (rb_table r) ! j) \<and>
    col_name (source_columns (rb_table r) ! j) = name"
  using assms
  by (auto simp: scope_matches_def relation_matches_def qualified_relations_def split: option.splits dest!: column_matches_set) blast+

text \<open>Only columns in scope with the requested name are resolved, and nothing else than the two resolution errors is returned.\<close>

lemma resolve_column_result:
  assumes "resolve_column context q name = r"
  shows "case r of
      Inr e \<Rightarrow> \<exists>scope \<in> set context. e \<in> set (scope_matches q name scope)
    | Inl err \<Rightarrow> err = UnknownColumn q name \<or> err = AmbiguousColumn q name"
proof (cases "find (decides q name) (rev context)")
  case None
  with assms show ?thesis by (auto simp: resolve_column_reference resolve_reference_def)
next
  case (Some scope)
  then have "scope \<in> set context" by (metis find_Some_iff nth_mem set_rev)
  moreover have "r = (if q \<noteq> None \<and> length (qualified_relations q scope) > 1 then Inl (AmbiguousColumn q name)
      else (case scope_matches q name scope of [] \<Rightarrow> Inl (UnknownColumn q name) | [e] \<Rightarrow> Inr e | _ \<Rightarrow> Inl (AmbiguousColumn q name)))"
    using Some assms by (simp add: resolve_column_reference resolve_reference_def)
  ultimately show ?thesis by (auto split: list.splits if_splits intro!: bexI [of _ scope])
qed

section \<open>Coercions\<close>

lemma numeric_simps [simp]:
  "numeric TInt32" "numeric TInt64" "numeric TUint32" "numeric TFloat32" "numeric TFloat64"
  "\<not> numeric TNull" "\<not> numeric TBoolean" "\<not> numeric TText" "\<not> numeric (TVarchar n)"
  "integral TInt32" "integral TInt64" "integral TUint32" "\<not> integral TNull" "\<not> integral TFloat64" "\<not> integral TFloat32"
  by (simp_all add: numeric_def integral_def)

lemma integral_numeric: "integral t \<Longrightarrow> numeric t"
  by (auto simp: integral_def)

definition casts_to :: "logical_type \<Rightarrow> logical_type \<Rightarrow> bool" where
  "casts_to s t \<longleftrightarrow> s = t \<or> castable s t"

lemma casts_to_iff:
  "casts_to s t \<longleftrightarrow> s = t \<or> s = TNull \<or> numeric s \<and> numeric t \<or> textual s \<and> textual t"
  by (auto simp: casts_to_def castable_def)

lemma cast_result [simp]: "be_type (cast e t) = t" "be_nullable (cast e t) = be_nullable e"
  by (simp_all add: cast_def)

lemma cast_typed:
  assumes "well_typed context a w e" "casts_to (be_type e) t"
  shows "well_typed context a w (cast e t)"
  using assms by (auto simp: cast_def casts_to_def typed_simps)

lemma boolean_Inr:
  "boolean e c = Inr b \<longleftrightarrow> b = cast e TBoolean \<and> be_type e \<in> {TBoolean, TNull}"
  by (auto simp: boolean_def cast_def split: logical_type.splits)

lemma boolean_typed:
  assumes "well_typed context a w e" "boolean e c = Inr b"
  shows "well_typed context a w b \<and> be_type b = TBoolean \<and> be_nullable b = be_nullable e"
  using assms by (auto simp: boolean_Inr casts_to_iff intro!: cast_typed)

lemma assignment_Inr:
  "assignment e t = Inr b \<longleftrightarrow> b = cast e t \<and> casts_to (be_type e) t"
  by (auto simp: assignment_def Let_def casts_to_def castable_def)

lemma require_numeric_Inr:
  "require_numeric t i c = Inr u \<longleftrightarrow> t = TNull \<or> numeric t \<and> (i \<longrightarrow> integral t)"
  by (auto simp: require_numeric_def)

lemma numeric_common_Some:
  assumes "numeric_common l r = Some t"
  shows "numeric t \<and> casts_to l t \<and> casts_to r t"
  using assms by (auto simp: numeric_common_def casts_to_iff split: if_splits)

lemma numeric_common_integral:
  assumes "numeric_common l r = Some t" "l = TNull \<or> integral l" "r = TNull \<or> integral r"
  shows "integral t"
  using assms by (auto simp: numeric_common_def integral_def split: if_splits)

lemma numeric_common_defined:
  assumes "l = TNull \<or> numeric l" "r = TNull \<or> numeric r"
  shows "numeric_common l r \<noteq> None"
  using assms by (auto simp: numeric_common_def)

lemma comparison_common_Some:
  assumes "comparison_common l r = Some t"
  shows "comparable t \<and> casts_to l t \<and> casts_to r t"
  using assms
proof (induction l r rule: comparison_common.induct)
  case (1 l r)
  show ?case
  proof (cases "l = TNull \<or> r = TNull")
    case True
    with 1 show ?thesis
      by (subst (asm) (2) comparison_common.simps) (auto simp: comparable_def casts_to_iff split: if_splits)
  next
    case False
    with "1.prems" show ?thesis
      by (auto simp: comparison_common.simps [of l r] comparable_def casts_to_iff split: if_splits
          dest!: numeric_common_Some)
  qed
qed

lemma number_typed:
  assumes "number s negative = Inr e"
  shows "well_typed context a w e \<and> numeric (be_type e) \<and> \<not> be_nullable e"
  using assms
  by (auto simp: number_def Let_def value_expr_def typed_simps and_then_Inr_iff f64_finite split: if_splits)

lemma literal_typed:
  assumes "bind_literal l = Inr e"
  shows "well_typed context a w e"
  using assms by (cases l) (auto simp: value_expr_def typed_simps intro: number_typed [THEN conjunct1])

lemma resolve_column_typed:
  assumes "resolve_column context q name = Inr e"
  shows "well_typed context a w e"
  using resolve_column_result [OF assms] by (auto intro: column_expr_typed dest!: scope_matches_set)

lemma unary_typed:
  assumes "well_typed context a w e" "unary_operand op e = Inr b"
  shows "well_typed context a w (BExpr (be_type b) (be_nullable b) (KUnary op b))"
proof -
  have "well_typed context a w b \<and> (if op = OpNot then be_type b = TBoolean else numeric (be_type b)) \<and>
      (op = OpMinus \<longrightarrow> be_type b \<noteq> TUint32)"
    using assms
    by (auto simp: unary_operand_def Let_def and_then_Inr_iff require_numeric_Inr casts_to_iff dest!: boolean_typed [OF assms(1)]
        intro!: cast_typed split: if_splits)
  then show ?thesis by (simp add: typed_simps)
qed

lemma binary_typed:
  assumes "well_typed context a w l" "well_typed context a w r" "binary_operands op l r = Inr (l', r', t)"
  shows "well_typed context a w (BExpr t (be_nullable l' \<or> be_nullable r') (KBinary op l' r'))"
proof -
  have ops: "well_typed context a w l'" "well_typed context a w r'" "be_type l' = be_type r'"
    and t: "if logical_op op then t = TBoolean \<and> be_type l' = TBoolean
      else if arithmetic_op op then t = be_type l' \<and> numeric t \<and> (op = OpModulo \<longrightarrow> integral t)
      else t = TBoolean \<and> comparable (be_type l')"
    using assms(3)
    by (auto simp: binary_operands_def and_then_Inr_iff require_numeric_Inr numeric_common_integral
        dest!: boolean_typed [OF assms(1)] boolean_typed [OF assms(2)] dest: numeric_common_Some comparison_common_Some
        intro!: cast_typed assms(1,2) split: if_splits)
  then show ?thesis by (simp add: typed_simps)
qed

section \<open>Calls and expressions\<close>

lemma convert_bound_offset: "convert_bound RangeUnits b = Inr c \<Longrightarrow> \<not> bound_offset c"
  by (cases b) (auto simp: frame_offset_def)

lemma bind_frame_ok: "bind_frame f ordered = Inr frame \<Longrightarrow> frame_ok frame"
  by (auto simp: bind_frame_def frame_ok_def and_then_Inr_iff dest: convert_bound_offset split: option.splits if_splits)

lemma call_shape_Inr:
  "call_shape f args dst flt = Inr u \<longleftrightarrow> (case f of
     WinAggregate a \<Rightarrow> length args = 1 \<and> (args = [Wildcard] \<longrightarrow> a = AggCount \<and> \<not> dst)
   | _ \<Rightarrow> args = [] \<and> \<not> dst \<and> flt = None)"
  by (auto simp: call_shape_def Let_def split: window_function.splits)

lemma aggregate_target_Inr:
  assumes "aggregate_target a t = Inr target"
  shows "casts_to t target \<and> a \<noteq> AggCount \<and> (\<forall>args. map be_type args = [target] \<longrightarrow> signature_typed (WinAggregate a) args target True)"
  using assms by (cases a) (auto simp: aggregate_target_def and_then_Inr_iff require_numeric_Inr casts_to_iff split: if_splits)

lemma call_signature_typed:
  assumes "call_signature f args = Inr (args', t, n)"
    and "case f of WinAggregate a \<Rightarrow> length args = 1 \<or> a = AggCount \<and> args = [] | _ \<Rightarrow> args = []"
    and "\<forall>x \<in> set args. well_typed context a w x"
  shows "signature_typed f args' t n \<and> (\<forall>x \<in> set args'. well_typed context a w x) \<and> (args' = [] \<longleftrightarrow> args = [])"
proof (cases f)
  case (WinAggregate g)
  show ?thesis
  proof (cases "g = AggCount")
    case True
    with WinAggregate assms show ?thesis by (auto simp: call_signature_def)
  next
    case False
    with WinAggregate assms(2) obtain arg where "args = [arg]" by (auto simp: length_Suc_conv)
    with WinAggregate False assms(1,3) show ?thesis
      by (auto simp: call_signature_def and_then_Inr_iff dest!: aggregate_target_Inr intro: cast_typed)
  qed
qed (use assms in \<open>auto simp: call_signature_def\<close>)

text \<open>What a successful call consists of.\<close>

lemma bind_call_Inr:
  fixes bind :: "expr \<Rightarrow> 'e bind_error + bexpr"
  assumes "bind_call bind name args dst flt over aggregates windows = Inr b"
  obtains f args1 flt1 args2 t n where
    "call_allowed f (over \<noteq> None) dst aggregates windows = (Inr () :: 'e bind_error + unit)" "call_shape f args dst flt = (Inr () :: 'e bind_error + unit)"
    "(if args = [Wildcard] then Inr [] else try_map bind args) = Inr args1"
    "try_option (\<lambda>x. and_then (bind x) (\<lambda>b. boolean b ''FILTER'')) flt = Inr flt1"
    "call_signature f args1 = (Inr (args2, t, n) :: 'e bind_error + _)"
    "(case over of
        None \<Rightarrow> (\<exists>a. f = WinAggregate a \<and> b = BExpr t n (KAggregate (AggregateExpr a args2 dst flt1)))
      | Some w \<Rightarrow> (\<exists>ps os fr. try_map bind (ws_partition_by w) = Inr ps \<and>
          try_map (\<lambda>o'. and_then (bind (ob_expr o')) (\<lambda>b. Inr (order_key b o'))) (ws_order_by w) = Inr os \<and>
          bind_frame (ws_frame w) (ws_order_by w \<noteq> []) = (Inr fr :: 'e bind_error + _) \<and>
          b = BExpr t n (KWindow (WindowExpr f args2 dst flt1 ps os fr))))"
  using assms unfolding bind_call_def
  by (auto simp: and_then_Inr_iff split: option.splits window_function.splits prod.splits)

lemma bo_expr_order_key [simp]: "bo_expr (order_key e o') = e"
  by (simp add: order_key_def)

lemma bind_call_typed:
  fixes bind :: "expr \<Rightarrow> 'e bind_error + bexpr"
  assumes "bind_call bind name args dst flt over aggregates windows = Inr b"
    and ops: "\<forall>x \<in> set (call_operands args flt over). \<forall>y. bind x = Inr y \<longrightarrow> well_typed context (over \<noteq> None) False y"
  shows "well_typed context aggregates windows b"
proof -
  from assms(1) obtain f args1 flt1 args2 t n where allowed: "call_allowed f (over \<noteq> None) dst aggregates windows = (Inr () :: 'e bind_error + unit)"
    and shape: "call_shape f args dst flt = (Inr () :: 'e bind_error + unit)"
    and args1: "(if args = [Wildcard] then Inr [] else try_map bind args) = Inr args1"
    and flt1: "try_option (\<lambda>x. and_then (bind x) (\<lambda>b. boolean b ''FILTER'')) flt = Inr flt1"
    and sig: "call_signature f args1 = (Inr (args2, t, n) :: 'e bind_error + _)"
    and b: "case over of
        None \<Rightarrow> (\<exists>a. f = WinAggregate a \<and> b = BExpr t n (KAggregate (AggregateExpr a args2 dst flt1)))
      | Some w \<Rightarrow> (\<exists>ps os fr. try_map bind (ws_partition_by w) = Inr ps \<and>
          try_map (\<lambda>o'. and_then (bind (ob_expr o')) (\<lambda>b. Inr (order_key b o'))) (ws_order_by w) = Inr os \<and>
          bind_frame (ws_frame w) (ws_order_by w \<noteq> []) = (Inr fr :: 'e bind_error + _) \<and>
          b = BExpr t n (KWindow (WindowExpr f args2 dst flt1 ps os fr)))"
    by (rule bind_call_Inr)
  let ?ok = "well_typed context (over \<noteq> None) False"
  have "\<forall>x \<in> set args1. ?ok x"
    using args1 ops by (auto simp: call_operands_def dest!: try_map_set split: if_splits)
  moreover have "case f of WinAggregate a \<Rightarrow> length args1 = 1 \<or> a = AggCount \<and> args1 = [] | _ \<Rightarrow> args1 = []"
    using shape args1 by (auto simp: call_shape_Inr dest: try_map_length split: window_function.splits if_splits)
  ultimately have s: "signature_typed f args2 t n" "\<forall>x \<in> set args2. ?ok x" "args2 = [] \<longleftrightarrow> args1 = []"
    using call_signature_typed [OF sig, of "context" "over \<noteq> None" False] by blast+
  have fl: "(\<forall>x \<in> set_option flt1. ?ok x) \<and> filter_typed flt1"
    using flt1 ops by (cases flt) (auto simp: call_operands_def and_then_Inr_iff filter_typed_def dest: boolean_typed)
  have none: "flt = None \<Longrightarrow> flt1 = None" using flt1 by auto
  have dst: "dst \<Longrightarrow> args2 \<noteq> []"
    using s(3) shape args1 by (auto simp: call_shape_Inr dest: try_map_length split: window_function.splits if_splits)
  show ?thesis
  proof (cases over)
    case None
    with b allowed s fl dst show ?thesis
      by (auto simp: typed_simps set_aggregate_expr call_allowed_def split: if_splits)
  next
    case (Some w)
    then obtain ps os fr where w: "try_map bind (ws_partition_by w) = Inr ps"
        "try_map (\<lambda>o'. and_then (bind (ob_expr o')) (\<lambda>b. Inr (order_key b o'))) (ws_order_by w) = Inr os"
        "bind_frame (ws_frame w) (ws_order_by w \<noteq> []) = (Inr fr :: 'e bind_error + _)"
        "b = BExpr t n (KWindow (WindowExpr f args2 dst flt1 ps os fr))" using b by auto
    have op: "?ok y" if "x \<in> set (spec_exprs w)" "bind x = Inr y" for x y
      using that ops Some by (auto simp: call_operands_def)
    have "\<forall>x \<in> set ps. ?ok x"
      using try_map_set [OF w(1)] op by (fastforce simp: spec_exprs_def)
    moreover have "\<forall>x \<in> set os. ?ok (bo_expr x)"
      using try_map_set [OF w(2)] op by (fastforce simp: spec_exprs_def and_then_Inr_iff)
    moreover have "\<not> is_aggregate_function f \<longrightarrow> flt1 = None"
      using shape none by (cases f) (auto simp: call_shape_Inr)
    ultimately show ?thesis
      using w(4) s fl allowed Some bind_frame_ok [OF w(3)]
      by (auto simp: typed_simps set_window_expr call_allowed_def split: if_splits)
  qed
qed

lemma depth_guard_Inr: "depth_guard d r = Inr x \<longleftrightarrow> d < 256 \<and> r = Inr x"
  by (simp add: depth_guard_def)

lemma depth_guard_Inl: "depth_guard d r = Inl e \<longleftrightarrow> (256 \<le> d \<and> e = ExpressionTooDeep) \<or> (d < 256 \<and> r = Inl e)"
  by (auto simp: depth_guard_def)

lemma bind_expr_inner_typed:
  "bind_expr_inner e context depth aggregates windows = (Inr b :: 'e bind_error + bexpr) \<Longrightarrow> well_typed context aggregates windows b"
proof (induction e "context" depth aggregates windows arbitrary: b rule: bind_expr_inner.induct [where 'e = 'e])
  case (2 name args dst flt over ctx depth aggregates windows)
  from "2.prems" have call: "bind_call (\<lambda>x. bind_expr_inner x ctx (depth + 1) (over \<noteq> None) False) name args dst flt over
      aggregates windows = (Inr b :: 'e bind_error + bexpr)"
    by (simp only: bind_expr_inner.simps depth_guard_Inr)
  show ?case by (rule bind_call_typed [OF call]) (use "2.IH" in blast)
next
  case (7 op e ctx depth aggregates windows)
  then show ?case
    by (auto simp: depth_guard_Inr and_then_Inr_iff split: option.splits intro: unary_typed number_typed [THEN conjunct1])
next
  case (8 left op right ctx depth aggregates windows)
  then show ?case by (auto simp: depth_guard_Inr and_then_Inr_iff split: prod.splits intro: binary_typed)
next
  case (9 e negated ctx depth aggregates windows)
  from "9.prems" obtain x where x: "bind_expr_inner e ctx (depth + 1) aggregates windows = (Inr x :: 'e bind_error + bexpr)"
    and b: "b = BExpr TBoolean False (KIsNull x negated)"
    by (auto simp: depth_guard_Inr and_then_Inr_iff)
  from "9.IH" [OF x] b show ?case by (simp add: typed_simps)
qed (auto simp: depth_guard_Inr intro: resolve_column_typed literal_typed)

end
