(* ===== verification/BindErrors.thy ===== *)
theory BindErrors
  imports BindTypes
begin

text \<open>
  The errors of expression binding: it never panics, it never reports a catalog failure, and it
  reports excessive nesting exactly for expressions nested deeper than 256 levels, so that the
  recursion over the syntax tree is bounded whatever tree it is given.
\<close>

section \<open>Semantic errors\<close>

text \<open>The errors that are verdicts on the expression itself.\<close>

fun semantic :: "'e bind_error \<Rightarrow> bool" where
  "semantic (BindPanic m) = False"
| "semantic ExpressionTooDeep = False"
| "semantic (CatalogFailure e) = False"
| "semantic _ = True"

lemma boolean_semantic: "boolean e c = Inl err \<Longrightarrow> semantic err"
  by (auto simp: boolean_def split: logical_type.splits)

lemma assignment_semantic: "assignment e t = Inl err \<Longrightarrow> semantic err"
  by (auto simp: assignment_def Let_def split: if_splits)

lemma require_numeric_semantic: "require_numeric t i c = Inl err \<Longrightarrow> semantic err"
  by (auto simp: require_numeric_def split: if_splits)

lemma ok_or_Inl_iff [simp]: "ok_or e r = Inl err \<longleftrightarrow> r = None \<and> err = e"
  by (cases r) auto

lemma number_semantic: "number s negative = Inl err \<Longrightarrow> semantic err"
  by (auto simp: number_def Let_def and_then_Inl_iff split: if_splits)

lemma literal_semantic: "bind_literal l = Inl err \<Longrightarrow> semantic err"
  by (cases l) (auto dest: number_semantic)

lemma resolve_column_semantic:
  assumes "resolve_column context q name = Inl err"
  shows "semantic err"
  using resolve_column_result [OF assms] by auto

lemma unary_operand_semantic: "unary_operand op e = Inl err \<Longrightarrow> semantic err"
  by (auto simp: unary_operand_def Let_def and_then_Inl_iff split: if_splits dest: boolean_semantic require_numeric_semantic)

lemma numeric_common_None:
  "numeric_common l r = None \<longleftrightarrow> l \<noteq> TNull \<and> \<not> numeric l \<or> r \<noteq> TNull \<and> \<not> numeric r"
  by (auto simp: numeric_common_def)

lemma binary_operands_semantic: "binary_operands op l r = Inl err \<Longrightarrow> semantic err"
  by (auto simp: binary_operands_def and_then_Inl_iff require_numeric_Inr numeric_common_None split: if_splits
      dest: boolean_semantic require_numeric_semantic)

lemma frame_semantic:
  "bind_frame f ordered = Inl err \<Longrightarrow> semantic err"
proof -
  have "frame_offset u n = Inl err \<Longrightarrow> semantic err" for u n
    by (auto simp: frame_offset_def and_then_Inl_iff split: if_splits)
  then have "convert_bound u b = Inl err \<Longrightarrow> semantic err" for u b by (cases b) (auto simp: and_then_Inl_iff)
  then show "bind_frame f ordered = Inl err \<Longrightarrow> semantic err"
    by (auto simp: bind_frame_def and_then_Inl_iff split: option.splits if_splits)
qed

lemma function_named_semantic: "function_named name = Inl err \<Longrightarrow> semantic err"
  by (auto simp: function_named_def split: if_splits)

lemma call_allowed_semantic: "call_allowed f o' d a w = Inl err \<Longrightarrow> semantic err"
  by (auto simp: call_allowed_def split: if_splits)

lemma call_shape_semantic: "call_shape f args d flt = Inl err \<Longrightarrow> semantic err"
  by (auto simp: call_shape_def Let_def split: window_function.splits if_splits)

lemma call_signature_semantic:
  assumes "call_signature f args = Inl err" "case f of WinAggregate a \<Rightarrow> length args = 1 \<or> a = AggCount | _ \<Rightarrow> True"
  shows "semantic err"
  using assms
  by (auto simp: call_signature_def aggregate_target_def and_then_Inl_iff dest: require_numeric_semantic
      split: window_function.splits if_splits list.splits aggregate_function.splits)

text \<open>A failing call fails by its own checks or by an operand.\<close>

lemma bind_call_error:
  fixes bind :: "expr \<Rightarrow> 'e bind_error + bexpr"
  shows "fails_in (\<lambda>err. semantic err \<or> (\<exists>x \<in> set (call_operands args flt over). bind x = Inl err))
    (bind_call bind name args dst flt over aggregates windows)"
proof -
  let ?E = "\<lambda>err. semantic err \<or> (\<exists>x \<in> set (call_operands args flt over). bind x = Inl err)"
  have sem: "fails_in ?E r" if "\<And>err. r = Inl err \<Longrightarrow> semantic err" for r :: "'e bind_error + 'x"
    using that by (auto intro: fails_inI)
  have op: "fails_in ?E (bind x)" if "x \<in> set (call_operands args flt over)" for x
    using that by (auto intro: fails_inI)
  have shape: "case f of WinAggregate a \<Rightarrow> length args1 = 1 \<or> a = AggCount | _ \<Rightarrow> True"
    if "call_shape f args dst flt = (Inr () :: 'e bind_error + unit)"
      "(if args = [Wildcard] then Inr [] else try_map bind args) = Inr args1" for f args1
    using that by (auto simp: call_shape_Inr dest: try_map_length split: window_function.splits if_splits)
  have agg: "\<exists>a. f = WinAggregate a" if "call_allowed f False dst aggregates windows = (Inr () :: 'e bind_error + unit)" for f
    using that by (cases f) (auto simp: call_allowed_def)
  have window: "fails_in ?E (and_then (try_map bind (ws_partition_by w)) (\<lambda>partition_by.
      and_then (try_map (\<lambda>o'. and_then (bind (ob_expr o')) (\<lambda>b. Inr (order_key b o'))) (ws_order_by w)) (\<lambda>order_by.
      and_then (bind_frame (ws_frame w) (ws_order_by w \<noteq> [])) (\<lambda>frame. Inr (g partition_by order_by frame)))))"
    if "over = Some w" for w and g :: "bexpr list \<Rightarrow> bexpr border_by list \<Rightarrow> bwindow_frame \<Rightarrow> bexpr"
    by (intro fails_rules op sem [OF frame_semantic]) (auto simp: call_operands_def spec_exprs_def that)
  show ?thesis
    unfolding bind_call_def
    apply (rule fails_in_and_then, rule sem, erule function_named_semantic)
    apply (rule fails_in_and_then, rule sem, erule call_allowed_semantic)
    apply (rule fails_in_and_then, rule sem, erule call_shape_semantic)
    apply (rule fails_in_and_then, intro fails_rules op, simp add: call_operands_def)
    apply (rule fails_in_and_then, intro fails_rules op, simp add: call_operands_def, rule sem, erule boolean_semantic)
    apply (rule fails_in_and_then, rule sem, erule call_signature_semantic, rule shape, simp, assumption)
    subgoal premises prems for f _ _ args1 flt1 r
    proof (cases over)
      case None
      with prems(2) agg [of f] show ?thesis by (auto split: prod.split)
    next
      case (Some w)
      show ?thesis by (cases r) (simp only: Some option.case prod.case window [OF Some, unfolded Some])
    qed
    done
qed

section \<open>Nesting\<close>

fun max_list :: "nat list \<Rightarrow> nat" where
  "max_list [] = 0"
| "max_list (x # xs) = max x (max_list xs)"

lemma max_list_le: "max_list xs \<le> n \<longleftrightarrow> (\<forall>x \<in> set xs. x \<le> n)"
  by (induction xs) auto

text \<open>The nesting of an expression as the binder counts it: a signed numeric token is one level.\<close>

fun bind_depth :: "expr \<Rightarrow> nat" where
  "bind_depth (FunctionCall name args dst flt over) = Suc (max_list (map bind_depth (call_operands args flt over)))"
| "bind_depth (Unary op e) = (if minus_literal op e = None then Suc (bind_depth e) else 1)"
| "bind_depth (Binary l op r) = Suc (max (bind_depth l) (bind_depth r))"
| "bind_depth (IsNull e b) = Suc (bind_depth e)"
| "bind_depth _ = 1"

lemma bind_depth_pos: "0 < bind_depth e"
  by (cases e) auto

lemma bind_call_operands_bound:
  fixes bind :: "expr \<Rightarrow> 'e bind_error + bexpr"
  assumes "bind_call bind name args dst flt over aggregates windows = Inr b" "x \<in> set (call_operands args flt over)"
  shows "\<exists>y. bind x = Inr y"
proof -
  have map: "\<exists>y. f x = Inr y" if "try_map f xs = Inr ys" "x \<in> set xs" for f :: "'a \<Rightarrow> 'b + 'c" and xs ys x
    using that by (induction xs arbitrary: ys) (auto simp: and_then_Inr_iff)
  from assms(1) show ?thesis
  proof (rule bind_call_Inr)
    fix f args1 flt1 args2 t n
    assume a: "(if args = [Wildcard] then Inr [] else try_map bind args) = Inr args1"
      "try_option (\<lambda>x. and_then (bind x) (\<lambda>b. boolean b ''FILTER'')) flt = Inr flt1"
    assume w: "case over of
        None \<Rightarrow> (\<exists>a. f = WinAggregate a \<and> b = BExpr t n (KAggregate (AggregateExpr a args2 dst flt1)))
      | Some w \<Rightarrow> (\<exists>ps os fr. try_map bind (ws_partition_by w) = Inr ps \<and>
          try_map (\<lambda>o'. and_then (bind (ob_expr o')) (\<lambda>b. Inr (order_key b o'))) (ws_order_by w) = Inr os \<and>
          bind_frame (ws_frame w) (ws_order_by w \<noteq> []) = (Inr fr :: 'e bind_error + _) \<and>
          b = BExpr t n (KWindow (WindowExpr f args2 dst flt1 ps os fr)))"
    show ?thesis
      using a w assms(2)
      by (auto simp: call_operands_def spec_exprs_def and_then_Inr_iff split: if_splits option.splits dest: map)
        (fastforce simp: and_then_Inr_iff dest: map)+
  qed
qed

lemma bind_expr_inner_depth:
  "bind_expr_inner e context depth aggregates windows = (Inr b :: 'e bind_error + bexpr) \<Longrightarrow> depth + bind_depth e \<le> 256"
proof (induction e "context" depth aggregates windows arbitrary: b rule: bind_expr_inner.induct [where 'e = 'e])
  case (2 name args dst flt over ctx depth aggregates windows)
  from "2.prems" have call: "depth < 256 \<and> bind_call (\<lambda>x. bind_expr_inner x ctx (depth + 1) (over \<noteq> None) False) name args dst flt over
      aggregates windows = (Inr b :: 'e bind_error + bexpr)"
    by (simp only: bind_expr_inner.simps depth_guard_Inr)
  then have "depth + 1 + bind_depth x \<le> 256" if "x \<in> set (call_operands args flt over)" for x
    using that bind_call_operands_bound [OF conjunct2 [OF call] that] "2.IH" [OF that] by blast
  then have "\<forall>x \<in> set (call_operands args flt over). bind_depth x \<le> 255 - depth" by fastforce
  then have "max_list (map bind_depth (call_operands args flt over)) \<le> 255 - depth" by (simp add: max_list_le)
  moreover from call have "depth < 256" by blast
  ultimately show ?case by simp
next
  case (7 op e ctx depth aggregates windows)
  then show ?case by (cases "minus_literal op e") (auto simp: depth_guard_Inr and_then_Inr_iff)
next
  case (8 l op r ctx depth aggregates windows)
  from "8.prems" obtain x y where d: "depth < 256"
    "bind_expr_inner l ctx (depth + 1) aggregates windows = (Inr x :: 'e bind_error + bexpr)"
    "bind_expr_inner r ctx (depth + 1) aggregates windows = (Inr y :: 'e bind_error + bexpr)"
    by (auto simp: depth_guard_Inr and_then_Inr_iff)
  from "8.IH"(1) [OF d(2)] "8.IH"(2) [OF d(2,3)] show ?case by simp
next
  case (9 e negated ctx depth aggregates windows)
  from "9.prems" obtain x where "bind_expr_inner e ctx (depth + 1) aggregates windows = (Inr x :: 'e bind_error + bexpr)"
    by (auto simp: depth_guard_Inr and_then_Inr_iff)
  from "9.IH" [OF this] show ?case by simp
qed (auto simp: depth_guard_Inr)

lemma fails_in_depth_guard:
  "(256 \<le> depth \<Longrightarrow> E ExpressionTooDeep) \<Longrightarrow> (depth < 256 \<Longrightarrow> fails_in E r) \<Longrightarrow> fails_in E (depth_guard depth r)"
  by (simp add: depth_guard_def)

abbreviation deep_error :: "expr \<Rightarrow> nat \<Rightarrow> 'e bind_error \<Rightarrow> bool" where
  "deep_error e depth err \<equiv> semantic err \<or> err = ExpressionTooDeep \<and> 256 < depth + bind_depth e"

lemma deep_error_mono:
  assumes "fails_in (deep_error x (depth + 1)) r" "bind_depth x < bind_depth e"
  shows "fails_in (deep_error e depth) r"
  by (rule fails_in_mono [OF assms(1)]) (use assms(2) in auto)

lemma deep_errorI: "(\<And>err. r = Inl err \<Longrightarrow> semantic err) \<Longrightarrow> fails_in (deep_error e depth) r"
  by (auto simp: fails_in_def)

lemma bind_expr_inner_error:
  "fails_in (deep_error e depth) (bind_expr_inner e context depth aggregates windows :: 'e bind_error + bexpr)"
proof (induction e "context" depth aggregates windows rule: bind_expr_inner.induct [where 'e = 'e])
  case (2 name args dst flt over ctx depth aggregates windows)
  let ?e = "FunctionCall name args dst flt over"
  have d: "bind_depth x < bind_depth ?e" if "x \<in> set (call_operands args flt over)" for x
    using that max_list_le [of "map bind_depth (call_operands args flt over)" "max_list (map bind_depth (call_operands args flt over))"]
    by (simp add: less_Suc_eq_le)
  have "fails_in (deep_error ?e depth) (bind_call (\<lambda>x. bind_expr_inner x ctx (depth + 1) (over \<noteq> None) False)
      name args dst flt over aggregates windows :: 'e bind_error + bexpr)"
    by (rule fails_in_mono [OF bind_call_error]) (use fails_inD [OF deep_error_mono [OF "2.IH" d]] in blast)
  then show ?case
    unfolding bind_expr_inner.simps by (intro fails_in_depth_guard) (auto simp: bind_depth_pos)
next
  case (7 op e ctx depth aggregates windows)
  then show ?case
    by (cases "minus_literal op e")
      (auto intro!: fails_in_depth_guard fails_rules deep_error_mono [where x = e],
       auto intro: fails_inI dest: number_semantic unary_operand_semantic)
next
  case (8 l op r ctx depth aggregates windows)
  show ?case
    unfolding bind_expr_inner.simps
    by (intro fails_in_depth_guard fails_rules deep_error_mono [OF "8.IH"(1)] deep_error_mono [OF "8.IH"(2)]
        deep_errorI [OF binary_operands_semantic]) (auto intro!: fails_rules split: prod.split)
next
  case (9 e negated ctx depth aggregates windows)
  then show ?case by (auto intro!: fails_in_depth_guard fails_rules deep_error_mono [where x = e])
qed (auto intro!: fails_in_depth_guard intro: fails_inI dest: resolve_column_semantic literal_semantic)

declare bind_expr_inner.simps [simp del]

end
