(* ===== verification/BindStatements.thy ===== *)
theory BindStatements
  imports BindErrors
begin

text \<open>
  Statement binding: dispatch, table lookup and SELECT (\<^verbatim>\<open>binding.rs\<close>), table declarations
  (\<^verbatim>\<open>ddl.rs\<close>) and data manipulation (\<^verbatim>\<open>dml.rs\<close>). The catalog a binder borrows is the lookup it
  offers, \<^verbatim>\<open>Catalog::get_table\<close>: an argument of every operation here.
\<close>

type_synonym 'e catalog_lookup = "string \<Rightarrow> 'e + dyn_source option"

section \<open>SELECT\<close>

definition lookup_table :: "'e catalog_lookup \<Rightarrow> string \<Rightarrow> 'e bind_error + bound_table" where
  "lookup_table get_table name =
     and_then (map_err CatalogFailure (get_table name)) (\<lambda>found.
     and_then (ok_or (UnknownTable name) found) (\<lambda>source.
     Inr \<lparr>bt_relation = 0, bt_source = source\<rparr>))"

definition wildcard_projection :: "bound_table \<Rightarrow> named_expr list" where
  "wildcard_projection table =
     map (\<lambda>(i, column). \<lparr>ne_name = col_name column, ne_expr = column_expr (bt_relation table) i column\<rparr>)
       (enumerate 0 (source_columns table))"

fun strip_alias :: "expr \<Rightarrow> expr \<times> string option" where
  "strip_alias (Alias e alias) = (e, Some alias)"
| "strip_alias e = (e, None)"

fun output_name :: "expr \<Rightarrow> string" where
  "output_name (Identifier name) = name"
| "output_name (QualifiedIdentifier table column) = column"
| "output_name _ = ''?column?''"

definition bind_projection :: "bind_context \<Rightarrow> expr \<Rightarrow> 'e bind_error + named_expr" where
  "bind_projection ctx item = (case strip_alias item of (e, alias) \<Rightarrow>
     and_then (bind_expr_inner e ctx (if alias = None then 0 else 1) True True) (\<lambda>b.
     Inr \<lparr>ne_name = (case alias of Some a \<Rightarrow> a | None \<Rightarrow> output_name e), ne_expr = b\<rparr>))"

abbreviation ordinal_error :: "'e bind_error" where
  "ordinal_error \<equiv> InvalidStatement ''ORDER BY ordinal out of range''"

fun bind_order_expr :: "bind_context \<Rightarrow> named_expr list \<Rightarrow> expr \<Rightarrow> 'e bind_error + bexpr" where
  "bind_order_expr ctx projection (Identifier name) =
     (case filter (\<lambda>p. ne_name p = name) projection of
        [p] \<Rightarrow> Inr (ne_expr p)
      | [] \<Rightarrow> bind_expr_inner (Identifier name) ctx 0 True True
      | _ \<Rightarrow> Inl (AmbiguousColumn None name))"
| "bind_order_expr ctx projection (Literal (LitNumber n)) =
     (if all_digits n then
        and_then (ok_or ordinal_error (parse_unsigned max_u64 n)) (\<lambda>ordinal.
        if ordinal = 0 then Inl ordinal_error
        else if ordinal - 1 < length projection then Inr (ne_expr (projection ! (ordinal - 1)))
        else Inl ordinal_error)
      else bind_expr_inner (Literal (LitNumber n)) ctx 0 True True)"
| "bind_order_expr ctx projection e = bind_expr_inner e ctx 0 True True"

definition bind_predicate :: "string \<Rightarrow> bind_context \<Rightarrow> bool \<Rightarrow> expr option \<Rightarrow> 'e bind_error + bexpr option" where
  "bind_predicate clause ctx aggregates flt =
     try_option (\<lambda>e. and_then (bind_expr_inner e ctx 0 aggregates False) (\<lambda>b. boolean b clause)) flt"

definition select_context :: "bound_table option \<Rightarrow> string option \<Rightarrow> bind_context" where
  "select_context source from =
     [case (source, from) of (Some table, Some name) \<Rightarrow> [\<lparr>rb_name = name, rb_table = table\<rparr>] | _ \<Rightarrow> []]"

definition bind_select :: "'e catalog_lookup \<Rightarrow> expr list \<Rightarrow> string option \<Rightarrow> expr option \<Rightarrow> expr list \<Rightarrow> expr option \<Rightarrow>
    expr order_by_expr list \<Rightarrow> 'e bind_error + bound_select" where
  "bind_select get_table projection from flt group_by having order_by =
     (if projection = [] then Inl EmptyProjection else
      and_then (try_option (lookup_table get_table) from) (\<lambda>source.
      let ctx = select_context source from in
      and_then (if projection = [Wildcard]
                then and_then (ok_or InvalidWildcard source) (\<lambda>table. Inr (wildcard_projection table))
                else try_map (bind_projection ctx) projection) (\<lambda>projection.
      and_then (bind_predicate ''WHERE'' ctx False flt) (\<lambda>flt.
      and_then (try_map (\<lambda>e. bind_expr e ctx) group_by) (\<lambda>group_by.
      and_then (bind_predicate ''HAVING'' ctx True having) (\<lambda>having.
      and_then (try_map (\<lambda>o'. and_then (bind_order_expr ctx projection (ob_expr o')) (\<lambda>e. Inr (order_key e o'))) order_by) (\<lambda>order_by.
      let is_agg = (group_by \<noteq> [] \<or> having \<noteq> None \<or> list_ex (\<lambda>p. contains_aggregate (ne_expr p)) projection \<or>
             list_ex (\<lambda>o'. contains_aggregate (bo_expr o')) order_by) in
      and_then (if is_agg
                then try_all (validate_grouped group_by) (map ne_expr projection @ option_list having @ map bo_expr order_by)
                else Inr ()) (\<lambda>_.
      Inr \<lparr>se_group_by = group_by, se_having = having, se_order_by = order_by, se_is_aggregate = is_agg,
           se_source = source, se_projection = projection, se_filter = flt\<rparr>))))))))"

section \<open>CREATE TABLE\<close>

definition varchar_bound :: "string \<Rightarrow> 'e bind_error + u32" where
  "varchar_bound len =
     (let invalid = InvalidType (''VARCHAR('' @ len @ '')'') in
      if all_digits len then
        (case parse_unsigned max_u32 len of
           Some n \<Rightarrow> if n = 0 then Inl invalid else Inr (word_of_nat n)
         | None \<Rightarrow> Inl invalid)
      else Inl invalid)"

fun bind_type :: "data_type \<Rightarrow> 'e bind_error + logical_type" where
  "bind_type DInteger = Inr TInt32"
| "bind_type DBigInt = Inr TInt64"
| "bind_type DReal = Inr TFloat32"
| "bind_type DDouble = Inr TFloat64"
| "bind_type DBoolean = Inr TBoolean"
| "bind_type DText = Inr TText"
| "bind_type (DVarchar None) = Inr (TVarchar None)"
| "bind_type (DVarchar (Some len)) = and_then (varchar_bound len) (\<lambda>bound. Inr (TVarchar (Some bound)))"

fun constraint_debug :: "column_constraint \<Rightarrow> string" where
  "constraint_debug CNotNull = ''NotNull''"
| "constraint_debug CPrimaryKey = ''PrimaryKey''"
| "constraint_debug CUnique = ''Unique''"

text \<open>The loop over a column's constraints: the kinds seen, nullability, whether the table has a primary key, and its constraints so far.\<close>

fun bind_constraints :: "string \<Rightarrow> nat \<Rightarrow> column_constraint list \<Rightarrow> column_constraint list \<Rightarrow> bool \<Rightarrow> bool \<Rightarrow> table_constraint list \<Rightarrow>
    'e bind_error + bool \<times> bool \<times> table_constraint list" where
  "bind_constraints name index [] seen nullable primary_key constraints = Inr (nullable, primary_key, constraints)"
| "bind_constraints name index (c # cs) seen nullable primary_key constraints =
     (if c \<in> set seen then Inl (InvalidConstraint (''duplicate '' @ constraint_debug c @ '' on '' @ name))
      else (case c of
        CNotNull \<Rightarrow> bind_constraints name index cs (c # seen) False primary_key constraints
      | CPrimaryKey \<Rightarrow>
          if primary_key then Inl (InvalidConstraint ''multiple PRIMARY KEY declarations'')
          else bind_constraints name index cs (c # seen) False True (constraints @ [PrimaryKey [index]])
      | CUnique \<Rightarrow> bind_constraints name index cs (c # seen) nullable primary_key (constraints @ [Unique [index]])))"

fun bind_columns :: "nat \<Rightarrow> column_def list \<Rightarrow> string list \<Rightarrow> bool \<Rightarrow> create_table \<Rightarrow> 'e bind_error + create_table" where
  "bind_columns index [] names primary_key result = Inr result"
| "bind_columns index (column # columns) names primary_key result =
     (if cd_name column \<in> set names then Inl (DuplicateColumn (cd_name column))
      else and_then (bind_type (cd_type column)) (\<lambda>data_type.
        and_then (bind_constraints (cd_name column) index (cd_constraints column) [] True primary_key (ct_constraints result))
          (\<lambda>(nullable, primary_key, constraints).
          bind_columns (index + 1) columns (cd_name column # names) primary_key
            (result\<lparr>ct_columns := ct_columns result @ [\<lparr>cc_name = cd_name column, cc_type = data_type, cc_nullable = nullable\<rparr>],
                    ct_constraints := constraints\<rparr>))))"

definition bind_create_table :: "'e catalog_lookup \<Rightarrow> string \<Rightarrow> column_def list \<Rightarrow> 'e bind_error + create_table" where
  "bind_create_table get_table name columns =
     (if name = [] \<or> columns = [] \<or> list_ex (\<lambda>c. cd_name c = []) columns
      then Inl (InvalidStatement ''CREATE TABLE requires a table name and named columns'')
      else and_then (map_err CatalogFailure (get_table name)) (\<lambda>found.
        if found \<noteq> None then Inl (TableAlreadyExists name)
        else bind_columns 0 columns [] False \<lparr>ct_name = name, ct_columns = [], ct_constraints = []\<rparr>))"

section \<open>INSERT, UPDATE and DELETE\<close>

definition target :: "table_schema \<Rightarrow> string \<Rightarrow> 'e bind_error + nat" where
  "target schema name =
     (case filter (\<lambda>(i, c). col_name c = name) (enumerate 0 (ts_columns schema)) of
        [] \<Rightarrow> Inl (UnknownColumn None name)
      | [(index, c)] \<Rightarrow> Inr index
      | _ \<Rightarrow> Inl (AmbiguousColumn None name))"

definition table_context :: "string \<Rightarrow> bound_table \<Rightarrow> bind_context" where
  "table_context name table = [[\<lparr>rb_name = name, rb_table = table\<rparr>]]"

text \<open>The closure over \<^verbatim>\<open>seen\<close> that resolves INSERT's column list.\<close>

fun insert_targets :: "table_schema \<Rightarrow> string list \<Rightarrow> nat list \<Rightarrow> 'e bind_error + nat list" where
  "insert_targets schema [] seen = Inr []"
| "insert_targets schema (name # names) seen =
     and_then (target schema name) (\<lambda>index.
     if index \<in> set seen then Inl (DuplicateColumn name)
     else and_then (insert_targets schema names (index # seen)) (\<lambda>rest. Inr (index # rest)))"

fun check_rows :: "nat \<Rightarrow> nat \<Rightarrow> 'a list list \<Rightarrow> 'e bind_error + unit" where
  "check_rows index expected [] = Inr ()"
| "check_rows index expected (row # rows) =
     (if length row \<noteq> expected then Inl (RowWidth (index + 1) expected (length row))
      else if row = [] then Inl (InvalidStatement ''INSERT requires nonempty rows'')
      else check_rows (index + 1) expected rows)"

fun fill_row :: "column_schema list \<Rightarrow> (expr \<times> nat) list \<Rightarrow> bexpr option list \<Rightarrow> 'e bind_error + bexpr option list" where
  "fill_row columns [] normalized = Inr normalized"
| "fill_row columns ((e, index) # rest) normalized =
     and_then (bind_expr e []) (\<lambda>b.
     if length columns \<le> index then Inl (BindPanic ''index out of bounds'')
     else and_then (assignment b (col_type (columns ! index))) (\<lambda>v.
       if length normalized \<le> index then Inl (BindPanic ''index out of bounds'')
       else fill_row columns rest (normalized[index := Some v])))"

definition null_value :: bexpr where
  "null_value = BExpr TNull True (KLiteral ScNull)"

definition bind_row :: "column_schema list \<Rightarrow> nat list \<Rightarrow> expr list \<Rightarrow> 'e bind_error + bexpr list" where
  "bind_row columns targets row =
     and_then (fill_row columns (zip row targets) (replicate (length columns) None)) (\<lambda>normalized.
     try_map (\<lambda>(v, column). case v of Some v \<Rightarrow> Inr v | None \<Rightarrow> assignment null_value (col_type column)) (zip normalized columns))"

definition bind_insert :: "'e catalog_lookup \<Rightarrow> string \<Rightarrow> string list \<Rightarrow> expr list list \<Rightarrow> 'e bind_error + bound_insert" where
  "bind_insert get_table table_name columns rows =
     and_then (lookup_table get_table table_name) (\<lambda>table.
     let schema = ds_schema (bt_source table) in
     and_then (if columns = [] then Inr [0..<length (ts_columns schema)] else insert_targets schema columns []) (\<lambda>targets.
     if rows = [] then Inl (InvalidStatement ''INSERT requires at least one row'')
     else and_then (check_rows 0 (length targets) rows) (\<lambda>_.
       and_then (try_map (bind_row (ts_columns schema) targets) rows) (\<lambda>rows.
       Inr \<lparr>in_table = table, in_rows = rows\<rparr>))))"

fun bind_assignments :: "bind_context \<Rightarrow> table_schema \<Rightarrow> assignment list \<Rightarrow> nat list \<Rightarrow> 'e bind_error + bound_assignment list" where
  "bind_assignments ctx schema [] seen = Inr []"
| "bind_assignments ctx schema (a # as) seen =
     and_then (target schema (as_column a)) (\<lambda>index.
     if index \<in> set seen then Inl (DuplicateColumn (as_column a))
     else and_then (bind_expr (as_value a) ctx) (\<lambda>b.
       if length (ts_columns schema) \<le> index then Inl (BindPanic ''index out of bounds'')
       else and_then (assignment b (col_type (ts_columns schema ! index))) (\<lambda>v.
         and_then (bind_assignments ctx schema as (index # seen)) (\<lambda>rest.
         Inr (\<lparr>ba_column = index, ba_value = v\<rparr> # rest)))))"

definition bind_update :: "'e catalog_lookup \<Rightarrow> string \<Rightarrow> assignment list \<Rightarrow> expr option \<Rightarrow> 'e bind_error + bound_update" where
  "bind_update get_table table_name assignments flt =
     and_then (lookup_table get_table table_name) (\<lambda>table.
     if assignments = [] then Inl (InvalidStatement ''UPDATE requires at least one assignment'')
     else let ctx = table_context table_name table in
       and_then (bind_assignments ctx (ds_schema (bt_source table)) assignments []) (\<lambda>assignments.
       and_then (bind_predicate ''WHERE'' ctx False flt) (\<lambda>flt.
       Inr \<lparr>up_table = table, up_assignments = assignments, up_filter = flt\<rparr>)))"

definition bind_delete :: "'e catalog_lookup \<Rightarrow> string \<Rightarrow> expr option \<Rightarrow> 'e bind_error + bound_delete" where
  "bind_delete get_table table_name flt =
     and_then (lookup_table get_table table_name) (\<lambda>table.
     and_then (bind_predicate ''WHERE'' (table_context table_name table) False flt) (\<lambda>flt.
     Inr \<lparr>de_table = table, de_filter = flt\<rparr>))"

section \<open>Dispatch\<close>

definition map_ok :: "('a \<Rightarrow> 'b) \<Rightarrow> 'e + 'a \<Rightarrow> 'e + 'b" where
  "map_ok f r = and_then r (\<lambda>x. Inr (f x))"

fun bind_statement :: "'e catalog_lookup \<Rightarrow> statement \<Rightarrow> 'e bind_error + bound_statement" where
  "bind_statement get_table (SSelect projection from flt group_by having order_by) =
     map_ok BSelect (bind_select get_table projection from flt group_by having order_by)"
| "bind_statement get_table (SCreateTable name columns) = map_ok BCreateTable (bind_create_table get_table name columns)"
| "bind_statement get_table (SInsert table columns rows) = map_ok BInsert (bind_insert get_table table columns rows)"
| "bind_statement get_table (SUpdate table assignments flt) = map_ok BUpdate (bind_update get_table table assignments flt)"
| "bind_statement get_table (SDelete table flt) = map_ok BDelete (bind_delete get_table table flt)"
| "bind_statement get_table SBegin = Inr BBegin"
| "bind_statement get_table SCommit = Inr BCommit"
| "bind_statement get_table SRollback = Inr BRollback"

end
