(* ===== verification/BinderSpec.thy ===== *)
theory BinderSpec
  imports BindStatements
begin

text \<open>
  What the binder promises of a bound statement: every expression is well typed in the scope the
  statement has, predicates are Boolean, grouped queries only use what grouping determines,
  INSERT rows are in schema order with the types of the columns, and the only errors are
  semantic ones, catalog failures and excessive nesting.
\<close>

section \<open>Well-typed statements\<close>

definition predicate_typed :: "bind_context \<Rightarrow> bool \<Rightarrow> bexpr option \<Rightarrow> bool" where
  "predicate_typed ctx aggregates f \<longleftrightarrow> (\<forall>x \<in> set_option f. well_typed ctx aggregates False x \<and> be_type x = TBoolean)"

text \<open>The expressions grouping determines: a grouping key, an aggregate, or an operation on determined operands.\<close>

fun determined :: "bexpr list \<Rightarrow> bexpr \<Rightarrow> bool" where
  "determined groups e \<longleftrightarrow> (\<exists>g \<in> set groups. expr_eq g e) \<or> is_aggregate e \<or>
     \<not> is_column e \<and> (\<forall>c \<in> set (children e). determined groups c)"

declare determined.simps [simp del]

definition select_exprs :: "bound_select \<Rightarrow> bexpr list" where
  "select_exprs q = map ne_expr (se_projection q) @ option_list (se_having q) @ map bo_expr (se_order_by q)"

definition select_typed :: "string option \<Rightarrow> bound_select \<Rightarrow> bool" where
  "select_typed from q \<longleftrightarrow> (let ctx = select_context (se_source q) from in
     (\<forall>p \<in> set (se_projection q). well_typed ctx True True (ne_expr p)) \<and>
     predicate_typed ctx False (se_filter q) \<and>
     (\<forall>g \<in> set (se_group_by q). well_typed ctx False False g) \<and>
     predicate_typed ctx True (se_having q) \<and>
     (\<forall>o' \<in> set (se_order_by q). well_typed ctx True True (bo_expr o')) \<and>
     se_is_aggregate q = (se_group_by q \<noteq> [] \<or> se_having q \<noteq> None \<or> list_ex contains_aggregate (select_exprs q)) \<and>
     (se_is_aggregate q \<longrightarrow> (\<forall>e \<in> set (select_exprs q). determined (se_group_by q) e)))"

definition insert_typed :: "bound_insert \<Rightarrow> bool" where
  "insert_typed i \<longleftrightarrow> in_rows i \<noteq> [] \<and> (\<forall>row \<in> set (in_rows i).
     list_all2 (\<lambda>v c. well_typed [] False False v \<and> be_type v = col_type c) row (source_columns (in_table i)))"

definition assignment_typed :: "bind_context \<Rightarrow> column_schema list \<Rightarrow> bound_assignment \<Rightarrow> bool" where
  "assignment_typed ctx columns a \<longleftrightarrow> ba_column a < length columns \<and> well_typed ctx False False (ba_value a) \<and>
     be_type (ba_value a) = col_type (columns ! ba_column a)"

definition update_typed :: "string \<Rightarrow> bound_update \<Rightarrow> bool" where
  "update_typed name u \<longleftrightarrow> (let ctx = table_context name (up_table u) in
     up_assignments u \<noteq> [] \<and> distinct (map ba_column (up_assignments u)) \<and>
     (\<forall>a \<in> set (up_assignments u). assignment_typed ctx (source_columns (up_table u)) a) \<and>
     predicate_typed ctx False (up_filter u))"

fun statement_typed :: "statement \<Rightarrow> bound_statement \<Rightarrow> bool" where
  "statement_typed (SSelect projection from flt group_by having order_by) (BSelect q) = select_typed from q"
| "statement_typed (SCreateTable name columns) (BCreateTable d) \<longleftrightarrow> ct_name d = name \<and>
     map cc_name (ct_columns d) = map cd_name columns \<and> (\<forall>c \<in> set (ct_columns d). type_ok (cc_type c) \<and> cc_type c \<noteq> TNull)"
| "statement_typed (SInsert name columns rows) (BInsert i) = insert_typed i"
| "statement_typed (SUpdate name assignments flt) (BUpdate u) = update_typed name u"
| "statement_typed (SDelete name flt) (BDelete d) = predicate_typed (table_context name (de_table d)) False (de_filter d)"
| "statement_typed SBegin BBegin = True"
| "statement_typed SCommit BCommit = True"
| "statement_typed SRollback BRollback = True"
| "statement_typed _ _ = False"

section \<open>SELECT\<close>

lemma validate_grouped_determined:
  "validate_grouped groups e = Inr () \<Longrightarrow> determined groups e"
proof (induction groups e rule: determined.induct)
  case (1 groups e)
  then show ?case
    by (subst determined.simps, subst (asm) validate_grouped.simps) (auto simp: try_all_iff list_ex_iff split: if_splits)
qed

lemma bind_predicate_typed:
  assumes "bind_predicate clause ctx aggregates flt = Inr f"
  shows "predicate_typed ctx aggregates f"
  using assms
  by (cases flt)
    (auto simp: bind_predicate_def predicate_typed_def and_then_Inr_iff
      dest: bind_expr_inner_typed boolean_typed [OF bind_expr_inner_typed])

lemma wildcard_typed:
  assumes "p \<in> set (wildcard_projection table)"
  shows "well_typed [[\<lparr>rb_name = name, rb_table = table\<rparr>]] a w (ne_expr p)"
proof -
  from assms obtain i where "i < length (source_columns table)"
    and "ne_expr p = column_expr (bt_relation table) i (source_columns table ! i)"
    by (auto simp: wildcard_projection_def in_set_enumerate_eq)
  then show ?thesis
    using column_expr_typed [of "[\<lparr>rb_name = name, rb_table = table\<rparr>]" _ "\<lparr>rb_name = name, rb_table = table\<rparr>" i] by simp
qed

lemma bind_projection_typed:
  assumes "bind_projection ctx item = Inr p"
  shows "well_typed ctx True True (ne_expr p)"
  using assms by (auto simp: bind_projection_def and_then_Inr_iff split: prod.splits dest: bind_expr_inner_typed)

lemma bind_order_expr_typed:
  assumes "bind_order_expr ctx projection e = Inr b" "\<forall>p \<in> set projection. well_typed ctx True True (ne_expr p)"
  shows "well_typed ctx True True b"
  using assms
proof (induction ctx projection e rule: bind_order_expr.induct)
  case (1 ctx projection name)
  then show ?case
    by (cases "filter (\<lambda>p. ne_name p = name) projection")
      (auto simp: filter_eq_Cons_iff split: list.splits dest: bind_expr_inner_typed)
next
  case (2 ctx projection n)
  then show ?case by (auto simp: and_then_Inr_iff split: if_splits dest: bind_expr_inner_typed)
qed (auto dest: bind_expr_inner_typed)

lemma bind_select_Inr:
  fixes get_table :: "'e catalog_lookup"
  assumes "bind_select get_table projection from flt group_by having order_by = Inr q"
  defines "ctx \<equiv> select_context (se_source q) from"
  shows "try_option (lookup_table get_table) from = Inr (se_source q) \<and>
    (if projection = [Wildcard] then and_then (ok_or InvalidWildcard (se_source q)) (\<lambda>table. Inr (wildcard_projection table))
     else try_map (bind_projection ctx) projection) = (Inr (se_projection q) :: 'e bind_error + _) \<and>
    bind_predicate ''WHERE'' ctx False flt = (Inr (se_filter q) :: 'e bind_error + _) \<and>
    try_map (\<lambda>e. bind_expr e ctx) group_by = (Inr (se_group_by q) :: 'e bind_error + _) \<and>
    bind_predicate ''HAVING'' ctx True having = (Inr (se_having q) :: 'e bind_error + _) \<and>
    try_map (\<lambda>o'. and_then (bind_order_expr ctx (se_projection q) (ob_expr o')) (\<lambda>e. Inr (order_key e o'))) order_by =
      (Inr (se_order_by q) :: 'e bind_error + _) \<and>
    se_is_aggregate q = (se_group_by q \<noteq> [] \<or> se_having q \<noteq> None \<or>
      list_ex (\<lambda>p. contains_aggregate (ne_expr p)) (se_projection q) \<or> list_ex (\<lambda>o'. contains_aggregate (bo_expr o')) (se_order_by q)) \<and>
    (if se_is_aggregate q then try_all (validate_grouped (se_group_by q)) (select_exprs q) else Inr ()) = (Inr () :: 'e bind_error + _)"
proof -
  have "projection \<noteq> []" using assms(1) by (auto simp: bind_select_def)
  have unit: "(\<exists>x :: unit. P x) \<longleftrightarrow> P ()" for P by auto
  from assms(1) obtain source proj f g h ob where
    1: "try_option (lookup_table get_table) from = Inr source" and
    2: "(if projection = [Wildcard] then and_then (ok_or InvalidWildcard source) (\<lambda>table. Inr (wildcard_projection table))
     else try_map (bind_projection (select_context source from)) projection) = (Inr proj :: 'e bind_error + _)" and
    3: "bind_predicate ''WHERE'' (select_context source from) False flt = (Inr f :: 'e bind_error + _)" and
    4: "try_map (\<lambda>e. bind_expr e (select_context source from)) group_by = (Inr g :: 'e bind_error + _)" and
    5: "bind_predicate ''HAVING'' (select_context source from) True having = (Inr h :: 'e bind_error + _)" and
    6: "try_map (\<lambda>o'. and_then (bind_order_expr (select_context source from) proj (ob_expr o')) (\<lambda>e. Inr (order_key e o'))) order_by =
      (Inr ob :: 'e bind_error + _)" and
    7: "(if g \<noteq> [] \<or> h \<noteq> None \<or> list_ex (\<lambda>p. contains_aggregate (ne_expr p)) proj \<or> list_ex (\<lambda>o'. contains_aggregate (bo_expr o')) ob
      then try_all (validate_grouped g) (map ne_expr proj @ option_list h @ map bo_expr ob) else Inr ()) = (Inr () :: 'e bind_error + _)" and
    8: "q = \<lparr>se_group_by = g, se_having = h, se_order_by = ob, se_is_aggregate = (g \<noteq> [] \<or> h \<noteq> None \<or>
           list_ex (\<lambda>p. contains_aggregate (ne_expr p)) proj \<or> list_ex (\<lambda>o'. contains_aggregate (bo_expr o')) ob),
           se_source = source, se_projection = proj, se_filter = f\<rparr>"
    unfolding bind_select_def if_not_P [OF \<open>projection \<noteq> []\<close>] Let_def and_then_Inr_iff sum.inject unit by blast
  show ?thesis
    unfolding ctx_def 8 select_exprs_def bound_select.simps using 1 2 3 4 5 6 7 by (intro conjI refl)
qed

lemma bind_select_typed:
  assumes "bind_select get_table projection from flt group_by having order_by = Inr q"
  shows "select_typed from q"
proof -
  let ?ctx = "select_context (se_source q) from"
  note parts = bind_select_Inr [OF assms]
  note src = parts [THEN conjunct1] and proj = parts [THEN conjunct2, THEN conjunct1]
    and wh = parts [THEN conjunct2, THEN conjunct2, THEN conjunct1]
    and gb = parts [THEN conjunct2, THEN conjunct2, THEN conjunct2, THEN conjunct1]
  from parts have hv: "bind_predicate ''HAVING'' ?ctx True having = (Inr (se_having q) :: 'a bind_error + _)"
    and ob: "try_map (\<lambda>o'. and_then (bind_order_expr ?ctx (se_projection q) (ob_expr o')) (\<lambda>e. Inr (order_key e o'))) order_by =
      (Inr (se_order_by q) :: 'a bind_error + _)"
    and agg: "se_is_aggregate q = (se_group_by q \<noteq> [] \<or> se_having q \<noteq> None \<or> list_ex (\<lambda>p. contains_aggregate (ne_expr p)) (se_projection q) \<or>
      list_ex (\<lambda>o'. contains_aggregate (bo_expr o')) (se_order_by q))"
    and val: "(if se_is_aggregate q then try_all (validate_grouped (se_group_by q)) (select_exprs q) else Inr ()) = (Inr () :: 'a bind_error + _)"
    by blast+
  have named: "\<exists>name. from = Some name" if "se_source q = Some t" for t
    using src that by (cases "from") auto
  have p: "\<forall>p \<in> set (se_projection q). well_typed ?ctx True True (ne_expr p)"
    using proj named wildcard_typed
    by (fastforce simp: and_then_Inr_iff select_context_def dest: try_map_set bind_projection_typed split: if_splits)
  have g: "\<forall>g \<in> set (se_group_by q). well_typed ?ctx False False g"
    using gb by (auto simp: bind_expr_def dest!: try_map_set bind_expr_inner_typed)
  have o: "\<forall>o' \<in> set (se_order_by q). well_typed ?ctx True True (bo_expr o')"
    using try_map_set [OF ob] p by (fastforce simp: and_then_Inr_iff dest: bind_order_expr_typed)
  have "se_is_aggregate q = (se_group_by q \<noteq> [] \<or> se_having q \<noteq> None \<or> list_ex contains_aggregate (select_exprs q))"
    unfolding agg select_exprs_def by (cases "se_having q") (auto simp: list_ex_iff option_list_def)
  moreover have "\<forall>e \<in> set (select_exprs q). determined (se_group_by q) e" if "se_is_aggregate q"
    using val that by (auto simp: try_all_iff dest: validate_grouped_determined)
  ultimately show ?thesis
    using p g o bind_predicate_typed [OF wh] bind_predicate_typed [OF hv] by (simp add: select_typed_def Let_def)
qed

section \<open>INSERT and UPDATE\<close>

lemma target_Inr:
  assumes "target schema name = Inr i"
  shows "i < length (ts_columns schema) \<and> col_name (ts_columns schema ! i) = name"
proof -
  from assms obtain c where "filter (\<lambda>(i, c). col_name c = name) (enumerate 0 (ts_columns schema)) = [(i, c)]"
    by (auto simp: target_def split: list.splits)
  then have "(i, c) \<in> set (filter (\<lambda>(i, c). col_name c = name) (enumerate 0 (ts_columns schema)))" by simp
  then show ?thesis by (auto simp: in_set_enumerate_eq)
qed

lemma insert_targets_Inr:
  "insert_targets schema names seen = Inr ts \<Longrightarrow> length ts = length names \<and> distinct ts \<and> set ts \<inter> set seen = {} \<and>
     (\<forall>k < length ts. ts ! k < length (ts_columns schema) \<and> col_name (ts_columns schema ! (ts ! k)) = names ! k)"
proof (induction names arbitrary: seen ts)
  case (Cons name names)
  then obtain i rest where i: "target schema name = (Inr i :: 'a bind_error + _)" "i \<notin> set seen"
    and r: "insert_targets schema names (i # seen) = (Inr rest :: 'a bind_error + _)" and t: "ts = i # rest"
    by (auto simp: and_then_Inr_iff split: if_splits)
  from Cons.IH [OF r] target_Inr [OF i(1)] i(2) t show ?case by (auto simp: nth_Cons split: nat.splits)
qed simp

lemma check_rows_Inr: "check_rows n expected rows = Inr u \<Longrightarrow> row \<in> set rows \<Longrightarrow> length row = expected \<and> row \<noteq> []"
  by (induction n expected rows rule: check_rows.induct) (auto split: if_splits)

lemma fill_row_Inr:
  assumes "fill_row columns ps normalized = (Inr filled :: 'e bind_error + _)" "distinct (map snd ps)"
  shows "length filled = length normalized \<and> (\<forall>j. j \<notin> snd ` set ps \<longrightarrow> filled ! j = normalized ! j) \<and>
    (\<forall>(e, i) \<in> set ps. \<exists>b. bind_expr e [] = (Inr b :: 'e bind_error + _) \<and> casts_to (be_type b) (col_type (columns ! i)) \<and>
       filled ! i = Some (cast b (col_type (columns ! i))))"
  using assms
proof (induction columns ps normalized rule: fill_row.induct [where 'e = 'e])
  case (2 columns e i rest normalized)
  from "2.prems"(1) obtain b where b: "bind_expr e [] = (Inr b :: 'e bind_error + _)" "i < length columns" "i < length normalized"
      "casts_to (be_type b) (col_type (columns ! i))"
    and f: "fill_row columns rest (normalized[i := Some (cast b (col_type (columns ! i)))]) = (Inr filled :: 'e bind_error + _)"
    by (auto simp: and_then_Inr_iff assignment_Inr split: if_splits)
  have a: "assignment b (col_type (columns ! i)) = (Inr (cast b (col_type (columns ! i))) :: 'e bind_error + _)"
    using b(4) by (simp add: assignment_Inr)
  have "distinct (map snd rest)" "i \<notin> snd ` set rest" using "2.prems"(2) by auto
  with "2.IH" [OF b(1) _ a _ f] b show ?case by (auto simp: nth_list_update)
qed auto

lemma bind_row_Inr:
  assumes "bind_row columns ts row = (Inr vs :: 'e bind_error + _)" "distinct ts" "length row = length ts"
    "\<forall>t \<in> set ts. t < length columns"
  shows "length vs = length columns \<and>
    (\<forall>k < length ts. \<exists>b. bind_expr (row ! k) [] = (Inr b :: 'e bind_error + _) \<and> casts_to (be_type b) (col_type (columns ! (ts ! k))) \<and>
       vs ! (ts ! k) = cast b (col_type (columns ! (ts ! k)))) \<and>
    (\<forall>j < length columns. j \<notin> set ts \<longrightarrow> vs ! j = cast null_value (col_type (columns ! j)))"
proof -
  let ?f = "\<lambda>(v, column). case v of Some v \<Rightarrow> Inr v | None \<Rightarrow> assignment null_value (col_type column)"
  from assms(1) obtain filled where f: "fill_row columns (zip row ts) (replicate (length columns) None) = (Inr filled :: 'e bind_error + _)"
    and m: "try_map ?f (zip filled columns) = (Inr vs :: 'e bind_error + _)"
    by (auto simp: bind_row_def and_then_Inr_iff)
  have s: "map snd (zip row ts) = ts" "snd ` set (zip row ts) = set ts"
    using assms(3) by (simp_all flip: set_map)
  from fill_row_Inr [OF f] assms(2) s have l: "length filled = length columns"
    and other: "\<And>j. j \<notin> set ts \<Longrightarrow> j < length columns \<Longrightarrow> filled ! j = None"
    and set: "\<forall>(e, i) \<in> set (zip row ts). \<exists>b. bind_expr e [] = (Inr b :: 'e bind_error + _) \<and>
      casts_to (be_type b) (col_type (columns ! i)) \<and> filled ! i = Some (cast b (col_type (columns ! i)))" by auto
  have lv: "length vs = length columns" using try_map_length [OF m] l by simp
  have nth: "?f (filled ! j, columns ! j) = (Inr (vs ! j) :: 'e bind_error + _)" if "j < length columns" for j
    using try_map_nth [OF m, of j] that l by simp
  have "\<exists>b. bind_expr (row ! k) [] = (Inr b :: 'e bind_error + _) \<and> casts_to (be_type b) (col_type (columns ! (ts ! k))) \<and>
       vs ! (ts ! k) = cast b (col_type (columns ! (ts ! k)))" if k: "k < length ts" for k
  proof -
    have "(row ! k, ts ! k) \<in> set (zip row ts)" using k assms(3) by (metis in_set_zip fst_conv snd_conv)
    with set obtain b where "bind_expr (row ! k) [] = (Inr b :: 'e bind_error + _)" "casts_to (be_type b) (col_type (columns ! (ts ! k)))"
      "filled ! (ts ! k) = Some (cast b (col_type (columns ! (ts ! k))))" by auto
    with nth [of "ts ! k"] assms(4) k show ?thesis by auto
  qed
  moreover have "vs ! j = cast null_value (col_type (columns ! j))" if "j < length columns" "j \<notin> set ts" for j
    using nth [OF that(1)] other [OF that(2,1)] by (simp add: assignment_Inr)
  ultimately show ?thesis using lv by blast
qed

lemma lookup_table_Inr:
  "lookup_table get_table name = Inr t \<longleftrightarrow> (\<exists>src. get_table name = Inr (Some src) \<and> t = \<lparr>bt_relation = 0, bt_source = src\<rparr>)"
  by (auto simp: lookup_table_def and_then_Inr_iff)

text \<open>One row of an INSERT, against the source row and the columns its values are for.\<close>

definition row_bound :: "'e itself \<Rightarrow> column_schema list \<Rightarrow> nat list \<Rightarrow> expr list \<Rightarrow> bexpr list \<Rightarrow> bool" where
  "row_bound e columns ts row vs \<longleftrightarrow> length row = length ts \<and> length vs = length columns \<and>
     (\<forall>k < length ts. \<exists>b. bind_expr (row ! k) [] = (Inr b :: 'e bind_error + _) \<and> casts_to (be_type b) (col_type (columns ! (ts ! k))) \<and>
        vs ! (ts ! k) = cast b (col_type (columns ! (ts ! k)))) \<and>
     (\<forall>j < length columns. j \<notin> set ts \<longrightarrow> vs ! j = cast null_value (col_type (columns ! j)))"

definition targets_named :: "column_schema list \<Rightarrow> string list \<Rightarrow> nat list \<Rightarrow> bool" where
  "targets_named columns names ts \<longleftrightarrow> distinct ts \<and> (\<forall>t \<in> set ts. t < length columns) \<and>
     (if names = [] then ts = [0..<length columns] else map (\<lambda>t. col_name (columns ! t)) ts = names)"

lemma bind_insert_Inr:
  fixes get_table :: "'e catalog_lookup"
  assumes "bind_insert get_table name names rows = Inr i"
  shows "\<exists>src ts. get_table name = Inr (Some src) \<and> in_table i = \<lparr>bt_relation = 0, bt_source = src\<rparr> \<and> rows \<noteq> [] \<and>
    targets_named (ts_columns (ds_schema src)) names ts \<and>
    list_all2 (row_bound TYPE('e) (ts_columns (ds_schema src)) ts) rows (in_rows i)"
proof -
  from assms obtain src ts where src: "get_table name = Inr (Some src)" "in_table i = \<lparr>bt_relation = 0, bt_source = src\<rparr>"
    and ts: "(if names = [] then Inr [0..<length (ts_columns (ds_schema src))] else insert_targets (ds_schema src) names []) =
      (Inr ts :: 'e bind_error + _)"
    and rows: "rows \<noteq> []" "check_rows 0 (length ts) rows = (Inr () :: 'e bind_error + _)"
    and b: "try_map (bind_row (ts_columns (ds_schema src)) ts) rows = (Inr (in_rows i) :: 'e bind_error + _)"
    by (cases "rows = []"; cases "names = []") (auto simp: bind_insert_def and_then_Inr_iff lookup_table_Inr Let_def)
  have t: "targets_named (ts_columns (ds_schema src)) names ts"
  proof (cases "names = []")
    case False
    with ts have it: "insert_targets (ds_schema src) names [] = (Inr ts :: 'e bind_error + _)" by simp
    from False insert_targets_Inr [OF it] show ?thesis
      by (auto simp: targets_named_def in_set_conv_nth intro: nth_equalityI)
  qed (use ts in \<open>auto simp: targets_named_def\<close>)
  have "row_bound TYPE('e) (ts_columns (ds_schema src)) ts row vs"
    if "row \<in> set rows" "bind_row (ts_columns (ds_schema src)) ts row = (Inr vs :: 'e bind_error + _)" for row vs
    using bind_row_Inr [OF that(2)] check_rows_Inr [OF rows(2) that(1)] t by (auto simp: row_bound_def targets_named_def)
  with b have "list_all2 (row_bound TYPE('e) (ts_columns (ds_schema src)) ts) rows (in_rows i)"
    unfolding try_map_all2 by (auto elim!: list.rel_mono_strong)
  with src rows(1) t show ?thesis by blast
qed

lemma row_bound_typed:
  assumes "row_bound TYPE('e) columns ts row vs"
  shows "list_all2 (\<lambda>v c. well_typed [] False False v \<and> be_type v = col_type c) vs columns"
proof -
  have n: "well_typed [] False False (cast null_value t)" for t
    by (rule cast_typed) (simp_all add: null_value_def typed_simps casts_to_iff)
  have "well_typed [] False False (vs ! j) \<and> be_type (vs ! j) = col_type (columns ! j)" if j: "j < length columns" for j
  proof (cases "j \<in> set ts")
    case True
    then obtain k where "k < length ts" "ts ! k = j" by (auto simp: in_set_conv_nth)
    with assms obtain b where "bind_expr (row ! k) [] = (Inr b :: 'e bind_error + _)" "casts_to (be_type b) (col_type (columns ! j))"
      "vs ! j = cast b (col_type (columns ! j))" by (auto simp: row_bound_def)
    then show ?thesis by (auto simp: bind_expr_def intro: cast_typed bind_expr_inner_typed)
  next
    case False
    with assms j n show ?thesis by (simp add: row_bound_def)
  qed
  with assms show ?thesis by (simp add: row_bound_def list_all2_conv_all_nth)
qed

lemma bind_insert_typed:
  fixes get_table :: "'e catalog_lookup"
  assumes "bind_insert get_table name names rows = Inr i"
  shows "insert_typed i"
proof -
  from bind_insert_Inr [OF assms] obtain src ts where s: "in_table i = \<lparr>bt_relation = 0, bt_source = src\<rparr>" "rows \<noteq> []"
    and l: "list_all2 (row_bound TYPE('e) (ts_columns (ds_schema src)) ts) rows (in_rows i)" by blast
  have "in_rows i \<noteq> []" using l s(2) by auto
  moreover have "\<forall>vs \<in> set (in_rows i). \<exists>row. row_bound TYPE('e) (ts_columns (ds_schema src)) ts row vs"
    using l by (metis in_set_conv_nth list_all2_conv_all_nth)
  ultimately show ?thesis using s(1) by (auto simp: insert_typed_def dest: row_bound_typed)
qed

lemma bind_assignments_typed:
  "bind_assignments ctx schema as seen = (Inr bs :: 'e bind_error + _) \<Longrightarrow> length bs = length as \<and> distinct (map ba_column bs) \<and>
     ba_column ` set bs \<inter> set seen = {} \<and> (\<forall>b \<in> set bs. assignment_typed ctx (ts_columns schema) b)"
proof (induction as arbitrary: seen bs)
  case (Cons a as)
  then obtain i b rest where i: "target schema (as_column a) = (Inr i :: 'e bind_error + _)" "i \<notin> set seen"
    and b: "bind_expr (as_value a) ctx = (Inr b :: 'e bind_error + _)" "casts_to (be_type b) (col_type (ts_columns schema ! i))"
    and r: "bind_assignments ctx schema as (i # seen) = (Inr rest :: 'e bind_error + _)"
    and bs: "bs = \<lparr>ba_column = i, ba_value = cast b (col_type (ts_columns schema ! i))\<rparr> # rest"
    by (auto simp: and_then_Inr_iff assignment_Inr split: if_splits)
  have "assignment_typed ctx (ts_columns schema) \<lparr>ba_column = i, ba_value = cast b (col_type (ts_columns schema ! i))\<rparr>"
    using target_Inr [OF i(1)] b by (auto simp: assignment_typed_def bind_expr_def intro: cast_typed bind_expr_inner_typed)
  with Cons.IH [OF r] i(2) bs show ?case by auto
qed simp

lemma bind_update_typed:
  fixes get_table :: "'e catalog_lookup"
  assumes "bind_update get_table name assignments flt = Inr u"
  shows "update_typed name u"
proof -
  from assms have as: "assignments \<noteq> []" "bind_assignments (table_context name (up_table u)) (ds_schema (bt_source (up_table u))) assignments [] =
      (Inr (up_assignments u) :: 'e bind_error + _)"
    and f: "bind_predicate ''WHERE'' (table_context name (up_table u)) False flt = (Inr (up_filter u) :: 'e bind_error + _)"
    by (auto simp: bind_update_def and_then_Inr_iff Let_def split: if_splits)
  from bind_assignments_typed [OF as(2)] as(1) bind_predicate_typed [OF f] show ?thesis by (auto simp: update_typed_def Let_def)
qed

lemma bind_delete_typed:
  fixes get_table :: "'e catalog_lookup"
  assumes "bind_delete get_table name flt = Inr d"
  shows "predicate_typed (table_context name (de_table d)) False (de_filter d)"
  using assms by (auto simp: bind_delete_def and_then_Inr_iff intro: bind_predicate_typed)

section \<open>CREATE TABLE\<close>

text \<open>What the column loop maintains: constraints only mention columns already declared.\<close>

definition declared_constraint :: "create_column list \<Rightarrow> table_constraint \<Rightarrow> bool" where
  "declared_constraint cols c \<longleftrightarrow>
     (\<exists>i < length cols. c = PrimaryKey [i] \<and> \<not> cc_nullable (cols ! i) \<or> c = Unique [i])"

fun primary :: "table_constraint \<Rightarrow> bool" where
  "primary (PrimaryKey v) = True"
| "primary (Unique v) = False"

lemma varchar_bound_pos: "varchar_bound s = Inr n \<Longrightarrow> n \<noteq> 0"
proof -
  assume "varchar_bound s = Inr n"
  then obtain k where "parse_unsigned max_u32 s = Some k" "k \<noteq> 0" "n = word_of_nat k"
    by (auto simp: varchar_bound_def Let_def split: if_splits option.splits)
  moreover then have "k \<le> max_u32" by (auto simp: parse_unsigned_def Let_def split: if_splits)
  ultimately show "n \<noteq> 0" by (auto simp: max_u32_def word_of_nat_eq_0_iff dest: nat_dvd_not_less)
qed

lemma bind_type_ok: "bind_type t = Inr lt \<Longrightarrow> type_ok lt \<and> lt \<noteq> TNull"
  by (cases t rule: bind_type.cases) (auto simp: type_ok_def and_then_Inr_iff dest: varchar_bound_pos)

lemma bind_constraints_Inr:
  assumes "bind_constraints name index cs seen nullable pk cons = Inr (nullable', pk', cons')"
    and "length (filter primary cons) = (if pk then 1 else 0)"
    and "CPrimaryKey \<in> set seen \<longrightarrow> \<not> nullable"
  shows "\<exists>added. cons' = cons @ added \<and> (\<forall>c \<in> set added. c = Unique [index] \<or> c = PrimaryKey [index] \<and> \<not> nullable') \<and>
    length (filter primary cons') = (if pk' then 1 else 0) \<and> (nullable' \<longrightarrow> nullable)"
  using assms
proof (induction cs arbitrary: seen nullable pk cons)
  case (Cons c cs)
  show ?case
  proof (cases c)
    case CNotNull
    with Cons.prems Cons.IH [of "c # seen" False pk cons] show ?thesis by (auto split: if_splits)
  next
    case CPrimaryKey
    with Cons.prems Cons.IH [of "c # seen" False True "cons @ [PrimaryKey [index]]"] show ?thesis by (auto split: if_splits)
  next
    case CUnique
    with Cons.prems Cons.IH [of "c # seen" nullable pk "cons @ [Unique [index]]"] show ?thesis by (auto split: if_splits)
  qed
qed auto

lemma declared_constraint_append: "declared_constraint cols c \<Longrightarrow> declared_constraint (cols @ cols') c"
  unfolding declared_constraint_def by (metis (no_types, lifting) length_append nth_append trans_less_add1)

lemma declared_constraint_last:
  assumes "c = Unique [length cols] \<or> c = PrimaryKey [length cols] \<and> \<not> cc_nullable col"
  shows "declared_constraint (cols @ [col]) c"
  unfolding declared_constraint_def by (rule exI [of _ "length cols"]) (use assms in auto)

lemma bind_columns_Inr:
  assumes "bind_columns (length (ct_columns r)) cs names pk r = Inr d"
    and "set names = set (map cc_name (ct_columns r))" "distinct (map cc_name (ct_columns r))"
    and "length (filter primary (ct_constraints r)) = (if pk then 1 else 0)"
    and "\<forall>c \<in> set (ct_constraints r). declared_constraint (ct_columns r) c"
    and "\<forall>c \<in> set (ct_columns r). type_ok (cc_type c) \<and> cc_type c \<noteq> TNull"
  shows "ct_name d = ct_name r \<and> map cc_name (ct_columns d) = map cc_name (ct_columns r) @ map cd_name cs \<and>
    distinct (map cc_name (ct_columns d)) \<and> length (filter primary (ct_constraints d)) \<le> 1 \<and>
    (\<forall>c \<in> set (ct_constraints d). declared_constraint (ct_columns d) c) \<and>
    (\<forall>c \<in> set (ct_columns d). type_ok (cc_type c) \<and> cc_type c \<noteq> TNull)"
  using assms
proof (induction cs arbitrary: names pk r)
  case (Cons column cs)
  from Cons.prems(1) obtain t nullable pk' cons where new: "cd_name column \<notin> set names"
    and t: "bind_type (cd_type column) = (Inr t :: 'a bind_error + _)"
    and c: "bind_constraints (cd_name column) (length (ct_columns r)) (cd_constraints column) [] True pk (ct_constraints r) =
      (Inr (nullable, pk', cons) :: 'a bind_error + _)"
    and d: "bind_columns (length (ct_columns r) + 1) cs (cd_name column # names) pk'
      (r\<lparr>ct_columns := ct_columns r @ [\<lparr>cc_name = cd_name column, cc_type = t, cc_nullable = nullable\<rparr>], ct_constraints := cons\<rparr>) = (Inr d :: 'a bind_error + _)"
    by (auto simp: and_then_Inr_iff split: if_splits)
  let ?col = "\<lparr>cc_name = cd_name column, cc_type = t, cc_nullable = nullable\<rparr>"
  let ?r = "r\<lparr>ct_columns := ct_columns r @ [?col], ct_constraints := cons\<rparr>"
  have "CPrimaryKey \<in> set [] \<longrightarrow> \<not> True" by simp
  from bind_constraints_Inr [OF c Cons.prems(4) this] obtain added where cons: "cons = ct_constraints r @ added"
    and added: "\<forall>c \<in> set added. c = Unique [length (ct_columns r)] \<or> c = PrimaryKey [length (ct_columns r)] \<and> \<not> nullable"
    and one: "length (filter primary cons) = (if pk' then 1 else 0)" by blast
  have decl: "\<forall>c \<in> set (ct_constraints ?r). declared_constraint (ct_columns ?r) c"
    using Cons.prems(5) added declared_constraint_last [of _ "ct_columns r" ?col] by (auto simp: cons declared_constraint_append)
  have "ct_name d = ct_name ?r \<and> map cc_name (ct_columns d) = map cc_name (ct_columns ?r) @ map cd_name cs \<and>
    distinct (map cc_name (ct_columns d)) \<and> length (filter primary (ct_constraints d)) \<le> 1 \<and>
    (\<forall>c \<in> set (ct_constraints d). declared_constraint (ct_columns d) c) \<and>
    (\<forall>c \<in> set (ct_columns d). type_ok (cc_type c) \<and> cc_type c \<noteq> TNull)"
    by (rule Cons.IH [where names = "cd_name column # names" and pk = pk'])
      (use d Cons.prems new one decl bind_type_ok [OF t] in auto)
  then show ?case by (elim conjE, intro conjI) simp_all
qed auto

lemma bind_create_table_Inr:
  assumes "bind_create_table get_table name columns = Inr d"
  shows "get_table name = Inr None \<and> name \<noteq> [] \<and> columns \<noteq> [] \<and> (\<forall>c \<in> set columns. cd_name c \<noteq> []) \<and> ct_name d = name \<and>
    map cc_name (ct_columns d) = map cd_name columns \<and>
    distinct (map cc_name (ct_columns d)) \<and> length (filter primary (ct_constraints d)) \<le> 1 \<and>
    (\<forall>c \<in> set (ct_constraints d). declared_constraint (ct_columns d) c) \<and>
    (\<forall>c \<in> set (ct_columns d). type_ok (cc_type c) \<and> cc_type c \<noteq> TNull)"
proof -
  let ?r = "\<lparr>ct_name = name, ct_columns = [], ct_constraints = []\<rparr>"
  from assms have b: "bind_columns (length (ct_columns ?r)) columns [] False ?r = (Inr d :: 'a bind_error + _)"
    and g: "get_table name = Inr None" "name \<noteq> []" "columns \<noteq> []" "\<forall>c \<in> set columns. cd_name c \<noteq> []"
    by (auto simp: bind_create_table_def and_then_Inr_iff list_ex_iff split: if_splits)
  have "ct_name d = ct_name ?r \<and> map cc_name (ct_columns d) = map cc_name (ct_columns ?r) @ map cd_name columns \<and>
    distinct (map cc_name (ct_columns d)) \<and> length (filter primary (ct_constraints d)) \<le> 1 \<and>
    (\<forall>c \<in> set (ct_constraints d). declared_constraint (ct_columns d) c) \<and>
    (\<forall>c \<in> set (ct_columns d). type_ok (cc_type c) \<and> cc_type c \<noteq> TNull)"
    by (rule bind_columns_Inr [OF b]) simp_all
  with g show ?thesis by (elim conjE, intro conjI) simp_all
qed

section \<open>Errors of statements\<close>

text \<open>The expressions of a statement, each with the depth it is bound at.\<close>

definition projection_depth :: "expr \<Rightarrow> nat" where
  "projection_depth item = (case strip_alias item of (e, alias) \<Rightarrow> (if alias = None then 0 else 1) + bind_depth e)"

fun statement_depths :: "statement \<Rightarrow> nat list" where
  "statement_depths (SSelect projection from flt group_by having order_by) =
     map projection_depth projection @ map bind_depth (option_list flt @ group_by @ option_list having @ map ob_expr order_by)"
| "statement_depths (SInsert table columns rows) = map bind_depth (concat rows)"
| "statement_depths (SUpdate table assignments flt) = map bind_depth (map as_value assignments @ option_list flt)"
| "statement_depths (SDelete table flt) = map bind_depth (option_list flt)"
| "statement_depths _ = []"

fun statement_table :: "statement \<Rightarrow> string option" where
  "statement_table (SSelect projection from flt group_by having order_by) = from"
| "statement_table (SCreateTable name columns) = Some name"
| "statement_table (SInsert table columns rows) = Some table"
| "statement_table (SUpdate table assignments flt) = Some table"
| "statement_table (SDelete table flt) = Some table"
| "statement_table _ = None"

definition statement_error :: "'e catalog_lookup \<Rightarrow> statement \<Rightarrow> 'e bind_error \<Rightarrow> bool" where
  "statement_error get_table st err \<longleftrightarrow> semantic err \<or>
     (\<exists>e name. err = CatalogFailure e \<and> statement_table st = Some name \<and> get_table name = Inl e) \<or>
     err = ExpressionTooDeep \<and> (\<exists>d \<in> set (statement_depths st). 256 < d)"

lemma statement_error_semantic [intro]: "semantic err \<Longrightarrow> statement_error get_table st err"
  by (simp add: statement_error_def)

lemma fails_semantic: "(\<And>err. r = Inl err \<Longrightarrow> semantic err) \<Longrightarrow> fails_in (statement_error get_table st) r"
  by (auto intro: fails_inI)

lemma fails_expr:
  assumes "depth + bind_depth e \<in> set (statement_depths st)"
  shows "fails_in (statement_error get_table st) (bind_expr_inner e ctx depth aggregates windows)"
  by (rule fails_in_mono [OF bind_expr_inner_error]) (use assms in \<open>auto simp: statement_error_def\<close>)

lemma fails_predicate:
  assumes "\<And>e. flt = Some e \<Longrightarrow> bind_depth e \<in> set (statement_depths st)"
  shows "fails_in (statement_error get_table st) (bind_predicate clause ctx aggregates flt)"
  unfolding bind_predicate_def
  by (intro fails_rules fails_expr fails_semantic) (auto simp: assms dest: boolean_semantic)

lemma fails_lookup:
  assumes "statement_table st = Some name"
  shows "fails_in (statement_error get_table st) (lookup_table get_table name)"
  unfolding lookup_table_def by (intro fails_rules) (auto simp: statement_error_def assms intro: fails_inI)

lemma target_semantic: "target schema name = Inl err \<Longrightarrow> semantic err"
  by (auto simp: target_def split: list.splits)

lemma fails_parts:
  "fails_in (statement_error get_table st) (target schema name)"
  "fails_in (statement_error get_table st) (assignment e t)"
  by (rule fails_semantic, erule target_semantic, rule fails_semantic, erule assignment_semantic)

lemma fails_order_expr:
  assumes "bind_depth e \<in> set (statement_depths st)"
  shows "fails_in (statement_error get_table st) (bind_order_expr ctx projection e)"
proof (cases "(ctx, projection, e)" rule: bind_order_expr.cases)
  case (1 ctx' projection' name)
  with fails_expr [of 0 e st get_table ctx True True] assms show ?thesis by (auto split: list.splits)
next
  case (2 ctx' projection' n)
  with fails_expr [of 0 e st get_table ctx True True] assms show ?thesis by (auto intro!: fails_rules statement_error_semantic)
qed (use fails_expr [of 0 e st get_table ctx True True] assms in auto)

lemma validate_grouped_semantic: "validate_grouped groups e = Inl err \<Longrightarrow> semantic err"
proof (induction groups e rule: validate_grouped.induct)
  case (1 groups e)
  from "1.prems" show ?case
    by (subst (asm) validate_grouped.simps) (auto split: if_splits dest!: try_all_Inl intro: "1.IH")
qed

lemma bind_select_error:
  "fails_in (statement_error get_table (SSelect projection from flt group_by having order_by))
     (bind_select get_table projection from flt group_by having order_by)"
proof -
  let ?st = "SSelect projection from flt group_by having order_by"
  have proj: "fails_in (statement_error get_table ?st) (bind_projection ctx item)" if "item \<in> set projection" for ctx item
  proof -
    obtain e a where s: "strip_alias item = (e, a)" by fastforce
    have "(if a = None then 0 else 1) + bind_depth e \<in> set (statement_depths ?st)"
      using that s by (force simp: projection_depth_def image_iff)
    from fails_expr [OF this] s show ?thesis by (auto simp: bind_projection_def intro!: fails_rules)
  qed
  have group: "fails_in (statement_error get_table ?st) (bind_expr e ctx)" if "e \<in> set group_by" for e ctx
    unfolding bind_expr_def using that by (intro fails_expr) auto
  have order: "fails_in (statement_error get_table ?st) (bind_order_expr ctx p (ob_expr o'))" if "o' \<in> set order_by" for ctx p o'
    using that by (intro fails_order_expr) auto
  have grouped: "fails_in (statement_error get_table ?st) (try_all (validate_grouped gs) es)" for gs es
    by (rule fails_semantic) (auto dest: try_all_Inl validate_grouped_semantic)
  have preds: "fails_in (statement_error get_table ?st) (bind_predicate c ctx False flt)"
    "fails_in (statement_error get_table ?st) (bind_predicate c ctx True having)" for c ctx
    by (intro fails_predicate; auto)+
  show ?thesis
    unfolding bind_select_def Let_def
    by (intro fails_rules fails_lookup proj group order grouped preds) auto
qed

lemma fill_row_error:
  fixes get_table :: "'e catalog_lookup"
  assumes "\<forall>(e, i) \<in> set ps. i < length columns \<and> bind_depth e \<in> set (statement_depths st)" "length normalized = length columns"
  shows "fails_in (statement_error get_table st) (fill_row columns ps normalized)"
  using assms
proof (induction columns ps normalized rule: fill_row.induct [where 'e = 'e])
  case (2 columns e i rest normalized)
  have "fails_in (statement_error get_table st) (bind_expr e [])"
    unfolding bind_expr_def using "2.prems"(1) by (intro fails_expr) auto
  with 2 show ?case by (auto intro!: fails_rules fails_parts)
qed simp

lemma bind_insert_error:
  "fails_in (statement_error get_table (SInsert name names rows)) (bind_insert get_table name names rows)"
proof -
  let ?st = "SInsert name names rows"
  let ?E = "statement_error get_table ?st"
  have targets: "fails_in ?E (insert_targets schema ns seen)" for schema ns seen
    by (induction ns arbitrary: seen) (auto intro!: fails_rules fails_parts statement_error_semantic)
  have check: "fails_in ?E (check_rows n m rs)" for n m and rs :: "'b list list"
    by (induction rs arbitrary: n) auto
  have row: "fails_in ?E (bind_row (ts_columns schema) ts row)"
    if "row \<in> set rows" "\<forall>t \<in> set ts. t < length (ts_columns schema)" for schema ts row
  proof -
    have "\<forall>(e, i) \<in> set (zip row ts). i < length (ts_columns schema) \<and> bind_depth e \<in> set (statement_depths ?st)"
      using that by (auto dest: set_zip_leftD set_zip_rightD)
    then have "fails_in ?E (fill_row (ts_columns schema) (zip row ts) (replicate (length (ts_columns schema)) None))"
      by (intro fill_row_error) auto
    then show ?thesis
      unfolding bind_row_def
      by (auto intro!: fails_rules fails_parts split: prod.split option.split)
  qed
  have ts: "\<forall>t \<in> set ts. t < length (ts_columns schema)"
    if "(if names = [] then Inr [0..<length (ts_columns schema)] else insert_targets schema names []) = (Inr ts :: 'a bind_error + _)"
    for schema ts
  proof (cases "names = []")
    case False
    with that have "insert_targets schema names [] = (Inr ts :: 'a bind_error + _)" by simp
    from insert_targets_Inr [OF this] show ?thesis by (metis in_set_conv_nth)
  qed (use that in auto)
  show ?thesis
    unfolding bind_insert_def Let_def
    by (intro fails_rules fails_lookup targets check row ts) auto
qed

lemma bind_update_error:
  "fails_in (statement_error get_table (SUpdate name assignments flt)) (bind_update get_table name assignments flt)"
proof -
  let ?st = "SUpdate name assignments flt"
  let ?E = "statement_error get_table ?st"
  have as: "set as \<subseteq> set assignments \<Longrightarrow> fails_in ?E (bind_assignments ctx schema as seen)" for as ctx schema seen
  proof (induction as arbitrary: seen)
    case (Cons a as)
    have "fails_in ?E (bind_expr (as_value a) ctx)"
      unfolding bind_expr_def using Cons.prems by (intro fails_expr) auto
    with Cons show ?case
      by (auto intro!: fails_rules fails_parts statement_error_semantic dest: target_Inr)
  qed simp
  have pred: "fails_in ?E (bind_predicate c ctx False flt)" for c ctx by (intro fails_predicate) auto
  show ?thesis
    unfolding bind_update_def Let_def by (intro fails_rules fails_lookup as pred) auto
qed

lemma bind_delete_error: "fails_in (statement_error get_table (SDelete name flt)) (bind_delete get_table name flt)"
  unfolding bind_delete_def by (intro fails_rules fails_lookup fails_predicate) auto

lemma bind_create_table_error:
  "fails_in (statement_error get_table (SCreateTable name columns)) (bind_create_table get_table name columns)"
proof -
  let ?E = "statement_error get_table (SCreateTable name columns)"
  have type: "fails_in ?E (bind_type t)" for t
    by (rule fails_semantic, cases t rule: bind_type.cases)
      (auto simp: and_then_Inl_iff varchar_bound_def Let_def split: if_splits option.splits)
  have con: "fails_in ?E (bind_constraints n i cs seen nl pk cons)" for n i cs seen nl pk cons
    by (induction cs arbitrary: seen nl pk cons) (auto intro: statement_error_semantic split: column_constraint.split)
  have "fails_in ?E (bind_columns i cs names pk r)" for i cs names pk r
    by (induction cs arbitrary: i names pk r) (auto intro!: fails_rules con type statement_error_semantic split: prod.split)
  then show ?thesis
    unfolding bind_create_table_def by (intro fails_rules) (auto simp: statement_error_def intro: fails_inI)
qed

lemma fails_map_ok: "fails_in E (map_ok f r) \<longleftrightarrow> fails_in E r"
  by (cases r) (simp_all add: map_ok_def)

lemma bind_statement_error: "fails_in (statement_error get_table st) (bind_statement get_table st)"
  by (cases st) (simp_all add: fails_map_ok bind_select_error bind_insert_error bind_update_error bind_delete_error bind_create_table_error)

lemma bind_statement_typed:
  assumes "bind_statement get_table st = Inr b"
  shows "statement_typed st b"
  using assms
  by (cases st)
    (auto simp: map_ok_def and_then_Inr_iff dest: bind_select_typed bind_insert_typed bind_update_typed bind_delete_typed
      bind_create_table_Inr)

section \<open>Properties\<close>

text \<open>The source of the examples: a table with an integer key and an optional name.\<close>

definition sample_source :: dyn_source where
  "sample_source = \<lparr>ds_ptr = 7, ds_schema = \<lparr>ts_name = ''items'', ts_columns =
     [\<lparr>col_name = ''id'', col_type = TInt32, col_nullable = False\<rparr>,
      \<lparr>col_name = ''name'', col_type = TVarchar (Some 8), col_nullable = True\<rparr>]\<rparr>\<rparr>"

definition sample_lookup :: "string catalog_lookup" where
  "sample_lookup name = (if name = ''items'' then Inr (Some sample_source)
     else if name = ''broken'' then Inl ''unavailable'' else Inr None)"

text \<open>
  C8: every statement the binder accepts is well typed. SELECT outputs, predicates, grouping and
  ordering keys satisfy the type discipline in the statement's scope, predicates are Boolean,
  aggregates and windows occur only where their phase allows, the aggregate flag is set exactly
  when grouping is needed and then every output is determined by the grouping keys; INSERT rows
  have the width and the types of the target's columns; UPDATE assigns distinct columns values of
  their types; a declaration has the declared columns with valid types.
\<close>

theorem bind_typed:
  assumes "bind_statement get_table st = Inr b"
  shows "statement_typed st b"
  using assms by (rule bind_statement_typed)

theorem bind_typed_witness:
  "\<exists>b. bind_statement sample_lookup (SInsert ''items'' [''name''] [[Literal (LitString ''x'')]]) = Inr b \<and>
     statement_typed (SInsert ''items'' [''name''] [[Literal (LitString ''x'')]]) b"
proof -
  let ?st = "SInsert ''items'' [''name''] [[Literal (LitString ''x'')]]"
  have "\<exists>b. bind_statement sample_lookup ?st = Inr b"
    by (simp add: sample_lookup_def sample_source_def bind_insert_def lookup_table_def map_ok_def target_def bind_row_def
        bind_expr_def bind_expr_inner.simps depth_guard_def value_expr_def assignment_def cast_def null_value_def)
  then show ?thesis using bind_typed by blast
qed

text \<open>
  C31: the errors of the binder. It never panics; it reports a catalog failure only when the
  lookup of the statement's own table failed with it, and excessive nesting only when one of the
  statement's expressions is nested deeper than 256 levels; every other error is a verdict on
  the statement.
\<close>

theorem bind_errors:
  assumes "bind_statement get_table st = Inl err"
  shows "err \<noteq> BindPanic m \<and> (semantic err \<or>
    (\<exists>e name. err = CatalogFailure e \<and> statement_table st = Some name \<and> get_table name = Inl e) \<or>
    err = ExpressionTooDeep \<and> (\<exists>d \<in> set (statement_depths st). 256 < d))"
  using fails_inD [OF bind_statement_error assms] by (auto simp: statement_error_def)

theorem bind_errors_witness:
  "bind_statement sample_lookup (SDelete ''broken'' None) = Inl (CatalogFailure ''unavailable'') \<and>
     (\<exists>e name. CatalogFailure ''unavailable'' = CatalogFailure e \<and> statement_table (SDelete ''broken'' None) = Some name \<and>
       sample_lookup name = Inl e)"
proof -
  have e: "bind_statement sample_lookup (SDelete ''broken'' None) = Inl (CatalogFailure ''unavailable'')"
    by (simp add: sample_lookup_def bind_delete_def lookup_table_def map_ok_def)
  from bind_errors [OF e] e show ?thesis by simp
qed

text \<open>
  C32: INSERT rows are in schema order. The bound table is the one the catalog returned; the
  target positions are those of the named columns (all of them when none are named), without
  repetition; each bound row has one value per column of the table, at a target position the
  bound source expression cast to the column's type and elsewhere a NULL of the column's type.
\<close>

theorem insert_rows_correct:
  fixes get_table :: "'e catalog_lookup"
  assumes "bind_statement get_table (SInsert name names rows) = Inr (BInsert i)"
  shows "\<exists>src ts. get_table name = Inr (Some src) \<and> in_table i = \<lparr>bt_relation = 0, bt_source = src\<rparr> \<and> rows \<noteq> [] \<and>
    targets_named (ts_columns (ds_schema src)) names ts \<and>
    list_all2 (row_bound TYPE('e) (ts_columns (ds_schema src)) ts) rows (in_rows i)"
proof -
  from assms have "bind_insert get_table name names rows = Inr i" by (auto simp: map_ok_def and_then_Inr_iff)
  then show ?thesis by (rule bind_insert_Inr)
qed

theorem insert_rows_correct_witness:
  "\<exists>i src ts. bind_statement sample_lookup (SInsert ''items'' [''name''] [[Literal (LitString ''x'')]]) = Inr (BInsert i) \<and>
     sample_lookup ''items'' = Inr (Some src) \<and> in_table i = \<lparr>bt_relation = 0, bt_source = src\<rparr> \<and>
     targets_named (ts_columns (ds_schema src)) [''name''] ts"
proof -
  let ?st = "SInsert ''items'' [''name''] [[Literal (LitString ''x'')]]"
  have "\<exists>i. bind_statement sample_lookup ?st = Inr (BInsert i)"
    by (simp add: sample_lookup_def sample_source_def bind_insert_def lookup_table_def map_ok_def target_def bind_row_def
        bind_expr_def bind_expr_inner.simps depth_guard_def value_expr_def assignment_def cast_def null_value_def)
  then show ?thesis using insert_rows_correct by blast
qed

text \<open>
  C33: column resolution is the documented rule. A name is decided by the nearest scope that
  has a matching column, a qualified name by the nearest scope with that relation name even if
  the column is missing there; more than one candidate is ambiguous, none is unknown, and the
  result is the only candidate.
\<close>

theorem resolve_column_equivalent: "resolve_column ctx q name = resolve_reference ctx q name"
  by (rule resolve_column_reference)

end
