(* ===== verification/CatalogBinding.thy ===== *)
theory CatalogBinding
  imports Catalog BinderSpec
begin

text \<open>
  The catalog behind the binder. \<open>heap_get_table\<close> is \<^verbatim>\<open>impl Catalog for HeapCatalog\<close>; the locale
  \<open>table_catalog\<close> is what a binder may rely on of any catalog with consistent schemas, and every
  consistent heap catalog satisfies it. A declaration the binder accepts is one the catalog
  accepts, and a table created from it is what SELECT then sees.
\<close>

section \<open>The lookup interface\<close>

definition as_source :: "table_source \<Rightarrow> dyn_source" where
  "as_source src = \<lparr>ds_ptr = src_heap src, ds_schema = src_schema src\<rparr>"

definition heap_get_table :: "heap_catalog \<Rightarrow> catalog_error catalog_lookup" where
  "heap_get_table cat name = map_ok (map_option as_source) (catalog_table cat name)"

lemma column_matches_none: "name \<notin> col_name ` set cs \<Longrightarrow> column_matches rel i name cs = []"
  by (induction cs arbitrary: i) auto

lemma column_matches_unique:
  "distinct (map col_name cs) \<Longrightarrow> length (column_matches rel i name cs) \<le> 1"
  by (induction cs arbitrary: i) (auto simp: column_matches_none)

locale table_catalog =
  fixes get_table :: "'e catalog_lookup"
  assumes named: "get_table name = Inr (Some src) \<Longrightarrow> ts_name (ds_schema src) = name"
    and distinct_columns: "get_table name = Inr (Some src) \<Longrightarrow> distinct (map col_name (ts_columns (ds_schema src)))"
    and column_types: "get_table name = Inr (Some src) \<Longrightarrow> c \<in> set (ts_columns (ds_schema src)) \<Longrightarrow> col_type c \<noteq> TNull"
begin

lemma resolve_not_ambiguous:
  assumes "get_table table = Inr (Some src)"
  shows "resolve_column [[\<lparr>rb_name = n, rb_table = \<lparr>bt_relation = 0, bt_source = src\<rparr>\<rparr>]] q name \<noteq> Inl (AmbiguousColumn q name)"
proof -
  let ?r = "\<lparr>rb_name = n, rb_table = \<lparr>bt_relation = 0, bt_source = src\<rparr>\<rparr>"
  have "length (relation_matches name ?r) \<le> 1"
    using column_matches_unique [OF distinct_columns [OF assms]] by (simp add: relation_matches_def)
  then have one: "length (scope_matches q name [?r]) \<le> 1" by (cases q) auto
  have "length (qualified_relations q [?r]) \<le> 1" by (cases q) (auto simp: qualified_relations_def)
  with one show ?thesis
    by (auto simp: resolve_column_reference resolve_reference_def split: list.splits if_splits)
qed

lemma target_not_ambiguous:
  assumes "get_table table = Inr (Some src)"
  shows "target (ds_schema src) name \<noteq> Inl (AmbiguousColumn q name')"
proof -
  have "length (column_matches 0 0 name (ts_columns (ds_schema src))) \<le> 1"
    by (rule column_matches_unique [OF distinct_columns [OF assms]])
  then show ?thesis by (auto simp: target_def column_matches_def split: list.splits)
qed

lemma insert_not_null_typed:
  assumes "bind_insert get_table name names rows = Inr i" "row \<in> set (in_rows i)" "v \<in> set row"
  shows "be_type v \<noteq> TNull"
proof -
  from bind_insert_Inr [OF assms(1)] obtain src where s: "get_table name = Inr (Some src)"
    "in_table i = \<lparr>bt_relation = 0, bt_source = src\<rparr>" by blast
  from bind_insert_typed [OF assms(1)] assms(2) s(2)
  have "list_all2 (\<lambda>v c. well_typed [] False False v \<and> be_type v = col_type c) row (ts_columns (ds_schema src))"
    by (auto simp: insert_typed_def)
  moreover from assms(3) obtain j where "j < length row" "v = row ! j" by (auto simp: in_set_conv_nth)
  ultimately have "ts_columns (ds_schema src) ! j \<in> set (ts_columns (ds_schema src)) \<and>
    be_type v = col_type (ts_columns (ds_schema src) ! j)" by (auto simp: list_all2_conv_all_nth)
  then obtain c where "c \<in> set (ts_columns (ds_schema src))" "be_type v = col_type c" by blast
  with column_types [OF s(1)] show ?thesis by simp
qed

end

section \<open>Consistent heap catalogs\<close>

lemma heap_get_table_Inr:
  "heap_get_table cat name = Inr (Some src) \<longleftrightarrow>
     \<not> cat_poisoned cat \<and> (\<exists>t. map_of (cat_entries cat) name = Some t \<and> src = as_source t)"
  by (auto simp: heap_get_table_def map_ok_def catalog_table_def and_then_Inr_iff)

lemma catalog_ok_schema:
  assumes "catalog_ok V cat" "map_of (cat_entries cat) name = Some t"
  shows "ts_name (src_schema t) = name \<and> schema_ok (ts_columns (src_schema t)) (src_constraints t)"
proof -
  from assms(1) obtain ms where st: "stores V (cat_metadata cat) ms" and op: "opened V ms (cat_entries cat) (cat_heaps cat)"
    by (auto simp: catalog_ok_def)
  from op assms(2) have "map_of (map (\<lambda>i. source_of i (ms ! i)) [0..<length ms]) name = Some t" by (simp add: opened_def)
  then have "(name, t) \<in> set (map (\<lambda>i. source_of i (ms ! i)) [0..<length ms])" by (rule map_of_SomeD)
  then obtain i where i: "i < length ms" "(name, t) = source_of i (ms ! i)" by auto
  then have "ms ! i \<in> set ms" by simp
  with st have "encode (ms ! i) = Inr (enc_fields (ms ! i))" by (auto simp: stores_def)
  then have "validate (ms ! i) = Inr ()" by (simp add: encode_Inr)
  with i(2) show ?thesis by (auto simp: validate_iff source_of_def)
qed

locale opened_catalog =
  fixes V :: "u32 \<Rightarrow> page option" and cat :: heap_catalog
  assumes consistent: "catalog_ok V cat"

sublocale opened_catalog \<subseteq> lookup: table_catalog "heap_get_table cat"
proof
  fix name src
  assume "heap_get_table cat name = Inr (Some src)"
  then obtain t where t: "map_of (cat_entries cat) name = Some t" "src = as_source t" by (auto simp: heap_get_table_Inr)
  from catalog_ok_schema [OF consistent t(1)] t(2)
  show "ts_name (ds_schema src) = name" "distinct (map col_name (ts_columns (ds_schema src)))"
    by (auto simp: as_source_def schema_ok_def)
  show "col_type c \<noteq> TNull" if "c \<in> set (ts_columns (ds_schema src))" for c
    using catalog_ok_schema [OF consistent t(1)] t(2) that by (auto simp: as_source_def schema_ok_def)
qed

text \<open>The catalog \<^verbatim>\<open>HeapCatalog::create\<close> makes in a fresh pool is one.\<close>

definition first_catalog :: heap_catalog where
  "first_catalog = projr (fst (catalog_create memory_page_store clock_strategy small_pool))"

definition first_view :: "u32 \<Rightarrow> page option" where
  "first_view = pool_view memory_contents (snd (catalog_create memory_page_store clock_strategy small_pool))"

interpretation fresh: opened_catalog first_view first_catalog
proof
  obtain cat s where "catalog_create memory_page_store clock_strategy small_pool = (Inr cat, s)"
    "catalog_ok (pool_view memory_contents s) cat" by (rule small_catalog)
  then show "catalog_ok first_view first_catalog" by (simp add: first_catalog_def first_view_def)
qed

section \<open>Declarations from the binder to the catalog\<close>

definition record_limit :: "string \<Rightarrow> bool" where
  "record_limit msg \<longleftrightarrow> msg \<in> {''metadata count overflow'', ''catalog metadata exceeds maximum tuple size''}"

lemma put_number_limit: "fails_in record_limit (put_number out n)"
  by (simp add: put_number_def record_limit_def)

lemma put_string_limit: "fails_in record_limit (put_string out s)"
  by (simp add: put_string_def fails_in_and_then put_number_limit)

lemma type_tag_total: "t \<noteq> TNull \<Longrightarrow> \<exists>b. type_tag t = Inr b"
  by (cases t rule: type_tag.cases) auto

lemma encode_columns_limit:
  "\<forall>c \<in> set cs. col_type c \<noteq> TNull \<Longrightarrow> fails_in record_limit (encode_columns out cs)"
proof (induction cs arbitrary: out)
  case (Cons c cs)
  from Cons.prems obtain b where "type_tag (col_type c) = Inr b" using type_tag_total by auto
  with Cons show ?case by (auto simp: Let_def intro!: fails_in_and_then put_string_limit)
qed simp

lemma encode_indices_limit: "fails_in record_limit (encode_indices out is)"
  by (induction "is" arbitrary: out) (auto intro!: fails_in_and_then put_number_limit)

lemma encode_constraints_limit: "fails_in record_limit (encode_constraints out cs)"
  by (induction cs arbitrary: out)
    (auto intro!: fails_in_and_then put_number_limit encode_indices_limit split: prod.split)

lemma encode_limit:
  assumes "validate m = Inr ()"
  shows "fails_in record_limit (encode m)"
proof -
  from assms have "\<forall>c \<in> set (ts_columns (md_schema m)). col_type c \<noteq> TNull" by (auto simp: validate_iff schema_ok_def)
  then show ?thesis unfolding encode_def using assms
    by (auto simp: record_limit_def [of "''catalog metadata exceeds maximum tuple size''"]
        intro!: fails_in_and_then put_string_limit put_number_limit encode_columns_limit encode_constraints_limit)
qed

lemma primary_is_primary: "primary = is_primary"
proof
  show "primary c = is_primary c" for c by (cases c) auto
qed

text \<open>What the binder checks of a declaration is what the catalog's validation asks for.\<close>

lemma bound_declaration_valid:
  assumes "bind_create_table get_table name columns = Inr d"
  shows "validate (declared_metadata d) = Inr ()"
proof -
  let ?cs = "ts_columns (md_schema (declared_metadata d))"
  note b = bind_create_table_Inr [OF assms]
  have names: "map col_name ?cs = map cc_name (ct_columns d)" by (simp add: declared_metadata_def)
  have ne: "col_name c \<noteq> [] \<and> col_type c \<noteq> TNull" if "c \<in> set ?cs" for c
  proof -
    from that have "col_name c \<in> set (map cc_name (ct_columns d))" unfolding names [symmetric] by simp
    then have "col_name c \<in> set (map cd_name columns)" using b by simp
    then show ?thesis using b that by (auto simp: declared_metadata_def)
  qed
  have "constraint_ok ?cs c" if "c \<in> set (ct_constraints d)" for c
    using b that by (fastforce simp: declared_constraint_def declared_metadata_def)
  moreover have "?cs \<noteq> []" using b by (cases columns) (auto simp: declared_metadata_def)
  moreover have "distinct (map col_name ?cs)" "length (filter is_primary (ct_constraints d)) \<le> 1" "ct_name d \<noteq> []"
    unfolding names using b by (elim conjE, simp_all add: primary_is_primary)+
  moreover have "ts_name (md_schema (declared_metadata d)) = ct_name d" "md_constraints (declared_metadata d) = ct_constraints d"
    by (simp_all add: declared_metadata_def)
  ultimately show ?thesis using ne by (simp add: validate_iff schema_ok_def)
qed

lemma publish_table_poison:
  "publish_table so vs d cat s = (r, (cat', s')) \<Longrightarrow> cat_poisoned cat' = cat_poisoned cat"
  by (auto simp: publish_table_def Let_def split: if_splits sum.splits prod.splits)

lemma create_table_poison:
  assumes "catalog_create_table so vs d (cat, s) = (Inr src, (cat', s'))"
  shows "\<not> cat_poisoned cat'"
  using assms publish_table_poison [of so vs d cat s]
  by (auto simp: catalog_create_table_def split: if_splits sum.splits prod.splits)

lemma column_no_aggregate: "\<not> contains_aggregate (BExpr ty n (KColumn c))"
  by (subst contains_aggregate.simps) simp

lemma bind_select_all:
  assumes "get_table name = Inr (Some src)"
  shows "\<exists>q. bind_select get_table [Wildcard] (Some name) None [] None [] = Inr q \<and>
    map ne_name (se_projection q) = map col_name (ts_columns (ds_schema src)) \<and>
    map (be_type \<circ> ne_expr) (se_projection q) = map col_type (ts_columns (ds_schema src))"
proof -
  let ?p = "wildcard_projection \<lparr>bt_relation = 0, bt_source = src\<rparr>"
  have "\<not> list_ex (\<lambda>p. contains_aggregate (ne_expr p)) ?p"
    by (auto simp: wildcard_projection_def list_ex_iff column_expr_def column_no_aggregate)
  moreover have "map ne_name ?p = map col_name (ts_columns (ds_schema src))"
    "map (be_type \<circ> ne_expr) ?p = map col_type (ts_columns (ds_schema src))"
    by (auto simp: wildcard_projection_def column_expr_def intro!: nth_equalityI simp: nth_enumerate_eq)
  ultimately show ?thesis using assms by (simp add: bind_select_def lookup_table_def bind_predicate_def Let_def)
qed

lemma bound_table_created:
  assumes "page_store so swf contents" "pool_inv swf contents H s" "catalog_ok (pool_view contents s) cat"
    and "is_str name" "\<forall>c \<in> set columns. is_str (cd_name c)"
    and "bind_statement (heap_get_table cat) (SCreateTable name columns) = Inr (BCreateTable d)"
    and "catalog_create_table so vs d (cat, s) = (r, (cat', s'))"
  shows "case r of
      Inr src \<Rightarrow> \<exists>q. bind_statement (heap_get_table cat') (SSelect [Wildcard] (Some name) None [] None []) = Inr (BSelect q) \<and>
        map ne_name (se_projection q) = map cd_name columns \<and>
        map (be_type \<circ> ne_expr) (se_projection q) = map cc_type (ct_columns d)
    | Inl e \<Rightarrow> (\<exists>h. e = Heap h \<and> infra h) \<or> (\<exists>msg. e = InvalidMetadata msg \<and> record_limit msg)"
proof -
  from assms(6) have bd: "bind_create_table (heap_get_table cat) name columns = Inr d"
    by (auto simp: map_ok_def and_then_Inr_iff)
  note b = bind_create_table_Inr [OF bd]
  have fresh: "\<not> cat_poisoned cat" "catalog_defs cat (ct_name d) = None"
    using b by (auto simp: heap_get_table_def map_ok_def catalog_table_def catalog_defs_def and_then_Inr_iff split: if_splits)
  have "decl_ok d"
  proof -
    have "is_str (cc_name c)" if "c \<in> set (ct_columns d)" for c
    proof -
      from that have "cc_name c \<in> set (map cc_name (ct_columns d))" by simp
      then show ?thesis using b assms(5) by auto
    qed
    then show ?thesis using b assms(4) by (simp add: decl_ok_def)
  qed
  from page_store.create_table_result [OF assms(1-3) this assms(7)]
  have res: "created_table d cat (pool_view contents s) r cat' (pool_view contents s')" by simp
  show ?thesis
  proof (cases r)
    case (Inl e)
    from fails_inD [OF encode_limit [OF bound_declaration_valid [OF bd]]] res fresh Inl
    show ?thesis by (auto simp: created_table_def)
  next
    case (Inr src)
    with res have src: "map_of (cat_entries cat') name = Some src" "src_schema src = md_schema (declared_metadata d)"
      using b by (auto simp: created_table_def)
    have "heap_get_table cat' name = Inr (Some (as_source src))"
      using src(1) create_table_poison [OF assms(7) [unfolded Inr]] by (simp add: heap_get_table_Inr)
    from bind_select_all [of "heap_get_table cat'" name "as_source src", OF this] show ?thesis using b src(2) Inr
      by (auto simp: map_ok_def as_source_def declared_metadata_def comp_def)
  qed
qed

end
