(* ===== verification/Peg.thy ===== *)
theory Peg
  imports Schema
begin

text \<open>
  Grammars of the PEG macro (\<^verbatim>\<open>crates/peg/src/lib.rs\<close>): expressions, rules, and the checks a grammar
  must pass before a parser is generated from it. \<open>well_formed\<close> is what the checks mean; validation
  always returns and accepts exactly the well-formed grammars.
\<close>

section \<open>Expressions and rules\<close>

text \<open>Characters are Unicode scalar values; the texts of literals are UTF-8 strings.\<close>

datatype pexpr =
  Ref string
| Lit string bool
| Class "(nat \<times> nat) list" bool
| Any
| Seq "pexpr list"
| Choice "pexpr list"
| Optional pexpr
| Repeat pexpr bool
| Predicate pexpr bool

record rule =
  rule_name :: string
  rule_expr :: pexpr

type_synonym rule_names = "string \<rightharpoonup> nat"

section \<open>Nullability, traversal and prefixes\<close>

text \<open>
  \<^verbatim>\<open>names[n]\<close> panics on an unknown name; every lookup follows the check that all references are
  defined.
\<close>

fun nullable :: "pexpr \<Rightarrow> rule_names \<Rightarrow> bool list \<Rightarrow> bool" where
  "nullable (Ref n) names null = null ! the (names n)"
| "nullable (Lit s i) names null = (s = [])"
| "nullable Any names null = False"
| "nullable (Class ranges negated) names null = False"
| "nullable (Seq es) names null = list_all (\<lambda>e. nullable e names null) es"
| "nullable (Choice es) names null = list_ex (\<lambda>e. nullable e names null) es"
| "nullable (Optional e) names null = True"
| "nullable (Predicate e positive) names null = True"
| "nullable (Repeat e one) names null = (\<not> one \<or> nullable e names null)"

fun walk :: "pexpr \<Rightarrow> (pexpr \<Rightarrow> 'e + unit) \<Rightarrow> 'e + unit" where
  "walk (Seq es) f = and_then (f (Seq es)) (\<lambda>_. try_all (\<lambda>e. walk e f) es)"
| "walk (Choice es) f = and_then (f (Choice es)) (\<lambda>_. try_all (\<lambda>e. walk e f) es)"
| "walk (Optional e) f = and_then (f (Optional e)) (\<lambda>_. walk e f)"
| "walk (Repeat e one) f = and_then (f (Repeat e one)) (\<lambda>_. walk e f)"
| "walk (Predicate e positive) f = and_then (f (Predicate e positive)) (\<lambda>_. walk e f)"
| "walk e f = f e"

text \<open>A \<^verbatim>\<open>HashSet\<close> of rule indices is a list without repetitions, in the order of insertion.\<close>

fun prefixes :: "pexpr \<Rightarrow> rule_names \<Rightarrow> bool list \<Rightarrow> nat list \<Rightarrow> nat list"
  and prefixes_seq :: "pexpr list \<Rightarrow> rule_names \<Rightarrow> bool list \<Rightarrow> nat list \<Rightarrow> nat list"
  and prefixes_choice :: "pexpr list \<Rightarrow> rule_names \<Rightarrow> bool list \<Rightarrow> nat list \<Rightarrow> nat list" where
  "prefixes (Ref n) names null out = List.insert (the (names n)) out"
| "prefixes (Seq es) names null out = prefixes_seq es names null out"
| "prefixes (Choice es) names null out = prefixes_choice es names null out"
| "prefixes (Optional e) names null out = prefixes e names null out"
| "prefixes (Repeat e one) names null out = prefixes e names null out"
| "prefixes (Predicate e positive) names null out = prefixes e names null out"
| "prefixes e names null out = out"
| "prefixes_seq [] names null out = out"
| "prefixes_seq (e # es) names null out =
     (let out = prefixes e names null out in
      if \<not> nullable e names null then out else prefixes_seq es names null out)"
| "prefixes_choice [] names null out = out"
| "prefixes_choice (e # es) names null out = prefixes_choice es names null (prefixes e names null out)"

section \<open>Validation\<close>

fun insert_names :: "nat \<Rightarrow> rule list \<Rightarrow> rule_names \<Rightarrow> string + rule_names" where
  "insert_names i [] names = Inr names"
| "insert_names i (r # rs) names =
     (if names (rule_name r) \<noteq> None then Inl (''duplicate rule '' @ rule_name r)
      else insert_names (i + 1) rs (names(rule_name r \<mapsto> i)))"

fun check_reference :: "rule_names \<Rightarrow> pexpr \<Rightarrow> string + unit" where
  "check_reference names (Ref n) = (if names n = None then Inl (''undefined rule '' @ n) else Inr ())"
| "check_reference names e = Inr ()"

definition null_step :: "rule list \<Rightarrow> rule_names \<Rightarrow> bool list \<Rightarrow> bool list" where
  "null_step rules names null = map (\<lambda>r. nullable (rule_expr r) names null) rules"

text \<open>The two loops of \<^verbatim>\<open>validate\<close> that are not bounded by a list: not returning is \<open>None\<close>.\<close>

partial_function (option) null_loop :: "rule list \<Rightarrow> rule_names \<Rightarrow> bool list \<Rightarrow> bool list option" where
  "null_loop rules names null =
     (let nxt = null_step rules names null in
      if nxt = null then Some null else null_loop rules names nxt)"

fun check_repetition :: "string \<Rightarrow> rule_names \<Rightarrow> bool list \<Rightarrow> pexpr \<Rightarrow> string + unit" where
  "check_repetition rule names null (Repeat inner one) =
     (if nullable inner names null then Inl (''nullable repetition in rule '' @ rule) else Inr ())"
| "check_repetition rule names null e = Inr ()"

text \<open>A stack with its top first; a set is pushed in some order.\<close>

partial_function (option) reach_loop :: "nat list list \<Rightarrow> nat \<Rightarrow> nat list \<Rightarrow> nat list \<Rightarrow> bool option" where
  "reach_loop edges i seen pending =
     (if pending = [] then Some False
      else if hd pending = i then Some True
      else if hd pending \<in> set seen then reach_loop edges i seen (tl pending)
      else reach_loop edges i (hd pending # seen) (edges ! hd pending @ tl pending))"

fun check_recursion :: "nat list list \<Rightarrow> (nat \<times> rule) list \<Rightarrow> (string + unit) option" where
  "check_recursion edges [] = Some (Inr ())"
| "check_recursion edges ((i, r) # rs) =
     (case reach_loop edges i [] (edges ! i) of
        None \<Rightarrow> None
      | Some found \<Rightarrow>
          if found then Some (Inl (''nullable-prefix left recursion involving '' @ rule_name r))
          else check_recursion edges rs)"

definition rule_edges :: "rule_names \<Rightarrow> bool list \<Rightarrow> rule \<Rightarrow> string + nat list" where
  "rule_edges names null r =
     and_then (walk (rule_expr r) (check_repetition (rule_name r) names null)) (\<lambda>_.
     Inr (prefixes (rule_expr r) names null []))"

definition peg_validate :: "rule list \<Rightarrow> (string + rule_names) option" where
  "peg_validate rules =
     (case insert_names 0 rules Map.empty of
        Inl e \<Rightarrow> Some (Inl e)
      | Inr names \<Rightarrow>
     (case try_all (\<lambda>r. walk (rule_expr r) (check_reference names)) rules of
        Inl e \<Rightarrow> Some (Inl e)
      | Inr _ \<Rightarrow>
     (case null_loop rules names (replicate (length rules) False) of
        None \<Rightarrow> None
      | Some null \<Rightarrow>
     (case try_map (rule_edges names null) rules of
        Inl e \<Rightarrow> Some (Inl e)
      | Inr edges \<Rightarrow>
          map_option (\<lambda>r. and_then r (\<lambda>_. Inr names)) (check_recursion edges (enumerate 0 rules))))))"

declare null_loop.simps [code] reach_loop.simps [code]

section \<open>What validation means\<close>

fun subexprs :: "pexpr \<Rightarrow> pexpr list" where
  "subexprs (Seq es) = Seq es # concat (map subexprs es)"
| "subexprs (Choice es) = Choice es # concat (map subexprs es)"
| "subexprs (Optional e) = Optional e # subexprs e"
| "subexprs (Repeat e one) = Repeat e one # subexprs e"
| "subexprs (Predicate e positive) = Predicate e positive # subexprs e"
| "subexprs e = [e]"

text \<open>An expression that may succeed without consuming input.\<close>

inductive empty_match :: "rule list \<Rightarrow> pexpr \<Rightarrow> bool" for rules where
  em_ref: "r \<in> set rules \<Longrightarrow> empty_match rules (rule_expr r) \<Longrightarrow> empty_match rules (Ref (rule_name r))"
| em_lit: "empty_match rules (Lit [] i)"
| em_seq: "(\<And>e. e \<in> set es \<Longrightarrow> empty_match rules e) \<Longrightarrow> empty_match rules (Seq es)"
| em_choice: "e \<in> set es \<Longrightarrow> empty_match rules e \<Longrightarrow> empty_match rules (Choice es)"
| em_optional: "empty_match rules (Optional e)"
| em_predicate: "empty_match rules (Predicate e positive)"
| em_star: "empty_match rules (Repeat e False)"
| em_plus: "empty_match rules e \<Longrightarrow> empty_match rules (Repeat e True)"

text \<open>An expression that may call a rule before it has consumed input.\<close>

inductive calls_first :: "rule list \<Rightarrow> pexpr \<Rightarrow> string \<Rightarrow> bool" for rules where
  cf_ref: "calls_first rules (Ref n) n"
| cf_seq: "(\<And>e. e \<in> set before \<Longrightarrow> empty_match rules e) \<Longrightarrow> calls_first rules e n \<Longrightarrow>
    calls_first rules (Seq (before @ e # after)) n"
| cf_choice: "e \<in> set es \<Longrightarrow> calls_first rules e n \<Longrightarrow> calls_first rules (Choice es) n"
| cf_optional: "calls_first rules e n \<Longrightarrow> calls_first rules (Optional e) n"
| cf_repeat: "calls_first rules e n \<Longrightarrow> calls_first rules (Repeat e one) n"
| cf_predicate: "calls_first rules e n \<Longrightarrow> calls_first rules (Predicate e positive) n"

inductive_simps empty_match_simps [simp]:
  "empty_match rules (Lit s i)" "empty_match rules (Class ranges negated)" "empty_match rules Any"
  "empty_match rules (Seq es)" "empty_match rules (Choice es)" "empty_match rules (Optional e)"
  "empty_match rules (Predicate e positive)" "empty_match rules (Repeat e one)"

inductive_simps calls_first_simps [simp]:
  "calls_first rules (Ref m) n" "calls_first rules (Lit s i) n" "calls_first rules (Class ranges negated) n"
  "calls_first rules Any n" "calls_first rules (Choice es) n" "calls_first rules (Optional e) n"
  "calls_first rules (Predicate e positive) n" "calls_first rules (Repeat e one) n"

inductive_cases calls_first_seqE: "calls_first rules (Seq es) n"

inductive_cases empty_match_refE: "empty_match rules (Ref n)"

definition left_calls :: "rule list \<Rightarrow> (nat \<times> nat) set" where
  "left_calls rules = {(i, j). i < length rules \<and> j < length rules \<and>
     calls_first rules (rule_expr (rules ! i)) (rule_name (rules ! j))}"

definition refs_defined :: "rule list \<Rightarrow> pexpr \<Rightarrow> bool" where
  "refs_defined rules e \<longleftrightarrow> (\<forall>n. Ref n \<in> set (subexprs e) \<longrightarrow> n \<in> rule_name ` set rules)"

definition progressive :: "rule list \<Rightarrow> pexpr \<Rightarrow> bool" where
  "progressive rules e \<longleftrightarrow> (\<forall>x one. Repeat x one \<in> set (subexprs e) \<longrightarrow> \<not> empty_match rules x)"

definition well_formed :: "rule list \<Rightarrow> bool" where
  "well_formed rules \<longleftrightarrow> distinct (map rule_name rules) \<and>
     (\<forall>r \<in> set rules. refs_defined rules (rule_expr r) \<and> progressive rules (rule_expr r)) \<and>
     acyclic (left_calls rules)"

section \<open>The names\<close>

definition index_of :: "rule list \<Rightarrow> rule_names" where
  "index_of rules = map_of (zip (map rule_name rules) [0..<length rules])"

lemma insert_names_iff:
  "insert_names i rs names = Inr names' \<longleftrightarrow> distinct (map rule_name rs) \<and> (\<forall>r \<in> set rs. names (rule_name r) = None) \<and>
     names' = names ++ map_of (zip (map rule_name rs) [i..<i + length rs])"
proof (induction rs arbitrary: i names)
  case (Cons r rs)
  have u: "[i..<i + length (r # rs)] = i # [Suc i..<Suc i + length rs]"
    by (subst upt_conv_Cons) simp_all
  define M where "M = map_of (zip (map rule_name rs) [Suc i..<Suc i + length rs])"
  have M: "map_of (zip (map rule_name (r # rs)) [i..<i + length (r # rs)]) = M(rule_name r \<mapsto> i)"
    unfolding u M_def by simp
  have ih: "insert_names (Suc i) rs f = Inr names' \<longleftrightarrow> distinct (map rule_name rs) \<and> (\<forall>r \<in> set rs. f (rule_name r) = None) \<and>
      names' = f ++ M" for f unfolding M_def by (rule Cons.IH)
  have m: "names(rule_name r \<mapsto> i) ++ M = names ++ M(rule_name r \<mapsto> i)" if "rule_name r \<notin> rule_name ` set rs"
  proof -
    have "M (rule_name r) = None" using that unfolding M_def by (subst map_of_eq_None_iff) (auto dest: set_zip_leftD)
    then show ?thesis by (auto simp: map_add_def fun_eq_iff split: option.splits)
  qed
  show ?case
  proof (cases "names (rule_name r) = None \<and> rule_name r \<notin> rule_name ` set rs")
    case True
    then have "(\<forall>x \<in> set rs. (names(rule_name r \<mapsto> i)) (rule_name x) = None) \<longleftrightarrow> (\<forall>x \<in> set rs. names (rule_name x) = None)"
      by (metis fun_upd_apply imageI)
    with True m ih [of "names(rule_name r \<mapsto> i)"] show ?thesis unfolding M by (simp del: fun_upd_apply)
  next
    case False
    then have "\<exists>x \<in> set rs. (names(rule_name r \<mapsto> i)) (rule_name x) \<noteq> None" if "names (rule_name r) = None"
      using that by fastforce
    with False ih [of "names(rule_name r \<mapsto> i)"] show ?thesis unfolding M by auto
  qed
qed auto

lemma insert_names_Inr:
  "insert_names 0 rules Map.empty = Inr names \<longleftrightarrow> distinct (map rule_name rules) \<and> names = index_of rules"
  by (auto simp: insert_names_iff index_of_def)

lemma index_of_Some:
  "distinct (map rule_name rules) \<Longrightarrow>
     index_of rules n = Some i \<longleftrightarrow> i < length rules \<and> n = rule_name (rules ! i)"
  unfolding index_of_def by (subst map_of_eq_Some_iff) (auto simp: in_set_zip intro!: exI [of _ i])

lemma index_of_None: "index_of rules n = None \<longleftrightarrow> n \<notin> rule_name ` set rules"
  unfolding index_of_def by (subst map_of_eq_None_iff) (auto simp: map_fst_zip simp flip: set_map)

lemma index_of_name:
  "distinct (map rule_name rules) \<Longrightarrow> r \<in> set rules \<Longrightarrow>
     \<exists>i < length rules. rules ! i = r \<and> index_of rules (rule_name r) = Some i"
  by (auto simp: in_set_conv_nth index_of_Some)

section \<open>Traversal\<close>

lemma subexprs_self [simp, intro]: "e \<in> set (subexprs e)"
  by (cases e) auto

lemma walk_iff: "walk e f = Inr () \<longleftrightarrow> (\<forall>x \<in> set (subexprs e). f x = Inr ())"
  by (induction e) (auto simp: and_then_Inr_iff try_all_iff)

lemma check_reference_iff: "check_reference names e = Inr () \<longleftrightarrow> (\<forall>n. e = Ref n \<longrightarrow> names n \<noteq> None)"
  by (cases e) auto

lemma references_checked:
  "walk e (check_reference (index_of rules)) = Inr () \<longleftrightarrow> refs_defined rules e"
  by (auto simp: walk_iff check_reference_iff refs_defined_def index_of_None)

lemma check_repetition_iff:
  "check_repetition n names null e = Inr () \<longleftrightarrow> (\<forall>x one. e = Repeat x one \<longrightarrow> \<not> nullable x names null)"
  by (cases e) auto

lemma refs_defined_simps [simp]:
  "refs_defined rules (Ref n) \<longleftrightarrow> n \<in> rule_name ` set rules"
  "refs_defined rules (Lit s i)" "refs_defined rules (Class ranges negated)" "refs_defined rules Any"
  "refs_defined rules (Seq es) \<longleftrightarrow> (\<forall>e \<in> set es. refs_defined rules e)"
  "refs_defined rules (Choice es) \<longleftrightarrow> (\<forall>e \<in> set es. refs_defined rules e)"
  "refs_defined rules (Optional e) \<longleftrightarrow> refs_defined rules e"
  "refs_defined rules (Repeat e one) \<longleftrightarrow> refs_defined rules e"
  "refs_defined rules (Predicate e positive) \<longleftrightarrow> refs_defined rules e"
  by (auto simp: refs_defined_def)

lemma progressive_simps [simp]:
  "progressive rules (Ref n)" "progressive rules (Lit s i)" "progressive rules (Class ranges negated)" "progressive rules Any"
  "progressive rules (Seq es) \<longleftrightarrow> (\<forall>e \<in> set es. progressive rules e)"
  "progressive rules (Choice es) \<longleftrightarrow> (\<forall>e \<in> set es. progressive rules e)"
  "progressive rules (Optional e) \<longleftrightarrow> progressive rules e"
  "progressive rules (Repeat e one) \<longleftrightarrow> \<not> empty_match rules e \<and> progressive rules e"
  "progressive rules (Predicate e positive) \<longleftrightarrow> progressive rules e"
  by (auto simp: progressive_def)

lemma subexprs_trans: "x \<in> set (subexprs e) \<Longrightarrow> y \<in> set (subexprs x) \<Longrightarrow> y \<in> set (subexprs e)"
  by (induction e) auto

lemma refs_defined_subexpr: "refs_defined rules e \<Longrightarrow> x \<in> set (subexprs e) \<Longrightarrow> refs_defined rules x"
  by (auto simp: refs_defined_def dest: subexprs_trans)

section \<open>The nullability loop\<close>

text \<open>A vector of flags is below another when it sets no flag the other does not.\<close>

definition below :: "bool list \<Rightarrow> bool list \<Rightarrow> bool" where
  "below = list_all2 (\<longrightarrow>)"

lemma below_nth: "below a b \<Longrightarrow> i < length a \<Longrightarrow> a ! i \<Longrightarrow> b ! i"
  by (auto simp: below_def list_all2_conv_all_nth)

lemma nullable_mono:
  assumes "below null null'" "refs_defined rules e" "distinct (map rule_name rules)" "length null = length rules"
  shows "nullable e (index_of rules) null \<Longrightarrow> nullable e (index_of rules) null'"
  using assms(2)
proof (induction e)
  case (Ref n)
  then obtain r where "r \<in> set rules" "n = rule_name r" by auto
  with index_of_name [OF assms(3)] obtain i where "i < length rules" "index_of rules n = Some i" by blast
  with Ref.prems assms(1,4) below_nth show ?case by auto
qed (auto simp: list_all_iff list_ex_iff)

lemma below_count: "below a b \<Longrightarrow> a \<noteq> b \<Longrightarrow> count_list a False > count_list b False"
proof (induction a arbitrary: b)
  case (Cons x a)
  then obtain y b' where b: "b = y # b'" "x \<longrightarrow> y" "below a b'" by (auto simp: below_def list_all2_Cons1)
  have "count_list b' False \<le> count_list a False" using Cons.IH [OF b(3)] by (cases "a = b'") auto
  with Cons b show ?case by (cases "a = b'") auto
qed (simp add: below_def)

definition justified :: "rule list \<Rightarrow> bool list \<Rightarrow> bool" where
  "justified rules null \<longleftrightarrow> length null = length rules \<and>
     (\<forall>i < length rules. null ! i \<longrightarrow> empty_match rules (rule_expr (rules ! i)))"

definition names_resolved :: "rule list \<Rightarrow> bool" where
  "names_resolved rules \<longleftrightarrow> distinct (map rule_name rules) \<and> (\<forall>r \<in> set rules. refs_defined rules (rule_expr r))"

lemma ref_index:
  assumes "names_resolved rules" "refs_defined rules (Ref n)"
  obtains i where "i < length rules" "n = rule_name (rules ! i)" "index_of rules n = Some i"
  using assms index_of_name [of rules] by (auto simp: names_resolved_def)

lemma nullable_sound:
  assumes "names_resolved rules" "justified rules null" "refs_defined rules e" "nullable e (index_of rules) null"
  shows "empty_match rules e"
  using assms(3,4)
proof (induction e)
  case (Ref n)
  with ref_index [OF assms(1)] obtain i where "i < length rules" "n = rule_name (rules ! i)" "index_of rules n = Some i" by blast
  with Ref.prems assms(2) show ?case by (auto simp: justified_def intro: em_ref)
qed (auto simp: list_all_iff list_ex_iff)

lemma nullable_complete:
  assumes "names_resolved rules" "null_step rules (index_of rules) null = null" "empty_match rules e"
  shows "refs_defined rules e \<Longrightarrow> nullable e (index_of rules) null"
  using assms(3)
proof (induction rule: empty_match.induct)
  case (em_ref r)
  from assms(1) em_ref(1) index_of_name obtain i where i: "i < length rules" "rules ! i = r" "index_of rules (rule_name r) = Some i"
    by (auto simp: names_resolved_def)
  from em_ref assms(1) have "nullable (rule_expr r) (index_of rules) null" by (auto simp: names_resolved_def)
  then have "null_step rules (index_of rules) null ! i" using i by (simp add: null_step_def)
  with i assms(2) show ?case by simp
qed (auto simp: list_all_iff list_ex_iff)

lemma below_refl [simp]: "below a a"
  by (simp add: below_def list_all2_refl)

lemma null_loop_returns:
  assumes "names_resolved rules" "justified rules null" "below null (null_step rules (index_of rules) null)"
  shows "\<exists>v. null_loop rules (index_of rules) null = Some v \<and> justified rules v \<and> null_step rules (index_of rules) v = v"
  using assms(2,3)
proof (induction "count_list null False" arbitrary: null rule: less_induct)
  case less
  let ?n = "null_step rules (index_of rules) null"
  show ?case
  proof (cases "?n = null")
    case True
    with less.prems show ?thesis by (subst null_loop.simps) simp
  next
    case False
    have len: "length ?n = length rules" "length null = length rules" using less.prems by (auto simp: null_step_def justified_def)
    have "justified rules ?n"
      unfolding justified_def null_step_def using assms(1)
      by (auto simp: names_resolved_def intro: nullable_sound [OF assms(1) less.prems(1)])
    moreover have "below ?n (null_step rules (index_of rules) ?n)"
      using assms(1) nullable_mono [OF less.prems(2)] len
      by (auto simp: below_def list_all2_conv_all_nth null_step_def names_resolved_def)
    moreover from below_count [OF less.prems(2)] False have "count_list ?n False < count_list null False" by auto
    ultimately show ?thesis using less.hyps [of ?n] False by (subst null_loop.simps) (simp add: Let_def)
  qed
qed

lemma null_loop_exact:
  assumes "names_resolved rules"
  obtains v where "null_loop rules (index_of rules) (replicate (length rules) False) = Some v"
    "\<And>e. refs_defined rules e \<Longrightarrow> nullable e (index_of rules) v \<longleftrightarrow> empty_match rules e"
proof -
  let ?z = "replicate (length rules) False"
  have "justified rules ?z" "below ?z (null_step rules (index_of rules) ?z)"
    by (auto simp: justified_def below_def list_all2_conv_all_nth null_step_def)
  from null_loop_returns [OF assms this] nullable_sound [OF assms] nullable_complete [OF assms] that
  show ?thesis by blast
qed

section \<open>Prefixes\<close>

lemma calls_first_seq_Cons [simp]:
  "calls_first rules (Seq (e # es)) n \<longleftrightarrow> calls_first rules e n \<or> empty_match rules e \<and> calls_first rules (Seq es) n"
proof
  assume "calls_first rules (Seq (e # es)) n"
  then show "calls_first rules e n \<or> empty_match rules e \<and> calls_first rules (Seq es) n"
  proof (rule calls_first_seqE)
    fix before x after
    assume s: "e # es = before @ x # after" "\<And>e. e \<in> set before \<Longrightarrow> empty_match rules e" "calls_first rules x n"
    then show ?thesis by (cases before) (auto intro: cf_seq)
  qed
next
  assume r: "calls_first rules e n \<or> empty_match rules e \<and> calls_first rules (Seq es) n"
  show "calls_first rules (Seq (e # es)) n"
  proof (cases "calls_first rules e n")
    case True
    with cf_seq [of "[]" rules e n es] show ?thesis by simp
  next
    case False
    with r obtain before x after where s: "es = before @ x # after" "\<And>e. e \<in> set before \<Longrightarrow> empty_match rules e"
      "calls_first rules x n" "empty_match rules e" by (auto elim: calls_first_seqE)
    from s have "calls_first rules (Seq ((e # before) @ x # after)) n" by (intro cf_seq) auto
    with s(1) show ?thesis by simp
  qed
qed

lemma calls_first_seq_Nil [simp]: "\<not> calls_first rules (Seq []) n"
  by (auto elim: calls_first_seqE)

definition first_indices :: "rule list \<Rightarrow> pexpr \<Rightarrow> nat set" where
  "first_indices rules e = {j. \<exists>n. calls_first rules e n \<and> index_of rules n = Some j}"

lemma prefixes_exact:
  assumes "names_resolved rules" "\<And>e. refs_defined rules e \<Longrightarrow> nullable e (index_of rules) null \<longleftrightarrow> empty_match rules e"
  shows "refs_defined rules e \<Longrightarrow> set (prefixes e (index_of rules) null out) = set out \<union> first_indices rules e"
    and "refs_defined rules (Seq es) \<Longrightarrow> set (prefixes_seq es (index_of rules) null out) = set out \<union> first_indices rules (Seq es)"
    and "refs_defined rules (Choice es) \<Longrightarrow> set (prefixes_choice es (index_of rules) null out) = set out \<union> first_indices rules (Choice es)"
  using assms(2)
proof (induction e "index_of rules" null out and es "index_of rules" null out and es "index_of rules" null out
    rule: prefixes_prefixes_seq_prefixes_choice.induct)
  case (1 n null out)
  with ref_index [OF assms(1)] show ?case by (force simp: first_indices_def)
qed (auto simp: first_indices_def Let_def)

section \<open>The search for left recursion\<close>

definition edge_rel :: "nat list list \<Rightarrow> (nat \<times> nat) set" where
  "edge_rel edges = {(i, j). i < length edges \<and> j \<in> set (edges ! i)}"

lemma reach_escapes:
  assumes "(x, i) \<in> E\<^sup>*" "x \<in> S" "i \<notin> S" "\<And>a b. a \<in> S \<Longrightarrow> (a, b) \<in> E \<Longrightarrow> b \<in> S \<union> P"
  shows "\<exists>p \<in> P. (p, i) \<in> E\<^sup>*"
  using assms by (induction rule: converse_rtrancl_induct) blast+

lemma reach_loop_exact:
  assumes "\<And>k. k < length edges \<Longrightarrow> set (edges ! k) \<subseteq> {..<length edges}"
    and "set pending \<subseteq> {..<length edges}" "set seen \<subseteq> {..<length edges}" "i \<notin> set seen"
    and "\<And>a b. a \<in> set seen \<Longrightarrow> (a, b) \<in> edge_rel edges \<Longrightarrow> b \<in> set seen \<union> set pending"
  shows "reach_loop edges i seen pending = Some (\<exists>j \<in> set pending. (j, i) \<in> (edge_rel edges)\<^sup>*)"
  using assms(2-5)
proof (induction "(seen, pending)" arbitrary: seen pending
    rule: wf_induct_rule [OF wf_measures [of "[\<lambda>(seen, pending). card ({..<length edges} - set seen), \<lambda>(seen, pending). length pending]"]])
  case less: 1
  show ?case
  proof (cases pending)
    case Nil
    then show ?thesis by (subst reach_loop.simps) simp
  next
    case (Cons j rest)
    consider "j = i" | "j \<noteq> i" "j \<in> set seen" | "j \<noteq> i" "j \<notin> set seen" by blast
    then show ?thesis
    proof cases
      case 1
      then show ?thesis using Cons by (subst reach_loop.simps) auto
    next
      case 2
      have "reach_loop edges i seen rest = Some (\<exists>j \<in> set rest. (j, i) \<in> (edge_rel edges)\<^sup>*)"
        using less.prems 2 Cons by (intro less.hyps) auto
      moreover have "\<exists>p \<in> set rest. (p, i) \<in> (edge_rel edges)\<^sup>*" if "(j, i) \<in> (edge_rel edges)\<^sup>*"
        by (rule reach_escapes [OF that 2(2) less.prems(3)]) (use less.prems(4) Cons 2 in auto)
      ultimately show ?thesis using Cons 2 by (subst reach_loop.simps) auto
    next
      case 3
      have j: "j < length edges" using less.prems(1) Cons by auto
      then have "card ({..<length edges} - set (j # seen)) < card ({..<length edges} - set seen)"
        using 3(2) by (intro psubset_card_mono) auto
      then have "reach_loop edges i (j # seen) (edges ! j @ rest) =
          Some (\<exists>j \<in> set (edges ! j @ rest). (j, i) \<in> (edge_rel edges)\<^sup>*)"
        using less.prems 3 Cons j assms(1) [OF j] by (intro less.hyps) (auto simp: edge_rel_def)
      moreover have "(j, i) \<in> (edge_rel edges)\<^sup>* \<longleftrightarrow> (\<exists>k \<in> set (edges ! j). (k, i) \<in> (edge_rel edges)\<^sup>*)"
        using 3(1) j by (auto simp: edge_rel_def elim: converse_rtranclE intro: converse_rtrancl_into_rtrancl)
      ultimately show ?thesis using Cons 3 by (subst reach_loop.simps) auto
    qed
  qed
qed

lemma reach_self:
  assumes "\<And>k. k < length edges \<Longrightarrow> set (edges ! k) \<subseteq> {..<length edges}" "i < length edges"
  shows "reach_loop edges i [] (edges ! i) = Some ((i, i) \<in> (edge_rel edges)\<^sup>+)"
proof -
  have "(i, i) \<in> (edge_rel edges)\<^sup>+ \<longleftrightarrow> (\<exists>j \<in> set (edges ! i). (j, i) \<in> (edge_rel edges)\<^sup>*)"
    using assms(2) by (auto simp: trancl_unfold_left edge_rel_def)
  with reach_loop_exact [OF assms(1), of "edges ! i" "[]" i] assms show ?thesis by auto
qed

lemma check_recursion_exact:
  assumes "\<And>i r. (i, r) \<in> set rs \<Longrightarrow> reach_loop edges i [] (edges ! i) = Some ((i, i) \<in> E\<^sup>+)"
  shows "\<exists>r. check_recursion edges rs = Some r \<and> (r = Inr () \<longleftrightarrow> (\<forall>(i, x) \<in> set rs. (i, i) \<notin> E\<^sup>+))"
  using assms
proof (induction rs)
  case (Cons p rs)
  obtain i x where p: "p = (i, x)" by (cases p)
  from Cons.prems [of i x] p have "reach_loop edges i [] (edges ! i) = Some ((i, i) \<in> E\<^sup>+)" by simp
  with Cons p show ?case by auto
qed simp

section \<open>Validation accepts the well-formed grammars\<close>

lemma rule_edges_iff:
  assumes "names_resolved rules" "\<And>e. refs_defined rules e \<Longrightarrow> nullable e (index_of rules) null \<longleftrightarrow> empty_match rules e"
    and "r \<in> set rules"
  shows "rule_edges (index_of rules) null r = Inr es \<longleftrightarrow>
    progressive rules (rule_expr r) \<and> es = prefixes (rule_expr r) (index_of rules) null []"
proof -
  have "refs_defined rules (rule_expr r)" using assms(1,3) by (auto simp: names_resolved_def)
  then have "refs_defined rules x" if "Repeat x one \<in> set (subexprs (rule_expr r))" for x one
    using refs_defined_subexpr [OF _ that] by simp
  with assms(2) show ?thesis
    by (auto simp: rule_edges_def and_then_Inr_iff walk_iff check_repetition_iff progressive_def)
qed

lemma left_calls_edges:
  assumes "names_resolved rules" "length edges = length rules"
    and "\<And>i. i < length rules \<Longrightarrow> set (edges ! i) = first_indices rules (rule_expr (rules ! i))"
  shows "edge_rel edges = left_calls rules"
    and "k < length edges \<Longrightarrow> set (edges ! k) \<subseteq> {..<length edges}"
  using assms by (auto simp: edge_rel_def left_calls_def first_indices_def index_of_Some names_resolved_def)

lemma acyclic_indices: "acyclic (left_calls rules) \<longleftrightarrow> (\<forall>i < length rules. (i, i) \<notin> (left_calls rules)\<^sup>+)"
proof -
  have "i < length rules" if "(i, j) \<in> (left_calls rules)\<^sup>+" for i j
    using that by (induction rule: trancl.induct) (auto simp: left_calls_def)
  then show ?thesis by (auto simp: acyclic_def)
qed

lemma check_recursion_left:
  assumes "names_resolved rules" "length edges = length rules"
    and "\<And>i. i < length rules \<Longrightarrow> set (edges ! i) = first_indices rules (rule_expr (rules ! i))"
  shows "\<exists>r. check_recursion edges (enumerate 0 rules) = Some r \<and> (r = Inr () \<longleftrightarrow> acyclic (left_calls rules))"
proof -
  note e = left_calls_edges [OF assms]
  have "\<exists>r. check_recursion edges (enumerate 0 rules) = Some r \<and>
      (r = Inr () \<longleftrightarrow> (\<forall>(i, x) \<in> set (enumerate 0 rules). (i, i) \<notin> (left_calls rules)\<^sup>+))"
    using reach_self [OF e(2)] assms(2)
    by (intro check_recursion_exact) (auto simp: in_set_enumerate_eq simp flip: e(1))
  moreover have "(\<forall>(i, x) \<in> set (enumerate 0 rules). (i, i) \<notin> (left_calls rules)\<^sup>+) \<longleftrightarrow> acyclic (left_calls rules)"
    by (auto simp: acyclic_indices in_set_enumerate_eq)
  ultimately show ?thesis by simp
qed

lemma peg_validate_resolved:
  assumes res: "names_resolved rules"
  shows "\<exists>r. peg_validate rules = Some r \<and>
    (r = Inr (index_of rules) \<longleftrightarrow> well_formed rules) \<and> (\<forall>names. r = Inr names \<longrightarrow> names = index_of rules)"
proof -
  have n: "insert_names 0 rules Map.empty = Inr (index_of rules)" using res by (simp add: insert_names_Inr names_resolved_def)
  have t: "try_all (\<lambda>r. walk (rule_expr r) (check_reference (index_of rules))) rules = Inr ()"
    using res by (simp add: try_all_iff references_checked names_resolved_def)
  obtain v where v: "null_loop rules (index_of rules) (replicate (length rules) False) = Some v"
    "\<And>e. refs_defined rules e \<Longrightarrow> nullable e (index_of rules) v \<longleftrightarrow> empty_match rules e"
    using null_loop_exact [OF res] by blast
  have wf: "well_formed rules \<longleftrightarrow> (\<forall>r \<in> set rules. progressive rules (rule_expr r)) \<and> acyclic (left_calls rules)"
    using res by (auto simp: well_formed_def names_resolved_def)
  show ?thesis
  proof (cases "try_map (rule_edges (index_of rules) v) rules")
    case (Inl e)
    then obtain i where "i < length rules" "rule_edges (index_of rules) v (rules ! i) = Inl e" by (auto dest: try_map_Inl)
    moreover from this rule_edges_iff [OF res v(2), of "rules ! i"] have "\<not> progressive rules (rule_expr (rules ! i))" by auto
    ultimately have "\<not> well_formed rules" by (auto simp: wf)
    with n t v(1) Inl show ?thesis by (auto simp: peg_validate_def)
  next
    case (Inr edges)
    have e: "length edges = length rules" "\<And>i. i < length rules \<Longrightarrow> progressive rules (rule_expr (rules ! i)) \<and>
        edges ! i = prefixes (rule_expr (rules ! i)) (index_of rules) v []"
      using try_map_length [OF Inr] try_map_nth [OF Inr] rule_edges_iff [OF res v(2)] by auto
    then have "set (edges ! i) = first_indices rules (rule_expr (rules ! i))" if "i < length rules" for i
      using that res prefixes_exact(1) [OF res v(2)] by (auto simp: names_resolved_def)
    from check_recursion_left [OF res e(1) this] obtain r where
      r: "check_recursion edges (enumerate 0 rules) = Some r" "r = Inr () \<longleftrightarrow> acyclic (left_calls rules)" by blast
    have "well_formed rules \<longleftrightarrow> acyclic (left_calls rules)" using e(2) by (auto simp: wf in_set_conv_nth)
    with n t v(1) Inr r show ?thesis by (cases r) (auto simp: peg_validate_def)
  qed
qed

lemma peg_validate_unresolved:
  assumes "\<not> names_resolved rules"
  shows "\<exists>e. peg_validate rules = Some (Inl e)"
proof (cases "insert_names 0 rules Map.empty")
  case (Inr names)
  with assms have "try_all (\<lambda>r. walk (rule_expr r) (check_reference names)) rules \<noteq> Inr ()"
    by (auto simp: try_all_iff references_checked names_resolved_def insert_names_Inr)
  with Inr show ?thesis by (auto simp: peg_validate_def split: sum.splits)
qed (simp add: peg_validate_def)

lemma peg_validate_decides: "\<exists>r. peg_validate rules = Some r \<and> (isl r \<longleftrightarrow> \<not> well_formed rules)"
proof (cases "names_resolved rules")
  case True
  from peg_validate_resolved [OF this] show ?thesis by (auto simp: isl_def) (metis sum.exhaust)
next
  case False
  moreover from this have "\<not> well_formed rules" by (auto simp: well_formed_def names_resolved_def)
  ultimately show ?thesis using peg_validate_unresolved by fastforce
qed

text \<open>
  C34: Validation of a grammar returns, and decides well-formedness: it answers with the rule
  indices exactly when rule names are distinct, every reference is defined, no repeated
  expression can match the empty string, and no rule can reach itself before consuming input;
  otherwise it answers with an error.
\<close>

theorem peg_validate_correct:
  "\<exists>r. peg_validate rules = Some r \<and>
    (case r of
       Inr names \<Rightarrow> well_formed rules \<and>
         (\<forall>n i. names n = Some i \<longleftrightarrow> i < length rules \<and> n = rule_name (rules ! i))
     | Inl e \<Rightarrow> \<not> well_formed rules)"
proof (cases "names_resolved rules")
  case True
  from peg_validate_resolved [OF this] obtain r where r: "peg_validate rules = Some r"
    "r = Inr (index_of rules) \<longleftrightarrow> well_formed rules" "\<forall>names. r = Inr names \<longrightarrow> names = index_of rules" by blast
  with True show ?thesis by (cases r) (auto simp: index_of_Some names_resolved_def)
next
  case False
  from peg_validate_unresolved [OF this] obtain e where "peg_validate rules = Some (Inl e)" by blast
  moreover from False have "\<not> well_formed rules" by (auto simp: well_formed_def names_resolved_def)
  ultimately show ?thesis by auto
qed

end
