(* ===== verification/PegParser.thy ===== *)
theory PegParser
  imports Peg
begin

text \<open>
  The parsers the PEG macro generates (\<^verbatim>\<open>Generator::expression\<close> and \<^verbatim>\<open>grammar\<close> in
  \<^verbatim>\<open>crates/peg/src/lib.rs\<close>): the state, the frame around every generated function, the body of each
  kind of expression, and \<^verbatim>\<open>parse_rule\<close>. The functions refine the parsing-expression semantics
  \<open>peg\<close>: when no limit is hit, they return exactly its result.
\<close>

section \<open>String slices\<close>

text \<open>A \<^verbatim>\<open>&str\<close> is an address and the bytes there.\<close>

record str_ref =
  sr_ptr :: nat
  sr_bytes :: string

definition continuation :: "char \<Rightarrow> bool" where
  "continuation c \<longleftrightarrow> 128 \<le> (of_char c :: nat) \<and> (of_char c :: nat) < 192"

definition char_boundary :: "string \<Rightarrow> nat \<Rightarrow> bool" where
  "char_boundary s i \<longleftrightarrow> i = 0 \<or> i = length s \<or> i < length s \<and> \<not> continuation (s ! i)"

definition str_slice :: "str_ref \<Rightarrow> nat \<Rightarrow> nat \<Rightarrow> str_ref" where
  "str_slice s a b = \<lparr>sr_ptr = sr_ptr s + a, sr_bytes = take (b - a) (drop a (sr_bytes s))\<rparr>"

definition str_get :: "str_ref \<Rightarrow> nat \<Rightarrow> nat \<Rightarrow> str_ref option" where
  "str_get s a b =
     (if a \<le> b \<and> b \<le> length (sr_bytes s) \<and> char_boundary (sr_bytes s) a \<and> char_boundary (sr_bytes s) b
      then Some (str_slice s a b) else None)"

text \<open>\<^verbatim>\<open>chars().next()\<close>: the first scalar value and its length in bytes.\<close>

definition cont_bits :: "string \<Rightarrow> nat \<Rightarrow> nat" where
  "cont_bits s i = (if i < length s then of_char (s ! i) mod 64 else 0)"

fun next_char :: "string \<Rightarrow> (nat \<times> nat) option" where
  "next_char [] = None"
| "next_char (c # s) =
     (let b = of_char c in
      if b < 128 then Some (b, 1)
      else if b < 224 then Some (b mod 32 * 64 + cont_bits s 0, 2)
      else if b < 240 then Some (b mod 16 * 4096 + cont_bits s 0 * 64 + cont_bits s 1, 3)
      else Some (b mod 8 * 262144 + cont_bits s 0 * 4096 + cont_bits s 1 * 64 + cont_bits s 2, 4))"

definition ascii_lower :: "char \<Rightarrow> char" where
  "ascii_lower c = (let b = of_char c :: nat in if 65 \<le> b \<and> b \<le> 90 then char_of (b + 32) else c)"

definition eq_ignore_ascii_case :: "string \<Rightarrow> string \<Rightarrow> bool" where
  "eq_ignore_ascii_case a b \<longleftrightarrow> map ascii_lower a = map ascii_lower b"

section \<open>Nodes, errors and the parser state\<close>

datatype node = Node (node_rule: string) (node_text: str_ref) (node_start: nat) (node_end: nat) (node_children: "node list")

fun subtrees :: "node \<Rightarrow> node list" where
  "subtrees (Node l t a b cs) = Node l t a b cs # concat (map subtrees cs)"

text \<open>
  The expectation messages, by the data they are formatted from; equal messages are equal data,
  since \<^verbatim>\<open>Debug\<close> quotes and escapes.
\<close>

datatype expectation =
  ExpectLit string bool
| ExpectClass "(nat \<times> nat) list" bool
| ExpectAny
| ExpectPositive
| ExpectNegative
| ExpectEnd
| RecursionLimit
| WorkLimit
| UnknownRule string
| ExpectNodeSpan
| ExpectContained
| ExpectChildSpan
| ExpectBorrowed
| Expected string

record parse_error =
  pe_offset :: nat
  pe_expected :: "expectation list"

fun check_children :: "str_ref \<Rightarrow> nat \<Rightarrow> nat \<Rightarrow> node list \<Rightarrow> parse_error + unit" where
  "check_children input span_end previous_end [] = Inr ()"
| "check_children input span_end previous_end (child # children) =
     (let invalid = (\<lambda>expected. Inl \<lparr>pe_offset = node_start child, pe_expected = [expected]\<rparr>) in
      if node_start child < previous_end \<or> node_end child > span_end then invalid ExpectContained
      else case str_get input (node_start child) (node_end child) of
        None \<Rightarrow> invalid ExpectChildSpan
      | Some child_text \<Rightarrow>
          if sr_ptr (node_text child) \<noteq> sr_ptr child_text \<or>
             length (sr_bytes (node_text child)) \<noteq> length (sr_bytes child_text) then invalid ExpectBorrowed
          else check_children input span_end (node_end child) children)"

definition node_new :: "string \<Rightarrow> str_ref \<Rightarrow> nat \<Rightarrow> nat \<Rightarrow> node list \<Rightarrow> parse_error + node" where
  "node_new rule input span_start span_end children =
     (case str_get input span_start span_end of
        None \<Rightarrow> Inl \<lparr>pe_offset = span_start, pe_expected = [ExpectNodeSpan]\<rparr>
      | Some text \<Rightarrow> and_then (check_children input span_end span_start children) (\<lambda>_.
          Inr (Node rule text span_start span_end children)))"

record pstate =
  st_input :: str_ref
  st_pos :: nat
  st_nodes :: "node list"
  st_error :: parse_error
  st_depth :: nat
  st_limited :: bool
  st_fuel :: nat
  st_suppressed :: nat

definition expect :: "expectation \<Rightarrow> pstate \<Rightarrow> pstate" where
  "expect expected st =
     (if st_limited st \<or> st_suppressed st > 0 \<or> st_pos st < pe_offset (st_error st) then st
      else let error = (if st_pos st > pe_offset (st_error st) then \<lparr>pe_offset = st_pos st, pe_expected = []\<rparr> else st_error st) in
        st\<lparr>st_error := (if expected \<in> set (pe_expected error) then error
          else error\<lparr>pe_expected := pe_expected error @ [expected]\<rparr>)\<rparr>)"

section \<open>Generated functions\<close>

definition depth_limit :: nat where
  "depth_limit = 512"

definition exceed :: "expectation \<Rightarrow> pstate \<Rightarrow> pstate" where
  "exceed limit st = st\<lparr>st_limited := True, st_error := \<lparr>pe_offset = st_pos st, pe_expected = [limit]\<rparr>\<rparr>"

definition expr_frame :: "(pstate \<Rightarrow> bool \<times> pstate) \<Rightarrow> pstate \<Rightarrow> bool \<times> pstate" where
  "expr_frame body st =
     (if st_limited st then (False, st)
      else if st_depth st \<ge> depth_limit then (False, exceed RecursionLimit st)
      else if st_fuel st = 0 then (False, exceed WorkLimit st)
      else case body (st\<lparr>st_fuel := st_fuel st - 1, st_depth := st_depth st + 1\<rparr>) of (ok, st') \<Rightarrow>
        let st' = st'\<lparr>st_depth := st_depth st' - 1\<rparr> in
        (ok, if ok then st' else st'\<lparr>st_pos := st_pos st, st_nodes := take (length (st_nodes st)) (st_nodes st')\<rparr>))"

definition silent :: "string \<Rightarrow> bool" where
  "silent label = (take 1 label = ''_'')"

definition rule_frame :: "string \<Rightarrow> (pstate \<Rightarrow> bool \<times> pstate) \<Rightarrow> pstate \<Rightarrow> bool \<times> pstate" where
  "rule_frame label expression st =
     (if st_limited st then (False, st)
      else if st_depth st \<ge> depth_limit then (False, exceed RecursionLimit st)
      else case expression (st\<lparr>st_depth := st_depth st + 1\<rparr>) of (ok, st') \<Rightarrow>
        let st' = st'\<lparr>st_depth := st_depth st' - 1\<rparr>; mark = length (st_nodes st) in
        (ok, if \<not> ok then st'
             else if silent label then st'\<lparr>st_nodes := take mark (st_nodes st')\<rparr>
             else st'\<lparr>st_nodes := take mark (st_nodes st') @
               [Node label (str_slice (st_input st') (st_pos st) (st_pos st')) (st_pos st) (st_pos st') (drop mark (st_nodes st'))]\<rparr>))"

definition lit_body :: "string \<Rightarrow> bool \<Rightarrow> pstate \<Rightarrow> bool \<times> pstate" where
  "lit_body literal insensitive st =
     (let limit = st_pos st + length literal;
          matched = (case str_get (st_input st) (st_pos st) limit of
             None \<Rightarrow> False
           | Some part \<Rightarrow> if insensitive then eq_ignore_ascii_case (sr_bytes part) literal else sr_bytes part = literal) in
      if matched then (True, st\<lparr>st_pos := limit\<rparr>) else (False, expect (ExpectLit literal insensitive) st))"

definition in_class :: "(nat \<times> nat) list \<Rightarrow> nat \<Rightarrow> bool" where
  "in_class ranges c \<longleftrightarrow> list_ex (\<lambda>(a, b). a \<le> c \<and> c \<le> b) ranges"

definition class_body :: "(nat \<times> nat) list \<Rightarrow> bool \<Rightarrow> pstate \<Rightarrow> bool \<times> pstate" where
  "class_body ranges negated st =
     (case next_char (drop (st_pos st) (sr_bytes (st_input st))) of
        Some (c, len) \<Rightarrow>
          if in_class ranges c \<noteq> negated then (True, st\<lparr>st_pos := st_pos st + len\<rparr>)
          else (False, expect (ExpectClass ranges negated) st)
      | None \<Rightarrow> (False, expect (ExpectClass ranges negated) st))"

definition any_body :: "pstate \<Rightarrow> bool \<times> pstate" where
  "any_body st =
     (case next_char (drop (st_pos st) (sr_bytes (st_input st))) of
        Some (c, len) \<Rightarrow> (True, st\<lparr>st_pos := st_pos st + len\<rparr>)
      | None \<Rightarrow> (False, expect ExpectAny st))"

fun seq_body :: "(pstate \<Rightarrow> bool \<times> pstate) list \<Rightarrow> pstate \<Rightarrow> bool \<times> pstate" where
  "seq_body [] st = (True, st)"
| "seq_body (f # fs) st = (case f st of (ok, st) \<Rightarrow> if ok then seq_body fs st else (False, st))"

fun choice_body :: "(pstate \<Rightarrow> bool \<times> pstate) list \<Rightarrow> pstate \<Rightarrow> bool \<times> pstate" where
  "choice_body [] st = (False, st)"
| "choice_body (f # fs) st = (case f st of (ok, st) \<Rightarrow> if ok then (True, st) else choice_body fs st)"

definition optional_body :: "(pstate \<Rightarrow> bool \<times> pstate) \<Rightarrow> pstate \<Rightarrow> bool \<times> pstate" where
  "optional_body f st = (case f st of (_, st) \<Rightarrow> (\<not> st_limited st, st))"

text \<open>
  \<^verbatim>\<open>while f(state) { count += 1; }\<close>: a call that succeeds has spent fuel, so the comparison that
  bounds the recursion never stops it.
\<close>

function repeat_loop :: "(pstate \<Rightarrow> bool \<times> pstate) \<Rightarrow> nat \<Rightarrow> pstate \<Rightarrow> nat \<times> pstate" where
  "repeat_loop f count st =
     (case f st of (ok, st') \<Rightarrow>
        if ok \<and> st_fuel st' < st_fuel st then repeat_loop f (count + 1) st' else (count, st'))"
  by pat_completeness auto
termination
  by (relation "measure (\<lambda>(f, count, st). st_fuel st)") auto

definition repeat_body :: "(pstate \<Rightarrow> bool \<times> pstate) \<Rightarrow> bool \<Rightarrow> pstate \<Rightarrow> bool \<times> pstate" where
  "repeat_body f one st =
     (case repeat_loop f 0 st of (count, st) \<Rightarrow> (\<not> st_limited st \<and> (\<not> one \<or> count > 0), st))"

definition predicate_body :: "(pstate \<Rightarrow> bool \<times> pstate) \<Rightarrow> bool \<Rightarrow> pstate \<Rightarrow> bool \<times> pstate" where
  "predicate_body f positive st =
     (case f (st\<lparr>st_suppressed := st_suppressed st + 1\<rparr>) of (matched, st') \<Rightarrow>
        let st' = st'\<lparr>st_suppressed := st_suppressed st' - 1, st_pos := st_pos st,
              st_nodes := take (length (st_nodes st)) (st_nodes st')\<rparr>;
            ok = (matched = positive \<and> \<not> st_limited st') in
        (ok, if \<not> ok \<and> \<not> st_limited st' then expect (if positive then ExpectPositive else ExpectNegative) st' else st'))"

text \<open>The body generated for an expression, over the functions generated for its parts.\<close>

fun expression_body :: "(pexpr \<Rightarrow> pstate \<Rightarrow> bool \<times> pstate) \<Rightarrow> rule list \<Rightarrow> rule_names \<Rightarrow> pexpr \<Rightarrow> pstate \<Rightarrow> bool \<times> pstate" where
  "expression_body call rules names (Ref n) st =
     (let r = rules ! the (names n) in rule_frame (rule_name r) (call (rule_expr r)) st)"
| "expression_body call rules names (Lit s insensitive) st = lit_body s insensitive st"
| "expression_body call rules names (Class ranges negated) st = class_body ranges negated st"
| "expression_body call rules names Any st = any_body st"
| "expression_body call rules names (Seq es) st = seq_body (map call es) st"
| "expression_body call rules names (Choice es) st = choice_body (map call es) st"
| "expression_body call rules names (Optional e) st = optional_body (call e) st"
| "expression_body call rules names (Repeat e one) st = repeat_body (call e) one st"
| "expression_body call rules names (Predicate e positive) st = predicate_body (call e) positive st"

text \<open>
  The generated functions call each other with a depth that grows at every call, so a bound on
  the nesting above the parser's own limit is never reached.
\<close>

primrec run :: "nat \<Rightarrow> rule list \<Rightarrow> rule_names \<Rightarrow> pexpr \<Rightarrow> pstate \<Rightarrow> bool \<times> pstate" where
  "run 0 rules names e st = (False, st)"
| "run (Suc k) rules names e st = expr_frame (expression_body (run k rules names) rules names e) st"

lemma run_numeral [simp]:
  "run (numeral v) rules names e st = expr_frame (expression_body (run (pred_numeral v) rules names) rules names e) st"
  by (simp add: numeral_eq_Suc)

definition parse_rule :: "rule list \<Rightarrow> rule_names \<Rightarrow> string \<Rightarrow> str_ref \<Rightarrow> parse_error + node" where
  "parse_rule rules names rule input =
     (let state = \<lparr>st_input = input, st_pos = 0, st_nodes = [], st_error = \<lparr>pe_offset = 0, pe_expected = []\<rparr>,
            st_depth = 0, st_limited = False, st_fuel = 1000000, st_suppressed = 0\<rparr> in
      case find (\<lambda>r. rule_name r = rule) rules of
        None \<Rightarrow> Inl \<lparr>pe_offset = 0, pe_expected = [UnknownRule rule]\<rparr>
      | Some r \<Rightarrow>
          (case rule_frame (rule_name r) (run depth_limit rules names (rule_expr r)) state of (ok, state) \<Rightarrow>
             if \<not> ok \<or> st_limited state then Inl (st_error state)
             else if st_pos state \<noteq> length (sr_bytes input) then Inl (st_error (expect ExpectEnd state))
             else if st_nodes state \<noteq> [] then Inr (last (st_nodes state))
             else Inr (Node rule input 0 (length (sr_bytes input)) [])))"

definition parse_root :: "rule list \<Rightarrow> rule_names \<Rightarrow> str_ref \<Rightarrow> parse_error + node" where
  "parse_root rules names input = parse_rule rules names (rule_name (hd rules)) input"

section \<open>Parsing-expression semantics\<close>

definition lit_matches :: "str_ref \<Rightarrow> nat \<Rightarrow> string \<Rightarrow> bool \<Rightarrow> bool" where
  "lit_matches inp p s insensitive \<longleftrightarrow> (case str_get inp p (p + length s) of
     None \<Rightarrow> False
   | Some part \<Rightarrow> if insensitive then eq_ignore_ascii_case (sr_bytes part) s else sr_bytes part = s)"

definition char_at :: "str_ref \<Rightarrow> nat \<Rightarrow> (nat \<times> nat) option" where
  "char_at inp p = next_char (drop p (sr_bytes inp))"

definition rule_nodes :: "str_ref \<Rightarrow> string \<Rightarrow> nat \<Rightarrow> nat \<Rightarrow> node list \<Rightarrow> node list" where
  "rule_nodes inp label p q children = (if silent label then [] else [Node label (str_slice inp p q) p q children])"

text \<open>
  \<open>peg rules inp e p r\<close>: at byte \<open>p\<close>, expression \<open>e\<close> fails (\<open>None\<close>) or matches up to a byte and yields
  nodes.
\<close>

inductive peg :: "rule list \<Rightarrow> str_ref \<Rightarrow> pexpr \<Rightarrow> nat \<Rightarrow> (nat \<times> node list) option \<Rightarrow> bool" for rules inp where
  p_ref: "index_of rules n = Some i \<Longrightarrow> peg rules inp (rule_expr (rules ! i)) p (Some (q, ns)) \<Longrightarrow>
    peg rules inp (Ref n) p (Some (q, rule_nodes inp (rule_name (rules ! i)) p q ns))"
| p_ref_fail: "index_of rules n = Some i \<Longrightarrow> peg rules inp (rule_expr (rules ! i)) p None \<Longrightarrow> peg rules inp (Ref n) p None"
| p_lit: "peg rules inp (Lit s i) p (if lit_matches inp p s i then Some (p + length s, []) else None)"
| p_class: "char_at inp p = Some (c, len) \<Longrightarrow>
    peg rules inp (Class ranges negated) p (if in_class ranges c \<noteq> negated then Some (p + len, []) else None)"
| p_class_end: "char_at inp p = None \<Longrightarrow> peg rules inp (Class ranges negated) p None"
| p_any: "peg rules inp Any p (map_option (\<lambda>(c, len). (p + len, [])) (char_at inp p))"
| p_seq_nil: "peg rules inp (Seq []) p (Some (p, []))"
| p_seq: "peg rules inp e p (Some (q, ns)) \<Longrightarrow> peg rules inp (Seq es) q r \<Longrightarrow>
    peg rules inp (Seq (e # es)) p (map_option (map_prod (\<lambda>x. x) ((@) ns)) r)"
| p_seq_fail: "peg rules inp e p None \<Longrightarrow> peg rules inp (Seq (e # es)) p None"
| p_choice_nil: "peg rules inp (Choice []) p None"
| p_choice: "peg rules inp e p (Some m) \<Longrightarrow> peg rules inp (Choice (e # es)) p (Some m)"
| p_choice_next: "peg rules inp e p None \<Longrightarrow> peg rules inp (Choice es) p r \<Longrightarrow> peg rules inp (Choice (e # es)) p r"
| p_optional: "peg rules inp e p r \<Longrightarrow> peg rules inp (Optional e) p (Some (case r of None \<Rightarrow> (p, []) | Some m \<Rightarrow> m))"
| p_repeat_end: "peg rules inp e p None \<Longrightarrow> peg rules inp (Repeat e one) p (if one then None else Some (p, []))"
| p_repeat: "peg rules inp e p (Some (q, ns)) \<Longrightarrow> peg rules inp (Repeat e False) q (Some (q', ns')) \<Longrightarrow>
    peg rules inp (Repeat e one) p (Some (q', ns @ ns'))"
| p_predicate: "peg rules inp e p r \<Longrightarrow>
    peg rules inp (Predicate e positive) p (if (r \<noteq> None) = positive then Some (p, []) else None)"

inductive_cases peg_refE: "peg rules inp (Ref n) p r"
inductive_cases peg_litE: "peg rules inp (Lit s i) p r"
inductive_cases peg_classE: "peg rules inp (Class ranges negated) p r"
inductive_cases peg_anyE: "peg rules inp Any p r"
inductive_cases peg_seqE: "peg rules inp (Seq (e # es)) p r"
inductive_cases peg_seq_nilE: "peg rules inp (Seq []) p r"
inductive_cases peg_choiceE: "peg rules inp (Choice (e # es)) p r"
inductive_cases peg_choice_nilE: "peg rules inp (Choice []) p r"
inductive_cases peg_optionalE: "peg rules inp (Optional e) p r"
inductive_cases peg_repeatE: "peg rules inp (Repeat e one) p r"
inductive_cases peg_predicateE: "peg rules inp (Predicate e positive) p r"

lemma peg_deterministic: "peg rules inp e p r \<Longrightarrow> peg rules inp e p r' \<Longrightarrow> r = r'"
proof (induction arbitrary: r' rule: peg.induct)
  case (p_ref n i p q ns)
  from p_ref.prems show ?case by (rule peg_refE) (use p_ref in fastforce)+
next
  case (p_ref_fail n i p)
  from p_ref_fail.prems show ?case by (rule peg_refE) (use p_ref_fail in fastforce)+
next
  case (p_seq e p q ns es r)
  from p_seq.prems show ?case by (rule peg_seqE) (use p_seq.IH in fastforce)+
next
  case (p_choice e p m es)
  from p_choice.prems show ?case by (rule peg_choiceE) (use p_choice.IH in fastforce)+
next
  case (p_optional e p r)
  from p_optional.prems show ?case by (rule peg_optionalE) (use p_optional.IH in fastforce)
next
  case (p_repeat e p q ns q' ns' one)
  from p_repeat.prems show ?case by (rule peg_repeatE) (use p_repeat.IH in fastforce)+
next
  case (p_predicate e p r positive)
  from p_predicate.prems show ?case by (rule peg_predicateE) (use p_predicate.IH in fastforce)
next
  case (p_seq_fail e p es)
  from p_seq_fail.prems show ?case by (rule peg_seqE) (use p_seq_fail.IH in fastforce)+
next
  case (p_choice_next e p es r)
  from p_choice_next.prems show ?case by (rule peg_choiceE) (use p_choice_next.IH in fastforce)+
next
  case (p_repeat_end e p one)
  from p_repeat_end.prems show ?case by (rule peg_repeatE) (use p_repeat_end.IH in fastforce)+
qed (auto elim: peg_litE peg_classE peg_anyE peg_seq_nilE peg_choice_nilE)

section \<open>The generated functions refine the semantics\<close>

text \<open>
  What a call leaves behind: the context is restored, nodes are only appended, fuel is not gained,
  and unless a limit was hit the answer is the semantics' answer.
\<close>

definition body_ok :: "rule list \<Rightarrow> pexpr \<Rightarrow> pstate \<Rightarrow> bool \<times> pstate \<Rightarrow> bool" where
  "body_ok rules e st r \<longleftrightarrow> (case r of (ok, st') \<Rightarrow>
     st_input st' = st_input st \<and> st_depth st' = st_depth st \<and> st_suppressed st' = st_suppressed st \<and>
     st_fuel st' \<le> st_fuel st \<and> (st_limited st \<longrightarrow> st_limited st') \<and> (ok \<longrightarrow> \<not> st_limited st') \<and>
     (\<exists>ns. st_nodes st' = st_nodes st @ ns \<and>
       (ok \<longrightarrow> peg rules (st_input st) e (st_pos st) (Some (st_pos st', ns)))) \<and>
     (\<not> ok \<and> \<not> st_limited st' \<longrightarrow> peg rules (st_input st) e (st_pos st) None))"

definition call_ok :: "rule list \<Rightarrow> pexpr \<Rightarrow> nat \<Rightarrow> (pstate \<Rightarrow> bool \<times> pstate) \<Rightarrow> bool" where
  "call_ok rules e d f \<longleftrightarrow> (\<forall>st. st_depth st = d \<longrightarrow> body_ok rules e st (f st) \<and>
     (if fst (f st) then st_fuel (snd (f st)) < st_fuel st
      else st_pos (snd (f st)) = st_pos st \<and> st_nodes (snd (f st)) = st_nodes st))"

lemma call_okE:
  assumes "call_ok rules e d f" "st_depth st = d" "f st = (ok, st')"
  obtains ns where "st_input st' = st_input st" "st_depth st' = st_depth st" "st_suppressed st' = st_suppressed st"
    "st_fuel st' \<le> st_fuel st" "st_limited st \<longrightarrow> st_limited st'" "st_nodes st' = st_nodes st @ ns"
    "ok \<Longrightarrow> \<not> st_limited st' \<and> st_fuel st' < st_fuel st \<and> peg rules (st_input st) e (st_pos st) (Some (st_pos st', ns))"
    "\<not> ok \<Longrightarrow> st_pos st' = st_pos st \<and> st_nodes st' = st_nodes st \<and> (\<not> st_limited st' \<longrightarrow> peg rules (st_input st) e (st_pos st) None)"
proof -
  from assms have b: "body_ok rules e st (ok, st')"
    "if ok then st_fuel st' < st_fuel st else st_pos st' = st_pos st \<and> st_nodes st' = st_nodes st"
    by (auto simp: call_ok_def)
  from b(1) obtain ns where "st_nodes st' = st_nodes st @ ns" "ok \<longrightarrow> peg rules (st_input st) e (st_pos st) (Some (st_pos st', ns))"
    by (auto simp: body_ok_def)
  with b assms(2) that [of ns] show thesis by (cases ok) (auto simp: body_ok_def)
qed

lemma expect_fields [simp]:
  "st_input (expect x st) = st_input st" "st_pos (expect x st) = st_pos st" "st_nodes (expect x st) = st_nodes st"
  "st_depth (expect x st) = st_depth st" "st_limited (expect x st) = st_limited st" "st_fuel (expect x st) = st_fuel st"
  "st_suppressed (expect x st) = st_suppressed st"
  by (simp_all add: expect_def Let_def)

lemma exceed_fields [simp]:
  "st_input (exceed x st) = st_input st" "st_pos (exceed x st) = st_pos st" "st_nodes (exceed x st) = st_nodes st"
  "st_depth (exceed x st) = st_depth st" "st_limited (exceed x st)" "st_fuel (exceed x st) = st_fuel st"
  "st_suppressed (exceed x st) = st_suppressed st"
  by (simp_all add: exceed_def)

lemma expr_frame_ok:
  assumes "\<And>st. st_depth st = Suc d \<Longrightarrow> d < depth_limit \<Longrightarrow> \<not> st_limited st \<Longrightarrow> body_ok rules e st (body st)"
  shows "call_ok rules e d (expr_frame body)"
  unfolding call_ok_def
proof (intro allI impI)
  fix st :: pstate
  assume d: "st_depth st = d"
  let ?s = "st\<lparr>st_fuel := st_fuel st - 1, st_depth := st_depth st + 1\<rparr>"
  show "body_ok rules e st (expr_frame body st) \<and> (if fst (expr_frame body st) then st_fuel (snd (expr_frame body st)) < st_fuel st
      else st_pos (snd (expr_frame body st)) = st_pos st \<and> st_nodes (snd (expr_frame body st)) = st_nodes st)"
  proof (cases "st_limited st \<or> st_depth st \<ge> depth_limit \<or> st_fuel st = 0")
    case True
    then show ?thesis by (auto simp: expr_frame_def body_ok_def)
  next
    case False
    obtain ok st' where b: "body ?s = (ok, st')" by (cases "body ?s")
    have "body_ok rules e ?s (ok, st')" using assms [of ?s] d False b by simp
    with b False show ?thesis by (auto simp: expr_frame_def body_ok_def Let_def)
  qed
qed

lemma rule_frame_ok:
  assumes "d < depth_limit \<Longrightarrow> call_ok rules (rule_expr (rules ! i)) (Suc d) f" "index_of rules n = Some i"
    and "st_depth st = d"
  shows "body_ok rules (Ref n) st (rule_frame (rule_name (rules ! i)) f st)"
proof (cases "st_limited st \<or> st_depth st \<ge> depth_limit")
  case True
  then show ?thesis by (auto simp: rule_frame_def body_ok_def)
next
  case False
  let ?s = "st\<lparr>st_depth := st_depth st + 1\<rparr>"
  obtain ok st' where b: "f ?s = (ok, st')" by (cases "f ?s")
  from False assms(3) have "st_depth ?s = Suc d" "d < depth_limit" by auto
  from call_okE [OF assms(1) [OF this(2)] this(1) b] show ?thesis
  proof cases
    case (1 ns)
    have "peg rules (st_input st) (Ref n) (st_pos st) (Some (st_pos st', rule_nodes (st_input st) (rule_name (rules ! i)) (st_pos st) (st_pos st') ns))" if ok
      using 1(7) [OF that] assms(2) by (auto intro: p_ref)
    with 1 b False assms(2,3) show ?thesis
      by (cases ok) (auto simp: rule_frame_def body_ok_def Let_def rule_nodes_def intro: p_ref_fail)
  qed
qed

lemma lit_body_ok: "\<not> st_limited st \<Longrightarrow> body_ok rules (Lit s i) st (lit_body s i st)"
  using p_lit [of rules "st_input st" s i "st_pos st"]
  by (auto simp: body_ok_def lit_body_def lit_matches_def Let_def split: option.splits if_splits)

lemma class_body_ok: "\<not> st_limited st \<Longrightarrow> body_ok rules (Class ranges negated) st (class_body ranges negated st)"
  using p_class [of "st_input st" "st_pos st" _ _ rules ranges negated] p_class_end [of "st_input st" "st_pos st" rules ranges negated]
  by (fastforce simp: body_ok_def class_body_def char_at_def split: option.splits)

lemma any_body_ok: "\<not> st_limited st \<Longrightarrow> body_ok rules Any st (any_body st)"
  using p_any [of rules "st_input st" "st_pos st"]
  by (auto simp: body_ok_def any_body_def char_at_def split: option.splits)

lemma seq_body_ok:
  assumes "\<And>e. e \<in> set es \<Longrightarrow> call_ok rules e d (f e)" "st_depth st = d" "\<not> st_limited st"
  shows "body_ok rules (Seq es) st (seq_body (map f es) st)"
  using assms
proof (induction es arbitrary: st)
  case Nil
  then show ?case by (auto simp: body_ok_def p_seq_nil)
next
  case (Cons e es)
  obtain ok st1 where b: "f e st = (ok, st1)" by (cases "f e st")
  from Cons.prems have "call_ok rules e d (f e)" by simp
  from call_okE [OF this Cons.prems(2) b] show ?case
  proof cases
    case (1 ns)
    show ?thesis
    proof (cases ok)
      case True
      obtain ok' st2 where r: "seq_body (map f es) st1 = (ok', st2)" by (cases "seq_body (map f es) st1")
      with Cons.IH [of st1] 1 True Cons.prems have ih: "body_ok rules (Seq es) st1 (ok', st2)" by auto
      have p: "peg rules (st_input st) (Seq (e # es)) (st_pos st) (map_option (map_prod (\<lambda>x. x) ((@) ns)) r)"
        if "peg rules (st_input st) (Seq es) (st_pos st1) r" for r using 1(7) [OF True] that by (auto intro: p_seq)
      from 1 True b r ih p [of None] Cons.prems(2) show ?thesis by (auto simp: body_ok_def dest!: p)
    next
      case False
      with 1 b show ?thesis by (auto simp: body_ok_def intro: p_seq_fail)
    qed
  qed
qed

lemma choice_body_ok:
  assumes "\<And>e. e \<in> set es \<Longrightarrow> call_ok rules e d (f e)" "st_depth st = d"
  shows "body_ok rules (Choice es) st (choice_body (map f es) st)"
  using assms
proof (induction es arbitrary: st)
  case Nil
  then show ?case by (auto simp: body_ok_def p_choice_nil)
next
  case (Cons e es)
  obtain ok st1 where b: "f e st = (ok, st1)" by (cases "f e st")
  from Cons.prems have "call_ok rules e d (f e)" by simp
  from call_okE [OF this Cons.prems(2) b] show ?case
  proof cases
    case (1 ns)
    show ?thesis
    proof (cases ok)
      case True
      with 1(7) have "peg rules (st_input st) (Choice (e # es)) (st_pos st) (Some (st_pos st1, ns))" by (auto intro: p_choice)
      with 1 True b Cons.prems(2) show ?thesis by (auto simp: body_ok_def)
    next
      case False
      obtain ok' st2 where r: "choice_body (map f es) st1 = (ok', st2)" by (cases "choice_body (map f es) st1")
      with Cons.IH [of st1] 1 Cons.prems have ih: "body_ok rules (Choice es) st1 (ok', st2)" by auto
      with 1 False b r show ?thesis
        by (auto simp: body_ok_def intro: p_choice_next)
    qed
  qed
qed

lemma optional_body_ok:
  assumes "call_ok rules e d f" "st_depth st = d"
  shows "body_ok rules (Optional e) st (optional_body f st)"
proof -
  obtain ok st1 where b: "f st = (ok, st1)" by (cases "f st")
  from call_okE [OF assms b] show ?thesis
  proof cases
    case (1 ns)
    then show ?thesis using p_optional [of rules "st_input st" e "st_pos st" "if ok then Some (st_pos st1, ns) else None"] b
      by (cases ok) (auto simp: optional_body_def body_ok_def)
  qed
qed

lemma repeat_loop_ok:
  assumes "call_ok rules e d f" "repeat_loop f count st = (count', st')" "st_depth st = d"
  shows "st_input st' = st_input st \<and> st_depth st' = st_depth st \<and> st_suppressed st' = st_suppressed st \<and>
    st_fuel st' \<le> st_fuel st \<and> (st_limited st \<longrightarrow> st_limited st') \<and> count \<le> count' \<and>
    (\<exists>ns. st_nodes st' = st_nodes st @ ns \<and> (\<not> st_limited st' \<longrightarrow>
       peg rules (st_input st) (Repeat e False) (st_pos st) (Some (st_pos st', ns)) \<and>
       (if count = count' then peg rules (st_input st) e (st_pos st) None
        else peg rules (st_input st) (Repeat e True) (st_pos st) (Some (st_pos st', ns)))))"
  using assms
proof (induction f count st rule: repeat_loop.induct)
  case (1 f count st)
  obtain ok st1 where b: "f st = (ok, st1)" by (cases "f st")
  from call_okE [OF "1.prems"(1,3) b] show ?case
  proof cases
    case c: (1 ns)
    show ?thesis
    proof (cases ok)
      case True
      with c have r: "repeat_loop f (count + 1) st1 = (count', st')" "st_depth st1 = d" using "1.prems"(2,3) b by simp_all
      from "1.IH" [OF b [symmetric]] True c "1.prems"(1) r obtain ns' where
        i: "st_input st' = st_input st1" "st_depth st' = st_depth st1" "st_suppressed st' = st_suppressed st1"
          "st_fuel st' \<le> st_fuel st1" "count + 1 \<le> count'" "st_nodes st' = st_nodes st1 @ ns'"
          "\<not> st_limited st' \<longrightarrow> peg rules (st_input st1) (Repeat e False) (st_pos st1) (Some (st_pos st', ns'))" by auto
      have "peg rules (st_input st) (Repeat e one) (st_pos st) (Some (st_pos st', ns @ ns'))" if "\<not> st_limited st'" for one
        using c True i(7) that by (auto intro: p_repeat)
      with i c True show ?thesis by auto
    next
      case False
      with b "1.prems"(2) have "count' = count" "st' = st1" by simp_all
      with c False p_repeat_end [of rules "st_input st" e "st_pos st" False] show ?thesis by auto
    qed
  qed
qed

lemma repeat_body_ok:
  assumes "call_ok rules e d f" "st_depth st = d"
  shows "body_ok rules (Repeat e one) st (repeat_body f one st)"
proof -
  obtain c st1 where b: "repeat_loop f 0 st = (c, st1)" by (cases "repeat_loop f 0 st")
  from repeat_loop_ok [OF assms(1) b assms(2)] b p_repeat_end [of rules "st_input st" e "st_pos st" True] show ?thesis
    by (cases one) (auto simp: repeat_body_def body_ok_def split: if_splits)
qed

lemma predicate_body_ok:
  assumes "call_ok rules e d f" "st_depth st = d"
  shows "body_ok rules (Predicate e positive) st (predicate_body f positive st)"
proof -
  let ?s = "st\<lparr>st_suppressed := st_suppressed st + 1\<rparr>"
  obtain ok st1 where b: "f ?s = (ok, st1)" by (cases "f ?s")
  have "st_depth ?s = d" using assms(2) by simp
  from call_okE [OF assms(1) this b] show ?thesis
  proof cases
    case (1 ns)
    then show ?thesis
      using p_predicate [of rules "st_input st" e "st_pos st" "if ok then Some (st_pos st1, ns) else None" positive] b
      by (cases ok; cases positive) (auto simp: predicate_body_def body_ok_def Let_def)
  qed
qed

lemma run_ok:
  assumes "names_resolved rules" "refs_defined rules e" "k > depth_limit - d"
  shows "call_ok rules e d (run k rules (index_of rules) e)"
  using assms(2,3)
proof (induction k arbitrary: e d)
  case (Suc k)
  have IH: "call_ok rules x (Suc d) (run k rules (index_of rules) x)" if "refs_defined rules x" "d < depth_limit" for x
    using Suc.IH [OF that(1), of "Suc d"] Suc.prems(2) that(2) by simp
  have ref: "body_ok rules (Ref n) st (rule_frame (rule_name (rules ! the (index_of rules n)))
      (run k rules (index_of rules) (rule_expr (rules ! the (index_of rules n)))) st)"
    if "refs_defined rules (Ref n)" "st_depth st = Suc d" "d < depth_limit" for n st
  proof -
    from ref_index [OF assms(1) that(1)] obtain i where i: "i < length rules" "index_of rules n = Some i" by blast
    then have "refs_defined rules (rule_expr (rules ! i))" using assms(1) by (simp add: names_resolved_def)
    then have "Suc d < depth_limit \<Longrightarrow> call_ok rules (rule_expr (rules ! i)) (Suc (Suc d)) (run k rules (index_of rules) (rule_expr (rules ! i)))"
      using Suc.IH [of _ "Suc (Suc d)"] Suc.prems(2) that(3) by simp
    from rule_frame_ok [OF this i(2) that(2)] i(2) show ?thesis by simp
  qed
  have "call_ok rules e d (expr_frame (expression_body (run k rules (index_of rules)) rules (index_of rules) e))"
    using Suc.prems(1)
    by (intro expr_frame_ok, cases e)
      (auto simp: ref lit_body_ok class_body_ok any_body_ok Let_def
        intro!: seq_body_ok choice_body_ok optional_body_ok repeat_body_ok predicate_body_ok IH)
  then show ?case by (simp add: call_ok_def)
qed simp

end
