(* ===== verification/Transform.thy ===== *)
theory Transform
  imports Numbers SqlAst PegParser
begin

text \<open>
  Conversion of parse trees to syntax trees (\<^verbatim>\<open>crates/parser/src/transform.rs\<close>): the cursor over a
  node's children, the leaf tokens, and one operation per \<^verbatim>\<open>ParseNode\<close> implementation.
\<close>

section \<open>Errors and the cursor over children\<close>

definition node_error :: "node \<Rightarrow> string \<Rightarrow> parse_error" where
  "node_error n expected = \<lparr>pe_offset = node_start n, pe_expected = [Expected expected]\<rparr>"

record cursor =
  ch_node :: node
  ch_rest :: "node list"

definition ch_new :: "node \<Rightarrow> cursor" where
  "ch_new n = \<lparr>ch_node = n, ch_rest = node_children n\<rparr>"

definition ch_take :: "string \<Rightarrow> cursor \<Rightarrow> parse_error + node \<times> cursor" where
  "ch_take rule c = (case ch_rest c of
     n # rest \<Rightarrow> if node_rule n = rule then Inr (n, c\<lparr>ch_rest := rest\<rparr>) else Inl (node_error (ch_node c) rule)
   | [] \<Rightarrow> Inl (node_error (ch_node c) rule))"

definition ch_optional :: "string \<Rightarrow> cursor \<Rightarrow> parse_error + node option \<times> cursor" where
  "ch_optional rule c =
     (if ch_rest c \<noteq> [] \<and> node_rule (hd (ch_rest c)) = rule
      then and_then (ch_take rule c) (\<lambda>(n, c). Inr (Some n, c))
      else Inr (None, c))"

definition ch_finish :: "cursor \<Rightarrow> parse_error + unit" where
  "ch_finish c = (if ch_rest c = [] then Inr () else Inl (node_error (ch_node c) ''no extra children''))"

definition only :: "node \<Rightarrow> string \<Rightarrow> parse_error + node" where
  "only n rule = and_then (ch_take rule (ch_new n)) (\<lambda>(child, c). and_then (ch_finish c) (\<lambda>_. Inr child))"

abbreviation text_of :: "node \<Rightarrow> string" where
  "text_of n \<equiv> sr_bytes (node_text n)"

definition leaf :: "node \<Rightarrow> parse_error + string" where
  "leaf n = and_then (ch_finish (ch_new n)) (\<lambda>_. Inr (text_of n))"

text \<open>\<^verbatim>\<open>while !c.rest.is_empty() { v.push(f(c.take(rule)?)?); }\<close>, and the same after one mandatory child.\<close>

fun take_all :: "string \<Rightarrow> (node \<Rightarrow> parse_error + 'a) \<Rightarrow> node \<Rightarrow> node list \<Rightarrow> parse_error + 'a list" where
  "take_all rule f parent [] = Inr []"
| "take_all rule f parent (n # rest) =
     (if node_rule n = rule then and_then (f n) (\<lambda>v. and_then (take_all rule f parent rest) (\<lambda>vs. Inr (v # vs)))
      else Inl (node_error parent rule))"

definition take_some :: "string \<Rightarrow> (node \<Rightarrow> parse_error + 'a) \<Rightarrow> cursor \<Rightarrow> parse_error + 'a list" where
  "take_some rule f c =
     and_then (ch_take rule c) (\<lambda>(n, c). and_then (f n) (\<lambda>v.
     and_then (take_all rule f (ch_node c) (ch_rest c)) (\<lambda>vs. Inr (v # vs))))"

section \<open>Tokens\<close>

definition is_blank :: "char \<Rightarrow> bool" where
  "is_blank c \<longleftrightarrow> c \<in> {CHR 0x20, CHR 0x09, CHR 0x0D, CHR 0x0A}"

text \<open>The rest after the first \<^verbatim>\<open>*/\<close>, and from the first line end.\<close>

fun after_close :: "string \<Rightarrow> string option" where
  "after_close [] = None"
| "after_close (c # s) = (if take 2 (c # s) = ''*/'' then Some (drop 2 (c # s)) else after_close s)"

definition line_end :: "string \<Rightarrow> string" where
  "line_end s = dropWhile (\<lambda>c. c \<noteq> CHR 0x0A) s"

lemma after_close_length: "after_close s = Some r \<Longrightarrow> length r < length s"
  by (induction s rule: after_close.induct) (auto split: if_splits)

lemma drop2_dropWhile_less: "take 2 (dropWhile P s) = [a, b] \<Longrightarrow> Suc (length (drop 2 (dropWhile P s))) < length s"
  using length_dropWhile_le [of P s] by (cases "dropWhile P s" rule: remdups_adj.cases) auto

function trivia :: "string \<Rightarrow> bool" where
  "trivia s =
     (let s = dropWhile is_blank s in
      if take 2 s = ''--'' then trivia (line_end (drop 2 s))
      else if take 2 s = ''/*'' then
        (case after_close (drop 2 s) of None \<Rightarrow> False | Some r \<Rightarrow> trivia r)
      else s = [])"
  by pat_completeness auto
termination
proof (relation "measure length")
  fix s x :: string
  assume "x = dropWhile is_blank s" "take 2 x = ''--''"
  then show "(line_end (drop 2 x), s) \<in> measure length"
    using drop2_dropWhile_less [of is_blank s] length_dropWhile_le [of "\<lambda>c. c \<noteq> CHR 0x0A" "drop 2 x"]
    by (auto simp: line_end_def)
next
  fix s x r :: string
  assume "x = dropWhile is_blank s" "take 2 x = ''/*''" "after_close (drop 2 x) = Some r"
  then show "(r, s) \<in> measure length"
    using drop2_dropWhile_less [of is_blank s] after_close_length [of "drop 2 x" r] by auto
qed simp

definition starts_token :: "str_ref \<Rightarrow> string \<Rightarrow> bool" where
  "starts_token s v = (case str_get s 0 (length v) of None \<Rightarrow> False | Some p \<Rightarrow> eq_ignore_ascii_case (sr_bytes p) v)"

fun position :: "('a \<Rightarrow> bool) \<Rightarrow> 'a list \<Rightarrow> nat option" where
  "position p [] = None"
| "position p (x # xs) = (if p x then Some 0 else map_option Suc (position p xs))"

definition token :: "node \<Rightarrow> string list \<Rightarrow> parse_error + nat" where
  "token n choices =
     and_then (leaf n) (\<lambda>s.
     ok_or (node_error n ''valid leaf token'')
       (position (\<lambda>v. starts_token (node_text n) v \<and> trivia (drop (length v) s)) choices))"

text \<open>A quote is an ASCII character, so characters may be read as bytes.\<close>

fun quotes_doubled :: "char \<Rightarrow> string \<Rightarrow> bool" where
  "quotes_doubled q [] = True"
| "quotes_doubled q (c # s) =
     (if c = q then (case s of [] \<Rightarrow> False | d # s \<Rightarrow> d = q \<and> quotes_doubled q s) else quotes_doubled q s)"

fun undouble :: "char \<Rightarrow> string \<Rightarrow> string" where
  "undouble q (a # b # s) = (if a = q \<and> b = q then q # undouble q s else a # undouble q (b # s))"
| "undouble q s = s"

definition unquote :: "node \<Rightarrow> char \<Rightarrow> parse_error + string" where
  "unquote n quote =
     and_then (leaf n) (\<lambda>s.
     if s = [] \<or> hd s \<noteq> quote \<or> tl s = [] \<or> last s \<noteq> quote then Inl (node_error n ''paired SQL quotes'')
     else let inner = butlast (tl s) in
       if \<not> quotes_doubled quote inner then Inl (node_error n ''doubled SQL quote'')
       else if quote \<in> set inner then
         (if quote = CHR 0x27 \<or> quote = CHR 0x22 then Inr (undouble quote inner)
          else Inl (node_error n ''SQL quote delimiter''))
       else Inr inner)"

definition is_ascii_alphabetic :: "char \<Rightarrow> bool" where
  "is_ascii_alphabetic c \<longleftrightarrow> (let b = of_char c :: nat in 65 \<le> b \<and> b \<le> 90 \<or> 97 \<le> b \<and> b \<le> 122)"

definition word_char :: "char \<Rightarrow> bool" where
  "word_char c \<longleftrightarrow> is_ascii_alphabetic c \<or> is_ascii_digit c \<or> c = CHR 0x5F"

definition RESERVED :: "string list" where
  "RESERVED = [''SELECT'', ''FROM'', ''WHERE'', ''CREATE'', ''TABLE'', ''INSERT'', ''INTO'', ''VALUES'', ''UPDATE'', ''SET'',
     ''DELETE'', ''BEGIN'', ''COMMIT'', ''ROLLBACK'', ''OR'', ''AND'', ''NOT'', ''IS'', ''NULL'', ''TRUE'', ''FALSE'', ''PRIMARY'',
     ''KEY'', ''UNIQUE'', ''ORDER'', ''BY'', ''LIMIT'', ''JOIN'', ''AS'', ''GROUP'', ''HAVING'', ''UNION'', ''DISTINCT'', ''ASC'',
     ''DESC'', ''NULLS'', ''FIRST'', ''LAST'', ''FILTER'', ''OVER'', ''PARTITION'', ''ROWS'', ''RANGE'', ''BETWEEN'', ''UNBOUNDED'',
     ''PRECEDING'', ''FOLLOWING'', ''CURRENT'', ''ROW'']"

definition bare_identifier :: "node \<Rightarrow> parse_error + string" where
  "bare_identifier child =
     and_then (leaf child) (\<lambda>s.
     if s = [] \<or> \<not> (is_ascii_alphabetic (hd s) \<or> hd s = CHR 0x5F) \<or> \<not> list_all word_char s
     then Inl (node_error child ''bare identifier'')
     else if list_ex (\<lambda>word. eq_ignore_ascii_case word s) RESERVED then Inl (node_error child ''nonreserved identifier'')
     else Inr (map ascii_lower s))"

definition identifier_of :: "node \<Rightarrow> parse_error + string" where
  "identifier_of n =
     (if node_rule n \<noteq> ''Identifier'' then Inl (node_error n ''Identifier'')
      else case node_children n of
        [child] \<Rightarrow>
          if node_rule child = ''QuotedIdentifier'' then
            and_then (unquote child (CHR 0x22)) (\<lambda>v.
            if v = [] then Inl (node_error child ''nonempty identifier'') else Inr v)
          else if node_rule child = ''BareIdentifier'' then bare_identifier child
          else Inl (node_error child ''identifier token'')
      | _ \<Rightarrow> Inl (node_error n ''one identifier token''))"

text \<open>The loop of \<^verbatim>\<open>keyword_sequence\<close> that finds the next keyword after blanks and comments.\<close>

function skip_trivia :: "node \<Rightarrow> string \<Rightarrow> parse_error + string" where
  "skip_trivia n s =
     (let s = dropWhile is_blank s in
      if take 2 s = ''/*'' then
        (case after_close (drop 2 s) of None \<Rightarrow> Inl (node_error n ''closed comment'') | Some r \<Rightarrow> skip_trivia n r)
      else if take 2 s = ''--'' then skip_trivia n (line_end (drop 2 s))
      else Inr s)"
  by pat_completeness auto
termination
proof (relation "measure (length \<circ> snd)")
  fix n :: node and s x :: string
  assume "x = dropWhile is_blank s" "take 2 x = ''--''"
  then show "((n, line_end (drop 2 x)), n, s) \<in> measure (length \<circ> snd)"
    using drop2_dropWhile_less [of is_blank s] length_dropWhile_le [of "\<lambda>c. c \<noteq> CHR 0x0A" "drop 2 x"]
    by (auto simp: line_end_def)
next
  fix n :: node and s x r :: string
  assume "x = dropWhile is_blank s" "take 2 x = ''/*''" "after_close (drop 2 x) = Some r"
  then show "((n, r), n, s) \<in> measure (length \<circ> snd)"
    using drop2_dropWhile_less [of is_blank s] after_close_length [of "drop 2 x" r] by auto
qed simp

declare trivia.simps [simp del] skip_trivia.simps [simp del]

text \<open>The rest of the text is a slice of its own, so that \<^verbatim>\<open>get\<close> sees its boundaries.\<close>

fun keywords_from :: "node \<Rightarrow> bool \<Rightarrow> string list \<Rightarrow> string \<Rightarrow> parse_error + string" where
  "keywords_from n first [] s = Inr s"
| "keywords_from n first (word # words) s =
     and_then (if first then Inr s else skip_trivia n s) (\<lambda>s.
     if \<not> starts_token \<lparr>sr_ptr = 0, sr_bytes = s\<rparr> word then Inl (node_error n ''keyword sequence'')
     else let s = drop (length word) s in
       if s \<noteq> [] \<and> word_char (hd s) then Inl (node_error n ''keyword boundary'')
       else keywords_from n False words s)"

definition keyword_sequence :: "node \<Rightarrow> string list \<Rightarrow> parse_error + unit" where
  "keyword_sequence n words =
     and_then (keywords_from n True words (text_of n)) (\<lambda>s.
     if trivia s then Inr () else Inl (node_error n ''trailing trivia''))"

section \<open>Columns, types and constraints\<close>

definition varchar_type :: "node \<Rightarrow> parse_error + data_type" where
  "varchar_type ty =
     and_then (ch_optional ''Length'' (ch_new ty)) (\<lambda>(len, c).
     and_then (try_option (\<lambda>n. and_then (leaf n) (\<lambda>s. if \<not> all_digits s then Inl (node_error n ''decimal length'') else Inr s)) len) (\<lambda>len.
     and_then (ch_finish c) (\<lambda>_.
     and_then (if len = None then and_then (token ty [''VARCHAR'']) (\<lambda>_. Inr ()) else Inr ()) (\<lambda>_.
     Inr (DVarchar len)))))"

definition simple_types :: "string \<rightharpoonup> data_type \<times> string list" where
  "simple_types = map_of [(''IntegerType'', (DInteger, [''INTEGER'', ''INT''])), (''BigIntType'', (DBigInt, [''BIGINT''])),
     (''TextType'', (DText, [''TEXT''])), (''BooleanType'', (DBoolean, [''BOOLEAN'', ''BOOL''])),
     (''RealType'', (DReal, [''REAL''])), (''DoubleType'', (DDouble, [''DOUBLE'']))]"

definition parse_data_type :: "node \<Rightarrow> parse_error + data_type" where
  "parse_data_type n =
     (if node_rule n \<noteq> ''DataType'' then Inl (node_error n ''DataType'')
      else case node_children n of
        [ty] \<Rightarrow>
          (case simple_types (node_rule ty) of
             Some (v, tokens) \<Rightarrow> and_then (token ty tokens) (\<lambda>_. Inr v)
           | None \<Rightarrow> if node_rule ty = ''VarcharType'' then varchar_type ty else Inl (node_error ty ''data type''))
      | _ \<Rightarrow> Inl (node_error n ''one data type''))"

definition constraint_words :: "string \<rightharpoonup> column_constraint \<times> string list" where
  "constraint_words = map_of [(''NotNull'', (CNotNull, [''NOT'', ''NULL''])), (''PrimaryKey'', (CPrimaryKey, [''PRIMARY'', ''KEY''])),
     (''Unique'', (CUnique, [''UNIQUE'']))]"

definition parse_constraint :: "node \<Rightarrow> parse_error + column_constraint" where
  "parse_constraint n =
     (if node_rule n \<noteq> ''Constraint'' then Inl (node_error n ''Constraint'')
      else case node_children n of
        [k] \<Rightarrow>
          (case constraint_words (node_rule k) of
             Some (v, words) \<Rightarrow> and_then (leaf k) (\<lambda>_. and_then (keyword_sequence k words) (\<lambda>_. Inr v))
           | None \<Rightarrow> Inl (node_error k ''column constraint''))
      | _ \<Rightarrow> Inl (node_error n ''one constraint''))"

definition parse_column_def :: "node \<Rightarrow> parse_error + column_def" where
  "parse_column_def n =
     (if node_rule n \<noteq> ''ColumnDef'' then Inl (node_error n ''ColumnDef'')
      else and_then (ch_take ''Identifier'' (ch_new n)) (\<lambda>(i, c).
        and_then (identifier_of i) (\<lambda>name.
        and_then (ch_take ''DataType'' c) (\<lambda>(t, c).
        and_then (parse_data_type t) (\<lambda>ty.
        and_then (take_all ''Constraint'' parse_constraint (ch_node c) (ch_rest c)) (\<lambda>cs.
        Inr \<lparr>cd_name = name, cd_type = ty, cd_constraints = cs\<rparr>))))))"

section \<open>Literals and operators\<close>

definition parse_literal :: "node \<Rightarrow> parse_error + literal" where
  "parse_literal n =
     (if node_rule n = ''String'' then and_then (unquote n (CHR 0x27)) (\<lambda>s. Inr (LitString s))
      else if node_rule n = ''Number'' then
        and_then (leaf n) (\<lambda>s. if \<not> parser_number s then Inl (node_error n ''numeric literal'') else Inr (LitNumber s))
      else if node_rule n = ''Null'' then and_then (token n [''NULL'']) (\<lambda>_. Inr LitNull)
      else if node_rule n = ''True'' then and_then (token n [''TRUE'']) (\<lambda>_. Inr (LitBoolean True))
      else if node_rule n = ''False'' then and_then (token n [''FALSE'']) (\<lambda>_. Inr (LitBoolean False))
      else Inl (node_error n ''literal node''))"

definition operator_tokens :: "string \<rightharpoonup> string list \<times> binary_op list" where
  "operator_tokens = map_of [(''OrOp'', ([''OR''], [OpOr])), (''AndOp'', ([''AND''], [OpAnd])),
     (''AddOp'', ([''+'', ''-''], [OpAdd, OpSubtract])), (''MulOp'', ([''*'', ''/'', ''%''], [OpMultiply, OpDivide, OpModulo])),
     (''CompareOp'', ([''<='', ''>='', ''<>'', ''!='', ''='', ''<'', ''>''],
       [OpLessEq, OpGreaterEq, OpNotEq, OpNotEq, OpEq, OpLess, OpGreater]))]"

definition operator_of :: "node \<Rightarrow> parse_error + binary_op" where
  "operator_of n = (case operator_tokens (node_rule n) of
     None \<Rightarrow> Inl (node_error n ''binary operator'')
   | Some (tokens, ops) \<Rightarrow> and_then (token n tokens) (\<lambda>i. Inr (ops ! i)))"

section \<open>Ordering and frames\<close>

definition parse_sort_direction :: "node \<Rightarrow> parse_error + sort_direction" where
  "parse_sort_direction n =
     (if node_rule n \<noteq> ''SortDirection'' then Inl (node_error n ''SortDirection'')
      else and_then (token n [''ASC'', ''DESC'']) (\<lambda>i. Inr (if i = 0 then Ascending else Descending)))"

definition parse_null_order :: "node \<Rightarrow> parse_error + null_order" where
  "parse_null_order n =
     (if node_rule n \<noteq> ''NullOrder'' then Inl (node_error n ''NullOrder'')
      else and_then (leaf n) (\<lambda>_.
        case keyword_sequence n [''NULLS'', ''FIRST''] of
          Inr _ \<Rightarrow> Inr NullsFirst
        | Inl _ \<Rightarrow> and_then (keyword_sequence n [''NULLS'', ''LAST'']) (\<lambda>_. Inr NullsLast)))"

definition parse_frame_units :: "node \<Rightarrow> parse_error + frame_units" where
  "parse_frame_units n =
     (if node_rule n \<noteq> ''FrameUnits'' then Inl (node_error n ''FrameUnits'')
      else and_then (token n [''ROWS'', ''RANGE'']) (\<lambda>i. Inr (if i = 0 then RowsUnits else RangeUnits)))"

definition bound_words :: "string \<rightharpoonup> frame_bound \<times> string list" where
  "bound_words = map_of [(''UnboundedPreceding'', (UnboundedPreceding, [''UNBOUNDED'', ''PRECEDING''])),
     (''UnboundedFollowing'', (UnboundedFollowing, [''UNBOUNDED'', ''FOLLOWING''])), (''CurrentRow'', (CurrentRow, [''CURRENT'', ''ROW'']))]"

definition parse_frame_bound :: "node \<Rightarrow> parse_error + frame_bound" where
  "parse_frame_bound n =
     (if node_rule n \<noteq> ''FrameBound'' then Inl (node_error n ''FrameBound'')
      else case node_children n of
        [bound] \<Rightarrow>
          (case bound_words (node_rule bound) of
             Some (v, words) \<Rightarrow> and_then (leaf bound) (\<lambda>_. and_then (keyword_sequence bound words) (\<lambda>_. Inr v))
           | None \<Rightarrow>
               if node_rule bound = ''Preceding'' \<or> node_rule bound = ''Following'' then
                 and_then (only bound ''Offset'') (\<lambda>o'.
                 and_then (leaf o') (\<lambda>offset.
                 if \<not> all_digits offset then Inl (node_error bound ''unsigned decimal offset'')
                 else Inr (if node_rule bound = ''Preceding'' then Preceding offset else Following offset)))
               else Inl (node_error bound ''frame bound''))
      | _ \<Rightarrow> Inl (node_error n ''one frame bound''))"

definition frame_between :: "node \<Rightarrow> parse_error + frame_bound \<times> frame_bound" where
  "frame_between b =
     and_then (ch_take ''FrameBound'' (ch_new b)) (\<lambda>(s, c).
     and_then (parse_frame_bound s) (\<lambda>start.
     and_then (ch_take ''FrameBound'' c) (\<lambda>(e, c).
     and_then (parse_frame_bound e) (\<lambda>stop.
     and_then (ch_finish c) (\<lambda>_. Inr (start, stop))))))"

definition parse_window_frame :: "node \<Rightarrow> parse_error + window_frame" where
  "parse_window_frame n =
     (if node_rule n \<noteq> ''WindowFrame'' then Inl (node_error n ''WindowFrame'')
      else and_then (ch_take ''FrameUnits'' (ch_new n)) (\<lambda>(u, c).
        and_then (parse_frame_units u) (\<lambda>units.
        and_then (ch_optional ''Between'' c) (\<lambda>(between, c).
        and_then (case between of
             Some b \<Rightarrow> and_then (frame_between b) (\<lambda>bounds. Inr (bounds, c))
           | None \<Rightarrow> and_then (ch_take ''FrameBound'' c) (\<lambda>(b, c).
               and_then (parse_frame_bound b) (\<lambda>start. Inr ((start, CurrentRow), c)))) (\<lambda>((start, stop), c).
        and_then (ch_finish c) (\<lambda>_. Inr (WindowFrame units start stop)))))))"

section \<open>Expressions\<close>

text \<open>\<^verbatim>\<open>c.optional(rule)?.map(f).transpose()?\<close>\<close>

definition optional_then :: "string \<Rightarrow> (node \<Rightarrow> parse_error + 'a) \<Rightarrow> cursor \<Rightarrow> parse_error + 'a option \<times> cursor" where
  "optional_then rule f c = and_then (ch_optional rule c) (\<lambda>(n, c). and_then (try_option f n) (\<lambda>v. Inr (v, c)))"

text \<open>\<^verbatim>\<open>f(c.take(rule)?)?\<close>\<close>

definition take_then :: "string \<Rightarrow> (node \<Rightarrow> parse_error + 'a) \<Rightarrow> cursor \<Rightarrow> parse_error + 'a \<times> cursor" where
  "take_then rule f c = and_then (ch_take rule c) (\<lambda>(n, c). and_then (f n) (\<lambda>v. Inr (v, c)))"

text \<open>\<^verbatim>\<open>f(only(n, rule)?)\<close>\<close>

definition only_then :: "string \<Rightarrow> (node \<Rightarrow> parse_error + 'a) \<Rightarrow> node \<Rightarrow> parse_error + 'a" where
  "only_then rule f n = and_then (only n rule) f"

text \<open>The operations on expression nodes take the recursive call \<^verbatim>\<open>Expr::parse\<close> as an argument.\<close>

type_synonym expr_parser = "node \<Rightarrow> parse_error + expr"

definition expressions :: "expr_parser \<Rightarrow> node \<Rightarrow> parse_error + expr list" where
  "expressions f n = take_some ''Expr'' f (ch_new n)"

definition parse_order_by_expr :: "expr_parser \<Rightarrow> node \<Rightarrow> parse_error + expr order_by_expr" where
  "parse_order_by_expr f n =
     (if node_rule n \<noteq> ''OrderByExpr'' then Inl (node_error n ''OrderByExpr'')
      else and_then (take_then ''Expr'' f (ch_new n)) (\<lambda>(e, c).
        and_then (optional_then ''SortDirection'' parse_sort_direction c) (\<lambda>(direction, c).
        and_then (optional_then ''NullOrder'' parse_null_order c) (\<lambda>(nulls, c).
        and_then (ch_finish c) (\<lambda>_.
        Inr (OrderByExpr e (case direction of None \<Rightarrow> Ascending | Some d \<Rightarrow> d) nulls))))))"

definition orderings :: "expr_parser \<Rightarrow> node \<Rightarrow> parse_error + expr order_by_expr list" where
  "orderings f n = take_some ''OrderByExpr'' (parse_order_by_expr f) (ch_new n)"

definition unwrap_or_default :: "'a list option \<Rightarrow> 'a list" where
  "unwrap_or_default x = (case x of None \<Rightarrow> [] | Some v \<Rightarrow> v)"

definition parse_window_spec :: "expr_parser \<Rightarrow> node \<Rightarrow> parse_error + expr window_spec" where
  "parse_window_spec f n =
     (if node_rule n \<noteq> ''WindowSpec'' then Inl (node_error n ''WindowSpec'')
      else and_then (optional_then ''PartitionBy'' (expressions f) (ch_new n)) (\<lambda>(partition_by, c).
        and_then (optional_then ''OrderBy'' (orderings f) c) (\<lambda>(order_by, c).
        and_then (optional_then ''WindowFrame'' parse_window_frame c) (\<lambda>(frame, c).
        and_then (ch_finish c) (\<lambda>_.
        Inr (WindowSpec (unwrap_or_default partition_by) (unwrap_or_default order_by) frame))))))"

fun binary_chain :: "expr_parser \<Rightarrow> node \<Rightarrow> string \<Rightarrow> string \<Rightarrow> expr \<Rightarrow> node list \<Rightarrow> parse_error + expr" where
  "binary_chain f parent operand operator left [] = Inr left"
| "binary_chain f parent operand operator left [o'] =
     (if node_rule o' \<noteq> operator then Inl (node_error parent operator)
      else and_then (operator_of o') (\<lambda>_. Inl (node_error parent operand)))"
| "binary_chain f parent operand operator left (o' # r # rest) =
     (if node_rule o' \<noteq> operator then Inl (node_error parent operator)
      else and_then (operator_of o') (\<lambda>op.
        if node_rule r \<noteq> operand then Inl (node_error parent operand)
        else and_then (f r) (\<lambda>right. binary_chain f parent operand operator (Binary left op right) rest)))"

definition chain_rules :: "string \<rightharpoonup> string \<times> string" where
  "chain_rules = map_of [(''Or'', (''And'', ''OrOp'')), (''And'', (''Not'', ''AndOp'')),
     (''Additive'', (''Multiplicative'', ''AddOp'')), (''Multiplicative'', (''Unary'', ''MulOp''))]"

definition primary_rules :: "string list" where
  "primary_rules = [''Number'', ''String'', ''Null'', ''True'', ''False'', ''Name'', ''FunctionCall'', ''Expr'']"

definition prefix_node :: "expr_parser \<Rightarrow> node \<Rightarrow> parse_error + expr \<times> cursor" where
  "prefix_node f n =
     (let (operator, operand) = (if node_rule n = ''Not'' then (''NotOp'', ''Comparison'') else (''UnaryOp'', ''Primary'')) in
      and_then (ch_optional operator (ch_new n)) (\<lambda>(op, c). case op of
        Some op \<Rightarrow>
          and_then (if operator = ''NotOp'' then and_then (token op [''NOT'']) (\<lambda>_. Inr OpNot)
                    else and_then (token op [''+'', ''-'']) (\<lambda>i. Inr (if i = 0 then OpPlus else OpMinus))) (\<lambda>op.
          and_then (take_then (node_rule n) f c) (\<lambda>(e, c). Inr (Unary op e, c)))
      | None \<Rightarrow> take_then operand f c))"

definition is_null_node :: "node \<Rightarrow> parse_error + bool" where
  "is_null_node is_node =
     and_then (optional_then ''IsNot'' (\<lambda>n. token n [''NOT'']) (ch_new is_node)) (\<lambda>(not_node, parts).
     and_then (ch_finish parts) (\<lambda>_.
     and_then (keyword_sequence is_node (if not_node \<noteq> None then [''IS'', ''NOT'', ''NULL''] else [''IS'', ''NULL''])) (\<lambda>_.
     Inr (not_node \<noteq> None))))"

definition comparison_node :: "expr_parser \<Rightarrow> node \<Rightarrow> parse_error + expr \<times> cursor" where
  "comparison_node f n =
     and_then (take_then ''Additive'' f (ch_new n)) (\<lambda>(left, c).
     and_then (ch_optional ''IsNull'' c) (\<lambda>(is_node, c). case is_node of
       Some is_node \<Rightarrow> and_then (is_null_node is_node) (\<lambda>negated. Inr (IsNull left negated, c))
     | None \<Rightarrow>
         and_then (ch_optional ''CompareOp'' c) (\<lambda>(op, c). case op of
           Some op \<Rightarrow>
             and_then (operator_of op) (\<lambda>op.
             and_then (take_then ''Additive'' f c) (\<lambda>(right, c). Inr (Binary left op right, c)))
         | None \<Rightarrow> Inr (left, c))))"

definition call_args :: "expr_parser \<Rightarrow> node \<Rightarrow> parse_error + expr list" where
  "call_args f a =
     (if node_children a \<noteq> [] \<and> node_rule (hd (node_children a)) = ''Star''
      then and_then (only_then ''Star'' f a) (\<lambda>e. Inr [e]) else expressions f a)"

definition call_node :: "expr_parser \<Rightarrow> node \<Rightarrow> parse_error + expr \<times> cursor" where
  "call_node f n =
     and_then (take_then ''Identifier'' identifier_of (ch_new n)) (\<lambda>(name, c).
     and_then (optional_then ''Distinct'' (\<lambda>d. token d [''DISTINCT'']) c) (\<lambda>(d, c).
     and_then (optional_then ''Arguments'' (call_args f) c) (\<lambda>(args, c).
     and_then (optional_then ''CallFilter'' (only_then ''Expr'' f) c) (\<lambda>(flt, c).
     and_then (optional_then ''Over'' (only_then ''WindowSpec'' (parse_window_spec f)) c) (\<lambda>(over, c).
     Inr (FunctionCall name (unwrap_or_default args) (d \<noteq> None) flt over, c))))))"

definition name_node :: "node \<Rightarrow> parse_error + expr \<times> cursor" where
  "name_node n =
     and_then (take_then ''Identifier'' identifier_of (ch_new n)) (\<lambda>(first, c).
     and_then (optional_then ''Identifier'' identifier_of c) (\<lambda>(second, c).
     Inr (case second of Some column \<Rightarrow> QualifiedIdentifier first column | None \<Rightarrow> Identifier first, c)))"

definition projection_node :: "expr_parser \<Rightarrow> node \<Rightarrow> parse_error + expr \<times> cursor" where
  "projection_node f n =
     and_then (take_then ''Expr'' f (ch_new n)) (\<lambda>(e, c).
     and_then (optional_then ''Identifier'' identifier_of c) (\<lambda>(alias, c).
     Inr (case alias of Some a \<Rightarrow> Alias e a | None \<Rightarrow> e, c)))"

definition primary_node :: "expr_parser \<Rightarrow> node \<Rightarrow> parse_error + expr \<times> cursor" where
  "primary_node f n =
     (case node_children n of
        [child] \<Rightarrow>
          if node_rule child \<notin> set primary_rules then Inl (node_error child ''primary expression'')
          else and_then (f child) (\<lambda>e. Inr (e, \<lparr>ch_node = n, ch_rest = []\<rparr>))
      | _ \<Rightarrow> Inl (node_error n ''one primary expression''))"

definition chain_node :: "expr_parser \<Rightarrow> node \<Rightarrow> string \<Rightarrow> string \<Rightarrow> parse_error + expr \<times> cursor" where
  "chain_node f n operand operator =
     and_then (take_then operand f (ch_new n)) (\<lambda>(left, c).
     and_then (binary_chain f n operand operator left (ch_rest c)) (\<lambda>e. Inr (e, c\<lparr>ch_rest := []\<rparr>)))"

definition expr_node :: "expr_parser \<Rightarrow> node \<Rightarrow> parse_error + expr" where
  "expr_node f n =
     and_then (
       if node_rule n = ''Expr'' then take_then ''Or'' f (ch_new n)
       else if node_rule n = ''Primary'' then primary_node f n
       else if chain_rules (node_rule n) \<noteq> None then
         (case the (chain_rules (node_rule n)) of (operand, operator) \<Rightarrow> chain_node f n operand operator)
       else if node_rule n = ''Not'' \<or> node_rule n = ''Unary'' then prefix_node f n
       else if node_rule n = ''Comparison'' then comparison_node f n
       else if node_rule n = ''ProjectionItem'' then projection_node f n
       else if node_rule n = ''FunctionCall'' then call_node f n
       else if node_rule n = ''Name'' then name_node n
       else if node_rule n = ''Star'' then and_then (token n [''*'']) (\<lambda>_. Inr (Wildcard, ch_new n))
       else if node_rule n \<in> set [''Number'', ''String'', ''Null'', ''True'', ''False''] then
         and_then (parse_literal n) (\<lambda>l. Inr (Literal l, ch_new n))
       else Inl (node_error n ''expression node'')) (\<lambda>(result, c).
     and_then (ch_finish c) (\<lambda>_. Inr result))"

section \<open>The recursion\<close>

text \<open>The nodes strictly below a node; every recursive call is on one of them.\<close>

definition inner_nodes :: "node \<Rightarrow> node set" where
  "inner_nodes n = (\<Union>m \<in> set (node_children n). set (subtrees m))"

lemma subtrees_self [simp, intro]: "n \<in> set (subtrees n)"
  by (cases n) simp

lemma subtrees_inner: "set (subtrees n) = insert n (inner_nodes n)"
  by (cases n) (simp add: inner_nodes_def)

lemma child_inner: "m \<in> set (node_children n) \<Longrightarrow> m \<in> inner_nodes n"
  by (auto simp: inner_nodes_def)

lemma inner_trans: "m \<in> set (node_children n) \<Longrightarrow> x \<in> inner_nodes m \<Longrightarrow> x \<in> inner_nodes n"
  using subtrees_inner [of m] unfolding inner_nodes_def [of n] by blast

lemma child_node_size: "m \<in> set (node_children n) \<Longrightarrow> size m < size n"
proof (cases n)
  case (Node l t a b cs)
  then show "m \<in> set (node_children n) \<Longrightarrow> size m < size n"
    using size_list_estimation' [of m cs "size m" size] by simp
qed

lemma subtrees_size: "x \<in> set (subtrees m) \<Longrightarrow> size x \<le> size m"
proof (induction m rule: subtrees.induct)
  case (1 l t a b cs)
  then consider "x = Node l t a b cs" | m where "m \<in> set cs" "x \<in> set (subtrees m)" by auto
  then show ?case
  proof cases
    case 2
    with "1.IH" have "size x \<le> size m" by blast
    with child_node_size [of m "Node l t a b cs"] 2(1) show ?thesis by simp
  qed simp
qed

lemma inner_size: "x \<in> inner_nodes n \<Longrightarrow> size x < size n"
  by (auto simp: inner_nodes_def dest!: subtrees_size child_node_size)

lemma ch_take_Inr: "ch_take rule c = Inr (n, c') \<longleftrightarrow>
    (\<exists>rest. ch_rest c = n # rest \<and> node_rule n = rule \<and> c' = c\<lparr>ch_rest := rest\<rparr>)"
  by (auto simp: ch_take_def split: list.splits if_splits)

lemma ch_optional_Inr: "ch_optional rule c = Inr (x, c') \<longleftrightarrow>
    (case x of
       None \<Rightarrow> c' = c \<and> \<not> (ch_rest c \<noteq> [] \<and> node_rule (hd (ch_rest c)) = rule)
     | Some n \<Rightarrow> \<exists>rest. ch_rest c = n # rest \<and> node_rule n = rule \<and> c' = c\<lparr>ch_rest := rest\<rparr>)"
  by (auto simp: ch_optional_def ch_take_def split: list.splits if_splits option.splits)

lemma ch_new_rest [simp]: "ch_rest (ch_new n) = node_children n" "ch_node (ch_new n) = n"
  by (simp_all add: ch_new_def)

lemma take_then_Inr: "take_then rule f c = Inr (v, c') \<longleftrightarrow>
    (\<exists>n rest. ch_rest c = n # rest \<and> node_rule n = rule \<and> f n = Inr v \<and> c' = c\<lparr>ch_rest := rest\<rparr>)"
  by (auto simp: take_then_def and_then_Inr_iff ch_take_Inr)

lemma optional_then_Inr: "optional_then rule f c = Inr (v, c') \<longleftrightarrow>
    (case v of
       None \<Rightarrow> c' = c \<and> \<not> (ch_rest c \<noteq> [] \<and> node_rule (hd (ch_rest c)) = rule)
     | Some w \<Rightarrow> \<exists>n rest. ch_rest c = n # rest \<and> node_rule n = rule \<and> f n = Inr w \<and> c' = c\<lparr>ch_rest := rest\<rparr>)"
  by (auto simp: optional_then_def and_then_Inr_iff ch_optional_Inr try_option_def split: option.splits)

text \<open>Two calls that agree below a node cannot be told apart by what is done with that node.\<close>

definition agree :: "(node \<Rightarrow> 'a) \<Rightarrow> (node \<Rightarrow> 'a) \<Rightarrow> node \<Rightarrow> bool" where
  "agree f g n \<longleftrightarrow> (\<forall>x \<in> inner_nodes n. f x = g x)"

lemma agree_child: "agree f g n \<Longrightarrow> m \<in> set (node_children n) \<Longrightarrow> f m = g m \<and> agree f g m"
  by (auto simp: agree_def child_inner inner_trans)

lemma take_then_cong: "(\<And>n. n \<in> set (ch_rest c) \<Longrightarrow> f n = g n) \<Longrightarrow> take_then rule f c = take_then rule g c"
  by (auto simp: take_then_def ch_take_Inr intro!: and_then_cong)

lemma optional_then_cong: "(\<And>n. n \<in> set (ch_rest c) \<Longrightarrow> f n = g n) \<Longrightarrow> optional_then rule f c = optional_then rule g c"
  by (auto simp: optional_then_def ch_optional_Inr intro!: and_then_cong try_option_cong split: option.splits)

lemma take_all_cong: "(\<And>n. n \<in> set ns \<Longrightarrow> f n = g n) \<Longrightarrow> take_all rule f p ns = take_all rule g p ns"
  by (induction ns) (auto intro!: and_then_cong)

lemma take_some_cong: "(\<And>n. n \<in> set (ch_rest c) \<Longrightarrow> f n = g n) \<Longrightarrow> take_some rule f c = take_some rule g c"
  by (auto simp: take_some_def ch_take_Inr intro!: and_then_cong take_all_cong)

lemma only_Inr: "only n rule = Inr m \<longleftrightarrow> node_children n = [m] \<and> node_rule m = rule"
  by (auto simp: only_def and_then_Inr_iff ch_take_Inr ch_finish_def split: if_splits)

lemma only_then_cong: "(\<And>m. m \<in> set (node_children n) \<Longrightarrow> f m = g m) \<Longrightarrow> only_then rule f n = only_then rule g n"
  by (auto simp: only_then_def only_Inr intro!: and_then_cong)

lemma rest_shrinks:
  "take_then rule f c = Inr (v, c') \<Longrightarrow> set (ch_rest c') \<subseteq> set (ch_rest c)"
  "optional_then rule h c = Inr (w, c') \<Longrightarrow> set (ch_rest c') \<subseteq> set (ch_rest c)"
  "ch_optional rule c = Inr (x, c') \<Longrightarrow> set (ch_rest c') \<subseteq> set (ch_rest c)"
  by (auto simp: take_then_Inr optional_then_Inr ch_optional_Inr split: option.splits)

lemma take_then_agree:
  "agree f g n \<Longrightarrow> set (ch_rest c) \<subseteq> set (node_children n) \<Longrightarrow> take_then rule f c = take_then rule g c"
  by (rule take_then_cong) (auto dest: agree_child)

lemma optional_then_agree:
  assumes "\<And>m. agree f g m \<Longrightarrow> h f m = h g m" "agree f g n" "set (ch_rest c) \<subseteq> set (node_children n)"
  shows "optional_then rule (h f) c = optional_then rule (h g) c"
  by (rule optional_then_cong) (use assms in \<open>auto dest: agree_child\<close>)

lemma expressions_agree: "agree f g n \<Longrightarrow> expressions f n = expressions g n"
  unfolding expressions_def by (rule take_some_cong) (auto dest: agree_child)

lemma only_self_agree: "agree f g n \<Longrightarrow> only_then rule f n = only_then rule g n"
  by (rule only_then_cong) (auto dest: agree_child)

lemma parse_order_by_expr_agree: "agree f g n \<Longrightarrow> parse_order_by_expr f n = parse_order_by_expr g n"
  by (simp add: parse_order_by_expr_def take_then_agree)

lemma orderings_agree: "agree f g n \<Longrightarrow> orderings f n = orderings g n"
  unfolding orderings_def by (rule take_some_cong) (auto dest: agree_child intro: parse_order_by_expr_agree)

lemma parse_window_spec_agree: "agree f g n \<Longrightarrow> parse_window_spec f n = parse_window_spec g n"
proof -
  assume a: "agree f g n"
  have "optional_then ''PartitionBy'' (expressions f) (ch_new n) = optional_then ''PartitionBy'' (expressions g) (ch_new n)"
    by (rule optional_then_agree [OF expressions_agree a]) auto
  moreover have "optional_then ''OrderBy'' (orderings f) c = optional_then ''OrderBy'' (orderings g) c"
    if "optional_then ''PartitionBy'' (expressions g) (ch_new n) = Inr (v, c)" for v c
    by (rule optional_then_agree [OF orderings_agree a]) (use rest_shrinks(2) [OF that] in auto)
  ultimately show ?thesis unfolding parse_window_spec_def by (auto intro!: and_then_cong)
qed

lemma binary_chain_cong:
  "\<forall>x \<in> set ns. f x = g x \<Longrightarrow> binary_chain f p operand operator left ns = binary_chain g p operand operator left ns"
  by (induction f p operand operator left ns rule: binary_chain.induct) (auto intro!: and_then_cong)

lemma chain_node_agree: "agree f g n \<Longrightarrow> chain_node f n a b = chain_node g n a b"
proof -
  assume ag: "agree f g n"
  have "binary_chain f n a b left (ch_rest c) = binary_chain g n a b left (ch_rest c)"
    if "take_then a g (ch_new n) = Inr (left, c)" for left c
    by (rule binary_chain_cong) (use rest_shrinks(1) [OF that] ag in \<open>auto dest: agree_child\<close>)
  then show ?thesis unfolding chain_node_def take_then_agree [OF ag, of "ch_new n", simplified] by (auto intro!: and_then_cong)
qed

lemma prefix_node_agree: "agree f g n \<Longrightarrow> prefix_node f n = prefix_node g n"
proof -
  assume ag: "agree f g n"
  have t: "take_then r f c = take_then r g c" if "ch_optional rule (ch_new n) = Inr (op, c)" for r rule op c
    by (rule take_then_agree [OF ag]) (use rest_shrinks(3) [OF that] in auto)
  then show ?thesis unfolding prefix_node_def Let_def by (auto intro!: and_then_cong split: option.split)
qed

lemma comparison_node_agree: "agree f g n \<Longrightarrow> comparison_node f n = comparison_node g n"
proof -
  assume ag: "agree f g n"
  have "take_then r f c2 = take_then r g c2"
    if "take_then ''Additive'' g (ch_new n) = Inr (v, c)" "ch_optional ''IsNull'' c = Inr (x, c1)"
      "ch_optional ''CompareOp'' c1 = Inr (y, c2)" for r v c x c1 y c2
    by (rule take_then_agree [OF ag]) (use rest_shrinks(1) [OF that(1)] rest_shrinks(3) [OF that(2)] rest_shrinks(3) [OF that(3)] in auto)
  then show ?thesis unfolding comparison_node_def take_then_agree [OF ag, of "ch_new n", simplified]
    by (auto intro!: and_then_cong split: option.split)
qed

lemma call_args_agree: "agree f g m \<Longrightarrow> call_args f m = call_args g m"
  by (simp add: call_args_def only_self_agree expressions_agree)

lemma window_only_agree:
  "agree f g m \<Longrightarrow> only_then ''WindowSpec'' (parse_window_spec f) m = only_then ''WindowSpec'' (parse_window_spec g) m"
  by (rule only_then_cong) (auto dest: agree_child intro: parse_window_spec_agree)

lemma call_node_agree: "agree f g n \<Longrightarrow> call_node f n = call_node g n"
proof -
  assume ag: "agree f g n"
  have a: "optional_then ''Arguments'' (call_args f) c = optional_then ''Arguments'' (call_args g) c"
    and b: "optional_then ''CallFilter'' (only_then ''Expr'' f) c = optional_then ''CallFilter'' (only_then ''Expr'' g) c"
    and d: "optional_then ''Over'' (only_then ''WindowSpec'' (parse_window_spec f)) c =
      optional_then ''Over'' (only_then ''WindowSpec'' (parse_window_spec g)) c"
    if "set (ch_rest c) \<subseteq> set (node_children n)" for c
    using optional_then_agree [where h = call_args, OF call_args_agree ag that] optional_then_agree [where h = "only_then ''Expr''", OF only_self_agree ag that]
      optional_then_agree [where h = "\<lambda>f. only_then ''WindowSpec'' (parse_window_spec f)", OF window_only_agree ag that]
    by auto
  have sub: "set (ch_rest c) \<subseteq> set (node_children n)" if "take_then ''Identifier'' identifier_of (ch_new n) = Inr (v, c)" for v c
    using rest_shrinks(1) [OF that] by simp
  show ?thesis unfolding call_node_def
    by (auto intro!: and_then_cong a b d dest!: rest_shrinks(2) sub)
qed

lemma expr_node_cong [fundef_cong]:
  assumes "n = n'" "\<And>x. x \<in> inner_nodes n' \<Longrightarrow> f x = g x"
  shows "expr_node f n = expr_node g n'"
proof -
  have ag: "agree f g n" using assms by (simp add: agree_def)
  have "primary_node f n = primary_node g n"
    using agree_child [OF ag] by (auto simp: primary_node_def split: list.split)
  then show ?thesis
    unfolding assms(1) [symmetric] expr_node_def projection_node_def take_then_agree [OF ag, of "ch_new n", simplified]
      chain_node_agree [OF ag] prefix_node_agree [OF ag] comparison_node_agree [OF ag] call_node_agree [OF ag] by simp
qed

function parse_expr :: "node \<Rightarrow> parse_error + expr" where
  "parse_expr n = expr_node parse_expr n"
  by pat_completeness auto
termination
  by (relation "measure size") (auto simp: inner_size)

declare parse_expr.simps [simp del]

section \<open>Statements\<close>

definition parse_assignment :: "node \<Rightarrow> parse_error + assignment" where
  "parse_assignment n =
     (if node_rule n \<noteq> ''Assignment'' then Inl (node_error n ''Assignment'')
      else and_then (take_then ''Identifier'' identifier_of (ch_new n)) (\<lambda>(column, c).
        and_then (take_then ''Expr'' parse_expr c) (\<lambda>(e, c).
        and_then (ch_finish c) (\<lambda>_. Inr \<lparr>as_column = column, as_value = e\<rparr>))))"

definition where_clause :: "cursor \<Rightarrow> parse_error + expr option \<times> cursor" where
  "where_clause c = optional_then ''Where'' (only_then ''Expr'' parse_expr) c"

definition projection_list :: "node \<Rightarrow> parse_error + expr list" where
  "projection_list p =
     (case node_children p of
        [star] \<Rightarrow> if node_rule star = ''Star'' then and_then (parse_expr star) (\<lambda>e. Inr [e]) else try_map parse_expr [star]
      | items \<Rightarrow> try_map parse_expr items)"

definition select_node :: "cursor \<Rightarrow> parse_error + statement \<times> cursor" where
  "select_node c =
     and_then (take_then ''Projection'' projection_list c) (\<lambda>(projection, c).
     and_then (optional_then ''From'' (only_then ''Identifier'' identifier_of) c) (\<lambda>(from_name, c).
     and_then (where_clause c) (\<lambda>(flt, c).
     and_then (optional_then ''GroupBy'' (expressions parse_expr) c) (\<lambda>(group_by, c).
     and_then (optional_then ''Having'' (only_then ''Expr'' parse_expr) c) (\<lambda>(having, c).
     and_then (optional_then ''OrderBy'' (orderings parse_expr) c) (\<lambda>(order_by, c).
     Inr (SSelect projection from_name flt (unwrap_or_default group_by) having (unwrap_or_default order_by), c)))))))"

text \<open>A loop that empties the cursor leaves nothing for \<^verbatim>\<open>finish\<close>.\<close>

definition emptied :: "cursor \<Rightarrow> cursor" where
  "emptied c = c\<lparr>ch_rest := []\<rparr>"

definition create_table_node :: "cursor \<Rightarrow> parse_error + statement \<times> cursor" where
  "create_table_node c =
     and_then (take_then ''Identifier'' identifier_of c) (\<lambda>(name, c).
     and_then (take_some ''ColumnDef'' parse_column_def c) (\<lambda>columns.
     Inr (SCreateTable name columns, emptied c)))"

definition insert_node :: "cursor \<Rightarrow> parse_error + statement \<times> cursor" where
  "insert_node c =
     and_then (take_then ''Identifier'' identifier_of c) (\<lambda>(table, c).
     and_then (optional_then ''Columns'' (\<lambda>n. take_some ''Identifier'' identifier_of (ch_new n)) c) (\<lambda>(columns, c).
     and_then (take_some ''Row'' (expressions parse_expr) c) (\<lambda>rows.
     Inr (SInsert table (unwrap_or_default columns) rows, emptied c))))"

text \<open>\<^verbatim>\<open>while let Some(a) = c.optional("Assignment")?\<close>\<close>

fun take_while :: "string \<Rightarrow> (node \<Rightarrow> parse_error + 'a) \<Rightarrow> node list \<Rightarrow> parse_error + 'a list \<times> node list" where
  "take_while rule f [] = Inr ([], [])"
| "take_while rule f (n # rest) =
     (if node_rule n = rule
      then and_then (f n) (\<lambda>v. and_then (take_while rule f rest) (\<lambda>(vs, rest). Inr (v # vs, rest)))
      else Inr ([], n # rest))"

definition update_node :: "cursor \<Rightarrow> parse_error + statement \<times> cursor" where
  "update_node c =
     and_then (take_then ''Identifier'' identifier_of c) (\<lambda>(table, c).
     and_then (take_then ''Assignment'' parse_assignment c) (\<lambda>(a, c).
     and_then (take_while ''Assignment'' parse_assignment (ch_rest c)) (\<lambda>(as, rest).
     and_then (where_clause (c\<lparr>ch_rest := rest\<rparr>)) (\<lambda>(flt, c).
     Inr (SUpdate table (a # as) flt, c)))))"

definition delete_node :: "cursor \<Rightarrow> parse_error + statement \<times> cursor" where
  "delete_node c =
     and_then (take_then ''Identifier'' identifier_of c) (\<lambda>(table, c).
     and_then (where_clause c) (\<lambda>(flt, c). Inr (SDelete table flt, c)))"

definition statement_node :: "node \<Rightarrow> parse_error + statement" where
  "statement_node n =
     and_then (
       if node_rule n = ''Select'' then select_node (ch_new n)
       else if node_rule n = ''CreateTable'' then create_table_node (ch_new n)
       else if node_rule n = ''Insert'' then insert_node (ch_new n)
       else if node_rule n = ''Update'' then update_node (ch_new n)
       else if node_rule n = ''Delete'' then delete_node (ch_new n)
       else if node_rule n = ''Begin'' then and_then (token n [''BEGIN'']) (\<lambda>_. Inr (SBegin, ch_new n))
       else if node_rule n = ''Commit'' then and_then (token n [''COMMIT'']) (\<lambda>_. Inr (SCommit, ch_new n))
       else if node_rule n = ''Rollback'' then and_then (token n [''ROLLBACK'']) (\<lambda>_. Inr (SRollback, ch_new n))
       else Inl (node_error n ''statement node'')) (\<lambda>(result, c).
     and_then (ch_finish c) (\<lambda>_. Inr result))"

definition parse_statement :: "node \<Rightarrow> parse_error + statement" where
  "parse_statement n =
     (if node_rule n = ''Statement'' then
        (case node_children n of [m] \<Rightarrow> statement_node m | _ \<Rightarrow> Inl (node_error n ''one statement''))
      else statement_node n)"

definition statements :: "node \<Rightarrow> parse_error + statement list" where
  "statements root =
     (if node_rule root \<noteq> ''Root'' then Inl (node_error root ''Root'')
      else try_map (\<lambda>n. if node_rule n \<noteq> ''Statement'' then Inl (node_error n ''Statement'') else parse_statement n)
             (node_children root))"

text \<open>\<^verbatim>\<open>parse_sql\<close>, over the grammar the crate compiles.\<close>

definition parse_with :: "rule list \<Rightarrow> rule_names \<Rightarrow> str_ref \<Rightarrow> parse_error + statement list" where
  "parse_with rules names input = and_then (parse_root rules names input) statements"

end
