(* ===== verification/PegSpec.thy ===== *)
theory PegSpec
  imports PegParser
begin

text \<open>
  What validated grammars and their parsers guarantee: every expression has exactly one result at
  every position, the tree of a successful parse is built of nodes \<^verbatim>\<open>Node::new\<close> would accept, and
  errors point into the input.
\<close>

section \<open>Progress and totality\<close>

lemma next_char_Some: "next_char s = Some (c, len) \<Longrightarrow> 0 < len \<and> s \<noteq> []"
  by (cases s) (auto simp: Let_def split: if_splits)

lemma char_at_Some: "char_at inp p = Some (c, len) \<Longrightarrow> 0 < len \<and> p < length (sr_bytes inp)"
  by (auto simp: char_at_def dest!: next_char_Some)

lemma lit_matches_bound: "lit_matches inp p s i \<Longrightarrow> p + length s \<le> length (sr_bytes inp)"
  by (auto simp: lit_matches_def str_get_def split: option.splits if_splits)

lemma peg_progress:
  assumes "names_resolved rules" "peg rules inp e p r" "r = Some (q, ns)"
  shows "p \<le> q \<and> (p < q \<longrightarrow> p < length (sr_bytes inp)) \<and> (p = q \<longrightarrow> empty_match rules e)"
  using assms(2,3)
proof (induction arbitrary: q ns rule: peg.induct)
  case (p_ref n i p q' ns')
  from p_ref.hyps(1) assms(1) have "rules ! i \<in> set rules" "n = rule_name (rules ! i)"
    by (auto simp: names_resolved_def index_of_Some)
  with p_ref show ?case by (auto intro: em_ref)
next
  case (p_lit s i p)
  then show ?case using lit_matches_bound [of inp p s i] by (cases s) (auto split: if_splits)
next
  case (p_class p c len ranges negated)
  then show ?case using char_at_Some [of inp p c len] by (auto split: if_splits)
next
  case (p_any p)
  then obtain c len where "char_at inp p = Some (c, len)" by auto
  with p_any char_at_Some [of inp p c len] show ?case by auto
next
  case (p_seq e p q' ns' es r)
  then obtain m where "r = Some (q, m)" by (cases r) auto
  with p_seq show ?case by force
next
  case (p_optional e p r)
  then show ?case by (cases r) auto
qed (auto split: if_splits | force)+

lemma calls_first_defined: "calls_first rules e n \<Longrightarrow> refs_defined rules e \<Longrightarrow> refs_defined rules (Ref n)"
  by (induction rule: calls_first.induct) auto

text \<open>Totality at a position, given totality after it and of the rules called first.\<close>

lemma peg_total_step:
  assumes "names_resolved rules"
    and "\<And>e q. p < q \<Longrightarrow> p < length (sr_bytes inp) \<Longrightarrow> refs_defined rules e \<Longrightarrow> progressive rules e \<Longrightarrow> \<exists>r. peg rules inp e q r"
    and "\<And>n. calls_first rules e n \<Longrightarrow> \<exists>r. peg rules inp (Ref n) p r"
    and "refs_defined rules e" "progressive rules e"
  shows "\<exists>r. peg rules inp e p r"
  using assms(3-5)
proof (induction e)
  case (Class ranges negated)
  show ?case by (cases "char_at inp p") (use p_class p_class_end in \<open>fastforce+\<close>)
next
  case (Seq es)
  then show ?case
  proof (induction es)
    case (Cons e es)
    from Cons.prems(1) [of e] Cons.prems(2-4) obtain r where r: "peg rules inp e p r" by auto
    show ?case
    proof (cases r)
      case (Some m)
      obtain q ns where m: "m = (q, ns)" by (cases m)
      have "\<exists>r. peg rules inp (Seq es) q r"
      proof (cases "p = q")
        case True
        then have "empty_match rules e" using peg_progress [OF assms(1) r] Some m by auto
        then have "calls_first rules (Seq (e # es)) n" if "calls_first rules (Seq es) n" for n using that by simp
        then show ?thesis using Cons True by auto
      next
        case False
        then show ?thesis using peg_progress [OF assms(1) r] Some m Cons.prems(3,4) by (intro assms(2)) auto
      qed
      with r Some m show ?thesis by (blast intro: p_seq)
    qed (use r in \<open>blast intro: p_seq_fail\<close>)
  qed (blast intro: p_seq_nil)
next
  case (Choice es)
  then show ?case
  proof (induction es)
    case (Cons e es)
    from Cons.prems(1) [of e] Cons.prems(2-4) obtain r where r: "peg rules inp e p r" by auto
    have "\<exists>r. peg rules inp (Choice es) p r"
    proof (rule Cons.IH)
      show "\<exists>r. peg rules inp (Ref n) p r" if "calls_first rules (Choice es) n" for n
        using that by (intro Cons.prems(2)) auto
    qed (use Cons.prems in auto)
    with r show ?case by (cases r) (blast intro: p_choice p_choice_next)+
  qed (blast intro: p_choice_nil)
next
  case (Repeat e one)
  then obtain r where r: "peg rules inp e p r" by auto
  show ?case
  proof (cases r)
    case (Some m)
    obtain q ns where m: "m = (q, ns)" by (cases m)
    with r Some Repeat.prems peg_progress [OF assms(1) r] have "p < q" "p < length (sr_bytes inp)" by (auto simp: le_less)
    with assms(2) [of q "Repeat e False"] Repeat.prems obtain r' where r': "peg rules inp (Repeat e False) q r'" by auto
    then obtain m' where "r' = Some m'" by (cases rule: peg_repeatE) auto
    with r r' Some m show ?thesis by (cases m') (blast intro: p_repeat)
  qed (use r in \<open>blast intro: p_repeat_end\<close>)
qed (auto intro: p_lit p_any p_optional p_predicate)

lemma well_formed_resolved: "well_formed rules \<Longrightarrow> names_resolved rules"
  by (simp add: well_formed_def names_resolved_def)

lemma left_calls_wf: "well_formed rules \<Longrightarrow> wf ((left_calls rules)\<inverse>)"
proof -
  assume "well_formed rules"
  moreover have "finite (left_calls rules)"
    by (rule finite_subset [of _ "{..<length rules} \<times> {..<length rules}"]) (auto simp: left_calls_def)
  ultimately show ?thesis by (simp add: well_formed_def finite_acyclic_wf_converse)
qed

lemma peg_total:
  assumes wf: "well_formed rules" and "refs_defined rules e" "progressive rules e"
  shows "\<exists>r. peg rules inp e p r"
  using assms(2,3)
proof (induction "length (sr_bytes inp) - p" arbitrary: e p rule: less_induct)
  case less
  note res = well_formed_resolved [OF wf]
  have later: "\<exists>r. peg rules inp e q r" if "p < q" "p < length (sr_bytes inp)" "refs_defined rules e" "progressive rules e" for e q
    using less.hyps [of q e] that by simp
  have rule: "\<exists>r. peg rules inp (rule_expr (rules ! i)) p r" if "i < length rules" for i
    using that
  proof (induction i rule: wf_induct_rule [OF left_calls_wf [OF wf]])
    case (1 i)
    have ok: "refs_defined rules (rule_expr (rules ! i))" "progressive rules (rule_expr (rules ! i))"
      using wf 1(2) by (auto simp: well_formed_def)
    have "\<exists>r. peg rules inp (Ref n) p r" if c: "calls_first rules (rule_expr (rules ! i)) n" for n
    proof -
      obtain j where j: "j < length rules" "n = rule_name (rules ! j)" "index_of rules n = Some j"
        by (rule ref_index [OF res calls_first_defined [OF c ok(1)]])
      with c 1(2) have "(j, i) \<in> (left_calls rules)\<inverse>" by (simp add: left_calls_def)
      from 1(1) [OF this j(1)] obtain r where "peg rules inp (rule_expr (rules ! j)) p r" by blast
      with j(3) show ?thesis by (cases r) (auto intro: p_ref p_ref_fail)
    qed
    from peg_total_step [OF res later this ok] show ?case by blast
  qed
  have "\<exists>r. peg rules inp (Ref n) p r" if c: "calls_first rules e n" for n
  proof -
    obtain j where j: "j < length rules" "index_of rules n = Some j"
      by (rule ref_index [OF res calls_first_defined [OF c less.prems(1)]])
    with rule obtain r where "peg rules inp (rule_expr (rules ! j)) p r" by blast
    with j(2) show ?thesis by (cases r) (auto intro: p_ref p_ref_fail)
  qed
  from peg_total_step [OF res later this less.prems] show ?case by blast
qed

section \<open>Character boundaries\<close>

definition valid_at :: "str_ref \<Rightarrow> nat \<Rightarrow> bool" where
  "valid_at inp p \<longleftrightarrow> p \<le> length (sr_bytes inp) \<and> is_str (drop p (sr_bytes inp))"

lemma byte_of_char_le: "byte_of_char c \<le> b \<longleftrightarrow> of_char c \<le> unat b" "b \<le> byte_of_char c \<longleftrightarrow> unat b \<le> of_char c"
  "byte_of_char c < b \<longleftrightarrow> of_char c < unat b"
proof -
  have "of_char c < (256 :: nat)" by simp
  then have "unat (byte_of_char c) = of_char c" by (simp add: byte_of_char_def unat_of_nat)
  then show "byte_of_char c \<le> b \<longleftrightarrow> of_char c \<le> unat b" "b \<le> byte_of_char c \<longleftrightarrow> unat b \<le> of_char c"
    "byte_of_char c < b \<longleftrightarrow> of_char c < unat b" by (simp_all add: word_le_nat_alt word_less_nat_alt)
qed

lemma continuation_byte: "continuation c \<longleftrightarrow> is_cont (byte_of_char c)"
  by (auto simp: continuation_def is_cont_def byte_of_char_le)

lemma utf8_validE:
  assumes "utf8_valid (a # bs)"
  obtains (one) "a < 128" "utf8_valid bs"
  | (two) b r where "194 \<le> a" "a \<le> 223" "bs = b # r" "is_cont b" "utf8_valid r"
  | (three) b c r where "224 \<le> a" "a \<le> 239" "bs = b # c # r" "is_cont b" "is_cont c" "utf8_valid r"
  | (four) b c d r where "240 \<le> a" "bs = b # c # d # r" "is_cont b" "is_cont c" "is_cont d" "utf8_valid r"
proof -
  note v = assms [unfolded utf8_valid.simps(2)]
  show thesis
  proof (cases "a < 128")
    case True
    with v one show thesis by (simp only: if_True)
  next
    case n1: False
    show thesis
    proof (cases "194 \<le> a \<and> a \<le> 223")
      case True
      with v n1 two show thesis by (cases bs) (simp_all only: if_True if_False list.case simp_thms)
    next
      case n2: False
      show thesis
      proof (cases "224 \<le> a \<and> a \<le> 239")
        case True
        with v n1 n2 three show thesis
          by (cases bs; cases "tl bs") (simp_all only: if_True if_False list.case list.sel simp_thms)
      next
        case n3: False
        with v n1 n2 have "240 \<le> a \<and> a \<le> 244" by (simp only: if_False split: if_splits)
        with v n1 n2 n3 four show thesis
          by (cases bs; cases "tl bs"; cases "tl (tl bs)") (simp_all only: if_True if_False list.case list.sel simp_thms)
      qed
    qed
  qed
qed

declare utf8_valid.simps(2) [simp del]

lemma valid_head: "utf8_valid (a # bs) \<Longrightarrow> \<not> is_cont a"
  by (erule utf8_validE) (auto simp: is_cont_def word_le_nat_alt word_less_nat_alt)

lemma valid_drop:
  "utf8_valid bs \<Longrightarrow> i \<le> length bs \<Longrightarrow> (i < length bs \<longrightarrow> \<not> is_cont (bs ! i)) \<Longrightarrow> utf8_valid (drop i bs)"
proof (induction "length bs" arbitrary: bs i rule: less_induct)
  case less
  show ?case
  proof (cases bs)
    case (Cons a r)
    have step: "utf8_valid (drop i bs)" if "utf8_valid t" "bs = u @ t" "\<forall>k \<in> {0<..<length u}. is_cont (bs ! k)" "u \<noteq> []" for u t
    proof (cases "i < length u")
      case True
      with that less.prems have "i = 0" by (cases i) auto
      with less.prems(1) show ?thesis by simp
    next
      case False
      then have "utf8_valid (drop (i - length u) t)"
        using that less.prems by (intro less.hyps) (auto simp: nth_append)
      with that(2) False show ?thesis by simp
    qed
    from less.prems(1) have "utf8_valid (a # r)" by (simp add: Cons)
    then show ?thesis
    proof (cases rule: utf8_validE)
      case one
      then show ?thesis by (intro step [of r "[a]"]) (auto simp: Cons)
    next
      case (two b t)
      then show ?thesis by (intro step [of t "[a, b]"]) (auto simp: Cons nth_Cons split: nat.splits)
    next
      case (three b c t)
      then show ?thesis by (intro step [of t "[a, b, c]"]) (auto simp: Cons nth_Cons split: nat.splits)
    next
      case (four b c d t)
      then show ?thesis by (intro step [of t "[a, b, c, d]"]) (auto simp: Cons nth_Cons split: nat.splits)
    qed
  qed (use less.prems in simp)
qed

lemma boundary_valid:
  assumes "is_str (sr_bytes inp)" "p \<le> length (sr_bytes inp)"
  shows "char_boundary (sr_bytes inp) p \<longleftrightarrow> valid_at inp p"
proof -
  have "\<not> continuation (sr_bytes inp ! p)" if "utf8_valid (drop p (as_bytes (sr_bytes inp)))" "p < length (sr_bytes inp)"
    using that valid_head [of "byte_of_char (sr_bytes inp ! p)" "drop (Suc p) (as_bytes (sr_bytes inp))"]
    by (simp add: continuation_byte Cons_nth_drop_Suc [symmetric])
  with assms valid_drop [of "as_bytes (sr_bytes inp)" p] show ?thesis
    by (auto simp: char_boundary_def valid_at_def is_str_def continuation_byte drop_map)
qed

lemma next_char_valid:
  assumes "is_str s" "next_char s = Some (c, len)"
  shows "len \<le> length s \<and> is_str (drop len s)"
proof (cases s)
  case (Cons x r)
  from assms(1) have "utf8_valid (byte_of_char x # as_bytes r)" by (simp add: is_str_def Cons)
  then show ?thesis
    by (cases rule: utf8_validE)
      (use assms(2) in \<open>auto simp: is_str_def Cons Let_def byte_of_char_le map_eq_Cons_conv split: if_splits\<close>)
qed (use assms in simp)

lemma char_at_valid: "valid_at inp p \<Longrightarrow> char_at inp p = Some (c, len) \<Longrightarrow> valid_at inp (p + len)"
  using next_char_valid [of "drop p (sr_bytes inp)" c len] by (auto simp: valid_at_def char_at_def add.commute)

lemma str_get_valid:
  "is_str (sr_bytes inp) \<Longrightarrow> str_get inp a b = Some t \<longleftrightarrow> a \<le> b \<and> valid_at inp a \<and> valid_at inp b \<and> t = str_slice inp a b"
  using boundary_valid [of inp a] boundary_valid [of inp b] by (auto simp: str_get_def valid_at_def)

lemma lit_matches_valid: "is_str (sr_bytes inp) \<Longrightarrow> lit_matches inp p s i \<Longrightarrow> valid_at inp (p + length s)"
  by (auto simp: lit_matches_def str_get_valid split: option.splits)

section \<open>Well-formed trees\<close>

fun node_ok :: "str_ref \<Rightarrow> node \<Rightarrow> bool"
  and nodes_ok :: "str_ref \<Rightarrow> nat \<Rightarrow> nat \<Rightarrow> node list \<Rightarrow> bool" where
  "node_ok inp (Node rule text a b children) \<longleftrightarrow> valid_at inp a \<and> valid_at inp b \<and> text = str_slice inp a b \<and>
     nodes_ok inp a b children"
| "nodes_ok inp p q [] \<longleftrightarrow> p \<le> q"
| "nodes_ok inp p q (n # ns) \<longleftrightarrow> p \<le> node_start n \<and> node_ok inp n \<and> nodes_ok inp (node_end n) q ns"

lemma node_ok_span: "node_ok inp n \<Longrightarrow> node_start n \<le> node_end n"
  and nodes_ok_span: "nodes_ok inp p q ns \<Longrightarrow> p \<le> q"
  by (induction inp n and inp p q ns rule: node_ok_nodes_ok.induct) auto

lemma nodes_ok_weaken: "nodes_ok inp p q ns \<Longrightarrow> p' \<le> p \<Longrightarrow> nodes_ok inp p' q ns"
  by (cases ns) auto

lemma nodes_ok_append: "nodes_ok inp p q ns \<Longrightarrow> nodes_ok inp q q' ns' \<Longrightarrow> nodes_ok inp p q' (ns @ ns')"
proof (induction ns arbitrary: p)
  case Nil
  then show ?case by (auto intro: nodes_ok_weaken)
qed auto

lemma peg_nodes_ok:
  assumes "is_str (sr_bytes inp)" "peg rules inp e p r" "r = Some (q, ns)" "valid_at inp p"
  shows "valid_at inp q \<and> nodes_ok inp p q ns"
  using assms(2-4)
proof (induction arbitrary: q ns rule: peg.induct)
  case (p_ref n i p q' ns')
  then show ?case using nodes_ok_span [of inp p q' ns'] by (auto simp: rule_nodes_def)
next
  case (p_lit s i p)
  then show ?case using lit_matches_valid [OF assms(1), of p s i] by (auto split: if_splits)
next
  case (p_class p c len ranges negated)
  then show ?case using char_at_valid [of inp p c len] by (auto split: if_splits)
next
  case (p_any p)
  then obtain c len where "char_at inp p = Some (c, len)" by auto
  with p_any char_at_valid [of inp p c len] show ?case by auto
next
  case (p_seq e p q' ns' es r)
  then obtain m where "r = Some (q, m)" "ns = ns' @ m" by (cases r) auto
  with p_seq show ?case by (auto intro: nodes_ok_append)
next
  case (p_optional e p r)
  then show ?case by (cases r) auto
qed (auto split: if_splits intro: nodes_ok_append)

lemma check_children_ok:
  "is_str (sr_bytes inp) \<Longrightarrow> nodes_ok inp p q ns \<Longrightarrow> check_children inp q p ns = Inr ()"
proof (induction ns arbitrary: p)
  case (Cons n ns)
  obtain l t a b cs where n: "n = Node l t a b cs" by (cases n)
  from Cons.prems n have "str_get inp a b = Some t" using nodes_ok_span [of inp a b cs] by (simp add: str_get_valid)
  moreover from Cons.prems n have "t = str_slice inp a b" "b \<le> q" "p \<le> a" using nodes_ok_span [of inp b q ns] by simp_all
  ultimately show ?case using Cons n by simp
qed simp

lemma node_new_ok:
  assumes "is_str (sr_bytes inp)" "node_ok inp n"
  shows "node_new (node_rule n) inp (node_start n) (node_end n) (node_children n) = Inr n"
proof (cases n)
  case (Node l t a b cs)
  with assms have "str_get inp a b = Some t" using nodes_ok_span [of inp a b cs] by (simp add: str_get_valid)
  with Node assms check_children_ok [of inp a b cs] show ?thesis by (simp add: node_new_def)
qed

lemma nodes_ok_member: "nodes_ok inp p q ns \<Longrightarrow> n \<in> set ns \<Longrightarrow> node_ok inp n"
  by (induction ns arbitrary: p) auto

lemma subtrees_ok: "node_ok inp n \<Longrightarrow> m \<in> set (subtrees n) \<Longrightarrow> node_ok inp m"
  by (induction n rule: subtrees.induct) (auto dest: nodes_ok_member)

section \<open>Sane states\<close>

declare repeat_loop.simps [simp del]

text \<open>
  The position is a character boundary of the input, so that no slice panics; the error points into
  the input and repeats no expectation; a limit that was hit is what the error says.
\<close>

definition sane :: "str_ref \<Rightarrow> pstate \<Rightarrow> bool" where
  "sane inp st \<longleftrightarrow> st_input st = inp \<and> valid_at inp (st_pos st) \<and>
     pe_offset (st_error st) \<le> length (sr_bytes inp) \<and> distinct (pe_expected (st_error st)) \<and>
     (st_limited st \<longrightarrow> pe_expected (st_error st) \<in> {[RecursionLimit], [WorkLimit]})"

definition keeps_sane :: "str_ref \<Rightarrow> (pstate \<Rightarrow> bool \<times> pstate) \<Rightarrow> bool" where
  "keeps_sane inp f \<longleftrightarrow> (\<forall>st. sane inp st \<longrightarrow> sane inp (snd (f st)))"

lemma keeps_saneI: "(\<And>st. sane inp st \<Longrightarrow> sane inp (snd (f st))) \<Longrightarrow> keeps_sane inp f"
  by (simp add: keeps_sane_def)

lemma keeps_saneD: "keeps_sane inp f \<Longrightarrow> sane inp st \<Longrightarrow> f st = (ok, st') \<Longrightarrow> sane inp st'"
  by (force simp: keeps_sane_def)

lemma expect_sane: "sane inp st \<Longrightarrow> sane inp (expect x st)"
  by (auto simp: sane_def expect_def Let_def valid_at_def)

lemma exceed_sane: "sane inp st \<Longrightarrow> x \<in> {RecursionLimit, WorkLimit} \<Longrightarrow> sane inp (exceed x st)"
  by (auto simp: sane_def exceed_def valid_at_def)

lemma sane_cong:
  "sane inp st \<Longrightarrow> st_input st' = st_input st \<Longrightarrow> valid_at inp (st_pos st') \<Longrightarrow> st_error st' = st_error st \<Longrightarrow>
   st_limited st' = st_limited st \<Longrightarrow> sane inp st'"
  by (simp add: sane_def)

lemma sane_updates [simp]:
  "sane inp (st\<lparr>st_depth := d\<rparr>) = sane inp st" "sane inp (st\<lparr>st_fuel := n\<rparr>) = sane inp st"
  "sane inp (st\<lparr>st_suppressed := n\<rparr>) = sane inp st" "sane inp (st\<lparr>st_nodes := ns\<rparr>) = sane inp st"
  by (simp_all add: sane_def)

lemma sane_pos: "sane inp st \<Longrightarrow> valid_at inp p \<Longrightarrow> sane inp (st\<lparr>st_pos := p\<rparr>)"
  by (simp add: sane_def)

lemma saneD: "sane inp st \<Longrightarrow> valid_at inp (st_pos st) \<and> st_input st = inp"
  by (simp add: sane_def)

lemma expr_frame_sane:
  assumes "keeps_sane inp body"
  shows "keeps_sane inp (expr_frame body)"
proof (rule keeps_saneI)
  fix st assume s: "sane inp st"
  then have "sane inp (st\<lparr>st_fuel := st_fuel st - 1, st_depth := st_depth st + 1\<rparr>)" by simp
  from keeps_saneD [OF assms this] s saneD [OF s] show "sane inp (snd (expr_frame body st))"
    by (auto simp: expr_frame_def Let_def exceed_sane sane_pos split: prod.split)
qed

lemma rule_frame_sane:
  assumes "keeps_sane inp f"
  shows "keeps_sane inp (rule_frame label f)"
proof (rule keeps_saneI)
  fix st assume s: "sane inp st"
  then have "sane inp (st\<lparr>st_depth := st_depth st + 1\<rparr>)" by simp
  from keeps_saneD [OF assms this] s show "sane inp (snd (rule_frame label f st))"
    by (auto simp: rule_frame_def Let_def exceed_sane split: prod.split)
qed

lemma lit_body_sane: "is_str (sr_bytes inp) \<Longrightarrow> keeps_sane inp (lit_body s i)"
proof (rule keeps_saneI)
  fix st assume v: "is_str (sr_bytes inp)" and st: "sane inp st"
  have "valid_at inp (st_pos st + length s)" if "str_get inp (st_pos st) (st_pos st + length s) = Some t" for t
    using that str_get_valid [OF v] by blast
  with saneD [OF st] show "sane inp (snd (lit_body s i st))"
    by (auto simp: lit_body_def Let_def st expect_sane sane_pos split: option.split)
qed

lemma class_body_sane: "keeps_sane inp (class_body ranges negated)"
proof (rule keeps_saneI)
  fix st assume s: "sane inp st"
  from saneD [OF s] char_at_valid [of inp "st_pos st"] show "sane inp (snd (class_body ranges negated st))"
    by (auto simp: class_body_def char_at_def [symmetric] expect_sane sane_pos s split: option.split)
qed

lemma any_body_sane: "keeps_sane inp any_body"
proof (rule keeps_saneI)
  fix st assume s: "sane inp st"
  from saneD [OF s] char_at_valid [of inp "st_pos st"] show "sane inp (snd (any_body st))"
    by (auto simp: any_body_def char_at_def [symmetric] expect_sane sane_pos s split: option.split)
qed

lemma seq_body_sane: "(\<And>f. f \<in> set fs \<Longrightarrow> keeps_sane inp f) \<Longrightarrow> keeps_sane inp (seq_body fs)"
proof (induction fs)
  case (Cons f fs)
  show ?case
  proof (rule keeps_saneI)
    fix st assume s: "sane inp st"
    obtain ok st' where f: "f st = (ok, st')" by (cases "f st")
    have "sane inp st'" by (rule keeps_saneD [of inp f st ok]) (use Cons.prems f s in auto)
    with Cons f show "sane inp (snd (seq_body (f # fs) st))" by (simp add: keeps_sane_def)
  qed
qed (simp add: keeps_sane_def)

lemma choice_body_sane: "(\<And>f. f \<in> set fs \<Longrightarrow> keeps_sane inp f) \<Longrightarrow> keeps_sane inp (choice_body fs)"
proof (induction fs)
  case (Cons f fs)
  show ?case
  proof (rule keeps_saneI)
    fix st assume s: "sane inp st"
    obtain ok st' where f: "f st = (ok, st')" by (cases "f st")
    have "sane inp st'" by (rule keeps_saneD [of inp f st ok]) (use Cons.prems f s in auto)
    with Cons f show "sane inp (snd (choice_body (f # fs) st))" by (simp add: keeps_sane_def)
  qed
qed (simp add: keeps_sane_def)

lemma optional_body_sane: "keeps_sane inp f \<Longrightarrow> keeps_sane inp (optional_body f)"
  by (auto simp: keeps_sane_def optional_body_def split: prod.split)

lemma repeat_loop_sane: "keeps_sane inp f \<Longrightarrow> sane inp st \<Longrightarrow> sane inp (snd (repeat_loop f n st))"
proof (induction f n st rule: repeat_loop.induct)
  case (1 f n st)
  obtain ok st' where f: "f st = (ok, st')" by (cases "f st")
  with keeps_saneD [OF "1.prems" f] "1.IH" [OF f [symmetric]] "1.prems"(1) show ?case
    by (simp add: repeat_loop.simps [of f n st])
qed

lemma repeat_body_sane: "keeps_sane inp f \<Longrightarrow> keeps_sane inp (repeat_body f one)"
proof (rule keeps_saneI)
  fix st assume "keeps_sane inp f" "sane inp st"
  from repeat_loop_sane [OF this, of 0] show "sane inp (snd (repeat_body f one st))"
    by (auto simp: repeat_body_def split: prod.splits)
qed

lemma predicate_body_sane:
  assumes "keeps_sane inp f"
  shows "keeps_sane inp (predicate_body f positive)"
proof (rule keeps_saneI)
  fix st assume s: "sane inp st"
  then have "sane inp (st\<lparr>st_suppressed := st_suppressed st + 1\<rparr>)" by simp
  from keeps_saneD [OF assms this] have f: "sane inp st'" if "f (st\<lparr>st_suppressed := st_suppressed st + 1\<rparr>) = (ok, st')" for ok st'
    using that .
  have "sane inp (st'\<lparr>st_suppressed := n, st_pos := st_pos st, st_nodes := ns\<rparr>)" if "sane inp st'" for st' n ns
    using that saneD [OF s] by (simp add: sane_def)
  with f show "sane inp (snd (predicate_body f positive st))"
    by (auto simp: predicate_body_def Let_def expect_sane split: prod.split)
qed

lemma run_sane:
  assumes "is_str (sr_bytes inp)"
  shows "keeps_sane inp (run k rules names e)"
proof (induction k arbitrary: e)
  case (Suc k)
  have "keeps_sane inp (expression_body (run k rules names) rules names e)"
  proof (cases e)
    case (Ref n)
    then show ?thesis using rule_frame_sane [OF Suc.IH] by (simp add: Let_def keeps_sane_def)
  next
    case (Seq es)
    then show ?thesis using seq_body_sane [of "map (run k rules names) es"] Suc.IH by (auto simp: keeps_sane_def)
  next
    case (Choice es)
    then show ?thesis using choice_body_sane [of "map (run k rules names) es"] Suc.IH by (auto simp: keeps_sane_def)
  next
    case (Optional x)
    then show ?thesis using optional_body_sane [OF Suc.IH] by (simp add: keeps_sane_def)
  next
    case (Repeat x one)
    then show ?thesis using repeat_body_sane [OF Suc.IH] by (simp add: keeps_sane_def)
  next
    case (Predicate x positive)
    then show ?thesis using predicate_body_sane [OF Suc.IH] by (simp add: keeps_sane_def)
  qed (use lit_body_sane [OF assms] class_body_sane any_body_sane in \<open>auto simp: keeps_sane_def\<close>)
  from expr_frame_sane [OF this] show ?case by (simp add: keeps_sane_def)
qed (simp add: keeps_sane_def)

section \<open>Parsing a whole input\<close>

definition start_state :: "str_ref \<Rightarrow> pstate" where
  "start_state input = \<lparr>st_input = input, st_pos = 0, st_nodes = [], st_error = \<lparr>pe_offset = 0, pe_expected = []\<rparr>,
     st_depth = 0, st_limited = False, st_fuel = 1000000, st_suppressed = 0\<rparr>"

definition entry :: "rule list \<Rightarrow> rule_names \<Rightarrow> rule \<Rightarrow> str_ref \<Rightarrow> bool \<times> pstate" where
  "entry rules names r input = rule_frame (rule_name r) (run depth_limit rules names (rule_expr r)) (start_state input)"

lemma validated:
  assumes "peg_validate rules = Some (Inr names)"
  shows "well_formed rules" "names_resolved rules" "names = index_of rules"
proof -
  show res: "names_resolved rules" using peg_validate_unresolved [of rules] assms by auto
  from peg_validate_resolved [OF res] assms show "well_formed rules" "names = index_of rules" by auto
qed

lemma find_rule:
  assumes "names_resolved rules"
  shows "find (\<lambda>r. rule_name r = n) rules = (case index_of rules n of None \<Rightarrow> None | Some i \<Rightarrow> Some (rules ! i))"
proof (cases "index_of rules n")
  case None
  then have "find (\<lambda>r. rule_name r = n) rules = None" by (subst find_None_iff) (auto simp: index_of_None)
  with None show ?thesis by simp
next
  case (Some i)
  with assms have i: "i < length rules" "rule_name (rules ! i) = n" "distinct (map rule_name rules)"
    by (auto simp: names_resolved_def index_of_Some)
  then have "rule_name (rules ! j) \<noteq> n" if "j < i" for j
    using that nth_eq_iff_index_eq [OF i(3), of j i] by auto
  with i(1,2) have "find (\<lambda>r. rule_name r = n) rules = Some (rules ! i)" by (subst find_Some_iff) auto
  with Some show ?thesis by simp
qed

lemma entry_ok:
  assumes "names_resolved rules" "index_of rules n = Some i"
  shows "body_ok rules (Ref n) (start_state input) (entry rules (index_of rules) (rules ! i) input)"
proof -
  from assms have "refs_defined rules (rule_expr (rules ! i))" by (auto simp: names_resolved_def index_of_Some)
  from run_ok [OF assms(1) this, of 1 depth_limit] have "call_ok rules (rule_expr (rules ! i)) (Suc 0) (run depth_limit rules (index_of rules) (rule_expr (rules ! i)))"
    by (simp add: depth_limit_def)
  from rule_frame_ok [OF this assms(2)] show ?thesis by (simp add: entry_def start_state_def)
qed

lemma entry_sane:
  assumes "is_str (sr_bytes input)"
  shows "sane input (snd (entry rules names r input))"
proof -
  have "sane input (start_state input)" using assms by (simp add: sane_def start_state_def valid_at_def)
  with rule_frame_sane [OF run_sane [OF assms]] show ?thesis by (auto simp: entry_def keeps_sane_def)
qed

lemma parse_rule_unfold:
  assumes "names_resolved rules"
  shows "parse_rule rules names n input = (case index_of rules n of
      None \<Rightarrow> Inl \<lparr>pe_offset = 0, pe_expected = [UnknownRule n]\<rparr>
    | Some i \<Rightarrow> (case entry rules names (rules ! i) input of (ok, state) \<Rightarrow>
        if \<not> ok \<or> st_limited state then Inl (st_error state)
        else if st_pos state \<noteq> length (sr_bytes input) then Inl (st_error (expect ExpectEnd state))
        else if st_nodes state \<noteq> [] then Inr (last (st_nodes state))
        else Inr (Node n input 0 (length (sr_bytes input)) [])))"
  by (simp add: parse_rule_def find_rule [OF assms] entry_def start_state_def split: option.splits)

lemma peg_ref_nodes:
  assumes "names_resolved rules" "peg rules inp (Ref n) p (Some (q, ns))"
  shows "\<exists>cs. ns = rule_nodes inp n p q cs"
  using assms by (auto elim!: peg_refE simp: names_resolved_def index_of_Some)

section \<open>Parsers of validated grammars\<close>

locale valid_grammar =
  fixes rules :: "rule list" and names :: rule_names
  assumes valid: "peg_validate rules = Some (Inr names)"
begin

lemma parse_answer:
  assumes "is_str (sr_bytes input)"
  shows "case parse_rule rules names n input of
      Inr tree \<Rightarrow> peg rules input (Ref n) 0 (Some (length (sr_bytes input), if silent n then [] else [tree])) \<and>
        node_rule tree = n \<and> (silent n \<longrightarrow> tree = Node n input 0 (length (sr_bytes input)) [])
    | Inl e \<Rightarrow> names n = None \<and> e = \<lparr>pe_offset = 0, pe_expected = [UnknownRule n]\<rparr> \<or>
        pe_expected e = [RecursionLimit] \<or> pe_expected e = [WorkLimit] \<or>
        names n \<noteq> None \<and> (\<forall>ns. \<not> peg rules input (Ref n) 0 (Some (length (sr_bytes input), ns)))"
proof (cases "index_of rules n")
  case None
  then show ?thesis using validated [OF valid] by (simp add: parse_rule_unfold)
next
  case (Some i)
  note v = validated [OF valid]
  obtain ok st where en: "entry rules names (rules ! i) input = (ok, st)" by (cases "entry rules names (rules ! i) input")
  have b: "body_ok rules (Ref n) (start_state input) (ok, st)" using entry_ok [OF v(2) Some, of input] en v(3) by simp
  have s: "sane input st" using entry_sane [OF assms, of rules names "rules ! i"] en by simp
  note unf = parse_rule_unfold [OF v(2), of names n input]
  have det: "\<not> peg rules input (Ref n) 0 (Some (length (sr_bytes input), ns))"
    if "peg rules input (Ref n) 0 r" "\<forall>ns. r \<noteq> Some (length (sr_bytes input), ns)" for r ns
    using peg_deterministic [OF that(1)] that(2) by blast
  consider "\<not> ok" "st_limited st" | "\<not> ok" "\<not> st_limited st" | "ok" "\<not> st_limited st" using b by (auto simp: body_ok_def)
  then show ?thesis
  proof cases
    case 1
    with s have "pe_expected (st_error st) = [RecursionLimit] \<or> pe_expected (st_error st) = [WorkLimit]" by (simp add: sane_def)
    with 1 Some en unf show ?thesis by auto
  next
    case 2
    with b have "peg rules input (Ref n) 0 None" by (simp add: body_ok_def start_state_def)
    from det [OF this] 2 Some en unf v(3) show ?thesis by auto
  next
    case 3
    with b have p: "peg rules input (Ref n) 0 (Some (st_pos st, st_nodes st))" by (auto simp: body_ok_def start_state_def)
    from peg_ref_nodes [OF v(2) p] obtain cs where ns: "st_nodes st = rule_nodes input n 0 (st_pos st) cs" by blast
    from det [OF p] 3 Some en unf v(3) p ns show ?thesis
      by (cases "silent n"; cases "st_pos st = length (sr_bytes input)") (auto simp: rule_nodes_def)
  qed
qed

lemma total:
  assumes "names n = Some i"
  shows "\<exists>!r. peg rules inp (Ref n) p r"
proof -
  note v = validated [OF valid]
  from assms v(2,3) have i: "i < length rules" by (simp add: names_resolved_def index_of_Some)
  with v(1) have "refs_defined rules (rule_expr (rules ! i))" "progressive rules (rule_expr (rules ! i))"
    by (auto simp: well_formed_def)
  from peg_total [OF v(1) this] obtain r where "peg rules inp (rule_expr (rules ! i)) p r" by blast
  with assms v(3) have "\<exists>r. peg rules inp (Ref n) p r" by (cases r) (auto intro: p_ref p_ref_fail)
  with peg_deterministic show ?thesis by blast
qed

lemma tree_nodes_ok:
  assumes "is_str (sr_bytes input)"
  shows "case parse_rule rules names n input of
      Inr tree \<Rightarrow> node_start tree = 0 \<and> node_end tree = length (sr_bytes input) \<and>
        node_ok input tree
    | Inl e \<Rightarrow> pe_offset e \<le> length (sr_bytes input) \<and> distinct (pe_expected e)"
proof (cases "index_of rules n")
  case None
  then show ?thesis using validated [OF valid] by (simp add: parse_rule_unfold)
next
  case (Some i)
  note v = validated [OF valid]
  obtain ok st where en: "entry rules names (rules ! i) input = (ok, st)" by (cases "entry rules names (rules ! i) input")
  have b: "body_ok rules (Ref n) (start_state input) (ok, st)" using entry_ok [OF v(2) Some, of input] en v(3) by simp
  have s: "sane input st" using entry_sane [OF assms, of rules names "rules ! i"] en by simp
  note unf = parse_rule_unfold [OF v(2), of names n input]
  have err: "pe_offset (st_error x) \<le> length (sr_bytes input) \<and> distinct (pe_expected (st_error x))" if "sane input x" for x
    using that by (simp add: sane_def)
  have root: "node_ok input (Node n input 0 (length (sr_bytes input)) [])"
    using assms by (simp add: valid_at_def is_str_def str_slice_def)
  show ?thesis
  proof (cases "ok \<and> \<not> st_limited st \<and> st_pos st = length (sr_bytes input)")
    case True
    with b have p: "peg rules input (Ref n) 0 (Some (length (sr_bytes input), st_nodes st))" by (auto simp: body_ok_def start_state_def)
    from peg_ref_nodes [OF v(2) p] obtain cs where ns: "st_nodes st = rule_nodes input n 0 (length (sr_bytes input)) cs" by blast
    have "valid_at input 0" using assms by (simp add: valid_at_def)
    from peg_nodes_ok [OF assms p refl this] ns root obtain tree where
      t: "parse_rule rules names n input = Inr tree" "node_ok input tree" "node_start tree = 0" "node_end tree = length (sr_bytes input)"
      using True Some en unf by (cases "silent n") (auto simp: rule_nodes_def)
    then show ?thesis by simp
  next
    case False
    with Some en unf err [OF s] err [OF expect_sane [OF s]] show ?thesis by auto
  qed
qed

end

definition word_grammar :: "rule list" where
  "word_grammar = [\<lparr>rule_name = ''W'', rule_expr = Seq [Ref ''_l'', Repeat (Ref ''_l'') False]\<rparr>,
     \<lparr>rule_name = ''_l'', rule_expr = Class [(97, 122)] False\<rparr>]"

lemma validate_accepts:
  assumes "map_option isl (peg_validate rules) = Some False"
  shows "peg_validate rules = Some (Inr (index_of rules))"
proof -
  from assms obtain names where "peg_validate rules = Some (Inr names)" by (auto simp: isl_def) (metis sum.exhaust)
  with validated show ?thesis by blast
qed

lemma word_grammar_valid: "peg_validate word_grammar = Some (Inr (index_of word_grammar))"
  by (rule validate_accepts) code_simp

lemma word_grammar_parse:
  "parse_rule word_grammar (index_of word_grammar) ''W'' \<lparr>sr_ptr = 7, sr_bytes = ''ab''\<rparr> =
     Inr (Node ''W'' \<lparr>sr_ptr = 7, sr_bytes = ''ab''\<rparr> 0 2 [])"
  by (simp add: parse_rule_def word_grammar_def depth_limit_def index_of_def upt_rec rule_frame_def expr_frame_def Let_def
      repeat_body_def class_body_def repeat_loop.simps in_class_def silent_def str_slice_def expect_def)

interpretation word: valid_grammar word_grammar "index_of word_grammar"
  by unfold_locales (rule word_grammar_valid)

text \<open>
  C9: A generated parser answers as the parsing-expression semantics does. For a validated grammar
  and a rule, \<^verbatim>\<open>Ok\<close> means that the rule matches the whole input, and the tree is the one the match
  yields (a bare root for a silent rule); an error means an unknown rule, an exhausted call budget,
  or that the rule does not match the whole input.
\<close>

theorem parse_rule_correct:
  assumes "peg_validate rules = Some (Inr names)" "is_str (sr_bytes input)"
  shows "case parse_rule rules names n input of
      Inr tree \<Rightarrow> peg rules input (Ref n) 0 (Some (length (sr_bytes input), if silent n then [] else [tree])) \<and>
        node_rule tree = n \<and> (silent n \<longrightarrow> tree = Node n input 0 (length (sr_bytes input)) [])
    | Inl e \<Rightarrow> names n = None \<and> e = \<lparr>pe_offset = 0, pe_expected = [UnknownRule n]\<rparr> \<or>
        pe_expected e = [RecursionLimit] \<or> pe_expected e = [WorkLimit] \<or>
        names n \<noteq> None \<and> (\<forall>ns. \<not> peg rules input (Ref n) 0 (Some (length (sr_bytes input), ns)))"
  by (rule valid_grammar.parse_answer [OF valid_grammar.intro [OF assms(1)] assms(2)])

theorem parse_rule_correct_witness:
  "peg word_grammar \<lparr>sr_ptr = 7, sr_bytes = ''ab''\<rparr> (Ref ''W'') 0
     (Some (2, [Node ''W'' \<lparr>sr_ptr = 7, sr_bytes = ''ab''\<rparr> 0 2 []]))"
  using parse_rule_correct [OF word_grammar_valid, of "\<lparr>sr_ptr = 7, sr_bytes = ''ab''\<rparr>" "''W''"]
  by (simp add: word_grammar_parse silent_def is_str_def byte_of_char_def utf8_valid.simps) (simp add: numeral_2_eq_2)

text \<open>
  C35: Validated grammars cannot loop. Every rule of a grammar that validation accepts has exactly one
  result on every input at every position: it matches up to one byte with one list of nodes, or it
  fails. Left recursion and empty repetition, the two ways a parsing expression has no result, are
  what validation excludes.
\<close>

theorem validated_total:
  assumes "peg_validate rules = Some (Inr names)" "names n = Some i"
  shows "\<exists>!r. peg rules inp (Ref n) p r"
  by (rule valid_grammar.total [OF valid_grammar.intro [OF assms(1)] assms(2)])

theorem validated_total_witness: "\<exists>!r. peg word_grammar \<lparr>sr_ptr = 7, sr_bytes = ''a1''\<rparr> (Ref ''W'') 1 r"
  using validated_total [OF word_grammar_valid, of "''W''" 0] by (simp add: index_of_def word_grammar_def upt_rec)

text \<open>
  C36: Trees and errors are well formed. Every node of a returned tree, at any depth, is one
  \<^verbatim>\<open>Node::new\<close> accepts for the same input: its span lies on character boundaries, its text is that
  slice of the input, and its children lie inside it, in order and without overlap; the root spans
  the whole input. An error points into the input and repeats no expectation.
\<close>

theorem parse_tree_ok:
  assumes "peg_validate rules = Some (Inr names)" "is_str (sr_bytes input)"
  shows "case parse_rule rules names n input of
      Inr tree \<Rightarrow> node_start tree = 0 \<and> node_end tree = length (sr_bytes input) \<and>
        (\<forall>m \<in> set (subtrees tree). node_new (node_rule m) input (node_start m) (node_end m) (node_children m) = Inr m)
    | Inl e \<Rightarrow> pe_offset e \<le> length (sr_bytes input) \<and> distinct (pe_expected e)"
  using valid_grammar.tree_nodes_ok [OF valid_grammar.intro [OF assms(1)] assms(2), of n] node_new_ok [OF assms(2)] subtrees_ok
  by (fastforce split: sum.splits)

theorem parse_tree_ok_witness:
  "node_new ''W'' \<lparr>sr_ptr = 7, sr_bytes = ''ab''\<rparr> 0 2 [] = Inr (Node ''W'' \<lparr>sr_ptr = 7, sr_bytes = ''ab''\<rparr> 0 2 [])"
  using parse_tree_ok [OF word_grammar_valid, of "\<lparr>sr_ptr = 7, sr_bytes = ''ab''\<rparr>" "''W''"]
  by (simp add: word_grammar_parse is_str_def byte_of_char_def utf8_valid.simps)

end
