(* ===== verification/TransformSpec.thy ===== *)
theory TransformSpec
  imports Transform PegSpec
begin

text \<open>
  What the transformation guarantees of the syntax trees it returns: \<open>unquote\<close> is the inverse of
  quoting, and every name, number, length and offset in a returned statement has the form the
  binder expects.
\<close>

section \<open>Quoting\<close>

text \<open>How a value is written between quotes.\<close>

definition doubled :: "char \<Rightarrow> string \<Rightarrow> string" where
  "doubled q v = concat (map (\<lambda>c. if c = q then [q, q] else [c]) v)"

definition quoted :: "char \<Rightarrow> string \<Rightarrow> string" where
  "quoted q v = q # doubled q v @ [q]"

lemma doubled_simps [simp]:
  "doubled q [] = []" "doubled q (c # v) = (if c = q then q # q # doubled q v else c # doubled q v)"
  by (simp_all add: doubled_def)

lemma quotes_doubled_doubled: "quotes_doubled q (doubled q v)"
  by (induction v) auto

lemma undouble_Cons: "undouble q (c # s) = (if c = q \<and> s \<noteq> [] \<and> hd s = q then q # undouble q (tl s) else c # undouble q s)"
  by (cases s) auto

lemma undouble_doubled: "undouble q (doubled q v) = v"
  by (induction v) (auto simp: undouble_Cons)

lemma doubled_undouble: "quotes_doubled q s \<Longrightarrow> doubled q (undouble q s) = s"
  by (induction q s rule: quotes_doubled.induct) (auto simp: undouble_Cons split: list.splits)

lemma doubled_id: "q \<notin> set s \<Longrightarrow> doubled q s = s"
  by (induction s) auto

lemma undouble_id: "q \<notin> set s \<Longrightarrow> undouble q s = s"
  by (induction s) (auto simp: undouble_Cons dest: hd_in_set)

lemma leaf_Inr: "leaf n = Inr s \<longleftrightarrow> node_children n = [] \<and> s = text_of n"
  by (auto simp: leaf_def and_then_Inr_iff ch_finish_def split: if_splits)

lemma unquote_quoted:
  assumes "q = CHR 0x27 \<or> q = CHR 0x22"
  shows "unquote n q = Inr v \<longleftrightarrow> node_children n = [] \<and> text_of n = quoted q v"
proof
  assume u: "unquote n q = Inr v"
  let ?s = "text_of n" and ?i = "butlast (tl (text_of n))"
  from u assms have s: "node_children n = []" "?s \<noteq> []" "hd ?s = q" "tl ?s \<noteq> []" "last ?s = q" "quotes_doubled q ?i" "v = undouble q ?i"
    by (auto simp: unquote_def and_then_Inr_iff leaf_Inr Let_def undouble_id split: if_splits)
  then have "?s = q # ?i @ [q]" by (metis append_butlast_last_id last_tl list.collapse)
  with s show "node_children n = [] \<and> text_of n = quoted q v" by (simp add: quoted_def doubled_undouble)
next
  assume "node_children n = [] \<and> text_of n = quoted q v"
  with assms show "unquote n q = Inr v"
    by (auto simp: unquote_def and_then_Inr_iff leaf_Inr quoted_def Let_def butlast_append quotes_doubled_doubled
        undouble_doubled doubled_id)
      (metis doubled_id undouble_doubled undouble_id)+
qed

section \<open>Valid UTF-8 in, valid UTF-8 out\<close>

declare utf8_valid.simps(2) [simp del]

lemma ascii_valid [simp]: "a < 128 \<Longrightarrow> utf8_valid (a # bs) = utf8_valid bs"
  by (simp add: utf8_valid.simps)

text \<open>Whether a multi-byte character is well formed does not depend on what follows it.\<close>

lemma multibyte_tail:
  "194 \<le> a \<Longrightarrow> a \<le> 223 \<Longrightarrow> utf8_valid t \<longleftrightarrow> utf8_valid t' \<Longrightarrow> utf8_valid (a # b # t) \<longleftrightarrow> utf8_valid (a # b # t')"
  "224 \<le> a \<Longrightarrow> a \<le> 239 \<Longrightarrow> utf8_valid t \<longleftrightarrow> utf8_valid t' \<Longrightarrow> utf8_valid (a # b # c # t) \<longleftrightarrow> utf8_valid (a # b # c # t')"
  "240 \<le> a \<Longrightarrow> utf8_valid t \<longleftrightarrow> utf8_valid t' \<Longrightarrow> utf8_valid (a # b # c # d # t) \<longleftrightarrow> utf8_valid (a # b # c # d # t')"
proof -
  have lo: "\<not> a < 128" if "194 \<le> a \<or> 224 \<le> a \<or> 240 \<le> a" using that by (auto simp: word_le_nat_alt word_less_nat_alt)
  have two: "\<not> (194 \<le> a \<and> a \<le> 223)" if "224 \<le> a \<or> 240 \<le> a" using that by (auto simp: word_le_nat_alt)
  have three: "\<not> (224 \<le> a \<and> a \<le> 239)" if "240 \<le> a" using that by (auto simp: word_le_nat_alt)
  show "194 \<le> a \<Longrightarrow> a \<le> 223 \<Longrightarrow> utf8_valid t \<longleftrightarrow> utf8_valid t' \<Longrightarrow> utf8_valid (a # b # t) \<longleftrightarrow> utf8_valid (a # b # t')"
    by (simp add: utf8_valid.simps(2) [of a] lo)
  show "224 \<le> a \<Longrightarrow> a \<le> 239 \<Longrightarrow> utf8_valid t \<longleftrightarrow> utf8_valid t' \<Longrightarrow> utf8_valid (a # b # c # t) \<longleftrightarrow> utf8_valid (a # b # c # t')"
    by (simp only: utf8_valid.simps(2) [of a] lo two if_True if_False simp_thms list.case)
  show "240 \<le> a \<Longrightarrow> utf8_valid t \<longleftrightarrow> utf8_valid t' \<Longrightarrow> utf8_valid (a # b # c # d # t) \<longleftrightarrow> utf8_valid (a # b # c # d # t')"
    by (simp only: utf8_valid.simps(2) [of a] lo two three if_False simp_thms list.case)
qed

lemma no_cont_head: "utf8_valid ys \<Longrightarrow> is_cont b \<Longrightarrow> r @ ys = b # t \<Longrightarrow> \<exists>r'. r = b # r' \<and> t = r' @ ys"
  by (cases r) (auto dest: valid_head)

lemma valid_prefix: "utf8_valid (xs @ ys) \<Longrightarrow> utf8_valid ys \<Longrightarrow> utf8_valid xs"
proof (induction "length xs" arbitrary: xs rule: less_induct)
  case less
  show ?case
  proof (cases xs)
    case (Cons a r)
    from less.prems(1) have v: "utf8_valid (a # r @ ys)" by (simp add: Cons)
    then show ?thesis
    proof (cases rule: utf8_validE)
      case one
      with less Cons show ?thesis by simp
    next
      case (two b t)
      from no_cont_head [OF less.prems(2) two(4,3)] obtain r' where r: "r = b # r'" "t = r' @ ys" by blast
      with less Cons two have "utf8_valid r'" by simp
      with multibyte_tail(1) [OF two(1,2), of r' t b] two r v show ?thesis by (simp add: Cons)
    next
      case (three b c t)
      from no_cont_head [OF less.prems(2) three(4,3)] obtain r1 where r: "r = b # r1" "c # t = r1 @ ys" by blast
      from no_cont_head [OF less.prems(2) three(5) r(2) [symmetric]] obtain r' where r': "r1 = c # r'" "t = r' @ ys" by blast
      with less Cons three r have "utf8_valid r'" by simp
      with multibyte_tail(2) [OF three(1,2), of r' t b c] three r r' v show ?thesis by (simp add: Cons)
    next
      case (four b c d t)
      from no_cont_head [OF less.prems(2) four(3,2)] obtain r1 where r: "r = b # r1" "c # d # t = r1 @ ys" by blast
      from no_cont_head [OF less.prems(2) four(4) r(2) [symmetric]] obtain r2 where r2: "r1 = c # r2" "d # t = r2 @ ys" by blast
      from no_cont_head [OF less.prems(2) four(5) r2(2) [symmetric]] obtain r' where r': "r2 = d # r'" "t = r' @ ys" by blast
      with less Cons four r r2 have "utf8_valid r'" by simp
      with multibyte_tail(3) [OF four(1), of r' t b c d] four r r2 r' v show ?thesis by (simp add: Cons)
    qed
  qed simp
qed

lemma slice_is_str:
  assumes "valid_at inp a" "valid_at inp b" "a \<le> b"
  shows "is_str (sr_bytes (str_slice inp a b))"
proof -
  have "as_bytes (drop a (sr_bytes inp)) = as_bytes (take (b - a) (drop a (sr_bytes inp))) @ as_bytes (drop b (sr_bytes inp))"
    using assms(3) by (metis append_take_drop_id drop_drop le_add_diff_inverse2 map_append)
  with assms valid_prefix show ?thesis by (fastforce simp: is_str_def valid_at_def str_slice_def)
qed

definition texts_valid :: "node \<Rightarrow> bool" where
  "texts_valid n \<longleftrightarrow> (\<forall>m \<in> set (subtrees n). is_str (text_of m))"

lemma node_ok_texts: "node_ok inp n \<Longrightarrow> texts_valid n"
proof -
  have "is_str (text_of m)" if "node_ok inp m" for m
    using that nodes_ok_span by (cases m) (auto intro: slice_is_str)
  then show "node_ok inp n \<Longrightarrow> texts_valid n" by (auto simp: texts_valid_def dest: subtrees_ok)
qed

lemma ascii_is_str: "\<forall>c \<in> set s. (of_char c :: nat) < 128 \<Longrightarrow> is_str s"
  by (induction s) (auto simp: is_str_def byte_of_char_le)

lemma is_str_Cons: "(of_char c :: nat) < 128 \<Longrightarrow> is_str (c # s) \<longleftrightarrow> is_str s"
  by (simp add: is_str_def byte_of_char_le)

lemma valid_append: "utf8_valid xs \<Longrightarrow> utf8_valid ys \<Longrightarrow> utf8_valid (xs @ ys)"
proof (induction "length xs" arbitrary: xs rule: less_induct)
  case less
  show ?case
  proof (cases xs)
    case (Cons a r)
    from less.prems(1) have v: "utf8_valid (a # r)" by (simp add: Cons)
    then show ?thesis
    proof (cases rule: utf8_validE)
      case one
      with less Cons show ?thesis by simp
    next
      case (two b t)
      with less Cons have "utf8_valid (t @ ys)" by simp
      with multibyte_tail(1) [OF two(1,2), of "t @ ys" t b] two v show ?thesis by (simp add: Cons)
    next
      case (three b c t)
      with less Cons have "utf8_valid (t @ ys)" by simp
      with multibyte_tail(2) [OF three(1,2), of "t @ ys" t b c] three v show ?thesis by (simp add: Cons)
    next
      case (four b c d t)
      with less Cons have "utf8_valid (t @ ys)" by simp
      with multibyte_tail(3) [OF four(1), of "t @ ys" t b c d] four v show ?thesis by (simp add: Cons)
    qed
  qed (use less.prems in simp)
qed

lemma ascii_not_cont: "(of_char q :: nat) < 128 \<Longrightarrow> \<not> is_cont (byte_of_char q)"
  by (auto simp: is_cont_def byte_of_char_le)

lemma is_str_split:
  assumes "(of_char q :: nat) < 128"
  shows "is_str (xs @ q # ys) \<longleftrightarrow> is_str xs \<and> is_str ys"
proof
  assume v: "is_str (xs @ q # ys)"
  have "is_str (drop (length xs) (xs @ q # ys))"
    using valid_drop [of "as_bytes (xs @ q # ys)" "length xs"] v ascii_not_cont [OF assms]
    by (simp add: is_str_def nth_append drop_map)
  then have q: "is_str (q # ys)" by simp
  with v valid_prefix [of "as_bytes xs" "as_bytes (q # ys)"] assms show "is_str xs \<and> is_str ys"
    by (simp add: is_str_def byte_of_char_le)
next
  assume "is_str xs \<and> is_str ys"
  with valid_append [of "as_bytes xs" "as_bytes (q # ys)"] assms show "is_str (xs @ q # ys)"
    by (simp add: is_str_def byte_of_char_le)
qed

lemma doubled_append [simp]: "doubled q (xs @ ys) = doubled q xs @ doubled q ys"
  by (simp add: doubled_def)

lemma is_str_undouble:
  assumes "(of_char q :: nat) < 128"
  shows "is_str (doubled q v) \<Longrightarrow> is_str v"
proof (induction "length v" arbitrary: v rule: less_induct)
  case less
  show ?case
  proof (cases "q \<in> set v")
    case True
    then obtain xs ys where v: "v = xs @ q # ys" "q \<notin> set xs" by (meson split_list_first)
    with less.prems assms have "is_str xs" "is_str (doubled q ys)" by (simp_all add: doubled_id is_str_split is_str_Cons)
    with less.hyps [of ys] v assms show ?thesis by (simp add: is_str_split)
  next
    case False
    with less.prems show ?thesis by (simp add: doubled_id)
  qed
qed

lemma is_str_quoted: "(of_char q :: nat) < 128 \<Longrightarrow> is_str (quoted q v) \<Longrightarrow> is_str v"
  using is_str_split [of q "doubled q v" "[]"] by (auto simp: quoted_def is_str_Cons intro: is_str_undouble)

section \<open>Names\<close>

definition name_ok :: "string \<Rightarrow> bool" where
  "name_ok v \<longleftrightarrow> v \<noteq> [] \<and> is_str v"

lemma word_char_ascii: "word_char c \<Longrightarrow> (of_char (ascii_lower c) :: nat) < 128"
  by (auto simp: word_char_def is_ascii_alphabetic_def is_ascii_digit_def ascii_lower_def Let_def of_char_of)

lemma texts_valid_child: "texts_valid n \<Longrightarrow> m \<in> set (node_children n) \<Longrightarrow> texts_valid m"
  by (cases n) (auto simp: texts_valid_def)

lemma texts_valid_self: "texts_valid n \<Longrightarrow> is_str (text_of n)"
  by (auto simp: texts_valid_def)

lemma identifier_name_ok:
  assumes "identifier_of n = Inr v" "texts_valid n"
  shows "name_ok v"
proof -
  from assms(1) obtain m where m: "node_children n = [m]"
    by (auto simp: identifier_of_def split: if_splits list.splits)
  then have t: "is_str (text_of m)" using texts_valid_self [OF texts_valid_child [OF assms(2)], of m] by simp
  from assms(1) m consider "unquote m (CHR 0x22) = Inr v" "v \<noteq> []" | "bare_identifier m = Inr v"
    by (auto simp: identifier_of_def and_then_Inr_iff split: if_splits)
  then show ?thesis
  proof cases
    case 1
    then have "text_of m = quoted (CHR 0x22) v" by (simp add: unquote_quoted)
    with t 1(2) is_str_quoted [of "CHR 0x22" v] show ?thesis by (simp add: name_ok_def)
  next
    case 2
    then have "v = map ascii_lower (text_of m)" "text_of m \<noteq> []" "list_all word_char (text_of m)"
      by (auto simp: bare_identifier_def and_then_Inr_iff leaf_Inr split: if_splits)
    then show ?thesis by (auto simp: name_ok_def list_all_iff intro!: ascii_is_str word_char_ascii)
  qed
qed

section \<open>Tokens of expressions\<close>

fun literal_ok :: "literal \<Rightarrow> bool" where
  "literal_ok (LitNumber s) = valid_number s"
| "literal_ok (LitString s) = is_str s"
| "literal_ok _ = True"

fun bound_ok :: "frame_bound \<Rightarrow> bool" where
  "bound_ok (Preceding s) = all_digits s"
| "bound_ok (Following s) = all_digits s"
| "bound_ok _ = True"

definition frame_ok :: "window_frame option \<Rightarrow> bool" where
  "frame_ok frame \<longleftrightarrow> (case frame of None \<Rightarrow> True | Some w \<Rightarrow> bound_ok (wf_start w) \<and> bound_ok (wf_stop w))"

definition call_exprs :: "expr list \<Rightarrow> expr option \<Rightarrow> expr window_spec option \<Rightarrow> expr list" where
  "call_exprs args flt over = args @ (case flt of None \<Rightarrow> [] | Some x \<Rightarrow> [x]) @ (case over of None \<Rightarrow> [] | Some w \<Rightarrow> spec_exprs w)"

lemma call_exprs_size [termination_simp]:
  assumes "x \<in> set (call_exprs args flt over)"
  shows "size x < Suc (size_list size args + size_option size flt + size_option (size_window_spec size) over)"
proof -
  have "size x < size_list size args" if "x \<in> set args" using that by (induction args) auto
  moreover have "size x < size_window_spec size w" if "x \<in> set (spec_exprs w)" for w using spec_expr_size [OF that, of size] .
  ultimately show ?thesis using assms by (fastforce simp: call_exprs_def split: option.splits)
qed

definition over_ok :: "expr window_spec option \<Rightarrow> bool" where
  "over_ok over \<longleftrightarrow> (case over of None \<Rightarrow> True | Some w \<Rightarrow> frame_ok (ws_frame w))"

fun expr_ok :: "expr \<Rightarrow> bool" where
  "expr_ok (Identifier v) = name_ok v"
| "expr_ok (QualifiedIdentifier a b) = (name_ok a \<and> name_ok b)"
| "expr_ok (Alias e a) = (expr_ok e \<and> name_ok a)"
| "expr_ok (FunctionCall name args d flt over) =
     (name_ok name \<and> list_all expr_ok (call_exprs args flt over) \<and> over_ok over)"
| "expr_ok Wildcard = True"
| "expr_ok (Literal l) = literal_ok l"
| "expr_ok (Unary op e) = expr_ok e"
| "expr_ok (Binary l op r) = (expr_ok l \<and> expr_ok r)"
| "expr_ok (IsNull e negated) = expr_ok e"

section \<open>The transformation yields such expressions\<close>

definition sound :: "expr_parser \<Rightarrow> node \<Rightarrow> bool" where
  "sound f n \<longleftrightarrow> texts_valid n \<and> (\<forall>x \<in> inner_nodes n. \<forall>e. f x = Inr e \<longrightarrow> expr_ok e)"

lemma sound_child:
  assumes "sound f n" "m \<in> set (node_children n)"
  shows "sound f m" "f m = Inr e \<Longrightarrow> expr_ok e" "texts_valid m"
  using assms by (auto simp: sound_def child_inner inner_trans dest: texts_valid_child)

lemma take_all_ok: "take_all rule f p ns = Inr vs \<Longrightarrow> \<forall>n \<in> set ns. \<forall>v. f n = Inr v \<longrightarrow> P v \<Longrightarrow> list_all P vs"
  by (induction ns arbitrary: vs) (auto simp: and_then_Inr_iff split: if_splits)

lemma take_some_ok:
  assumes "take_some rule f c = Inr vs" "\<forall>n \<in> set (ch_rest c). \<forall>v. f n = Inr v \<longrightarrow> P v"
  shows "vs \<noteq> [] \<and> list_all P vs"
proof -
  from assms(1) obtain n rest v vs' where t: "ch_rest c = n # rest" "f n = Inr v" "vs = v # vs'" "take_all rule f (ch_node c) rest = Inr vs'"
    by (auto simp: take_some_def and_then_Inr_iff ch_take_Inr)
  with take_all_ok [OF t(4), of P] assms(2) show ?thesis by auto
qed

lemma take_then_ok:
  "take_then rule f c = Inr (v, c') \<Longrightarrow> set (ch_rest c) \<subseteq> S \<Longrightarrow>
    set (ch_rest c') \<subseteq> S \<and> (\<exists>n \<in> S. f n = Inr v)"
  by (auto simp: take_then_Inr)

lemma optional_then_ok:
  "optional_then rule f c = Inr (v, c') \<Longrightarrow> set (ch_rest c) \<subseteq> S \<Longrightarrow>
    set (ch_rest c') \<subseteq> S \<and> (\<forall>w. v = Some w \<longrightarrow> (\<exists>n \<in> S. f n = Inr w))"
  by (cases v) (auto simp: optional_then_Inr)

lemma ch_optional_ok:
  "ch_optional rule c = Inr (v, c') \<Longrightarrow> set (ch_rest c) \<subseteq> S \<Longrightarrow>
    set (ch_rest c') \<subseteq> S \<and> (\<forall>n. v = Some n \<longrightarrow> n \<in> S)"
  by (auto simp: ch_optional_Inr split: option.splits)

lemma expressions_ok: "sound f n \<Longrightarrow> expressions f n = Inr es \<Longrightarrow> es \<noteq> [] \<and> list_all expr_ok es"
  unfolding expressions_def by (erule take_some_ok) (auto dest: sound_child(2))

lemma only_then_ok: "sound f n \<Longrightarrow> only_then rule f n = Inr e \<Longrightarrow> expr_ok e"
  by (auto simp: only_then_def and_then_Inr_iff only_Inr dest: sound_child)

lemma order_by_ok:
  assumes "sound f n" "parse_order_by_expr f n = Inr v"
  shows "expr_ok (ob_expr v)"
proof -
  from assms(2) obtain e c where t: "take_then ''Expr'' f (ch_new n) = Inr (e, c)" "ob_expr v = e"
    by (auto simp: parse_order_by_expr_def and_then_Inr_iff split: if_splits)
  from take_then_ok [OF t(1) order_refl] sound_child(2) [OF assms(1)] t(2) show ?thesis by auto
qed

lemma orderings_ok:
  assumes "sound f n" "orderings f n = Inr vs"
  shows "list_all (expr_ok \<circ> ob_expr) vs"
proof -
  have "\<forall>m \<in> set (node_children n). \<forall>v. parse_order_by_expr f m = Inr v \<longrightarrow> (expr_ok \<circ> ob_expr) v"
    using order_by_ok sound_child(1) [OF assms(1)] by (metis comp_apply)
  with take_some_ok [OF assms(2) [unfolded orderings_def], of "expr_ok \<circ> ob_expr"] show ?thesis by simp
qed

lemma frame_bound_ok: "parse_frame_bound n = Inr b \<Longrightarrow> bound_ok b"
  by (auto simp: parse_frame_bound_def bound_words_def and_then_Inr_iff split: if_splits list.splits option.splits)

lemma window_frame_ok: "parse_window_frame n = Inr w \<Longrightarrow> frame_ok (Some w)"
  by (auto simp: parse_window_frame_def frame_between_def frame_ok_def and_then_Inr_iff dest!: frame_bound_ok
      split: if_splits option.splits)

lemma window_spec_ok:
  assumes "sound f n" "parse_window_spec f n = Inr w"
  shows "list_all expr_ok (spec_exprs w) \<and> frame_ok (ws_frame w)"
proof -
  from assms(2) obtain p c1 o' c2 fr c3 where
    s: "optional_then ''PartitionBy'' (expressions f) (ch_new n) = Inr (p, c1)"
      "optional_then ''OrderBy'' (orderings f) c1 = Inr (o', c2)"
      "optional_then ''WindowFrame'' parse_window_frame c2 = Inr (fr, c3)"
      "w = WindowSpec (unwrap_or_default p) (unwrap_or_default o') fr"
    by (auto simp: parse_window_spec_def and_then_Inr_iff split: if_splits)
  have c: "set (ch_rest (ch_new n)) \<subseteq> set (node_children n)" by simp
  note p1 = optional_then_ok [OF s(1) c]
  note o1 = optional_then_ok [OF s(2) conjunct1 [OF p1]]
  have "list_all expr_ok (unwrap_or_default p)"
    using p1 expressions_ok sound_child(1) [OF assms(1)] by (cases p) (simp_all add: unwrap_or_default_def, blast)
  moreover have "list_all (expr_ok \<circ> ob_expr) (unwrap_or_default o')"
    using o1 orderings_ok sound_child(1) [OF assms(1)] by (cases o') (simp_all add: unwrap_or_default_def, blast)
  moreover have "frame_ok fr" using s(3) window_frame_ok by (auto simp: optional_then_Inr frame_ok_def [of None] split: option.splits)
  ultimately show ?thesis by (auto simp: s(4) spec_exprs_def list_all_iff)
qed

lemma literal_ok: "parse_literal n = Inr l \<Longrightarrow> is_str (text_of n) \<Longrightarrow> literal_ok l"
  by (auto simp: parse_literal_def and_then_Inr_iff leaf_Inr valid_number_parser unquote_quoted
      dest: is_str_quoted [of "CHR 0x27", simplified] split: if_splits)

lemma binary_chain_ok:
  "binary_chain f p operand operator left ns = Inr e \<Longrightarrow> expr_ok left \<Longrightarrow> \<forall>n \<in> set ns. \<forall>e. f n = Inr e \<longrightarrow> expr_ok e \<Longrightarrow> expr_ok e"
  by (induction f p operand operator left ns arbitrary: e rule: binary_chain.induct) (auto simp: and_then_Inr_iff split: if_splits)

text \<open>One lemma per kind of expression node; a cursor over \<open>n\<close> stays within its children.\<close>

lemma taken_ok:
  assumes "sound f n" "take_then rule f c = Inr (e, c')" "set (ch_rest c) \<subseteq> set (node_children n)"
  shows "expr_ok e \<and> set (ch_rest c') \<subseteq> set (node_children n)"
  using take_then_ok [OF assms(2,3)] sound_child(2) [OF assms(1)] by blast

lemma name_taken_ok:
  assumes "texts_valid n" "take_then rule identifier_of c = Inr (v, c')" "set (ch_rest c) \<subseteq> set (node_children n)"
  shows "name_ok v \<and> set (ch_rest c') \<subseteq> set (node_children n)"
  using take_then_ok [OF assms(2,3)] identifier_name_ok texts_valid_child [OF assms(1)] by blast

lemma name_optional_ok:
  assumes "texts_valid n" "optional_then rule identifier_of c = Inr (v, c')" "set (ch_rest c) \<subseteq> set (node_children n)"
  shows "(\<forall>w. v = Some w \<longrightarrow> name_ok w) \<and> set (ch_rest c') \<subseteq> set (node_children n)"
  using optional_then_ok [OF assms(2,3)] identifier_name_ok texts_valid_child [OF assms(1)] by blast

lemma optional_expr_ok:
  assumes "sound f n" "optional_then rule (only_then r f) c = Inr (v, c')" "set (ch_rest c) \<subseteq> set (node_children n)"
  shows "(\<forall>w. v = Some w \<longrightarrow> expr_ok w) \<and> set (ch_rest c') \<subseteq> set (node_children n)"
  using optional_then_ok [OF assms(2,3)] only_then_ok sound_child(1) [OF assms(1)] by blast

lemma chain_node_ok:
  assumes "sound f n" "chain_node f n a b = Inr (e, c)"
  shows "expr_ok e"
proof -
  from assms(2) obtain l c1 where t: "take_then a f (ch_new n) = Inr (l, c1)" "binary_chain f n a b l (ch_rest c1) = Inr e"
    by (auto simp: chain_node_def and_then_Inr_iff)
  from taken_ok [OF assms(1) t(1)] have l: "expr_ok l" "set (ch_rest c1) \<subseteq> set (node_children n)" by auto
  show ?thesis by (rule binary_chain_ok [OF t(2) l(1)]) (use l(2) sound_child(2) [OF assms(1)] in blast)
qed

lemma prefix_node_ok:
  assumes "sound f n" "prefix_node f n = Inr (e, c)"
  shows "expr_ok e"
proof -
  from assms(2) obtain rule op c1 where o': "ch_optional rule (ch_new n) = Inr (op, c1)"
    and t: "(\<exists>r x c2 u. take_then r f c1 = Inr (x, c2) \<and> (e = Unary u x \<or> e = x))"
    by (auto simp: prefix_node_def Let_def and_then_Inr_iff split: option.splits if_splits) blast+
  from ch_optional_ok [OF o' order_refl] t taken_ok [OF assms(1)] show ?thesis by fastforce
qed

lemma comparison_node_ok:
  assumes "sound f n" "comparison_node f n = Inr (e, c)"
  shows "expr_ok e"
proof -
  from assms(2) obtain l c1 is_node c2 where t: "take_then ''Additive'' f (ch_new n) = Inr (l, c1)" "ch_optional ''IsNull'' c1 = Inr (is_node, c2)"
    and e: "(\<exists>b. e = IsNull l b) \<or> e = l \<or>
      (\<exists>op x c3 r c4. ch_optional ''CompareOp'' c2 = Inr (x, c3) \<and> take_then ''Additive'' f c3 = Inr (r, c4) \<and> e = Binary l op r)"
    by (auto simp: comparison_node_def and_then_Inr_iff split: option.splits)
  from taken_ok [OF assms(1) t(1)] have l: "expr_ok l" "set (ch_rest c1) \<subseteq> set (node_children n)" by auto
  from ch_optional_ok [OF t(2) l(2)] have c2: "set (ch_rest c2) \<subseteq> set (node_children n)" by simp
  from e l(1) ch_optional_ok [OF _ c2] taken_ok [OF assms(1)] show ?thesis by fastforce
qed

lemma call_args_ok: "sound f n \<Longrightarrow> call_args f n = Inr es \<Longrightarrow> list_all expr_ok es"
  using expressions_ok [of f n es] only_then_ok [of f n "''Star''"]
  by (auto simp: call_args_def and_then_Inr_iff split: if_splits)

lemma call_node_ok:
  assumes "sound f n" "call_node f n = Inr (e, c)"
  shows "expr_ok e"
proof -
  from assms(2) obtain name c1 d c2 args c3 flt c4 over where
    s: "take_then ''Identifier'' identifier_of (ch_new n) = Inr (name, c1)"
      "optional_then ''Distinct'' (\<lambda>d. token d [''DISTINCT'']) c1 = Inr (d, c2)"
      "optional_then ''Arguments'' (call_args f) c2 = Inr (args, c3)"
      "optional_then ''CallFilter'' (only_then ''Expr'' f) c3 = Inr (flt, c4)"
      "optional_then ''Over'' (only_then ''WindowSpec'' (parse_window_spec f)) c4 = Inr (over, c)"
      "e = FunctionCall name (unwrap_or_default args) (d \<noteq> None) flt over"
    by (auto simp: call_node_def and_then_Inr_iff)
  have tv: "texts_valid n" using assms(1) by (simp add: sound_def)
  from name_taken_ok [OF tv s(1)] have n: "name_ok name" "set (ch_rest c1) \<subseteq> set (node_children n)" by auto
  from optional_then_ok [OF s(2) n(2)] have c2: "set (ch_rest c2) \<subseteq> set (node_children n)" by simp
  note a = optional_then_ok [OF s(3) c2]
  then have args: "list_all expr_ok (unwrap_or_default args)"
    using call_args_ok sound_child(1) [OF assms(1)] by (cases args) (simp_all add: unwrap_or_default_def, blast)
  note fl = optional_expr_ok [OF assms(1) s(4) conjunct1 [OF a]]
  have "list_all expr_ok (spec_exprs w) \<and> frame_ok (ws_frame w)" if "over = Some w" for w
  proof -
    from optional_then_ok [OF s(5) conjunct2 [OF fl]] that obtain m where
      m: "m \<in> set (node_children n)" "only_then ''WindowSpec'' (parse_window_spec f) m = Inr w" by blast
    then obtain k where "k \<in> set (node_children m)" "parse_window_spec f k = Inr w"
      by (auto simp: only_then_def and_then_Inr_iff only_Inr)
    with window_spec_ok sound_child(1) [OF sound_child(1) [OF assms(1) m(1)]] show ?thesis by blast
  qed
  with n(1) args fl s(6) show ?thesis by (auto simp: call_exprs_def over_ok_def split: option.splits)
qed

lemma projection_node_ok:
  assumes "sound f n" "projection_node f n = Inr (e, c)"
  shows "expr_ok e"
proof -
  from assms(2) obtain x c1 a where t: "take_then ''Expr'' f (ch_new n) = Inr (x, c1)" "optional_then ''Identifier'' identifier_of c1 = Inr (a, c)"
    "e = (case a of Some a \<Rightarrow> Alias x a | None \<Rightarrow> x)" by (auto simp: projection_node_def and_then_Inr_iff)
  from taken_ok [OF assms(1) t(1)] have x: "expr_ok x" "set (ch_rest c1) \<subseteq> set (node_children n)" by auto
  have "texts_valid n" using assms(1) by (simp add: sound_def)
  from name_optional_ok [OF this t(2) x(2)] x(1) t(3) show ?thesis by (auto split: option.splits)
qed

lemma name_node_ok:
  assumes "texts_valid n" "name_node n = Inr (e, c)"
  shows "expr_ok e"
proof -
  from assms(2) obtain a c1 b where t: "take_then ''Identifier'' identifier_of (ch_new n) = Inr (a, c1)"
    "optional_then ''Identifier'' identifier_of c1 = Inr (b, c)"
    "e = (case b of Some column \<Rightarrow> QualifiedIdentifier a column | None \<Rightarrow> Identifier a)" by (auto simp: name_node_def and_then_Inr_iff)
  from name_taken_ok [OF assms(1) t(1)] have a: "name_ok a" "set (ch_rest c1) \<subseteq> set (node_children n)" by auto
  from name_optional_ok [OF assms(1) t(2) a(2)] a(1) t(3) show ?thesis by (auto split: option.splits)
qed

lemma primary_node_ok:
  assumes "sound f n" "primary_node f n = Inr (e, c)"
  shows "expr_ok e"
proof -
  from assms(2) obtain m where "node_children n = [m]" "f m = Inr e"
    by (auto simp: primary_node_def and_then_Inr_iff split: list.splits if_splits)
  with sound_child(2) [OF assms(1), of m e] show ?thesis by simp
qed

lemma expr_node_ok:
  assumes "sound f n" "expr_node f n = Inr e"
  shows "expr_ok e"
proof -
  have tv: "texts_valid n" "is_str (text_of n)" using assms(1) by (auto simp: sound_def intro: texts_valid_self)
  from assms(2) show ?thesis
    using taken_ok [OF assms(1), of _ "ch_new n"] primary_node_ok [OF assms(1)] chain_node_ok [OF assms(1)] prefix_node_ok [OF assms(1)]
      comparison_node_ok [OF assms(1)] projection_node_ok [OF assms(1)] call_node_ok [OF assms(1)] name_node_ok [OF tv(1)]
      literal_ok [OF _ tv(2)]
    by (auto simp: expr_node_def and_then_Inr_iff split: if_splits prod.splits)
qed

lemma subtrees_trans: "x \<in> set (subtrees n) \<Longrightarrow> set (subtrees x) \<subseteq> set (subtrees n)"
  by (induction n rule: subtrees.induct) auto

lemma parse_expr_ok: "texts_valid n \<Longrightarrow> parse_expr n = Inr e \<Longrightarrow> expr_ok e"
proof (induction n arbitrary: e rule: parse_expr.induct)
  case (1 n)
  have "texts_valid x" if "x \<in> inner_nodes n" for x
    using that "1.prems"(1) subtrees_trans [of x n] by (auto simp: texts_valid_def subtrees_inner [of n])
  with 1 have "sound parse_expr n" by (auto simp: sound_def)
  with expr_node_ok [OF this] "1.prems"(2) show ?case by (simp add: parse_expr.simps [of n])
qed

section \<open>Tokens of statements\<close>

fun type_tokens_ok :: "data_type \<Rightarrow> bool" where
  "type_tokens_ok (DVarchar (Some len)) = all_digits len"
| "type_tokens_ok _ = True"

definition column_tokens_ok :: "column_def \<Rightarrow> bool" where
  "column_tokens_ok c \<longleftrightarrow> name_ok (cd_name c) \<and> type_tokens_ok (cd_type c)"

definition assignment_ok :: "assignment \<Rightarrow> bool" where
  "assignment_ok a \<longleftrightarrow> name_ok (as_column a) \<and> expr_ok (as_value a)"

fun statement_ok :: "statement \<Rightarrow> bool" where
  "statement_ok (SSelect projection source flt group_by having order_by) \<longleftrightarrow> list_all expr_ok projection \<and>
     pred_option name_ok source \<and> pred_option expr_ok flt \<and> list_all expr_ok group_by \<and> pred_option expr_ok having \<and>
     list_all (expr_ok \<circ> ob_expr) order_by"
| "statement_ok (SCreateTable name columns) \<longleftrightarrow> name_ok name \<and> columns \<noteq> [] \<and> list_all column_tokens_ok columns"
| "statement_ok (SInsert table columns rows) \<longleftrightarrow> name_ok table \<and> list_all name_ok columns \<and> rows \<noteq> [] \<and>
     list_all (\<lambda>row. row \<noteq> [] \<and> list_all expr_ok row) rows"
| "statement_ok (SUpdate table assignments flt) \<longleftrightarrow> name_ok table \<and> assignments \<noteq> [] \<and> list_all assignment_ok assignments \<and>
     pred_option expr_ok flt"
| "statement_ok (SDelete table flt) \<longleftrightarrow> name_ok table \<and> pred_option expr_ok flt"
| "statement_ok _ = True"

lemma sound_parse_expr: "texts_valid n \<Longrightarrow> sound parse_expr n"
  using subtrees_trans [of _ n] parse_expr_ok by (fastforce simp: sound_def texts_valid_def subtrees_inner [of n])

lemma data_type_ok: "parse_data_type n = Inr t \<Longrightarrow> type_tokens_ok t"
  by (auto simp: parse_data_type_def simple_types_def varchar_type_def and_then_Inr_iff try_option_def split: if_splits list.splits option.splits)

lemma column_def_ok:
  assumes "texts_valid n" "parse_column_def n = Inr c"
  shows "column_tokens_ok c"
proof -
  from assms(2) obtain i t r where i: "node_children n = i # t # r" "identifier_of i = Inr (cd_name c)" "parse_data_type t = Inr (cd_type c)"
    by (auto simp: parse_column_def_def and_then_Inr_iff ch_take_Inr split: if_splits)
  then have "texts_valid i" using texts_valid_child [OF assms(1), of i] by simp
  with identifier_name_ok [OF i(2)] data_type_ok [OF i(3)] show ?thesis by (simp add: column_tokens_ok_def)
qed

lemma assignment_node_ok:
  assumes "texts_valid n" "parse_assignment n = Inr a"
  shows "assignment_ok a"
proof -
  from assms(2) obtain v c e c' where t: "take_then ''Identifier'' identifier_of (ch_new n) = Inr (v, c)"
    "take_then ''Expr'' parse_expr c = Inr (e, c')" "a = \<lparr>as_column = v, as_value = e\<rparr>"
    by (auto simp: parse_assignment_def and_then_Inr_iff split: if_splits)
  from name_taken_ok [OF assms(1) t(1)] have v: "name_ok v" "set (ch_rest c) \<subseteq> set (node_children n)" by auto
  from taken_ok [OF sound_parse_expr [OF assms(1)] t(2) v(2)] v(1) t(3) show ?thesis by (simp add: assignment_ok_def)
qed

lemma projection_list_all: "projection_list p = try_map parse_expr (node_children p)"
  by (simp add: projection_list_def split: list.split)

lemma projection_list_ok:
  assumes "texts_valid p" "projection_list p = Inr es"
  shows "list_all expr_ok es"
  unfolding list_all_iff
proof
  fix e assume "e \<in> set es"
  with assms(2) obtain m where "m \<in> set (node_children p)" "parse_expr m = Inr e"
    by (auto simp: projection_list_all dest: try_map_set)
  with parse_expr_ok texts_valid_child [OF assms(1)] show "expr_ok e" by blast
qed

text \<open>A clause of a statement: an optional child whose value the transformation checks.\<close>

lemma clause_ok:
  assumes "texts_valid n" "optional_then rule g c = Inr (v, c')" "set (ch_rest c) \<subseteq> set (node_children n)"
    and "\<And>m w. texts_valid m \<Longrightarrow> g m = Inr w \<Longrightarrow> P w"
  shows "pred_option P v \<and> set (ch_rest c') \<subseteq> set (node_children n)"
proof -
  from optional_then_ok [OF assms(2,3)] assms(4) texts_valid_child [OF assms(1)]
  have "P w" if "v = Some w" for w using that by blast
  with optional_then_ok [OF assms(2,3)] show ?thesis by (cases v) auto
qed

lemma only_parse_ok: "texts_valid m \<Longrightarrow> only_then rule parse_expr m = Inr w \<Longrightarrow> expr_ok w"
  by (rule only_then_ok [OF sound_parse_expr])

lemma only_name_ok: "texts_valid m \<Longrightarrow> only_then rule identifier_of m = Inr w \<Longrightarrow> name_ok w"
  using texts_valid_child [of m] by (auto simp: only_then_def and_then_Inr_iff only_Inr intro: identifier_name_ok)

lemma expression_list_ok: "texts_valid m \<Longrightarrow> expressions parse_expr m = Inr w \<Longrightarrow> w \<noteq> [] \<and> list_all expr_ok w"
  by (rule expressions_ok [OF sound_parse_expr])

lemma ordering_list_ok: "texts_valid m \<Longrightarrow> orderings parse_expr m = Inr w \<Longrightarrow> list_all (expr_ok \<circ> ob_expr) w"
  by (rule orderings_ok [OF sound_parse_expr])

lemma default_ok: "pred_option (list_all P) v \<Longrightarrow> list_all P (unwrap_or_default v)"
  by (cases v) (simp_all add: unwrap_or_default_def)

lemma select_node_ok:
  assumes "texts_valid n" "select_node (ch_new n) = Inr (s, c)"
  shows "statement_ok s"
proof -
  from assms(2) obtain p c1 fr c2 w c3 g c4 h c5 o' where
    s: "take_then ''Projection'' projection_list (ch_new n) = Inr (p, c1)"
      "optional_then ''From'' (only_then ''Identifier'' identifier_of) c1 = Inr (fr, c2)"
      "optional_then ''Where'' (only_then ''Expr'' parse_expr) c2 = Inr (w, c3)"
      "optional_then ''GroupBy'' (expressions parse_expr) c3 = Inr (g, c4)"
      "optional_then ''Having'' (only_then ''Expr'' parse_expr) c4 = Inr (h, c5)"
      "optional_then ''OrderBy'' (orderings parse_expr) c5 = Inr (o', c)"
      "s = SSelect p fr w (unwrap_or_default g) h (unwrap_or_default o')"
    by (auto simp: select_node_def where_clause_def and_then_Inr_iff)
  have "set (ch_rest c1) \<subseteq> set (node_children n)" "list_all expr_ok p"
    using take_then_ok [OF s(1), of "set (node_children n)"] projection_list_ok texts_valid_child [OF assms(1)] by auto
  note p = this
  note fr = clause_ok [where P = name_ok, OF assms(1) s(2) p(1) only_name_ok]
  note w = clause_ok [where P = expr_ok, OF assms(1) s(3) conjunct2 [OF fr] only_parse_ok]
  note g = clause_ok [where P = "list_all expr_ok", OF assms(1) s(4) conjunct2 [OF w] conjunct2 [OF expression_list_ok]]
  note h = clause_ok [where P = expr_ok, OF assms(1) s(5) conjunct2 [OF g] only_parse_ok]
  note o = clause_ok [where P = "list_all (expr_ok \<circ> ob_expr)", OF assms(1) s(6) conjunct2 [OF h] ordering_list_ok]
  from p(2) fr w g h o show ?thesis by (simp add: s(7) default_ok)
qed

lemma create_table_node_ok:
  assumes "texts_valid n" "create_table_node (ch_new n) = Inr (s, c)"
  shows "statement_ok s"
proof -
  from assms(2) obtain name c1 cols where s: "take_then ''Identifier'' identifier_of (ch_new n) = Inr (name, c1)"
    "take_some ''ColumnDef'' parse_column_def c1 = Inr cols" "s = SCreateTable name cols"
    by (auto simp: create_table_node_def and_then_Inr_iff)
  from name_taken_ok [OF assms(1) s(1)] have n: "name_ok name" "set (ch_rest c1) \<subseteq> set (node_children n)" by auto
  have "cols \<noteq> [] \<and> list_all column_tokens_ok cols"
    by (rule take_some_ok [OF s(2)]) (use n(2) column_def_ok texts_valid_child [OF assms(1)] in blast)
  with n(1) s(3) show ?thesis by simp
qed

lemma insert_node_ok:
  assumes "texts_valid n" "insert_node (ch_new n) = Inr (s, c)"
  shows "statement_ok s"
proof -
  from assms(2) obtain name c1 cols c2 rows where s: "take_then ''Identifier'' identifier_of (ch_new n) = Inr (name, c1)"
    "optional_then ''Columns'' (\<lambda>n. take_some ''Identifier'' identifier_of (ch_new n)) c1 = Inr (cols, c2)"
    "take_some ''Row'' (expressions parse_expr) c2 = Inr rows" "s = SInsert name (unwrap_or_default cols) rows"
    by (auto simp: insert_node_def and_then_Inr_iff)
  from name_taken_ok [OF assms(1) s(1)] have n: "name_ok name" "set (ch_rest c1) \<subseteq> set (node_children n)" by auto
  have "list_all name_ok vs" if "texts_valid m" "take_some ''Identifier'' identifier_of (ch_new m) = Inr vs" for m vs
  proof -
    have "vs \<noteq> [] \<and> list_all name_ok vs"
      by (rule take_some_ok [OF that(2)]) (use identifier_name_ok texts_valid_child [OF that(1)] in auto)
    then show ?thesis by simp
  qed
  from clause_ok [where P = "list_all name_ok", OF assms(1) s(2) n(2) this]
  have c: "pred_option (list_all name_ok) cols" "set (ch_rest c2) \<subseteq> set (node_children n)" by auto
  have "rows \<noteq> [] \<and> list_all (\<lambda>row. row \<noteq> [] \<and> list_all expr_ok row) rows"
    by (rule take_some_ok [OF s(3)]) (use c(2) expression_list_ok texts_valid_child [OF assms(1)] in blast)
  with n(1) c(1) s(4) show ?thesis by (simp add: default_ok)
qed

lemma take_while_ok:
  "take_while rule f ns = Inr (vs, rest) \<Longrightarrow> \<forall>n \<in> set ns. \<forall>v. f n = Inr v \<longrightarrow> P v \<Longrightarrow> list_all P vs \<and> set rest \<subseteq> set ns"
  by (induction ns arbitrary: vs rest) (fastforce simp: and_then_Inr_iff split: if_splits)+

lemma update_node_ok:
  assumes "texts_valid n" "update_node (ch_new n) = Inr (s, c)"
  shows "statement_ok s"
proof -
  from assms(2) obtain name c1 a c2 as rest w where s: "take_then ''Identifier'' identifier_of (ch_new n) = Inr (name, c1)"
    "take_then ''Assignment'' parse_assignment c1 = Inr (a, c2)" "take_while ''Assignment'' parse_assignment (ch_rest c2) = Inr (as, rest)"
    "optional_then ''Where'' (only_then ''Expr'' parse_expr) (c2\<lparr>ch_rest := rest\<rparr>) = Inr (w, c)" "s = SUpdate name (a # as) w"
    by (auto simp: update_node_def where_clause_def and_then_Inr_iff)
  have as: "\<forall>m \<in> set (node_children n). \<forall>v. parse_assignment m = Inr v \<longrightarrow> assignment_ok v"
    using assignment_node_ok texts_valid_child [OF assms(1)] by blast
  from name_taken_ok [OF assms(1) s(1)] have n: "name_ok name" "set (ch_rest c1) \<subseteq> set (node_children n)" by auto
  from take_then_ok [OF s(2) n(2)] as have a: "assignment_ok a" "set (ch_rest c2) \<subseteq> set (node_children n)" by auto
  have l: "list_all assignment_ok as \<and> set rest \<subseteq> set (ch_rest c2)"
    by (rule take_while_ok [OF s(3)]) (use a(2) as in blast)
  have "set (ch_rest (c2\<lparr>ch_rest := rest\<rparr>)) \<subseteq> set (node_children n)" using l a(2) by auto
  from clause_ok [where P = expr_ok, OF assms(1) s(4) this only_parse_ok] n(1) a(1) l s(5) show ?thesis by simp
qed

lemma delete_node_ok:
  assumes "texts_valid n" "delete_node (ch_new n) = Inr (s, c)"
  shows "statement_ok s"
proof -
  from assms(2) obtain name c1 w where s: "take_then ''Identifier'' identifier_of (ch_new n) = Inr (name, c1)"
    "optional_then ''Where'' (only_then ''Expr'' parse_expr) c1 = Inr (w, c)" "s = SDelete name w"
    by (auto simp: delete_node_def where_clause_def and_then_Inr_iff)
  from name_taken_ok [OF assms(1) s(1)] have n: "name_ok name" "set (ch_rest c1) \<subseteq> set (node_children n)" by auto
  from clause_ok [where P = expr_ok, OF assms(1) s(2) n(2) only_parse_ok] n(1) s(3) show ?thesis by simp
qed

lemma statement_node_ok: "texts_valid n \<Longrightarrow> statement_node n = Inr s \<Longrightarrow> statement_ok s"
  by (auto simp: statement_node_def and_then_Inr_iff split: if_splits
      dest: select_node_ok create_table_node_ok insert_node_ok update_node_ok delete_node_ok)

lemma statements_ok:
  assumes "texts_valid root" "statements root = Inr ss"
  shows "list_all statement_ok ss"
  unfolding list_all_iff
proof
  fix s assume "s \<in> set ss"
  with assms(2) obtain m where m: "m \<in> set (node_children root)" "parse_statement m = Inr s" "node_rule m = ''Statement''"
    by (auto simp: statements_def split: if_splits dest!: try_map_set)
  then obtain k where k: "node_children m = [k]" "statement_node k = Inr s"
    by (auto simp: parse_statement_def split: list.splits)
  have "texts_valid k" using texts_valid_child [OF texts_valid_child [OF assms(1) m(1)], of k] k(1) by simp
  from statement_node_ok [OF this k(2)] show "statement_ok s" .
qed

section \<open>From text to statements\<close>

lemma parse_root_tree:
  assumes "peg_validate rules = Some (Inr names)" "is_str (sr_bytes input)" "parse_root rules names input = Inr tree"
  shows "texts_valid tree"
  using valid_grammar.tree_nodes_ok [OF valid_grammar.intro [OF assms(1)] assms(2), of "rule_name (hd rules)"] assms(3)
  by (auto simp: parse_root_def intro: node_ok_texts)

lemma parse_with_ok:
  assumes "peg_validate rules = Some (Inr names)" "is_str (sr_bytes input)" "parse_with rules names input = Inr ss"
  shows "list_all statement_ok ss"
  using assms(3) parse_root_tree [OF assms(1,2)] statements_ok by (auto simp: parse_with_def and_then_Inr_iff)

text \<open>
  C39: Names and strings mean what is written. A string literal leaf yields a value exactly when
  its text is that value between single quotes with inner quotes doubled; a quoted identifier
  likewise with double quotes, keeping case, and never empty; a bare identifier yields its text
  folded to lower case exactly when it is a word that is not reserved.
\<close>

theorem token_values:
  "(parse_literal (Node ''String'' text a b []) = Inr l \<longleftrightarrow>
      (\<exists>v. l = LitString v \<and> sr_bytes text = quoted (CHR 0x27) v)) \<and>
   (identifier_of (Node ''Identifier'' t a b [Node ''QuotedIdentifier'' text c d []]) = Inr v \<longleftrightarrow>
      v \<noteq> [] \<and> sr_bytes text = quoted (CHR 0x22) v) \<and>
   (identifier_of (Node ''Identifier'' t a b [Node ''BareIdentifier'' text c d []]) = Inr v \<longleftrightarrow>
      sr_bytes text \<noteq> [] \<and> (is_ascii_alphabetic (hd (sr_bytes text)) \<or> hd (sr_bytes text) = CHR 0x5F) \<and>
      list_all word_char (sr_bytes text) \<and> \<not> list_ex (\<lambda>word. eq_ignore_ascii_case word (sr_bytes text)) RESERVED \<and>
      v = map ascii_lower (sr_bytes text))"
  by (auto simp: parse_literal_def identifier_of_def bare_identifier_def unquote_quoted and_then_Inr_iff leaf_Inr split: if_splits)

text \<open>A grammar of the SQL shape small enough for the examples.\<close>

definition table_grammar :: "rule list" where
  "table_grammar = [
     \<lparr>rule_name = ''Root'', rule_expr = Ref ''Statement''\<rparr>,
     \<lparr>rule_name = ''Statement'', rule_expr = Ref ''CreateTable''\<rparr>,
     \<lparr>rule_name = ''CreateTable'', rule_expr = Seq [Lit ''create '' False, Ref ''Identifier'', Lit ''('' False, Ref ''ColumnDef'', Lit '')'' False]\<rparr>,
     \<lparr>rule_name = ''ColumnDef'', rule_expr = Seq [Ref ''Identifier'', Lit '' '' False, Ref ''DataType'']\<rparr>,
     \<lparr>rule_name = ''DataType'', rule_expr = Ref ''IntegerType''\<rparr>,
     \<lparr>rule_name = ''IntegerType'', rule_expr = Lit ''INT'' True\<rparr>,
     \<lparr>rule_name = ''Identifier'', rule_expr = Ref ''BareIdentifier''\<rparr>,
     \<lparr>rule_name = ''BareIdentifier'', rule_expr = Class [(97, 122)] False\<rparr>]"

definition table_text :: str_ref where
  "table_text = \<lparr>sr_ptr = 0, sr_bytes = ''create t(a int)''\<rparr>"

lemma table_grammar_valid: "peg_validate table_grammar = Some (Inr (index_of table_grammar))"
  by (rule validate_accepts) code_simp

interpretation table_sql: valid_grammar table_grammar "index_of table_grammar"
  by unfold_locales (rule table_grammar_valid)

lemma table_text_valid: "is_str (sr_bytes table_text)"
  by (rule ascii_is_str) (simp add: table_text_def)

lemma table_grammar_names:
  "index_of table_grammar ''Statement'' = Some 1" "index_of table_grammar ''CreateTable'' = Some 2"
  "index_of table_grammar ''ColumnDef'' = Some 3" "index_of table_grammar ''DataType'' = Some 4"
  "index_of table_grammar ''IntegerType'' = Some 5" "index_of table_grammar ''Identifier'' = Some 6"
  "index_of table_grammar ''BareIdentifier'' = Some 7"
  by code_simp+

lemma table_grammar_rules:
  "hd table_grammar = \<lparr>rule_name = ''Root'', rule_expr = Ref ''Statement''\<rparr>"
  "find (\<lambda>r. rule_name r = ''Root'') table_grammar = Some \<lparr>rule_name = ''Root'', rule_expr = Ref ''Statement''\<rparr>"
  "table_grammar ! Suc 0 = \<lparr>rule_name = ''Statement'', rule_expr = Ref ''CreateTable''\<rparr>"
  "table_grammar ! 2 = \<lparr>rule_name = ''CreateTable'', rule_expr = Seq [Lit ''create '' False, Ref ''Identifier'', Lit ''('' False, Ref ''ColumnDef'', Lit '')'' False]\<rparr>"
  "table_grammar ! 3 = \<lparr>rule_name = ''ColumnDef'', rule_expr = Seq [Ref ''Identifier'', Lit '' '' False, Ref ''DataType'']\<rparr>"
  "table_grammar ! 4 = \<lparr>rule_name = ''DataType'', rule_expr = Ref ''IntegerType''\<rparr>"
  "table_grammar ! 5 = \<lparr>rule_name = ''IntegerType'', rule_expr = Lit ''INT'' True\<rparr>"
  "table_grammar ! 6 = \<lparr>rule_name = ''Identifier'', rule_expr = Ref ''BareIdentifier''\<rparr>"
  "table_grammar ! 7 = \<lparr>rule_name = ''BareIdentifier'', rule_expr = Class [(97, 122)] False\<rparr>"
  by (simp_all add: table_grammar_def)

definition table_tree :: node where
  "table_tree =
     (let t = (\<lambda>a b. str_slice table_text a b);
          word = (\<lambda>a b. Node ''Identifier'' (t a b) a b [Node ''BareIdentifier'' (t a b) a b []]);
          ty = Node ''DataType'' (t 11 14) 11 14 [Node ''IntegerType'' (t 11 14) 11 14 []];
          col = Node ''ColumnDef'' (t 9 14) 9 14 [word 9 10, ty] in
      Node ''Root'' (t 0 15) 0 15 [Node ''Statement'' (t 0 15) 0 15 [Node ''CreateTable'' (t 0 15) 0 15 [word 7 8, col]]])"

lemma int_ignoring_case: "eq_ignore_ascii_case ''int'' ''INT''"
  by code_simp

lemma table_text_tree: "parse_root table_grammar (index_of table_grammar) table_text = Inr table_tree"
  by (simp add: parse_root_def parse_rule_def table_grammar_names table_grammar_rules depth_limit_def rule_frame_def expr_frame_def Let_def
      table_text_def lit_body_def class_body_def in_class_def str_get_def str_slice_def char_boundary_def continuation_def
      int_ignoring_case silent_def table_tree_def)

lemma table_tree_statements:
  "statements table_tree = Inr [SCreateTable ''t'' [\<lparr>cd_name = ''a'', cd_type = DInteger, cd_constraints = []\<rparr>]]"
proof -
  have tr: "trivia []" by (subst trivia.simps) simp
  have "\<not> list_ex (\<lambda>word. eq_ignore_ascii_case word [c]) RESERVED" for c
    by (auto simp: RESERVED_def eq_ignore_ascii_case_def)
  then show ?thesis
    by (simp add: table_tree_def Let_def table_text_def str_slice_def statements_def parse_statement_def statement_node_def
        create_table_node_def take_then_def take_some_def ch_take_def ch_new_def ch_finish_def emptied_def identifier_of_def
        bare_identifier_def leaf_def is_ascii_alphabetic_def word_char_def ascii_lower_def parse_column_def_def parse_data_type_def
        simple_types_def token_def starts_token_def str_get_def char_boundary_def int_ignoring_case tr)
qed

lemma table_text_parses:
  "parse_with table_grammar (index_of table_grammar) table_text =
     Inr [SCreateTable ''t'' [\<lparr>cd_name = ''a'', cd_type = DInteger, cd_constraints = []\<rparr>]]"
  by (simp add: parse_with_def table_text_tree table_tree_statements)

end
