(* ===== verification/SqlPipeline.thy ===== *)
theory SqlPipeline
  imports CatalogBinding TransformSpec
begin

text \<open>
  SQL text through the parser, the binder and the catalog: what the parser guarantees of names is
  what the binder and the catalog's record format need.
\<close>

text \<open>
  C5: \<^verbatim>\<open>CREATE TABLE\<close> end to end. A declaration parsed from valid UTF-8 text and accepted by the binder
  against a consistent catalog is carried out by the catalog: the table is created, and
  \<^verbatim>\<open>SELECT *\<close> from it then binds with the declared column names and types in order; or the buffer
  pool fails, or the record is too big. The catalog's own checks (an existing name, an invalid
  declaration) never reject what parser and binder let through.
\<close>

theorem create_table_from_sql:
  assumes "peg_validate rules = Some (Inr names)" "is_str (sr_bytes input)"
    and "parse_with rules names input = Inr ss" "SCreateTable name columns \<in> set ss"
    and "page_store so swf contents" "pool_inv swf contents H s" "catalog_ok (pool_view contents s) cat"
    and "bind_statement (heap_get_table cat) (SCreateTable name columns) = Inr (BCreateTable d)"
    and "catalog_create_table so vs d (cat, s) = (r, (cat', s'))"
  shows "case r of
      Inr src \<Rightarrow> \<exists>q. bind_statement (heap_get_table cat') (SSelect [Wildcard] (Some name) None [] None []) = Inr (BSelect q) \<and>
        map ne_name (se_projection q) = map cd_name columns \<and>
        map (be_type \<circ> ne_expr) (se_projection q) = map cc_type (ct_columns d)
    | Inl e \<Rightarrow> (\<exists>h. e = Heap h \<and> infra h) \<or> (\<exists>msg. e = InvalidMetadata msg \<and> record_limit msg)"
proof -
  from parse_with_ok [OF assms(1-3)] assms(4) have "statement_ok (SCreateTable name columns)" unfolding list_all_iff by blast
  then have n: "is_str name" "\<forall>c \<in> set columns. is_str (cd_name c)"
    by (auto simp: list_all_iff column_tokens_ok_def name_ok_def)
  show ?thesis by (rule bound_table_created [OF assms(5-7) n assms(8,9)])
qed

theorem create_table_from_sql_witness:
  "\<exists>cat s r cs'. catalog_create memory_page_store clock_strategy small_pool = (Inr cat, s) \<and>
     catalog_create_table memory_page_store clock_strategy
       \<lparr>ct_name = ''t'', ct_columns = [\<lparr>cc_name = ''a'', cc_type = TInt32, cc_nullable = True\<rparr>], ct_constraints = []\<rparr> (cat, s) = (r, cs') \<and>
     (case r of
        Inr src \<Rightarrow> \<exists>q. bind_statement (heap_get_table (fst cs')) (SSelect [Wildcard] (Some ''t'') None [] None []) = Inr (BSelect q) \<and>
          map ne_name (se_projection q) = [''a'']
      | Inl e \<Rightarrow> e \<noteq> TableExists ''t'')"
proof -
  let ?d = "\<lparr>ct_name = ''t'', ct_columns = [\<lparr>cc_name = ''a'', cc_type = TInt32, cc_nullable = True\<rparr>], ct_constraints = []\<rparr>"
  let ?cols = "[\<lparr>cd_name = ''a'', cd_type = DInteger, cd_constraints = []\<rparr>]"
  obtain cat s where c: "catalog_create memory_page_store clock_strategy small_pool = (Inr cat, s)"
    "pool_inv memory_wf memory_contents {#} s" "catalog_ok (pool_view memory_contents s) cat"
    "catalog_defs cat = Map.empty" "\<not> cat_poisoned cat" by (rule small_catalog)
  have n: "map_of (cat_entries cat) ''t'' = None" using fun_cong [OF c(4), of "''t''"] by (simp add: catalog_defs_def)
  have b: "bind_statement (heap_get_table cat) (SCreateTable ''t'' ?cols) = Inr (BCreateTable ?d)"
    using n c(5) by (simp add: bind_create_table_def heap_get_table_def catalog_table_def map_ok_def)
  obtain r cat' s' where r: "catalog_create_table memory_page_store clock_strategy ?d (cat, s) = (r, (cat', s'))" by (metis surj_pair)
  have m: "SCreateTable ''t'' ?cols \<in> set [SCreateTable ''t'' ?cols]" by simp
  from create_table_from_sql [OF table_grammar_valid table_text_valid table_text_parses m mem.page_store_axioms c(2,3) b r] c(1) r
  show ?thesis by (intro exI [of _ cat] exI [of _ s] exI [of _ r] exI [of _ "(cat', s')"]) (auto split: sum.splits)
qed

end
