(* ===== verification/SqlGrammar.thy ===== *)
theory SqlGrammar
  imports TransformSpec
begin

text \<open>
  The SQL grammar of \<^verbatim>\<open>crates/parser/src/grammar.rs\<close>, rule by rule in the source's order, and
  \<^verbatim>\<open>parse_sql\<close>. The grammar passes validation, so everything proved of validated grammars holds of
  the SQL parser.
\<close>

section \<open>The rules\<close>

definition sql_rule :: "string \<Rightarrow> pexpr \<Rightarrow> rule" where
  "sql_rule n e = \<lparr>rule_name = n, rule_expr = e\<rparr>"

text \<open>The shape of every keyword rule: the word in any case, not followed by a word character, and trivia.\<close>

definition keyword_rule :: "string \<Rightarrow> string \<Rightarrow> rule" where
  "keyword_rule n word = sql_rule n (Seq [Lit word True, Predicate (Ref ''_ident_rest'') False, Ref ''_ws''])"

definition sql_rules :: "rule list" where
  "sql_rules = [
     sql_rule ''Root'' (Seq [Ref ''_ws'', Optional (Seq [Ref ''Statement'', Repeat (Seq [Ref ''_semi'',
       Ref ''Statement'']) False, Optional (Ref ''_semi'')])]),
     sql_rule ''Statement'' (Choice [Ref ''Select'', Ref ''CreateTable'', Ref ''Insert'', Ref ''Update'', Ref ''Delete'',
       Ref ''Begin'', Ref ''Commit'', Ref ''Rollback'']),
     sql_rule ''Select'' (Seq [Ref ''_select'', Ref ''Projection'', Optional (Ref ''From''), Optional (Ref ''Where''),
       Optional (Ref ''GroupBy''), Optional (Ref ''Having''), Optional (Ref ''OrderBy'')]),
     sql_rule ''Projection'' (Choice [Ref ''Star'', Seq [Ref ''ProjectionItem'', Repeat (Seq [Ref ''_comma'',
       Ref ''ProjectionItem'']) False]]),
     sql_rule ''ProjectionItem'' (Seq [Ref ''Expr'', Optional (Seq [Ref ''_as'', Ref ''Identifier'', Ref ''_ws''])]),
     sql_rule ''GroupBy'' (Seq [Ref ''_group'', Ref ''_by'', Ref ''Expr'', Repeat (Seq [Ref ''_comma'', Ref ''Expr'']) False]),
     sql_rule ''Having'' (Seq [Ref ''_having'', Ref ''Expr'']),
     sql_rule ''OrderBy'' (Seq [Ref ''_order'', Ref ''_by'', Ref ''OrderByExpr'', Repeat (Seq [Ref ''_comma'',
       Ref ''OrderByExpr'']) False]),
     sql_rule ''OrderByExpr'' (Seq [Ref ''Expr'', Optional (Ref ''SortDirection''), Optional (Ref ''NullOrder'')]),
     sql_rule ''SortDirection'' (Choice [Ref ''_asc'', Ref ''_desc'']),
     sql_rule ''NullOrder'' (Seq [Ref ''_nulls'', Choice [Ref ''_first'', Ref ''_last'']]),
     sql_rule ''FunctionCall'' (Seq [Ref ''Identifier'', Ref ''_ws'', Ref ''_lp'', Optional (Ref ''Distinct''),
       Optional (Ref ''Arguments''), Ref ''_rp'', Optional (Ref ''CallFilter''), Optional (Ref ''Over'')]),
     sql_rule ''Distinct'' (Ref ''_distinct''),
     sql_rule ''Arguments'' (Choice [Ref ''Star'', Seq [Ref ''Expr'', Repeat (Seq [Ref ''_comma'', Ref ''Expr'']) False]]),
     sql_rule ''CallFilter'' (Seq [Ref ''_filter'', Ref ''_lp'', Ref ''_where'', Ref ''Expr'', Ref ''_rp'']),
     sql_rule ''Over'' (Seq [Ref ''_over'', Ref ''WindowSpec'']),
     sql_rule ''WindowSpec'' (Seq [Ref ''_lp'', Optional (Ref ''PartitionBy''), Optional (Ref ''OrderBy''),
       Optional (Ref ''WindowFrame''), Ref ''_rp'']),
     sql_rule ''PartitionBy'' (Seq [Ref ''_partition'', Ref ''_by'', Ref ''Expr'', Repeat (Seq [Ref ''_comma'',
       Ref ''Expr'']) False]),
     sql_rule ''WindowFrame'' (Seq [Ref ''FrameUnits'', Choice [Ref ''Between'', Ref ''FrameBound'']]),
     sql_rule ''FrameUnits'' (Choice [Ref ''_rows'', Ref ''_range'']),
     sql_rule ''Between'' (Seq [Ref ''_between'', Ref ''FrameBound'', Ref ''_and'', Ref ''FrameBound'']),
     sql_rule ''FrameBound'' (Choice [Ref ''UnboundedPreceding'', Ref ''UnboundedFollowing'', Ref ''CurrentRow'',
       Ref ''Preceding'', Ref ''Following'']),
     sql_rule ''UnboundedPreceding'' (Seq [Ref ''_unbounded'', Ref ''_preceding'']),
     sql_rule ''UnboundedFollowing'' (Seq [Ref ''_unbounded'', Ref ''_following'']),
     sql_rule ''CurrentRow'' (Seq [Ref ''_current'', Ref ''_row'']),
     sql_rule ''Preceding'' (Seq [Ref ''Offset'', Ref ''_ws'', Ref ''_preceding'']),
     sql_rule ''Following'' (Seq [Ref ''Offset'', Ref ''_ws'', Ref ''_following'']),
     sql_rule ''Offset'' (Seq [Repeat (Class [(48, 57)] False) True, Predicate (Ref ''_ident_rest'') False]),
     sql_rule ''Star'' (Seq [Lit ''*'' False, Ref ''_ws'']),
     sql_rule ''From'' (Seq [Ref ''_from'', Ref ''Identifier'', Ref ''_ws'']),
     sql_rule ''Where'' (Seq [Ref ''_where'', Ref ''Expr'']),
     sql_rule ''CreateTable'' (Seq [Ref ''_create'', Ref ''_table'', Ref ''Identifier'', Ref ''_ws'', Ref ''_lp'',
       Ref ''ColumnDef'', Repeat (Seq [Ref ''_comma'', Ref ''ColumnDef'']) False, Ref ''_rp'']),
     sql_rule ''ColumnDef'' (Seq [Ref ''Identifier'', Ref ''_ws'', Ref ''DataType'', Repeat (Ref ''Constraint'') False]),
     sql_rule ''DataType'' (Choice [Ref ''IntegerType'', Ref ''BigIntType'', Ref ''TextType'', Ref ''BooleanType'',
       Ref ''RealType'', Ref ''DoubleType'', Ref ''VarcharType'']),
     sql_rule ''IntegerType'' (Seq [Choice [Lit ''INTEGER'' True, Lit ''INT'' True], Predicate (Ref ''_ident_rest'') False,
       Ref ''_ws'']),
     sql_rule ''BigIntType'' (Seq [Lit ''BIGINT'' True, Predicate (Ref ''_ident_rest'') False, Ref ''_ws'']),
     sql_rule ''TextType'' (Seq [Lit ''TEXT'' True, Predicate (Ref ''_ident_rest'') False, Ref ''_ws'']),
     sql_rule ''BooleanType'' (Seq [Choice [Lit ''BOOLEAN'' True, Lit ''BOOL'' True], Predicate (Ref ''_ident_rest'') False,
       Ref ''_ws'']),
     sql_rule ''RealType'' (Seq [Lit ''REAL'' True, Predicate (Ref ''_ident_rest'') False, Ref ''_ws'']),
     sql_rule ''DoubleType'' (Seq [Lit ''DOUBLE'' True, Predicate (Ref ''_ident_rest'') False, Ref ''_ws'']),
     sql_rule ''VarcharType'' (Seq [Lit ''VARCHAR'' True, Predicate (Ref ''_ident_rest'') False, Ref ''_ws'',
       Optional (Seq [Ref ''_lp'', Ref ''Length'', Ref ''_ws'', Ref ''_rp''])]),
     sql_rule ''Length'' (Repeat (Class [(48, 57)] False) True),
     sql_rule ''Constraint'' (Choice [Ref ''NotNull'', Ref ''PrimaryKey'', Ref ''Unique'']),
     sql_rule ''NotNull'' (Seq [Ref ''_not'', Ref ''_null'']),
     sql_rule ''PrimaryKey'' (Seq [Ref ''_primary'', Ref ''_key'']),
     sql_rule ''Unique'' (Ref ''_unique''),
     sql_rule ''Insert'' (Seq [Ref ''_insert'', Ref ''_into'', Ref ''Identifier'', Ref ''_ws'', Optional (Ref ''Columns''),
       Ref ''_values'', Ref ''Row'', Repeat (Seq [Ref ''_comma'', Ref ''Row'']) False]),
     sql_rule ''Columns'' (Seq [Ref ''_lp'', Ref ''Identifier'', Ref ''_ws'', Repeat (Seq [Ref ''_comma'', Ref ''Identifier'',
       Ref ''_ws'']) False, Ref ''_rp'']),
     sql_rule ''Row'' (Seq [Ref ''_lp'', Ref ''Expr'', Repeat (Seq [Ref ''_comma'', Ref ''Expr'']) False, Ref ''_rp'']),
     sql_rule ''Update'' (Seq [Ref ''_update'', Ref ''Identifier'', Ref ''_ws'', Ref ''_set'', Ref ''Assignment'',
       Repeat (Seq [Ref ''_comma'', Ref ''Assignment'']) False, Optional (Ref ''Where'')]),
     sql_rule ''Assignment'' (Seq [Ref ''Identifier'', Ref ''_ws'', Lit ''='' False, Ref ''_ws'', Ref ''Expr'']),
     sql_rule ''Delete'' (Seq [Ref ''_delete'', Ref ''_from'', Ref ''Identifier'', Ref ''_ws'', Optional (Ref ''Where'')]),
     sql_rule ''Begin'' (Ref ''_begin''),
     sql_rule ''Commit'' (Ref ''_commit''),
     sql_rule ''Rollback'' (Ref ''_rollback''),
     sql_rule ''Expr'' (Ref ''Or''),
     sql_rule ''Or'' (Seq [Ref ''And'', Repeat (Seq [Ref ''OrOp'', Ref ''And'']) False]),
     sql_rule ''OrOp'' (Ref ''_or''),
     sql_rule ''And'' (Seq [Ref ''Not'', Repeat (Seq [Ref ''AndOp'', Ref ''Not'']) False]),
     sql_rule ''AndOp'' (Ref ''_and''),
     sql_rule ''Not'' (Choice [Seq [Ref ''NotOp'', Ref ''Not''], Ref ''Comparison'']),
     sql_rule ''NotOp'' (Ref ''_not''),
     sql_rule ''Comparison'' (Seq [Ref ''Additive'', Optional (Choice [Seq [Ref ''CompareOp'', Ref ''Additive''],
       Ref ''IsNull''])]),
     sql_rule ''CompareOp'' (Seq [Choice [Lit ''<='' False, Lit ''>='' False, Lit ''<>'' False, Lit ''!='' False,
       Lit ''='' False, Lit ''<'' False, Lit ''>'' False], Ref ''_ws'']),
     sql_rule ''IsNull'' (Seq [Ref ''_is'', Optional (Ref ''IsNot''), Ref ''_null'']),
     sql_rule ''IsNot'' (Ref ''_not''),
     sql_rule ''Additive'' (Seq [Ref ''Multiplicative'', Repeat (Seq [Ref ''AddOp'', Ref ''Multiplicative'']) False]),
     sql_rule ''AddOp'' (Seq [Choice [Lit ''+'' False, Lit ''-'' False], Ref ''_ws'']),
     sql_rule ''Multiplicative'' (Seq [Ref ''Unary'', Repeat (Seq [Ref ''MulOp'', Ref ''Unary'']) False]),
     sql_rule ''MulOp'' (Seq [Choice [Lit ''*'' False, Lit ''/'' False, Lit ''%'' False], Ref ''_ws'']),
     sql_rule ''Unary'' (Choice [Seq [Ref ''UnaryOp'', Ref ''Unary''], Ref ''Primary'']),
     sql_rule ''UnaryOp'' (Seq [Choice [Lit ''+'' False, Lit ''-'' False], Ref ''_ws'']),
     sql_rule ''Primary'' (Choice [Seq [Ref ''Number'', Ref ''_ws''], Seq [Ref ''String'', Ref ''_ws''], Ref ''Null'',
       Ref ''True'', Ref ''False'', Ref ''FunctionCall'', Ref ''Name'', Seq [Ref ''_lp'', Ref ''Expr'', Ref ''_rp'']]),
     sql_rule ''Name'' (Seq [Ref ''Identifier'', Ref ''_ws'', Optional (Seq [Lit ''.'' False, Ref ''_ws'', Ref ''Identifier'',
       Ref ''_ws''])]),
     sql_rule ''Number'' (Seq [Choice [Seq [Repeat (Class [(48, 57)] False) True, Optional (Seq [Lit ''.'' False,
       Repeat (Class [(48, 57)] False) True])], Seq [Lit ''.'' False, Repeat (Class [(48, 57)] False) True]],
       Optional (Seq [Class [(101, 101), (69, 69)] False, Optional (Class [(43, 43), (45, 45)] False), Repeat (Class [(48,
       57)] False) True]), Predicate (Ref ''_ident_rest'') False]),
     sql_rule ''String'' (Seq [Lit [CHR 0x27] False, Repeat (Choice [Lit [CHR 0x27, CHR 0x27] False,
       Seq [Predicate (Lit [CHR 0x27] False) False, Any]]) False, Lit [CHR 0x27] False]),
     sql_rule ''Null'' (Ref ''_null''),
     sql_rule ''True'' (Ref ''_true''),
     sql_rule ''False'' (Ref ''_false''),
     sql_rule ''Identifier'' (Choice [Ref ''QuotedIdentifier'', Ref ''BareIdentifier'']),
     sql_rule ''QuotedIdentifier'' (Seq [Lit [CHR 0x22] False, Repeat (Choice [Lit [CHR 0x22, CHR 0x22] False,
       Seq [Predicate (Lit [CHR 0x22] False) False, Any]]) True, Lit [CHR 0x22] False]),
     sql_rule ''BareIdentifier'' (Seq [Predicate (Ref ''_reserved'') False, Class [(97, 122), (65, 90), (95, 95)] False,
       Repeat (Ref ''_ident_rest'') False]),
     sql_rule ''_ident_rest'' (Class [(97, 122), (65, 90), (95, 95), (48, 57)] False),
     sql_rule ''_reserved'' (Seq [Choice [Lit ''SELECT'' True, Lit ''FROM'' True, Lit ''WHERE'' True, Lit ''CREATE'' True,
       Lit ''TABLE'' True, Lit ''INSERT'' True, Lit ''INTO'' True, Lit ''VALUES'' True, Lit ''UPDATE'' True, Lit ''SET'' True,
       Lit ''DELETE'' True, Lit ''BEGIN'' True, Lit ''COMMIT'' True, Lit ''ROLLBACK'' True, Lit ''OR'' True, Lit ''AND'' True,
       Lit ''NOT'' True, Lit ''IS'' True, Lit ''NULL'' True, Lit ''TRUE'' True, Lit ''FALSE'' True, Lit ''PRIMARY'' True,
       Lit ''KEY'' True, Lit ''UNIQUE'' True, Lit ''ORDER'' True, Lit ''BY'' True, Lit ''LIMIT'' True, Lit ''JOIN'' True,
       Lit ''AS'' True, Lit ''GROUP'' True, Lit ''HAVING'' True, Lit ''UNION'' True, Lit ''DISTINCT'' True, Lit ''ASC'' True,
       Lit ''DESC'' True, Lit ''NULLS'' True, Lit ''FIRST'' True, Lit ''LAST'' True, Lit ''FILTER'' True, Lit ''OVER'' True,
       Lit ''PARTITION'' True, Lit ''ROWS'' True, Lit ''RANGE'' True, Lit ''BETWEEN'' True, Lit ''UNBOUNDED'' True,
       Lit ''PRECEDING'' True, Lit ''FOLLOWING'' True, Lit ''CURRENT'' True, Lit ''ROW'' True],
       Predicate (Ref ''_ident_rest'') False]),
     keyword_rule ''_select'' ''SELECT'',
     keyword_rule ''_from'' ''FROM'',
     keyword_rule ''_where'' ''WHERE'',
     keyword_rule ''_create'' ''CREATE'',
     keyword_rule ''_table'' ''TABLE'',
     keyword_rule ''_insert'' ''INSERT'',
     keyword_rule ''_into'' ''INTO'',
     keyword_rule ''_values'' ''VALUES'',
     keyword_rule ''_update'' ''UPDATE'',
     keyword_rule ''_set'' ''SET'',
     keyword_rule ''_delete'' ''DELETE'',
     keyword_rule ''_begin'' ''BEGIN'',
     keyword_rule ''_commit'' ''COMMIT'',
     keyword_rule ''_rollback'' ''ROLLBACK'',
     keyword_rule ''_or'' ''OR'',
     keyword_rule ''_and'' ''AND'',
     keyword_rule ''_not'' ''NOT'',
     keyword_rule ''_is'' ''IS'',
     keyword_rule ''_null'' ''NULL'',
     keyword_rule ''_true'' ''TRUE'',
     keyword_rule ''_false'' ''FALSE'',
     keyword_rule ''_primary'' ''PRIMARY'',
     keyword_rule ''_key'' ''KEY'',
     keyword_rule ''_unique'' ''UNIQUE'',
     keyword_rule ''_as'' ''AS'',
     keyword_rule ''_group'' ''GROUP'',
     keyword_rule ''_by'' ''BY'',
     keyword_rule ''_having'' ''HAVING'',
     keyword_rule ''_order'' ''ORDER'',
     keyword_rule ''_asc'' ''ASC'',
     keyword_rule ''_desc'' ''DESC'',
     keyword_rule ''_nulls'' ''NULLS'',
     keyword_rule ''_first'' ''FIRST'',
     keyword_rule ''_last'' ''LAST'',
     keyword_rule ''_distinct'' ''DISTINCT'',
     keyword_rule ''_filter'' ''FILTER'',
     keyword_rule ''_over'' ''OVER'',
     keyword_rule ''_partition'' ''PARTITION'',
     keyword_rule ''_rows'' ''ROWS'',
     keyword_rule ''_range'' ''RANGE'',
     keyword_rule ''_between'' ''BETWEEN'',
     keyword_rule ''_unbounded'' ''UNBOUNDED'',
     keyword_rule ''_preceding'' ''PRECEDING'',
     keyword_rule ''_following'' ''FOLLOWING'',
     keyword_rule ''_current'' ''CURRENT'',
     keyword_rule ''_row'' ''ROW'',
     sql_rule ''_lp'' (Seq [Lit ''('' False, Ref ''_ws'']),
     sql_rule ''_rp'' (Seq [Lit '')'' False, Ref ''_ws'']),
     sql_rule ''_comma'' (Seq [Lit '','' False, Ref ''_ws'']),
     sql_rule ''_semi'' (Seq [Lit '';'' False, Ref ''_ws'']),
     sql_rule ''_ws'' (Repeat (Choice [Class [(32, 32), (9, 9), (13, 13), (10, 10)] False, Ref ''_line_comment'',
       Ref ''_block_comment'']) False),
     sql_rule ''_line_comment'' (Seq [Lit ''--'' False, Repeat (Seq [Predicate (Lit [CHR 0x0A] False) False, Any]) False,
       Choice [Lit [CHR 0x0A] False, Predicate Any False]]),
     sql_rule ''_block_comment'' (Seq [Lit ''/*'' False, Repeat (Seq [Predicate (Lit ''*/'' False) False, Any]) False,
       Lit ''*/'' False])]"

definition parse_sql :: "str_ref \<Rightarrow> parse_error + statement list" where
  "parse_sql input = parse_with sql_rules (index_of sql_rules) input"

section \<open>Validation\<close>

lemma sql_rules_valid: "peg_validate sql_rules = Some (Inr (index_of sql_rules))"
  by (rule validate_accepts) code_simp

interpretation sql: valid_grammar sql_rules "index_of sql_rules"
  by unfold_locales (rule sql_rules_valid)

section \<open>The SQL parser\<close>

lemma sql_root: "parse_root sql_rules names input = parse_rule sql_rules names ''Root'' input"
  by (simp add: parse_root_def sql_rules_def sql_rule_def)

lemma sql_root_known: "\<exists>i. index_of sql_rules ''Root'' = Some i"
proof -
  have "hd sql_rules \<in> set sql_rules" "rule_name (hd sql_rules) = ''Root''" by (simp_all add: sql_rules_def sql_rule_def)
  then have "''Root'' \<in> rule_name ` set sql_rules" by (metis imageI)
  then show ?thesis using index_of_None [of sql_rules "''Root''"] by auto
qed

lemma root_not_silent: "\<not> silent ''Root''"
  by (simp add: silent_def)

text \<open>
  C12: The SQL parser. On valid UTF-8 text the SQL grammar has exactly one result, and \<^verbatim>\<open>parse_sql\<close>
  reports it: \<^verbatim>\<open>Ok\<close> gives the statements of the one tree that matches the whole text, all
  lexically sound; an error says that a call budget is exhausted, or that the text does not match,
  or it is the transformation's objection to the matching tree.
\<close>

theorem parse_sql_correct:
  assumes "is_str (sr_bytes input)"
  shows "(\<exists>!r. peg sql_rules input (Ref ''Root'') 0 r) \<and>
    (case parse_sql input of
       Inr ss \<Rightarrow> list_all statement_ok ss \<and>
         (\<exists>tree. peg sql_rules input (Ref ''Root'') 0 (Some (length (sr_bytes input), [tree])) \<and> statements tree = Inr ss)
     | Inl e \<Rightarrow> pe_expected e = [RecursionLimit] \<or> pe_expected e = [WorkLimit] \<or>
         (\<forall>ns. \<not> peg sql_rules input (Ref ''Root'') 0 (Some (length (sr_bytes input), ns))) \<or>
         (\<exists>tree. peg sql_rules input (Ref ''Root'') 0 (Some (length (sr_bytes input), [tree])) \<and> statements tree = Inl e))"
proof -
  obtain i where i: "index_of sql_rules ''Root'' = Some i" using sql_root_known by blast
  note ans = sql.parse_answer [OF assms, of "''Root''"]
  show ?thesis
  proof (cases "parse_rule sql_rules (index_of sql_rules) ''Root'' input")
    case (Inl e)
    with ans i sql.total [OF i] show ?thesis by (auto simp: parse_sql_def parse_with_def sql_root)
  next
    case (Inr tree)
    with ans have p: "peg sql_rules input (Ref ''Root'') 0 (Some (length (sr_bytes input), [tree]))" by (simp add: root_not_silent)
    show ?thesis
    proof (cases "statements tree")
      case Inl': (Inl e)
      with p Inr sql.total [OF i] show ?thesis by (auto simp: parse_sql_def parse_with_def sql_root)
    next
      case Inr': (Inr ss)
      with Inr have "parse_with sql_rules (index_of sql_rules) input = Inr ss" by (simp add: parse_with_def sql_root)
      with p Inr' sql.total [OF i] parse_with_ok [OF sql_rules_valid assms this] show ?thesis by (auto simp: parse_sql_def)
    qed
  qed
qed

theorem parse_sql_correct_witness:
  "(\<exists>!r. peg sql_rules \<lparr>sr_ptr = 0, sr_bytes = ''select 1''\<rparr> (Ref ''Root'') 0 r) \<and>
   (case parse_sql \<lparr>sr_ptr = 0, sr_bytes = ''select 1''\<rparr> of
      Inr ss \<Rightarrow> list_all statement_ok ss \<and>
        (\<exists>tree. peg sql_rules \<lparr>sr_ptr = 0, sr_bytes = ''select 1''\<rparr> (Ref ''Root'') 0 (Some (8, [tree])) \<and> statements tree = Inr ss)
    | Inl e \<Rightarrow> pe_expected e = [RecursionLimit] \<or> pe_expected e = [WorkLimit] \<or>
        (\<forall>ns. \<not> peg sql_rules \<lparr>sr_ptr = 0, sr_bytes = ''select 1''\<rparr> (Ref ''Root'') 0 (Some (8, ns))) \<or>
        (\<exists>tree. peg sql_rules \<lparr>sr_ptr = 0, sr_bytes = ''select 1''\<rparr> (Ref ''Root'') 0 (Some (8, [tree])) \<and> statements tree = Inl e))"
proof -
  have "is_str (sr_bytes \<lparr>sr_ptr = 0, sr_bytes = ''select 1''\<rparr>)" by (rule ascii_is_str) simp
  note result = parse_sql_correct [OF this]
  have "length (sr_bytes \<lparr>sr_ptr = 0, sr_bytes = ''select 1''\<rparr>) = 8" by simp
  with result show ?thesis by (simp only: split: sum.splits)
qed

section \<open>Reserved words\<close>

text \<open>An ordered choice of literals commits to the first that matches.\<close>

lemma peg_literal_choice:
  "peg rules inp (Choice (map (\<lambda>w. Lit w True) ws)) p
     (map_option (\<lambda>w. (p + length w, [])) (find (\<lambda>w. lit_matches inp p w True) ws))"
proof (induction ws)
  case (Cons w ws)
  show ?case
  proof (cases "lit_matches inp p w True")
    case True
    with p_lit [of rules inp w True p] show ?thesis by (auto intro: p_choice)
  next
    case False
    with p_lit [of rules inp w True p] Cons show ?thesis by (auto intro: p_choice_next)
  qed
qed (simp add: p_choice_nil)

lemma upper_letters:
  "ascii_lower CHR ''A'' = CHR ''a''" "ascii_lower CHR ''B'' = CHR ''b''" "ascii_lower CHR ''C'' = CHR ''c''"
  "ascii_lower CHR ''D'' = CHR ''d''" "ascii_lower CHR ''E'' = CHR ''e''" "ascii_lower CHR ''F'' = CHR ''f''"
  "ascii_lower CHR ''G'' = CHR ''g''" "ascii_lower CHR ''H'' = CHR ''h''" "ascii_lower CHR ''I'' = CHR ''i''"
  "ascii_lower CHR ''J'' = CHR ''j''" "ascii_lower CHR ''K'' = CHR ''k''" "ascii_lower CHR ''L'' = CHR ''l''"
  "ascii_lower CHR ''M'' = CHR ''m''" "ascii_lower CHR ''N'' = CHR ''n''" "ascii_lower CHR ''O'' = CHR ''o''"
  "ascii_lower CHR ''P'' = CHR ''p''" "ascii_lower CHR ''Q'' = CHR ''q''" "ascii_lower CHR ''R'' = CHR ''r''"
  "ascii_lower CHR ''S'' = CHR ''s''" "ascii_lower CHR ''T'' = CHR ''t''" "ascii_lower CHR ''U'' = CHR ''u''"
  "ascii_lower CHR ''V'' = CHR ''v''" "ascii_lower CHR ''W'' = CHR ''w''" "ascii_lower CHR ''X'' = CHR ''x''"
  "ascii_lower CHR ''Y'' = CHR ''y''" "ascii_lower CHR ''Z'' = CHR ''z''"
  by code_simp+

lemma lower_letters:
  "ascii_lower CHR ''a'' = CHR ''a''" "ascii_lower CHR ''b'' = CHR ''b''" "ascii_lower CHR ''c'' = CHR ''c''"
  "ascii_lower CHR ''d'' = CHR ''d''" "ascii_lower CHR ''e'' = CHR ''e''" "ascii_lower CHR ''f'' = CHR ''f''"
  "ascii_lower CHR ''g'' = CHR ''g''" "ascii_lower CHR ''h'' = CHR ''h''" "ascii_lower CHR ''i'' = CHR ''i''"
  "ascii_lower CHR ''j'' = CHR ''j''" "ascii_lower CHR ''k'' = CHR ''k''" "ascii_lower CHR ''l'' = CHR ''l''"
  "ascii_lower CHR ''m'' = CHR ''m''" "ascii_lower CHR ''n'' = CHR ''n''" "ascii_lower CHR ''o'' = CHR ''o''"
  "ascii_lower CHR ''p'' = CHR ''p''" "ascii_lower CHR ''q'' = CHR ''q''" "ascii_lower CHR ''r'' = CHR ''r''"
  "ascii_lower CHR ''s'' = CHR ''s''" "ascii_lower CHR ''t'' = CHR ''t''" "ascii_lower CHR ''u'' = CHR ''u''"
  "ascii_lower CHR ''v'' = CHR ''v''" "ascii_lower CHR ''w'' = CHR ''w''" "ascii_lower CHR ''x'' = CHR ''x''"
  "ascii_lower CHR ''y'' = CHR ''y''" "ascii_lower CHR ''z'' = CHR ''z''"
  by (simp_all add: ascii_lower_def)

lemma reserved_rule:
  obtains i where "index_of sql_rules ''_reserved'' = Some i"
    "rule_expr (sql_rules ! i) = Seq [Choice (map (\<lambda>w. Lit w True) RESERVED), Predicate (Ref ''_ident_rest'') False]"
proof -
  have "index_of sql_rules ''_reserved'' = Some 83" by code_simp
  moreover have "rule_expr (sql_rules ! 83) = Seq [Choice (map (\<lambda>w. Lit w True) RESERVED), Predicate (Ref ''_ident_rest'') False]"
    by (simp add: sql_rules_def sql_rule_def RESERVED_def)
  ultimately show thesis using that by blast
qed

lemma ident_rest_rule:
  obtains i where "index_of sql_rules ''_ident_rest'' = Some i" "rule_name (sql_rules ! i) = ''_ident_rest''"
    "rule_expr (sql_rules ! i) = Class [(97, 122), (65, 90), (95, 95), (48, 57)] False"
proof -
  have "index_of sql_rules ''_ident_rest'' = Some 82" by code_simp
  moreover have "rule_name (sql_rules ! 82) = ''_ident_rest''" "rule_expr (sql_rules ! 82) = Class [(97, 122), (65, 90), (95, 95), (48, 57)] False"
    by (simp_all add: sql_rules_def sql_rule_def)
  ultimately show thesis using that by blast
qed

text \<open>The choice commits to a shorter reserved word, and the word character after it then fails the rule.\<close>

lemma reserved_shadowed:
  assumes "find (\<lambda>w. lit_matches inp 0 w True) RESERVED = Some w" "char_at inp (length w) = Some (c, len)"
    and "in_class [(97, 122), (65, 90), (95, 95), (48, 57)] c"
  shows "peg sql_rules inp (Ref ''_reserved'') 0 None"
proof -
  obtain i where i: "index_of sql_rules ''_reserved'' = Some i"
    "rule_expr (sql_rules ! i) = Seq [Choice (map (\<lambda>w. Lit w True) RESERVED), Predicate (Ref ''_ident_rest'') False]" by (rule reserved_rule)
  obtain j where j: "index_of sql_rules ''_ident_rest'' = Some j" "rule_name (sql_rules ! j) = ''_ident_rest''"
    "rule_expr (sql_rules ! j) = Class [(97, 122), (65, 90), (95, 95), (48, 57)] False" by (rule ident_rest_rule)
  have ch: "peg sql_rules inp (Choice (map (\<lambda>w. Lit w True) RESERVED)) 0 (Some (length w, []))"
    using peg_literal_choice [of sql_rules inp RESERVED 0] assms(1) by simp
  have "peg sql_rules inp (rule_expr (sql_rules ! j)) (length w) (Some (length w + len, []))"
    using p_class [OF assms(2), of sql_rules "[(97, 122), (65, 90), (95, 95), (48, 57)]" False] assms(3) j(3) by simp
  from p_ref [OF j(1) this] have "peg sql_rules inp (Predicate (Ref ''_ident_rest'') False) (length w) None"
    using p_predicate [of sql_rules inp "Ref ''_ident_rest''" "length w" _ False] by fastforce
  from p_seq [OF ch p_seq_fail [OF this, of "[]"]] i show ?thesis by (auto intro: p_ref_fail)
qed

text \<open>
  The words \<^verbatim>\<open>ORDER\<close>, \<^verbatim>\<open>ASC\<close> and \<^verbatim>\<open>NULLS\<close> are listed as reserved, but the grammar's rule for reserved
  words does not match them: \<^verbatim>\<open>OR\<close>, \<^verbatim>\<open>AS\<close> and \<^verbatim>\<open>NULL\<close> come first in the ordered choice. The grammar takes
  them as identifiers; only the transformation rejects them.
\<close>

theorem reserved_words_not_matched:
  "w \<in> {''order'', ''asc'', ''nulls''} \<Longrightarrow>
    peg sql_rules \<lparr>sr_ptr = 0, sr_bytes = w\<rparr> (Ref ''_reserved'') 0 None \<and>
    list_ex (\<lambda>word. eq_ignore_ascii_case word w) RESERVED"
proof -
  let ?m = "\<lambda>s. find (\<lambda>w. lit_matches \<lparr>sr_ptr = 0, sr_bytes = s\<rparr> 0 w True) RESERVED"
  have o: "?m ''order'' = Some ''OR''" and a: "?m ''asc'' = Some ''AS''" and n: "?m ''nulls'' = Some ''NULL''"
    by (simp_all add: RESERVED_def lit_matches_def str_get_def str_slice_def char_boundary_def continuation_def
        eq_ignore_ascii_case_def lower_letters upper_letters)
  assume "w \<in> {''order'', ''asc'', ''nulls''}"
  then show ?thesis
    using reserved_shadowed [OF o] reserved_shadowed [OF a] reserved_shadowed [OF n]
    by (auto simp: char_at_def in_class_def RESERVED_def eq_ignore_ascii_case_def lower_letters upper_letters)
qed

end
