(* ===== verification/DataFusion.thy ===== *)
theory DataFusion
  imports Ctid BinderSpec
begin

text \<open>
  What the planner builds and what it calls. The Arrow and DataFusion values that the sources
  construct are data, with the constructors the sources name and one more for everything they
  never build. The operations of DataFusion (schema construction and lookup, type inference,
  relational node constructors, invariant checks) are fields of the record \<open>datafusion\<close>, an
  argument of every definition that calls one. The second part models
  \<^verbatim>\<open>crates/planner/src/table_source.rs\<close>.
\<close>

section \<open>Values\<close>

datatype arrow_type =
  ANull | ABoolean | AInt32 | AInt64 | AUInt32 | AFloat32 | AFloat64 | AUtf8 | AFixedSizeBinary nat | AOther string

datatype scalar_value =
  SvNull
| SvBoolean "bool option" | SvInt32 "u32 option" | SvInt64 "u64 option" | SvUInt32 "u32 option" | SvUInt64 "u64 option"
| SvFloat32 "u32 option" | SvFloat64 "f64 option" | SvUtf8 "string option"
| SvOther string

record arrow_field =
  af_name :: string
  af_type :: arrow_type
  af_nullable :: bool

text \<open>\<^verbatim>\<open>datafusion_common::Column\<close>: an optional relation and a name.\<close>

datatype df_column = DfColumn (dc_relation: "string option") (dc_name: string)

abbreviation column_named :: "string \<Rightarrow> df_column" where
  "column_named name \<equiv> DfColumn None name"

datatype df_operator =
  DfOr | DfAnd | DfEq | DfNotEq | DfLt | DfLtEq | DfGt | DfGtEq | DfPlus | DfMinus | DfMultiply | DfDivide | DfModulo

datatype udaf = CountUdaf | SumUdaf | AvgUdaf | MinUdaf | MaxUdaf

datatype window_definition = AggregateUDF udaf | RowNumberUdwf | RankUdwf | DenseRankUdwf

datatype df_frame_bound = DfPreceding scalar_value | DfCurrentRow | DfFollowing scalar_value

datatype df_frame = DfFrame (df_units: frame_units) (df_start: df_frame_bound) (df_stop: df_frame_bound)

datatype 'e df_sort = DfSort (so_expr: 'e) (so_ascending: bool) (so_nulls_first: bool)

text \<open>
  \<^verbatim>\<open>Expr\<close>. An aggregate has the function, its arguments, \<^verbatim>\<open>DISTINCT\<close> and \<^verbatim>\<open>FILTER\<close>; a window
  also its partition, ordering and frame.
\<close>

datatype df_expr =
  ELiteral scalar_value
| EColumn df_column
| ENot df_expr
| ENegative df_expr
| EBinary df_expr df_operator df_expr
| ECast df_expr arrow_type
| EIsNull df_expr
| EIsNotNull df_expr
| EAggregate udaf "df_expr list" bool "df_expr option"
| EWindow window_definition "df_expr list" "df_expr list" "df_expr df_sort list" "df_expr option" bool df_frame
| EAlias df_expr string
| EOther string

section \<open>Errors\<close>

text \<open>
  \<^verbatim>\<open>DataFusionError\<close>: \<open>DfPlan\<close>, \<open>DfIncompatible\<close> and \<open>DfCtid\<close> are the \<^verbatim>\<open>Plan\<close> errors the
  planner crate raises itself, the latter two with formatted messages; \<open>Upstream\<close> is an error a
  DataFusion operation returned. \<open>DfPanic\<close> marks an index that would panic.
\<close>

datatype 'x df_error = DfPlan string | DfIncompatible df_column | DfCtid | DfPanic | Upstream 'x

datatype 'x plan_error =
  InvalidBound string
| UnavailableColumn column_binding
| PlanTooDeep
| DataFusionError "'x df_error"

section \<open>Table modifications\<close>

record update_assignment =
  ua_target :: nat
  ua_value :: df_column

datatype modification =
  MInsert "df_column list"
| MUpdate df_column "update_assignment list"
| MDelete df_column

record ('p, 's) modify_table =
  mt_target :: bound_table
  mt_input :: 'p
  mt_operation :: modification
  mt_schema :: 's

section \<open>Table sources\<close>

definition ctid_type :: arrow_type where
  "ctid_type = AFixedSizeBinary BYTE_LEN"

fun arrow_of :: "logical_type \<Rightarrow> arrow_type" where
  "arrow_of TNull = ANull"
| "arrow_of TBoolean = ABoolean"
| "arrow_of TInt32 = AInt32"
| "arrow_of TInt64 = AInt64"
| "arrow_of TUint32 = AUInt32"
| "arrow_of TFloat32 = AFloat32"
| "arrow_of TFloat64 = AFloat64"
| "arrow_of TText = AUtf8"
| "arrow_of (TVarchar n) = AUtf8"

definition qualifier :: "u32 \<Rightarrow> string" where
  "qualifier relation = ''__r'' @ show_nat (unat relation)"

definition column_of :: "column_binding \<Rightarrow> df_column" where
  "column_of b = DfColumn (Some (qualifier (cb_relation b))) (''__c'' @ show_nat (cb_index b))"

definition ctid_column :: "bound_table \<Rightarrow> df_column" where
  "ctid_column table = DfColumn (Some (qualifier (bt_relation table))) ''__ctid''"

record table_adapter =
  ta_table :: bound_table
  ta_with_ctid :: bool
  ta_schema :: "arrow_field list"

definition adapter_new :: "bound_table \<Rightarrow> bool \<Rightarrow> table_adapter" where
  "adapter_new table with_ctid =
     (let fields = map (\<lambda>(index, column). \<lparr>af_name = ''__c'' @ show_nat index, af_type = arrow_of (col_type column),
            af_nullable = col_nullable column\<rparr>) (enumerate 0 (source_columns table));
          fields = (if with_ctid then fields @ [\<lparr>af_name = ''__ctid'', af_type = ctid_type, af_nullable = False\<rparr>] else fields)
      in \<lparr>ta_table = table, ta_with_ctid = with_ctid, ta_schema = fields\<rparr>)"

section \<open>Operations\<close>

text \<open>
  Type \<open>'p\<close> is \<^verbatim>\<open>LogicalPlan\<close>, \<open>'s\<close> is \<^verbatim>\<open>DFSchema\<close>, \<open>'x\<close> the errors DataFusion returns. The fields
  stand, in this order, for \<^verbatim>\<open>ScalarValue::try_from\<close>; \<^verbatim>\<open>DFSchema::empty\<close>, \<^verbatim>\<open>DFSchema::try_from\<close>, \<^verbatim>\<open>fields\<close>,
  \<^verbatim>\<open>columns\<close>, \<^verbatim>\<open>index_of_column\<close>, \<^verbatim>\<open>field_from_column\<close>; \<^verbatim>\<open>Expr::get_type\<close>; \<^verbatim>\<open>LogicalPlan::schema\<close>;
  \<^verbatim>\<open>LogicalPlanBuilder\<close>'s \<^verbatim>\<open>scan\<close>, \<^verbatim>\<open>empty(true)\<close>, \<^verbatim>\<open>values_with_schema\<close> and \<^verbatim>\<open>project\<close>, each with
  \<^verbatim>\<open>build\<close>; replacing the schema of a \<^verbatim>\<open>Values\<close> node, \<^verbatim>\<open>None\<close> for any other plan; \<^verbatim>\<open>Filter\<close>, \<^verbatim>\<open>Aggregate\<close>,
  \<^verbatim>\<open>Window\<close> and \<^verbatim>\<open>Projection::try_new\<close>, the \<^verbatim>\<open>Sort\<close> node; wrapping a \<^verbatim>\<open>ModifyTable\<close> as an extension
  node and downcasting one; the test for \<^verbatim>\<open>Dml\<close>, \<^verbatim>\<open>Ddl\<close>, \<^verbatim>\<open>Statement\<close> and \<^verbatim>\<open>Copy\<close> nodes; the plans
  \<^verbatim>\<open>apply_with_subqueries\<close> visits, in order; and \<^verbatim>\<open>check_invariants(Executable)\<close>.
\<close>

record ('p, 's, 'x) datafusion =
  null_scalar :: "arrow_type \<Rightarrow> 'x + scalar_value"
  empty_schema :: 's
  schema_try_from :: "arrow_field list \<Rightarrow> 'x + 's"
  schema_fields :: "'s \<Rightarrow> arrow_field list"
  schema_columns :: "'s \<Rightarrow> df_column list"
  index_of_column :: "'s \<Rightarrow> df_column \<Rightarrow> 'x + nat"
  field_from_column :: "'s \<Rightarrow> df_column \<Rightarrow> 'x + arrow_field"
  get_type :: "df_expr \<Rightarrow> 's \<Rightarrow> 'x + arrow_type"
  plan_schema :: "'p \<Rightarrow> 's"
  scan_plan :: "string \<Rightarrow> table_adapter \<Rightarrow> 'x + 'p"
  empty_plan :: "'x + 'p"
  values_plan :: "df_expr list list \<Rightarrow> 's \<Rightarrow> 'x + 'p"
  project_plan :: "df_expr list \<Rightarrow> 'p \<Rightarrow> 'x + 'p"
  set_values_schema :: "'s \<Rightarrow> 'p \<Rightarrow> 'p option"
  filter_plan :: "df_expr \<Rightarrow> 'p \<Rightarrow> 'x + 'p"
  aggregate_plan :: "'p \<Rightarrow> df_expr list \<Rightarrow> df_expr list \<Rightarrow> 'x + 'p"
  window_plan :: "df_expr list \<Rightarrow> 'p \<Rightarrow> 'x + 'p"
  projection_plan :: "df_expr list \<Rightarrow> 'p \<Rightarrow> 'x + 'p"
  sort_plan :: "df_expr df_sort list \<Rightarrow> 'p \<Rightarrow> 'p"
  extension_plan :: "('p, 's) modify_table \<Rightarrow> 'p"
  as_modify_table :: "'p \<Rightarrow> ('p, 's) modify_table option"
  is_command_plan :: "'p \<Rightarrow> bool"
  visited_plans :: "'p \<Rightarrow> 'p list"
  check_invariants :: "'p \<Rightarrow> 'x + unit"

definition upstream :: "'x + 'a \<Rightarrow> 'x plan_error + 'a" where
  "upstream r = map_err (\<lambda>x. DataFusionError (Upstream x)) r"

definition scan :: "('p, 's, 'x) datafusion \<Rightarrow> bound_table \<Rightarrow> bool \<Rightarrow> 'x + 'p" where
  "scan D table with_ctid = scan_plan D (qualifier (bt_relation table)) (adapter_new table with_ctid)"

end
