(* ===== verification/ModifyTable.thy ===== *)
theory ModifyTable
  imports DataFusion
begin

text \<open>
  The \<^verbatim>\<open>ModifyTable\<close> extension node of \<^verbatim>\<open>crates/planner/src/modify_table.rs\<close>: its validation, its
  constructors, and the hooks through which DataFusion rewrites it.
\<close>

section \<open>Validation\<close>

text \<open>\<^verbatim>\<open>PartialEq for Target\<close> compares the relation and the allocation of the source.\<close>

definition target_identity :: "bound_table \<Rightarrow> u32 \<times> nat" where
  "target_identity table = (bt_relation table, ds_ptr (bt_source table))"

definition target_eq :: "bound_table \<Rightarrow> bound_table \<Rightarrow> bool" where
  "target_eq a b \<longleftrightarrow> target_identity a = target_identity b"

definition node_eq :: "('p, 's) modify_table \<Rightarrow> ('p, 's) modify_table \<Rightarrow> bool" where
  "node_eq a b \<longleftrightarrow> target_eq (mt_target a) (mt_target b) \<and> mt_input a = mt_input b \<and> mt_operation a = mt_operation b"

definition completion_schema :: "('p, 's, 'x) datafusion \<Rightarrow> 'x df_error + 's" where
  "completion_schema D = map_err Upstream (schema_try_from D [\<lparr>af_name = ''affected_rows'', af_type = AInt64, af_nullable = False\<rparr>])"

definition is_modify_table :: "('p, 's, 'x) datafusion \<Rightarrow> 'p \<Rightarrow> bool" where
  "is_modify_table D plan \<longleftrightarrow> as_modify_table D plan \<noteq> None"

definition ensure_relational_input :: "('p, 's, 'x) datafusion \<Rightarrow> 'p \<Rightarrow> 'x df_error + unit" where
  "ensure_relational_input D input = try_all (\<lambda>plan.
     if is_modify_table D plan \<or> is_command_plan D plan
     then Inl (DfPlan ''relational input contains a modification or command'') else Inr ()) (visited_plans D input)"

text \<open>\<^verbatim>\<open>input.schema().field(input.schema().index_of_column(c)?)\<close>\<close>

definition input_field :: "('p, 's, 'x) datafusion \<Rightarrow> 'p \<Rightarrow> df_column \<Rightarrow> 'x df_error + arrow_field" where
  "input_field D input c =
     (let schema = plan_schema D input in
      and_then (map_err Upstream (index_of_column D schema c)) (\<lambda>i.
      if i < length (schema_fields D schema) then Inr (schema_fields D schema ! i) else Inl DfPanic))"

definition validate_value :: "('p, 's, 'x) datafusion \<Rightarrow> bound_table \<Rightarrow> 'p \<Rightarrow> nat \<Rightarrow> df_column \<Rightarrow> 'x df_error + unit" where
  "validate_value D table input index c =
     (if length (source_columns table) \<le> index then Inl (DfPlan ''modification target column index is out of range'')
      else and_then (input_field D input c) (\<lambda>field.
        if af_type field \<noteq> arrow_of (col_type (source_columns table ! index)) then Inl (DfIncompatible c) else Inr ()))"

definition validate_ctid :: "('p, 's, 'x) datafusion \<Rightarrow> 'p \<Rightarrow> df_column \<Rightarrow> 'x df_error + unit" where
  "validate_ctid D input c = and_then (input_field D input c) (\<lambda>field.
     if af_type field \<noteq> ctid_type \<or> af_nullable field then Inl DfCtid else Inr ())"

fun validate_assignments :: "('p, 's, 'x) datafusion \<Rightarrow> bound_table \<Rightarrow> 'p \<Rightarrow> nat list \<Rightarrow> update_assignment list \<Rightarrow>
    'x df_error + unit" where
  "validate_assignments D table input seen [] = Inr ()"
| "validate_assignments D table input seen (a # as) =
     (if ua_target a \<in> set seen then Inl (DfPlan ''duplicate update target column'')
      else and_then (validate_value D table input (ua_target a) (ua_value a)) (\<lambda>_.
        validate_assignments D table input (ua_target a # seen) as))"

definition validate_node :: "('p, 's, 'x) datafusion \<Rightarrow> ('p, 's) modify_table \<Rightarrow> 'x df_error + unit" where
  "validate_node D m =
     and_then (ensure_relational_input D (mt_input m)) (\<lambda>_.
     case mt_operation m of
       MInsert values \<Rightarrow>
         if length values \<noteq> length (source_columns (mt_target m)) then Inl (DfPlan ''insert must map every target column'')
         else try_all (\<lambda>(index, c). validate_value D (mt_target m) (mt_input m) index c) (enumerate 0 values)
     | MUpdate c assignments \<Rightarrow>
         and_then (validate_ctid D (mt_input m) c) (\<lambda>_.
         if assignments = [] then Inl (DfPlan ''update requires at least one assignment'')
         else validate_assignments D (mt_target m) (mt_input m) [] assignments)
     | MDelete c \<Rightarrow> validate_ctid D (mt_input m) c)"

section \<open>Construction\<close>

definition try_new :: "('p, 's, 'x) datafusion \<Rightarrow> bound_table \<Rightarrow> 'p \<Rightarrow> modification \<Rightarrow> 'x df_error + ('p, 's) modify_table" where
  "try_new D table input operation =
     and_then (completion_schema D) (\<lambda>schema.
     let node = \<lparr>mt_target = table, mt_input = input, mt_operation = operation, mt_schema = schema\<rparr> in
     and_then (validate_node D node) (\<lambda>_. Inr node))"

definition try_insert :: "('p, 's, 'x) datafusion \<Rightarrow> bound_table \<Rightarrow> 'p \<Rightarrow> df_column list \<Rightarrow> 'x df_error + ('p, 's) modify_table" where
  "try_insert D table input values = try_new D table input (MInsert values)"

definition try_update :: "('p, 's, 'x) datafusion \<Rightarrow> bound_table \<Rightarrow> 'p \<Rightarrow> df_column \<Rightarrow> update_assignment list \<Rightarrow>
    'x df_error + ('p, 's) modify_table" where
  "try_update D table input c assignments = try_new D table input (MUpdate c assignments)"

definition try_delete :: "('p, 's, 'x) datafusion \<Rightarrow> bound_table \<Rightarrow> 'p \<Rightarrow> df_column \<Rightarrow> 'x df_error + ('p, 's) modify_table" where
  "try_delete D table input c = try_new D table input (MDelete c)"

section \<open>Rewriting hooks\<close>

definition node_columns :: "('p, 's) modify_table \<Rightarrow> df_column list" where
  "node_columns m = (case mt_operation m of
     MInsert values \<Rightarrow> values
   | MUpdate c assignments \<Rightarrow> c # map ua_value assignments
   | MDelete c \<Rightarrow> [c])"

definition node_expressions :: "('p, 's) modify_table \<Rightarrow> df_expr list" where
  "node_expressions m = map EColumn (node_columns m)"

fun expr_column :: "df_expr \<Rightarrow> 'x df_error + df_column" where
  "expr_column (EColumn c) = Inr c"
| "expr_column _ = Inl (DfPlan ''modification expressions must be columns'')"

definition rebuild_parts :: "df_expr list \<Rightarrow> 'p list \<Rightarrow> nat \<Rightarrow> 'x df_error + 'p \<times> df_column list" where
  "rebuild_parts exprs inputs count =
     (if length inputs \<noteq> 1 \<or> length exprs \<noteq> count then Inl (DfPlan ''invalid ModifyTable input or expression arity'')
      else and_then (try_map expr_column exprs) (\<lambda>columns. Inr (hd inputs, columns)))"

definition rebuild :: "('p, 's, 'x) datafusion \<Rightarrow> ('p, 's) modify_table \<Rightarrow> df_expr list \<Rightarrow> 'p list \<Rightarrow>
    'x df_error + ('p, 's) modify_table" where
  "rebuild D m exprs inputs = (case mt_operation m of
     MInsert values \<Rightarrow>
       and_then (rebuild_parts exprs inputs (length values)) (\<lambda>(input, values).
       try_insert D (mt_target m) input values)
   | MUpdate _ assignments \<Rightarrow>
       and_then (rebuild_parts exprs inputs (length assignments + 1)) (\<lambda>(input, columns).
       try_update D (mt_target m) input (hd columns)
         (map (\<lambda>(old, c). \<lparr>ua_target = ua_target old, ua_value = c\<rparr>) (zip assignments (drop 1 columns))))
   | MDelete _ \<Rightarrow>
       and_then (rebuild_parts exprs inputs 1) (\<lambda>(input, columns).
       try_delete D (mt_target m) input (hd columns)))"

definition node_check_invariants :: "('p, 's, 'x) datafusion \<Rightarrow> ('p, 's) modify_table \<Rightarrow> 'x df_error + unit" where
  "node_check_invariants D m =
     and_then (validate_node D m) (\<lambda>_.
     and_then (completion_schema D) (\<lambda>schema.
     if mt_schema m \<noteq> schema then Inl (DfPlan ''invalid ModifyTable completion schema'') else Inr ()))"

definition necessary_children_exprs :: "('p, 's, 'x) datafusion \<Rightarrow> ('p, 's) modify_table \<Rightarrow> nat list list option" where
  "necessary_children_exprs D m =
     (case try_map (index_of_column D (plan_schema D (mt_input m))) (node_columns m) of
        Inr indices \<Rightarrow> Some [remdups_adj (sort indices)]
      | Inl _ \<Rightarrow> None)"

section \<open>Laws\<close>

lemma try_new_Inr:
  "try_new D table input operation = Inr m \<longleftrightarrow>
     (\<exists>schema. completion_schema D = Inr schema \<and>
        m = \<lparr>mt_target = table, mt_input = input, mt_operation = operation, mt_schema = schema\<rparr> \<and>
        validate_node D m = Inr ())"
  by (auto simp: try_new_def and_then_Inr_iff Let_def)

lemma try_new_invariants: "try_new D table input operation = Inr m \<Longrightarrow> node_check_invariants D m = Inr ()"
  by (auto simp: try_new_Inr node_check_invariants_def)

lemma expr_column_Inr [simp]: "expr_column e = Inr c \<longleftrightarrow> e = EColumn c"
  by (cases e) auto

lemma columns_of_exprs: "try_map expr_column es = Inr cs \<longleftrightarrow> es = map EColumn cs"
  by (auto simp: try_map_all2 list_all2_conv_all_nth list_eq_iff_nth_eq)

lemma rebuild_parts_Inr:
  "rebuild_parts exprs inputs n = Inr (input, cs) \<longleftrightarrow> inputs = [input] \<and> exprs = map EColumn cs \<and> length cs = n"
  by (cases inputs) (auto simp: rebuild_parts_def and_then_Inr_iff columns_of_exprs)

lemma rebuild_Inr:
  assumes "rebuild D m exprs inputs = Inr m'"
  shows "\<exists>input operation. inputs = [input] \<and> try_new D (mt_target m) input operation = Inr m' \<and>
     exprs = node_expressions m' \<and> length exprs = length (node_columns m) \<and>
     (case (mt_operation m, operation) of
        (MInsert _, MInsert _) \<Rightarrow> True
      | (MUpdate _ as, MUpdate _ as') \<Rightarrow> map ua_target as' = map ua_target as
      | (MDelete _, MDelete _) \<Rightarrow> True
      | _ \<Rightarrow> False)"
proof -
  show ?thesis
  proof (cases "mt_operation m")
    case (MInsert vs)
    with assms obtain input cs where "inputs = [input]" "exprs = map EColumn cs" "length cs = length vs"
        "try_insert D (mt_target m) input cs = Inr m'"
      by (auto simp: rebuild_def and_then_Inr_iff rebuild_parts_Inr)
    with MInsert show ?thesis by (auto simp: try_insert_def try_new_Inr node_expressions_def node_columns_def)
  next
    case (MUpdate c as)
    with assms obtain input cs where p: "inputs = [input]" "exprs = map EColumn cs" "length cs = length as + 1"
        "try_update D (mt_target m) input (hd cs) (map (\<lambda>(old, c). \<lparr>ua_target = ua_target old, ua_value = c\<rparr>) (zip as (drop 1 cs))) = Inr m'"
      by (auto simp: rebuild_def and_then_Inr_iff rebuild_parts_Inr)
    from p(3) obtain k ks where cs: "cs = k # ks" "length ks = length as" by (cases cs) auto
    let ?as = "map (\<lambda>(old, c). \<lparr>ua_target = ua_target old, ua_value = c\<rparr>) (zip as ks)"
    have "map ua_target ?as = map ua_target as" "map ua_value ?as = ks"
      using cs(2) by (auto simp: list_eq_iff_nth_eq)
    with p cs MUpdate show ?thesis
      by (auto simp: try_update_def try_new_Inr node_expressions_def node_columns_def)
  next
    case (MDelete c)
    with assms obtain input cs where "inputs = [input]" "exprs = map EColumn cs" "length cs = 1"
        "try_delete D (mt_target m) input (hd cs) = Inr m'"
      by (auto simp: rebuild_def and_then_Inr_iff rebuild_parts_Inr)
    with MDelete show ?thesis
      by (auto simp: try_delete_def try_new_Inr node_expressions_def node_columns_def length_Suc_conv)
  qed
qed

lemma rebuild_own:
  fixes D :: "('p, 's, 'x) datafusion"
  assumes "node_check_invariants D m = Inr ()"
  shows "rebuild D m (node_expressions m) [mt_input m] = Inr m"
proof -
  from assms have v: "validate_node D m = Inr ()" "completion_schema D = Inr (mt_schema m)"
    by (auto simp: node_check_invariants_def and_then_Inr_iff split: if_splits)
  have parts: "rebuild_parts (map EColumn cs) [mt_input m] (length cs) = (Inr (mt_input m, cs) :: 'x df_error + _)" for cs
    by (simp add: rebuild_parts_Inr)
  have own: "try_new D (mt_target m) (mt_input m) (mt_operation m) = Inr m"
    using v by (cases m) (simp add: try_new_Inr)
  show ?thesis
  proof (cases "mt_operation m")
    case (MInsert vs)
    with parts [of vs] own show ?thesis by (simp add: rebuild_def try_insert_def node_expressions_def node_columns_def)
  next
    case (MUpdate c as)
    have "map (\<lambda>(old, c). \<lparr>ua_target = ua_target old, ua_value = c\<rparr>) (zip as (map ua_value as)) = as"
      by (induction as) auto
    with MUpdate parts [of "c # map ua_value as"] own show ?thesis
      by (simp add: rebuild_def try_update_def node_expressions_def node_columns_def)
  next
    case (MDelete c)
    with parts [of "[c]"] own show ?thesis by (simp add: rebuild_def try_delete_def node_expressions_def node_columns_def)
  qed
qed

end
