(* ===== verification/Boundary.thy ===== *)
theory Boundary
  imports ModifyTable
begin

text \<open>
  Planned statements and the boundary that protects them from rewriting,
  \<^verbatim>\<open>crates/planner/src/lib.rs\<close> and \<^verbatim>\<open>plan.rs\<close>; the rule pipeline of \<^verbatim>\<open>crates/optimizer\<close> and the query
  executor of \<^verbatim>\<open>crates/executor\<close>, which both go through it. DataFusion's rule optimizer and its
  physical planning and execution are arguments. They may have any effect on the outside world,
  a state of type \<open>'w\<close>, so that not being called is visible.
\<close>

section \<open>Planned statements\<close>

record output_field =
  of_name :: string
  of_type :: logical_type
  of_nullable :: bool
  of_origin :: "column_binding option"

datatype command = CmdCreateTable create_table | CmdBegin | CmdCommit | CmdRollback

datatype 'p planned_statement =
  PQuery (pq_plan: 'p) (pq_output: "output_field list")
| PModifyTable 'p
| PCommand command

definition insert_root :: "('p, 's, 'x) datafusion \<Rightarrow> 'p \<Rightarrow> ('p, 's) modify_table option" where
  "insert_root D plan = (case as_modify_table D plan of
     Some node \<Rightarrow> (case mt_operation node of MInsert values \<Rightarrow> Some node | _ \<Rightarrow> None)
   | None \<Rightarrow> None)"

fun output_matches :: "output_field \<times> arrow_field \<Rightarrow> bool" where
  "output_matches (expected, actual) \<longleftrightarrow>
     arrow_of (of_type expected) = af_type actual \<and> (of_nullable expected \<or> \<not> af_nullable actual)"

fun with_optimized_plan :: "('p, 's, 'x) datafusion \<Rightarrow> 'p planned_statement \<Rightarrow> 'p \<Rightarrow> 'x plan_error + 'p planned_statement" where
  "with_optimized_plan D (PQuery plan output) optimized =
     and_then (upstream (check_invariants D optimized)) (\<lambda>_.
     and_then (map_err DataFusionError (ensure_relational_input D optimized)) (\<lambda>_.
     let schema = plan_schema D optimized in
     if schema_columns D (plan_schema D plan) \<noteq> schema_columns D schema \<or> length output \<noteq> length (schema_fields D schema)
     then Inl (InvalidBound ''optimizer changed query output columns'')
     else and_then (try_all (\<lambda>f. if output_matches f then Inr ()
         else Inl (InvalidBound ''optimizer changed query output types or nullability'')) (zip output (schema_fields D schema))) (\<lambda>_.
     Inr (PQuery optimized output))))"
| "with_optimized_plan D (PModifyTable plan) optimized =
     and_then (upstream (check_invariants D optimized)) (\<lambda>_.
     and_then (ok_or (InvalidBound ''only INSERT modification optimization is enabled'') (insert_root D plan)) (\<lambda>old.
     and_then (ok_or (InvalidBound ''optimizer removed or replaced the INSERT root'') (insert_root D optimized)) (\<lambda>new.
     if \<not> target_eq (mt_target old) (mt_target new) \<or> plan_schema D plan \<noteq> plan_schema D optimized
     then Inl (InvalidBound ''optimizer changed the INSERT target or completion schema'')
     else Inr (PModifyTable optimized))))"
| "with_optimized_plan D (PCommand c) optimized =
     and_then (upstream (check_invariants D optimized)) (\<lambda>_.
     Inl (InvalidBound ''commands are not relational optimization inputs''))"

section \<open>The optimizer\<close>

datatype 'x optimize_error = OptPlan "'x plan_error" | OptDataFusion 'x

text \<open>
  DataFusion's \<^verbatim>\<open>RuleOptimizer::optimize\<close> with the rules, the observer and a number of passes.
  The source keeps the number as a \<^verbatim>\<open>NonZeroU8\<close>; the model allows zero as well, so what is
  proved of every number of passes covers it.
\<close>

type_synonym ('p, 'x, 'w) rule_optimizer = "nat \<Rightarrow> 'p \<Rightarrow> ('w, 'x, 'p) io"

record ('p, 'x, 'w) optimizer =
  op_rules :: "('p, 'x, 'w) rule_optimizer"
  op_max_passes :: u8

definition optimizer_new :: "('p, 'x, 'w) rule_optimizer \<Rightarrow> ('p, 'x, 'w) optimizer" where
  "optimizer_new rules = \<lparr>op_rules = rules, op_max_passes = 3\<rparr>"

definition with_max_passes :: "u8 \<Rightarrow> ('p, 'x, 'w) optimizer \<Rightarrow> ('p, 'x, 'w) optimizer" where
  "with_max_passes n opt = opt\<lparr>op_max_passes := n\<rparr>"

definition optimize_plan :: "('p, 's, 'x) datafusion \<Rightarrow> ('p, 'x, 'w) optimizer \<Rightarrow> 'p planned_statement \<Rightarrow> 'p \<Rightarrow>
    ('w, 'x optimize_error, 'p planned_statement) io" where
  "optimize_plan D opt st plan w =
     (case with_optimized_plan D st plan of
        Inl e \<Rightarrow> (Inl (OptPlan e), w)
      | Inr _ \<Rightarrow>
          (case op_rules opt (unat (op_max_passes opt)) plan w of
             (Inl x, w) \<Rightarrow> (Inl (OptDataFusion x), w)
           | (Inr optimized, w) \<Rightarrow> (map_err OptPlan (with_optimized_plan D st optimized), w)))"

fun optimize :: "('p, 's, 'x) datafusion \<Rightarrow> ('p, 'x, 'w) optimizer \<Rightarrow> 'p planned_statement \<Rightarrow>
    ('w, 'x optimize_error, 'p planned_statement) io" where
  "optimize D opt (PQuery plan output) = optimize_plan D opt (PQuery plan output) plan"
| "optimize D opt (PModifyTable plan) = optimize_plan D opt (PModifyTable plan) plan"
| "optimize D opt (PCommand c) = io_ok (PCommand c)"

section \<open>The executor\<close>

datatype 'x execute_error = UnsupportedStatement | InvalidPlan "'x plan_error" | ExecDataFusion 'x | ExecUnreachable

record 'b query_result =
  qr_output :: "output_field list"
  qr_batches :: 'b

definition execute_plan :: "('p, 's, 'x) datafusion \<Rightarrow> ('p \<Rightarrow> ('w, 'x, 'h) io) \<Rightarrow> ('h \<Rightarrow> ('w, 'x, 'b) io) \<Rightarrow> 'p planned_statement \<Rightarrow>
    ('w, 'x execute_error, 'b query_result) io" where
  "execute_plan D create_physical_plan collect st w = (case st of
     PQuery plan output \<Rightarrow>
       (case with_optimized_plan D st plan of
          Inl e \<Rightarrow> (Inl (InvalidPlan e), w)
        | Inr (PQuery plan output) \<Rightarrow>
            (case io_then (create_physical_plan plan) collect w of
               (Inl x, w) \<Rightarrow> (Inl (ExecDataFusion x), w)
             | (Inr batches, w) \<Rightarrow> (Inr \<lparr>qr_output = output, qr_batches = batches\<rparr>, w))
        | Inr _ \<Rightarrow> (Inl ExecUnreachable, w))
   | _ \<Rightarrow> (Inl UnsupportedStatement, w))"

section \<open>What the boundary protects\<close>

text \<open>
  The contract is stated over the plans and their schemas alone, not with the tests the code
  performs. The metadata describes a query plan when the plan's columns have the announced types,
  none may be NULL that is announced not to be, and no visited node modifies a table or is a
  command.
\<close>

definition query_described :: "('p, 's, 'x) datafusion \<Rightarrow> 'p \<Rightarrow> output_field list \<Rightarrow> bool" where
  "query_described D plan output \<longleftrightarrow>
     list_all2 (\<lambda>column f. af_type f = arrow_of (of_type column) \<and> (af_nullable f \<longrightarrow> of_nullable column))
       output (schema_fields D (plan_schema D plan)) \<and>
     (\<forall>q \<in> set (visited_plans D plan). as_modify_table D q = None \<and> \<not> is_command_plan D q)"

text \<open>The relation and the source object an INSERT plan writes to.\<close>

definition inserts_into :: "('p, 's, 'x) datafusion \<Rightarrow> 'p \<Rightarrow> u32 \<Rightarrow> nat \<Rightarrow> bool" where
  "inserts_into D plan relation source \<longleftrightarrow>
     (\<exists>m values. as_modify_table D plan = Some m \<and> mt_operation m = MInsert values \<and>
        bt_relation (mt_target m) = relation \<and> ds_ptr (bt_source (mt_target m)) = source)"

text \<open>What every accepted replacement keeps of the statement it replaces.\<close>

fun boundary_kept :: "('p, 's, 'x) datafusion \<Rightarrow> 'p planned_statement \<Rightarrow> 'p planned_statement \<Rightarrow> bool" where
  "boundary_kept D (PQuery plan output) (PQuery plan' output') \<longleftrightarrow> output' = output \<and> query_described D plan' output \<and>
     schema_columns D (plan_schema D plan') = schema_columns D (plan_schema D plan)"
| "boundary_kept D (PModifyTable plan) (PModifyTable plan') \<longleftrightarrow> plan_schema D plan' = plan_schema D plan \<and>
     (\<exists>relation source. inserts_into D plan relation source \<and> inserts_into D plan' relation source)"
| "boundary_kept D (PCommand c) (PCommand c') \<longleftrightarrow> c' = c"
| "boundary_kept D _ _ \<longleftrightarrow> False"

lemma ensure_relational_iff:
  "ensure_relational_input D plan = Inr () \<longleftrightarrow>
     (\<forall>q \<in> set (visited_plans D plan). as_modify_table D q = None \<and> \<not> is_command_plan D q)"
  by (auto simp: ensure_relational_input_def is_modify_table_def try_all_iff split: if_splits)

lemma outputs_checked:
  "length output = length fs \<Longrightarrow>
   try_all (\<lambda>f. if output_matches f then Inr () else Inl e) (zip output fs) = Inr () \<longleftrightarrow>
   list_all2 (\<lambda>column f. af_type f = arrow_of (of_type column) \<and> (af_nullable f \<longrightarrow> of_nullable column)) output fs"
  by (auto simp: try_all_iff list_all2_iff split: if_splits)

lemma insert_root_iff:
  "insert_root D plan = Some m \<longleftrightarrow> as_modify_table D plan = Some m \<and> (\<exists>values. mt_operation m = MInsert values)"
  by (auto simp: insert_root_def split: option.splits modification.splits)

lemma inserts_into_kept:
  "(\<exists>relation source. inserts_into D plan relation source \<and> inserts_into D plan' relation source) \<longleftrightarrow>
   (\<exists>old new. insert_root D plan = Some old \<and> insert_root D plan' = Some new \<and> target_eq (mt_target old) (mt_target new))"
  by (auto simp: inserts_into_def insert_root_iff target_eq_def target_identity_def)

fun statement_plan :: "'p planned_statement \<Rightarrow> 'p option" where
  "statement_plan (PQuery plan out) = Some plan"
| "statement_plan (PModifyTable plan) = Some plan"
| "statement_plan (PCommand c) = None"

fun with_plan :: "'p planned_statement \<Rightarrow> 'p \<Rightarrow> 'p planned_statement" where
  "with_plan (PQuery plan out) p = PQuery p out"
| "with_plan (PModifyTable plan) p = PModifyTable p"
| "with_plan (PCommand c) p = PCommand c"

definition acceptable :: "('p, 's, 'x) datafusion \<Rightarrow> 'p planned_statement \<Rightarrow> 'p \<Rightarrow> bool" where
  "acceptable D st p \<longleftrightarrow> statement_plan st \<noteq> None \<and> check_invariants D p = Inr () \<and> boundary_kept D st (with_plan st p)"

lemma with_optimized_plan_exact: "with_optimized_plan D st p = Inr st' \<longleftrightarrow> acceptable D st p \<and> st' = with_plan st p"
proof (cases st)
  case (PQuery plan out)
  then show ?thesis
    by (auto simp: and_then_Inr_iff upstream_def acceptable_def query_described_def ensure_relational_iff outputs_checked Let_def
        dest: list_all2_lengthD split: if_splits)
qed (auto simp: and_then_Inr_iff upstream_def acceptable_def inserts_into_kept split: if_splits)

lemma with_optimized_plan_cases:
  obtains "acceptable D st p" "with_optimized_plan D st p = Inr (with_plan st p)"
  | e where "\<not> acceptable D st p" "with_optimized_plan D st p = Inl e"
  using with_optimized_plan_exact [of D st p "with_plan st p"]
  by (cases "with_optimized_plan D st p") (auto simp: with_optimized_plan_exact)

lemma optimize_plan_exact:
  "case optimize_plan D opt st plan w of (r, w') \<Rightarrow>
     if acceptable D st plan
     then (case op_rules opt (unat (op_max_passes opt)) plan w of
             (Inl x, w1) \<Rightarrow> r = Inl (OptDataFusion x) \<and> w' = w1
           | (Inr p, w1) \<Rightarrow> w' = w1 \<and> (if acceptable D st p then r = Inr (with_plan st p) else \<exists>e. r = Inl (OptPlan e)))
     else (\<exists>e. r = Inl (OptPlan e)) \<and> w' = w"
proof (cases rule: with_optimized_plan_cases [of D st plan])
  case 1
  show ?thesis
  proof (cases "op_rules opt (unat (op_max_passes opt)) plan w")
    case (Pair r1 w1)
    show ?thesis
    proof (cases r1)
      case (Inl x)
      with 1 Pair show ?thesis by (simp add: optimize_plan_def)
    next
      case (Inr p)
      with 1 Pair show ?thesis
        by (cases rule: with_optimized_plan_cases [of D st p]) (simp_all add: optimize_plan_def)
    qed
  qed
qed (simp add: optimize_plan_def)

text \<open>
  C14: Rewriting and execution stay inside the statement boundary. Whatever the optimizer rules
  do, a command is returned unchanged without running them, and they never run on an UPDATE, a
  DELETE or a statement whose own plan breaks its contract; the result of the rules is returned
  exactly when it keeps the kind of the statement, the output columns and metadata of a query
  with types and nullability that fit and no modification or command inside, or the target and
  completion schema of an INSERT. The executor runs exactly the queries whose plan meets that
  contract, with their output metadata, and nothing else.
\<close>

theorem boundary_protects:
  "(case optimize D opt st w of (r, w') \<Rightarrow> (case statement_plan st of
      None \<Rightarrow> r = Inr st \<and> w' = w
    | Some plan \<Rightarrow>
        if acceptable D st plan
        then (case op_rules opt (unat (op_max_passes opt)) plan w of
                (Inl x, w1) \<Rightarrow> r = Inl (OptDataFusion x) \<and> w' = w1
              | (Inr p, w1) \<Rightarrow> w' = w1 \<and> (if acceptable D st p then r = Inr (with_plan st p) else \<exists>e. r = Inl (OptPlan e)))
        else (\<exists>e. r = Inl (OptPlan e)) \<and> w' = w)) \<and>
   (case execute_plan D physical collect st w of (r, w') \<Rightarrow> (case st of
      PQuery plan out \<Rightarrow>
        if acceptable D st plan
        then (case io_then (physical plan) collect w of
                (Inl x, w1) \<Rightarrow> r = Inl (ExecDataFusion x) \<and> w' = w1
              | (Inr b, w1) \<Rightarrow> r = Inr \<lparr>qr_output = out, qr_batches = b\<rparr> \<and> w' = w1)
        else (\<exists>e. r = Inl (InvalidPlan e)) \<and> w' = w
    | _ \<Rightarrow> r = Inl UnsupportedStatement \<and> w' = w))" (is "?optimizer \<and> ?executor")
proof
  show ?optimizer
    using optimize_plan_exact [where D = D and opt = opt and st = st and w = w] by (cases st) (simp_all add: io_ok_def)
  show ?executor
  proof (cases st)
    case (PQuery plan out)
    then show ?thesis
      by (cases rule: with_optimized_plan_cases [of D st plan])
         (auto simp: execute_plan_def split: prod.splits sum.splits)
  qed (simp_all add: execute_plan_def)
qed

end
