(* ===== verification/Planner.thy ===== *)
theory Planner
  imports Boundary
begin

text \<open>
  Lowering of bound statements to DataFusion plans, \<^verbatim>\<open>crates/planner/src/planning.rs\<close>. A query is
  lowered in phases: scan and filter, aggregation, \<^verbatim>\<open>HAVING\<close>, one window node per distinct window
  expression, sort and projection. The expressions an earlier phase computed are kept with the
  column that holds them, and a later phase refers to that column.
\<close>

section \<open>Nesting\<close>

definition depth_check :: "nat \<Rightarrow> 'x plan_error + unit" where
  "depth_check n = (if n > 256 then Inl PlanTooDeep else Inr ())"

fun operands :: "bexpr \<Rightarrow> bexpr list" where
  "operands (BExpr t n k) = (case k of
     KUnary op e \<Rightarrow> [e]
   | KCast e \<Rightarrow> [e]
   | KIsNull e b \<Rightarrow> [e]
   | KBinary op l r \<Rightarrow> [l, r]
   | KAggregate a \<Rightarrow> ag_args a @ option_list (ag_filter a)
   | KWindow w \<Rightarrow> wn_args w @ option_list (wn_filter w) @ wn_partition_by w @ map bo_expr (wn_order_by w)
   | _ \<Rightarrow> [])"

lemma set_operands: "set (operands e) = set_expr_kind (be_kind e)"
  by (cases e; cases "be_kind e") (auto simp: set_window_expr set_aggregate_expr)

lemma operands_size [termination_simp]: "x \<in> set (operands e) \<Longrightarrow> size x < size e"
  using operand_size [of x "be_kind e"] by (cases e) (simp add: set_operands del: operands.simps)

text \<open>The loop of \<^verbatim>\<open>check_depth\<close>; the head of the list is the top of the stack.\<close>

lemma sum_size_list: "sum_list (map f xs) \<le> size_list f xs"
  by (induction xs) auto

lemma sum_option_list: "sum_list (map f (option_list x)) \<le> size_option f x"
  by (cases x) (simp_all add: option_list_def)

lemma sum_order_list: "sum_list (map (\<lambda>o'. f (bo_expr o')) os) \<le> size_list (size_border_by f) os"
  by (induction os) (auto simp: size_border_by)

lemma operands_sizes: "sum_list (map size (operands e)) < size e"
proof (cases e)
  case (BExpr t n k)
  show ?thesis
  proof (cases k)
    case (KAggregate a)
    then show ?thesis
      using BExpr sum_size_list [of size "ag_args a"] sum_option_list [of size "ag_filter a"] by (cases a) simp
  next
    case (KWindow w)
    then show ?thesis
      using BExpr sum_size_list [of size "wn_args w"] sum_option_list [of size "wn_filter w"]
        sum_size_list [of size "wn_partition_by w"] sum_order_list [of size "wn_order_by w"] by (cases w) (simp add: comp_def)
  qed (simp_all add: BExpr)
qed

function depth_loop :: "(bexpr \<times> nat) list \<Rightarrow> 'x plan_error + unit" where
  "depth_loop stack = (case stack of
     [] \<Rightarrow> Inr ()
   | (e, n) # rest \<Rightarrow> and_then (depth_check n) (\<lambda>_. depth_loop (rev (map (\<lambda>c. (c, n + 1)) (operands e)) @ rest)))"
  by pat_completeness auto
termination
  using operands_sizes
  by (relation "measure (\<lambda>stack. sum_list (map (size \<circ> fst) stack))") (auto simp: rev_map [symmetric] comp_def sum_list_rev)

declare depth_loop.simps [simp del]

definition check_depth :: "bexpr \<Rightarrow> 'x plan_error + unit" where
  "check_depth e = depth_loop [(e, 1)]"

section \<open>Expressions\<close>

definition df_cast :: "df_expr \<Rightarrow> logical_type \<Rightarrow> df_expr" where
  "df_cast e t = ECast e (arrow_of t)"

definition lower_literal :: "('p, 's, 'x) datafusion \<Rightarrow> scalar \<Rightarrow> logical_type \<Rightarrow> 'x plan_error + df_expr" where
  "lower_literal D v t =
     and_then (case v of
       ScNull \<Rightarrow> upstream (null_scalar D (arrow_of t))
     | ScBoolean b \<Rightarrow> Inr (SvBoolean (Some b))
     | ScInt32 n \<Rightarrow> Inr (SvInt32 (Some n))
     | ScInt64 n \<Rightarrow> Inr (SvInt64 (Some n))
     | ScUint32 n \<Rightarrow> Inr (SvUInt32 (Some n))
     | ScFloat32 x \<Rightarrow> Inr (SvFloat32 (Some x))
     | ScFloat64 x \<Rightarrow> Inr (SvFloat64 (Some x))
     | ScString s \<Rightarrow> Inr (SvUtf8 (Some s))) (\<lambda>v. Inr (ELiteral v))"

record 's lower =
  lw_schema :: 's
  lw_grouped :: bool
  lw_mapped :: "(bexpr \<times> df_expr) list"

definition lower_raw :: "'s \<Rightarrow> 's lower" where
  "lower_raw schema = \<lparr>lw_schema = schema, lw_grouped = False, lw_mapped = []\<rparr>"

fun df_op :: "binary_op \<Rightarrow> df_operator" where
  "df_op OpOr = DfOr"
| "df_op OpAnd = DfAnd"
| "df_op OpEq = DfEq"
| "df_op OpNotEq = DfNotEq"
| "df_op OpLess = DfLt"
| "df_op OpLessEq = DfLtEq"
| "df_op OpGreater = DfGt"
| "df_op OpGreaterEq = DfGtEq"
| "df_op OpAdd = DfPlus"
| "df_op OpSubtract = DfMinus"
| "df_op OpMultiply = DfMultiply"
| "df_op OpDivide = DfDivide"
| "df_op OpModulo = DfModulo"

fun df_unary :: "unary_op \<Rightarrow> df_expr \<Rightarrow> df_expr" where
  "df_unary OpNot e = ENot e"
| "df_unary OpPlus e = e"
| "df_unary OpMinus e = ENegative e"

definition lower_column :: "('p, 's, 'x) datafusion \<Rightarrow> 's lower \<Rightarrow> column_binding \<Rightarrow> logical_type \<Rightarrow> 'x plan_error + df_expr" where
  "lower_column D L b t =
     (if lw_grouped L then Inl (UnavailableColumn b)
      else case field_from_column D (lw_schema L) (column_of b) of
        Inl _ \<Rightarrow> Inl (UnavailableColumn b)
      | Inr f \<Rightarrow> if af_type f \<noteq> arrow_of t then Inl (InvalidBound ''column type differs from input'')
          else Inr (EColumn (column_of b)))"

fun lower_expr :: "('p, 's, 'x) datafusion \<Rightarrow> 's lower \<Rightarrow> bexpr \<Rightarrow> nat \<Rightarrow> 'x plan_error + df_expr" where
  "lower_expr D L (BExpr t nl k) n =
     and_then (depth_check n) (\<lambda>_.
     case find (\<lambda>(e, _). expr_eq e (BExpr t nl k)) (lw_mapped L) of
       Some (_, m) \<Rightarrow> Inr m
     | None \<Rightarrow> (case k of
         KLiteral v \<Rightarrow> lower_literal D v t
       | KColumn b \<Rightarrow> lower_column D L b t
       | KUnary op e \<Rightarrow> and_then (lower_expr D L e (n + 1)) (\<lambda>e. Inr (df_unary op e))
       | KBinary op l r \<Rightarrow> and_then (lower_expr D L l (n + 1)) (\<lambda>l. and_then (lower_expr D L r (n + 1)) (\<lambda>r. Inr (EBinary l (df_op op) r)))
       | KCast e \<Rightarrow> and_then (lower_expr D L e (n + 1)) (\<lambda>e. Inr (df_cast e t))
       | KIsNull e negated \<Rightarrow> and_then (lower_expr D L e (n + 1)) (\<lambda>e. Inr (if negated then EIsNotNull e else EIsNull e))
       | _ \<Rightarrow> Inl (InvalidBound ''aggregate or window is unavailable in this phase'')))"

declare lower_expr.simps [simp del]

definition lower_list :: "('p, 's, 'x) datafusion \<Rightarrow> 's lower \<Rightarrow> bexpr list \<Rightarrow> 'x plan_error + df_expr list" where
  "lower_list D L es = try_map (\<lambda>e. lower_expr D L e 1) es"

definition lower_predicate :: "('p, 's, 'x) datafusion \<Rightarrow> 's lower \<Rightarrow> bexpr option \<Rightarrow> 'x plan_error + df_expr option" where
  "lower_predicate D L f = try_option (\<lambda>e.
     if be_type e \<noteq> TBoolean then Inl (InvalidBound ''filter predicate is not Boolean'') else lower_expr D L e 1) f"

definition lower_order :: "('p, 's, 'x) datafusion \<Rightarrow> 's lower \<Rightarrow> bexpr border_by list \<Rightarrow> 'x plan_error + df_expr df_sort list" where
  "lower_order D L os = try_map (\<lambda>o'. and_then (lower_expr D L (bo_expr o') 1) (\<lambda>e.
     Inr (DfSort e (bo_direction o' = Ascending) (bo_nulls o' = NullsFirst)))) os"

definition where_filter :: "('p, 's, 'x) datafusion \<Rightarrow> 'p \<Rightarrow> bexpr option \<Rightarrow> 'x plan_error + 'p" where
  "where_filter D input predicate = (case predicate of
     None \<Rightarrow> Inr input
   | Some p \<Rightarrow>
       and_then (check_depth p) (\<lambda>_.
       and_then (lower_predicate D (lower_raw (plan_schema D input)) (Some p)) (\<lambda>e.
       upstream (filter_plan D (the e) input))))"

section \<open>Collecting aggregates and windows\<close>

fun try_fold :: "('a \<Rightarrow> 'b \<Rightarrow> 'e + 'b) \<Rightarrow> 'a list \<Rightarrow> 'b \<Rightarrow> 'e + 'b" where
  "try_fold f [] acc = Inr acc"
| "try_fold f (x # xs) acc = and_then (f x acc) (try_fold f xs)"

lemma try_fold_cong [fundef_cong]:
  "xs = ys \<Longrightarrow> acc = acc' \<Longrightarrow> (\<And>x a. x \<in> set ys \<Longrightarrow> f x a = g x a) \<Longrightarrow> try_fold f xs acc = try_fold g ys acc'"
proof (induction xs arbitrary: ys acc acc')
  case (Cons x xs)
  then have "try_fold f xs = try_fold g xs" by (intro ext) auto
  with Cons.prems show ?case by auto
qed auto

fun is_window :: "bexpr \<Rightarrow> bool" where
  "is_window (BExpr t n (KWindow w)) = True"
| "is_window _ = False"

fun collect_exprs :: "bool \<Rightarrow> nat \<Rightarrow> bexpr \<Rightarrow> bexpr list \<Rightarrow> 'x plan_error + bexpr list" where
  "collect_exprs windows n e found =
     and_then (depth_check n) (\<lambda>_.
     if (if windows then is_window e else is_aggregate e)
     then Inr (if list_ex (\<lambda>g. expr_eq g e) found then found else found @ [e])
     else try_fold (collect_exprs windows (n + 1)) (operands e) found)"

declare collect_exprs.simps [simp del]

section \<open>Calls\<close>

fun aggregate_udf :: "aggregate_function \<Rightarrow> udaf" where
  "aggregate_udf AggCount = CountUdaf"
| "aggregate_udf AggSum = SumUdaf"
| "aggregate_udf AggAvg = AvgUdaf"
| "aggregate_udf AggMin = MinUdaf"
| "aggregate_udf AggMax = MaxUdaf"

definition arguments :: "('p, 's, 'x) datafusion \<Rightarrow> 's lower \<Rightarrow> aggregate_function \<Rightarrow> bexpr list \<Rightarrow> 'x plan_error + df_expr list" where
  "arguments D L f args =
     (if f = AggCount \<and> args = [] then Inr [ELiteral (SvInt64 (Some 1))] else lower_list D L args)"

fun endpoint :: "bframe_bound \<Rightarrow> df_frame_bound" where
  "endpoint BUnboundedPreceding = DfPreceding (SvUInt64 None)"
| "endpoint (BPreceding n) = DfPreceding (SvUInt64 (Some n))"
| "endpoint BCurrentRow = DfCurrentRow"
| "endpoint (BFollowing n) = DfFollowing (SvUInt64 (Some n))"
| "endpoint BUnboundedFollowing = DfFollowing (SvUInt64 None)"

fun window_udf :: "window_function \<Rightarrow> window_definition" where
  "window_udf (WinAggregate f) = AggregateUDF (aggregate_udf f)"
| "window_udf RowNumber = RowNumberUdwf"
| "window_udf Rank = RankUdwf"
| "window_udf DenseRank = DenseRankUdwf"

definition window_arguments :: "('p, 's, 'x) datafusion \<Rightarrow> 's lower \<Rightarrow> bexpr window_expr \<Rightarrow> 'x plan_error + df_expr list" where
  "window_arguments D L w = (case wn_function w of
     WinAggregate f \<Rightarrow> arguments D L f (wn_args w)
   | _ \<Rightarrow> lower_list D L (wn_args w))"

definition lower_frame :: "bwindow_frame \<Rightarrow> df_frame" where
  "lower_frame f = DfFrame (bf_units f) (endpoint (bf_start f)) (endpoint (bf_stop f))"

definition lower_window :: "('p, 's, 'x) datafusion \<Rightarrow> 's lower \<Rightarrow> bexpr window_expr \<Rightarrow> 'x plan_error + df_expr" where
  "lower_window D L w =
     and_then (window_arguments D L w) (\<lambda>args.
     and_then (lower_list D L (wn_partition_by w)) (\<lambda>partition.
     and_then (lower_order D L (wn_order_by w)) (\<lambda>os.
     and_then (lower_predicate D L (wn_filter w)) (\<lambda>f.
     Inr (EWindow (window_udf (wn_function w)) args partition os f (wn_distinct w) (lower_frame (wn_frame w)))))))"

definition lower_aggregate :: "('p, 's, 'x) datafusion \<Rightarrow> 's lower \<Rightarrow> bexpr aggregate_expr \<Rightarrow> 'x plan_error + df_expr" where
  "lower_aggregate D L a =
     and_then (arguments D L (ag_function a) (ag_args a)) (\<lambda>args.
     and_then (lower_predicate D L (ag_filter a)) (\<lambda>f.
     Inr (EAggregate (aggregate_udf (ag_function a)) args (ag_distinct a) f)))"

text \<open>The column that holds a computed value, cast when DataFusion infers another type for it.\<close>

definition mapped_column :: "('p, 's, 'x) datafusion \<Rightarrow> 's \<Rightarrow> df_expr \<Rightarrow> logical_type \<Rightarrow> string \<Rightarrow> 'x plan_error + df_expr" where
  "mapped_column D schema e t name =
     and_then (upstream (get_type D e schema)) (\<lambda>at.
     let c = EColumn (column_named name) in Inr (if at \<noteq> arrow_of t then df_cast c t else c))"

section \<open>SELECT\<close>

definition select_checked :: "bound_select \<Rightarrow> bexpr list" where
  "select_checked q = map ne_expr (se_projection q) @ option_list (se_filter q) @ se_group_by q @ option_list (se_having q) @
     map bo_expr (se_order_by q)"

definition select_input :: "('p, 's, 'x) datafusion \<Rightarrow> bound_select \<Rightarrow> 'x plan_error + 'p" where
  "select_input D q = upstream (case se_source q of Some t \<Rightarrow> scan D t False | None \<Rightarrow> empty_plan D)"

definition lower_group :: "('p, 's, 'x) datafusion \<Rightarrow> 's lower \<Rightarrow> nat \<times> bexpr \<Rightarrow> 'x plan_error + df_expr \<times> (bexpr \<times> df_expr)" where
  "lower_group D L = (\<lambda>(n, e).
     and_then (lower_expr D L e 1) (\<lambda>l. let name = ''__group'' @ show_nat n in
     Inr (EAlias l name, (e, EColumn (column_named name)))))"

definition lower_agg :: "('p, 's, 'x) datafusion \<Rightarrow> 's lower \<Rightarrow> nat \<times> bexpr \<Rightarrow> 'x plan_error + df_expr \<times> (bexpr \<times> df_expr)" where
  "lower_agg D L = (\<lambda>(n, e). case be_kind e of
     KAggregate a \<Rightarrow>
       and_then (lower_aggregate D L a) (\<lambda>v. let name = ''__agg'' @ show_nat n in
       and_then (mapped_column D (lw_schema L) v (be_type e) name) (\<lambda>m. Inr (EAlias v name, (e, m))))
   | _ \<Rightarrow> Inl (InvalidBound ''expected aggregate''))"

definition dummy_count :: df_expr where
  "dummy_count = EAlias (EAggregate CountUdaf [ELiteral (SvInt64 (Some 1))] False None) ''__dummy_count''"

definition aggregate_phase :: "('p, 's, 'x) datafusion \<Rightarrow> bexpr list \<Rightarrow> bexpr list \<Rightarrow> 'p \<Rightarrow>
    'x plan_error + 'p \<times> (bexpr \<times> df_expr) list" where
  "aggregate_phase D group_by aggregates input =
     (let L = lower_raw (plan_schema D input) in
      and_then (try_map (lower_group D L) (enumerate 0 group_by)) (\<lambda>groups.
      and_then (try_map (lower_agg D L) (enumerate 0 aggregates)) (\<lambda>aggs.
      and_then (upstream (aggregate_plan D input (map fst groups)
        (if groups = [] \<and> aggs = [] then [dummy_count] else map fst aggs))) (\<lambda>plan.
      Inr (plan, map snd groups @ map snd aggs)))))"

definition having_phase :: "('p, 's, 'x) datafusion \<Rightarrow> bool \<Rightarrow> (bexpr \<times> df_expr) list \<Rightarrow> bexpr option \<Rightarrow> 'p \<Rightarrow> 'x plan_error + 'p" where
  "having_phase D grouped mapped having input = (case having of
     None \<Rightarrow> Inr input
   | Some h \<Rightarrow>
       and_then (lower_predicate D \<lparr>lw_schema = plan_schema D input, lw_grouped = grouped, lw_mapped = mapped\<rparr> (Some h)) (\<lambda>e.
       upstream (filter_plan D (the e) input)))"

definition window_step :: "('p, 's, 'x) datafusion \<Rightarrow> 's lower \<Rightarrow> nat \<times> bexpr \<Rightarrow> 'p \<times> (bexpr \<times> df_expr) list \<Rightarrow>
    'x plan_error + 'p \<times> (bexpr \<times> df_expr) list" where
  "window_step D L = (\<lambda>(n, e) (input, mapped). case be_kind e of
     KWindow w \<Rightarrow>
       and_then (lower_window D L w) (\<lambda>v. let name = ''__window'' @ show_nat n in
       and_then (mapped_column D (plan_schema D input) v (be_type e) name) (\<lambda>m.
       and_then (upstream (window_plan D [EAlias v name] input)) (\<lambda>plan.
       Inr (plan, mapped @ [(e, m)]))))
   | _ \<Rightarrow> Inl (InvalidBound ''expected window''))"

definition sort_phase :: "('p, 's, 'x) datafusion \<Rightarrow> bool \<Rightarrow> (bexpr \<times> df_expr) list \<Rightarrow> bexpr border_by list \<Rightarrow> 'p \<Rightarrow> 'x plan_error + 'p" where
  "sort_phase D grouped mapped order_by input =
     (if order_by = [] then Inr input
      else and_then (lower_order D \<lparr>lw_schema = plan_schema D input, lw_grouped = grouped, lw_mapped = mapped\<rparr> order_by) (\<lambda>os.
        Inr (sort_plan D os input)))"

definition output_schema :: "named_expr list \<Rightarrow> output_field list" where
  "output_schema projection = map (\<lambda>p. \<lparr>of_name = ne_name p, of_type = be_type (ne_expr p), of_nullable = be_nullable (ne_expr p),
     of_origin = (case be_kind (ne_expr p) of KColumn c \<Rightarrow> Some c | _ \<Rightarrow> None)\<rparr>) projection"

definition project_phase :: "('p, 's, 'x) datafusion \<Rightarrow> bool \<Rightarrow> (bexpr \<times> df_expr) list \<Rightarrow> named_expr list \<Rightarrow> 'p \<Rightarrow>
    'x plan_error + 'p planned_statement" where
  "project_phase D grouped mapped projection input =
     (let L = \<lparr>lw_schema = plan_schema D input, lw_grouped = grouped, lw_mapped = mapped\<rparr> in
      and_then (try_map (\<lambda>(n, p). and_then (lower_expr D L (ne_expr p) 1) (\<lambda>e. Inr (EAlias e (''__output'' @ show_nat n))))
        (enumerate 0 projection)) (\<lambda>es.
      and_then (upstream (projection_plan D es input)) (\<lambda>plan.
      and_then (upstream (check_invariants D plan)) (\<lambda>_.
      Inr (PQuery plan (output_schema projection))))))"

definition output_phases :: "('p, 's, 'x) datafusion \<Rightarrow> bound_select \<Rightarrow> bool \<Rightarrow> (bexpr \<times> df_expr) list \<Rightarrow> 'p \<Rightarrow>
    'x plan_error + 'p planned_statement" where
  "output_phases D q grouped mapped input =
     and_then (having_phase D grouped mapped (se_having q) input) (\<lambda>input.
     and_then (try_fold (collect_exprs True 1) (map ne_expr (se_projection q) @ map bo_expr (se_order_by q)) []) (\<lambda>windows.
     and_then (try_fold (window_step D \<lparr>lw_schema = plan_schema D input, lw_grouped = grouped, lw_mapped = mapped\<rparr>)
       (enumerate 0 windows) (input, mapped)) (\<lambda>(input, mapped).
     and_then (sort_phase D grouped mapped (se_order_by q) input) (\<lambda>input.
     project_phase D grouped mapped (se_projection q) input))))"

definition plan_select :: "('p, 's, 'x) datafusion \<Rightarrow> bound_select \<Rightarrow> 'x plan_error + 'p planned_statement" where
  "plan_select D q =
     and_then (try_all check_depth (select_checked q)) (\<lambda>_.
     and_then (select_input D q) (\<lambda>input.
     and_then (where_filter D input (se_filter q)) (\<lambda>input.
     and_then (try_fold (collect_exprs False 1) (select_exprs q) []) (\<lambda>aggregates.
     let grouped = (se_group_by q \<noteq> [] \<or> se_having q \<noteq> None \<or> aggregates \<noteq> []) in
     if grouped \<noteq> se_is_aggregate q then Inl (InvalidBound ''inconsistent is_aggregate flag'')
     else and_then (if grouped then aggregate_phase D (se_group_by q) aggregates input else Inr (input, [])) (\<lambda>(input, mapped).
     output_phases D q grouped mapped input)))))"

section \<open>INSERT, UPDATE and DELETE\<close>

definition insert_row :: "('p, 's, 'x) datafusion \<Rightarrow> column_schema list \<Rightarrow> bexpr list \<Rightarrow> 'x plan_error + df_expr list" where
  "insert_row D columns row =
     (if length row \<noteq> length columns then Inl (InvalidBound ''INSERT row width differs from target'')
      else try_map (\<lambda>(v, c).
        and_then (check_depth v) (\<lambda>_.
        if be_type v \<noteq> col_type c then Inl (InvalidBound ''INSERT value type differs from target'')
        else lower_expr D (lower_raw (empty_schema D)) v 1)) (zip row columns))"

definition insert_fields :: "column_schema list \<Rightarrow> bexpr list list \<Rightarrow> arrow_field list" where
  "insert_fields columns rows = map (\<lambda>(n, c). \<lparr>af_name = ''__insert'' @ show_nat n, af_type = arrow_of (col_type c),
     af_nullable = list_ex (\<lambda>row. be_nullable (row ! n)) rows\<rparr>) (enumerate 0 columns)"

definition plan_insert :: "('p, 's, 'x) datafusion \<Rightarrow> bound_insert \<Rightarrow> 'x plan_error + 'p planned_statement" where
  "plan_insert D i =
     (let columns = source_columns (in_table i) in
      and_then (try_map (insert_row D columns) (in_rows i)) (\<lambda>rows.
      and_then (upstream (schema_try_from D (insert_fields columns (in_rows i)))) (\<lambda>schema.
      and_then (upstream (values_plan D rows schema)) (\<lambda>input.
      case set_values_schema D schema input of
        None \<Rightarrow> Inl (InvalidBound ''expected VALUES input'')
      | Some input \<Rightarrow>
          and_then (map_err DataFusionError (try_insert D (in_table i) input
            (map (\<lambda>n. column_named (''__insert'' @ show_nat n)) [0..<length columns]))) (\<lambda>node.
          Inr (PModifyTable (extension_plan D node)))))))"

definition plan_assignment :: "('p, 's, 'x) datafusion \<Rightarrow> 's lower \<Rightarrow> column_schema list \<Rightarrow> nat \<times> bound_assignment \<Rightarrow>
    'x plan_error + df_expr \<times> update_assignment" where
  "plan_assignment D L columns = (\<lambda>(n, a).
     and_then (check_depth (ba_value a)) (\<lambda>_.
     if length columns \<le> ba_column a then Inl (InvalidBound ''UPDATE target index is out of bounds'')
     else if col_type (columns ! ba_column a) \<noteq> be_type (ba_value a) then Inl (InvalidBound ''UPDATE value type differs from target'')
     else let name = ''__new'' @ show_nat n in
       and_then (lower_expr D L (ba_value a) 1) (\<lambda>e.
       Inr (EAlias e name, \<lparr>ua_target = ba_column a, ua_value = column_named name\<rparr>))))"

definition plan_update :: "('p, 's, 'x) datafusion \<Rightarrow> bound_update \<Rightarrow> 'x plan_error + 'p planned_statement" where
  "plan_update D u =
     and_then (upstream (scan D (up_table u) True)) (\<lambda>input.
     and_then (where_filter D input (up_filter u)) (\<lambda>input.
     and_then (try_map (plan_assignment D (lower_raw (plan_schema D input)) (source_columns (up_table u)))
       (enumerate 0 (up_assignments u))) (\<lambda>parts.
     and_then (upstream (projection_plan D (EAlias (EColumn (ctid_column (up_table u))) ''__ctid'' # map fst parts) input)) (\<lambda>input.
     and_then (map_err DataFusionError (try_update D (up_table u) input (column_named ''__ctid'') (map snd parts))) (\<lambda>node.
     Inr (PModifyTable (extension_plan D node)))))))"

definition plan_delete :: "('p, 's, 'x) datafusion \<Rightarrow> bound_delete \<Rightarrow> 'x plan_error + 'p planned_statement" where
  "plan_delete D d =
     and_then (upstream (scan D (de_table d) True)) (\<lambda>input.
     and_then (where_filter D input (de_filter d)) (\<lambda>input.
     and_then (upstream (project_plan D [EColumn (ctid_column (de_table d))] input)) (\<lambda>input.
     and_then (map_err DataFusionError (try_delete D (de_table d) input (ctid_column (de_table d)))) (\<lambda>node.
     Inr (PModifyTable (extension_plan D node))))))"

section \<open>Dispatch\<close>

fun plan_statement :: "('p, 's, 'x) datafusion \<Rightarrow> bound_statement \<Rightarrow> 'x plan_error + 'p planned_statement" where
  "plan_statement D (BSelect q) = plan_select D q"
| "plan_statement D (BCreateTable d) = Inr (PCommand (CmdCreateTable d))"
| "plan_statement D BBegin = Inr (PCommand CmdBegin)"
| "plan_statement D BCommit = Inr (PCommand CmdCommit)"
| "plan_statement D BRollback = Inr (PCommand CmdRollback)"
| "plan_statement D (BInsert i) = plan_insert D i"
| "plan_statement D (BUpdate u) = plan_update D u"
| "plan_statement D (BDelete d) = plan_delete D d"

end
