(* ===== verification/PlannerSpec.thy ===== *)
theory PlannerSpec
  imports Planner
begin

text \<open>
  What planning promises of the statements the binder accepts: the nesting limit is exact, and
  none of the planner's own checks fires on a bound statement, those of the modification node
  included, so that every other failure is an error DataFusion returned while the plan was
  constructed. The laws assumed of DataFusion are documented ones. On schemas: a scan offers the columns
  of its source under its qualifier, a filter and a sort keep the schema, a window node keeps
  the columns of its input, a projection has one column per expression, and columns of distinct
  names are found by name. On types: those of columns, literals, casts, tests and of operators on
  operands of one type. On nodes: scans, \<^verbatim>\<open>Values\<close>, filters and projections contain no modification.
\<close>

section \<open>Nesting\<close>

fun expr_depth :: "bexpr \<Rightarrow> nat" where
  "expr_depth e = Suc (max_list (map expr_depth (operands e)))"

declare expr_depth.simps [simp del] operands.simps [simp del]

lemma expr_depth_le: "n + expr_depth e \<le> 257 \<longleftrightarrow> n \<le> 256 \<and> (\<forall>c \<in> set (operands e). Suc n + expr_depth c \<le> 257)"
proof -
  have "n + expr_depth e \<le> 257 \<longleftrightarrow> n \<le> 256 \<and> max_list (map expr_depth (operands e)) \<le> 256 - n"
    by (subst expr_depth.simps) auto
  also have "\<dots> \<longleftrightarrow> n \<le> 256 \<and> (\<forall>c \<in> set (operands e). expr_depth c \<le> 256 - n)"
    by (simp add: max_list_le)
  finally have eq: "n + expr_depth e \<le> 257 \<longleftrightarrow> n \<le> 256 \<and> (\<forall>c \<in> set (operands e). expr_depth c \<le> 256 - n)" .
  have "expr_depth c \<le> 256 - n \<longleftrightarrow> Suc n + expr_depth c \<le> 257" if "n \<le> 256" for c using that by arith
  then show ?thesis unfolding eq by auto
qed

lemma depth_loop_exact:
  "(depth_loop stack :: 'x plan_error + unit) = (if \<forall>(e, n) \<in> set stack. n + expr_depth e \<le> 257 then Inr () else Inl PlanTooDeep)"
proof (induction stack rule: measure_induct_rule [where f = "\<lambda>stack. sum_list (map (size \<circ> fst) stack)"])
  case (less stack)
  show ?case
  proof (cases stack)
    case Nil
    then show ?thesis by (simp add: depth_loop.simps)
  next
    case (Cons p rest)
    obtain e n where p: "p = (e, n)" by fastforce
    show ?thesis
    proof (cases "n \<le> 256")
      case True
      let ?next = "rev (map (\<lambda>c. (c, n + 1)) (operands e)) @ rest"
      have "(depth_loop stack :: 'x plan_error + unit) = depth_loop ?next"
        using True by (subst depth_loop.simps) (simp add: Cons p depth_check_def)
      also have "\<dots> = (if \<forall>(e, n) \<in> set ?next. n + expr_depth e \<le> 257 then Inr () else Inl PlanTooDeep)"
        by (rule less.IH) (use operands_sizes [of e] in \<open>simp add: Cons p rev_map [symmetric] comp_def sum_list_rev\<close>)
      also have "(\<forall>(e, n) \<in> set ?next. n + expr_depth e \<le> 257) \<longleftrightarrow> (\<forall>(e, n) \<in> set stack. n + expr_depth e \<le> 257)"
        using True expr_depth_le [of n e] by (simp add: Cons p ball_Un)
      finally show ?thesis .
    next
      case False
      then have "(depth_loop stack :: 'x plan_error + unit) = Inl PlanTooDeep"
        by (subst depth_loop.simps) (simp add: Cons p depth_check_def)
      with False show ?thesis using expr_depth_le [of n e] by (auto simp: Cons p)
    qed
  qed
qed

lemma check_depth_exact: "check_depth e = (if expr_depth e \<le> 256 then Inr () else Inl PlanTooDeep)"
  by (simp add: check_depth_def depth_loop_exact)

section \<open>Lowering\<close>











section \<open>Collecting\<close>








definition covers :: "bexpr list \<Rightarrow> bexpr list \<Rightarrow> bool" where
  "covers M es \<longleftrightarrow> (\<forall>x \<in> set es. list_ex (\<lambda>g. expr_eq g x) M)"

lemma covers_simps [simp]: "covers M []" "covers M (x # es) \<longleftrightarrow> list_ex (\<lambda>g. expr_eq g x) M \<and> covers M es"
  "covers M (es @ es') \<longleftrightarrow> covers M es \<and> covers M es'"
  by (auto simp: covers_def)







section \<open>Typed expressions\<close>














lemma expr_eq_kind: "expr_eq g e \<longleftrightarrow> be_type g = be_type e \<and> be_nullable g = be_nullable e \<and> kind_eq expr_eq (be_kind g) (be_kind e)"
  by (cases g; cases e) simp




section \<open>What each phase can lower\<close>







section \<open>The laws of DataFusion\<close>





text \<open>
  Type inference: the type of a column is its field's, of a literal its value's, of a cast the
  target type; aliases and negation keep the type, tests are Boolean, and an operator on operands of one
  type has the result type of that operator.
\<close>

fun value_type :: "scalar_value \<Rightarrow> arrow_type option" where
  "value_type SvNull = Some ANull"
| "value_type (SvBoolean v) = Some ABoolean"
| "value_type (SvInt32 v) = Some AInt32"
| "value_type (SvInt64 v) = Some AInt64"
| "value_type (SvUInt32 v) = Some AUInt32"
| "value_type (SvFloat32 v) = Some AFloat32"
| "value_type (SvFloat64 v) = Some AFloat64"
| "value_type (SvUtf8 v) = Some AUtf8"
| "value_type (SvUInt64 v) = None"
| "value_type (SvOther v) = None"



text \<open>
  A projection has one column per expression, with the alias or the name of the column as its
  name and the expression's type, and a projected column is nullable when it was before.
\<close>

fun projected_column :: "df_expr \<Rightarrow> df_column option" where
  "projected_column (EAlias e name) = Some (column_named name)"
| "projected_column (EColumn c) = Some c"
| "projected_column _ = None"

fun source_column :: "df_expr \<Rightarrow> df_column option" where
  "source_column (EAlias e name) = source_column e"
| "source_column (EColumn c) = Some c"
| "source_column _ = None"



text \<open>
  Scans and \<^verbatim>\<open>Values\<close> nodes contain no modification or command, and filters and projections by
  expressions without subqueries add none. The schema of a \<^verbatim>\<open>Values\<close> node can be replaced.
\<close>

definition relational :: "('p, 's, 'x) datafusion \<Rightarrow> 'p \<Rightarrow> bool" where
  "relational D p \<longleftrightarrow> (\<forall>q \<in> set (visited_plans D p). as_modify_table D q = None \<and> \<not> is_command_plan D q)"





lemma upstream_Inr [simp]: "upstream r = Inr x \<longleftrightarrow> r = Inr x"
  by (simp add: upstream_def)






section \<open>Failures of each phase\<close>















section \<open>SELECT\<close>

























section \<open>Planned modifications pass their own validation\<close>










section \<open>INSERT, UPDATE and DELETE\<close>


















section \<open>Statements\<close>





lemma check_depth_Inr [simp]: "check_depth e = Inr u \<longleftrightarrow> expr_depth e \<le> 256"
  by (auto simp: check_depth_exact)









section \<open>A DataFusion with these laws\<close>

text \<open>
  Plans that are their schemas: the columns with their fields, in order. Scans of sources with
  distinct column names succeed, filters and sorts keep the schema, windows append to it.
\<close>

type_synonym sample_schema = "(df_column \<times> arrow_field) list"

definition sample_lookup_field :: "sample_schema \<Rightarrow> df_column \<Rightarrow> string + arrow_field" where
  "sample_lookup_field s c = ok_or ''no such field'' (map_of s c)"

definition sample_index :: "sample_schema \<Rightarrow> df_column \<Rightarrow> string + nat" where
  "sample_index s c = ok_or ''no such field'' (map_of (zip (map fst s) [0..<length s]) c)"

fun sample_type :: "df_expr \<Rightarrow> sample_schema \<Rightarrow> string + arrow_type" where
  "sample_type (EColumn c) s = and_then (sample_lookup_field s c) (\<lambda>f. Inr (af_type f))"
| "sample_type (ELiteral v) s = ok_or ''no such type'' (value_type v)"
| "sample_type (EAlias e name) s = sample_type e s"
| "sample_type (ENegative e) s = sample_type e s"
| "sample_type (ECast e t) s = Inr t"
| "sample_type (EBinary l op r) s = (if op \<in> {DfPlus, DfMinus, DfMultiply, DfDivide, DfModulo} then sample_type l s else Inr ABoolean)"
| "sample_type (EAggregate f args d flt) s = Inr AInt64"
| "sample_type _ s = Inr ABoolean"

fun sample_null :: "arrow_type \<Rightarrow> scalar_value" where
  "sample_null ANull = SvNull"
| "sample_null ABoolean = SvBoolean None"
| "sample_null AInt32 = SvInt32 None"
| "sample_null AInt64 = SvInt64 None"
| "sample_null AUInt32 = SvUInt32 None"
| "sample_null AFloat32 = SvFloat32 None"
| "sample_null AFloat64 = SvFloat64 None"
| "sample_null AUtf8 = SvUtf8 None"
| "sample_null _ = SvOther ''NULL''"

definition sample_nullable :: "df_expr \<Rightarrow> sample_schema \<Rightarrow> bool" where
  "sample_nullable e s = (case Option.bind (source_column e) (map_of s) of Some f \<Rightarrow> af_nullable f | None \<Rightarrow> True)"

definition sample_named :: "df_expr \<Rightarrow> df_column" where
  "sample_named e = (case projected_column e of Some c \<Rightarrow> c | None \<Rightarrow> column_named ''expr'')"

definition sample_project :: "df_expr list \<Rightarrow> sample_schema \<Rightarrow> string + sample_schema" where
  "sample_project es s = try_map (\<lambda>e. and_then (sample_type e s) (\<lambda>t.
     Inr (sample_named e, \<lparr>af_name = dc_name (sample_named e), af_type = t, af_nullable = sample_nullable e s\<rparr>))) es"

definition sample_fields :: "arrow_field list \<Rightarrow> sample_schema" where
  "sample_fields fs = map (\<lambda>f. (column_named (af_name f), f)) fs"

definition sample_datafusion :: "(sample_schema, sample_schema, string) datafusion" where
  "sample_datafusion = \<lparr>
     null_scalar = \<lambda>t. Inr (sample_null t),
     empty_schema = [],
     schema_try_from = \<lambda>fs. if distinct (map af_name fs) then Inr (sample_fields fs) else Inl ''duplicate field'',
     schema_fields = map snd,
     schema_columns = map fst,
     index_of_column = sample_index,
     field_from_column = sample_lookup_field,
     get_type = sample_type,
     plan_schema = \<lambda>p. p,
     scan_plan = \<lambda>q a. if distinct (map af_name (ta_schema a)) then Inr (map (\<lambda>f. (DfColumn (Some q) (af_name f), f)) (ta_schema a))
       else Inl ''duplicate field'',
     empty_plan = Inr [],
     values_plan = \<lambda>rows s. Inr s,
     project_plan = sample_project,
     set_values_schema = \<lambda>s p. Some s,
     filter_plan = \<lambda>e p. Inr p,
     aggregate_plan = \<lambda>p groups aggs. sample_project (groups @ aggs) p,
     window_plan = \<lambda>es p. and_then (sample_project es p) (\<lambda>fs. Inr (p @ fs)),
     projection_plan = sample_project,
     sort_plan = \<lambda>os p. p,
     extension_plan = mt_schema,
     as_modify_table = \<lambda>p. None,
     is_command_plan = \<lambda>p. False,
     visited_plans = \<lambda>p. [p],
     check_invariants = \<lambda>p. Inr ()\<rparr>"


lemma sample_operations [simp]:
  "plan_schema sample_datafusion p = p" "schema_fields sample_datafusion s = map snd s" "schema_columns sample_datafusion s = map fst s"
  "field_from_column sample_datafusion s c = sample_lookup_field s c" "get_type sample_datafusion e s = sample_type e s"
  "project_plan sample_datafusion = sample_project" "projection_plan sample_datafusion = sample_project"
  "relational sample_datafusion p"
  by (simp_all add: sample_datafusion_def relational_def)













text \<open>
  C40: The extension node survives rewriting. A \<^verbatim>\<open>ModifyTable\<close> node that satisfies its invariants is
  rebuilt from its own expressions and input as itself; whatever expressions and inputs a
  rewrite supplies, an accepted rebuild satisfies the invariants again and keeps the target, the
  operation and the updated columns, with exactly the supplied columns over the supplied input.
\<close>

theorem modify_table_rebuild:
  "(node_check_invariants D m = Inr () \<longrightarrow> rebuild D m (node_expressions m) [mt_input m] = Inr m) \<and>
   (\<forall>exprs inputs m'. rebuild D m exprs inputs = Inr m' \<longrightarrow>
      node_check_invariants D m' = Inr () \<and> mt_target m' = mt_target m \<and> inputs = [mt_input m'] \<and> exprs = node_expressions m' \<and>
      (case (mt_operation m, mt_operation m') of
         (MInsert vs, MInsert vs') \<Rightarrow> length vs' = length vs
       | (MUpdate c as, MUpdate c' as') \<Rightarrow> map ua_target as' = map ua_target as
       | (MDelete c, MDelete c') \<Rightarrow> True
       | _ \<Rightarrow> False))"
proof (rule conjI; intro allI impI)
  show "rebuild D m (node_expressions m) [mt_input m] = Inr m" if "node_check_invariants D m = Inr ()"
    using that by (rule rebuild_own)
next
  fix exprs inputs m'
  assume r: "rebuild D m exprs inputs = Inr m'"
  from rebuild_Inr [OF r] obtain input operation where n: "inputs = [input]" "try_new D (mt_target m) input operation = Inr m'"
      "exprs = node_expressions m'" "length exprs = length (node_columns m)"
      "case (mt_operation m, operation) of (MInsert _, MInsert _) \<Rightarrow> True
        | (MUpdate _ as, MUpdate _ as') \<Rightarrow> map ua_target as' = map ua_target as
        | (MDelete _, MDelete _) \<Rightarrow> True | _ \<Rightarrow> False"
    by blast
  from try_new_invariants [OF n(2)] n
  show "node_check_invariants D m' = Inr () \<and> mt_target m' = mt_target m \<and> inputs = [mt_input m'] \<and> exprs = node_expressions m' \<and>
      (case (mt_operation m, mt_operation m') of
         (MInsert vs, MInsert vs') \<Rightarrow> length vs' = length vs
       | (MUpdate c as, MUpdate c' as') \<Rightarrow> map ua_target as' = map ua_target as
       | (MDelete c, MDelete c') \<Rightarrow> True
       | _ \<Rightarrow> False)"
    by (auto simp: try_new_Inr node_expressions_def node_columns_def split: modification.splits)
qed

definition sample_delete :: "(sample_schema, sample_schema) modify_table" where
  "sample_delete = \<lparr>mt_target = \<lparr>bt_relation = 0, bt_source = sample_source\<rparr>,
     mt_input = [(column_named ''__ctid'', \<lparr>af_name = ''__ctid'', af_type = ctid_type, af_nullable = False\<rparr>)],
     mt_operation = MDelete (column_named ''__ctid''),
     mt_schema = sample_fields [\<lparr>af_name = ''affected_rows'', af_type = AInt64, af_nullable = False\<rparr>]\<rparr>"

lemma sample_delete_ok: "node_check_invariants sample_datafusion sample_delete = Inr ()"
  by (simp add: node_check_invariants_def validate_node_def ensure_relational_input_def is_modify_table_def validate_ctid_def input_field_def
      completion_schema_def sample_delete_def sample_datafusion_def sample_index_def)

theorem modify_table_rebuild_witness:
  "rebuild sample_datafusion sample_delete (node_expressions sample_delete) [mt_input sample_delete] = Inr sample_delete \<and>
   node_check_invariants sample_datafusion sample_delete = Inr () \<and>
   node_expressions sample_delete = [EColumn (column_named ''__ctid'')]"
  using modify_table_rebuild [of sample_datafusion sample_delete] sample_delete_ok
  by (auto simp: node_expressions_def node_columns_def sample_delete_def)

end
