(* ===== verification/GrammarText.thy ===== *)
theory GrammarText
  imports PegSpec
begin

text \<open>
  The reader of grammar texts, \<^verbatim>\<open>Grammar\<close> in \<^verbatim>\<open>crates/peg/src/lib.rs\<close>, which turns the argument of
  \<^verbatim>\<open>grammar!\<close> into rules. A reader is a text, a byte position and the current nesting; an operation
  returns its result and the reader it leaves behind. The mutual recursion of choices, sequences
  and terms is unrolled to the nesting limit: a choice increments the nesting, and the limit of
  128 is checked before it reads anything, so level 129 never reads.
\<close>

section \<open>Characters\<close>

record grammar_text =
  gr_text :: string
  gr_pos :: nat
  gr_nesting :: nat

type_synonym 'a reader_of = "(grammar_text, string, 'a) io"

definition rest :: "grammar_text \<Rightarrow> string" where
  "rest g = drop (gr_pos g) (gr_text g)"

definition advance :: "nat \<Rightarrow> grammar_text \<Rightarrow> grammar_text" where
  "advance n g = g\<lparr>gr_pos := gr_pos g + n\<rparr>"

definition grammar_error :: "string \<Rightarrow> 'a reader_of" where
  "grammar_error message g = (Inl (''grammar byte '' @ show_nat (gr_pos g) @ '': '' @ message), g)"

definition peek :: "grammar_text \<Rightarrow> nat option" where
  "peek g = map_option fst (next_char (rest g))"

definition bump :: "grammar_text \<Rightarrow> nat option \<times> grammar_text" where
  "bump g = (case next_char (rest g) of None \<Rightarrow> (None, g) | Some (c, n) \<Rightarrow> (Some c, advance n g))"

abbreviation sees :: "char \<Rightarrow> grammar_text \<Rightarrow> bool" where
  "sees c g \<equiv> peek g = Some (of_char c)"

text \<open>\<^verbatim>\<open>char::is_whitespace\<close>: the scalar values with the \<^verbatim>\<open>White_Space\<close> property.\<close>

definition is_whitespace :: "nat \<Rightarrow> bool" where
  "is_whitespace c \<longleftrightarrow> 9 \<le> c \<and> c \<le> 13 \<or> c = 32 \<or> c = 133 \<or> c = 160 \<or> c = 5760 \<or> 8192 \<le> c \<and> c \<le> 8202 \<or>
     c \<in> {8232, 8233, 8239, 8287, 12288}"

definition name_start :: "nat \<Rightarrow> bool" where
  "name_start c \<longleftrightarrow> 65 \<le> c \<and> c \<le> 90 \<or> 97 \<le> c \<and> c \<le> 122 \<or> c = 95"

definition name_part :: "nat \<Rightarrow> bool" where
  "name_part c \<longleftrightarrow> name_start c \<or> 48 \<le> c \<and> c \<le> 57"

text \<open>\<^verbatim>\<open>String::push\<close> appends the UTF-8 bytes of a scalar value.\<close>

definition encode_utf8 :: "nat \<Rightarrow> string" where
  "encode_utf8 c = map char_of
     (if c < 128 then [c]
      else if c < 2048 then [192 + c div 64, 128 + c mod 64]
      else if c < 65536 then [224 + c div 4096, 128 + c div 64 mod 64, 128 + c mod 64]
      else [240 + c div 262144, 128 + c div 4096 mod 64, 128 + c div 64 mod 64, 128 + c mod 64])"

definition from_u32 :: "nat \<Rightarrow> nat option" where
  "from_u32 v = (if v < 55296 \<or> 57344 \<le> v \<and> v \<le> 1114111 then Some v else None)"

definition to_digit16 :: "nat \<Rightarrow> nat option" where
  "to_digit16 c =
     (if 48 \<le> c \<and> c \<le> 57 then Some (c - 48)
      else if 97 \<le> c \<and> c \<le> 102 then Some (c - 87)
      else if 65 \<le> c \<and> c \<le> 70 then Some (c - 55) else None)"

section \<open>Progress\<close>

definition remaining :: "grammar_text \<Rightarrow> nat" where
  "remaining g = length (gr_text g) - gr_pos g"

lemma remaining_rest: "remaining g = length (rest g)"
  by (simp add: remaining_def rest_def)

lemma next_char_pos: "next_char s = Some (c, n) \<Longrightarrow> s \<noteq> [] \<and> 0 < n"
  by (cases s) (auto simp: Let_def split: if_splits)

lemma advance_simps [simp]:
  "gr_text (advance n g) = gr_text g" "gr_nesting (advance n g) = gr_nesting g" "gr_pos (advance n g) = gr_pos g + n"
  "rest (advance n g) = drop n (rest g)" "remaining (advance n g) = remaining g - n"
  by (simp_all add: advance_def rest_def remaining_def add.commute)

lemma next_char_progress: "next_char (rest g) = Some (c, n) \<Longrightarrow> remaining (advance n g) < remaining g"
  using next_char_pos [of "rest g" c n] by (auto simp: remaining_rest)

text \<open>What every operation does to the reader: the text and the nesting stay, the position does not go back.\<close>

definition later :: "grammar_text \<Rightarrow> grammar_text \<Rightarrow> bool" where
  "later g g' \<longleftrightarrow> gr_text g' = gr_text g \<and> gr_nesting g' = gr_nesting g \<and> remaining g' \<le> remaining g"

definition further :: "grammar_text \<Rightarrow> grammar_text \<Rightarrow> bool" where
  "further g g' \<longleftrightarrow> later g g' \<and> remaining g' < remaining g"

lemma later_simps [simp, intro]: "later g g" "later g (advance n g)"
  by (simp_all add: later_def)

lemma later_trans: "later g g1 \<Longrightarrow> later g1 g' \<Longrightarrow> later g g'"
  by (simp add: later_def)

lemma further_trans: "further g g1 \<Longrightarrow> later g1 g' \<Longrightarrow> further g g'" "later g g1 \<Longrightarrow> further g1 g' \<Longrightarrow> further g g'"
  by (auto simp: further_def later_def)

lemma further_later: "further g g' \<Longrightarrow> later g g'"
  by (simp add: further_def)

lemma bump_Some: "bump g = (Some c, g') \<Longrightarrow> further g g'"
  using next_char_progress [of g] by (auto simp: bump_def further_def split: option.splits)

lemma bump_None: "bump g = (None, g') \<longleftrightarrow> peek g = None \<and> g' = g"
  by (auto simp: bump_def peek_def split: option.splits)

lemma bump_later: "bump g = (r, g') \<Longrightarrow> later g g'"
  using bump_Some [of g] by (cases r) (auto simp: bump_None further_later)

lemma bump_peek: "peek g = Some c \<Longrightarrow> \<exists>g'. bump g = (Some c, g') \<and> further g g'"
  using next_char_progress [of g] by (auto simp: peek_def bump_def further_def)

section \<open>Blanks, symbols and names\<close>

text \<open>\<^verbatim>\<open>while self.peek().is_some_and(p) { self.bump(); }\<close>\<close>

function bump_while :: "(nat \<Rightarrow> bool) \<Rightarrow> grammar_text \<Rightarrow> grammar_text" where
  "bump_while p g = (case next_char (rest g) of
     None \<Rightarrow> g
   | Some (c, n) \<Rightarrow> if p c then bump_while p (advance n g) else g)"
  by pat_completeness auto
termination
  by (relation "measure (remaining \<circ> snd)") (auto dest: next_char_progress)

declare bump_while.simps [simp del]

lemma bump_while_later: "later g (bump_while p g)"
proof (induction p g rule: bump_while.induct)
  case (1 p g)
  show ?case
    by (subst bump_while.simps) (auto split: option.split intro: later_trans [OF later_simps(2) "1.IH"])
qed

text \<open>\<^verbatim>\<open>while self.bump().is_some_and(|c| c != '\\n') {}\<close>\<close>

function skip_line :: "grammar_text \<Rightarrow> grammar_text" where
  "skip_line g = (case next_char (rest g) of
     None \<Rightarrow> g
   | Some (c, n) \<Rightarrow> if c \<noteq> 10 then skip_line (advance n g) else advance n g)"
  by pat_completeness auto
termination
  by (relation "measure remaining") (auto dest: next_char_progress)

declare skip_line.simps [simp del]

lemma skip_line_later: "later g (skip_line g)"
proof (induction g rule: skip_line.induct)
  case (1 g)
  show ?case
    by (subst skip_line.simps) (auto split: option.split intro: later_trans [OF later_simps(2) "1.IH"])
qed

lemma skip_line_further:
  assumes "peek g \<noteq> None"
  shows "further g (skip_line g)"
proof -
  from assms obtain c n where n: "next_char (rest g) = Some (c, n)" by (auto simp: peek_def)
  have "further g (advance n g)" using next_char_progress [OF n] by (auto simp: further_def)
  with n show ?thesis
    by (subst skip_line.simps) (auto intro: further_trans(1) [OF _ skip_line_later])
qed

function skip :: "grammar_text \<Rightarrow> grammar_text" where
  "skip g = (let g = bump_while is_whitespace g in if sees (CHR ''#'') g then skip (skip_line g) else g)"
  by pat_completeness auto
termination
proof (relation "measure remaining")
  fix g x assume "x = bump_while is_whitespace g" "sees (CHR ''#'') x"
  with bump_while_later [of g is_whitespace] skip_line_further [of x] show "(skip_line x, g) \<in> measure remaining"
    by (auto simp: further_def later_def)
qed simp

declare skip.simps [simp del]

lemma skip_later: "later g (skip g)"
proof (induction g rule: skip.induct)
  case (1 g)
  let ?g = "bump_while is_whitespace g"
  have "later g (skip (skip_line ?g))" if "sees (CHR ''#'') ?g"
    using later_trans [OF later_trans [OF bump_while_later skip_line_later] "1.IH" [OF refl that]] .
  then show ?case by (subst skip.simps) (simp add: Let_def bump_while_later)
qed

definition eat :: "string \<Rightarrow> grammar_text \<Rightarrow> bool \<times> grammar_text" where
  "eat s g = (let g = skip g in if take (length s) (rest g) = s then (True, advance (length s) g) else (False, g))"

lemma eat_later: "eat s g = (b, g') \<Longrightarrow> later g g'"
  using skip_later [of g] by (auto simp: eat_def Let_def split: if_splits intro: later_trans)

lemma eat_further: "eat s g = (True, g') \<Longrightarrow> s \<noteq> [] \<Longrightarrow> further g g'"
proof -
  assume e: "eat s g = (True, g')" and s: "s \<noteq> []"
  then have "take (length s) (rest (skip g)) = s" "g' = advance (length s) (skip g)"
    by (auto simp: eat_def Let_def split: if_splits)
  then have "remaining g' < remaining (skip g)" using s
    by (metis advance_simps(4) diff_less length_drop length_greater_0_conv remaining_rest take_eq_Nil)
  with \<open>g' = _\<close> have "further (skip g) g'" by (auto simp: further_def)
  with skip_later [of g] show ?thesis by (rule further_trans(2))
qed

definition rule_name_of :: "string reader_of" where
  "rule_name_of g =
     (let g = skip g; start = gr_pos g in
      if \<not> (case peek g of Some c \<Rightarrow> name_start c | None \<Rightarrow> False) then grammar_error ''expected rule name'' g
      else let g = bump_while name_part (snd (bump g)) in (Inr (take (gr_pos g - start) (drop start (gr_text g))), g))"

lemma rule_name_further: "rule_name_of g = (Inr s, g') \<Longrightarrow> further g g'"
proof -
  assume r: "rule_name_of g = (Inr s, g')"
  then obtain c where c: "peek (skip g) = Some c" and g': "g' = bump_while name_part (snd (bump (skip g)))"
    by (auto simp: rule_name_of_def grammar_error_def Let_def split: if_splits option.splits)
  from bump_peek [OF c] have "further (skip g) (snd (bump (skip g)))" by auto
  with skip_later [of g] bump_while_later g' show ?thesis by (blast intro: further_trans)
qed

section \<open>Characters of literals and classes\<close>

definition simple_escape :: "nat \<Rightarrow> nat option" where
  "simple_escape c =
     (if c = of_char (CHR ''n'') then Some 10
      else if c = of_char (CHR ''r'') then Some 13
      else if c = of_char (CHR ''t'') then Some 9
      else if c = of_char (CHR ''0'') then Some 0
      else if c \<in> {92, 39, 34, 91, 93, 45, 94} then Some c
      else None)"

definition hex_digit :: "string \<Rightarrow> nat reader_of" where
  "hex_digit message g = (case bump g of (c, g) \<Rightarrow>
     (case Option.bind c to_digit16 of Some d \<Rightarrow> (Inr d, g) | None \<Rightarrow> grammar_error message g))"

lemma hex_digit_further: "hex_digit m g = (Inr d, g') \<Longrightarrow> further g g'"
  using bump_Some [of g]
  by (auto simp: hex_digit_def grammar_error_def split: prod.splits option.splits Option.bind_splits)

text \<open>The loop over the digits of \<^verbatim>\<open>\u{...}\<close>, with the value and the number of digits so far.\<close>

function unicode_digits :: "nat \<Rightarrow> nat \<Rightarrow> (nat \<times> nat) reader_of" where
  "unicode_digits v digits g =
     (if sees (CHR ''}'') g then (Inr (v, digits), g)
      else case hex_digit ''invalid Unicode escape'' g of
        (Inl e, g) \<Rightarrow> (Inl e, g)
      | (Inr d, g) \<Rightarrow> if digits + 1 > 6 then grammar_error ''Unicode escape too long'' g else unicode_digits (v * 16 + d) (digits + 1) g)"
  by pat_completeness auto
termination
  by (relation "measure (\<lambda>(v, digits, g). remaining g)") (auto dest!: hex_digit_further [OF sym] simp: further_def)

declare unicode_digits.simps [simp del]

definition unicode_escape :: "nat reader_of" where
  "unicode_escape g = (case bump g of (c, g) \<Rightarrow>
     if c \<noteq> Some (of_char (CHR ''{'')) then grammar_error (''expected { after '' @ [CHR 0x5C] @ ''u'') g
     else io_then (unicode_digits 0 0) (\<lambda>(v, digits) g.
       let g = snd (bump g) in
       if digits = 0 then grammar_error ''empty Unicode escape'' g
       else case from_u32 v of Some c \<Rightarrow> (Inr c, g) | None \<Rightarrow> grammar_error ''invalid Unicode scalar'' g) g)"

definition byte_escape :: "nat reader_of" where
  "byte_escape =
     io_then (hex_digit ''expected two hex digits'') (\<lambda>a.
     io_then (hex_digit ''expected two hex digits'') (\<lambda>b g.
     case from_u32 (a * 16 + b) of Some c \<Rightarrow> (Inr c, g) | None \<Rightarrow> grammar_error ''invalid character'' g))"

definition escaped :: "nat reader_of" where
  "escaped g = (case bump g of
     (None, g) \<Rightarrow> grammar_error ''unterminated literal or class'' g
   | (Some c, g) \<Rightarrow>
       if c \<noteq> 92 then (Inr c, g)
       else (case bump g of
         (None, g) \<Rightarrow> grammar_error ''unfinished escape'' g
       | (Some c, g) \<Rightarrow>
           (case simple_escape c of
              Some v \<Rightarrow> (Inr v, g)
            | None \<Rightarrow>
                if c = of_char (CHR ''x'') then byte_escape g
                else if c = of_char (CHR ''u'') then unicode_escape g
                else grammar_error ''unknown escape'' g)))"

lemma unicode_digits_later: "unicode_digits v n g = (Inr r, g') \<Longrightarrow> later g g'"
proof (induction v n g rule: unicode_digits.induct)
  case (1 v n g)
  then show ?case
    by (subst (asm) unicode_digits.simps)
       (auto simp: grammar_error_def split: if_splits prod.splits sum.splits dest!: hex_digit_further
         intro: later_trans [OF further_later])
qed

lemma io_then_InrE:
  assumes "io_then f k g = (Inr r, g')"
  obtains x g1 where "f g = (Inr x, g1)" "k x g1 = (Inr r, g')"
  using assms by (auto simp: io_then_def split: prod.splits sum.splits)

lemma byte_escape_later: "byte_escape g = (Inr r, g') \<Longrightarrow> later g g'"
  by (auto simp: byte_escape_def grammar_error_def elim!: io_then_InrE split: option.splits
      dest!: hex_digit_further further_later intro: later_trans)

lemma unicode_escape_later:
  assumes "unicode_escape g = (Inr r, g')"
  shows "later g g'"
proof -
  from assms obtain c g1 where c: "bump g = (c, g1)" by fastforce
  with assms obtain x g2 where x: "unicode_digits 0 0 g1 = (Inr x, g2)" and g': "g' = snd (bump g2)"
    by (auto simp: unicode_escape_def grammar_error_def Let_def elim!: io_then_InrE split: option.splits if_splits)
  have "later g2 g'" unfolding g' by (rule bump_later [of _ "fst (bump g2)"]) simp
  with bump_later [OF c] unicode_digits_later [OF x] show ?thesis by (blast intro: later_trans)
qed

lemma escaped_further:
  assumes "escaped g = (Inr r, g')"
  shows "further g g'"
proof -
  from assms obtain c g1 where c: "bump g = (Some c, g1)"
    by (auto simp: escaped_def grammar_error_def split: prod.splits option.splits)
  have "later g1 g'"
  proof (cases "c = 92")
    case True
    with assms c obtain c2 g2 where c2: "bump g1 = (Some c2, g2)"
      by (auto simp: escaped_def grammar_error_def split: prod.splits option.splits)
    have "later g2 g'"
      using assms c True c2
      by (auto simp: escaped_def grammar_error_def split: option.splits if_splits dest: byte_escape_later unicode_escape_later)
    with bump_later [OF c2] show ?thesis by (rule later_trans)
  qed (use assms c in \<open>auto simp: escaped_def\<close>)
  with bump_Some [OF c] show ?thesis by (rule further_trans(1))
qed

text \<open>The loop over the characters of a literal, up to the delimiter.\<close>

function literal_chars :: "nat \<Rightarrow> string \<Rightarrow> string reader_of" where
  "literal_chars delimiter acc g =
     (if peek g = Some delimiter then (Inr acc, g)
      else case escaped g of
        (Inl e, g) \<Rightarrow> (Inl e, g)
      | (Inr c, g) \<Rightarrow> literal_chars delimiter (acc @ encode_utf8 c) g)"
  by pat_completeness auto
termination
  by (relation "measure (\<lambda>(d, acc, g). remaining g)") (auto dest!: escaped_further [OF sym] simp: further_def)

declare literal_chars.simps [simp del]

definition class_end :: "nat \<Rightarrow> nat reader_of" where
  "class_end start g =
     (if sees (CHR ''-'') g \<and> take 2 (rest g) \<noteq> ''-]'' then escaped (snd (bump g)) else (Inr start, g))"

text \<open>The loop over the ranges of a class, up to the closing bracket.\<close>

lemma class_end_later: "class_end c g = (Inr e, g') \<Longrightarrow> later g g'"
  using bump_later [of g] by (cases "bump g") (auto simp: class_end_def split: if_splits dest!: escaped_further intro: later_trans further_later)

function class_ranges :: "(nat \<times> nat) list \<Rightarrow> (nat \<times> nat) list reader_of" where
  "class_ranges acc g =
     (if sees (CHR '']'') g then (Inr acc, g)
      else case escaped g of
        (Inl e, g) \<Rightarrow> (Inl e, g)
      | (Inr start, g1) \<Rightarrow>
          (case class_end start g1 of
             (Inl e, g) \<Rightarrow> (Inl e, g)
           | (Inr stop, g2) \<Rightarrow>
               if start > stop then grammar_error ''reversed character range'' g2
               else class_ranges (acc @ [(start, stop)]) g2))"
  by pat_completeness auto
termination
  by (relation "measure (\<lambda>(acc, g). remaining g)")
     (auto dest!: escaped_further [OF sym] class_end_later [OF sym] simp: further_def later_def)

declare class_ranges.simps [simp del]

section \<open>Terms\<close>

text \<open>The loop over the predicate signs in front of a term.\<close>

function prefix_loop :: "bool list \<Rightarrow> bool list reader_of" where
  "prefix_loop signs g = (case next_char (rest g) of
     None \<Rightarrow> (Inr signs, g)
   | Some (c, n) \<Rightarrow>
       if c \<noteq> of_char (CHR ''&'') \<and> c \<noteq> of_char (CHR ''!'') then (Inr signs, g)
       else let signs = signs @ [c = of_char (CHR ''&'')]; g = skip (advance n g) in
         if length signs > 128 then grammar_error ''too many predicates'' g
         else prefix_loop signs g)"
  by pat_completeness auto
termination
  by (relation "measure (\<lambda>(signs, g). 129 - length signs)") auto

declare prefix_loop.simps [simp del]

text \<open>A literal is read when the next character is a quote, so the delimiter is there.\<close>

definition literal_term :: "pexpr reader_of" where
  "literal_term g = (case bump g of
     (None, g) \<Rightarrow> grammar_error ''expected literal, class, rule, or group'' g
   | (Some delimiter, g) \<Rightarrow>
       io_then (literal_chars delimiter []) (\<lambda>v g.
         let g = snd (bump g); insensitive = sees (CHR ''i'') g in
         (Inr (Lit v insensitive), if insensitive then snd (bump g) else g)) g)"

definition class_term :: "pexpr reader_of" where
  "class_term g =
     (let g = snd (bump g); negated = sees (CHR ''^'') g; g = if negated then snd (bump g) else g in
      io_then (class_ranges []) (\<lambda>ranges g.
        let g = snd (bump g) in
        if ranges = [] then grammar_error ''empty character class'' g else (Inr (Class ranges negated), g)) g)"

definition group_term :: "pexpr reader_of \<Rightarrow> pexpr reader_of" where
  "group_term choice g =
     io_then choice (\<lambda>e g. case eat '')'' g of
       (True, g) \<Rightarrow> (Inr e, g)
     | (False, g) \<Rightarrow> grammar_error ''expected )'' g) (snd (bump g))"

definition plain_term :: "pexpr reader_of \<Rightarrow> pexpr reader_of" where
  "plain_term choice g =
     (if sees (CHR 0x27) g \<or> sees (CHR 0x22) g then literal_term g
      else if sees (CHR ''['') g then class_term g
      else if sees (CHR ''.'') g then (Inr Any, snd (bump g))
      else if sees (CHR ''('') g then group_term choice g
      else if (case peek g of Some c \<Rightarrow> name_start c | None \<Rightarrow> False) then io_then rule_name_of (\<lambda>n. io_ok (Ref n)) g
      else grammar_error ''expected literal, class, rule, or group'' g)"

definition postfix :: "pexpr \<Rightarrow> grammar_text \<Rightarrow> pexpr \<times> grammar_text" where
  "postfix e g =
     (let g = skip g in
      if sees (CHR ''?'') g then (Optional e, snd (bump g))
      else if sees (CHR ''*'') g then (Repeat e False, snd (bump g))
      else if sees (CHR ''+'') g then (Repeat e True, snd (bump g))
      else (e, g))"

definition term_of_grammar :: "pexpr reader_of \<Rightarrow> pexpr reader_of" where
  "term_of_grammar choice g =
     io_then (prefix_loop []) (\<lambda>signs g.
       let g = g\<lparr>gr_nesting := gr_nesting g + length signs\<rparr> in
       if gr_nesting g > 128 then grammar_error ''grammar nesting limit exceeded'' g
       else io_then (plain_term choice) (\<lambda>e g.
         case postfix e g of (e, g) \<Rightarrow>
           (Inr (foldr (\<lambda>positive e. Predicate e positive) signs e),
            g\<lparr>gr_nesting := gr_nesting g - length signs\<rparr>)) g) (skip g)"

section \<open>Sequences, choices and rules\<close>

text \<open>
  The loops call a reader that is handed in; the guard on the text that remains makes them
  terminate for every such reader, and never fires for the readers of the grammar.
\<close>

function sequence_loop :: "pexpr reader_of \<Rightarrow> pexpr list \<Rightarrow> pexpr list reader_of" where
  "sequence_loop term items g =
     (let g0 = skip g in
      if (case peek g0 of None \<Rightarrow> True | Some c \<Rightarrow> c \<in> {of_char (CHR ''/''), of_char (CHR '';''), of_char (CHR '')'')})
      then (Inr items, g0)
      else case term g0 of
        (Inl e, g1) \<Rightarrow> (Inl e, g1)
      | (Inr e, g1) \<Rightarrow>
          if remaining g1 < remaining g then sequence_loop term (items @ [e]) g1 else (Inl ''no progress'', g1))"
  by pat_completeness auto
termination
  by (relation "measure (\<lambda>(term, items, g). remaining g)") auto

declare sequence_loop.simps [simp del]

definition sequence_of_grammar :: "pexpr reader_of \<Rightarrow> pexpr reader_of" where
  "sequence_of_grammar term =
     io_then (sequence_loop term []) (\<lambda>items g.
       case items of
         [] \<Rightarrow> grammar_error (''empty sequence; use '' @ [CHR 0x27, CHR 0x27] @ '' for epsilon'') g
       | [e] \<Rightarrow> (Inr e, g)
       | _ \<Rightarrow> (Inr (Seq items), g))"

function choice_loop :: "pexpr reader_of \<Rightarrow> pexpr list \<Rightarrow> pexpr list reader_of" where
  "choice_loop sequence choices g =
     (case eat ''/'' g of
        (False, g0) \<Rightarrow> (Inr choices, g0)
      | (True, g0) \<Rightarrow>
          (case sequence g0 of
             (Inl e, g1) \<Rightarrow> (Inl e, g1)
           | (Inr e, g1) \<Rightarrow>
               if remaining g1 < remaining g then choice_loop sequence (choices @ [e]) g1 else (Inl ''no progress'', g1)))"
  by pat_completeness auto
termination
  by (relation "measure (\<lambda>(term, items, g). remaining g)") auto

declare choice_loop.simps [simp del]

definition choice_of_grammar :: "pexpr reader_of \<Rightarrow> pexpr reader_of" where
  "choice_of_grammar choice g =
     (let g = g\<lparr>gr_nesting := gr_nesting g + 1\<rparr>; sequence = sequence_of_grammar (term_of_grammar choice) in
      if gr_nesting g > 128 then grammar_error ''grammar nesting limit exceeded'' g
      else io_then sequence (\<lambda>e.
        io_then (choice_loop sequence [e]) (\<lambda>choices g.
          (Inr (case choices of [e] \<Rightarrow> e | _ \<Rightarrow> Choice choices), g\<lparr>gr_nesting := gr_nesting g - 1\<rparr>))) g)"

text \<open>A choice at a level reads groups at the level below; the nesting check keeps level 0 out of reach.\<close>

fun grammar_choice :: "nat \<Rightarrow> pexpr reader_of" where
  "grammar_choice 0 g = (Inl ''unreached level'', g)"
| "grammar_choice (Suc level) g = choice_of_grammar (grammar_choice level) g"

lemma grammar_choice_Suc [simp]: "grammar_choice (Suc level) = choice_of_grammar (grammar_choice level)"
  by (rule ext) simp

definition read_rule :: "rule reader_of" where
  "read_rule =
     io_then rule_name_of (\<lambda>name g. case eat ''<-'' g of
       (False, g) \<Rightarrow> grammar_error ''expected <-'' g
     | (True, g) \<Rightarrow>
         io_then (grammar_choice 129) (\<lambda>e g. case eat '';'' g of
           (False, g) \<Rightarrow> grammar_error ''expected ; after rule'' g
         | (True, g) \<Rightarrow> (Inr \<lparr>rule_name = name, rule_expr = e\<rparr>, skip g)) g)"

function rules_loop :: "rule list \<Rightarrow> rule list reader_of" where
  "rules_loop rules g =
     (if peek g = None then (Inr rules, g)
      else case read_rule g of
        (Inl e, g1) \<Rightarrow> (Inl e, g1)
      | (Inr r, g1) \<Rightarrow> if remaining g1 < remaining g then rules_loop (rules @ [r]) g1 else (Inl ''no progress'', g1))"
  by pat_completeness auto
termination
  by (relation "measure (\<lambda>(rules, g). remaining g)") auto

declare rules_loop.simps [simp del]

definition read_rules :: "string \<Rightarrow> string + rule list" where
  "read_rules s =
     fst (io_then (rules_loop []) (\<lambda>rules g.
       if rules = [] then grammar_error ''expected at least one rule'' g else (Inr rules, g))
       (skip \<lparr>gr_text = s, gr_pos = 0, gr_nesting = 0\<rparr>))"

text \<open>The macro reads the text and validates the rules; only then does it generate functions.\<close>

definition grammar_checked :: "string \<Rightarrow> (string + rule list \<times> rule_names) option" where
  "grammar_checked s = (case read_rules s of
     Inl e \<Rightarrow> Some (Inl e)
   | Inr rules \<Rightarrow> map_option (\<lambda>r. and_then r (\<lambda>names. Inr (rules, names))) (peg_validate rules))"

section \<open>Every reader moves on\<close>

definition advances :: "'a reader_of \<Rightarrow> bool" where
  "advances f \<longleftrightarrow> (\<forall>g r g'. f g = (Inr r, g') \<longrightarrow> later g g')"

definition strides :: "'a reader_of \<Rightarrow> bool" where
  "strides f \<longleftrightarrow> (\<forall>g r g'. f g = (Inr r, g') \<longrightarrow> further g g')"

lemma advancesI: "(\<And>g r g'. f g = (Inr r, g') \<Longrightarrow> later g g') \<Longrightarrow> advances f"
  by (simp add: advances_def)

lemma advancesD: "advances f \<Longrightarrow> f g = (Inr r, g') \<Longrightarrow> later g g'"
  by (simp add: advances_def)

lemma stridesI: "(\<And>g r g'. f g = (Inr r, g') \<Longrightarrow> further g g') \<Longrightarrow> strides f"
  by (simp add: strides_def)

lemma stridesD: "strides f \<Longrightarrow> f g = (Inr r, g') \<Longrightarrow> further g g'"
  by (simp add: strides_def)

lemma strides_advances: "strides f \<Longrightarrow> advances f"
  by (simp add: strides_def advances_def further_later)

lemma advances_then: "advances f \<Longrightarrow> (\<And>x. advances (k x)) \<Longrightarrow> advances (io_then f k)"
  by (rule advancesI) (auto elim!: io_then_InrE dest!: advancesD intro: later_trans)

lemma advances_error [simp]: "advances (grammar_error m)"
  by (simp add: advances_def grammar_error_def)

lemma snd_bump_later [simp, intro]: "later g (snd (bump g))"
  by (rule bump_later [of _ "fst (bump g)"]) simp

lemma snd_bump_further: "peek g = Some c \<Longrightarrow> further g (snd (bump g))"
  using bump_peek [of g c] by auto

lemma literal_chars_later: "literal_chars d acc g = (Inr s, g') \<Longrightarrow> later g g'"
proof (induction d acc g rule: literal_chars.induct)
  case (1 d acc g)
  then show ?case
    by (subst (asm) literal_chars.simps)
       (auto split: if_splits prod.splits sum.splits dest!: escaped_further intro: later_trans [OF further_later])
qed

lemma class_ranges_later: "class_ranges acc g = (Inr s, g') \<Longrightarrow> later g g'"
proof (induction acc g rule: class_ranges.induct)
  case (1 acc g)
  show ?case
  proof (cases "sees (CHR '']'') g")
    case False
    with "1.prems" obtain a g1 b g2 where r: "escaped g = (Inr a, g1)" "class_end a g1 = (Inr b, g2)" "a \<le> b"
      "class_ranges (acc @ [(a, b)]) g2 = (Inr s, g')"
      by (subst (asm) (2) class_ranges.simps) (auto simp: grammar_error_def not_less split: if_splits prod.splits sum.splits)
    have "later g2 g'" by (rule "1.IH" [OF False r(1) [symmetric] refl r(2) [symmetric] refl]) (use r in simp_all)
    with escaped_further [OF r(1)] class_end_later [OF r(2)] show ?thesis by (blast intro: later_trans further_later)
  qed (use "1.prems" in \<open>simp add: class_ranges.simps\<close>)
qed

lemma literal_InrE:
  assumes "literal_term g = (Inr r, g')"
  obtains d g1 s g2 where "bump g = (Some d, g1)" "literal_chars d [] g1 = (Inr s, g2)"
    "r = Lit s (sees (CHR ''i'') (snd (bump g2)))"
    "g' = (if sees (CHR ''i'') (snd (bump g2)) then snd (bump (snd (bump g2))) else snd (bump g2))"
  using assms
  by (auto simp: literal_term_def grammar_error_def Let_def elim!: io_then_InrE split: prod.splits option.splits)

lemma literal_term_strides: "strides literal_term"
proof (rule stridesI)
  fix g r g' assume "literal_term g = (Inr r, g')"
  then show "further g g'"
  proof (cases rule: literal_InrE)
    case (1 d g1 s g2)
    then have "later g2 g'" by (auto intro: later_trans [OF snd_bump_later])
    with bump_Some [OF 1(1)] literal_chars_later [OF 1(2)] show ?thesis by (blast intro: further_trans later_trans)
  qed
qed

lemma class_InrE:
  assumes "class_term g = (Inr r, g')"
  obtains negated g1 ranges g2 where "negated = sees (CHR ''^'') (snd (bump g))"
    "g1 = (if negated then snd (bump (snd (bump g))) else snd (bump g))"
    "class_ranges [] g1 = (Inr ranges, g2)" "ranges \<noteq> []" "r = Class ranges negated" "g' = snd (bump g2)"
  using assms by (auto simp: class_term_def grammar_error_def Let_def elim!: io_then_InrE split: if_splits)

lemma class_term_later:
  assumes "class_term g = (Inr r, g')"
  shows "later (snd (bump g)) g'"
  using assms
proof (cases rule: class_InrE)
  case (1 negated g1 ranges g2)
  then have "later (snd (bump g)) g1" by auto
  with class_ranges_later [OF 1(3)] 1(6) show ?thesis by (blast intro: later_trans)
qed

lemma group_term_later:
  assumes "advances choice" "group_term choice g = (Inr r, g')"
  shows "later (snd (bump g)) g'"
  using assms
  by (auto simp: group_term_def grammar_error_def elim!: io_then_InrE split: prod.splits bool.splits
      dest!: advancesD eat_later intro: later_trans)

lemma plain_term_strides:
  assumes "advances choice"
  shows "strides (plain_term choice)"
proof (rule stridesI)
  fix g r g' assume r: "plain_term choice g = (Inr r, g')"
  then obtain c where c: "peek g = Some c" by (cases "peek g") (auto simp: plain_term_def grammar_error_def)
  show "further g g'"
  proof (cases "literal_term g = (Inr r, g') \<or> rule_name_of g = (Inr (case r of Ref n \<Rightarrow> n | _ \<Rightarrow> []), g')")
    case True
    then show ?thesis using literal_term_strides by (auto dest: stridesD rule_name_further)
  next
    case False
    with r c have "later (snd (bump g)) g'"
      by (auto simp: plain_term_def grammar_error_def elim!: io_then_InrE split: if_splits
          dest: class_term_later group_term_later [OF assms])
    then show ?thesis by (rule further_trans(1) [OF snd_bump_further [OF c]])
  qed
qed

lemma postfix_later: "postfix e g = (e', g') \<Longrightarrow> later g g'"
  using skip_later [of g] by (auto simp: postfix_def Let_def split: if_splits intro: later_trans)

lemma prefix_loop_later: "prefix_loop signs g = (Inr r, g') \<Longrightarrow> later g g'"
proof (induction signs g rule: prefix_loop.induct)
  case (1 signs g)
  have "later g g'" if "next_char (rest g) = Some (c, n)" "later (skip (advance n g)) g'" for c n
    using that(2) skip_later [of "advance n g"] by (blast intro: later_trans later_simps)
  with 1 show ?case
    by (subst (asm) (2) prefix_loop.simps) (auto simp: grammar_error_def Let_def split: option.splits if_splits)
qed

lemma renest:
  "later (g\<lparr>gr_nesting := n\<rparr>) g' \<Longrightarrow> later g (g'\<lparr>gr_nesting := gr_nesting g\<rparr>)"
  "further (g\<lparr>gr_nesting := n\<rparr>) g' \<Longrightarrow> further g (g'\<lparr>gr_nesting := gr_nesting g\<rparr>)"
  "later (g\<lparr>gr_nesting := n\<rparr>) g' \<Longrightarrow> gr_nesting g' = n"
  by (auto simp: later_def further_def remaining_def)

text \<open>A term that was read: the signs, the plain term between nesting and un-nesting, the postfix.\<close>

lemma term_InrE:
  assumes "term_of_grammar choice g = (Inr r, g')"
  obtains signs g1 e g2 e2 g3 where "prefix_loop [] (skip g) = (Inr signs, g1)" "gr_nesting g1 + length signs \<le> 128"
    "plain_term choice (g1\<lparr>gr_nesting := gr_nesting g1 + length signs\<rparr>) = (Inr e, g2)" "postfix e g2 = (e2, g3)"
    "r = foldr (\<lambda>positive e. Predicate e positive) signs e2" "g' = g3\<lparr>gr_nesting := gr_nesting g3 - length signs\<rparr>"
  using assms by (auto simp: term_of_grammar_def grammar_error_def Let_def not_less elim!: io_then_InrE split: if_splits prod.splits)

lemma term_strides:
  assumes "advances choice"
  shows "strides (term_of_grammar choice)"
proof (rule stridesI)
  fix g r g' assume "term_of_grammar choice g = (Inr r, g')"
  then obtain signs g1 e g2 e2 g3 where r: "prefix_loop [] (skip g) = (Inr signs, g1)"
    "plain_term choice (g1\<lparr>gr_nesting := gr_nesting g1 + length signs\<rparr>) = (Inr e, g2)" "postfix e g2 = (e2, g3)"
    "g' = g3\<lparr>gr_nesting := gr_nesting g3 - length signs\<rparr>"
    by (elim term_InrE) blast
  have l: "later g g1" using skip_later prefix_loop_later [OF r(1)] by (rule later_trans)
  from stridesD [OF plain_term_strides [OF assms] r(2)] postfix_later [OF r(3)]
  have f: "further (g1\<lparr>gr_nesting := gr_nesting g1 + length signs\<rparr>) g3" by (rule further_trans(1))
  from renest(2) [OF f] renest(3) [OF further_later [OF f]] r(4) have "further g1 g'" by simp
  with l show "further g g'" by (rule further_trans(2))
qed

lemma sequence_loop_later:
  "strides term \<Longrightarrow> sequence_loop term items g = (Inr r, g') \<Longrightarrow> later g g'"
proof (induction "term" items g rule: sequence_loop.induct)
  case (1 "term" items g)
  have "later g g1" if "term (skip g) = (Inr e, g1)" for e g1
    using later_trans [OF skip_later further_later [OF stridesD [OF "1.prems"(1) that]]] .
  with 1 show ?case
    by (subst (asm) (2) sequence_loop.simps)
       (auto simp: Let_def skip_later split: if_splits prod.splits sum.splits intro: later_trans)
qed

lemma sequence_advances: "strides term \<Longrightarrow> advances (sequence_of_grammar term)"
  unfolding sequence_of_grammar_def
  by (intro advances_then advancesI) (auto simp: grammar_error_def split: list.splits dest: sequence_loop_later)

lemma choice_loop_later:
  "advances sequence \<Longrightarrow> choice_loop sequence choices g = (Inr r, g') \<Longrightarrow> later g g'"
proof (induction sequence choices g rule: choice_loop.induct)
  case (1 sequence choices g)
  have "later g g2" if "eat ''/'' g = (True, g1)" "sequence g1 = (Inr e, g2)" for e g1 g2
    using later_trans [OF eat_later [OF that(1)] advancesD [OF "1.prems"(1) that(2)]] .
  with 1 show ?case
    by (subst (asm) (2) choice_loop.simps)
       (auto split: if_splits prod.splits sum.splits bool.splits intro: later_trans eat_later)
qed

text \<open>A choice that was read: the first sequence, the others, un-nesting.\<close>

lemma choice_InrE:
  assumes "choice_of_grammar choice g = (Inr r, g')"
  obtains e g1 es g2 where "gr_nesting g < 128"
    "sequence_of_grammar (term_of_grammar choice) (g\<lparr>gr_nesting := gr_nesting g + 1\<rparr>) = (Inr e, g1)"
    "choice_loop (sequence_of_grammar (term_of_grammar choice)) [e] g1 = (Inr es, g2)"
    "r = (case es of [e] \<Rightarrow> e | _ \<Rightarrow> Choice es)" "g' = g2\<lparr>gr_nesting := gr_nesting g2 - 1\<rparr>"
  using assms by (auto simp: choice_of_grammar_def grammar_error_def Let_def elim!: io_then_InrE split: if_splits)

lemma choice_advances:
  assumes "advances choice"
  shows "advances (choice_of_grammar choice)"
proof (rule advancesI)
  note sequence = sequence_advances [OF term_strides [OF assms]]
  fix g r g' assume "choice_of_grammar choice g = (Inr r, g')"
  then obtain e g1 es g2 where
    r: "sequence_of_grammar (term_of_grammar choice) (g\<lparr>gr_nesting := gr_nesting g + 1\<rparr>) = (Inr e, g1)"
      "choice_loop (sequence_of_grammar (term_of_grammar choice)) [e] g1 = (Inr es, g2)"
      "g' = g2\<lparr>gr_nesting := gr_nesting g2 - 1\<rparr>"
    by (elim choice_InrE) blast
  have l: "later (g\<lparr>gr_nesting := gr_nesting g + 1\<rparr>) g2"
    using advancesD [OF sequence r(1)] choice_loop_later [OF sequence r(2)] by (rule later_trans)
  with renest(1) [OF l] renest(3) [OF l] r(3) show "later g g'" by simp
qed

lemma grammar_choice_advances: "advances (grammar_choice level)"
  by (induction level) (simp_all add: choice_advances, simp add: advances_def)

end
