(* ===== verification/GrammarSpec.thy ===== *)
theory GrammarSpec
  imports GrammarText
begin

text \<open>
  What the reader of grammar texts promises. On a valid text it stays on character boundaries, so
  that no slice panics, and what it accepts is a grammar of identifiers, valid literals and ordered
  classes whose expressions are of bounded height. The guards and the unrolling of the model are
  shown to be without effect.
\<close>

section \<open>UTF-8\<close>

abbreviation code :: "char \<Rightarrow> nat" where
  "code \<equiv> of_char"

lemma unat_byte_of_char: "unat (byte_of_char c) = code c"
proof -
  have "code c < 256" by simp
  then show ?thesis by (simp add: byte_of_char_def unat_of_nat)
qed

lemma is_cont_code: "is_cont (byte_of_char c) \<longleftrightarrow> 128 \<le> code c \<and> code c \<le> 191"
  by (simp add: is_cont_def byte_of_char_le)

lemma byte_of_char_eq: "byte_of_char c = b \<longleftrightarrow> code c = unat b"
  by (metis unat_byte_of_char word_unat_eq_iff)

lemmas byte_codes = byte_of_char_le byte_of_char_eq is_cont_code

lemma is_strE:
  assumes "is_str (x # r)"
  obtains (one) "code x < 128" "is_str r"
  | (two) b t where "194 \<le> code x" "code x \<le> 223" "r = b # t" "128 \<le> code b" "code b \<le> 191" "is_str t"
  | (three) b c t where "224 \<le> code x" "code x \<le> 239" "r = b # c # t" "128 \<le> code b" "code b \<le> 191"
      "128 \<le> code c" "code c \<le> 191" "code x = 224 \<longrightarrow> 160 \<le> code b" "code x = 237 \<longrightarrow> code b \<le> 159" "is_str t"
  | (four) b c d t where "240 \<le> code x" "code x \<le> 244" "r = b # c # d # t" "128 \<le> code b" "code b \<le> 191"
      "128 \<le> code c" "code c \<le> 191" "128 \<le> code d" "code d \<le> 191"
      "code x = 240 \<longrightarrow> 144 \<le> code b" "code x = 244 \<longrightarrow> code b \<le> 143" "is_str t"
proof -
  note v = assms [unfolded is_str_def list.map utf8_valid.simps(2) byte_codes]
  consider "code x < 128" | "194 \<le> code x \<and> code x \<le> 223" | "224 \<le> code x \<and> code x \<le> 239" | "240 \<le> code x \<and> code x \<le> 244"
    using v by (auto split: if_splits)
  then show thesis
  proof cases
    case 1
    with v one show thesis by (simp add: is_str_def)
  next
    case 2
    with v two show thesis by (cases r) (auto simp: is_str_def byte_codes)
  next
    case 3
    with v three show thesis by (cases r; cases "tl r") (auto simp: is_str_def byte_codes)
  next
    case 4
    with v four show thesis by (cases r; cases "tl r"; cases "tl (tl r)") (auto simp: is_str_def byte_codes)
  qed
qed

definition unicode_scalar :: "nat \<Rightarrow> bool" where
  "unicode_scalar c \<longleftrightarrow> c < 55296 \<or> 57344 \<le> c \<and> c \<le> 1114111"

lemma from_u32_scalar: "from_u32 v = Some c \<longleftrightarrow> c = v \<and> unicode_scalar v"
  by (auto simp: from_u32_def unicode_scalar_def)

lemma three_bytes:
  fixes x b d :: nat
  assumes "224 \<le> x" "x \<le> 239" "128 \<le> b" "b \<le> 191" "x = 224 \<longrightarrow> 160 \<le> b" "x = 237 \<longrightarrow> b \<le> 159" "d < 64"
  shows "unicode_scalar ((x - 224) * 4096 + (b - 128) * 64 + d) \<and> 128 \<le> (x - 224) * 4096 + (b - 128) * 64 + d"
proof -
  consider "x = 224" | "224 < x" "x < 237" | "x = 237" | "237 < x" using assms(1) by linarith
  then show ?thesis by cases (use assms in \<open>auto simp: unicode_scalar_def\<close>)
qed

lemma mod_shift: "(m :: nat) dvd a \<Longrightarrow> a \<le> x \<Longrightarrow> x < a + m \<Longrightarrow> x mod m = x - a"
proof -
  assume a: "m dvd a" "a \<le> x" "x < a + m"
  then have "x mod m = (a + (x - a)) mod m" by simp
  also have "\<dots> = (x - a) mod m" using a(1) by (metis add.left_neutral dvd_eq_mod_eq_0 mod_add_left_eq)
  also have "\<dots> = x - a" using a by simp
  finally show ?thesis .
qed

lemma mod_64: "(n :: nat) mod 64 \<le> 63"
  using mod_less_divisor [of 64 n] by linarith

lemma next_char_scalar:
  assumes "is_str s" "next_char s = Some (c, n)"
  shows "unicode_scalar c \<and> (c < 128 \<longleftrightarrow> code (hd s) < 128)"
proof (cases s)
  case (Cons x r)
  from assms(1) have "is_str (x # r)" by (simp add: Cons)
  then show ?thesis
  proof (cases rule: is_strE)
    case one
    with assms(2) show ?thesis by (simp add: Cons unicode_scalar_def)
  next
    case (two b t)
    with assms(2) have "c = code x mod 32 * 64 + code b mod 64" by (simp add: Cons cont_bits_def)
    moreover have "code x mod 32 = code x - 192" using two by (simp add: mod_shift)
    ultimately show ?thesis using two by (simp add: Cons unicode_scalar_def) linarith
  next
    case (three b d t)
    with assms(2) have "c = code x mod 16 * 4096 + code b mod 64 * 64 + code d mod 64" by (simp add: Cons cont_bits_def)
    moreover have "code x mod 16 = code x - 224" "code b mod 64 = code b - 128" using three by (simp_all add: mod_shift)
    ultimately show ?thesis using three three_bytes [of "code x" "code b" "code d mod 64"] by (simp add: Cons unicode_scalar_def)
  next
    case (four b d f t)
    with assms(2) have "c = code x mod 8 * 262144 + code b mod 64 * 4096 + code d mod 64 * 64 + code f mod 64"
      by (simp add: Cons cont_bits_def numeral_2_eq_2)
    moreover have "code x mod 8 = code x - 240" "code b mod 64 = code b - 128" using four by (simp_all add: mod_shift)
    moreover have "code d mod 64 < 64" "code f mod 64 < 64" by simp_all
    ultimately show ?thesis using four by (simp add: Cons unicode_scalar_def) linarith
  qed
qed (use assms in simp)

lemma is_str_simps [simp]: "is_str []" "code x < 128 \<Longrightarrow> is_str (x # r) \<longleftrightarrow> is_str r"
  by (simp_all add: is_str_def utf8_valid.simps byte_codes)

lemma encode_utf8_str:
  assumes "unicode_scalar c" "is_str t"
  shows "is_str (encode_utf8 c @ t)"
proof -
  have c: "c < 1114112" using assms(1) by (auto simp: unicode_scalar_def)
  consider "c < 128" | "128 \<le> c" "c < 2048" | "2048 \<le> c" "c < 65536" | "65536 \<le> c" "c < 1114112"
    using c by linarith
  then show ?thesis
  proof cases
    case 1
    with assms(2) show ?thesis by (simp add: encode_utf8_def)
  next
    case 2
    then have "2 \<le> c div 64" "c div 64 < 32" by auto
    with 2 assms(2) show ?thesis
      by (simp add: encode_utf8_def is_str_def utf8_valid.simps(2) byte_codes)
  next
    case 3
    define q where "q = c div 64"
    with 3 assms(1) have q: "32 \<le> q" "q < 864 \<or> 896 \<le> q" "q < 1024" by (auto simp: unicode_scalar_def)
    have "c div 4096 = q div 64" by (simp add: q_def div_mult2_eq [symmetric])
    moreover have "q div 64 < 16" "q div 64 = 0 \<longrightarrow> 32 \<le> q mod 64" "q div 64 = 13 \<longrightarrow> q mod 64 \<le> 31"
      "q mod 64 \<le> 63" "c mod 64 \<le> 63"
      using q div_mult_mod_eq [of q 64] mod_64 [of q] mod_64 [of c] by linarith+
    ultimately show ?thesis using 3 assms(2)
      by (simp add: encode_utf8_def is_str_def utf8_valid.simps(2) byte_codes q_def [symmetric])
  next
    case 4
    define q where "q = c div 4096"
    with 4 have q: "16 \<le> q" "q < 272" by auto
    have "c div 262144 = q div 64" by (simp add: q_def div_mult2_eq [symmetric])
    moreover have "q div 64 < 5" "q div 64 = 0 \<longrightarrow> 16 \<le> q mod 64" "q div 64 = 4 \<longrightarrow> q mod 64 \<le> 15"
      "q mod 64 \<le> 63" "c div 64 mod 64 \<le> 63" "c mod 64 \<le> 63"
      using q div_mult_mod_eq [of q 64] mod_64 [of q] mod_64 [of c] mod_64 [of "c div 64"] by linarith+
    ultimately show ?thesis using 4 assms(2)
      by (simp add: encode_utf8_def is_str_def utf8_valid.simps(2) byte_codes q_def [symmetric])
  qed
qed

section \<open>Staying on character boundaries\<close>

text \<open>The slice \<^verbatim>\<open>text[pos..]\<close> exists: the position is in the text and the rest is a valid string.\<close>

definition text_ok :: "grammar_text \<Rightarrow> bool" where
  "text_ok g \<longleftrightarrow> gr_pos g \<le> length (gr_text g) \<and> is_str (rest g)"

lemma text_ok_nesting [simp]: "text_ok (g\<lparr>gr_nesting := n\<rparr>) = text_ok g"
  by (simp add: text_ok_def rest_def)

lemma next_char_ok: "text_ok g \<Longrightarrow> next_char (rest g) = Some (c, n) \<Longrightarrow> text_ok (advance n g) \<and> unicode_scalar c"
  using next_char_valid [of "rest g" c n] next_char_scalar [of "rest g" c n] by (auto simp: text_ok_def rest_def add.commute)

lemma bump_ok: "text_ok g \<Longrightarrow> bump g = (c, g') \<Longrightarrow> text_ok g' \<and> (\<forall>v. c = Some v \<longrightarrow> unicode_scalar v)"
  using next_char_ok [of g] by (auto simp: bump_def split: option.splits)

lemma snd_bump_ok [simp, intro]: "text_ok g \<Longrightarrow> text_ok (snd (bump g))"
  using bump_ok [of g "fst (bump g)" "snd (bump g)"] by simp

lemma bump_while_ok: "text_ok g \<Longrightarrow> text_ok (bump_while p g)"
proof (induction p g rule: bump_while.induct)
  case (1 p g)
  then show ?case by (subst bump_while.simps) (auto dest: next_char_ok split: option.split)
qed

lemma skip_line_ok: "text_ok g \<Longrightarrow> text_ok (skip_line g)"
proof (induction g rule: skip_line.induct)
  case (1 g)
  then show ?case by (subst skip_line.simps) (auto dest: next_char_ok split: option.split)
qed

lemma skip_ok: "text_ok g \<Longrightarrow> text_ok (skip g)"
proof (induction g rule: skip.induct)
  case (1 g)
  then show ?case by (subst skip.simps) (auto simp: Let_def bump_while_ok skip_line_ok)
qed

abbreviation ascii :: "string \<Rightarrow> bool" where
  "ascii s \<equiv> \<forall>c \<in> set s. code c < 128"

lemma is_str_ascii: "ascii s \<Longrightarrow> is_str (s @ t) \<longleftrightarrow> is_str t"
  by (induction s) simp_all

lemma take_ascii_ok:
  assumes "text_ok g" "ascii s" "take (length s) (rest g) = s"
  shows "text_ok (advance (length s) g)"
proof -
  have "rest g = s @ drop (length s) (rest g)" using assms(3) by (metis append_take_drop_id)
  moreover from this have "length s \<le> length (rest g)" by (metis le_add1 length_append)
  ultimately show ?thesis using assms is_str_ascii [OF assms(2)]
    by (metis (no_types, lifting) add.commute advance_simps(1,3,4) le_diff_conv2 length_drop rest_def text_ok_def)
qed

lemma eat_ok: "text_ok g \<Longrightarrow> ascii s \<Longrightarrow> eat s g = (b, g') \<Longrightarrow> text_ok g'"
  using skip_ok [of g] take_ascii_ok [of "skip g" s] by (auto simp: eat_def Let_def split: if_splits)

section \<open>What is read\<close>

text \<open>\<open>yields P f\<close>: on a valid text, what the reader \<open>f\<close> accepts satisfies \<open>P\<close>, and the text stays valid.\<close>

definition yields :: "('a \<Rightarrow> bool) \<Rightarrow> 'a reader_of \<Rightarrow> bool" where
  "yields P f \<longleftrightarrow> (\<forall>g r g'. text_ok g \<longrightarrow> f g = (Inr r, g') \<longrightarrow> text_ok g' \<and> P r)"

lemma yieldsI: "(\<And>g r g'. text_ok g \<Longrightarrow> f g = (Inr r, g') \<Longrightarrow> text_ok g' \<and> P r) \<Longrightarrow> yields P f"
  by (simp add: yields_def)

lemma yieldsD: "yields P f \<Longrightarrow> f g = (Inr r, g') \<Longrightarrow> text_ok g \<Longrightarrow> text_ok g' \<and> P r"
  by (simp add: yields_def)

lemma yields_then: "yields P f \<Longrightarrow> (\<And>x. P x \<Longrightarrow> yields Q (k x)) \<Longrightarrow> yields Q (io_then f k)"
  by (rule yieldsI) (blast elim: io_then_InrE dest: yieldsD)

lemma yields_error [simp]: "yields P (grammar_error m)"
  by (simp add: yields_def grammar_error_def)

lemma yields_hex_digit: "yields (\<lambda>d. d < 16) (hex_digit m)"
  by (rule yieldsI)
     (auto simp: hex_digit_def grammar_error_def to_digit16_def split: prod.splits option.splits Option.bind_splits if_splits dest: bump_ok)

lemma yields_unicode_digits: "yields (\<lambda>_. True) (unicode_digits v n)"
proof (rule yieldsI)
  fix g r g' assume "text_ok g" "unicode_digits v n g = (Inr r, g')"
  then show "text_ok g' \<and> True"
  proof (induction v n g rule: unicode_digits.induct)
    case (1 v n g)
    then show ?case
      by (subst (asm) (2) unicode_digits.simps)
         (auto simp: grammar_error_def split: if_splits prod.splits sum.splits dest: yieldsD [OF yields_hex_digit])
  qed
qed

lemma yields_byte_escape: "yields unicode_scalar byte_escape"
  unfolding byte_escape_def
  by (intro yields_then [OF yields_hex_digit] yieldsI)
     (auto simp: grammar_error_def from_u32_scalar split: option.splits)

lemma yields_unicode_escape: "yields unicode_scalar unicode_escape"
proof (rule yieldsI)
  fix g r g' assume g: "text_ok g" and r: "unicode_escape g = (Inr r, g')"
  obtain c g1 where c: "bump g = (c, g1)" by fastforce
  with r obtain x g2 where x: "unicode_digits 0 0 g1 = (Inr x, g2)" and g': "g' = snd (bump g2)" and v: "unicode_scalar r"
    by (auto simp: unicode_escape_def grammar_error_def Let_def from_u32_scalar elim!: io_then_InrE split: option.splits if_splits)
  have "text_ok g1" using bump_ok [OF g c] by simp
  then have "text_ok g2" using yieldsD [OF yields_unicode_digits x] by simp
  with g' v show "text_ok g' \<and> unicode_scalar r" by simp
qed

lemma simple_escape_scalar: "simple_escape c = Some v \<Longrightarrow> unicode_scalar v"
  by (auto simp: simple_escape_def unicode_scalar_def split: if_splits)

lemma yields_escaped: "yields unicode_scalar escaped"
proof (rule yieldsI)
  fix g r g' assume g: "text_ok g" and r: "escaped g = (Inr r, g')"
  then obtain c g1 where c: "bump g = (Some c, g1)"
    by (auto simp: escaped_def grammar_error_def split: prod.splits option.splits)
  from bump_ok [OF g c] have g1: "text_ok g1" "unicode_scalar c" by simp_all
  show "text_ok g' \<and> unicode_scalar r"
  proof (cases "c = 92")
    case True
    with r c obtain c2 g2 where c2: "bump g1 = (Some c2, g2)"
      by (auto simp: escaped_def grammar_error_def split: prod.splits option.splits)
    from bump_ok [OF g1(1) c2] have "text_ok g2" by simp
    with r c True c2 show ?thesis
      by (auto simp: escaped_def grammar_error_def simple_escape_scalar split: option.splits if_splits
          dest: yieldsD [OF yields_byte_escape] yieldsD [OF yields_unicode_escape])
  qed (use r c g1 in \<open>auto simp: escaped_def\<close>)
qed

lemma is_str_append: "is_str s \<Longrightarrow> is_str t \<Longrightarrow> is_str (s @ t)"
proof (induction "length s" arbitrary: s rule: less_induct)
  case less
  show ?case
  proof (cases s)
    case (Cons x r)
    with less.prems(1) have "is_str (x # r)" by simp
    then show ?thesis
    proof (cases rule: is_strE)
      case one
      then show ?thesis using less Cons by simp
    next
      case (two b u)
      then have "is_str (u @ t)" using less Cons by simp
      with two show ?thesis unfolding Cons by (simp add: is_str_def utf8_valid.simps(2) byte_codes)
    next
      case (three b c u)
      then have "is_str (u @ t)" using less Cons by simp
      with three show ?thesis unfolding Cons by (simp add: is_str_def utf8_valid.simps(2) byte_codes)
    next
      case (four b c d u)
      then have "is_str (u @ t)" using less Cons by simp
      with four show ?thesis unfolding Cons by (simp add: is_str_def utf8_valid.simps(2) byte_codes)
    qed
  qed (use less.prems in simp)
qed

lemma yields_literal_chars: "is_str acc \<Longrightarrow> yields is_str (literal_chars d acc)"
proof (rule yieldsI)
  fix g r g' assume "is_str acc" "text_ok g" "literal_chars d acc g = (Inr r, g')"
  then show "text_ok g' \<and> is_str r"
  proof (induction d acc g rule: literal_chars.induct)
    case (1 d acc g)
    have "is_str (acc @ encode_utf8 c)" if "unicode_scalar c" for c
      using is_str_append [OF "1.prems"(1)] encode_utf8_str [OF that, of "[]"] by simp
    with 1 show ?case
      by (subst (asm) (2) literal_chars.simps)
         (auto split: if_splits prod.splits sum.splits dest!: yieldsD [OF yields_escaped])
  qed
qed

lemma yields_class_end: "unicode_scalar c \<Longrightarrow> yields unicode_scalar (class_end c)"
  by (rule yieldsI) (auto simp: class_end_def split: if_splits dest: yieldsD [OF yields_escaped])

abbreviation range_ok :: "nat \<times> nat \<Rightarrow> bool" where
  "range_ok r \<equiv> case r of (a, b) \<Rightarrow> unicode_scalar a \<and> unicode_scalar b \<and> a \<le> b"

lemma yields_class_ranges: "list_all range_ok acc \<Longrightarrow> yields (list_all range_ok) (class_ranges acc)"
proof (rule yieldsI)
  fix g r g' assume "list_all range_ok acc" "text_ok g" "class_ranges acc g = (Inr r, g')"
  then show "text_ok g' \<and> list_all range_ok r"
  proof (induction acc g rule: class_ranges.induct)
    case (1 acc g)
    show ?case
    proof (cases "sees (CHR '']'') g")
      case False
      with "1.prems"(3) obtain a g1 b g2 where r: "escaped g = (Inr a, g1)" "class_end a g1 = (Inr b, g2)" "a \<le> b"
        "class_ranges (acc @ [(a, b)]) g2 = (Inr r, g')"
        by (subst (asm) class_ranges.simps) (auto simp: grammar_error_def not_less split: if_splits prod.splits sum.splits)
      from yieldsD [OF yields_escaped r(1) "1.prems"(2)] have a: "text_ok g1" "unicode_scalar a" by simp_all
      from yieldsD [OF yields_class_end [OF a(2)] r(2) a(1)] have b: "text_ok g2" "unicode_scalar b" by simp_all
      show ?thesis
        by (rule "1.IH" [OF False r(1) [symmetric] refl r(2) [symmetric] refl]) (use r a b "1.prems"(1) in simp_all)
    qed (use "1.prems" in \<open>simp add: class_ranges.simps\<close>)
  qed
qed

section \<open>Accepted grammars\<close>

definition is_identifier :: "string \<Rightarrow> bool" where
  "is_identifier n \<longleftrightarrow> (case n of [] \<Rightarrow> False | c # cs \<Rightarrow> name_start (code c) \<and> list_all (\<lambda>c. name_part (code c)) cs)"

fun pexpr_ok :: "pexpr \<Rightarrow> bool" where
  "pexpr_ok (Ref n) \<longleftrightarrow> is_identifier n"
| "pexpr_ok (Lit s i) \<longleftrightarrow> is_str s"
| "pexpr_ok (Class ranges negated) \<longleftrightarrow> ranges \<noteq> [] \<and> list_all range_ok ranges"
| "pexpr_ok Any \<longleftrightarrow> True"
| "pexpr_ok (Seq es) \<longleftrightarrow> 2 \<le> length es \<and> list_all pexpr_ok es"
| "pexpr_ok (Choice es) \<longleftrightarrow> 2 \<le> length es \<and> list_all pexpr_ok es"
| "pexpr_ok (Optional e) \<longleftrightarrow> pexpr_ok e"
| "pexpr_ok (Repeat e one) \<longleftrightarrow> pexpr_ok e"
| "pexpr_ok (Predicate e positive) \<longleftrightarrow> pexpr_ok e"

fun height :: "pexpr \<Rightarrow> nat" where
  "height (Seq es) = Suc (foldr max (map height es) 0)"
| "height (Choice es) = Suc (foldr max (map height es) 0)"
| "height (Optional e) = Suc (height e)"
| "height (Repeat e one) = Suc (height e)"
| "height (Predicate e positive) = Suc (height e)"
| "height e = 1"

lemma foldr_max_le: "foldr max ns 0 \<le> (b :: nat) \<longleftrightarrow> (\<forall>n \<in> set ns. n \<le> b)"
  by (induction ns) simp_all

lemma bump_while_ascii:
  "text_ok g \<Longrightarrow> \<forall>c. p c \<longrightarrow> c < 128 \<Longrightarrow>
   bump_while p g = advance (length (takeWhile (\<lambda>b. p (code b)) (rest g))) g"
proof (induction p g rule: bump_while.induct)
  case (1 p g)
  show ?case
  proof (cases "rest g")
    case (Cons x r)
    then obtain c n where c: "next_char (rest g) = Some (c, n)"
      by (cases "next_char (rest g)") (auto simp: Let_def split: if_splits)
    with "1.prems" have small: "c < 128 \<longleftrightarrow> code x < 128" and ok: "text_ok (advance n g)"
      using next_char_scalar [of "rest g" c n] next_char_ok [of g c n] by (auto simp: text_ok_def Cons)
    show ?thesis
    proof (cases "p c")
      case True
      with "1.prems"(2) small c have x: "code x = c" "n = 1" by (auto simp: Cons)
      from "1.IH" [OF c refl True ok "1.prems"(2)] x
      have "bump_while p (advance 1 g) = advance (length (takeWhile (\<lambda>b. p (code b)) r)) (advance 1 g)" by (simp add: Cons)
      with x True c show ?thesis by (subst bump_while.simps) (simp add: Cons advance_def)
    next
      case False
      moreover have "\<not> p (code x)" using False small c "1.prems"(2) by (cases "code x < 128") (auto simp: Cons)
      ultimately show ?thesis using c by (subst bump_while.simps) (simp add: Cons advance_def)
    qed
  qed (simp add: bump_while.simps advance_def)
qed

lemma name_ascii: "name_part c \<Longrightarrow> c < 128" "name_start c \<Longrightarrow> c < 128"
  by (auto simp: name_part_def name_start_def)

lemma rule_name_reads:
  assumes "text_ok g" "rest (skip g) = c # s" "name_start (code c)"
  shows "rule_name_of g =
    (let n = c # takeWhile (\<lambda>b. name_part (code b)) s in (Inr n, advance (length n) (skip g)))"
proof -
  have c: "code c < 128" using name_ascii(2) [OF assms(3)] .
  with assms(2) have b: "peek (skip g) = Some (code c)" "bump (skip g) = (Some (code c), advance 1 (skip g))"
    by (simp_all add: peek_def bump_def)
  have "text_ok (snd (bump (skip g)))" using skip_ok [OF assms(1)] by simp
  from bump_while_ascii [OF this, of name_part]
  have w: "bump_while name_part (advance 1 (skip g)) =
      advance (length (takeWhile (\<lambda>b. name_part (code b)) s)) (advance 1 (skip g))"
    using b(2) assms(2) by (auto simp: name_ascii)
  have "drop (gr_pos (skip g)) (gr_text (skip g)) = c # s" using assms(2) by (simp add: rest_def)
  with w b assms(3) show ?thesis
    by (simp add: rule_name_of_def Let_def) (simp add: advance_def takeWhile_eq_take [symmetric])
qed

lemma yields_rule_name: "yields is_identifier rule_name_of"
proof (rule yieldsI)
  fix g r g' assume g: "text_ok g" and r: "rule_name_of g = (Inr r, g')"
  then obtain x where x: "peek (skip g) = Some x" "name_start x"
    by (auto simp: rule_name_of_def grammar_error_def Let_def split: if_splits option.splits)
  then obtain c s where c: "rest (skip g) = c # s" by (cases "rest (skip g)") (auto simp: peek_def)
  moreover have "code c = x"
    using next_char_scalar [of "rest (skip g)" x] skip_ok [OF g] x name_ascii(2) [OF x(2)] c
    by (auto simp: text_ok_def peek_def)
  ultimately have e: "rule_name_of g =
    (let n = c # takeWhile (\<lambda>b. name_part (code b)) s in (Inr n, advance (length n) (skip g)))"
    using x by (intro rule_name_reads [OF g]) simp_all
  with r have "is_identifier r" using x \<open>code c = x\<close> by (auto simp: is_identifier_def Let_def list_all_iff dest: set_takeWhileD)
  moreover have "text_ok g'" using g r by (auto simp: rule_name_of_def grammar_error_def Let_def bump_while_ok skip_ok split: if_splits)
  ultimately show "text_ok g' \<and> is_identifier r" by simp
qed

text \<open>
  The room under the nesting limit: with nesting \<open>n\<close>, a choice is at most \<open>4 * (128 - n)\<close> high. A term
  inside it keeps two levels for the sequence and the choice around it.
\<close>

definition fits_under :: "nat \<Rightarrow> nat \<Rightarrow> pexpr \<Rightarrow> bool" where
  "fits_under k n e \<longleftrightarrow> pexpr_ok e \<and> height e + k \<le> 4 * (129 - n)"

definition keeps :: "nat \<Rightarrow> nat \<Rightarrow> pexpr reader_of \<Rightarrow> bool" where
  "keeps k j f \<longleftrightarrow> (\<forall>g r g'. text_ok g \<longrightarrow> f g = (Inr r, g') \<longrightarrow> text_ok g' \<and> fits_under k (gr_nesting g + j) r)"

lemma keepsI: "(\<And>g r g'. text_ok g \<Longrightarrow> f g = (Inr r, g') \<Longrightarrow> text_ok g' \<and> fits_under k (gr_nesting g + j) r) \<Longrightarrow> keeps k j f"
  by (simp add: keeps_def)

lemma keepsD: "keeps k j f \<Longrightarrow> f g = (Inr r, g') \<Longrightarrow> text_ok g \<Longrightarrow> text_ok g' \<and> fits_under k (gr_nesting g + j) r"
  by (simp add: keeps_def)

lemma plain_term_keeps:
  assumes "keeps 0 1 choice" "text_ok g" "plain_term choice g = (Inr r, g')"
  shows "text_ok g' \<and> pexpr_ok r \<and> height r \<le> max 1 (4 * (128 - gr_nesting g))"
proof -
  have lit: ?thesis if "literal_term g = (Inr r, g')"
    using that
  proof (cases rule: literal_InrE)
    case (1 d g1 s g2)
    with bump_ok [OF assms(2) 1(1)] have "text_ok g1" by simp
    from yieldsD [OF yields_literal_chars 1(2) this] have "text_ok g2" "is_str s" by simp_all
    with 1 show ?thesis by simp
  qed
  have cls: ?thesis if "class_term g = (Inr r, g')"
    using that
  proof (cases rule: class_InrE)
    case (1 negated g1 ranges g2)
    then have "text_ok g1" using assms(2) by auto
    from yieldsD [OF yields_class_ranges 1(3) this] have "text_ok g2" "list_all range_ok ranges" by simp_all
    with 1 show ?thesis by simp
  qed
  have grp: ?thesis if "group_term choice g = (Inr r, g')"
  proof -
    from that obtain g1 where g1: "choice (snd (bump g)) = (Inr r, g1)" "eat '')'' g1 = (True, g')"
      by (auto simp: group_term_def grammar_error_def elim!: io_then_InrE split: prod.splits bool.splits)
    from keepsD [OF assms(1) g1(1)] assms(2) have "text_ok g1" "fits_under 0 (gr_nesting (snd (bump g)) + 1) r" by simp_all
    moreover have "gr_nesting (snd (bump g)) = gr_nesting g" using snd_bump_later [of g] by (simp add: later_def)
    ultimately show ?thesis using eat_ok [OF _ _ g1(2)] by (auto simp: fits_under_def max_def)
  qed
  have ref: ?thesis if "rule_name_of g = (Inr n, g')" "r = Ref n" for n
    using yieldsD [OF yields_rule_name that(1) assms(2)] that(2) by simp
  from lit cls grp ref assms(2,3) show ?thesis
    by (auto simp: plain_term_def grammar_error_def elim!: io_then_InrE split: if_splits)
qed

lemma prefix_loop_ok: "text_ok g \<Longrightarrow> prefix_loop signs g = (Inr r, g') \<Longrightarrow> text_ok g'"
proof (induction signs g rule: prefix_loop.induct)
  case (1 signs g)
  have "text_ok (skip (advance n g))" if "next_char (rest g) = Some (c, n)" for c n
    using next_char_ok [OF "1.prems"(1) that] by (simp add: skip_ok)
  with 1 show ?case
    by (subst (asm) (2) prefix_loop.simps) (auto simp: grammar_error_def Let_def split: option.splits if_splits)
qed

lemma postfix_ok: "postfix e g = (e', g') \<Longrightarrow> text_ok g \<Longrightarrow> text_ok g' \<and> pexpr_ok e' = pexpr_ok e \<and> height e' \<le> Suc (height e)"
  by (auto simp: postfix_def Let_def skip_ok split: if_splits)

lemma predicates_ok:
  "pexpr_ok (foldr (\<lambda>positive e. Predicate e positive) signs e) = pexpr_ok e"
  "height (foldr (\<lambda>positive e. Predicate e positive) signs e) = length signs + height e"
  by (induction signs) simp_all

lemma term_keeps:
  assumes "keeps 0 1 choice"
  shows "keeps 2 0 (term_of_grammar choice)"
proof (rule keepsI)
  fix g r g' assume g: "text_ok g" and "term_of_grammar choice g = (Inr r, g')"
  from this(2) show "text_ok g' \<and> fits_under 2 (gr_nesting g + 0) r"
  proof (cases rule: term_InrE)
    case (1 signs g1 e g2 e2 g3)
    from prefix_loop_ok [OF skip_ok [OF g] 1(1)] have g1: "text_ok g1" .
    from prefix_loop_later [OF 1(1)] skip_later [of g] have n: "gr_nesting g1 = gr_nesting g" by (simp add: later_def)
    from plain_term_keeps [OF assms _ 1(3)] g1 have g2: "text_ok g2" "pexpr_ok e"
      "height e \<le> max 1 (4 * (128 - (gr_nesting g1 + length signs)))" by simp_all
    from postfix_ok [OF 1(4) g2(1)] g2 have e2: "text_ok g3" "pexpr_ok e2" "height e2 \<le> Suc (height e)" by simp_all
    have "length signs + height e2 + 2 \<le> 4 * (129 - gr_nesting g)"
      using e2(3) g2(3) 1(2) unfolding n by (simp add: max_def split: if_splits; linarith)
    with e2 1(5,6) show ?thesis by (simp add: fits_under_def predicates_ok)
  qed
qed

lemma sequence_loop_keeps:
  "strides term \<Longrightarrow> keeps 2 0 term \<Longrightarrow> text_ok g \<Longrightarrow> list_all (fits_under 2 (gr_nesting g)) items \<Longrightarrow>
   sequence_loop term items g = (Inr r, g') \<Longrightarrow> text_ok g' \<and> list_all (fits_under 2 (gr_nesting g)) r"
proof (induction "term" items g rule: sequence_loop.induct)
  case (1 "term" items g)
  have step: "text_ok g1 \<and> fits_under 2 (gr_nesting g) e \<and> gr_nesting g1 = gr_nesting g" if "term (skip g) = (Inr e, g1)" for e g1
    using keepsD [OF "1.prems"(2) that skip_ok [OF "1.prems"(3)]] stridesD [OF "1.prems"(1) that] skip_later [of g]
    by (simp add: further_def later_def)
  from "1.prems"(5) show ?case
    by (subst (asm) sequence_loop.simps)
       (use step "1.IH" [OF refl] "1.prems"(1-4) in \<open>fastforce simp: Let_def skip_ok split: if_splits prod.splits sum.splits\<close>)
qed

lemma fits_group:
  assumes "list_all (fits_under (Suc k) n) es" "es \<noteq> []"
  shows "fits_under k n (case es of [e] \<Rightarrow> e | _ \<Rightarrow> Seq es)" "fits_under k n (case es of [e] \<Rightarrow> e | _ \<Rightarrow> Choice es)"
proof -
  from assms have one: "fits_under k n e" if "es = [e]" for e using that by (simp add: fits_under_def)
  have h: "foldr max (map height es) 0 + Suc k \<le> 4 * (129 - n)"
  proof -
    have "foldr max (map height es) 0 \<in> set (map height es)" using assms(2)
      by (induction es rule: list_nonempty_induct) (auto simp: max_def)
    with assms(1) show ?thesis by (fastforce simp: list_all_iff fits_under_def)
  qed
  have "list_all pexpr_ok es" using assms(1) by (auto simp: list_all_iff fits_under_def)
  with one h assms(2) show "fits_under k n (case es of [e] \<Rightarrow> e | _ \<Rightarrow> Seq es)" "fits_under k n (case es of [e] \<Rightarrow> e | _ \<Rightarrow> Choice es)"
    by (auto simp: fits_under_def split: list.split)
qed

lemma sequence_keeps:
  assumes "strides term" "keeps 2 0 term"
  shows "keeps 1 0 (sequence_of_grammar term)"
proof (rule keepsI)
  fix g r g' assume g: "text_ok g" and "sequence_of_grammar term g = (Inr r, g')"
  then obtain items where i: "sequence_loop term [] g = (Inr items, g')" "items \<noteq> []" "r = (case items of [e] \<Rightarrow> e | _ \<Rightarrow> Seq items)"
    by (auto simp: sequence_of_grammar_def grammar_error_def elim!: io_then_InrE split: list.splits)
  from sequence_loop_keeps [OF assms g _ i(1)] have "text_ok g'" "list_all (fits_under 2 (gr_nesting g)) items" by simp_all
  with fits_group(1) [of 1 "gr_nesting g" items] i(2,3) show "text_ok g' \<and> fits_under 1 (gr_nesting g + 0) r" by (simp add: numeral_2_eq_2)
qed

lemma choice_loop_keeps:
  "advances sequence \<Longrightarrow> keeps 1 0 sequence \<Longrightarrow> text_ok g \<Longrightarrow> list_all (fits_under 1 (gr_nesting g)) choices \<Longrightarrow>
   choice_loop sequence choices g = (Inr r, g') \<Longrightarrow>
   text_ok g' \<and> list_all (fits_under 1 (gr_nesting g)) r \<and> length choices \<le> length r"
proof (induction sequence choices g rule: choice_loop.induct)
  case (1 sequence choices g)
  have slash: "text_ok g1" if "eat ''/'' g = (b, g1)" for b g1
    using eat_ok [OF "1.prems"(3) _ that] by simp
  have step: "text_ok g2 \<and> fits_under 1 (gr_nesting g) e \<and> gr_nesting g2 = gr_nesting g"
    if "eat ''/'' g = (True, g1)" "sequence g1 = (Inr e, g2)" for e g1 g2
    using keepsD [OF "1.prems"(2) that(2) slash [OF that(1)]] advancesD [OF "1.prems"(1) that(2)] eat_later [OF that(1)]
    by (simp add: later_def)
  obtain b g0 where b: "eat ''/'' g = (b, g0)" by fastforce
  show ?case
  proof (cases b)
    case True
    with "1.prems"(5) b obtain e g1 where e: "sequence g0 = (Inr e, g1)" "remaining g1 < remaining g"
      "choice_loop sequence (choices @ [e]) g1 = (Inr r, g')"
      by (subst (asm) choice_loop.simps) (auto split: if_splits prod.splits sum.splits)
    with step [of g0 e g1] b True "1.prems"(1,2,4)
      "1.IH" [of True g0 "Inr e" g1 e] show ?thesis by simp
  qed (use b slash "1.prems"(4,5) in \<open>auto simp: choice_loop.simps\<close>)
qed

lemma choice_keeps:
  assumes "advances choice" "keeps 0 1 choice"
  shows "keeps 0 1 (choice_of_grammar choice)"
proof (rule keepsI)
  note strides = term_strides [OF assms(1)]
  note sequence = sequence_advances [OF strides] sequence_keeps [OF strides term_keeps [OF assms(2)]]
  fix g r g' assume g: "text_ok g" and "choice_of_grammar choice g = (Inr r, g')"
  from this(2) show "text_ok g' \<and> fits_under 0 (gr_nesting g + 1) r"
  proof (cases rule: choice_InrE)
    case (1 e g1 es g2)
    from keepsD [OF sequence(2) 1(2)] g have g1: "text_ok g1" "fits_under 1 (gr_nesting g + 1) e" by simp_all
    from advancesD [OF sequence(1) 1(2)] have n: "gr_nesting g1 = gr_nesting g + 1" by (simp add: later_def)
    from choice_loop_keeps [OF sequence g1(1) _ 1(3)] g1(2) n
    have "text_ok g2" "list_all (fits_under 1 (gr_nesting g + 1)) es" "es \<noteq> []" by auto
    with fits_group(2) [of 0 "gr_nesting g + 1" es] 1(4,5) show ?thesis by simp
  qed
qed

lemma grammar_choice_keeps: "keeps 0 1 (grammar_choice level)"
proof (induction level)
  case (Suc level)
  then show ?case using choice_keeps [OF grammar_choice_advances] by simp
qed (simp add: keeps_def)

definition rule_ok :: "rule \<Rightarrow> bool" where
  "rule_ok r \<longleftrightarrow> is_identifier (rule_name r) \<and> pexpr_ok (rule_expr r) \<and> height (rule_expr r) \<le> 512"

lemma rule_InrE:
  assumes "read_rule g = (Inr r, g')"
  obtains name g1 g2 e g3 g4 where "rule_name_of g = (Inr name, g1)" "eat ''<-'' g1 = (True, g2)"
    "grammar_choice 129 g2 = (Inr e, g3)" "eat '';'' g3 = (True, g4)" "r = \<lparr>rule_name = name, rule_expr = e\<rparr>" "g' = skip g4"
  using assms
  by (auto simp del: grammar_choice.simps grammar_choice_Suc simp: read_rule_def grammar_error_def elim!: io_then_InrE split: prod.splits bool.splits)

lemma read_rule_strides: "strides read_rule"
proof (rule stridesI)
  fix g r g' assume "read_rule g = (Inr r, g')"
  then show "further g g'"
  proof (cases rule: rule_InrE)
    case (1 name g1 g2 e g3 g4)
    have "later g1 g'"
      using eat_later [OF 1(2)] advancesD [OF grammar_choice_advances 1(3)] eat_later [OF 1(4)] skip_later [of g4] 1(6)
      by (blast intro: later_trans)
    with rule_name_further [OF 1(1)] show ?thesis by (rule further_trans(1))
  qed
qed

lemma yields_read_rule: "yields rule_ok read_rule"
proof (rule yieldsI)
  fix g r g' assume g: "text_ok g" and "read_rule g = (Inr r, g')"
  from this(2) show "text_ok g' \<and> rule_ok r"
  proof (cases rule: rule_InrE)
    case (1 name g1 g2 e g3 g4)
    from yieldsD [OF yields_rule_name 1(1) g] have n: "text_ok g1" "is_identifier name" by simp_all
    from eat_ok [OF n(1) _ 1(2)] have g2: "text_ok g2" by simp
    from keepsD [OF grammar_choice_keeps 1(3) g2] have e: "text_ok g3" "pexpr_ok e" "height e \<le> 4 * (128 - gr_nesting g2)"
      by (simp_all add: fits_under_def)
    from eat_ok [OF e(1) _ 1(4)] have "text_ok g4" by simp
    with n e 1(5,6) show ?thesis by (simp add: rule_ok_def skip_ok)
  qed
qed

lemma rules_loop_reads:
  "list_all rule_ok rules \<Longrightarrow> text_ok g \<Longrightarrow> rules_loop rules g = (Inr r, g') \<Longrightarrow> list_all rule_ok r"
proof (induction rules g rule: rules_loop.induct)
  case (1 rules g)
  from "1.prems"(3) show ?case
    by (subst (asm) rules_loop.simps)
       (use "1.IH" "1.prems"(1,2) yieldsD [OF yields_read_rule] in \<open>fastforce split: if_splits prod.splits sum.splits\<close>)
qed

text \<open>The guards of the loops never fire: with the readers of the grammar the loops are the source's.\<close>

lemma sequence_loop_unguarded:
  assumes "advances choice"
  shows "sequence_loop (term_of_grammar choice) items g =
     (let g0 = skip g in
      if (case peek g0 of None \<Rightarrow> True | Some c \<Rightarrow> c \<in> {code (CHR ''/''), code (CHR '';''), code (CHR '')'')})
      then (Inr items, g0)
      else case term_of_grammar choice g0 of
        (Inl e, g1) \<Rightarrow> (Inl e, g1)
      | (Inr e, g1) \<Rightarrow> sequence_loop (term_of_grammar choice) (items @ [e]) g1)"
proof -
  have "remaining g1 < remaining g" if "term_of_grammar choice (skip g) = (Inr e, g1)" for e g1
    using stridesD [OF term_strides [OF assms] that] skip_later [of g] by (simp add: further_def later_def)
  then show ?thesis by (subst sequence_loop.simps) (auto simp: Let_def split: prod.split sum.split)
qed

lemma choice_loop_unguarded:
  assumes "advances sequence"
  shows "choice_loop sequence choices g =
     (case eat ''/'' g of
        (False, g0) \<Rightarrow> (Inr choices, g0)
      | (True, g0) \<Rightarrow>
          (case sequence g0 of
             (Inl e, g1) \<Rightarrow> (Inl e, g1)
           | (Inr e, g1) \<Rightarrow> choice_loop sequence (choices @ [e]) g1))"
proof -
  have "remaining g1 < remaining g" if "eat ''/'' g = (True, g0)" "sequence g0 = (Inr e, g1)" for e g0 g1
    using eat_further [OF that(1)] advancesD [OF assms that(2)] by (simp add: further_def later_def)
  then show ?thesis by (subst choice_loop.simps) (auto split: prod.split sum.split bool.split)
qed

lemma rules_loop_unguarded:
  "rules_loop rules g =
     (if peek g = None then (Inr rules, g)
      else case read_rule g of
        (Inl e, g1) \<Rightarrow> (Inl e, g1)
      | (Inr r, g1) \<Rightarrow> rules_loop (rules @ [r]) g1)"
proof -
  have "remaining g1 < remaining g" if "read_rule g = (Inr r, g1)" for r g1
    using stridesD [OF read_rule_strides that] by (simp add: further_def)
  then show ?thesis by (subst rules_loop.simps) (auto split: prod.split sum.split)
qed

text \<open>Nor is level 0 reached: two readers of groups that agree below the limit give the same choices.\<close>

definition same_reading :: "nat \<Rightarrow> pexpr reader_of \<Rightarrow> pexpr reader_of \<Rightarrow> bool" where
  "same_reading n f f' \<longleftrightarrow> (\<forall>g. n \<le> gr_nesting g \<longrightarrow> f g = f' g)"

lemma agreeD: "same_reading n f f' \<Longrightarrow> n \<le> gr_nesting g \<Longrightarrow> f g = f' g"
  by (simp add: same_reading_def)

lemma nesting_skip [simp]: "gr_nesting (skip g) = gr_nesting g" "gr_nesting (snd (bump g)) = gr_nesting g"
  using skip_later [of g] snd_bump_later [of g] by (simp_all add: later_def)

lemma plain_term_agree: "same_reading n f f' \<Longrightarrow> same_reading n (plain_term f) (plain_term f')"
  by (auto simp: same_reading_def plain_term_def group_term_def io_then_def)

lemma prefix_loop_nesting: "prefix_loop signs g = (Inr r, g') \<Longrightarrow> gr_nesting g' = gr_nesting g"
  using prefix_loop_later by (simp add: later_def)

lemma term_agree:
  assumes "same_reading n f f'"
  shows "same_reading n (term_of_grammar f) (term_of_grammar f')"
  unfolding same_reading_def
proof (intro allI impI)
  fix g :: grammar_text assume g: "n \<le> gr_nesting g"
  have "plain_term f (g1\<lparr>gr_nesting := gr_nesting g1 + length signs\<rparr>) = plain_term f' (g1\<lparr>gr_nesting := gr_nesting g1 + length signs\<rparr>)"
    if "prefix_loop [] (skip g) = (Inr signs, g1)" for signs g1
    by (rule agreeD [OF plain_term_agree [OF assms]]) (use prefix_loop_nesting [OF that] g in simp)
  then show "term_of_grammar f g = term_of_grammar f' g"
    by (auto simp: term_of_grammar_def io_then_def Let_def split: prod.split sum.split)
qed

lemma sequence_loop_agree:
  "same_reading n f f' \<Longrightarrow> strides f \<Longrightarrow> n \<le> gr_nesting g \<Longrightarrow> sequence_loop f items g = sequence_loop f' items g"
proof (induction f items g rule: sequence_loop.induct)
  case (1 f items g)
  have same: "f' (skip g) = f (skip g)" using agreeD [OF "1.prems"(1), of "skip g"] "1.prems"(3) by simp
  have "n \<le> gr_nesting g1" if "f (skip g) = (Inr e, g1)" for e g1
    using stridesD [OF "1.prems"(2) that] "1.prems"(3) by (simp add: further_def later_def)
  with "1.IH" [OF refl] "1.prems"(1,2) same show ?case
    by (subst (1 2) sequence_loop.simps) (auto simp: Let_def split: prod.split sum.split)
qed

lemma sequence_agree:
  assumes "same_reading n f f'" "strides f"
  shows "same_reading n (sequence_of_grammar f) (sequence_of_grammar f')"
  using sequence_loop_agree [OF assms] by (simp add: same_reading_def sequence_of_grammar_def io_then_def)

lemma choice_loop_agree:
  "same_reading n f f' \<Longrightarrow> advances f \<Longrightarrow> n \<le> gr_nesting g \<Longrightarrow> choice_loop f choices g = choice_loop f' choices g"
proof (induction f choices g rule: choice_loop.induct)
  case (1 f choices g)
  have n: "n \<le> gr_nesting g0" if "eat ''/'' g = (b, g0)" for b g0
    using eat_later [OF that] "1.prems"(3) by (simp add: later_def)
  have same: "f' g0 = f g0" if "eat ''/'' g = (b, g0)" for b g0
    using agreeD [OF "1.prems"(1) n [OF that]] by simp
  have "n \<le> gr_nesting g1" if "eat ''/'' g = (b, g0)" "f g0 = (Inr e, g1)" for b g0 e g1
    using advancesD [OF "1.prems"(2) that(2)] n [OF that(1)] by (simp add: later_def)
  moreover obtain b g0 where b: "eat ''/'' g = (b, g0)" by fastforce
  ultimately show ?case using "1.IH" [OF b [symmetric]] "1.prems"(1,2) same [OF b]
    by (subst (1 2) choice_loop.simps) (cases "f g0", auto split: sum.split bool.split)
qed

lemma choice_agree:
  assumes "same_reading (Suc n) f f'" "advances f"
  shows "same_reading n (choice_of_grammar f) (choice_of_grammar f')"
  unfolding same_reading_def
proof (intro allI impI)
  fix g :: grammar_text assume g: "n \<le> gr_nesting g"
  note strides = term_strides [OF assms(2)]
  note sequence = sequence_agree [OF term_agree [OF assms(1)] strides]
  have "choice_loop (sequence_of_grammar (term_of_grammar f)) [e] g1 = choice_loop (sequence_of_grammar (term_of_grammar f')) [e] g1"
    if "sequence_of_grammar (term_of_grammar f) (g\<lparr>gr_nesting := gr_nesting g + 1\<rparr>) = (Inr e, g1)" for e g1
    by (rule choice_loop_agree [OF sequence sequence_advances [OF strides]])
       (use advancesD [OF sequence_advances [OF strides] that] g in \<open>simp add: later_def\<close>)
  with agreeD [OF sequence, of "g\<lparr>gr_nesting := gr_nesting g + 1\<rparr>"] g
  show "choice_of_grammar f g = choice_of_grammar f' g"
    by (auto simp: choice_of_grammar_def io_then_def Let_def split: prod.split sum.split)
qed

lemma grammar_choice_level:
  "128 \<le> gr_nesting g + level \<Longrightarrow> grammar_choice (Suc level + k) g = grammar_choice (Suc level) g"
proof -
  have "128 \<le> n + level \<Longrightarrow> same_reading n (grammar_choice (Suc level + k)) (grammar_choice (Suc level))" for n
  proof (induction level arbitrary: n)
    case 0
    then show ?case by (auto simp: same_reading_def choice_of_grammar_def Let_def)
  next
    case (Suc level)
    then show ?case using choice_agree [OF _ grammar_choice_advances, of n "Suc level + k"] by simp
  qed
  then show "128 \<le> gr_nesting g + level \<Longrightarrow> grammar_choice (Suc level + k) g = grammar_choice (Suc level) g"
    by (simp add: same_reading_def del: grammar_choice.simps grammar_choice_Suc)
qed

end
