(* ===== verification/GrammarPrint.thy ===== *)
theory GrammarPrint
  imports GrammarSpec
begin

text \<open>
  A printer of grammars, in the notation that the reader of \<^verbatim>\<open>crates/peg/src/lib.rs\<close> documents, and
  the round trip: every grammar of identifiers, ASCII literals and ordered classes within the
  nesting limit is read back from its text. The printer is a specification, not code of the crate.
\<close>

section \<open>The printer\<close>

definition hex_char :: "nat \<Rightarrow> char" where
  "hex_char d = (if d < 10 then char_of (48 + d) else char_of (87 + d))"

definition print_byte :: "char \<Rightarrow> string" where
  "print_byte c = [CHR 0x5C, CHR ''x'', hex_char (code c div 16), hex_char (code c mod 16)]"

definition six_digits :: "nat \<Rightarrow> nat list" where
  "six_digits v = [v div 1048576, v div 65536 mod 16, v div 4096 mod 16, v div 256 mod 16, v div 16 mod 16, v mod 16]"

definition print_scalar :: "nat \<Rightarrow> string" where
  "print_scalar v = [CHR 0x5C, CHR ''u'', CHR ''{''] @ map hex_char (six_digits v) @ ''}''"

definition print_range :: "nat \<times> nat \<Rightarrow> string" where
  "print_range r = (case r of (a, b) \<Rightarrow> print_scalar a @ ''-'' @ print_scalar b)"

definition paren :: "bool \<Rightarrow> string \<Rightarrow> string" where
  "paren p s = (if p then ''('' @ s @ '')'' else s)"

text \<open>An expression where a choice (0), a sequence (1) or a term (2) is expected.\<close>

fun print_expr :: "nat \<Rightarrow> pexpr \<Rightarrow> string" where
  "print_expr m (Ref n) = n @ '' ''"
| "print_expr m (Lit s i) = [CHR 0x27] @ concat (map print_byte s) @ [CHR 0x27] @ (if i then ''i '' else '' '')"
| "print_expr m (Class ranges negated) = ''['' @ (if negated then ''^'' else []) @ concat (map print_range ranges) @ '']''"
| "print_expr m Any = ''.''"
| "print_expr m (Seq es) = paren (2 \<le> m) (concat (map (print_expr 2) es))"
| "print_expr m (Choice es) = paren (1 \<le> m) (tl (concat (map (\<lambda>e. ''/'' @ print_expr 1 e) es)))"
| "print_expr m (Optional e) = ''('' @ print_expr 0 e @ '')?''"
| "print_expr m (Repeat e one) = ''('' @ print_expr 0 e @ (if one then '')+'' else '')*'')"
| "print_expr m (Predicate e positive) = (if positive then ''&('' else ''!('') @ print_expr 0 e @ '')''"

definition rule_text :: "rule \<Rightarrow> string" where
  "rule_text r = rule_name r @ ''<-'' @ print_expr 0 (rule_expr r) @ '';''"

definition rules_text :: "rule list \<Rightarrow> string" where
  "rules_text rules = concat (map rule_text rules)"

text \<open>The nesting that reading the text takes, and the literals the printer covers.\<close>

fun nest :: "nat \<Rightarrow> pexpr \<Rightarrow> nat" where
  "nest m (Seq es) = (if 2 \<le> m then 1 else 0) + foldr max (map (nest 2) es) 0"
| "nest m (Choice es) = (if 1 \<le> m then 1 else 0) + foldr max (map (nest 1) es) 0"
| "nest m (Optional e) = Suc (nest 0 e)"
| "nest m (Repeat e one) = Suc (nest 0 e)"
| "nest m (Predicate e positive) = Suc (Suc (nest 0 e))"
| "nest m e = 0"

fun ascii_literals :: "pexpr \<Rightarrow> bool" where
  "ascii_literals (Lit s i) \<longleftrightarrow> ascii s"
| "ascii_literals (Seq es) \<longleftrightarrow> list_all ascii_literals es"
| "ascii_literals (Choice es) \<longleftrightarrow> list_all ascii_literals es"
| "ascii_literals (Optional e) \<longleftrightarrow> ascii_literals e"
| "ascii_literals (Repeat e one) \<longleftrightarrow> ascii_literals e"
| "ascii_literals (Predicate e positive) \<longleftrightarrow> ascii_literals e"
| "ascii_literals e \<longleftrightarrow> True"

section \<open>Reading ASCII text\<close>

lemma advance_advance [simp]: "advance n (advance m g) = advance (m + n) g"
  by (simp add: advance_def)

lemma advance_0 [simp]: "advance 0 g = g"
  by (simp add: advance_def)

lemma peek_cons: "rest g = c # s \<Longrightarrow> code c < 128 \<Longrightarrow> peek g = Some (code c)"
  by (simp add: peek_def)

lemma bump_cons: "rest g = c # s \<Longrightarrow> code c < 128 \<Longrightarrow> bump g = (Some (code c), advance 1 g)"
  by (simp add: bump_def)

lemma text_ok_advance:
  assumes "text_ok g" "rest g = t @ s" "ascii t"
  shows "text_ok (advance (length t) g)"
  using take_ascii_ok [of g t] assms by simp

text \<open>Texts at which a blank would end and no comment starts.\<close>

definition dark :: "char \<Rightarrow> bool" where
  "dark c \<longleftrightarrow> code c < 128 \<and> \<not> is_whitespace (code c) \<and> code c \<noteq> 35"

lemma skip_dark: "rest g = [] \<or> (\<exists>c s. rest g = c # s \<and> dark c) \<Longrightarrow> skip g = g"
  by (subst skip.simps) (auto simp: Let_def bump_while.simps dark_def peek_def)

lemma skip_blank:
  assumes "rest g = CHR '' '' # s" "s = [] \<or> (\<exists>c t. s = c # t \<and> dark c)"
  shows "skip g = advance 1 g"
proof -
  have r: "rest (advance 1 g) = s" using assms(1) by simp
  have "bump_while is_whitespace (advance 1 g) = advance 1 g"
    using assms(2) r by (subst bump_while.simps) (auto simp: dark_def)
  then have "bump_while is_whitespace g = advance 1 g"
    using assms(1) by (subst bump_while.simps) (simp add: is_whitespace_def)
  moreover have "peek (advance 1 g) \<noteq> Some (code (CHR ''#''))" using assms(2) r by (auto simp: peek_def dark_def)
  ultimately show ?thesis by (subst skip.simps) (simp add: Let_def)
qed

lemma eat_dark:
  assumes "rest g = t @ s" "t \<noteq> []" "dark (hd t)"
  shows "eat t g = (True, advance (length t) g)"
  using assms skip_dark [of g] by (cases t) (simp_all add: eat_def Let_def)

lemma eat_other:
  assumes "rest g = c # s" "dark c" "c \<noteq> d"
  shows "eat [d] g = (False, g)"
  using assms skip_dark [of g] by (simp add: eat_def Let_def)

section \<open>Reading characters\<close>

lemma hex_char_digit: "d < 16 \<Longrightarrow> code (hex_char d) < 128 \<and> to_digit16 (code (hex_char d)) = Some d \<and> code (hex_char d) \<noteq> 125"
  by (auto simp: hex_char_def to_digit16_def)

lemma read_hex_digit: "rest g = hex_char d # s \<Longrightarrow> d < 16 \<Longrightarrow> hex_digit m g = (Inr d, advance 1 g)"
  using hex_char_digit [of d] by (simp add: hex_digit_def bump_cons)

lemma read_unicode_digits:
  "rest g = map hex_char ds @ CHR ''}'' # s \<Longrightarrow> list_all (\<lambda>d. d < 16) ds \<Longrightarrow> n + length ds \<le> 6 \<Longrightarrow>
   unicode_digits v n g = (Inr (foldl (\<lambda>v d. v * 16 + d) v ds, n + length ds), advance (length ds) g)"
proof (induction ds arbitrary: g v n)
  case Nil
  then show ?case by (subst unicode_digits.simps) (simp add: peek_cons)
next
  case (Cons d ds)
  have d: "d < 16" using Cons.prems(2) by simp
  have "peek g \<noteq> Some 125" using Cons.prems(1) hex_char_digit [OF d] by (simp add: peek_cons)
  moreover have "hex_digit ''invalid Unicode escape'' g = (Inr d, advance 1 g)" using Cons.prems(1) d by (simp add: read_hex_digit)
  moreover have "unicode_digits (v * 16 + d) (n + 1) (advance 1 g) =
      (Inr (foldl (\<lambda>v d. v * 16 + d) (v * 16 + d) ds, n + 1 + length ds), advance (length ds) (advance 1 g))"
    using Cons.prems by (intro Cons.IH) simp_all
  ultimately show ?case using Cons.prems(3) by (subst unicode_digits.simps) simp
qed

lemma six_digits_value: "v < 16777216 \<Longrightarrow> foldl (\<lambda>v d. v * 16 + d) 0 (six_digits v) = v"
proof -
  have "v div 1048576 = v div 16 div 16 div 16 div 16 div 16" "v div 65536 = v div 16 div 16 div 16 div 16"
    "v div 4096 = v div 16 div 16 div 16" "v div 256 = v div 16 div 16" by (simp_all add: div_mult2_eq [symmetric])
  then show ?thesis by (simp add: six_digits_def)
qed

lemma read_scalar:
  assumes "rest g = print_scalar v @ s" "unicode_scalar v"
  shows "escaped g = (Inr v, advance 10 g)"
proof -
  have v: "v < 1114112" using assms(2) by (auto simp: unicode_scalar_def)
  have len: "length (six_digits v) = 6" by (simp add: six_digits_def)
  have r: "rest g = CHR 0x5C # CHR ''u'' # CHR ''{'' # map hex_char (six_digits v) @ CHR ''}'' # s"
    using assms(1) by (simp add: print_scalar_def)
  have "unicode_digits 0 0 (advance 3 g) =
      (Inr (foldl (\<lambda>v d. v * 16 + d) 0 (six_digits v), 0 + length (six_digits v)), advance (length (six_digits v)) (advance 3 g))"
    using v by (intro read_unicode_digits [of _ _ s]) (auto simp: r six_digits_def)
  then have d: "unicode_digits 0 0 (advance 3 g) = (Inr (v, 6), advance 9 g)" using v by (simp add: six_digits_value len)
  have "rest (advance 9 g) = CHR ''}'' # s" using r len by (simp add: numeral_eq_Suc)
  then have e: "bump (advance 9 g) = (Some 125, advance 10 g)" by (simp add: bump_cons)
  have "bump g = (Some 92, advance 1 g)" "bump (advance 1 g) = (Some 117, advance 2 g)" "bump (advance 2 g) = (Some 123, advance 3 g)"
    using r by (simp_all add: bump_cons numeral_eq_Suc)
  with d e assms(2) show ?thesis
    by (simp add: escaped_def simple_escape_def unicode_escape_def io_then_def from_u32_scalar [THEN iffD2])
qed

lemma read_byte:
  assumes "rest g = print_byte c @ s" "code c < 128"
  shows "escaped g = (Inr (code c), advance 4 g)"
proof -
  have r: "rest g = CHR 0x5C # CHR ''x'' # hex_char (code c div 16) # hex_char (code c mod 16) # s"
    using assms(1) by (simp add: print_byte_def)
  have "bump g = (Some 92, advance 1 g)" "bump (advance 1 g) = (Some 120, advance 2 g)"
    using r by (simp_all add: bump_cons numeral_2_eq_2)
  moreover have "rest (advance 2 g) = hex_char (code c div 16) # hex_char (code c mod 16) # s" "rest (advance 3 g) = hex_char (code c mod 16) # s"
    using r by (simp_all add: numeral_2_eq_2 numeral_3_eq_3)
  then have "hex_digit m (advance 2 g) = (Inr (code c div 16), advance 3 g)" "hex_digit m (advance 3 g) = (Inr (code c mod 16), advance 4 g)" for m
    using assms(2) by (auto simp del: advance_simps simp: read_hex_digit)
  moreover have "from_u32 (code c) = Some (code c)" using assms(2) by (simp add: from_u32_def)
  ultimately show ?thesis by (simp add: escaped_def simple_escape_def byte_escape_def io_then_def)
qed

lemma encode_ascii: "code c < 128 \<Longrightarrow> encode_utf8 (code c) = [c]"
  by (simp add: encode_utf8_def)

lemma read_literal_chars:
  "rest g = concat (map print_byte l) @ CHR 0x27 # s \<Longrightarrow> ascii l \<Longrightarrow>
   literal_chars 39 acc g = (Inr (acc @ l), advance (4 * length l) g)"
proof (induction l arbitrary: g acc)
  case Nil
  then show ?case by (subst literal_chars.simps) (simp add: peek_cons)
next
  case (Cons c l)
  have "escaped g = (Inr (code c), advance 4 g)" using Cons.prems by (intro read_byte [of _ _ "concat (map print_byte l) @ CHR 0x27 # s"]) simp_all
  moreover have "peek g \<noteq> Some 39" using Cons.prems(1) by (simp add: print_byte_def peek_cons)
  moreover have "literal_chars 39 (acc @ [c]) (advance 4 g) = (Inr ((acc @ [c]) @ l), advance (4 * length l) (advance 4 g))"
    using Cons.prems by (intro Cons.IH) (simp_all add: print_byte_def)
  ultimately show ?case using Cons.prems(2) by (subst literal_chars.simps) (simp add: encode_ascii)
qed

lemma print_scalar_length [simp]: "length (print_scalar v) = 10"
  by (simp add: print_scalar_def six_digits_def)

lemma print_scalar_head: "\<exists>t. print_scalar v = CHR 0x5C # t"
  by (simp add: print_scalar_def)

lemma print_range_head: "\<exists>t. print_range r = CHR 0x5C # t"
  by (simp add: print_range_def print_scalar_def split: prod.split)

lemma read_class_ranges:
  "rest g = concat (map print_range rs) @ CHR '']'' # s \<Longrightarrow> list_all range_ok rs \<Longrightarrow>
   class_ranges acc g = (Inr (acc @ rs), advance (21 * length rs) g)"
proof (induction rs arbitrary: g acc)
  case Nil
  then show ?case by (subst class_ranges.simps) (simp add: peek_cons)
next
  case (Cons r rs)
  obtain a b where r: "r = (a, b)" by fastforce
  from Cons.prems have ok: "unicode_scalar a" "unicode_scalar b" "a \<le> b" by (simp_all add: r)
  let ?s = "concat (map print_range rs) @ CHR '']'' # s"
  have g: "rest g = print_scalar a @ CHR ''-'' # print_scalar b @ ?s" using Cons.prems(1) by (simp add: r print_range_def [of "(a, b)"])
  obtain ta where ta: "print_scalar a = CHR 0x5C # ta" using print_scalar_head by blast
  obtain tb where tb: "print_scalar b = CHR 0x5C # tb" using print_scalar_head by blast
  have "peek g \<noteq> Some 93" using g ta by (simp add: peek_cons)
  moreover have "escaped g = (Inr a, advance 10 g)" using g ok(1) by (rule read_scalar)
  moreover have e: "class_end a (advance 10 g) = (Inr b, advance 21 g)"
  proof -
    have "rest (advance 10 g) = CHR ''-'' # print_scalar b @ ?s" using g by simp
    moreover from this have "escaped (advance 11 g) = (Inr b, advance 10 (advance 11 g))"
      using g by (intro read_scalar [OF _ ok(2)]) simp
    ultimately show ?thesis using tb by (simp add: class_end_def peek_cons bump_cons)
  qed
  moreover have "class_ranges (acc @ [(a, b)]) (advance 21 g) = (Inr ((acc @ [(a, b)]) @ rs), advance (21 * length rs) (advance 21 g))"
    using Cons.prems by (intro Cons.IH) (simp_all add: g)
  ultimately show ?case using ok(3) by (subst class_ranges.simps) (simp add: r)
qed

section \<open>Reading terms\<close>

text \<open>
  \<open>reads_back C f k t e\<close>: with room for \<open>k\<close> more levels of nesting, \<open>f\<close> reads \<open>e\<close> from the text \<open>t\<close> and stops at its
  end, if what follows satisfies \<open>C\<close>.
\<close>

definition reads_back :: "(string \<Rightarrow> bool) \<Rightarrow> pexpr reader_of \<Rightarrow> nat \<Rightarrow> string \<Rightarrow> pexpr \<Rightarrow> bool" where
  "reads_back C f k t e \<longleftrightarrow> (\<forall>g s. text_ok g \<longrightarrow> rest g = t @ s \<longrightarrow> C s \<longrightarrow> gr_nesting g + k \<le> 128 \<longrightarrow> f g = (Inr e, advance (length t) g))"

lemma readsI:
  "(\<And>g s. text_ok g \<Longrightarrow> rest g = t @ s \<Longrightarrow> C s \<Longrightarrow> gr_nesting g + k \<le> 128 \<Longrightarrow> f g = (Inr e, advance (length t) g)) \<Longrightarrow> reads_back C f k t e"
  by (simp add: reads_back_def)

lemma readsD:
  "reads_back C f k t e \<Longrightarrow> text_ok g \<Longrightarrow> rest g = t @ s \<Longrightarrow> C s \<Longrightarrow> gr_nesting g + k \<le> 128 \<Longrightarrow> f g = (Inr e, advance (length t) g)"
  by (simp add: reads_back_def)

lemma reads_weaken: "reads_back C f k t e \<Longrightarrow> k \<le> k' \<Longrightarrow> reads_back C f k' t e"
  by (simp add: reads_back_def)

text \<open>What may follow a term, a sequence and a choice.\<close>

definition after_term :: "string \<Rightarrow> bool" where
  "after_term s \<longleftrightarrow> (case s of [] \<Rightarrow> False | c # _ \<Rightarrow> dark c \<and> c \<notin> {CHR ''?'', CHR ''*'', CHR ''+''})"

definition after_sequence :: "string \<Rightarrow> bool" where
  "after_sequence s \<longleftrightarrow> (case s of [] \<Rightarrow> False | c # _ \<Rightarrow> c \<in> {CHR ''/'', CHR '';'', CHR '')''})"

definition after_choice :: "string \<Rightarrow> bool" where
  "after_choice s \<longleftrightarrow> (case s of [] \<Rightarrow> False | c # _ \<Rightarrow> c \<in> {CHR '';'', CHR '')''})"

lemma after_mono: "after_choice s \<Longrightarrow> after_sequence s" "after_sequence s \<Longrightarrow> after_term s"
  by (auto simp: after_choice_def after_sequence_def after_term_def dark_def is_whitespace_def split: list.splits)

text \<open>What a term starts with.\<close>

definition opens :: "char \<Rightarrow> bool" where
  "opens c \<longleftrightarrow> dark c \<and> c \<notin> {CHR ''?'', CHR ''*'', CHR ''+'', CHR ''/'', CHR '';'', CHR '')''}"

abbreviation starts :: "string \<Rightarrow> bool" where
  "starts t \<equiv> case t of [] \<Rightarrow> False | c # _ \<Rightarrow> opens c"

lemma starts_after: "starts t \<Longrightarrow> after_term (t @ s)"
  by (auto simp: after_term_def opens_def split: list.splits)

lemma nesting_same: "g\<lparr>gr_nesting := gr_nesting g\<rparr> = g"
  by (cases g) simp

lemma prefix_loop_none:
  assumes "rest g = c # t" "dark c" "c \<notin> {CHR ''&'', CHR ''!''}"
  shows "prefix_loop [] g = (Inr [], g)"
proof -
  have "code c \<noteq> 38 \<and> code c \<noteq> 33" using assms(3) of_char_eq_iff [of c "CHR ''&''"] of_char_eq_iff [of c "CHR ''!''"] by auto
  with assms(1,2) show ?thesis by (subst prefix_loop.simps) (simp add: dark_def)
qed

text \<open>A term without signs is a plain term and its postfix.\<close>

lemma term_plain:
  assumes "rest g = c # t" "dark c" "c \<notin> {CHR ''&'', CHR ''!''}" "gr_nesting g \<le> 128"
    and "plain_term choice g = (Inr e, g1)" "postfix e g1 = (e', g2)"
  shows "term_of_grammar choice g = (Inr e', g2)"
proof -
  have "skip g = g" using assms(1,2) by (intro skip_dark) blast
  with prefix_loop_none [OF assms(1-3)] assms(4-6) show ?thesis
    by (simp add: term_of_grammar_def io_then_def nesting_same)
qed

lemma postfix_none:
  assumes "rest g = s" "after_term s"
  shows "postfix e g = (e, g)"
proof -
  from assms obtain c t where c: "rest g = c # t" "dark c" "c \<notin> {CHR ''?'', CHR ''*'', CHR ''+''}"
    by (auto simp: after_term_def split: list.splits)
  then have "skip g = g" "peek g = Some (code c)" by (auto intro: skip_dark simp: peek_def dark_def)
  moreover have "code c \<noteq> 63 \<and> code c \<noteq> 42 \<and> code c \<noteq> 43"
    using c(3) of_char_eq_iff [of c "CHR ''?''"] of_char_eq_iff [of c "CHR ''*''"] of_char_eq_iff [of c "CHR ''+''"] by auto
  ultimately show ?thesis by (simp add: postfix_def Let_def)
qed

lemma postfix_blank:
  assumes "rest g = CHR '' '' # s" "after_term s"
  shows "postfix e g = (e, advance 1 g)"
proof -
  have "skip g = advance 1 g" using assms by (intro skip_blank) (auto simp: after_term_def split: list.splits)
  moreover have "skip (advance 1 g) = advance 1 g"
    using assms by (intro skip_dark) (auto simp: after_term_def split: list.splits)
  ultimately have "postfix e g = postfix e (advance 1 g)" by (simp add: postfix_def)
  also have "\<dots> = (e, advance 1 g)" using assms by (intro postfix_none [of _ s]) simp_all
  finally show ?thesis .
qed

lemma name_okE:
  assumes "is_identifier n"
  obtains c cs where "n = c # cs" "name_start (code c)" "list_all (\<lambda>c. name_part (code c)) cs"
  using assms by (auto simp: is_identifier_def split: list.splits)

lemma name_start_dark: "name_start (code c) \<Longrightarrow> opens c \<and> c \<notin> {CHR ''&'', CHR ''!''} \<and> code c \<notin> {40, 91, 46, 39, 34}"
  by (auto simp: name_start_def opens_def dark_def is_whitespace_def)

lemma read_name:
  assumes "text_ok g" "rest g = n @ d # s" "is_identifier n" "\<not> name_part (code d)"
  shows "rule_name_of g = (Inr n, advance (length n) g)"
proof -
  from assms(3) obtain c cs where n: "n = c # cs" "name_start (code c)" "list_all (\<lambda>c. name_part (code c)) cs" by (rule name_okE)
  have "skip g = g" using n name_start_dark [OF n(2)] assms(2) by (intro skip_dark) (auto simp: opens_def)
  moreover have "takeWhile (\<lambda>b. name_part (code b)) (cs @ d # s) = cs"
    using n(3) assms(4) by (simp add: takeWhile_append list_all_iff)
  ultimately show ?thesis
    using rule_name_reads [OF assms(1), of c "cs @ d # s"] n assms(2) by (simp add: Let_def)
qed

lemma read_ref:
  assumes "is_identifier n"
  shows "reads_back after_term (term_of_grammar choice) 0 (n @ '' '') (Ref n)"
proof (rule readsI)
  fix g s assume g: "text_ok g" "rest g = (n @ '' '') @ s" "after_term s" "gr_nesting g + 0 \<le> 128"
  from assms obtain c cs where n: "n = c # cs" "name_start (code c)" by (rule name_okE)
  note c = name_start_dark [OF n(2)]
  have "rule_name_of g = (Inr n, advance (length n) g)"
    using g assms by (intro read_name [of _ _ "CHR '' ''" s]) (simp_all add: name_part_def name_start_def)
  moreover have "peek g = Some (code c)" using g(2) n c by (simp add: peek_cons opens_def dark_def)
  ultimately have "plain_term choice g = (Inr (Ref n), advance (length n) g)"
    using c n(2) by (simp add: plain_term_def io_then_def)
  moreover have "postfix (Ref n) (advance (length n) g) = (Ref n, advance 1 (advance (length n) g))"
    using g by (intro postfix_blank [of _ s]) simp_all
  ultimately have "term_of_grammar choice g = (Inr (Ref n), advance 1 (advance (length n) g))"
  proof (rule term_plain [rotated 4])
    show "rest g = c # cs @ CHR '' '' # s" using g(2) n(1) by simp
    show "dark c" using c by (simp add: opens_def)
    show "c \<notin> {CHR ''&'', CHR ''!''}" using c by blast
    show "gr_nesting g \<le> 128" using g(4) by simp
  qed
  then show "term_of_grammar choice g = (Inr (Ref n), advance (length (n @ '' '')) g)" by simp
qed

lemma read_lit:
  assumes "ascii l"
  shows "reads_back after_term (term_of_grammar choice) 0 (print_expr m (Lit l i)) (Lit l i)"
proof (rule readsI)
  let ?n = "4 * length l"
  fix g s assume g: "text_ok g" "rest g = print_expr m (Lit l i) @ s" "after_term s" "gr_nesting g + 0 \<le> 128"
  let ?q = "if i then CHR ''i'' # CHR '' '' # s else CHR '' '' # s"
  have r: "rest g = CHR 0x27 # concat (map print_byte l) @ CHR 0x27 # ?q" using g(2) by simp
  have len: "length (concat (map print_byte l)) = ?n" by (induction l) (simp_all add: print_byte_def)
  have b: "bump g = (Some 39, advance 1 g)" "peek g = Some 39" using r by (simp_all add: bump_cons peek_cons)
  have chars: "literal_chars 39 [] (advance 1 g) = (Inr l, advance (1 + ?n) g)"
    using read_literal_chars [of "advance 1 g" l ?q "[]"] r assms by simp
  have "rest (advance (1 + ?n) g) = CHR 0x27 # ?q" using r len by simp
  then have d: "bump (advance (1 + ?n) g) = (Some 39, advance (2 + ?n) g)" by (simp add: bump_cons)
  have q: "rest (advance (2 + ?n) g) = ?q" using r len by simp
  let ?k = "if i then 3 + ?n else 2 + ?n"
  have "peek (advance (2 + ?n) g) = Some (if i then 105 else 32)" "i \<Longrightarrow> bump (advance (2 + ?n) g) = (Some 105, advance (3 + ?n) g)"
    using q by (simp_all add: bump_cons peek_cons)
  with b chars d have "plain_term choice g = (Inr (Lit l i), advance ?k g)"
    by (simp add: plain_term_def literal_term_def io_then_def Let_def)
  moreover have "rest (advance ?k g) = CHR '' '' # s" using r len by (simp add: numeral_3_eq_3)
  then have "postfix (Lit l i) (advance ?k g) = (Lit l i, advance 1 (advance ?k g))" using g(3) by (rule postfix_blank)
  ultimately have "term_of_grammar choice g = (Inr (Lit l i), advance 1 (advance ?k g))"
    using r g(4) by (intro term_plain [of g "CHR 0x27"]) (auto simp: dark_def is_whitespace_def)
  then show "term_of_grammar choice g = (Inr (Lit l i), advance (length (print_expr m (Lit l i))) g)"
    by (simp add: len)
qed

lemma read_class:
  assumes "ranges \<noteq> []" "list_all range_ok ranges"
  shows "reads_back after_term (term_of_grammar choice) 0 (print_expr m (Class ranges negated)) (Class ranges negated)"
proof (rule readsI)
  let ?n = "21 * length ranges" and ?m = "if negated then 2 else 1 :: nat"
  fix g s assume g: "text_ok g" "rest g = print_expr m (Class ranges negated) @ s" "after_term s" "gr_nesting g + 0 \<le> 128"
  let ?q = "concat (map print_range ranges) @ CHR '']'' # s"
  have r: "rest g = CHR ''['' # (if negated then CHR ''^'' # ?q else ?q)" using g(2) by simp
  have len: "length (concat (map print_range ranges)) = ?n" by (induction ranges) (simp_all add: print_range_def split: prod.split)
  obtain t where t: "?q = CHR 0x5C # t"
    using assms(1) print_range_head [of "hd ranges"] by (cases ranges) auto
  have b: "bump g = (Some 91, advance 1 g)" "peek g = Some 91" using r by (simp_all add: bump_cons peek_cons)
  have n: "sees (CHR ''^'') (advance 1 g) = negated" using r t peek_cons [of "advance 1 g"] by (cases negated) simp_all
  have b2: "negated \<Longrightarrow> bump (advance 1 g) = (Some 94, advance 2 g)" using r by (simp add: bump_cons)
  have q: "rest (advance ?m g) = ?q" using r by (simp add: numeral_2_eq_2)
  have ranges: "class_ranges [] (advance ?m g) = (Inr ranges, advance (?m + ?n) g)"
    using read_class_ranges [OF q assms(2), of "[]"] by simp
  have "rest (advance (?m + ?n) g) = CHR '']'' # s"
    using q len by (metis add.commute advance_advance advance_simps(4) append_eq_conv_conj)
  then have "bump (advance (?m + ?n) g) = (Some 93, advance (1 + ?m + ?n) g)" by (simp add: bump_cons)
  with b n b2 ranges assms(1) have p: "plain_term choice g = (Inr (Class ranges negated), advance (1 + ?m + ?n) g)"
    by (cases negated) (simp_all add: plain_term_def class_term_def io_then_def Let_def)
  have e: "1 + ?m + ?n = length (print_expr m (Class ranges negated))" using len by simp
  have "postfix (Class ranges negated) (advance (1 + ?m + ?n) g) = (Class ranges negated, advance (1 + ?m + ?n) g)"
    using g(2,3) unfolding e by (intro postfix_none [of _ s]) simp_all
  with p r g(4) have "term_of_grammar choice g = (Inr (Class ranges negated), advance (1 + ?m + ?n) g)"
    by (intro term_plain [of g "CHR ''[''"]) (auto simp: dark_def is_whitespace_def)
  then show "term_of_grammar choice g = (Inr (Class ranges negated), advance (length (print_expr m (Class ranges negated))) g)"
    unfolding e .
qed

lemma read_any: "reads_back after_term (term_of_grammar choice) 0 ''.'' Any"
proof (rule readsI)
  fix g s assume g: "text_ok g" "rest g = ''.'' @ s" "after_term s" "gr_nesting g + 0 \<le> 128"
  then have "plain_term choice g = (Inr Any, advance 1 g)" by (simp add: plain_term_def bump_cons peek_cons)
  moreover have "postfix Any (advance 1 g) = (Any, advance 1 g)" using g by (intro postfix_none [of _ s]) simp_all
  ultimately show "term_of_grammar choice g = (Inr Any, advance (length ''.'') g)"
    using g by (auto intro!: term_plain [of g "CHR ''.''" s] simp: dark_def is_whitespace_def)
qed

section \<open>Reading groups, sequences and choices\<close>

lemma plain_group:
  assumes "reads_back after_choice choice k t e" "text_ok g" "rest g = ''('' @ t @ '')'' @ s" "gr_nesting g + k \<le> 128"
  shows "plain_term choice g = (Inr e, advance (length t + 2) g)"
proof -
  have g: "bump g = (Some 40, advance 1 g)" "peek g = Some 40" using assms(3) by (simp_all add: bump_cons peek_cons)
  have "text_ok (advance 1 g)" using text_ok_advance [of g "''(''"] assms(2,3) by simp
  from readsD [OF assms(1) this, of "'')'' @ s"] assms(3,4)
  have "choice (advance 1 g) = (Inr e, advance (1 + length t) g)" by (simp add: after_choice_def)
  moreover have "eat '')'' (advance (1 + length t) g) = (True, advance (length '')'') (advance (1 + length t) g))"
    using assms(3) by (intro eat_dark [of _ _ s]) (simp_all add: dark_def is_whitespace_def)
  ultimately show ?thesis using g by (simp add: plain_term_def group_term_def io_then_def)
qed

lemma read_group:
  assumes "reads_back after_choice choice k t e"
    and "\<And>g s. rest g = q @ s \<Longrightarrow> after_term s \<Longrightarrow> postfix e g = (e', advance (length q) g)"
  shows "reads_back after_term (term_of_grammar choice) k (''('' @ t @ '')'' @ q) e'"
proof (rule readsI)
  fix g s assume g: "text_ok g" "rest g = (''('' @ t @ '')'' @ q) @ s" "after_term s" "gr_nesting g + k \<le> 128"
  have "plain_term choice g = (Inr e, advance (length t + 2) g)"
    using g by (intro plain_group [OF assms(1), of _ "q @ s"]) simp_all
  moreover have "postfix e (advance (length t + 2) g) = (e', advance (length q) (advance (length t + 2) g))"
    using g by (intro assms(2) [of _ s]) simp_all
  ultimately have "term_of_grammar choice g = (Inr e', advance (length q) (advance (length t + 2) g))"
    using g by (intro term_plain [of g "CHR ''(''" "t @ '')'' @ q @ s"]) (simp_all add: dark_def is_whitespace_def)
  then show "term_of_grammar choice g = (Inr e', advance (length (''('' @ t @ '')'' @ q)) g)" by (simp add: add.commute)
qed

lemma postfix_signs:
  assumes "rest g = [c] @ s" "c \<in> {CHR ''?'', CHR ''*'', CHR ''+''}"
  shows "postfix e g = (if c = CHR ''?'' then Optional e else Repeat e (c = CHR ''+''), advance (length [c]) g)"
proof -
  have "dark c" using assms(2) by (auto simp: dark_def is_whitespace_def)
  then have "skip g = g" using assms(1) by (intro skip_dark) auto
  moreover have "peek g = Some (code c)" "bump g = (Some (code c), advance 1 g)"
    using assms(1) \<open>dark c\<close> by (simp_all add: bump_cons peek_cons dark_def)
  ultimately show ?thesis using assms(2) by (auto simp: postfix_def Let_def)
qed

lemma prefix_loop_one:
  assumes "rest g = c # d # t" "c \<in> {CHR ''&'', CHR ''!''}" "dark d" "d \<notin> {CHR ''&'', CHR ''!''}"
  shows "prefix_loop [] g = (Inr [c = CHR ''&''], advance 1 g)"
proof -
  have d: "code d < 128" "code d \<noteq> 38 \<and> code d \<noteq> 33"
    using assms(3,4) of_char_eq_iff [of d "CHR ''&''"] of_char_eq_iff [of d "CHR ''!''"] by (auto simp: dark_def)
  have "skip (advance 1 g) = advance 1 g" using assms(1,3) by (intro skip_dark) simp
  moreover have "prefix_loop signs (advance 1 g) = (Inr signs, advance 1 g)" for signs
    using assms(1) d by (subst prefix_loop.simps) simp
  ultimately show ?thesis using assms(1,2) by (subst prefix_loop.simps) auto
qed

lemma advance_nesting: "(advance n g)\<lparr>gr_nesting := m\<rparr> = advance n (g\<lparr>gr_nesting := m\<rparr>)"
  by (simp add: advance_def)

lemma rest_nesting [simp]: "rest (g\<lparr>gr_nesting := m\<rparr>) = rest g"
  by (simp add: rest_def)

lemma read_predicate:
  assumes "reads_back after_choice choice k t e"
  shows "reads_back after_term (term_of_grammar choice) (Suc k) ((if p then ''&('' else ''!('') @ t @ '')'') (Predicate e p)"
proof (rule readsI)
  let ?c = "if p then CHR ''&'' else CHR ''!''"
  fix g s assume g: "text_ok g" "rest g = ((if p then ''&('' else ''!('') @ t @ '')'') @ s" "after_term s" "gr_nesting g + Suc k \<le> 128"
  have r: "rest g = ?c # CHR ''('' # t @ '')'' @ s" using g(2) by simp
  have "skip g = g" using r by (intro skip_dark) (auto simp: dark_def is_whitespace_def)
  moreover have "prefix_loop [] g = (Inr [?c = CHR ''&''], advance 1 g)"
    using r by (intro prefix_loop_one) (auto simp: dark_def is_whitespace_def)
  moreover let ?g = "(advance 1 g)\<lparr>gr_nesting := gr_nesting g + 1\<rparr>"
  have "text_ok (advance 1 g)" using text_ok_advance [of g "[?c]"] g(1) r by simp
  then have "plain_term choice ?g = (Inr e, advance (length t + 2) ?g)"
    using r g(4) by (intro plain_group [OF assms, of _ s]) simp_all
  moreover have "postfix e (advance (length t + 2) ?g) = (e, advance (length t + 2) ?g)"
    using r g(3) by (intro postfix_none [of _ s]) simp_all
  ultimately have "term_of_grammar choice g = (Inr (Predicate e p), (advance (length t + 2) ?g)\<lparr>gr_nesting := gr_nesting g\<rparr>)"
    using g(4) by (simp add: term_of_grammar_def io_then_def)
  also have "(advance (length t + 2) ?g)\<lparr>gr_nesting := gr_nesting g\<rparr> = advance (length t + 3) g"
    by (simp add: advance_def)
  finally show "term_of_grammar choice g = (Inr (Predicate e p), advance (length ((if p then ''&('' else ''!('') @ t @ '')'')) g)"
    by (simp add: numeral_3_eq_3)
qed

lemma read_sequence_loop:
  "\<lbrakk>\<forall>e \<in> set es. reads_back after_term term k (P e) e \<and> starts (P e) \<and> ascii (P e); text_ok g; rest g = concat (map P es) @ s;
    after_sequence s; gr_nesting g + k \<le> 128\<rbrakk> \<Longrightarrow>
   sequence_loop term items g = (Inr (items @ es), advance (length (concat (map P es))) g)"
proof (induction es arbitrary: g items)
  case Nil
  then obtain c t where c: "rest g = c # t" "c \<in> {CHR ''/'', CHR '';'', CHR '')''}" by (auto simp: after_sequence_def split: list.splits)
  then have "dark c" by (auto simp: dark_def is_whitespace_def)
  with c have "skip g = g" "peek g = Some (code c)" by (auto intro: skip_dark simp: peek_cons dark_def)
  with c(2) show ?case by (subst sequence_loop.simps) auto
next
  case (Cons e es)
  from Cons.prems(1) obtain c t where c: "P e = c # t" "opens c" by (auto split: list.splits)
  let ?s = "concat (map P es) @ s" and ?g = "advance (length (P e)) g"
  have r: "rest g = P e @ ?s" using Cons.prems(3) by simp
  have "skip g = g" using c r by (intro skip_dark) (auto simp: opens_def)
  moreover have "peek g = Some (code c)" using c r by (simp add: peek_cons opens_def dark_def)
  moreover have "code c \<notin> {47, 59, 41}"
    using c(2) of_char_eq_iff [of c "CHR ''/''"] of_char_eq_iff [of c "CHR '';''"] of_char_eq_iff [of c "CHR '')''"] by (auto simp: opens_def)
  moreover have "after_term ?s"
  proof (cases es)
    case Nil
    then show ?thesis using after_mono(2) [OF Cons.prems(4)] by simp
  next
    case (Cons e' es')
    then show ?thesis using starts_after [of "P e'"] Cons.prems(1) by simp
  qed
  then have "term g = (Inr e, ?g)" using Cons.prems r by (intro readsD [of after_term "term" k]) simp_all
  moreover have "remaining ?g < remaining g" using r c(1) by (simp add: remaining_rest)
  moreover have "sequence_loop term (items @ [e]) ?g = (Inr ((items @ [e]) @ es), advance (length (concat (map P es))) ?g)"
    using Cons.prems r text_ok_advance [OF Cons.prems(2) r] by (intro Cons.IH) simp_all
  ultimately show ?case by (subst sequence_loop.simps) simp
qed

lemma read_sequence:
  assumes "es \<noteq> []" "\<forall>e \<in> set es. reads_back after_term term k (P e) e \<and> starts (P e) \<and> ascii (P e)"
  shows "reads_back after_sequence (sequence_of_grammar term) k (concat (map P es)) (case es of [e] \<Rightarrow> e | _ \<Rightarrow> Seq es)"
  by (rule readsI) (use assms(1) read_sequence_loop [OF assms(2), of _ _ "[]"] in
    \<open>auto simp: sequence_of_grammar_def io_then_def split: list.split\<close>)

lemma read_choice_loop:
  "\<lbrakk>\<forall>e \<in> set es. reads_back after_sequence sequence k (P e) e \<and> ascii (P e); text_ok g; rest g = concat (map (\<lambda>e. ''/'' @ P e) es) @ s;
    after_choice s; gr_nesting g + k \<le> 128\<rbrakk> \<Longrightarrow>
   choice_loop sequence choices g = (Inr (choices @ es), advance (length (concat (map (\<lambda>e. ''/'' @ P e) es))) g)"
proof (induction es arbitrary: g choices)
  case Nil
  then obtain c t where c: "rest g = c # t" "c \<in> {CHR '';'', CHR '')''}" by (auto simp: after_choice_def split: list.splits)
  then have "eat ''/'' g = (False, g)" by (intro eat_other [of g c t]) (auto simp: dark_def is_whitespace_def)
  then show ?case by (subst choice_loop.simps) simp
next
  case (Cons e es)
  let ?s = "concat (map (\<lambda>e. ''/'' @ P e) es) @ s" and ?g = "advance (1 + length (P e)) g"
  have r: "rest g = ''/'' @ P e @ ?s" using Cons.prems(3) by simp
  have "eat ''/'' g = (True, advance (length ''/'') g)"
    using r by (intro eat_dark [of _ _ "P e @ ?s"]) (simp_all add: dark_def is_whitespace_def)
  moreover have ok: "text_ok (advance 1 g)" using text_ok_advance [of g "''/''"] Cons.prems(2) r by simp
  have "after_sequence ?s" using after_mono(1) [OF Cons.prems(4)] by (cases es) (simp_all add: after_sequence_def)
  then have "sequence (advance 1 g) = (Inr e, advance (length (P e)) (advance 1 g))"
    using Cons.prems r ok by (intro readsD [of after_sequence sequence k]) simp_all
  moreover have "remaining ?g < remaining g" using r by (simp add: remaining_rest)
  moreover have "text_ok ?g" using text_ok_advance [OF ok, of "P e" ?s] Cons.prems(1) r by simp
  then have "choice_loop sequence (choices @ [e]) ?g =
      (Inr ((choices @ [e]) @ es), advance (length (concat (map (\<lambda>e. ''/'' @ P e) es))) ?g)"
    using Cons.prems r by (intro Cons.IH) simp_all
  ultimately show ?case by (subst choice_loop.simps) simp
qed

lemma read_choice:
  fixes choice :: "pexpr reader_of"
  defines "sequence \<equiv> sequence_of_grammar (term_of_grammar choice)"
  assumes "\<forall>e \<in> set (e0 # es). reads_back after_sequence sequence k (P e) e \<and> ascii (P e)"
  shows "reads_back after_choice (choice_of_grammar choice) (Suc k) (P e0 @ concat (map (\<lambda>e. ''/'' @ P e) es))
    (case e0 # es of [e] \<Rightarrow> e | _ \<Rightarrow> Choice (e0 # es))"
proof (rule readsI)
  let ?t = "concat (map (\<lambda>e. ''/'' @ P e) es)"
  fix g s assume g: "text_ok g" "rest g = (P e0 @ ?t) @ s" "after_choice s" "gr_nesting g + Suc k \<le> 128"
  let ?g = "g\<lparr>gr_nesting := gr_nesting g + 1\<rparr>"
  have r: "rest ?g = P e0 @ ?t @ s" using g(2) by simp
  have "after_sequence (?t @ s)" using after_mono(1) [OF g(3)] by (cases es) (simp_all add: after_sequence_def)
  then have "sequence ?g = (Inr e0, advance (length (P e0)) ?g)"
    using assms(2) g r by (intro readsD [of after_sequence sequence k]) simp_all
  moreover have "text_ok (advance (length (P e0)) ?g)" using text_ok_advance [of ?g "P e0", OF _ r] assms(2) g(1) by simp
  then have "choice_loop sequence [e0] (advance (length (P e0)) ?g) = (Inr ([e0] @ es), advance (length ?t) (advance (length (P e0)) ?g))"
    using assms(2) g r by (intro read_choice_loop [of es sequence k P _ s]) simp_all
  ultimately have "choice_of_grammar choice g =
      (Inr (case e0 # es of [e] \<Rightarrow> e | _ \<Rightarrow> Choice (e0 # es)), (advance (length (P e0 @ ?t)) ?g)\<lparr>gr_nesting := gr_nesting g\<rparr>)"
    using g(4) by (simp add: choice_of_grammar_def sequence_def [symmetric] io_then_def Let_def)
  also have "(advance (length (P e0 @ ?t)) ?g)\<lparr>gr_nesting := gr_nesting g\<rparr> = advance (length (P e0 @ ?t)) g" by (simp add: advance_def)
  finally show "choice_of_grammar choice g =
      (Inr (case e0 # es of [e] \<Rightarrow> e | _ \<Rightarrow> Choice (e0 # es)), advance (length (P e0 @ ?t)) g)" .
qed

section \<open>The round trip\<close>

abbreviation printable :: "pexpr \<Rightarrow> bool" where
  "printable e \<equiv> pexpr_ok e \<and> ascii_literals e"

lemma hex_char_ascii: "d < 16 \<Longrightarrow> code (hex_char d) < 128"
  using hex_char_digit by blast

lemma print_byte_ascii: "ascii (print_byte c)"
proof -
  have "code c < 256" by simp
  then have "code c div 16 < 16" by (simp add: div_less_iff_less_mult)
  then show ?thesis by (simp add: print_byte_def hex_char_ascii)
qed

lemma print_range_ascii: "range_ok r \<Longrightarrow> ascii (print_range r)"
proof -
  have "ascii (print_scalar v)" if "unicode_scalar v" for v
  proof -
    have "v < 1114112" using that by (auto simp: unicode_scalar_def)
    then have "v div 1048576 < 16" by (simp add: div_less_iff_less_mult)
    then show ?thesis by (simp add: print_scalar_def six_digits_def hex_char_ascii)
  qed
  then show "range_ok r \<Longrightarrow> ascii (print_range r)" by (auto simp: print_range_def split: prod.splits)
qed

lemma name_ok_ascii: "is_identifier n \<Longrightarrow> ascii n"
  by (auto elim!: name_okE simp: list_all_iff name_ascii)

lemma ascii_tl: "ascii s \<Longrightarrow> ascii (tl s)"
  by (cases s) simp_all

lemma print_expr_ascii: "printable e \<Longrightarrow> ascii (print_expr m e)"
proof (induction e arbitrary: m)
  case (Choice es)
  then have "ascii (print_expr 1 e)" if "e \<in> set es" for e using that by (simp add: list_all_iff)
  then have "ascii (concat (map (\<lambda>e. ''/'' @ print_expr 1 e) es))" by auto
  from ascii_tl [OF this] show ?case by (simp add: paren_def)
next
  case (Class ranges negated)
  then have "ascii (print_range r)" if "r \<in> set ranges" for r using that print_range_ascii [of r] by (simp add: list_all_iff)
  then show ?case by auto
qed (auto simp: paren_def list_all_iff name_ok_ascii dest: print_byte_ascii [THEN bspec])

lemma print_expr_starts: "printable e \<Longrightarrow> starts (print_expr 2 e)"
  by (cases e) (auto simp: paren_def opens_def dark_def is_whitespace_def dest!: name_start_dark elim!: name_okE)

lemma tl_concat_slash: "tl (concat (map (\<lambda>e. ''/'' @ P e) (e # es))) = P e @ concat (map (\<lambda>e. ''/'' @ P e) es)"
  by simp

text \<open>The text of an expression is read back where a term, a sequence and a choice is expected.\<close>

abbreviation read_term :: "nat \<Rightarrow> pexpr reader_of" where
  "read_term level \<equiv> term_of_grammar (grammar_choice level)"

definition term_back :: "pexpr \<Rightarrow> bool" where
  "term_back e \<longleftrightarrow> (\<forall>level. nest 2 e \<le> level \<longrightarrow> reads_back after_term (read_term level) (nest 2 e) (print_expr 2 e) e)"

definition sequence_back :: "pexpr \<Rightarrow> bool" where
  "sequence_back e \<longleftrightarrow>
     (\<forall>level. nest 1 e \<le> level \<longrightarrow> reads_back after_sequence (sequence_of_grammar (read_term level)) (nest 1 e) (print_expr 1 e) e)"

definition choice_back :: "pexpr \<Rightarrow> bool" where
  "choice_back e \<longleftrightarrow>
     (\<forall>level. nest 0 e \<le> level \<longrightarrow> reads_back after_choice (grammar_choice (Suc level)) (Suc (nest 0 e)) (print_expr 0 e) e)"

lemma le_foldr_max: "(n :: nat) \<in> set ns \<Longrightarrow> n \<le> foldr max ns 0"
  using foldr_max_le [of ns "foldr max ns 0"] by blast

lemma sequence_of_terms:
  assumes "es \<noteq> []" "\<forall>e \<in> set es. printable e \<and> term_back e" "foldr max (map (nest 2) es) 0 \<le> level"
  shows "reads_back after_sequence (sequence_of_grammar (read_term level)) (foldr max (map (nest 2) es) 0)
    (concat (map (print_expr 2) es)) (case es of [e] \<Rightarrow> e | _ \<Rightarrow> Seq es)"
proof (rule read_sequence [OF assms(1)], intro ballI conjI)
  fix e assume e: "e \<in> set es"
  then have n: "nest 2 e \<le> foldr max (map (nest 2) es) 0" by (intro le_foldr_max) simp
  with assms(2,3) e have "reads_back after_term (read_term level) (nest 2 e) (print_expr 2 e) e" by (simp add: term_back_def)
  then show "reads_back after_term (read_term level) (foldr max (map (nest 2) es) 0) (print_expr 2 e) e" using n by (rule reads_weaken)
  show "starts (print_expr 2 e)" using assms(2) e print_expr_starts by blast
  show "code c < 128" if "c \<in> set (print_expr 2 e)" for c using assms(2) e that print_expr_ascii by blast
qed

lemma choice_of_sequences:
  assumes "es \<noteq> []" "\<forall>e \<in> set es. printable e \<and> sequence_back e" "foldr max (map (nest 1) es) 0 \<le> level"
  shows "reads_back after_choice (grammar_choice (Suc level)) (Suc (foldr max (map (nest 1) es) 0))
    (tl (concat (map (\<lambda>e. ''/'' @ print_expr 1 e) es))) (case es of [e] \<Rightarrow> e | _ \<Rightarrow> Choice es)"
proof -
  let ?k = "foldr max (map (nest 1) es) 0"
  have each: "reads_back after_sequence (sequence_of_grammar (read_term level)) ?k (print_expr 1 e) e \<and> ascii (print_expr 1 e)"
    if "e \<in> set es" for e
  proof
    have n: "nest 1 e \<le> ?k" using that by (intro le_foldr_max) simp
    with assms(2,3) that have "reads_back after_sequence (sequence_of_grammar (read_term level)) (nest 1 e) (print_expr 1 e) e"
      by (simp add: sequence_back_def)
    then show "reads_back after_sequence (sequence_of_grammar (read_term level)) ?k (print_expr 1 e) e" using n by (rule reads_weaken)
  qed (use assms(2) that print_expr_ascii in blast)
  obtain e0 es' where es: "es = e0 # es'" using assms(1) by (cases es) auto
  show ?thesis
    using read_choice [of e0 es' "grammar_choice level" ?k "print_expr 1"] each
    unfolding grammar_choice_Suc es tl_concat_slash by blast
qed

lemma term_of_choice:
  assumes "choice_back e" "Suc (nest 0 e) \<le> level"
    and "\<And>g s. rest g = q @ s \<Longrightarrow> after_term s \<Longrightarrow> postfix e g = (e', advance (length q) g)"
  shows "reads_back after_term (read_term level) (Suc (nest 0 e)) (''('' @ print_expr 0 e @ '')'' @ q) e'"
proof -
  from assms(2) obtain n where "level = Suc n" "nest 0 e \<le> n" by (cases level) auto
  with assms(1) show ?thesis by (intro read_group [OF _ assms(3)]) (auto simp: choice_back_def)
qed

lemma sequence_of_term: "printable e \<Longrightarrow> term_back e \<Longrightarrow> (\<forall>es. e \<noteq> Seq es) \<Longrightarrow> sequence_back e"
  using sequence_of_terms [of "[e]"] by (cases e) (auto simp: sequence_back_def paren_def)

lemma choice_of_sequence: "printable e \<Longrightarrow> sequence_back e \<Longrightarrow> (\<forall>es. e \<noteq> Choice es) \<Longrightarrow> choice_back e"
  using choice_of_sequences [of "[e]"] by (cases e) (auto simp: choice_back_def paren_def simp del: grammar_choice_Suc)

lemma choice_backD:
  "choice_back e \<Longrightarrow> nest 0 e \<le> level \<Longrightarrow> reads_back after_choice (grammar_choice (Suc level)) (Suc (nest 0 e)) (print_expr 0 e) e"
  by (simp add: choice_back_def del: grammar_choice_Suc)

lemma group_back:
  assumes "choice_back e" "print_expr 2 e = ''('' @ print_expr 0 e @ '')''" "nest 2 e = Suc (nest 0 e)"
  shows "term_back e"
  unfolding term_back_def assms(2,3)
proof (intro allI impI)
  fix level assume "Suc (nest 0 e) \<le> level"
  from term_of_choice [OF assms(1) this, of "[]" e] postfix_none
  show "reads_back after_term (read_term level) (Suc (nest 0 e)) (''('' @ print_expr 0 e @ '')'') e" by simp
qed

lemma print_back: "printable e \<Longrightarrow> term_back e \<and> sequence_back e \<and> choice_back e"
proof (induction e)
  case (Seq es)
  then have es: "\<forall>e \<in> set es. printable e \<and> term_back e" "2 \<le> length es" by (auto simp: list_all_iff)
  then have "sequence_back (Seq es)"
    using sequence_of_terms [of es] by (cases es rule: remdups_adj.cases) (auto simp: sequence_back_def paren_def)
  moreover from this Seq.prems have "choice_back (Seq es)" by (intro choice_of_sequence) auto
  moreover from this have "term_back (Seq es)" by (rule group_back) (simp_all add: paren_def)
  ultimately show ?case by blast
next
  case (Choice es)
  then have es: "\<forall>e \<in> set es. printable e \<and> sequence_back e" "2 \<le> length es" by (auto simp: list_all_iff)
  then have "choice_back (Choice es)"
    using choice_of_sequences [of es] by (cases es rule: remdups_adj.cases) (auto simp: choice_back_def paren_def simp del: grammar_choice_Suc)
  moreover from this have "term_back (Choice es)" by (rule group_back) (simp_all add: paren_def)
  moreover from this Choice.prems have "sequence_back (Choice es)" by (intro sequence_of_term) auto
  ultimately show ?case by blast
next
  case (Optional e)
  then have "choice_back e" by simp
  then have "term_back (Optional e)"
    using term_of_choice [of e _ "''?''" "Optional e"] postfix_signs [of _ "CHR ''?''"] by (simp add: term_back_def)
  with Optional.prems show ?case using sequence_of_term choice_of_sequence by blast
next
  case (Repeat e one)
  then have "choice_back e" by simp
  then have "term_back (Repeat e one)"
    using term_of_choice [of e _ "[if one then CHR ''+'' else CHR ''*'']" "Repeat e one"]
      postfix_signs [of _ "if one then CHR ''+'' else CHR ''*''"] by (cases one) (simp_all add: term_back_def)
  with Repeat.prems show ?case using sequence_of_term choice_of_sequence by blast
next
  case (Predicate e positive)
  then have e: "choice_back e" by simp
  have "reads_back after_term (read_term level) (Suc (Suc (nest 0 e))) (print_expr 2 (Predicate e positive)) (Predicate e positive)"
    if "Suc (Suc (nest 0 e)) \<le> level" for level
  proof -
    from that obtain n where "level = Suc n" "nest 0 e \<le> n" by (cases level) auto
    with e have "reads_back after_choice (grammar_choice level) (Suc (nest 0 e)) (print_expr 0 e) e" by (auto simp: choice_back_def)
    from read_predicate [OF this, of positive] show ?thesis by simp
  qed
  then have "term_back (Predicate e positive)" by (simp add: term_back_def)
  with Predicate.prems show ?case using sequence_of_term choice_of_sequence by blast
next
  case (Ref n)
  then have "term_back (Ref n)" using read_ref [of n] by (simp add: term_back_def)
  with Ref show ?case using sequence_of_term choice_of_sequence by blast
next
  case (Lit l i)
  then have "term_back (Lit l i)" using read_lit [of l _ 2 i] by (simp add: term_back_def)
  with Lit show ?case using sequence_of_term choice_of_sequence by blast
next
  case (Class ranges negated)
  then have "term_back (Class ranges negated)" using read_class [of ranges _ 2 negated] by (simp add: term_back_def)
  with Class show ?case using sequence_of_term choice_of_sequence by blast
next
  case Any
  have "term_back Any" using read_any by (simp add: term_back_def)
  with Any show ?case using sequence_of_term choice_of_sequence by blast
qed

text \<open>Rules whose text the reader takes: a name, an expression the printer covers, and room under the nesting limit.\<close>

definition rule_printable :: "rule \<Rightarrow> bool" where
  "rule_printable r \<longleftrightarrow> is_identifier (rule_name r) \<and> printable (rule_expr r) \<and> nest 0 (rule_expr r) < 128"

lemma rule_text_ascii: "rule_printable r \<Longrightarrow> ascii (rule_text r)"
  using print_expr_ascii [of "rule_expr r" 0] name_ok_ascii [of "rule_name r"]
  by (auto simp: rule_printable_def rule_text_def)

lemma rules_text_ascii: "list_all rule_printable rules \<Longrightarrow> ascii (rules_text rules)"
  using rule_text_ascii by (auto simp: rules_text_def list_all_iff)

lemma rule_text_dark:
  assumes "rule_printable r"
  obtains c t where "rule_text r = c # t" "dark c"
proof -
  from assms have "is_identifier (rule_name r)" by (simp add: rule_printable_def)
  then obtain c cs where c: "rule_name r = c # cs" "name_start (code c)" by (rule name_okE)
  show thesis by (rule that [of c]) (use c name_start_dark [OF c(2)] in \<open>auto simp: rule_text_def opens_def\<close>)
qed

lemma skip_rules_text:
  assumes "rest g = rules_text rules" "list_all rule_printable rules"
  shows "skip g = g"
proof (cases rules)
  case (Cons r rs)
  from assms(2) Cons obtain c t where "rule_text r = c # t" "dark c" by (auto elim: rule_text_dark)
  with assms(1) Cons show ?thesis by (intro skip_dark) (auto simp: rules_text_def)
qed (use assms(1) in \<open>auto simp: rules_text_def intro: skip_dark\<close>)

lemma read_rule_back:
  assumes "rule_printable r" "text_ok g" "rest g = rule_text r @ s" "gr_nesting g = 0"
    and "skip (advance (length (rule_text r)) g) = advance (length (rule_text r)) g"
  shows "read_rule g = (Inr r, advance (length (rule_text r)) g)"
proof -
  let ?n = "rule_name r" and ?e = "rule_expr r"
  let ?t = "print_expr 0 ?e"
  from assms(1) have r: "is_identifier ?n" "printable ?e" "nest 0 ?e < 128" by (simp_all add: rule_printable_def)
  have g: "rest g = ?n @ CHR ''<'' # CHR ''-'' # ?t @ CHR '';'' # s" using assms(3) by (simp add: rule_text_def)
  have name: "rule_name_of g = (Inr ?n, advance (length ?n) g)"
  proof (rule read_name [OF assms(2) g r(1)])
    show "\<not> name_part (code (CHR ''<''))" by (simp add: name_part_def name_start_def)
  qed
  have arrow: "eat ''<-'' (advance (length ?n) g) = (True, advance (length ?n + 2) g)"
    using eat_dark [of "advance (length ?n) g" "''<-''" "?t @ CHR '';'' # s"] g by (simp add: dark_def is_whitespace_def)
  have "text_ok (advance (length (?n @ ''<-'')) g)"
    using name_ok_ascii [OF r(1)] g by (intro text_ok_advance [OF assms(2), of _ "?t @ CHR '';'' # s"]) auto
  then have ok: "text_ok (advance (length ?n + 2) g)" by simp
  have "reads_back after_choice (grammar_choice (Suc 128)) (Suc (nest 0 ?e)) ?t ?e"
    using print_back [OF r(2)] r(3) by (intro choice_backD) simp_all
  then have "reads_back after_choice (grammar_choice 129) (Suc (nest 0 ?e)) ?t ?e" by (metis Suc_numeral semiring_norm(5,8))
  from readsD [OF this ok, of "CHR '';'' # s"] g r(3) assms(4)
  have choice: "grammar_choice 129 (advance (length ?n + 2) g) = (Inr ?e, advance (length ?n + 2 + length ?t) g)"
    by (simp add: after_choice_def del: grammar_choice_Suc grammar_choice.simps)
  have "eat '';'' (advance (length ?n + 2 + length ?t) g) = (True, advance (length (rule_text r)) g)"
    using eat_dark [of "advance (length ?n + 2 + length ?t) g" "'';''" s] g
    by (simp add: dark_def is_whitespace_def rule_text_def)
  with name arrow choice assms(5) show ?thesis by (simp add: read_rule_def io_then_def)
qed

lemma read_rules_back:
  "\<lbrakk>list_all rule_printable rules; text_ok g; rest g = rules_text rules; gr_nesting g = 0\<rbrakk> \<Longrightarrow>
   rules_loop acc g = (Inr (acc @ rules), advance (length (rules_text rules)) g)"
proof (induction rules arbitrary: g acc)
  case Nil
  then show ?case by (subst rules_loop.simps) (simp add: peek_def rules_text_def)
next
  case (Cons r rs)
  let ?g = "advance (length (rule_text r)) g"
  have r: "rest g = rule_text r @ rules_text rs" "rule_printable r" using Cons.prems(1,3) by (simp_all add: rules_text_def)
  have g: "rest ?g = rules_text rs" using r(1) by simp
  have "read_rule g = (Inr r, ?g)"
    using r Cons.prems skip_rules_text [OF g] by (intro read_rule_back) simp_all
  moreover obtain c t where c: "rule_text r = c # t" "dark c" by (rule rule_text_dark [OF r(2)])
  have "peek g = Some (code c)" using r(1) c by (intro peek_cons) (simp_all add: dark_def)
  moreover have "remaining ?g < remaining g" using r(1) c(1) by (simp add: remaining_rest)
  moreover have "rules_loop (acc @ [r]) ?g = (Inr ((acc @ [r]) @ rs), advance (length (rules_text rs)) ?g)"
    using Cons.prems g text_ok_advance [OF Cons.prems(2) r(1) rule_text_ascii [OF r(2)]] by (intro Cons.IH) simp_all
  ultimately show ?case by (subst rules_loop.simps) (simp add: rules_text_def)
qed

lemma read_rules_text:
  assumes "rules \<noteq> []" "list_all rule_printable rules"
  shows "read_rules (rules_text rules) = Inr rules"
proof -
  let ?g = "\<lparr>gr_text = rules_text rules, gr_pos = 0, gr_nesting = 0\<rparr>"
  have g: "rest ?g = rules_text rules" by (simp add: rest_def)
  have "text_ok ?g" using is_str_ascii [OF rules_text_ascii [OF assms(2)], of "[]"] by (simp add: text_ok_def rest_def)
  with read_rules_back [OF assms(2) _ g, of "[]"] skip_rules_text [OF g assms(2)] assms(1) show ?thesis
    by (simp add: read_rules_def io_then_def)
qed

section \<open>Accepted texts\<close>

definition sample_rules :: "rule list" where
  "sample_rules =
     [\<lparr>rule_name = ''Root'', rule_expr = Seq [Predicate (Lit ''.'' False) False, Repeat (Choice [Ref ''Word'', Lit ''end'' True]) True]\<rparr>,
      \<lparr>rule_name = ''Word'', rule_expr = Seq [Class [(97, 122)] False, Optional Any]\<rparr>]"

lemma sample_rules_printable: "list_all rule_printable sample_rules"
  by (simp add: sample_rules_def rule_printable_def is_identifier_def name_start_def name_part_def unicode_scalar_def)

lemma word_grammar_printable: "list_all rule_printable word_grammar"
  by (simp add: word_grammar_def rule_printable_def is_identifier_def name_start_def name_part_def unicode_scalar_def)

lemma read_rules_accepted:
  assumes "is_str s" "read_rules s = Inr rules"
  shows "rules \<noteq> [] \<and> list_all rule_ok rules"
proof -
  let ?g = "\<lparr>gr_text = s, gr_pos = 0, gr_nesting = 0\<rparr>"
  from assms(2) obtain g' where g': "rules_loop [] (skip ?g) = (Inr rules, g')" "rules \<noteq> []"
    by (auto simp: read_rules_def grammar_error_def io_then_def split: prod.splits sum.splits if_splits)
  have "text_ok (skip ?g)" using assms(1) by (intro skip_ok) (simp add: text_ok_def rest_def)
  with rules_loop_reads [OF _ _ g'(1)] g'(2) show ?thesis by simp
qed

text \<open>
  C37: The macro decides every grammar text. Reading and validation return; an error means that the
  text is malformed or that its rules are not well-formed. An accepted grammar has at least one
  rule; every rule name and every reference is an identifier, literals are valid strings, classes
  are nonempty lists of ordered ranges of scalar values, sequences and choices have at least two
  parts, the nesting limit bounds the height of every expression by 512, which bounds the
  recursion of the later passes, and the rules are well-formed.
\<close>

theorem grammar_text_checked:
  assumes "is_str s"
  shows "\<exists>r. grammar_checked s = Some r \<and>
    (case r of
       Inl e \<Rightarrow> read_rules s = Inl e \<or> (\<exists>rules. read_rules s = Inr rules \<and> \<not> well_formed rules)
     | Inr (rules, names) \<Rightarrow> rules \<noteq> [] \<and> list_all rule_ok rules \<and> well_formed rules)"
proof (cases "read_rules s")
  case (Inr rules)
  from peg_validate_decides [of rules] obtain v where v: "peg_validate rules = Some v" "isl v \<longleftrightarrow> \<not> well_formed rules" by blast
  with Inr read_rules_accepted [OF assms Inr] show ?thesis by (cases v) (auto simp: grammar_checked_def)
qed (simp add: grammar_checked_def)

theorem grammar_text_checked_witness:
  "grammar_checked (rules_text word_grammar) = Some (Inr (word_grammar, index_of word_grammar)) \<and>
   list_all rule_ok word_grammar \<and> well_formed word_grammar"
proof -
  have s: "is_str (rules_text word_grammar)"
    using is_str_ascii [OF rules_text_ascii [OF word_grammar_printable], of "[]"] by simp
  have r: "read_rules (rules_text word_grammar) = Inr word_grammar"
    using word_grammar_printable by (intro read_rules_text) (simp_all add: word_grammar_def)
  then have "grammar_checked (rules_text word_grammar) = Some (Inr (word_grammar, index_of word_grammar))"
    by (simp add: grammar_checked_def word_grammar_valid)
  with grammar_text_checked [OF s] show ?thesis by auto
qed

text \<open>
  C38: Every grammar can be written down: for a nonempty list of rules whose names are identifiers
  and whose expressions are well-formed, with ASCII literals and nesting within the limit of 128,
  reading the printed text gives exactly these rules.
\<close>

theorem grammar_text_roundtrip:
  assumes "rules \<noteq> []" "list_all rule_printable rules"
  shows "read_rules (rules_text rules) = Inr rules"
  using assms by (rule read_rules_text)

theorem grammar_text_roundtrip_witness: "sample_rules \<noteq> [] \<and> read_rules (rules_text sample_rules) = Inr sample_rules"
proof -
  have "sample_rules \<noteq> []" by (simp add: sample_rules_def)
  with grammar_text_roundtrip [OF this sample_rules_printable] show ?thesis by blast
qed

end
