(* ===== verification/Spec2Isabelle.thy ===== *)
theory Spec2Isabelle
  imports Ctid LoadingProtocol SqlPipeline SqlGrammar PlannerSpec GrammarPrint
begin

text \<open>
  A verification of ChiliDB, a small OLTP database made of replaceable layers (\<^verbatim>\<open>src/crates\<close>).
  SQL text is parsed by a parser that a macro generates from a PEG grammar (\<^verbatim>\<open>peg\<close>, \<^verbatim>\<open>parser\<close>), bound
  against a catalog (\<^verbatim>\<open>binder\<close>), lowered to a logical plan (\<^verbatim>\<open>planner\<close>), rewritten (\<^verbatim>\<open>optimizer\<close>) and handed
  to DataFusion (\<^verbatim>\<open>executor\<close>). Below, the catalog (\<^verbatim>\<open>catalog\<close>) keeps table definitions in a heap (\<^verbatim>\<open>heapam\<close>)
  whose slotted pages live in a buffer pool over a page store (\<^verbatim>\<open>storage\<close>); \<^verbatim>\<open>common\<close> holds tuple addresses.
  Each theory translates one component in the order of its source, with the state as a record, one
  definition per operation and every error, panic and early return as a value.

  \<^bold>\<open>Shared vocabulary.\<close> \<open>Prelude\<close> has the machine integers, Rust's \<^verbatim>\<open>Result\<close> as a sum, state-passing
  operations (\<open>io\<close>, \<open>io_then\<close>) and the lemmas on lists and bytes that the components share.

  \<^bold>\<open>Storage.\<close> \<open>Ctid\<close> models \<^verbatim>\<open>common/src/lib.rs\<close>: a tuple address and its six-byte codec, a bijection on
  valid addresses. \<open>PageStore\<close> models \<^verbatim>\<open>storage/src/store.rs\<close>. The locale \<open>page_store\<close> is the contract of the
  \<^verbatim>\<open>PageStore\<close> trait, \<open>reliable_page_store\<close> adds that no call fails; both are interpreted on the memory
  store, the first on the file store, whose operating-system file is a record with a schedule of
  faults. \<open>Replacement\<close> models \<^verbatim>\<open>replacement.rs\<close>: the locale \<open>sound_strategy\<close> and the clock strategy with
  its second chance. \<open>BufferPool\<close> models \<^verbatim>\<open>buffer.rs\<close>: under any strategy, eviction order and store fault
  every sequence of calls with its results (\<open>pool_call\<close>) is a run of one map from pages to contents
  (\<open>page_map_call\<close>, \<open>pool_refines_page_map\<close>), and with a reliable store
  and a sound strategy (\<open>reliable_pool\<close>) a pin succeeds unless all frames are pinned. \<open>LoadingProtocol\<close>
  models the transition system of \<^verbatim>\<open>models/buffer_pool.rs\<close> for any number of frames, pages and backends
  as an inductive step relation: safety by rule induction over reachable states, absence of
  deadlock, and that the states the protocol is meant to reach are reached in exactly the
  configurations for which the source demands it.

  \<^bold>\<open>Heaps.\<close> \<open>HeapPage\<close> models \<^verbatim>\<open>heapam/src/page.rs\<close> on byte lists of 8192 bytes: bounds of every slot,
  and each operation against the abstract page, a list of optional records. \<open>HeapTable\<close> models
  \<^verbatim>\<open>heap.rs\<close> over the pool; \<open>HeapSpec\<close> proves that a heap is a finite map from addresses to records, for
  insert, get, replace, delete, scans and opening, whatever the pool evicts and on every error.

  \<^bold>\<open>Catalog.\<close> \<open>Schema\<close> models types, schemas and declarations (\<^verbatim>\<open>binder/src/catalog.rs\<close>, \<^verbatim>\<open>ast.rs\<close>).
  \<open>CatalogCodec\<close> models \<^verbatim>\<open>catalog/src/codec.rs\<close>: encoding and decoding are inverse, validation accepts
  exactly the well-formed schemas, and whatever decodes is one. \<open>Catalog\<close> models \<^verbatim>\<open>catalog/src/lib.rs\<close>: creation, opening, creating
  and looking up tables, against a map from names to declarations.

  \<^bold>\<open>Parsing.\<close> \<open>Peg\<close>, \<open>PegParser\<close> and \<open>PegSpec\<close> model \<^verbatim>\<open>peg/src/lib.rs\<close>: validation of grammars decides
  well-formedness; the generated functions are one interpreter over the grammar, and for a valid
  grammar (locale \<open>valid_grammar\<close>, interpreted on the SQL grammar) its answers are those of the
  relational semantics \<open>peg\<close>, which gives exactly one result. \<open>GrammarText\<close> models the reader of the
  macro's argument, \<open>GrammarSpec\<close> shows that it stays on character boundaries and what it accepts, and
  \<open>GrammarPrint\<close> that every grammar is read back from its text. \<open>SqlAst\<close>, \<open>Transform\<close> and
  \<open>TransformSpec\<close> model \<^verbatim>\<open>parser/src/ast.rs\<close> and \<^verbatim>\<open>transform.rs\<close>, \<open>SqlGrammar\<close> \<^verbatim>\<open>grammar.rs\<close> and
  \<^verbatim>\<open>parser/src/lib.rs\<close>: SQL parsing reports the unique result of the grammar, which is the
  statements of the matching tree, an exhausted budget, a mismatch or an objection of the
  transformation.

  \<^bold>\<open>Binding.\<close> \<open>Numbers\<close> (numeric tokens, IEEE doubles as bit patterns), \<open>BoundAst\<close>, \<open>Binder\<close> and
  \<open>BindStatements\<close> model the \<^verbatim>\<open>binder\<close> crate. \<open>BindTypes\<close> states a type system for bound expressions
  independently of the binder; \<open>BindErrors\<close> and \<open>BinderSpec\<close> prove that bound statements are typed, which
  errors occur, and that column resolution is the nearest-scope rule. \<open>CatalogBinding\<close> gives the
  binder's lookup (locale \<open>table_catalog\<close>) by the heap catalog (\<open>opened_catalog\<close>, a sublocale).
  \<open>SqlPipeline\<close> follows a table declaration from SQL text to the reopened catalog.

  \<^bold>\<open>Planning.\<close> \<open>DataFusion\<close> names what the planner builds and calls; \<open>ModifyTable\<close>, \<open>Boundary\<close> and
  \<open>Planner\<close> model the \<^verbatim>\<open>planner\<close> crate, the pipeline of \<^verbatim>\<open>optimizer\<close> and the checks of \<^verbatim>\<open>executor\<close>.
  \<open>PlannerSpec\<close> shows that none of the planner's own checks fires on a bound statement, the validation of
  its modification node included, so that planning fails only where DataFusion refuses to construct a
  plan, and that modification nodes are rebuilt faithfully; \<open>Boundary\<close> that optimizer and executor accept
  exactly the plans that keep the output of a query or the target of an INSERT, a contract stated
  over plans and schemas without the tests of the code.

  This theory composes the layers: heaps and catalogs survive a restart.

  \<^bold>\<open>Bounds and fuel.\<close> Every loop is a function with a termination proof, except the two fixpoint loops
  of validation, which are partial functions proved to return. The interpreter of grammars recurses
  to the source's own limit of 512 calls (\<open>depth_limit\<close>), so deeper levels are never called, and spends
  the source's budget of 1000000 steps. Binding and planning stop at 256 levels, as the sources do.
  A grammar choice is unrolled to level 129, one more than the nesting limit of 128: higher levels
  give the same result (\<open>grammar_choice_level\<close>). Guards that make a loop terminate for an arbitrary
  body never fire for the bodies of the sources (\<open>sequence_loop_unguarded\<close> and its companions).

  \<^bold>\<open>Code outside the repository.\<close> DataFusion and Arrow are a record of functions that the planner takes
  as an argument; what the theorems need of them are the laws \<open>df_laws\<close>: on schemas (what a scan offers,
  what filters, sorts and windows keep, the columns of a projection, lookup by name), on the types
  inferred for columns, literals, casts, tests and operators, and that the nodes the planner builds contain no
  modification; \<open>sample_datafusion\<close> is an instance. The
  optimizer's rules and the physical executor may do anything. The operating system's file calls
  may fail at any point and in part.

  \<^bold>\<open>Not modelled.\<close> The root crate and the examples only re-export and print. Hashing, \<^verbatim>\<open>Debug\<close> and
  explain formatting and the token streams of the macro are left out: they carry no state of their
  own. Mutexes make every call atomic, with poisoning as a flag; threads
  interleave only in \<open>LoadingProtocol\<close>. Benchmarks and tests are not part of the program.
\<close>

section \<open>Durability of heaps\<close>

text \<open>
  C2: Records survive a restart. If \<^verbatim>\<open>flush_all\<close> returns \<^verbatim>\<open>Ok\<close> while a heap holds certain
  records, then a pool of any capacity and any replacement strategy opened later on that
  store shows every page as it was, and \<^verbatim>\<open>HeapTable::open\<close> on the same head gives a handle
  with exactly those records, unless the pool itself reports a failure.
\<close>

theorem heap_survives_restart:
  assumes "page_store so swf contents" "pool_inv swf contents H s" "heap_ok (pool_view contents s) t"
    and "pool_flush_all so vs s = (Inr (), s1)"
    and "pool_with_strategy ds capacity (p_store s1) v = Inr s2"
    and "heap_open so vs' (ht_head t) s2 = (r, s3)"
  shows "case r of
      Inr t' \<Rightarrow> ht_pages t' = ht_pages t \<and> heap_ok (pool_view contents s3) t' \<and>
        heap_map (pool_view contents s3) t' = heap_map (pool_view contents s) t
    | Inl e \<Rightarrow> \<exists>b. e = Buffer b"
proof -
  from page_store.pool_flush_all_inv [OF assms(1,2,4)]
  have c: "contents (p_store s1) = pool_view contents s" and i: "swf (p_store s1)" by (auto simp: pool_inv_def)
  have p: "pool_inv swf contents {#} s2" "pool_view contents s2 = contents (p_store s1)"
    using pool_with_strategy_inv(1,2) [OF assms(5), where swf = swf and c = contents] i by simp_all
  from p(2) c assms(3) have "heap_ok (pool_view contents s2) t" by simp
  from page_store.heap_open_complete [OF assms(1) p(1) this assms(6)] p(2) c show ?thesis by (auto split: sum.split)
qed

theorem heap_survives_restart_witness:
  "\<exists>s1 s2. pool_flush_all memory_page_store clock_strategy small_heap_pool = (Inr (), s1) \<and>
     pool_with_strategy 64 1 (p_store s1) \<lparr>referenced = [False], hand = 0\<rparr> = Inr s2 \<and>
     (case heap_open memory_page_store clock_strategy 0 s2 of
        (Inr t', s3) \<Rightarrow> ht_pages t' = [0] \<and> heap_map (pool_view memory_contents s3) t' = Map.empty
      | (Inl e, s3) \<Rightarrow> \<exists>b. e = Buffer b)"
proof -
  obtain u s1 where f: "pool_flush_all memory_page_store clock_strategy small_heap_pool = (u, s1)" by fastforce
  then have u: "u = Inr ()"
    by (auto simp: pool_flush_all_def pool_flush_page_def with_drop_def latch_def flush_resident_def drop_pin_def
        pool_eval small_pool1_def small_heap_pool_def)
  obtain s2 where s2: "pool_with_strategy 64 1 (p_store s1) \<lparr>referenced = [False], hand = 0\<rparr> = Inr s2"
    by (simp add: validate_capacity_def layout_array_ok_def PAGE_SIZE_def pool_with_strategy_def)
  obtain r s3 where r: "heap_open memory_page_store clock_strategy 0 s2 = (r, s3)" by fastforce
  have h: "ht_head small_heap = 0" "ht_pages small_heap = [0]" by (simp_all add: small_heap_def)
  from heap_survives_restart [OF mem.page_store_axioms small_heap_ok(1,2) f [unfolded u] s2, unfolded h, OF r]
    small_heap_ok(3) f u s2 r h(2) show ?thesis by (intro exI [of _ s1] exI [of _ s2]) (cases r; simp)
qed

text \<open>
  C3: Tables survive a restart. If \<^verbatim>\<open>flush_all\<close> returns \<^verbatim>\<open>Ok\<close> on a consistent catalog, then
  \<^verbatim>\<open>HeapCatalog::open\<close> on the same root, in a new pool over that store, gives a consistent
  catalog with exactly the same tables, schemas, constraints and heap heads, unless the pool
  reports a failure; and every table heap it opens shows the records it had.
\<close>

theorem catalog_survives_restart:
  assumes "page_store so swf contents" "pool_inv swf contents H s" "catalog_ok (pool_view contents s) cat"
    and "pool_flush_all so vs s = (Inr (), s1)"
    and "pool_with_strategy ds capacity (p_store s1) v = Inr s2"
    and "catalog_open so vs' (ht_head (cat_metadata cat)) s2 = (r, s3)"
  shows "case r of
      Inr cat' \<Rightarrow> catalog_ok (pool_view contents s3) cat' \<and> catalog_defs cat' = catalog_defs cat \<and>
        pool_view contents s3 = pool_view contents s
    | Inl e \<Rightarrow> \<exists>h. e = Heap h \<and> infra h"
proof -
  from page_store.pool_flush_all_inv [OF assms(1,2,4)]
  have c: "contents (p_store s1) = pool_view contents s" and i: "swf (p_store s1)" by (auto simp: pool_inv_def)
  have p: "pool_inv swf contents {#} s2" "pool_view contents s2 = contents (p_store s1)"
    using pool_with_strategy_inv(1,2) [OF assms(5), where swf = swf and c = contents] i by simp_all
  from page_store.catalog_open_result [OF assms(1) p(1) assms(6)] p(2) c
  have o: "pool_view contents s3 = pool_view contents s" "reopened (pool_view contents s) (ht_head (cat_metadata cat)) r" by simp_all
  show ?thesis
  proof (cases r)
    case (Inl e)
    with o(2) assms(3) show ?thesis by (simp add: reopened_def)
  next
    case (Inr cat')
    with o(2) have k: "catalog_ok (pool_view contents s) cat'" "ht_head (cat_metadata cat') = ht_head (cat_metadata cat)"
      by (simp_all add: reopened_def)
    with catalog_unique [OF k(1) assms(3)] o(1) Inr show ?thesis by simp
  qed
qed

theorem catalog_survives_restart_witness:
  "\<exists>cat s s1 s2. catalog_create memory_page_store clock_strategy small_pool = (Inr cat, s) \<and>
     pool_flush_all memory_page_store clock_strategy s = (Inr (), s1) \<and>
     pool_with_strategy 64 1 (p_store s1) \<lparr>referenced = [False], hand = 0\<rparr> = Inr s2 \<and>
     (case fst (catalog_open memory_page_store clock_strategy (ht_head (cat_metadata cat)) s2) of
        Inr cat' \<Rightarrow> catalog_defs cat' = Map.empty
      | Inl e \<Rightarrow> \<exists>h. e = Heap h \<and> infra h)"
proof -
  obtain cat s where c: "catalog_create memory_page_store clock_strategy small_pool = (Inr cat, s)"
    "pool_inv memory_wf memory_contents {#} s" "catalog_ok (pool_view memory_contents s) cat"
    "catalog_defs cat = Map.empty" "\<not> cat_poisoned cat" "pool_healthy clock_inv s" by (rule small_catalog)
  from mempool.flush_all_progress [OF c(2,6)] obtain s1 where
    f: "pool_flush_all memory_page_store clock_strategy s = (Inr (), s1)" by blast
  obtain s2 where s2: "pool_with_strategy 64 1 (p_store s1) \<lparr>referenced = [False], hand = 0\<rparr> = Inr s2"
    by (simp add: validate_capacity_def layout_array_ok_def PAGE_SIZE_def pool_with_strategy_def)
  obtain r s3 where r: "catalog_open memory_page_store clock_strategy (ht_head (cat_metadata cat)) s2 = (r, s3)" by fastforce
  note cs = catalog_survives_restart [OF mem.page_store_axioms c(2,3) f s2 r]
  have "case r of Inr cat' \<Rightarrow> catalog_defs cat' = Map.empty | Inl e \<Rightarrow> \<exists>h. e = Heap h \<and> infra h"
    using cs c(4) by (cases r) simp_all
  with r have "case fst (catalog_open memory_page_store clock_strategy (ht_head (cat_metadata cat)) s2) of
      Inr cat' \<Rightarrow> catalog_defs cat' = Map.empty | Inl e \<Rightarrow> \<exists>h. e = Heap h \<and> infra h" by simp
  with c(1) f s2 show ?thesis by blast
qed

end
